(* ===== verification/Prelude.thy ===== *)
theory Prelude
  imports Main "HOL-Library.Word" "HOL-Library.Monad_Syntax" "HOL-Library.Sublist"
begin

text \<open>
  Shared vocabulary of the development.

  A C function that can run into undefined behaviour (a read or write outside an object, a
  null dereference) returns \<open>'a option\<close>: \<open>None\<close> is undefined behaviour (or, for the
  functions that take fuel, fuel exhausted), \<open>Some r\<close> a defined result.  Bytes are HOL
  characters (256 values), a C object of bytes is a \<open>string\<close> that lists all its bytes, and
  a C string is the part of it before the first NUL.  A pointer into an object is an index.
\<close>

unbundle bit_operations_syntax

named_theorems mem_simps \<open>unfolding rules for reads and writes of C objects\<close>
named_theorems flag_simps \<open>evaluation of the type bits of an item\<close>

type_synonym u32 = "32 word"

section \<open>Bytes\<close>

abbreviation NUL :: char where "NUL \<equiv> CHR 0x00"

abbreviation ord :: "char \<Rightarrow> nat" where "ord c \<equiv> of_char c"

lemma ord_inj: "ord a = ord b \<longleftrightarrow> a = b"
  by (rule of_char_eq_iff)

lemma ord_NUL [simp]: "ord c = 0 \<longleftrightarrow> c = NUL"
  using ord_inj [of c NUL] by simp

text \<open>\<open>tolower\<close> in the C locale.\<close>

definition tolower :: "char \<Rightarrow> char" where
  "tolower c = (if 65 \<le> ord c \<and> ord c \<le> 90 then char_of (ord c + 32) else c)"

lemma tolower_NUL [simp]: "tolower NUL = NUL"
  by (simp add: tolower_def)

lemma ord_char_of [simp]: "n < 256 \<Longrightarrow> ord (char_of n) = n"
  by simp

lemma ord_tolower:
  "ord (tolower c) = (if 65 \<le> ord c \<and> ord c \<le> 90 then ord c + 32 else ord c)"
  by (simp add: tolower_def)

lemma tolower_eq_NUL [simp]: "tolower c = NUL \<longleftrightarrow> c = NUL"
proof -
  have "ord (tolower c) = 0 \<longleftrightarrow> ord c = 0"
    by (simp add: ord_tolower del: ord_NUL)
  then show ?thesis by (simp only: ord_NUL)
qed

lemma tolower_idem [simp]: "tolower (tolower c) = tolower c"
proof -
  have "ord (tolower (tolower c)) = ord (tolower c)"
    by (simp only: ord_tolower) auto
  then show ?thesis by (simp only: of_char_eq_iff)
qed

section \<open>Objects of bytes\<close>

definition peek :: "string \<Rightarrow> nat \<Rightarrow> char option" where
  "peek s i = (if i < length s then Some (s ! i) else None)"

definition poke :: "string \<Rightarrow> nat \<Rightarrow> char \<Rightarrow> string option" where
  "poke s i c = (if i < length s then Some (s[i := c]) else None)"

text \<open>\<open>memcpy\<close> of \<open>cs\<close> to index \<open>i\<close> of the object \<open>s\<close>.\<close>

definition blit :: "string \<Rightarrow> nat \<Rightarrow> string \<Rightarrow> string option" where
  "blit s i cs = (if i + length cs \<le> length s
                  then Some (take i s @ cs @ drop (i + length cs) s) else None)"

definition cstring :: "string \<Rightarrow> string" where
  "cstring s = takeWhile (\<lambda>c. c \<noteq> NUL) s"

definition nulfree :: "string \<Rightarrow> bool" where
  "nulfree s \<longleftrightarrow> NUL \<notin> set s"

lemma peek_Some_iff: "peek s i = Some c \<longleftrightarrow> i < length s \<and> c = s ! i"
  by (auto simp: peek_def)

lemma peek_in [mem_simps]: "i < length s \<Longrightarrow> peek s i = Some (s ! i)"
  by (simp add: peek_def)

lemma peek_append_right [simp]: "peek (xs @ ys) (length xs + i) = peek ys i"
  by (simp add: peek_def nth_append)

lemma peek_append_left: "i < length xs \<Longrightarrow> peek (xs @ ys) i = peek xs i"
  by (simp add: peek_def nth_append)

lemma blit_length: "blit s i cs = Some s' \<Longrightarrow> length s' = length s"
  by (auto simp: blit_def split: if_splits)

lemma blit_in [mem_simps]:
  "i + length cs \<le> length s \<Longrightarrow> blit s i cs = Some (take i s @ cs @ drop (i + length cs) s)"
  by (simp add: blit_def)

lemma poke_length: "poke s i c = Some s' \<Longrightarrow> length s' = length s"
  by (auto simp: poke_def split: if_splits)

lemma poke_eq_blit: "poke s i c = blit s i [c]"
  by (auto simp: poke_def blit_def upd_conv_take_nth_drop)

lemma cstring_nulfree [simp]: "nulfree (cstring s)"
  by (auto simp: nulfree_def cstring_def dest: set_takeWhileD)

lemma cstring_id [simp]: "nulfree s \<Longrightarrow> cstring s = s"
  unfolding cstring_def nulfree_def takeWhile_eq_all_conv by blast

lemma cstring_append_NUL [simp]: "nulfree s \<Longrightarrow> cstring (s @ NUL # t) = s"
proof (induction s)
  case (Cons c s)
  then show ?case by (auto simp: cstring_def nulfree_def)
qed (simp add: cstring_def)

lemma nulfree_simps [simp]:
  "nulfree []" "nulfree (c # s) \<longleftrightarrow> c \<noteq> NUL \<and> nulfree s" "nulfree (s @ t) \<longleftrightarrow> nulfree s \<and> nulfree t"
  by (auto simp: nulfree_def)

text \<open>\<open>strlen\<close> of the string that starts at index \<open>i\<close>: undefined when no NUL follows.\<close>

definition strlen_at :: "string \<Rightarrow> nat \<Rightarrow> nat option" where
  "strlen_at s i = (let n = length (cstring (drop i s)) in if i + n < length s then Some n else None)"

lemma strlen_at_found:
  assumes "nulfree t"
  shows "strlen_at (xs @ t @ NUL # ys) (length xs) = Some (length t)"
  using assms by (simp add: strlen_at_def Let_def)

section \<open>Lists and options\<close>

lemma find_append: "find P (xs @ ys) = (case find P xs of None \<Rightarrow> find P ys | Some x \<Rightarrow> Some x)"
  by (induction xs) auto

lemma bind_Some_iff [simp]:
  "Option.bind m f = Some r \<longleftrightarrow> (\<exists>x. m = Some x \<and> f x = Some r)"
  by (cases m) auto

lemma bind_None_iff: "Option.bind m f = None \<longleftrightarrow> m = None \<or> (\<exists>x. m = Some x \<and> f x = None)"
  by (cases m) auto

text \<open>A property of the result where there is one.\<close>

lemma pred_option_iff: "pred_option P r \<longleftrightarrow> (\<forall>x. r = Some x \<longrightarrow> P x)"
  by (cases r) auto

lemma pred_option_True [simp]: "pred_option (\<lambda>_. True) r"
  by (cases r) auto

lemma pred_bind: "pred_option Q r \<Longrightarrow> (\<And>x. Q x \<Longrightarrow> pred_option P (f x)) \<Longrightarrow> pred_option P (Option.bind r f)"
  by (cases r) auto

end
