(* ===== verification/Doubles.thy ===== *)
theory Doubles
  imports Complex_Main Prelude
begin

text \<open>
  The C type \<open>double\<close> (IEEE binary64) and what the program uses of the C library on it:
  \<open>fabs\<close>, subtraction, multiplication, comparison, conversion to \<open>int\<close>, \<open>strtod\<close>
  (and \<open>sscanf\<close> with \<open>%lg\<close>) and \<open>sprintf\<close> with \<open>%1.15g\<close> and \<open>%1.17g\<close>,
  all with the default rounding (to nearest, ties to even).  A finite double is
  \<open>(-1)^s * m * 2^e\<close>; every operation computes on integers, so it can be evaluated.
\<close>

section \<open>Values\<close>

datatype double = NaN | Infinity bool | Finite bool nat int

definition canonical :: "nat \<Rightarrow> int \<Rightarrow> bool" where
  "canonical m e \<longleftrightarrow> m < 2 ^ 53 \<and> - 1074 \<le> e \<and> e \<le> 971 \<and> (2 ^ 52 \<le> m \<or> e = - 1074)"

fun wf_double :: "double \<Rightarrow> bool" where
  "wf_double (Finite s m e) = canonical m e"
| "wf_double _ = True"

fun is_finite :: "double \<Rightarrow> bool" where
  "is_finite (Finite s m e) = True"
| "is_finite _ = False"

definition zero_double :: double where
  "zero_double = Finite False 0 (- 1074)"

fun dval :: "double \<Rightarrow> real" where
  "dval (Finite s m e) = (if s then - 1 else 1) * (real m * 2 powi e)"
| "dval _ = 0"

section \<open>Scaled fractions and logarithms\<close>

fun ilog :: "nat \<Rightarrow> nat \<Rightarrow> nat" where
  "ilog b n = (if b < 2 \<or> n < b then 0 else Suc (ilog b (n div b)))"

declare ilog.simps [simp del]

definition scale :: "nat \<Rightarrow> int \<Rightarrow> nat \<times> nat \<Rightarrow> nat \<times> nat" where
  "scale b k q = (if 0 \<le> k then (fst q * b ^ nat k, snd q) else (fst q, snd q * b ^ nat (- k)))"

text \<open>The integer \<open>k\<close> with \<open>b ^ k \<le> n / d < b ^ (k + 1)\<close>.\<close>

definition qlog :: "nat \<Rightarrow> nat \<times> nat \<Rightarrow> int" where
  "qlog b q = (let k = int (ilog b (fst q)) - int (ilog b (snd q)); q' = scale b (- k) q
               in if snd q' \<le> fst q' then k else k - 1)"

definition half_even :: "nat \<times> nat \<Rightarrow> nat" where
  "half_even q = (let n = fst q div snd q; r = fst q mod snd q
                  in if 2 * r < snd q \<or> (2 * r = snd q \<and> even n) then n else n + 1)"

definition qval :: "nat \<times> nat \<Rightarrow> real" where
  "qval q = real (fst q) / real (snd q)"

definition qpos :: "nat \<times> nat \<Rightarrow> bool" where
  "qpos q \<longleftrightarrow> 0 < fst q \<and> 0 < snd q"

lemma ilog_bounds:
  assumes "2 \<le> b" "0 < n"
  shows "b ^ ilog b n \<le> n \<and> n < b ^ Suc (ilog b n)"
  using assms
proof (induction b n rule: ilog.induct)
  case (1 b n)
  show ?case
  proof (cases "n < b")
    case True
    with 1 show ?thesis by (simp add: ilog.simps [of b n])
  next
    case False
    with 1 have pos: "0 < n div b" by (simp add: div_greater_zero_iff)
    with 1 False have IH: "b ^ ilog b (n div b) \<le> n div b" "n div b < b ^ Suc (ilog b (n div b))"
      by auto
    have "b * b ^ ilog b (n div b) \<le> b * (n div b)" using IH(1) by simp
    also have "\<dots> \<le> n" by simp
    finally have lo: "b ^ Suc (ilog b (n div b)) \<le> n" by simp
    have "n < b * (n div b + 1)" using 1(2)
      by (metis Suc_eq_plus1 Suc_le_lessD dividend_less_times_div less_le_trans mult_Suc_right
          add.commute zero_less_numeral)
    also have "\<dots> \<le> b * b ^ Suc (ilog b (n div b))"
      using IH(2) by (intro mult_le_mono2) simp
    finally have hi: "n < b ^ Suc (Suc (ilog b (n div b)))" by simp
    from False 1 lo hi show ?thesis by (simp add: ilog.simps [of b n])
  qed
qed

lemma scale_pos: "2 \<le> b \<Longrightarrow> qpos q \<Longrightarrow> qpos (scale b k q)"
  by (auto simp: qpos_def scale_def)

lemma snd_scale_pos: "2 \<le> b \<Longrightarrow> 0 < snd q \<Longrightarrow> 0 < snd (scale b k q)"
  by (auto simp: scale_def)

lemma qval_scale: "2 \<le> b \<Longrightarrow> qval (scale b k q) = qval q * real b powi k"
  by (auto simp: qval_def scale_def power_int_def field_simps)

lemma qval_of_nat: "qval (n, 1) = real n" "qval (n, Suc 0) = real n"
  by (simp_all add: qval_def)

lemma qval_pos: "qpos q \<Longrightarrow> 0 < qval q"
  by (simp add: qval_def qpos_def)

lemma qval_nonneg [simp]: "0 \<le> qval q"
  by (simp add: qval_def)

lemma qlog_bounds:
  assumes b: "2 \<le> b" and q: "qpos q"
  shows "real b powi qlog b q \<le> qval q \<and> qval q < real b powi (qlog b q + 1)"
proof -
  obtain n d where [simp]: "q = (n, d)" by fastforce
  from q have n: "0 < n" and d: "0 < d" by (auto simp: qpos_def)
  define k where "k = int (ilog b n) - int (ilog b d)"
  have b0: "real b \<noteq> 0" "1 < real b" using b by auto
  from ilog_bounds [OF b n] have N: "real b ^ ilog b n \<le> real n" "real n < real b ^ Suc (ilog b n)"
    by (metis of_nat_le_iff of_nat_power, metis of_nat_less_iff of_nat_power)
  from ilog_bounds [OF b d] have D: "real b ^ ilog b d \<le> real d" "real d < real b ^ Suc (ilog b d)"
    by (metis of_nat_le_iff of_nat_power, metis of_nat_less_iff of_nat_power)
  have pw: "real b powi (int x - int y) = real b ^ x / real b ^ y" for x y
    using b0 by (simp add: power_int_diff)
  have lo: "real b powi (k - 1) < qval q"
  proof -
    have "real b powi (k - 1) = real b ^ ilog b n / real b ^ Suc (ilog b d)"
      using pw [of "ilog b n" "Suc (ilog b d)"] by (simp add: k_def algebra_simps)
    also have "\<dots> < real n / real d"
      using N D b0 n d by (intro frac_less2) (auto simp: less_imp_le)
    finally show ?thesis by (simp add: qval_def)
  qed
  have hi: "qval q < real b powi (k + 1)"
  proof -
    have "real n / real d < real b ^ Suc (ilog b n) / real b ^ ilog b d"
      using N D b0 n d by (intro frac_less) (auto simp: less_imp_le)
    also have "\<dots> = real b powi (k + 1)"
      using pw [of "Suc (ilog b n)" "ilog b d"] by (simp add: k_def algebra_simps)
    finally show ?thesis by (simp add: qval_def)
  qed
  have test: "snd (scale b (- k) q) \<le> fst (scale b (- k) q) \<longleftrightarrow> real b powi k \<le> qval q"
  proof -
    have "0 < snd (scale b (- k) q)" by (rule snd_scale_pos [OF b]) (simp add: d)
    then have "snd (scale b (- k) q) \<le> fst (scale b (- k) q) \<longleftrightarrow> 1 \<le> qval (scale b (- k) q)"
      by (simp add: qval_def)
    also have "\<dots> \<longleftrightarrow> real b powi k \<le> qval q"
      using b0 by (simp add: qval_scale [OF b] power_int_minus field_simps zero_less_power_int)
    finally show ?thesis .
  qed
  have "qlog b q = (if real b powi k \<le> qval q then k else k - 1)"
    using test by (simp add: qlog_def Let_def k_def)
  with lo hi show ?thesis by auto
qed

lemma powi_mono_less: "1 < (x::real) \<Longrightarrow> x powi a < x powi b \<Longrightarrow> a < b"
  by (meson linorder_not_less power_int_increasing less_imp_le)

lemma qlog_unique:
  assumes "2 \<le> b" "qpos q" "real b powi k \<le> qval q" "qval q < real b powi (k + 1)"
  shows "qlog b q = k"
proof -
  from qlog_bounds [OF assms(1,2)] assms(3,4) have
    "real b powi k < real b powi (qlog b q + 1)" "real b powi qlog b q < real b powi (k + 1)"
    by linarith+
  moreover have "1 < real b" using assms(1) by simp
  ultimately have "k < qlog b q + 1" "qlog b q < k + 1" using powi_mono_less by blast+
  then show ?thesis by simp
qed

section \<open>Rounding to double\<close>

text \<open>The double nearest to \<open>(-1)^s * n / d\<close>, ties to even, overflowing to infinity.\<close>

definition round_pos :: "bool \<Rightarrow> nat \<times> nat \<Rightarrow> double" where
  "round_pos s q =
     (let e = max (qlog 2 q - 52) (- 1074);
          m = half_even (scale 2 (- e) q);
          (m', e') = (if m = 2 ^ 53 then (2 ^ 52, e + 1) else (m, e))
      in if 971 < e' then Infinity s else Finite s m' e')"

definition round_ratio :: "bool \<Rightarrow> nat \<times> nat \<Rightarrow> double" where
  "round_ratio s q = (if fst q = 0 then Finite s 0 (- 1074) else round_pos s q)"

definition double_of_int :: "int \<Rightarrow> double" where
  "double_of_int n = round_ratio (n < 0) (nat \<bar>n\<bar>, 1)"

section \<open>Arithmetic and comparison\<close>

fun dabs :: "double \<Rightarrow> double" where
  "dabs NaN = NaN"
| "dabs (Infinity s) = Infinity False"
| "dabs (Finite s m e) = Finite False m e"

definition smant :: "bool \<Rightarrow> nat \<Rightarrow> int" where
  "smant s m = (if s then - int m else int m)"

text \<open>The two mantissas, with their signs, over the smaller of the two exponents.\<close>

definition align :: "bool \<Rightarrow> nat \<Rightarrow> int \<Rightarrow> bool \<Rightarrow> nat \<Rightarrow> int \<Rightarrow> int \<times> int" where
  "align s m e t n f = (let g = min e f in (smant s m * 2 ^ nat (e - g), smant t n * 2 ^ nat (f - g)))"

fun dle :: "double \<Rightarrow> double \<Rightarrow> bool" where
  "dle NaN _ = False"
| "dle _ NaN = False"
| "dle (Infinity s) (Infinity t) = (s \<or> \<not> t)"
| "dle (Infinity s) _ = s"
| "dle _ (Infinity t) = (\<not> t)"
| "dle (Finite s m e) (Finite t n f) = (case align s m e t n f of (x, y) \<Rightarrow> x \<le> y)"

fun dless :: "double \<Rightarrow> double \<Rightarrow> bool" where
  "dless NaN _ = False"
| "dless _ NaN = False"
| "dless (Infinity s) (Infinity t) = (s \<and> \<not> t)"
| "dless (Infinity s) _ = s"
| "dless _ (Infinity t) = (\<not> t)"
| "dless (Finite s m e) (Finite t n f) = (case align s m e t n f of (x, y) \<Rightarrow> x < y)"

fun dsub :: "double \<Rightarrow> double \<Rightarrow> double" where
  "dsub NaN _ = NaN"
| "dsub _ NaN = NaN"
| "dsub (Infinity s) (Infinity t) = (if s = t then NaN else Infinity s)"
| "dsub (Infinity s) _ = Infinity s"
| "dsub _ (Infinity t) = Infinity (\<not> t)"
| "dsub (Finite s m e) (Finite t n f) =
     (case align s m e t n f of (x, y) \<Rightarrow>
        if x = y then Finite (s \<and> \<not> t \<and> m = 0) 0 (- 1074)
        else round_ratio (x < y) (scale 2 (min e f) (nat \<bar>x - y\<bar>, 1)))"

fun dmul :: "double \<Rightarrow> double \<Rightarrow> double" where
  "dmul NaN _ = NaN"
| "dmul _ NaN = NaN"
| "dmul (Infinity s) (Infinity t) = Infinity (s \<noteq> t)"
| "dmul (Infinity s) (Finite t n f) = (if n = 0 then NaN else Infinity (s \<noteq> t))"
| "dmul (Finite s m e) (Infinity t) = (if m = 0 then NaN else Infinity (s \<noteq> t))"
| "dmul (Finite s m e) (Finite t n f) = round_ratio (s \<noteq> t) (scale 2 (e + f) (m * n, 1))"

definition DBL_EPSILON :: double where
  "DBL_EPSILON = Finite False (2 ^ 52) (- 104)"

text \<open>\<open>(int) d\<close> truncates; it is undefined when the value does not fit (and for NaN).\<close>

fun double_to_int :: "double \<Rightarrow> int option" where
  "double_to_int (Finite s m e) =
     (let (n, d) = scale 2 e (m, 1); i = (if s then - int (n div d) else int (n div d))
      in if - (2 ^ 31) \<le> i \<and> i < 2 ^ 31 then Some i else None)"
| "double_to_int _ = None"

section \<open>Reading decimal numbers\<close>

definition isdigit :: "char \<Rightarrow> bool" where
  "isdigit c \<longleftrightarrow> 48 \<le> ord c \<and> ord c \<le> 57"

definition dec_val :: "string \<Rightarrow> nat" where
  "dec_val cs = foldl (\<lambda>n c. 10 * n + (ord c - 48)) 0 cs"

text \<open>
  The optional exponent part: its value and how many bytes it takes (none when no digit
  follows the letter and its sign).
\<close>

definition strtod_exp :: "string \<Rightarrow> int \<times> nat" where
  "strtod_exp t =
     (case t of [] \<Rightarrow> (0, 0)
      | c # r \<Rightarrow>
        if c = CHR ''e'' \<or> c = CHR ''E'' then
          (let k = (if r \<noteq> [] \<and> (hd r = CHR ''+'' \<or> hd r = CHR ''-'') then 1 else 0);
               ed = takeWhile isdigit (drop k r)
           in if ed = [] then (0, 0)
              else (if k = 1 \<and> hd r = CHR ''-'' then - int (dec_val ed) else int (dec_val ed),
                    1 + k + length ed))
        else (0, 0))"

text \<open>
  \<open>strtod\<close> on the text of a number (no white space, no letters but \<open>e\<close> and \<open>E\<close>:
  the only texts the program passes): the value and the number of bytes consumed.
\<close>

definition strtod :: "string \<Rightarrow> double \<times> nat" where
  "strtod s =
     (let k = (if s \<noteq> [] \<and> (hd s = CHR ''+'' \<or> hd s = CHR ''-'') then 1 else 0);
          neg = (k = 1 \<and> hd s = CHR ''-'');
          t = drop k s;
          ip = takeWhile isdigit t;
          t1 = drop (length ip) t;
          dot = (if t1 \<noteq> [] \<and> hd t1 = CHR ''.'' then 1 else 0);
          fp = (if dot = 1 then takeWhile isdigit (tl t1) else []);
          t2 = drop (dot + length fp) t1;
          (x, xlen) = strtod_exp t2
      in if ip = [] \<and> fp = [] then (zero_double, 0)
         else (round_ratio neg (scale 10 (x - int (length fp)) (dec_val (ip @ fp), 1)),
               k + length ip + dot + length fp + xlen))"

section \<open>Writing decimal numbers\<close>

definition digit :: "nat \<Rightarrow> char" where
  "digit n = char_of (48 + n)"

fun show_nat :: "nat \<Rightarrow> string" where
  "show_nat n = (if n < 10 then [digit n] else show_nat (n div 10) @ [digit (n mod 10)])"

declare show_nat.simps [simp del]

text \<open>The \<open>P\<close> significant decimal digits of a positive fraction, and its decimal exponent.\<close>

definition sig_digits :: "nat \<Rightarrow> nat \<times> nat \<Rightarrow> nat \<times> int" where
  "sig_digits P q =
     (let k = qlog 10 q; D = half_even (scale 10 (int P - 1 - k) q)
      in if D = 10 ^ P then (10 ^ (P - 1), k + 1) else (D, k))"

definition strip_zeros :: "string \<Rightarrow> string" where
  "strip_zeros f = rev (dropWhile (\<lambda>c. c = CHR ''0'') (rev f))"

definition with_frac :: "string \<Rightarrow> string \<Rightarrow> string" where
  "with_frac i f = (if strip_zeros f = [] then i else i @ CHR ''.'' # strip_zeros f)"

definition show_exp :: "int \<Rightarrow> string" where
  "show_exp x = CHR ''e'' # (if x < 0 then CHR ''-'' else CHR ''+'')
                # (if \<bar>x\<bar> < 10 then CHR ''0'' # show_nat (nat \<bar>x\<bar>) else show_nat (nat \<bar>x\<bar>))"

definition show_sig :: "nat \<Rightarrow> nat \<Rightarrow> int \<Rightarrow> string" where
  "show_sig P D k =
     (let ds = show_nat D in
      if k < - 4 \<or> int P \<le> k then with_frac (take 1 ds) (drop 1 ds) @ show_exp k
      else if k < 0 then with_frac ''0'' (replicate (nat (- k - 1)) CHR ''0'' @ ds)
      else with_frac (take (nat k + 1) ds) (drop (nat k + 1) ds))"

text \<open>\<open>sprintf(buffer, "%1.<P>g", d)\<close>.\<close>

fun sprintf_g :: "nat \<Rightarrow> double \<Rightarrow> string" where
  "sprintf_g P NaN = ''nan''"
| "sprintf_g P (Infinity s) = (if s then ''-inf'' else ''inf'')"
| "sprintf_g P (Finite s m e) =
     (if s then ''-'' else []) @
     (if m = 0 then ''0'' else case sig_digits P (scale 2 e (m, 1)) of (D, k) \<Rightarrow> show_sig P D k)"

section \<open>Rounding is to nearest\<close>

lemma half_even_near:
  assumes "0 < snd q"
  shows "\<bar>qval q - real (half_even q)\<bar> \<le> 1 / 2"
proof -
  obtain n d where q: "q = (n, d)" by fastforce
  with assms have d: "0 < d" by simp
  have "real n = real (n div d) * real d + real (n mod d)"
    by (metis div_mult_mod_eq of_nat_add of_nat_mult)
  then have v: "qval q = real (n div d) + real (n mod d) / real d"
    using d by (simp add: q qval_def add_divide_distrib)
  have r: "real (n mod d) / real d < 1" "0 \<le> real (n mod d) / real d" using d by auto
  show ?thesis
  proof (cases "2 * (n mod d) < d \<or> (2 * (n mod d) = d \<and> even (n div d))")
    case True
    then have "2 * real (n mod d) \<le> real d"
      by (metis of_nat_le_iff of_nat_mult of_nat_numeral less_imp_le order_refl)
    then have "real (n mod d) / real d \<le> 1 / 2" using d by (simp add: field_simps)
    with True v r show ?thesis by (simp add: half_even_def q)
  next
    case False
    then have "real d \<le> 2 * real (n mod d)"
      by (metis of_nat_le_iff of_nat_mult of_nat_numeral linorder_not_less)
    then have "1 / 2 \<le> real (n mod d) / real d" using d by (simp add: field_simps)
    moreover have "half_even q = n div d + 1" using False by (simp add: half_even_def q Let_def)
    ultimately show ?thesis using v r by simp
  qed
qed

lemma half_even_eqI:
  assumes "0 < snd q" "\<bar>qval q - real m\<bar> < 1 / 2"
  shows "half_even q = m"
proof -
  have "\<bar>real (half_even q) - real m\<bar> < 1"
    using half_even_near [OF assms(1)] assms(2) by linarith
  then show ?thesis by linarith
qed

lemma qval_scale_down: "qval (scale 2 (- e) q) = qval q / 2 powi e"
  by (simp add: qval_scale power_int_minus divide_inverse)

lemma round_pos_at:
  assumes q: "qpos q" and e: "max (qlog 2 q - 52) (- 1074) = e" "e \<le> 971"
    and m: "m < 2 ^ 53" "\<bar>qval q / 2 powi e - real m\<bar> < 1 / 2"
  shows "round_ratio s q = Finite s m e"
proof -
  have "half_even (scale 2 (- e) q) = m"
  proof (rule half_even_eqI)
    show "0 < snd (scale 2 (- e) q)" using q by (intro snd_scale_pos) (auto simp: qpos_def)
    show "\<bar>qval (scale 2 (- e) q) - real m\<bar> < 1 / 2"
      using m(2) unfolding qval_scale_down .
  qed
  with m(1) e(2) q show ?thesis
    by (simp add: round_ratio_def round_pos_def Let_def e(1) qpos_def)
qed

lemma round_pos_carry:
  assumes q: "qpos q" and e: "max (qlog 2 q - 52) (- 1074) = e - 1" "e \<le> 971"
    and m: "\<bar>qval q / 2 powi (e - 1) - 2 ^ 53\<bar> < 1 / 2"
  shows "round_ratio s q = Finite s (2 ^ 52) e"
proof -
  have "half_even (scale 2 (- (e - 1)) q) = 2 ^ 53"
  proof (rule half_even_eqI)
    show "0 < snd (scale 2 (- (e - 1)) q)" using q by (intro snd_scale_pos) (auto simp: qpos_def)
    show "\<bar>qval (scale 2 (- (e - 1)) q) - real (2 ^ 53)\<bar> < 1 / 2"
      using m unfolding qval_scale_down by simp
  qed
  with e(2) q show ?thesis
    by (simp add: round_ratio_def round_pos_def Let_def e(1) qpos_def)
qed

text \<open>
  A fraction closer to a double than half its last place (a quarter below a power of two)
  rounds to that double.
\<close>

lemma round_ratio_close:
  assumes c: "canonical m e" "0 < m" and q: "qpos q"
    and near: "\<bar>qval q - real m * 2 powi e\<bar> < 2 powi e / 2"
    and below: "m = 2 ^ 52 \<Longrightarrow> - 1074 < e \<Longrightarrow> 2 ^ 52 * 2 powi e - qval q < 2 powi e / 4"
  shows "round_ratio s q = Finite s m e"
proof -
  define v where "v = qval q / 2 powi e"
  have p: "(0::real) < 2 powi e" by simp
  have near': "\<bar>v - real m\<bar> < 1 / 2"
  proof -
    have "v - real m = (qval q - real m * 2 powi e) / 2 powi e" using p by (simp add: v_def field_simps)
    then have "\<bar>v - real m\<bar> = \<bar>qval q - real m * 2 powi e\<bar> / 2 powi e" by (simp add: abs_divide)
    also have "\<dots> < (2 powi e / 2) / 2 powi e" using near p by (rule divide_strict_right_mono)
    finally show ?thesis by simp
  qed
  have m: "m < 2 ^ 53" "- 1074 \<le> e" "e \<le> 971" "2 ^ 52 \<le> m \<or> e = - 1074"
    using c by (auto simp: canonical_def)
  have "real m \<le> 2 ^ 53 - 1"
  proof -
    have "m + 1 \<le> 2 ^ 53" using m(1) by linarith
    then have "real (m + 1) \<le> real (2 ^ 53)" by (rule of_nat_mono)
    then show ?thesis by simp
  qed
  then have vhi: "v < 2 ^ 53" using near' by linarith
  have qv: "qval q = v * 2 powi e" using p by (simp add: v_def)
  have pw: "(2::real) powi (e + int k) = 2 ^ k * 2 powi e" for k
    by (simp add: power_int_add mult.commute)
  have lb: "2 powi qlog 2 q \<le> qval q" "qval q < 2 powi (qlog 2 q + 1)"
    using qlog_bounds [of 2 q] q by auto
  consider (normal) "2 ^ 52 \<le> v" | (sub) "v < 2 ^ 52" "e = - 1074" | (carry) "v < 2 ^ 52" "- 1074 < e"
    using m(2) by linarith
  then show ?thesis
  proof cases
    case normal
    have "qlog 2 q = e + int 52"
    proof (rule qlog_unique)
      have "2 ^ 52 * 2 powi e \<le> v * 2 powi e" using normal p by (intro mult_right_mono) auto
      then show "real 2 powi (e + int 52) \<le> qval q" unfolding qv using pw [of 52] by simp
      have "v * 2 powi e < 2 ^ 53 * 2 powi e" using vhi p by (rule mult_strict_right_mono)
      then show "qval q < real 2 powi (e + int 52 + 1)" unfolding qv using pw [of 53] by (simp add: algebra_simps)
    qed (use q in auto)
    then have "max (qlog 2 q - 52) (- 1074) = e" using m(2) by simp
    from round_pos_at [OF q this m(3) m(1)] near' show ?thesis by (simp add: v_def)
  next
    case sub
    have "2 powi qlog 2 q < (2::real) powi (e + int 52)"
      using lb(1) sub(1) p unfolding pw qv by (meson le_less_trans mult_strict_right_mono)
    then have "qlog 2 q < e + int 52" by (rule powi_mono_less [rotated]) simp
    then have "max (qlog 2 q - 52) (- 1074) = e" using sub(2) by simp
    from round_pos_at [OF q this m(3) m(1)] near' show ?thesis by (simp add: v_def)
  next
    case carry
    have m52: "m = 2 ^ 52"
    proof -
      have "2 ^ 52 \<le> m" using m(4) carry(2) by simp
      moreover have "m < 2 ^ 52 + 1"
      proof -
        have "real m < 2 ^ 52 + 1" using near' carry(1) by linarith
        then have "real m < real (2 ^ 52 + 1)" by simp
        then show ?thesis by (simp only: of_nat_less_iff)
      qed
      ultimately show ?thesis by simp
    qed
    have vlo: "2 ^ 52 - v < 1 / 4"
      using below [OF m52 carry(2)] p unfolding qv by (simp add: algebra_simps) (simp add: field_simps)?
    have pw1: "(2::real) powi e = 2 * 2 powi (e - 1)"
      using power_int_add [of "2::real" 1 "e - 1"] by simp
    have "qlog 2 q = e + int 51"
    proof (rule qlog_unique)
      have "(2::real) ^ 51 * 2 powi e \<le> v * 2 powi e"
        using vlo p by (intro mult_right_mono) auto
      then show "real 2 powi (e + int 51) \<le> qval q" unfolding qv using pw [of 51] by simp
      have "v * 2 powi e < 2 ^ 52 * 2 powi e" using carry(1) p by (rule mult_strict_right_mono)
      then show "qval q < real 2 powi (e + int 51 + 1)" unfolding qv using pw [of 52] by (simp add: algebra_simps)
    qed (use q in auto)
    then have e1: "max (qlog 2 q - 52) (- 1074) = e - 1" using carry(2) by simp
    have "qval q / 2 powi (e - 1) = 2 * v" by (simp add: qv pw1)
    then have "\<bar>qval q / 2 powi (e - 1) - 2 ^ 53\<bar> < 1 / 2" using vlo carry(1) by simp
    from round_pos_carry [OF q e1 m(3) this] show ?thesis by (simp add: m52)
  qed
qed

lemma round_ratio_exact:
  assumes c: "canonical m e" and q: "0 < snd q" "qval q = real m * 2 powi e"
  shows "round_ratio s q = Finite s m e"
proof (cases "m = 0")
  case True
  with q have "fst q = 0" by (auto simp: qval_def)
  with True c show ?thesis by (simp add: round_ratio_def canonical_def)
next
  case False
  then have "0 < real m * 2 powi e" by simp
  with q have "qval q \<noteq> 0" by linarith
  then have "fst q \<noteq> 0" unfolding qval_def by (cases "fst q") simp_all
  with q have "qpos q" by (simp add: qpos_def)
  with False c q show ?thesis by (intro round_ratio_close) auto
qed

section \<open>Exactness, comparison and evaluation\<close>

lemma dval_round_exact:
  "canonical m e \<Longrightarrow> 0 < snd q \<Longrightarrow> qval q = real m * 2 powi e \<Longrightarrow>
   wf_double (round_ratio s q) \<and> dval (round_ratio s q) = (if s then - 1 else 1) * qval q"
  by (simp add: round_ratio_exact)

text \<open>Every integer below \<open>2 ^ 53\<close> is a double.\<close>

lemma small_nat_canonical:
  assumes "0 < n" "n < 2 ^ 53"
  shows "\<exists>m e. canonical m e \<and> real n = real m * 2 powi e"
proof -
  define j where "j = 52 - ilog 2 n"
  from ilog_bounds [of 2 n] assms have b: "2 ^ ilog 2 n \<le> n" "n < 2 ^ Suc (ilog 2 n)" by auto
  have "(2::nat) ^ ilog 2 n < 2 ^ 53" using b(1) assms(2) by linarith
  then have "ilog 2 n < 53" by (rule power_less_imp_less_exp [rotated]) simp
  then have i: "ilog 2 n \<le> 52" by simp
  have "2 ^ j * 2 ^ ilog 2 n \<le> 2 ^ j * n" "2 ^ j * n < 2 ^ j * 2 ^ Suc (ilog 2 n)"
    using b by simp_all
  moreover have "(2::nat) ^ j * 2 ^ ilog 2 n = 2 ^ 52" "(2::nat) ^ j * 2 ^ Suc (ilog 2 n) = 2 ^ 53"
    using i by (simp_all add: j_def power_add [symmetric] del: power_Suc)
  ultimately have "2 ^ 52 \<le> 2 ^ j * n" "2 ^ j * n < 2 ^ 53" by linarith+
  then have "canonical (2 ^ j * n) (- int j)" using i by (simp add: canonical_def j_def)
  moreover have "real n = real (2 ^ j * n) * 2 powi (- int j)"
    by (simp add: power_int_minus field_simps)
  ultimately show ?thesis by blast
qed

lemma round_ratio_int:
  assumes "0 < snd q" "qval q = real n" "n < 2 ^ 53"
  shows "wf_double (round_ratio s q)" "round_ratio s q = round_ratio s (n, 1)"
    "dval (round_ratio s q) = (if s then - 1 else 1) * real n" "is_finite (round_ratio s q)"
proof -
  have "\<exists>m e. canonical m e \<and> real n = real m * 2 powi e"
  proof (cases "n = 0")
    case True
    have "canonical 0 (- 1074)" by (simp add: canonical_def)
    with True show ?thesis by force
  next
    case False
    with assms(3) show ?thesis by (intro small_nat_canonical) auto
  qed
  then obtain m e where c: "canonical m e" "real n = real m * 2 powi e" by blast
  have "round_ratio s q = Finite s m e" "round_ratio s (n, 1) = Finite s m e"
    using assms c by (auto intro!: round_ratio_exact simp: qval_def)
  with c show "wf_double (round_ratio s q)" "round_ratio s q = round_ratio s (n, 1)"
    "dval (round_ratio s q) = (if s then - 1 else 1) * real n" "is_finite (round_ratio s q)"
    by auto
qed

lemma align_le: "fst (align s m e t n f) \<le> snd (align s m e t n f) \<longleftrightarrow>
    dval (Finite s m e) \<le> dval (Finite t n f)"
  and align_less: "fst (align s m e t n f) < snd (align s m e t n f) \<longleftrightarrow>
    dval (Finite s m e) < dval (Finite t n f)"
  and align_diff: "real_of_int (fst (align s m e t n f) - snd (align s m e t n f)) * 2 powi min e f =
    dval (Finite s m e) - dval (Finite t n f)"
proof -
  define g where "g = min e f"
  have p: "(0::real) < 2 powi g" by simp
  have sh: "(2::real) ^ nat (a - g) * 2 powi g = 2 powi a" if "g \<le> a" for a
  proof -
    have "(2::real) ^ nat (a - g) = 2 powi (a - g)" using that by (simp add: power_int_def)
    then show ?thesis by (simp add: power_int_add [symmetric])
  qed
  have x: "real_of_int (fst (align s m e t n f)) * 2 powi g = dval (Finite s m e)"
    using sh [of e] by (simp add: align_def Let_def smant_def g_def mult.assoc)
  have y: "real_of_int (snd (align s m e t n f)) * 2 powi g = dval (Finite t n f)"
    using sh [of f] by (simp add: align_def Let_def smant_def g_def mult.assoc)
  show "fst (align s m e t n f) \<le> snd (align s m e t n f) \<longleftrightarrow> dval (Finite s m e) \<le> dval (Finite t n f)"
    unfolding x [symmetric] y [symmetric] using p by (simp del: dval.simps)
  show "fst (align s m e t n f) < snd (align s m e t n f) \<longleftrightarrow> dval (Finite s m e) < dval (Finite t n f)"
    unfolding x [symmetric] y [symmetric] using p by (simp del: dval.simps)
  show "real_of_int (fst (align s m e t n f) - snd (align s m e t n f)) * 2 powi min e f =
    dval (Finite s m e) - dval (Finite t n f)"
    unfolding x [symmetric] y [symmetric] by (simp add: g_def algebra_simps)
qed

lemma dle_finite [simp]:
  "is_finite a \<Longrightarrow> is_finite b \<Longrightarrow> dle a b \<longleftrightarrow> dval a \<le> dval b"
  by (cases a; cases b) (simp_all add: align_le [symmetric] case_prod_beta del: dval.simps)

lemma dless_finite [simp]:
  "is_finite a \<Longrightarrow> is_finite b \<Longrightarrow> dless a b \<longleftrightarrow> dval a < dval b"
  by (cases a; cases b) (simp_all add: align_less [symmetric] case_prod_beta del: dval.simps)

lemma dabs_finite [simp]: "is_finite (dabs a) = is_finite a" "dval (dabs a) = \<bar>dval a\<bar>"
  by (cases a; simp add: abs_mult)+

lemma dsub_self: "is_finite a \<Longrightarrow> dsub a a = Finite False 0 (- 1074)"
  by (cases a) (auto simp: align_def)

lemmas double_eval = strtod_def strtod_exp_def isdigit_def dec_val_def round_ratio_def round_pos_def
  qlog_def ilog.simps scale_def half_even_def Let_def zero_double_def align_def smant_def
  sig_digits_def show_sig_def with_frac_def strip_zeros_def show_nat.simps digit_def char_of_def
  show_exp_def DBL_EPSILON_def bit_0 double_of_int_def

end
