(* ===== verification/Number_Text.thy ===== *)
theory Number_Text
  imports Doubles
begin

text \<open>
  The decimal text of a double is read back as the same decimal value: \<open>strtod\<close> applied to
  what \<open>sprintf\<close> with \<open>%1.<P>g\<close> writes consumes all of it and rounds exactly the \<open>P\<close>
  digits that were written.  With 17 digits the rounding returns the double itself; an
  integer below \<open>10 ^ 15\<close> is written as its plain decimal digits.
\<close>

section \<open>Digits\<close>

lemma ord_digit: "n < 10 \<Longrightarrow> ord (digit n) = 48 + n"
  by (simp add: digit_def)

lemma isdigit_digit [simp]: "n < 10 \<Longrightarrow> isdigit (digit n)"
  by (simp add: isdigit_def ord_digit)

lemma digit_inj: "i < 10 \<Longrightarrow> j < 10 \<Longrightarrow> digit i = digit j \<longleftrightarrow> i = j"
  by (metis add_left_cancel ord_digit)

lemma isdigit_marks [simp]:
  "\<not> isdigit CHR ''.''" "\<not> isdigit CHR ''e''" "\<not> isdigit CHR ''E''" "\<not> isdigit CHR ''+''"
  "\<not> isdigit CHR ''-''" "isdigit CHR ''0''"
  by (simp_all add: isdigit_def)

lemma dec_val_Nil [simp]: "dec_val [] = 0"
  by (simp add: dec_val_def)

lemma dec_val_snoc [simp]: "dec_val (cs @ [c]) = 10 * dec_val cs + (ord c - 48)"
  by (simp add: dec_val_def)

lemma dec_val_append: "dec_val (cs @ ds) = dec_val cs * 10 ^ length ds + dec_val ds"
proof (induction ds rule: rev_induct)
  case (snoc c ds)
  have "dec_val (cs @ ds @ [c]) = 10 * dec_val (cs @ ds) + (ord c - 48)"
    using dec_val_snoc [of "cs @ ds" c] by simp
  with snoc show ?case by (simp add: algebra_simps)
qed simp

lemma dec_val_zeros [simp]: "dec_val (replicate n CHR ''0'') = 0"
proof (induction n)
  case (Suc n)
  then show ?case using dec_val_snoc [of "replicate n CHR ''0''" "CHR ''0''"]
    by (simp add: replicate_append_same)
qed simp

lemma dec_val_show_nat [simp]: "dec_val (show_nat n) = n"
proof (induction n rule: show_nat.induct)
  case (1 n)
  show ?case
  proof (cases "n < 10")
    case True
    then show ?thesis using dec_val_snoc [of "[]" "digit n"] by (simp add: show_nat.simps [of n] ord_digit)
  next
    case False
    with 1 show ?thesis by (simp add: show_nat.simps [of n] ord_digit)
  qed
qed

lemma isdigit_show_nat: "c \<in> set (show_nat n) \<Longrightarrow> isdigit c"
proof (induction n rule: show_nat.induct)
  case (1 n)
  then show ?case by (cases "n < 10") (auto simp: show_nat.simps [of n])
qed

lemma show_nat_nonempty [simp]: "show_nat n \<noteq> []"
  by (subst show_nat.simps) simp

lemma length_show_nat: "0 < n \<Longrightarrow> 10 ^ (length (show_nat n) - 1) \<le> n \<and> n < 10 ^ length (show_nat n)"
proof (induction n rule: show_nat.induct)
  case (1 n)
  show ?case
  proof (cases "n < 10")
    case True
    with 1(2) show ?thesis by (simp add: show_nat.simps [of n])
  next
    case False
    then have pos: "0 < n div 10" by simp
    with 1(1) False have IH: "10 ^ (length (show_nat (n div 10)) - 1) \<le> n div 10"
      "n div 10 < 10 ^ length (show_nat (n div 10))" by auto
    obtain l where l: "length (show_nat (n div 10)) = Suc l"
      by (metis show_nat_nonempty length_0_conv not0_implies_Suc)
    have "10 * 10 ^ l \<le> n" using IH(1) l by simp
    moreover have "n < 10 * (10 * 10 ^ l)" using IH(2) l by simp
    ultimately show ?thesis using False l by (simp add: show_nat.simps [of n])
  qed
qed

lemma length_show_nat_eq:
  assumes "10 ^ l \<le> n" "n < 10 ^ Suc l"
  shows "length (show_nat n) = Suc l"
proof -
  have "0 < (10::nat) ^ l" by simp
  with assms(1) have "0 < n" by linarith
  from length_show_nat [OF this] have b: "10 ^ (length (show_nat n) - 1) \<le> n" "n < 10 ^ length (show_nat n)"
    by auto
  have "(10::nat) ^ l < 10 ^ length (show_nat n)" "(10::nat) ^ (length (show_nat n) - 1) < 10 ^ Suc l"
    using b assms by linarith+
  then have "l < length (show_nat n)" "length (show_nat n) - 1 < Suc l"
    by (auto intro: power_less_imp_less_exp [rotated] simp del: power_Suc)
  then show ?thesis by linarith
qed

lemma show_nat_app_zeros: "0 < n \<Longrightarrow> show_nat (n * 10 ^ j) = show_nat n @ replicate j CHR ''0''"
proof (induction j)
  case (Suc j)
  have "10 * 1 \<le> 10 * (n * 10 ^ j)" using Suc(2) by (intro mult_le_mono2) simp
  then have "\<not> n * 10 ^ Suc j < 10" by (simp add: mult.left_commute)
  moreover have "n * 10 ^ Suc j div 10 = n * 10 ^ j" "n * 10 ^ Suc j mod 10 = 0" by auto
  moreover have "digit 0 = CHR ''0''" by (simp add: digit_def char_of_def bit_0)
  ultimately have "show_nat (n * 10 ^ Suc j) = show_nat (n * 10 ^ j) @ [CHR ''0'']"
    by (subst show_nat.simps) simp
  with Suc show ?case by (simp add: replicate_append_same)
qed simp

section \<open>Trailing zeros\<close>

lemma strip_zeros_split: "\<exists>j. f = strip_zeros f @ replicate j CHR ''0''"
proof -
  have "f = rev (dropWhile (\<lambda>c. c = CHR ''0'') (rev f)) @ rev (takeWhile (\<lambda>c. c = CHR ''0'') (rev f))"
    by (metis rev_append rev_rev_ident takeWhile_dropWhile_id)
  moreover have "rev (takeWhile (\<lambda>c. c = CHR ''0'') (rev f)) =
      replicate (length (takeWhile (\<lambda>c. c = CHR ''0'') (rev f))) CHR ''0''"
    by (rule replicate_eqI) (auto dest: set_takeWhileD)
  ultimately show ?thesis unfolding strip_zeros_def by metis
qed

lemma strip_zeros_replicate [simp]: "strip_zeros (replicate j CHR ''0'') = []"
  by (simp add: strip_zeros_def)

lemma strip_zeros_set: "c \<in> set (strip_zeros f) \<Longrightarrow> c \<in> set f"
  by (metis strip_zeros_split Un_iff set_append)

section \<open>Reading a formatted number\<close>

lemma takeWhile_isdigit_append:
  assumes "\<forall>c \<in> set ds. isdigit c" "r = [] \<or> \<not> isdigit (hd r)"
  shows "takeWhile isdigit (ds @ r) = ds"
  using assms by (induction ds) (cases r; auto)+

definition exp_part :: "string \<Rightarrow> int \<Rightarrow> bool" where
  "exp_part ex x \<longleftrightarrow> ex = [] \<and> x = 0 \<or> ex = show_exp x"

lemma strtod_exp_part: "exp_part ex x \<Longrightarrow> strtod_exp ex = (x, length ex)"
proof -
  assume "exp_part ex x"
  then consider "ex = []" "x = 0" | "ex = show_exp x" by (auto simp: exp_part_def)
  then show ?thesis
  proof cases
    case 2
    define ds where "ds = (if \<bar>x\<bar> < 10 then CHR ''0'' # show_nat (nat \<bar>x\<bar>) else show_nat (nat \<bar>x\<bar>))"
    have "\<forall>c \<in> set ds. isdigit c" using isdigit_show_nat by (auto simp: ds_def)
    then have tw: "takeWhile isdigit ds = ds" by (simp add: takeWhile_eq_all_conv)
    have dv: "dec_val ds = nat \<bar>x\<bar>"
      using dec_val_append [of "''0''" "show_nat (nat \<bar>x\<bar>)"]
      by (simp add: ds_def dec_val_def [of "''0''"])
    have ne: "ds \<noteq> []" by (simp add: ds_def)
    have "show_exp x = CHR ''e'' # (if x < 0 then CHR ''-'' else CHR ''+'') # ds"
      by (simp add: show_exp_def ds_def)
    with 2 show ?thesis using ne dv by (cases "x < 0") (simp_all add: strtod_exp_def tw Let_def)
  qed (simp add: strtod_exp_def)
qed

lemma exp_part_start: "exp_part ex x \<Longrightarrow> ex = [] \<or> hd ex = CHR ''e''"
  by (auto simp: exp_part_def show_exp_def)

definition dot_part :: "string \<Rightarrow> string" where
  "dot_part fp = (if fp = [] then [] else CHR ''.'' # fp)"

lemma strtod_text:
  assumes ip: "ip \<noteq> []" "\<forall>c \<in> set ip. isdigit c" and fp: "\<forall>c \<in> set fp. isdigit c"
    and ex: "exp_part ex x"
  shows "strtod ((if s then ''-'' else []) @ ip @ dot_part fp @ ex) =
    (round_ratio s (scale 10 (x - int (length fp)) (dec_val (ip @ fp), 1)),
     length ((if s then ''-'' else []) @ ip @ dot_part fp @ ex))"
proof -
  have rest: "dot_part fp @ ex = [] \<or> \<not> isdigit (hd (dot_part fp @ ex))"
    using exp_part_start [OF ex] by (auto simp: dot_part_def)
  have exr: "ex = [] \<or> \<not> isdigit (hd ex)" using exp_part_start [OF ex] by auto
  have tw: "takeWhile isdigit (ip @ dot_part fp @ ex) = ip"
    by (rule takeWhile_isdigit_append [OF ip(2) rest])
  have twf: "takeWhile isdigit (fp @ ex) = fp"
    by (rule takeWhile_isdigit_append [OF fp exr])
  obtain c cs where c: "ip = c # cs" "isdigit c" using ip by (cases ip) auto
  have c2: "c \<noteq> CHR ''+''" "c \<noteq> CHR ''-''" using c(2) by auto
  have exd: "ex = [] \<or> hd ex \<noteq> CHR ''.''" using exp_part_start [OF ex] by auto
  note d = strtod_def Let_def
  show ?thesis
  proof (cases s)
    case True
    show ?thesis
    proof (cases "fp = []")
      case fp0: True
      show ?thesis using True tw exd ip(1) strtod_exp_part [OF ex] by (auto simp: d dot_part_def fp0)
    next
      case False
      with True tw twf ip(1) strtod_exp_part [OF ex] show ?thesis by (simp add: d dot_part_def)
    qed
  next
    case False
    have hd: "hd (ip @ dot_part fp @ ex) = c" by (simp add: c)
    show ?thesis
    proof (cases "fp = []")
      case fp0: True
      have tw0: "takeWhile isdigit (ip @ ex) = ip" "ip @ ex \<noteq> []" "hd (ip @ ex) = c" using tw ip(1) hd by (simp_all add: dot_part_def fp0)
      have nd: "(ex \<noteq> [] \<and> hd ex = CHR ''.'') = False" using exd by blast
      show ?thesis using False ip(1) strtod_exp_part [OF ex] c2 by (simp add: d dot_part_def fp0 tw0 nd)
    next
      case fp1: False
      have tw1: "takeWhile isdigit (ip @ CHR ''.'' # fp @ ex) = ip" "hd (ip @ CHR ''.'' # fp @ ex) = c"
        using tw hd by (simp_all add: dot_part_def fp1)
      show ?thesis using False ip(1) strtod_exp_part [OF ex] c2 fp1 by (simp add: d dot_part_def tw1 twf)
    qed
  qed
qed

lemma with_frac_dot: "with_frac i f = i @ dot_part (strip_zeros f)"
  by (simp add: with_frac_def dot_part_def)

lemma qval_strip:
  "qval (scale 10 (x - int (length (strip_zeros f))) (dec_val (i @ strip_zeros f), 1)) =
   real (dec_val (i @ f)) * 10 powi (x - int (length f))"
proof -
  obtain j where j: "f = strip_zeros f @ replicate j CHR ''0''" using strip_zeros_split by blast
  have len: "int (length f) = int (length (strip_zeros f)) + int j"
    by (subst j) simp
  have "dec_val (i @ f) = dec_val (i @ strip_zeros f) * 10 ^ j"
    by (subst j) (simp add: dec_val_append flip: append_assoc)
  then show ?thesis
    by (simp add: qval_scale qval_of_nat len power_int_diff power_int_add field_simps)
qed

text \<open>The decimal value that \<open>show_sig\<close> writes, and that \<open>strtod\<close> reads back.\<close>

lemma strtod_show_sig:
  assumes D: "10 ^ (P - 1) \<le> D" "D < 10 ^ P" and P: "0 < P"
  shows "\<exists>q. strtod ((if s then ''-'' else []) @ show_sig P D k) =
      (round_ratio s q, length ((if s then ''-'' else []) @ show_sig P D k)) \<and>
    qpos q \<and> qval q = real D * 10 powi (k - int P + 1)"
proof -
  let ?ds = "show_nat D"
  have len: "length ?ds = P" using length_show_nat_eq [of "P - 1" D] D P by simp
  have dig: "\<forall>c \<in> set ?ds. isdigit c" using isdigit_show_nat by blast
  have D0: "0 < D" using D(1) by (metis gr0I le_zero_eq power_eq_0_iff zero_neq_numeral)
  have *: "\<exists>q. strtod ((if s then ''-'' else []) @ show_sig P D k) =
      (round_ratio s q, length ((if s then ''-'' else []) @ show_sig P D k)) \<and>
      qpos q \<and> qval q = real D * 10 powi (k - int P + 1)"
    if sh: "show_sig P D k = with_frac i f @ ex" and i: "i \<noteq> []" "\<forall>c \<in> set i. isdigit c"
      and f: "\<forall>c \<in> set f. isdigit c" and ex: "exp_part ex x"
      and v: "dec_val (i @ f) = D" "x - int (length f) = k - int P + 1" for i f ex x
  proof -
    let ?q = "scale 10 (x - int (length (strip_zeros f))) (dec_val (i @ strip_zeros f), 1)"
    have f': "\<forall>c \<in> set (strip_zeros f). isdigit c" using f strip_zeros_set by blast
    have val: "qval ?q = real D * 10 powi (k - int P + 1)"
      unfolding qval_strip using v by simp
    then have "0 < qval ?q" using D0 by simp
    then have "fst ?q \<noteq> 0" unfolding qval_def by (cases "fst ?q") simp_all
    then have "qpos ?q" by (simp add: qpos_def snd_scale_pos)
    with val strtod_text [OF i f' ex, of s] sh show ?thesis
      by (intro exI [of _ ?q]) (simp add: with_frac_dot)
  qed
  consider (sci) "k < - 4 \<or> int P \<le> k" | (small) "- 4 \<le> k" "k < 0" | (big) "0 \<le> k" "k < int P"
    by linarith
  then show ?thesis
  proof cases
    case sci
    show ?thesis
    proof (rule * [of "take 1 ?ds" "drop 1 ?ds" "show_exp k" k])
      show "show_sig P D k = with_frac (take 1 ?ds) (drop 1 ?ds) @ show_exp k"
        using sci by (simp add: show_sig_def Let_def)
      show "k - int (length (drop 1 ?ds)) = k - int P + 1" using len P by simp
    qed (use dig in \<open>auto simp: exp_part_def dest: in_set_takeD in_set_dropD\<close>)
  next
    case small
    let ?f = "replicate (nat (- k - 1)) CHR ''0'' @ ?ds"
    show ?thesis
    proof (rule * [of "''0''" ?f "[]" 0])
      show "show_sig P D k = with_frac ''0'' ?f @ []"
        using small by (simp add: show_sig_def Let_def)
      have "dec_val (''0'' @ ?f) = dec_val (replicate (Suc (nat (- k - 1))) CHR ''0'' @ ?ds)" by simp
      also have "\<dots> = D" by (simp only: dec_val_append dec_val_zeros dec_val_show_nat mult_0 add_0)
      finally show "dec_val (''0'' @ ?f) = D" .
      show "0 - int (length ?f) = k - int P + 1" using len small by simp
    qed (use dig in \<open>auto simp: exp_part_def\<close>)
  next
    case big
    let ?i = "take (nat k + 1) ?ds" and ?f = "drop (nat k + 1) ?ds"
    show ?thesis
    proof (rule * [of ?i ?f "[]" 0])
      show "show_sig P D k = with_frac ?i ?f @ []"
        using big by (simp add: show_sig_def Let_def)
      show "0 - int (length ?f) = k - int P + 1" using len big by simp
    qed (use dig in \<open>auto simp: exp_part_def dest: in_set_takeD in_set_dropD\<close>)
  qed
qed

section \<open>Significant digits\<close>

lemma sig_digits_bounds:
  assumes q: "qpos q" and P: "0 < P" and sd: "sig_digits P q = (D, k)"
  shows "10 ^ (P - 1) \<le> D" "D < 10 ^ P"
    "\<bar>real D * 10 powi (k - int P + 1) - qval q\<bar> \<le> 10 powi (qlog 10 q - int P + 1) / 2"
proof -
  define l where "l = qlog 10 q"
  define s where "s = scale 10 (int P - 1 - l) q"
  define h where "h = half_even s"
  have lb: "10 powi l \<le> qval q" "qval q < 10 powi (l + 1)"
    using qlog_bounds [of 10 q] q by (auto simp: l_def)
  have qs: "qval s = qval q * 10 powi (int P - 1 - l)" by (simp add: s_def qval_scale)
  have s0: "0 < snd s" unfolding s_def using q by (intro snd_scale_pos) (auto simp: qpos_def)
  have pw: "(10::real) powi (l + int j) * 10 powi (int P - 1 - l) = 10 powi (int P - 1 + int j)" for j
    by (simp add: power_int_add [symmetric] add.commute)
  have ten: "(10::real) powi (int P - 1) = 10 ^ (P - 1)" "(10::real) powi int P = 10 ^ P"
    using P by (simp_all add: power_int_def nat_diff_distrib)
  have lo: "10 ^ (P - 1) \<le> qval s"
  proof -
    have "(10::real) ^ (P - 1) = 10 powi l * 10 powi (int P - 1 - l)" using pw [of 0] ten by simp
    also have "\<dots> \<le> qval q * 10 powi (int P - 1 - l)" using lb(1) by (rule mult_right_mono) simp
    finally show ?thesis unfolding qs .
  qed
  have hi: "qval s < 10 ^ P"
  proof -
    have "qval q * 10 powi (int P - 1 - l) < 10 powi (l + 1) * 10 powi (int P - 1 - l)"
      using lb(2) by (rule mult_strict_right_mono) simp
    also have "\<dots> = 10 ^ P" using pw [of 1] ten by simp
    finally show ?thesis unfolding qs .
  qed
  have near: "\<bar>qval s - real h\<bar> \<le> 1 / 2" unfolding h_def by (rule half_even_near [OF s0])
  have hlo: "10 ^ (P - 1) \<le> h"
  proof -
    have "(10::real) ^ (P - 1) < real h + 1" using lo near by linarith
    then have "real (10 ^ (P - 1)) < real (h + 1)" by simp
    then have "10 ^ (P - 1) < h + 1" by (simp only: of_nat_less_iff)
    then show ?thesis by simp
  qed
  have hhi: "h \<le> 10 ^ P"
  proof -
    have "real h < 10 ^ P + 1" using hi near by linarith
    then have "real h < real (10 ^ P + 1)" by simp
    then have "h < 10 ^ P + 1" by (simp only: of_nat_less_iff)
    then show ?thesis by simp
  qed
  have eq_back: "qval q = qval s * 10 powi (l - int P + 1)"
    by (simp add: qs mult.assoc power_int_add [symmetric])
  have err: "\<bar>real h * 10 powi (l - int P + 1) - qval q\<bar> \<le> 10 powi (l - int P + 1) / 2"
  proof -
    have "real h * 10 powi (l - int P + 1) - qval q = (real h - qval s) * 10 powi (l - int P + 1)"
      by (simp add: eq_back algebra_simps)
    then have "\<bar>real h * 10 powi (l - int P + 1) - qval q\<bar> = \<bar>qval s - real h\<bar> * 10 powi (l - int P + 1)"
      by (simp add: abs_mult abs_minus_commute)
    also have "\<dots> \<le> 1 / 2 * 10 powi (l - int P + 1)" using near by (rule mult_right_mono) simp
    finally show ?thesis by simp
  qed
  have sd': "(if h = 10 ^ P then (10 ^ (P - 1), l + 1) else (h, l)) = (D, k)"
    using sd unfolding sig_digits_def Let_def l_def h_def s_def .
  have "10 ^ (P - 1) \<le> D \<and> D < 10 ^ P \<and> real D * 10 powi (k - int P + 1) = real h * 10 powi (l - int P + 1)"
  proof (cases "h = 10 ^ P")
    case True
    then have "D = 10 ^ (P - 1)" "k = l + 1" using sd' by auto
    moreover have "(10::real) ^ (P - 1) * 10 powi (l + 1 - int P + 1) = 10 ^ P * 10 powi (l - int P + 1)"
    proof -
      have "(10::real) ^ P * 10 powi (l - int P + 1) = 10 powi int P * 10 powi (l - int P + 1)"
        by (simp only: ten)
      also have "\<dots> = 10 powi (l + 1)" by (subst power_int_add [symmetric]) simp_all
      also have "\<dots> = 10 powi (int P - 1) * 10 powi (l + 1 - int P + 1)"
        by (simp add: power_int_add [symmetric] add.commute)
      also have "\<dots> = 10 ^ (P - 1) * 10 powi (l + 1 - int P + 1)" by (simp only: ten)
      finally show ?thesis by simp
    qed
    ultimately show ?thesis using P True by simp
  next
    case False
    then show ?thesis using sd' hlo hhi by auto
  qed
  with err show "10 ^ (P - 1) \<le> D" "D < 10 ^ P"
    "\<bar>real D * 10 powi (k - int P + 1) - qval q\<bar> \<le> 10 powi (qlog 10 q - int P + 1) / 2"
    by (auto simp: l_def)
qed

text \<open>Seventeen digits identify a double.\<close>

lemma strtod_sprintf_17:
  assumes c: "canonical m e"
  shows "strtod (sprintf_g 17 (Finite s m e)) = (Finite s m e, length (sprintf_g 17 (Finite s m e)))"
proof (cases "m = 0")
  case True
  have "strtod ((if s then ''-'' else []) @ ''0'' @ dot_part [] @ []) =
      (round_ratio s (scale 10 (0 - int (length ([] :: string))) (dec_val (''0'' @ []), 1)),
       length ((if s then ''-'' else []) @ ''0'' @ dot_part [] @ []))"
    by (rule strtod_text) (auto simp: exp_part_def)
  moreover have "dec_val ''0'' = 0" by (simp add: dec_val_def)
  moreover have "e = - 1074" using c True by (simp add: canonical_def)
  ultimately show ?thesis using True by (simp add: dot_part_def scale_def round_ratio_def)
next
  case False
  define q where "q = scale 2 e (m, 1)"
  have q: "qpos q" unfolding q_def using False by (intro scale_pos) (auto simp: qpos_def)
  have qv: "qval q = real m * 2 powi e" by (simp add: q_def qval_scale qval_of_nat)
  obtain D k where sd: "sig_digits 17 q = (D, k)" by fastforce
  note b = sig_digits_bounds [OF q _ sd, simplified]
  obtain r where r: "strtod ((if s then ''-'' else []) @ show_sig 17 D k) =
      (round_ratio s r, length ((if s then ''-'' else []) @ show_sig 17 D k))"
    "qpos r" "qval r = real D * 10 powi (k - 17 + 1)"
    using strtod_show_sig [of 17 D s k] b by auto
  have "(10::real) powi (qlog 10 q - 16) = 10 powi qlog 10 q / 10 ^ 16"
    by (simp add: power_int_diff)
  also have "\<dots> \<le> qval q / 10 ^ 16" using qlog_bounds [of 10 q] q by (intro divide_right_mono) auto
  finally have err: "\<bar>qval r - qval q\<bar> \<le> qval q / 10 ^ 16 / 2"
    using b(3) r(3) by (simp add: algebra_simps)
  have "real m * 2 powi e < 2 ^ 53 * 2 powi e" using c by (simp add: canonical_def)
  then have vmax: "qval q < 2 ^ 53 * 2 powi e" by (simp add: qv)
  have "round_ratio s r = Finite s m e"
  proof (rule round_ratio_close [OF c _ r(2)])
    show "0 < m" using False by simp
    have "2 ^ 53 * 2 powi e \<le> (10 ^ 16 :: real) * 2 powi e" by (rule mult_right_mono) simp_all
    with vmax have "qval q < 10 ^ 16 * 2 powi e" by (rule less_le_trans)
    then have "qval q / 10 ^ 16 / 2 < 2 powi e / 2" by (simp add: field_simps)
    then show "\<bar>qval r - real m * 2 powi e\<bar> < 2 powi e / 2" unfolding qv [symmetric] using err by linarith
    assume m: "m = 2 ^ 52"
    have "2 ^ 52 * 2 powi e - qval r \<le> qval q / 10 ^ 16 / 2"
    proof -
      have "qval q = 2 ^ 52 * 2 powi e" by (simp add: qv m)
      with err show ?thesis by linarith
    qed
    also have "\<dots> = 2 ^ 52 * 2 powi e / 10 ^ 16 / 2" by (simp add: qv m)
    also have "\<dots> < 2 powi e / 4" by simp
    finally show "2 ^ 52 * 2 powi e - qval r < 2 powi e / 4" .
  qed
  with r(1) False sd show ?thesis by (simp add: q_def)
qed

section \<open>Integers\<close>

text \<open>A positive integer of at most \<open>P\<close> digits is written as its decimal digits.\<close>

lemma show_sig_int:
  assumes q: "0 < snd q" "qval q = real n" and n: "0 < n" "n < 10 ^ P"
  shows "case sig_digits P q of (D, k) \<Rightarrow> show_sig P D k = show_nat n"
proof -
  define l where "l = length (show_nat n) - 1"
  have ln: "length (show_nat n) = Suc l" unfolding l_def by (cases "show_nat n") auto
  from length_show_nat [OF n(1)] ln have b: "10 ^ l \<le> n" "n < 10 ^ Suc l" by auto
  have "(10::nat) ^ l < 10 ^ P" using b(1) n(2) by linarith
  then have lP: "l < P" by (rule power_less_imp_less_exp [rotated]) simp
  have qp: "qpos q"
  proof -
    have "0 < qval q" using q n by simp
    then have "fst q \<noteq> 0" unfolding qval_def by (cases "fst q") simp_all
    then show ?thesis using q by (simp add: qpos_def)
  qed
  have "qlog 10 q = int l"
  proof (rule qlog_unique)
    show "real 10 powi int l \<le> qval q"
      using b(1) unfolding q(2) by (simp add: power_int_def)
    have "real n < real (10 ^ Suc l)" using b(2) by (simp only: of_nat_less_iff)
    then show "qval q < real 10 powi (int l + 1)" unfolding q(2) by (simp add: power_int_add)
  qed (use qp in auto)
  moreover have "half_even (scale 10 (int P - 1 - int l) q) = n * 10 ^ (P - 1 - l)"
  proof (rule half_even_eqI)
    show "0 < snd (scale 10 (int P - 1 - int l) q)" using q by (intro snd_scale_pos) auto
    have e: "int P - 1 - int l = int (P - 1 - l)" using lP by simp
    show "\<bar>qval (scale 10 (int P - 1 - int l) q) - real (n * 10 ^ (P - 1 - l))\<bar> < 1 / 2"
      unfolding e by (simp add: qval_scale q)
  qed
  moreover have "n * 10 ^ (P - 1 - l) \<noteq> 10 ^ P"
  proof -
    have "n * 10 ^ (P - 1 - l) < 10 ^ Suc l * 10 ^ (P - 1 - l)" using b(2) by (intro mult_strict_right_mono) auto
    also have "\<dots> = 10 ^ P" using lP by (simp add: power_add [symmetric] del: power_Suc)
    finally show ?thesis by simp
  qed
  ultimately have sd: "sig_digits P q = (n * 10 ^ (P - 1 - l), int l)"
    by (simp add: sig_digits_def Let_def)
  have "show_nat (n * 10 ^ (P - 1 - l)) = show_nat n @ replicate (P - 1 - l) CHR ''0''"
    by (rule show_nat_app_zeros [OF n(1)])
  then show ?thesis using lP ln
    by (simp add: sd show_sig_def Let_def with_frac_def)
qed

lemma sprintf_int:
  assumes "\<bar>n\<bar> < 10 ^ P" "\<bar>n\<bar> < 2 ^ 53"
  shows "sprintf_g P (double_of_int n) = (if n < 0 then ''-'' else []) @ show_nat (nat \<bar>n\<bar>)"
proof -
  let ?k = "nat \<bar>n\<bar>"
  have k: "?k < 2 ^ 53" "?k < 10 ^ P" using assms by (simp_all add: nat_less_iff)
  note r = round_ratio_int [where q = "(?k, 1)" and n = ?k and s = "n < 0", OF _ _ k(1)]
  obtain s m e where f: "double_of_int n = Finite s m e"
    using r(4) by (cases "double_of_int n") (auto simp: double_of_int_def qval_of_nat)
  have v: "dval (Finite s m e) = real_of_int n"
    using r(3) unfolding f [symmetric] double_of_int_def by (simp add: qval_of_nat)
  have s: "s = (n < 0)"
    using f unfolding double_of_int_def round_ratio_def round_pos_def
    by (auto simp: Let_def split: if_splits)
  have m: "real m * 2 powi e = real ?k" using v s by (auto split: if_splits)
  show ?thesis
  proof (cases "n = 0")
    case True
    then show ?thesis using m s f by (simp add: show_nat.simps [of 0] digit_def char_of_def bit_0)
  next
    case False
    have m0: "m \<noteq> 0" using m False by (cases m) auto
    have "case sig_digits P (scale 2 e (m, 1)) of (D, k) \<Rightarrow> show_sig P D k = show_nat ?k"
      by (rule show_sig_int) (use m False k in \<open>auto simp: qval_scale qval_of_nat snd_scale_pos\<close>)
    with f s m0 show ?thesis by (auto split: prod.splits)
  qed
qed

lemma strtod_int:
  assumes "\<bar>n\<bar> < 2 ^ 53"
  shows "strtod ((if n < 0 then ''-'' else []) @ show_nat (nat \<bar>n\<bar>)) =
    (double_of_int n, length ((if n < 0 then ''-'' else []) @ show_nat (nat \<bar>n\<bar>)))"
proof -
  have dig: "\<forall>c \<in> set (show_nat (nat \<bar>n\<bar>)). isdigit c" using isdigit_show_nat by blast
  have "strtod ((if n < 0 then ''-'' else []) @ show_nat (nat \<bar>n\<bar>) @ dot_part [] @ []) =
    (round_ratio (n < 0) (scale 10 (0 - int (length ([] :: string))) (dec_val (show_nat (nat \<bar>n\<bar>) @ []), 1)),
     length ((if n < 0 then ''-'' else []) @ show_nat (nat \<bar>n\<bar>) @ dot_part [] @ []))"
    by (rule strtod_text) (use dig in \<open>auto simp: exp_part_def\<close>)
  then show ?thesis by (simp add: dot_part_def scale_def double_of_int_def)
qed

section \<open>Size and characters\<close>

text \<open>A formatted number is short and made of the characters that the parser accepts.\<close>

lemma length_strip_zeros: "length (strip_zeros f) \<le> length f"
proof -
  have "length (dropWhile (\<lambda>c. c = CHR ''0'') (rev f)) \<le> length (rev f)" by (rule length_dropWhile_le)
  then show ?thesis by (simp add: strip_zeros_def)
qed

lemma length_with_frac: "length (with_frac i f) \<le> length i + length f + 1"
  using length_strip_zeros [of f] by (simp add: with_frac_def)

lemma length_with_frac_cut: "length (with_frac i f) \<le> (if f = [] then length i else length i + length f + 1)"
  using length_strip_zeros [of f] by (auto simp: with_frac_def)

lemma length_show_exp:
  assumes "\<bar>x\<bar> < 1000"
  shows "length (show_exp x) \<le> 5"
proof -
  have "length (show_nat n) \<le> 3" if "n < 1000" for n
    using that by (simp add: show_nat.simps [of n] show_nat.simps [of "n div 10"] show_nat.simps [of "n div 10 div 10"])
  moreover have "length (show_nat n) = 1" if "n < 10" for n
    using that by (simp add: show_nat.simps)
  ultimately show ?thesis using assms by (auto simp: show_exp_def)
qed

lemma length_show_sig:
  assumes D: "10 ^ (P - 1) \<le> D" "D < 10 ^ P" and P: "0 < P" and k: "\<bar>k\<bar> < 1000"
  shows "length (show_sig P D k) \<le> P + 6"
proof -
  have ds: "length (show_nat D) = P"
    using length_show_nat_eq [of "P - 1" D] D P by simp
  consider "k < - 4 \<or> int P \<le> k" | "\<not> (k < - 4 \<or> int P \<le> k)" "k < 0" | "\<not> (k < - 4 \<or> int P \<le> k)" "\<not> k < 0" by blast
  then show ?thesis
  proof cases
    case 1
    have "length (with_frac (take 1 (show_nat D)) (drop 1 (show_nat D))) \<le> P + 1"
      using length_with_frac [of "take 1 (show_nat D)" "drop 1 (show_nat D)"] ds by simp
    with 1 length_show_exp [OF k] show ?thesis by (simp add: show_sig_def Let_def)
  next
    case 2
    then show ?thesis
      using length_with_frac [of "''0''" "replicate (nat (- k - 1)) CHR ''0'' @ show_nat D"] ds
      by (auto simp: show_sig_def Let_def)
  next
    case 3
    then show ?thesis
      using length_with_frac [of "take (nat k + 1) (show_nat D)" "drop (nat k + 1) (show_nat D)"] ds
      by (auto simp: show_sig_def Let_def)
  qed
qed

lemma qlog_range:
  assumes "qpos q" "2 powi (- 1074) \<le> qval q" "qval q < 2 powi 1024"
  shows "- 999 \<le> qlog 10 q \<and> qlog 10 q < 998"
proof -
  have b: "10 powi qlog 10 q \<le> qval q" "qval q < 10 powi (qlog 10 q + 1)"
    using qlog_bounds [of 10 q] assms(1) by auto
  have "(2::real) ^ 1074 = (2 ^ 3) ^ 358" by (subst power_mult [symmetric]) simp
  also have "\<dots> \<le> 10 ^ 358" by (rule power_mono) simp_all
  also have "\<dots> \<le> 10 ^ 998" by (rule power_increasing) simp_all
  finally have bound: "(2::real) ^ 1074 \<le> 10 ^ 998" .
  then have "inverse ((10::real) ^ 998) \<le> inverse (2 ^ 1074)"
    by (rule le_imp_inverse_le) (rule zero_less_power, simp)
  then have lo: "(10::real) powi (- 998) \<le> 2 powi (- 1074)"
    by (simp only: power_int_minus power_int_numeral)
  have "(2::real) ^ 1024 \<le> 2 ^ 1074" by (rule power_increasing) simp_all
  also note bound
  finally have hi: "(2::real) powi 1024 \<le> 10 powi 998" by (simp only: power_int_numeral)
  have less: "a < b" if "(10::real) powi a < 10 powi b" for a b :: int
    using that power_int_increasing [of b a "10 :: real"] by (cases "b \<le> a") auto
  have "10 powi (- 998) < (10::real) powi (qlog 10 q + 1)" using lo assms(2) b(2) by linarith
  then have 1: "- 998 < qlog 10 q + 1" by (rule less)
  have "(10::real) powi qlog 10 q < 10 powi 998" using hi assms(3) b(1) by linarith
  then have 2: "qlog 10 q < 998" by (rule less)
  show ?thesis using 1 2 by simp
qed

lemma canonical_range:
  assumes "canonical m e" "m \<noteq> 0"
  shows "qpos (scale 2 e (m, 1))" "- 999 \<le> qlog 10 (scale 2 e (m, 1)) \<and> qlog 10 (scale 2 e (m, 1)) < 998"
proof -
  show q: "qpos (scale 2 e (m, 1))"
    using assms snd_scale_pos [of 2 "(m, 1)" e] by (auto simp: qpos_def scale_def)
  have v: "qval (scale 2 e (m, 1)) = real m * 2 powi e" by (simp add: qval_scale qval_of_nat)
  have m: "1 \<le> real m" "real m < 2 powi 53" using assms by (auto simp: canonical_def)
  have "(2::real) powi (- 1074) \<le> 2 powi e" using assms(1) by (intro power_int_increasing) (auto simp: canonical_def)
  also have "\<dots> \<le> real m * 2 powi e" using m(1) by simp
  finally have lo: "2 powi (- 1074) \<le> qval (scale 2 e (m, 1))" unfolding v .
  have "real m * 2 powi e < 2 powi 53 * 2 powi e" using m(2) by (intro mult_strict_right_mono) simp_all
  also have "\<dots> = 2 powi (53 + e)" by (rule power_int_add [symmetric]) simp
  also have "\<dots> \<le> 2 powi 1024" using assms(1) by (intro power_int_increasing) (auto simp: canonical_def)
  finally have hi: "qval (scale 2 e (m, 1)) < 2 powi 1024" unfolding v .
  show "- 999 \<le> qlog 10 (scale 2 e (m, 1)) \<and> qlog 10 (scale 2 e (m, 1)) < 998" by (rule qlog_range [OF q lo hi])
qed

lemma length_sprintf_g:
  assumes d: "wf_double d" "is_finite d" and P: "0 < P"
  shows "length (sprintf_g P d) \<le> P + 7"
proof -
  obtain s m e where f: "d = Finite s m e" using d(2) by (cases d) auto
  show ?thesis
  proof (cases "m = 0")
    case True
    then show ?thesis by (simp add: f)
  next
    case False
    have c: "canonical m e" using d f by simp
    obtain D k where sd: "sig_digits P (scale 2 e (m, 1)) = (D, k)" by fastforce
    note q = canonical_range [OF c False]
    have "k = qlog 10 (scale 2 e (m, 1)) \<or> k = qlog 10 (scale 2 e (m, 1)) + 1"
      using sd by (auto simp: sig_digits_def Let_def split: if_splits)
    then have "\<bar>k\<bar> < 1000" using q(2) by auto
    from length_show_sig [OF sig_digits_bounds(1,2) [OF q(1) P sd] P this]
    show ?thesis using False sd by (simp add: f)
  qed
qed

definition numeric :: "string \<Rightarrow> bool" where
  "numeric t \<longleftrightarrow> (\<forall>c \<in> set t. isdigit c \<or> c \<in> set ''+-e.'')"

lemma numeric_append [simp]:
  "numeric []" "numeric (s @ t) = (numeric s \<and> numeric t)" "numeric (c # t) = ((isdigit c \<or> c \<in> set ''+-e.'') \<and> numeric t)"
  by (auto simp: numeric_def)

lemma numeric_show_nat [simp]: "numeric (show_nat n)"
  using isdigit_show_nat by (auto simp: numeric_def)

lemma numeric_sub: "numeric t \<Longrightarrow> set s \<subseteq> set t \<Longrightarrow> numeric s"
  by (auto simp: numeric_def)

lemma numeric_with_frac: "numeric i \<Longrightarrow> numeric f \<Longrightarrow> numeric (with_frac i f)"
  using numeric_sub [of f "strip_zeros f"] strip_zeros_set by (auto simp: with_frac_def)

lemma numeric_sprintf_g:
  assumes "is_finite d"
  shows "numeric (sprintf_g P d)"
proof -
  obtain s m e where f: "d = Finite s m e" using assms by (cases d) auto
  have ex: "numeric (show_exp x)" for x by (simp add: show_exp_def)
  have td: "numeric (take i (show_nat D))" "numeric (drop i (show_nat D))" for i D
    by (rule numeric_sub [OF numeric_show_nat]; auto dest: in_set_takeD in_set_dropD)+
  have rp: "numeric (replicate i (CHR ''0''))" for i by (auto simp: numeric_def)
  have "numeric (show_sig P D k)" for D k
    unfolding show_sig_def Let_def using ex td rp by (auto intro!: numeric_with_frac)
  then show ?thesis by (auto simp: f split: prod.splits)
qed

lemma numeric_sprintf_g_start:
  assumes "wf_double d" "is_finite d" "0 < P"
  shows "\<exists>c t. sprintf_g P d = c # t \<and> (isdigit c \<or> c = CHR ''-'')"
proof -
  obtain s m e where f: "d = Finite s m e" using assms by (cases d) auto
  have start: "\<exists>c t. with_frac i fr @ r = c # t \<and> isdigit c" if "i \<noteq> []" "\<forall>x \<in> set i. isdigit x" for i fr r
    using that by (cases i) (auto simp: with_frac_def)
  have ne: "show_nat D \<noteq> []" "\<forall>x \<in> set (show_nat D). isdigit x" for D using isdigit_show_nat by auto
  have "\<exists>c t. show_sig P D k = c # t \<and> isdigit c" for D k
  proof -
    have 1: "\<exists>c t. with_frac (take (Suc i) (show_nat D)) fr @ r = c # t \<and> isdigit c" for i fr r
      using ne [of D] by (intro start) (auto dest: in_set_takeD)
    have 2: "\<exists>c t. with_frac ''0'' fr = c # t \<and> isdigit c" for fr using start [of "''0''" fr "[]"] by simp
    show ?thesis unfolding show_sig_def Let_def
      using 1 [of 0 _ "show_exp k"] 1 [of "nat k" _ "[]"] 2 by simp
  qed
  then show ?thesis by (cases s; cases "m = 0") (simp_all add: f split: prod.splits, blast)
qed

text \<open>Reading a formatted number back consumes all of it.\<close>

lemma strtod_sprintf_g:
  assumes d: "wf_double d" "is_finite d" and P: "0 < P"
  shows "\<exists>r. strtod (sprintf_g P d) = (r, length (sprintf_g P d))"
proof -
  obtain s m e where f: "d = Finite s m e" using d(2) by (cases d) auto
  show ?thesis
  proof (cases "m = 0")
    case True
    have "strtod ((if s then ''-'' else []) @ ''0'' @ dot_part [] @ []) =
      (round_ratio s (scale 10 (0 - int (length ([] :: string))) (dec_val (''0'' @ []), 1)),
       length ((if s then ''-'' else []) @ ''0'' @ dot_part [] @ []))"
      by (rule strtod_text) (auto simp: exp_part_def)
    then show ?thesis using True by (simp add: f dot_part_def)
  next
    case False
    obtain D k where sd: "sig_digits P (scale 2 e (m, 1)) = (D, k)" by fastforce
    have c: "canonical m e" using d f by simp
    note q = canonical_range(1) [OF c False]
    from strtod_show_sig [OF sig_digits_bounds(1,2) [OF q P sd] P, of s k] False sd
    show ?thesis by (auto simp: f)
  qed
qed

end
