(* ===== verification/Item.thy ===== *)
theory Item
  imports Number_Text
begin

text \<open>
  The data of \<open>cJSON.h\<close>: the type bits, the item (\<open>struct cJSON\<close>, as a tree: the chain
  of siblings below \<open>child\<close> is a list), the type tests and getters, the numeric fields, and
  the accounting of heap blocks behind the allocation hooks.
\<close>

section \<open>Type bits\<close>

abbreviation cJSON_Invalid :: u32 where "cJSON_Invalid \<equiv> 0"
abbreviation cJSON_False :: u32 where "cJSON_False \<equiv> 1"
abbreviation cJSON_True :: u32 where "cJSON_True \<equiv> 2"
abbreviation cJSON_NULL :: u32 where "cJSON_NULL \<equiv> 4"
abbreviation cJSON_Number :: u32 where "cJSON_Number \<equiv> 8"
abbreviation cJSON_String :: u32 where "cJSON_String \<equiv> 16"
abbreviation cJSON_Array :: u32 where "cJSON_Array \<equiv> 32"
abbreviation cJSON_Object :: u32 where "cJSON_Object \<equiv> 64"
abbreviation cJSON_Raw :: u32 where "cJSON_Raw \<equiv> 128"
abbreviation cJSON_IsReference :: u32 where "cJSON_IsReference \<equiv> 256"
abbreviation cJSON_StringIsConst :: u32 where "cJSON_StringIsConst \<equiv> 512"

abbreviation INT_MAX :: int where "INT_MAX \<equiv> 2147483647"
abbreviation INT_MIN :: int where "INT_MIN \<equiv> - 2147483648"
abbreviation CJSON_NESTING_LIMIT :: nat where "CJSON_NESTING_LIMIT \<equiv> 1000"

section \<open>Items\<close>

datatype cJSON = Item
  (item_type: u32) (valuestring: "string option") (valueint: int) (valuedouble: double)
  (item_string: "string option") (children: "cJSON list")

definition zero_item :: cJSON where
  "zero_item = Item 0 None 0 zero_double None []"

primrec set_type :: "u32 \<Rightarrow> cJSON \<Rightarrow> cJSON" where
  "set_type t (Item _ vs vi vd s cs) = Item t vs vi vd s cs"

primrec set_valuestring :: "string option \<Rightarrow> cJSON \<Rightarrow> cJSON" where
  "set_valuestring vs (Item t _ vi vd s cs) = Item t vs vi vd s cs"

primrec set_valueint :: "int \<Rightarrow> cJSON \<Rightarrow> cJSON" where
  "set_valueint vi (Item t vs _ vd s cs) = Item t vs vi vd s cs"

primrec set_valuedouble :: "double \<Rightarrow> cJSON \<Rightarrow> cJSON" where
  "set_valuedouble vd (Item t vs vi _ s cs) = Item t vs vi vd s cs"

primrec set_string :: "string option \<Rightarrow> cJSON \<Rightarrow> cJSON" where
  "set_string s (Item t vs vi vd _ cs) = Item t vs vi vd s cs"

primrec set_children :: "cJSON list \<Rightarrow> cJSON \<Rightarrow> cJSON" where
  "set_children cs (Item t vs vi vd s _) = Item t vs vi vd s cs"

definition kind :: "cJSON \<Rightarrow> u32" where
  "kind item = item_type item AND 0xFF"

definition has_flag :: "u32 \<Rightarrow> cJSON \<Rightarrow> bool" where
  "has_flag f item \<longleftrightarrow> item_type item AND f \<noteq> 0"

lemma set_selectors [simp]:
  "item_type (set_type t i) = t" "item_type (set_valuestring vs i) = item_type i"
  "item_type (set_valueint n i) = item_type i" "item_type (set_valuedouble d i) = item_type i"
  "item_type (set_string s i) = item_type i" "item_type (set_children cs i) = item_type i"
  "valuestring (set_type t i) = valuestring i" "valuestring (set_valuestring vs i) = vs"
  "valuestring (set_valueint n i) = valuestring i" "valuestring (set_valuedouble d i) = valuestring i"
  "valuestring (set_string s i) = valuestring i" "valuestring (set_children cs i) = valuestring i"
  "item_string (set_type t i) = item_string i" "item_string (set_valuestring vs i) = item_string i"
  "item_string (set_valueint n i) = item_string i" "item_string (set_valuedouble d i) = item_string i"
  "item_string (set_string s i) = s" "item_string (set_children cs i) = item_string i"
  "children (set_type t i) = children i" "children (set_valuestring vs i) = children i"
  "children (set_valueint n i) = children i" "children (set_valuedouble d i) = children i"
  "children (set_string s i) = children i" "children (set_children cs i) = cs"
  by (cases i; simp)+

section \<open>Type tests and getters (a null pointer is \<open>None\<close>)\<close>

definition is_kind :: "u32 \<Rightarrow> cJSON option \<Rightarrow> bool" where
  "is_kind t item = (case item of None \<Rightarrow> False | Some i \<Rightarrow> kind i = t)"

definition cJSON_IsInvalid :: "cJSON option \<Rightarrow> bool" where
  "cJSON_IsInvalid item = is_kind cJSON_Invalid item"
definition cJSON_IsFalse :: "cJSON option \<Rightarrow> bool" where
  "cJSON_IsFalse item = is_kind cJSON_False item"
definition cJSON_IsTrue :: "cJSON option \<Rightarrow> bool" where
  "cJSON_IsTrue item = is_kind cJSON_True item"
definition cJSON_IsBool :: "cJSON option \<Rightarrow> bool" where
  "cJSON_IsBool item =
     (case item of None \<Rightarrow> False | Some i \<Rightarrow> item_type i AND (cJSON_True OR cJSON_False) \<noteq> 0)"
definition cJSON_IsNull :: "cJSON option \<Rightarrow> bool" where
  "cJSON_IsNull item = is_kind cJSON_NULL item"
definition cJSON_IsNumber :: "cJSON option \<Rightarrow> bool" where
  "cJSON_IsNumber item = is_kind cJSON_Number item"
definition cJSON_IsString :: "cJSON option \<Rightarrow> bool" where
  "cJSON_IsString item = is_kind cJSON_String item"
definition cJSON_IsArray :: "cJSON option \<Rightarrow> bool" where
  "cJSON_IsArray item = is_kind cJSON_Array item"
definition cJSON_IsObject :: "cJSON option \<Rightarrow> bool" where
  "cJSON_IsObject item = is_kind cJSON_Object item"
definition cJSON_IsRaw :: "cJSON option \<Rightarrow> bool" where
  "cJSON_IsRaw item = is_kind cJSON_Raw item"

definition cJSON_GetStringValue :: "cJSON option \<Rightarrow> string option" where
  "cJSON_GetStringValue item =
     (if \<not> cJSON_IsString item then None else Option.bind item valuestring)"

definition cJSON_GetNumberValue :: "cJSON option \<Rightarrow> double" where
  "cJSON_GetNumberValue item =
     (case item of None \<Rightarrow> NaN | Some i \<Rightarrow> if \<not> cJSON_IsNumber item then NaN else valuedouble i)"

lemmas is_kind_defs = cJSON_IsInvalid_def cJSON_IsFalse_def cJSON_IsTrue_def cJSON_IsNull_def
  cJSON_IsNumber_def cJSON_IsString_def cJSON_IsArray_def cJSON_IsObject_def cJSON_IsRaw_def is_kind_def

section \<open>Numbers\<close>

text \<open>The saturated integer next to a number; the cast is undefined for NaN (\<open>None\<close>).\<close>

definition saturate :: "double \<Rightarrow> int option" where
  "saturate number =
     (if dle (double_of_int INT_MAX) number then Some INT_MAX
      else if dle number (double_of_int INT_MIN) then Some INT_MIN
      else double_to_int number)"

definition cJSON_SetNumberHelper :: "cJSON \<Rightarrow> double \<Rightarrow> cJSON option" where
  "cJSON_SetNumberHelper object number = do {
     vi \<leftarrow> saturate number;
     Some (set_valuedouble number (set_valueint vi object)) }"

definition compare_double :: "double \<Rightarrow> double \<Rightarrow> bool" where
  "compare_double a b =
     (let maxVal = (if dless (dabs b) (dabs a) then dabs a else dabs b)
      in dle (dabs (dsub a b)) (dmul maxVal DBL_EPSILON))"

section \<open>The allocation hooks\<close>

text \<open>
  \<open>global_hooks\<close>: which functions are installed.  \<open>Std\<close> stands for \<open>malloc\<close>,
  \<open>free\<close> and \<open>realloc\<close>, \<open>Custom n\<close> for a function of the client.
\<close>

datatype hook_fn = Std | Custom nat

record internal_hooks =
  allocate_fn :: hook_fn
  deallocate_fn :: hook_fn
  reallocate_fn :: "hook_fn option"

text \<open>The argument of \<open>cJSON_InitHooks\<close>: null, or two function pointers that may be null.\<close>

definition cJSON_InitHooks ::
    "(hook_fn option \<times> hook_fn option) option \<Rightarrow> internal_hooks \<Rightarrow> internal_hooks" where
  "cJSON_InitHooks hooks g =
     (case hooks of
        None \<Rightarrow> g\<lparr>allocate_fn := Std, deallocate_fn := Std, reallocate_fn := Some Std\<rparr>
      | Some (malloc_fn, free_fn) \<Rightarrow>
          (let g1 = g\<lparr>allocate_fn := (case malloc_fn of None \<Rightarrow> Std | Some f \<Rightarrow> f)\<rparr>;
               g2 = g1\<lparr>deallocate_fn := (case free_fn of None \<Rightarrow> Std | Some f \<Rightarrow> f)\<rparr>;
               g3 = g2\<lparr>reallocate_fn := None\<rparr>
           in if allocate_fn g3 = Std \<and> deallocate_fn g3 = Std
              then g3\<lparr>reallocate_fn := Some Std\<rparr> else g3))"

text \<open>
  The heap as the code above the hooks sees it: \<open>may_alloc i\<close> tells whether the \<open>i\<close>-th
  request succeeds, \<open>tries\<close> counts the requests, \<open>live\<close> the blocks handed out and not
  yet freed; \<open>junk\<close> is what fresh memory holds.
\<close>

record mem =
  may_alloc :: "nat \<Rightarrow> bool"
  tries :: nat
  live :: int
  has_realloc :: bool
  junk :: "nat \<Rightarrow> char"

definition allocate :: "mem \<Rightarrow> bool \<times> mem" where
  "allocate m = (if may_alloc m (tries m) then (True, m\<lparr>tries := tries m + 1, live := live m + 1\<rparr>)
                 else (False, m\<lparr>tries := tries m + 1\<rparr>))"

definition deallocate :: "int \<Rightarrow> mem \<Rightarrow> mem" where
  "deallocate k m = m\<lparr>live := live m - k\<rparr>"

definition cJSON_New_Item :: "mem \<Rightarrow> cJSON option \<times> mem" where
  "cJSON_New_Item m = (case allocate m of (ok, m') \<Rightarrow> (if ok then Some zero_item else None, m'))"

text \<open>How many blocks \<open>cJSON_Delete\<close> hands back for an item.\<close>

fun blocks :: "cJSON \<Rightarrow> int" where
  "blocks (Item t vs vi vd s cs) =
     (if t AND cJSON_IsReference = 0 then sum_list (map blocks cs) else 0) +
     (if t AND cJSON_IsReference = 0 \<and> vs \<noteq> None then 1 else 0) +
     (if t AND cJSON_StringIsConst = 0 \<and> s \<noteq> None then 1 else 0) + 1"

definition chain_blocks :: "cJSON list \<Rightarrow> int" where
  "chain_blocks items = sum_list (map blocks items)"

text \<open>\<open>cJSON_Delete\<close> of the first item of a chain of siblings.\<close>

definition cJSON_Delete :: "cJSON list \<Rightarrow> mem \<Rightarrow> mem" where
  "cJSON_Delete items m = deallocate (chain_blocks items) m"

lemma chain_blocks_simps [simp]:
  "chain_blocks [] = 0" "chain_blocks (i # is) = blocks i + chain_blocks is"
  "chain_blocks (xs @ ys) = chain_blocks xs + chain_blocks ys"
  by (simp_all add: chain_blocks_def)

lemma live_simps [simp]:
  "live (deallocate k m) = live m - k" "live (cJSON_Delete is m) = live m - chain_blocks is"
  by (simp_all add: deallocate_def cJSON_Delete_def)

lemma allocate_live: "allocate m = (ok, m') \<Longrightarrow> live m' = live m + (if ok then 1 else 0)"
  by (auto simp: allocate_def split: if_splits)

section \<open>Lemmas on numbers\<close>

lemma double_of_int_limits:
  "double_of_int INT_MAX = Finite False 9007199250546688 (- 22)"
  "double_of_int INT_MIN = Finite True 4503599627370496 (- 21)"
  by (simp_all add: double_eval)

lemma saturate_range: "saturate d = Some i \<Longrightarrow> INT_MIN \<le> i \<and> i \<le> INT_MAX"
  by (cases d) (auto simp: saturate_def Let_def split: if_splits prod.splits)

lemma compare_double_refl:
  assumes "is_finite d"
  shows "compare_double d d"
proof -
  obtain s m e where d: "d = Finite s m e" using assms by (cases d) auto
  define r where "r = dmul (dabs d) DBL_EPSILON"
  have "dle (Finite False 0 (- 1074)) r"
  proof -
    have "\<exists>n f. r = Finite False n f \<or> r = Infinity False"
      unfolding r_def d DBL_EPSILON_def by (simp add: round_ratio_def round_pos_def Let_def)
    then show ?thesis by (auto simp: align_def Let_def smant_def)
  qed
  then show ?thesis using assms by (simp add: compare_double_def dsub_self r_def Let_def)
qed

lemma saturate_int:
  assumes "INT_MIN \<le> n" "n \<le> INT_MAX"
  shows "saturate (double_of_int n) = Some n"
proof -
  have b: "nat \<bar>n\<bar> < 2 ^ 53" using assms by (simp add: nat_less_iff abs_less_iff)
  note r = round_ratio_int [where q = "(nat \<bar>n\<bar>, 1)" and n = "nat \<bar>n\<bar>" and s = "n < 0", OF _ _ b]
  have fin: "is_finite (double_of_int n)" and v: "dval (double_of_int n) = real_of_int n"
    using r(3,4) by (auto simp: double_of_int_def qval_of_nat)
  have lim: "is_finite (double_of_int INT_MAX)" "is_finite (double_of_int INT_MIN)"
    "dval (double_of_int INT_MAX) = real_of_int INT_MAX" "dval (double_of_int INT_MIN) = real_of_int INT_MIN"
    unfolding double_of_int_limits by (simp_all add: power_int_minus)
  have dl: "dle (double_of_int INT_MAX) (double_of_int n) \<longleftrightarrow> INT_MAX \<le> n"
    "dle (double_of_int n) (double_of_int INT_MIN) \<longleftrightarrow> n \<le> INT_MIN"
    by (simp_all only: dle_finite fin lim v of_int_le_iff)
  obtain s m e where f: "double_of_int n = Finite s m e" using fin by (cases "double_of_int n") auto
  have s: "s = (n < 0)"
    using f unfolding double_of_int_def round_ratio_def round_pos_def
    by (auto simp: Let_def split: if_splits)
  have "real m * 2 powi e = real (nat \<bar>n\<bar>)" using v f s by (auto split: if_splits)
  then have "qval (scale 2 e (m, 1)) = real (nat \<bar>n\<bar>)" by (simp add: qval_scale qval_of_nat)
  then have "real (fst (scale 2 e (m, 1))) = real (nat \<bar>n\<bar> * snd (scale 2 e (m, 1)))"
    using snd_scale_pos [of 2 "(m, 1)" e] by (simp add: qval_def field_simps)
  then have "fst (scale 2 e (m, 1)) = nat \<bar>n\<bar> * snd (scale 2 e (m, 1))" by (simp only: of_nat_eq_iff)
  then have "fst (scale 2 e (m, 1)) div snd (scale 2 e (m, 1)) = nat \<bar>n\<bar>"
    using snd_scale_pos [of 2 "(m, 1)" e] by simp
  then have "double_to_int (double_of_int n) = Some n"
    using assms s by (auto simp: f Let_def split: prod.splits)
  with dl assms show ?thesis by (auto simp: saturate_def)
qed

end
