(* ===== verification/Scan.thy ===== *)
theory Scan
  imports Item
begin

text \<open>
  The parser's buffer and its lexical level (\<open>json/cJSON.c\<close>): white space, the byte order
  mark, numbers, the four-digit escapes, UTF-16 escapes to UTF-8 and string literals.

  A \<open>parse_buffer\<close> holds the memory object that the text lies in (\<open>content\<close>, all its
  bytes), the length the caller claimed, the offset, the nesting depth and the state of the
  allocation hooks.  Every read goes through \<^term>\<open>peek\<close>, so that a read outside the object
  is \<open>None\<close>.  The buffer pointer itself is never null here: all callers pass the address of
  a local variable.
\<close>

section \<open>The buffer\<close>

record parse_buffer =
  content :: string
  buflen :: nat
  offset :: nat
  depth :: nat
  bmem :: mem

definition can_read :: "parse_buffer \<Rightarrow> nat \<Rightarrow> bool" where
  "can_read b n \<longleftrightarrow> offset b + n \<le> buflen b"

definition can_access_at_index :: "parse_buffer \<Rightarrow> nat \<Rightarrow> bool" where
  "can_access_at_index b i \<longleftrightarrow> offset b + i < buflen b"

definition at_offset :: "parse_buffer \<Rightarrow> nat \<Rightarrow> char option" where
  "at_offset b i = peek (content b) (offset b + i)"

text \<open>\<open>can_access_at_index(b, 0) && b[0] == c\<close>, with C's short circuit.\<close>

definition next_is :: "char \<Rightarrow> parse_buffer \<Rightarrow> bool option" where
  "next_is c b = (if can_access_at_index b 0 then map_option (\<lambda>x. x = c) (at_offset b 0) else Some False)"

text \<open>\<open>strncmp(b, lit, strlen(lit)) == 0\<close> for a literal: stops at the first difference.\<close>

fun literal_at :: "string \<Rightarrow> nat \<Rightarrow> string \<Rightarrow> bool option" where
  "literal_at s i [] = Some True"
| "literal_at s i (c # cs) = do { x \<leftarrow> peek s i; if x = c then literal_at s (i + 1) cs else Some False }"

section \<open>White space and the byte order mark\<close>

function skip_loop :: "parse_buffer \<Rightarrow> parse_buffer option" where
  "skip_loop b =
     (if can_access_at_index b 0
      then do { c \<leftarrow> at_offset b 0;
                if ord c \<le> 32 then skip_loop (b\<lparr>offset := offset b + 1\<rparr>) else Some b }
      else Some b)"
  by pat_completeness auto
termination
  by (relation "measure (\<lambda>b. buflen b - offset b)") (auto simp: can_access_at_index_def)

declare skip_loop.simps [simp del]

definition buffer_skip_whitespace :: "parse_buffer \<Rightarrow> parse_buffer option" where
  "buffer_skip_whitespace b =
     (if \<not> can_access_at_index b 0 then Some b
      else do { b' \<leftarrow> skip_loop b;
                Some (if offset b' = buflen b' then b'\<lparr>offset := offset b' - 1\<rparr> else b') })"

text \<open>The result is null (\<open>Some None\<close>) when the buffer is not at its start.\<close>

definition skip_utf8_bom :: "parse_buffer \<Rightarrow> parse_buffer option option" where
  "skip_utf8_bom b =
     (if offset b \<noteq> 0 then Some None
      else if can_access_at_index b 4
      then do { bom \<leftarrow> literal_at (content b) (offset b) [CHR 0xEF, CHR 0xBB, CHR 0xBF];
                Some (Some (if bom then b\<lparr>offset := offset b + 3\<rparr> else b)) }
      else Some (Some b))"

section \<open>Numbers\<close>

definition number_char :: "char \<Rightarrow> bool" where
  "number_char c \<longleftrightarrow> c \<in> set ''0123456789+-eE.''"

text \<open>The copy loop: at most 63 bytes into \<open>number_c_string\<close> (the decimal point of the
  locale is the dot, as \<open>ENABLE_LOCALES\<close> is not defined).\<close>

function copy_number :: "parse_buffer \<Rightarrow> nat \<Rightarrow> string option" where
  "copy_number b i =
     (if i < 63 \<and> can_access_at_index b i
      then do { c \<leftarrow> at_offset b i;
                if number_char c then do { r \<leftarrow> copy_number b (i + 1); Some (c # r) } else Some [] }
      else Some [])"
  by pat_completeness auto
termination
  by (relation "measure (\<lambda>(b, i). 63 - i)") auto

declare copy_number.simps [simp del]

definition parse_number :: "cJSON \<Rightarrow> parse_buffer \<Rightarrow> (bool \<times> cJSON \<times> parse_buffer) option" where
  "parse_number item b = do {
     number_c_string \<leftarrow> copy_number b 0;
     (case strtod number_c_string of (number, consumed) \<Rightarrow>
        if consumed = 0 then Some (False, item, b)
        else do {
          vi \<leftarrow> saturate number;
          Some (True,
                set_type cJSON_Number (set_valueint vi (set_valuedouble number item)),
                b\<lparr>offset := offset b + consumed\<rparr>) }) }"

section \<open>Escapes\<close>

function hex4_loop :: "string \<Rightarrow> nat \<Rightarrow> nat \<Rightarrow> u32 \<Rightarrow> u32 option" where
  "hex4_loop s p i h =
     (if i < 4 then do {
        c \<leftarrow> peek s (p + i);
        (case (if 48 \<le> ord c \<and> ord c \<le> 57 then Some (h + of_nat (ord c) - 48)
               else if 65 \<le> ord c \<and> ord c \<le> 70 then Some (h + 10 + of_nat (ord c) - 65)
               else if 97 \<le> ord c \<and> ord c \<le> 102 then Some (h + 10 + of_nat (ord c) - 97)
               else None)
         of None \<Rightarrow> Some 0
          | Some h' \<Rightarrow> hex4_loop s p (i + 1) (if i < 3 then push_bit 4 h' else h')) }
      else Some h)"
  by pat_completeness auto
termination
  by (relation "measure (\<lambda>(s, p, i, h). 4 - i)") auto

declare hex4_loop.simps [simp del]

definition parse_hex4 :: "string \<Rightarrow> nat \<Rightarrow> u32 option" where
  "parse_hex4 s p = hex4_loop s p 0 0"

text \<open>The output of a string literal: the bytes written so far and the size of the block.\<close>

definition put :: "nat \<Rightarrow> string \<Rightarrow> string \<Rightarrow> string option" where
  "put cap out cs = (if length out + length cs \<le> cap then Some (out @ cs) else None)"

definition byte_of :: "u32 \<Rightarrow> char" where
  "byte_of w = char_of (unat (w AND 0xFF))"

text \<open>The loop that writes the continuation bytes from the last to the first.\<close>

fun utf8_tail :: "nat \<Rightarrow> u32 \<Rightarrow> string \<Rightarrow> u32 \<times> string" where
  "utf8_tail 0 cp acc = (cp, acc)"
| "utf8_tail (Suc n) cp acc = utf8_tail n (drop_bit 6 cp) (byte_of ((cp OR 0x80) AND 0xBF) # acc)"

definition encode_utf8 :: "u32 \<Rightarrow> string option" where
  "encode_utf8 codepoint =
     (case (if codepoint < 0x80 then Some (1, 0)
            else if codepoint < 0x800 then Some (2, 0xC0)
            else if codepoint < 0x10000 then Some (3, 0xE0)
            else if codepoint \<le> 0x10FFFF then Some (4, 0xF0)
            else None)
      of None \<Rightarrow> None
       | Some (utf8_length :: nat, first_byte_mark) \<Rightarrow>
           (case utf8_tail (utf8_length - 1) codepoint [] of (cp, tail) \<Rightarrow>
              Some ((if 1 < utf8_length then byte_of ((cp OR first_byte_mark) AND 0xFF)
                     else byte_of (cp AND 0x7F)) # tail)))"

text \<open>
  \<open>utf16_literal_to_utf8\<close>: the length of the escape that was read (0 on failure) and the
  output after it.
\<close>

definition utf16_literal_to_utf8 :: "string \<Rightarrow> nat \<Rightarrow> nat \<Rightarrow> nat \<Rightarrow> string \<Rightarrow> (nat \<times> string) option" where
  "utf16_literal_to_utf8 s input_pointer input_end cap out =
     (if input_end - input_pointer < 6 then Some (0, out)
      else do {
        first_code \<leftarrow> parse_hex4 s (input_pointer + 2);
        if 0xDC00 \<le> first_code \<and> first_code \<le> 0xDFFF then Some (0, out)
        else do {
          r \<leftarrow> (if 0xD800 \<le> first_code \<and> first_code \<le> 0xDBFF
               then (let second_sequence = input_pointer + 6 in
                 if input_end - second_sequence < 6 then Some None
                 else do {
                   c0 \<leftarrow> peek s second_sequence;
                   if c0 \<noteq> CHR 0x5C then Some None
                   else do {
                     c1 \<leftarrow> peek s (second_sequence + 1);
                     if c1 \<noteq> CHR ''u'' then Some None
                     else do {
                       second_code \<leftarrow> parse_hex4 s (second_sequence + 2);
                       if second_code < 0xDC00 \<or> 0xDFFF < second_code then Some None
                       else Some (Some (12, 0x10000 +
                              (push_bit 10 (first_code AND 0x3FF) OR (second_code AND 0x3FF)))) } } })
               else Some (Some (6, first_code)));
          (case r of
             None \<Rightarrow> Some (0, out)
           | Some (sequence_length, codepoint) \<Rightarrow>
               (case encode_utf8 codepoint of
                  None \<Rightarrow> Some (0, out)
                | Some bytes \<Rightarrow> do { out' \<leftarrow> put cap out bytes; Some (sequence_length, out') })) } })"

section \<open>String literals\<close>

text \<open>
  The first pass: the position of the closing quote (or the end of the text) and the number
  of escapes before it; \<open>Some None\<close> is the jump to \<open>fail\<close> on a trailing backslash.
\<close>

function scan_string :: "string \<Rightarrow> nat \<Rightarrow> nat \<Rightarrow> nat \<Rightarrow> (nat \<times> nat) option option" where
  "scan_string s len input_end skipped_bytes =
     (if input_end < len then do {
        c \<leftarrow> peek s input_end;
        if c = CHR 0x22 then Some (Some (input_end, skipped_bytes))
        else if c = CHR 0x5C then
          (if len \<le> input_end + 1 then Some None
           else scan_string s len (input_end + 2) (skipped_bytes + 1))
        else scan_string s len (input_end + 1) skipped_bytes }
      else Some (Some (input_end, skipped_bytes)))"
  by pat_completeness auto
termination
  by (relation "measure (\<lambda>(s, len, e, k). len - e)") auto

declare scan_string.simps [simp del]

definition simple_escape :: "char \<Rightarrow> char option" where
  "simple_escape c =
     (if c = CHR ''b'' then Some (CHR 0x08)
      else if c = CHR ''f'' then Some (CHR 0x0C)
      else if c = CHR ''n'' then Some (CHR 0x0A)
      else if c = CHR ''r'' then Some (CHR 0x0D)
      else if c = CHR ''t'' then Some (CHR 0x09)
      else if c = CHR 0x22 \<or> c = CHR 0x5C \<or> c = CHR ''/'' then Some c
      else None)"

text \<open>
  The second pass: \<open>(True, p, out)\<close> when the literal is unescaped, \<open>(False, p, out)\<close> for
  the jump to \<open>fail\<close> with the input pointer at \<open>p\<close>.
\<close>

function unescape :: "string \<Rightarrow> nat \<Rightarrow> nat \<Rightarrow> nat \<Rightarrow> string \<Rightarrow> (bool \<times> nat \<times> string) option" where
  "unescape s input_end cap input_pointer out =
     (if input_pointer < input_end then do {
        c \<leftarrow> peek s input_pointer;
        if c \<noteq> CHR 0x5C then do {
          out' \<leftarrow> put cap out [c];
          unescape s input_end cap (input_pointer + 1) out' }
        else if input_end - input_pointer < 1 then Some (False, input_pointer, out)
        else do {
          e \<leftarrow> peek s (input_pointer + 1);
          (case simple_escape e of
             Some x \<Rightarrow> do {
               out' \<leftarrow> put cap out [x];
               unescape s input_end cap (input_pointer + 2) out' }
           | None \<Rightarrow>
               if e = CHR ''u'' then do {
                 r \<leftarrow> utf16_literal_to_utf8 s input_pointer input_end cap out;
                 if fst r = 0 then Some (False, input_pointer, snd r)
                 else unescape s input_end cap (input_pointer + fst r) (snd r) }
               else Some (False, input_pointer, out)) } }
      else Some (True, input_pointer, out))"
  by pat_completeness auto
termination
  by (relation "measure (\<lambda>(s, e, cap, p, out). e - p)") auto

declare unescape.simps [simp del]

text \<open>The bytes of the literal as the C string the item holds: up to the first NUL.\<close>

definition parse_string :: "cJSON \<Rightarrow> parse_buffer \<Rightarrow> (bool \<times> cJSON \<times> parse_buffer) option" where
  "parse_string item b = do {
     let start = offset b + 1;
     c \<leftarrow> at_offset b 0;
     if c \<noteq> CHR 0x22 then Some (False, item, b\<lparr>offset := start\<rparr>)
     else do {
       r \<leftarrow> scan_string (content b) (buflen b) start 0;
       (case r of
          None \<Rightarrow> Some (False, item, b\<lparr>offset := start\<rparr>)
        | Some (input_end, skipped_bytes) \<Rightarrow>
            if buflen b \<le> input_end then Some (False, item, b\<lparr>offset := start\<rparr>)
            else do {
              let allocation_length = input_end - offset b - skipped_bytes;
              let (ok, m) = allocate (bmem b);
              if \<not> ok then Some (False, item, b\<lparr>offset := start, bmem := m\<rparr>)
              else do {
                u \<leftarrow> unescape (content b) input_end (allocation_length + 1) start [];
                (case u of (good, input_pointer, out) \<Rightarrow>
                   if \<not> good
                   then Some (False, item, b\<lparr>offset := input_pointer, bmem := deallocate 1 m\<rparr>)
                   else do {
                     output \<leftarrow> put (allocation_length + 1) out [NUL];
                     Some (True,
                           set_type cJSON_String (set_valuestring (Some (cstring output)) item),
                           b\<lparr>offset := input_end + 1, bmem := m\<rparr>) }) } }) } }"

end
