(* ===== verification/Parser.thy ===== *)
theory Parser
  imports Scan
begin

text \<open>
  The recursive-descent parser of \<open>json/cJSON.c\<close> and its entry points.  The item being
  filled is passed and returned, also on failure (its caller deletes it); a chain of siblings
  is the list of its items.  The recursion takes fuel; \<open>parse_fuel\<close> is always enough.
\<close>

definition number_start :: "parse_buffer \<Rightarrow> bool option" where
  "number_start b =
     (if can_access_at_index b 0
      then map_option (\<lambda>c. c = CHR ''-'' \<or> (48 \<le> ord c \<and> ord c \<le> 57)) (at_offset b 0)
      else Some False)"

definition keyword_at :: "string \<Rightarrow> parse_buffer \<Rightarrow> bool option" where
  "keyword_at w b = (if can_read b (length w) then literal_at (content b) (offset b) w else Some False)"

text \<open>An item parser: success, the filled item and the buffer afterwards.\<close>

type_synonym item_parser = "cJSON \<Rightarrow> parse_buffer \<Rightarrow> (bool \<times> cJSON \<times> parse_buffer) option"

section \<open>Arrays\<close>

text \<open>
  The do-while loop of \<open>parse_array\<close>, with \<open>parse_value\<close> as the parameter \<open>pv\<close>: it
  returns the chain of items, the last one possibly unfinished when it failed.
\<close>

fun parse_array_items ::
    "item_parser \<Rightarrow> nat \<Rightarrow> cJSON list \<Rightarrow> parse_buffer \<Rightarrow> (bool \<times> cJSON list \<times> parse_buffer) option" where
  "parse_array_items pv 0 head b = None"
| "parse_array_items pv (Suc n) head b =
     (case cJSON_New_Item (bmem b) of
        (None, m) \<Rightarrow> Some (False, head, b\<lparr>bmem := m\<rparr>)
      | (Some new_item, m) \<Rightarrow> do {
          b1 \<leftarrow> buffer_skip_whitespace (b\<lparr>bmem := m, offset := offset b + 1\<rparr>);
          (ok, current_item, b2) \<leftarrow> pv new_item b1;
          if \<not> ok then Some (False, head @ [current_item], b2)
          else do {
            b3 \<leftarrow> buffer_skip_whitespace b2;
            comma \<leftarrow> next_is (CHR '','') b3;
            if comma then parse_array_items pv n (head @ [current_item]) b3
            else Some (True, head @ [current_item], b3) } })"

definition parse_array :: "item_parser \<Rightarrow> nat \<Rightarrow> item_parser" where
  "parse_array pv n item b0 =
     (if CJSON_NESTING_LIMIT \<le> depth b0 then Some (False, item, b0)
      else do {
        let b1 = b0\<lparr>depth := depth b0 + 1\<rparr>;
        c \<leftarrow> at_offset b1 0;
        if c \<noteq> CHR ''['' then Some (False, item, b1)
        else do {
          b2 \<leftarrow> buffer_skip_whitespace (b1\<lparr>offset := offset b1 + 1\<rparr>);
          empty \<leftarrow> next_is (CHR '']'') b2;
          if empty
          then Some (True, set_children [] (set_type cJSON_Array item),
                     b2\<lparr>depth := depth b2 - 1, offset := offset b2 + 1\<rparr>)
          else if \<not> can_access_at_index b2 0 then Some (False, item, b2\<lparr>offset := offset b2 - 1\<rparr>)
          else do {
            (ok, head, b3) \<leftarrow> parse_array_items pv n [] (b2\<lparr>offset := offset b2 - 1\<rparr>);
            closed \<leftarrow> (if ok then next_is (CHR '']'') b3 else Some False);
            if \<not> closed then Some (False, item, b3\<lparr>bmem := cJSON_Delete head (bmem b3)\<rparr>)
            else Some (True, set_children head (set_type cJSON_Array item),
                       b3\<lparr>depth := depth b3 - 1, offset := offset b3 + 1\<rparr>) } } })"

section \<open>Objects\<close>

text \<open>The name and the value of one member, as the loop body of \<open>parse_object\<close> parses them.\<close>

definition parse_member :: "item_parser \<Rightarrow> item_parser" where
  "parse_member pv new_item b = do {
     b1 \<leftarrow> buffer_skip_whitespace b;
     (ok, named, b2) \<leftarrow> parse_string new_item b1;
     if \<not> ok then Some (False, named, b2)
     else do {
       b3 \<leftarrow> buffer_skip_whitespace b2;
       let current_item = set_valuestring None (set_string (valuestring named) named);
       colon \<leftarrow> next_is (CHR '':'') b3;
       if \<not> colon then Some (False, current_item, b3)
       else do {
         b4 \<leftarrow> buffer_skip_whitespace (b3\<lparr>offset := offset b3 + 1\<rparr>);
         pv current_item b4 } } }"

fun parse_object_items ::
    "item_parser \<Rightarrow> nat \<Rightarrow> cJSON list \<Rightarrow> parse_buffer \<Rightarrow> (bool \<times> cJSON list \<times> parse_buffer) option" where
  "parse_object_items pv 0 head b = None"
| "parse_object_items pv (Suc n) head b =
     (case cJSON_New_Item (bmem b) of
        (None, m) \<Rightarrow> Some (False, head, b\<lparr>bmem := m\<rparr>)
      | (Some new_item, m) \<Rightarrow> do {
          (ok, current_item, b2) \<leftarrow> parse_member pv new_item (b\<lparr>bmem := m, offset := offset b + 1\<rparr>);
          if \<not> ok then Some (False, head @ [current_item], b2)
          else do {
            b3 \<leftarrow> buffer_skip_whitespace b2;
            comma \<leftarrow> next_is (CHR '','') b3;
            if comma then parse_object_items pv n (head @ [current_item]) b3
            else Some (True, head @ [current_item], b3) } })"

definition parse_object :: "item_parser \<Rightarrow> nat \<Rightarrow> item_parser" where
  "parse_object pv n item b0 =
     (if CJSON_NESTING_LIMIT \<le> depth b0 then Some (False, item, b0)
      else do {
        let b1 = b0\<lparr>depth := depth b0 + 1\<rparr>;
        opened \<leftarrow> next_is (CHR ''{'') b1;
        if \<not> opened then Some (False, item, b1)
        else do {
          b2 \<leftarrow> buffer_skip_whitespace (b1\<lparr>offset := offset b1 + 1\<rparr>);
          empty \<leftarrow> next_is (CHR ''}'') b2;
          if empty
          then Some (True, set_children [] (set_type cJSON_Object item),
                     b2\<lparr>depth := depth b2 - 1, offset := offset b2 + 1\<rparr>)
          else if \<not> can_access_at_index b2 0 then Some (False, item, b2\<lparr>offset := offset b2 - 1\<rparr>)
          else do {
            (ok, head, b3) \<leftarrow> parse_object_items pv n [] (b2\<lparr>offset := offset b2 - 1\<rparr>);
            closed \<leftarrow> (if ok then next_is (CHR ''}'') b3 else Some False);
            if \<not> closed then Some (False, item, b3\<lparr>bmem := cJSON_Delete head (bmem b3)\<rparr>)
            else Some (True, set_children head (set_type cJSON_Object item),
                       b3\<lparr>depth := depth b3 - 1, offset := offset b3 + 1\<rparr>) } } })"

section \<open>Values\<close>

text \<open>The dispatch of \<open>parse_value\<close>, and the recursion tied with fuel.\<close>

definition parse_dispatch :: "item_parser \<Rightarrow> item_parser \<Rightarrow> item_parser" where
  "parse_dispatch array object item b = do {
     is_null \<leftarrow> keyword_at ''null'' b;
     if is_null then Some (True, set_type cJSON_NULL item, b\<lparr>offset := offset b + 4\<rparr>)
     else do {
       is_false \<leftarrow> keyword_at ''false'' b;
       if is_false then Some (True, set_type cJSON_False item, b\<lparr>offset := offset b + 5\<rparr>)
       else do {
         is_true \<leftarrow> keyword_at ''true'' b;
         if is_true
         then Some (True, set_valueint 1 (set_type cJSON_True item), b\<lparr>offset := offset b + 4\<rparr>)
         else do {
           is_string \<leftarrow> next_is (CHR 0x22) b;
           if is_string then parse_string item b
           else do {
             is_number \<leftarrow> number_start b;
             if is_number then parse_number item b
             else do {
               is_array \<leftarrow> next_is (CHR ''['') b;
               if is_array then array item b
               else do {
                 is_object \<leftarrow> next_is (CHR ''{'') b;
                 if is_object then object item b
                 else Some (False, item, b) } } } } } } }"

fun parse_value :: "nat \<Rightarrow> item_parser" where
  "parse_value 0 item b = None"
| "parse_value (Suc fuel) item b =
     parse_dispatch (parse_array (parse_value fuel) fuel) (parse_object (parse_value fuel) fuel) item b"

section \<open>Entry points\<close>

text \<open>The globals of the file: \<open>global_error\<close> and the heap behind \<open>global_hooks\<close>.\<close>

record globals =
  error_json :: "string option"
  error_position :: nat
  gmem :: mem

definition initial_mem :: mem where
  "initial_mem = \<lparr>may_alloc = (\<lambda>_. True), tries = 0, live = 0, has_realloc = True, junk = (\<lambda>_. NUL)\<rparr>"

definition initial_globals :: globals where
  "initial_globals = \<lparr>error_json = None, error_position = 0, gmem = initial_mem\<rparr>"

text \<open>The result: the item (or null), the index stored through \<open>return_parse_end\<close>, if any,
  and the globals.\<close>

type_synonym parse_result = "cJSON option \<times> nat option \<times> globals"

definition parse_fuel :: "nat \<Rightarrow> nat" where
  "parse_fuel n = n + 2"

text \<open>The \<open>fail\<close> label for a non-null text: the error position.\<close>

definition parse_failed :: "string \<Rightarrow> nat \<Rightarrow> nat \<Rightarrow> bool \<Rightarrow> globals \<Rightarrow> parse_result" where
  "parse_failed v len off want_end g =
     (let position = (if off < len then off else if 0 < len then len - 1 else 0)
      in (None, if want_end then Some position else None,
          g\<lparr>error_json := Some v, error_position := position\<rparr>))"

definition cJSON_ParseWithLengthOpts ::
    "string option \<Rightarrow> nat \<Rightarrow> bool \<Rightarrow> bool \<Rightarrow> globals \<Rightarrow> parse_result option" where
  "cJSON_ParseWithLengthOpts value buffer_length want_end require_null_terminated g0 =
     (let g = g0\<lparr>error_json := None, error_position := 0\<rparr> in
      case value of
        None \<Rightarrow> Some (None, None, g)
      | Some v \<Rightarrow>
          if buffer_length = 0 then Some (parse_failed v 0 0 want_end g)
          else
            (case cJSON_New_Item (gmem g) of
               (None, m) \<Rightarrow> Some (parse_failed v buffer_length 0 want_end (g\<lparr>gmem := m\<rparr>))
             | (Some item, m) \<Rightarrow> do {
                 bom \<leftarrow> skip_utf8_bom \<lparr>content = v, buflen = buffer_length, offset = 0, depth = 0, bmem = m\<rparr>;
                 (case bom of
                    None \<Rightarrow> Some (parse_failed v buffer_length 0 want_end
                                   (g\<lparr>gmem := cJSON_Delete [item] m\<rparr>))
                  | Some b \<Rightarrow> do {
                      b \<leftarrow> buffer_skip_whitespace b;
                      (ok, item, b) \<leftarrow> parse_value (parse_fuel buffer_length) item b;
                         (if \<not> ok
                         then Some (parse_failed v buffer_length (offset b) want_end
                                (g\<lparr>gmem := cJSON_Delete [item] (bmem b)\<rparr>))
                         else if \<not> require_null_terminated
                         then Some (Some item, if want_end then Some (offset b) else None,
                                    g\<lparr>gmem := bmem b\<rparr>)
                         else do {
                           b \<leftarrow> buffer_skip_whitespace b;
                           bad \<leftarrow> (if buflen b \<le> offset b then Some True
                                  else map_option (\<lambda>c. c \<noteq> NUL) (at_offset b 0));
                           if bad
                           then Some (parse_failed v buffer_length (offset b) want_end
                                  (g\<lparr>gmem := cJSON_Delete [item] (bmem b)\<rparr>))
                           else Some (Some item, if want_end then Some (offset b) else None,
                                      g\<lparr>gmem := bmem b\<rparr>) }) }) }))"

definition cJSON_ParseWithOpts :: "string option \<Rightarrow> bool \<Rightarrow> bool \<Rightarrow> globals \<Rightarrow> parse_result option" where
  "cJSON_ParseWithOpts value want_end require_null_terminated g =
     (case value of
        None \<Rightarrow> Some (None, None, g)
      | Some v \<Rightarrow> do {
          n \<leftarrow> strlen_at v 0;
          cJSON_ParseWithLengthOpts value (n + 1) want_end require_null_terminated g })"

definition cJSON_Parse :: "string option \<Rightarrow> globals \<Rightarrow> parse_result option" where
  "cJSON_Parse value g = cJSON_ParseWithOpts value False False g"

definition cJSON_ParseWithLength :: "string option \<Rightarrow> nat \<Rightarrow> globals \<Rightarrow> parse_result option" where
  "cJSON_ParseWithLength value buffer_length g =
     cJSON_ParseWithLengthOpts value buffer_length False False g"

text \<open>\<open>cJSON_GetErrorPtr\<close>: the text and the index in it, or null plus an offset of 0.\<close>

definition cJSON_GetErrorPtr :: "globals \<Rightarrow> (string \<times> nat) option" where
  "cJSON_GetErrorPtr g = map_option (\<lambda>v. (v, error_position g)) (error_json g)"

end
