(* ===== verification/Scan_Safety.thy ===== *)
theory Scan_Safety
  imports Parser
begin

text \<open>
  The lexical level never reads outside the text nor writes outside the block it allocated,
  moves forward, and accounts for every block: the contract \<open>item_reader\<close> that the
  recursive parser relies on, and its proofs for numbers and string literals.
\<close>

section \<open>Well-formed results\<close>

text \<open>What a parsed item looks like; the name of the item itself is its parent's business.\<close>

fun wf_value :: "cJSON \<Rightarrow> bool" where
  "wf_value (Item t vs vi vd s cs) \<longleftrightarrow>
     (if t = cJSON_String then (\<exists>v. vs = Some v \<and> nulfree v) \<and> cs = []
      else if t = cJSON_Number then vs = None \<and> cs = [] \<and> wf_double vd \<and> saturate vd = Some vi
      else if t = cJSON_Array then vs = None \<and> (\<forall>c \<in> set cs. item_string c = None \<and> wf_value c)
      else if t = cJSON_Object then
        vs = None \<and> (\<forall>c \<in> set cs. (\<exists>k. item_string c = Some k \<and> nulfree k) \<and> wf_value c)
      else (t = cJSON_NULL \<or> t = cJSON_False \<or> t = cJSON_True) \<and> vs = None \<and> cs = [])"

definition blank :: "cJSON \<Rightarrow> bool" where
  "blank item \<longleftrightarrow> (item_type item = 0 \<or> item_type item = cJSON_String) \<and>
     valuestring item = None \<and> children item = []"

text \<open>How deep arrays and objects nest in an item.\<close>

fun height :: "cJSON \<Rightarrow> nat" where
  "height (Item t vs vi vd s cs) =
     (if t = cJSON_Array \<or> t = cJSON_Object then Suc (foldr max (map height cs) 0) else 0)"

lemma foldr_max_le: "foldr max (map f xs) (0 :: nat) \<le> n \<longleftrightarrow> (\<forall>x \<in> set xs. f x \<le> n)"
  by (induction xs) auto

lemma height_simps [simp]:
  "height (set_string s i) = height i" "height (set_valuestring vs i) = height i"
  "height (set_type t i) = (if t = cJSON_Array \<or> t = cJSON_Object then Suc (foldr max (map height (children i)) 0) else 0)"
  "height (set_children cs (set_type t i)) = (if t = cJSON_Array \<or> t = cJSON_Object then Suc (foldr max (map height cs) 0) else 0)"
  "height (set_valueint n i) = height i"
  by (cases i; simp)+

section \<open>Buffers\<close>

text \<open>The claimed length lies in the object, and a text that ends in a comma has one more byte.\<close>

definition terminated :: "parse_buffer \<Rightarrow> bool" where
  "terminated b \<longleftrightarrow> buflen b \<le> length (content b) \<and>
     (buflen b < length (content b) \<or> buflen b = 0 \<or> content b ! (buflen b - 1) \<noteq> CHR '','')"

definition same_hooks :: "mem \<Rightarrow> mem \<Rightarrow> bool" where
  "same_hooks m m' \<longleftrightarrow> may_alloc m' = may_alloc m \<and> has_realloc m' = has_realloc m \<and> junk m' = junk m"

definition same_text :: "parse_buffer \<Rightarrow> parse_buffer \<Rightarrow> bool" where
  "same_text b b' \<longleftrightarrow> content b' = content b \<and> buflen b' = buflen b \<and> same_hooks (bmem b) (bmem b')"

definition fits :: "parse_buffer \<Rightarrow> cJSON \<Rightarrow> bool" where
  "fits b item \<longleftrightarrow> depth b + height item \<le> max CJSON_NESTING_LIMIT (depth b)"

lemma fits_upd [simp]:
  "fits (b\<lparr>offset := k\<rparr>) = fits b" "fits (b\<lparr>bmem := m\<rparr>) = fits b"
  by (simp_all add: fits_def fun_eq_iff)

lemma fits_leaf [simp]:
  "t \<noteq> cJSON_Array \<Longrightarrow> t \<noteq> cJSON_Object \<Longrightarrow> fits b (set_type t i)"
  "t \<noteq> cJSON_Array \<Longrightarrow> t \<noteq> cJSON_Object \<Longrightarrow> fits b (set_valueint n (set_type t i))"
  "t \<noteq> cJSON_Array \<Longrightarrow> t \<noteq> cJSON_Object \<Longrightarrow> fits b (Item t vs vi vd s cs)"
  by (simp_all add: fits_def)

lemma fits_children:
  assumes "depth b < CJSON_NESTING_LIMIT" "depth b1 = Suc (depth b)" "\<forall>c \<in> set cs. fits b1 c"
  shows "fits b (set_children cs (set_type t item))"
proof -
  have "\<forall>c \<in> set cs. height c \<le> CJSON_NESTING_LIMIT - Suc (depth b)"
    using assms by (auto simp: fits_def max_def split: if_splits)
  then have "foldr max (map height cs) 0 \<le> CJSON_NESTING_LIMIT - Suc (depth b)"
    by (simp only: foldr_max_le)
  then have "depth b + Suc (foldr max (map height cs) 0) \<le> CJSON_NESTING_LIMIT" using assms(1) by linarith
  then show ?thesis using assms(1) by (simp add: fits_def)
qed

lemma fits_depth: "depth b' = depth b \<Longrightarrow> fits b' = fits b"
  by (simp add: fits_def fun_eq_iff)

definition read_post :: "bool \<Rightarrow> cJSON \<Rightarrow> cJSON \<Rightarrow> parse_buffer \<Rightarrow> parse_buffer \<Rightarrow> bool" where
  "read_post ok item item' b b' \<longleftrightarrow> same_text b b' \<and>
     live (bmem b') = live (bmem b) + blocks item' - blocks item \<and>
     (if ok then offset b < offset b' \<and> offset b' \<le> buflen b \<and> depth b' = depth b \<and>
                 wf_value item' \<and> fits b item' \<and> item_string item' = item_string item
      else item' = item)"

lemma same_hooks_refl [simp]: "same_hooks m m"
  by (simp add: same_hooks_def)

lemma same_hooks_trans [trans]: "same_hooks a b \<Longrightarrow> same_hooks b c \<Longrightarrow> same_hooks a c"
  by (simp add: same_hooks_def)

lemma same_hooks_simps [simp]:
  "same_hooks m (deallocate k m') = same_hooks m m'"
  "same_hooks m (cJSON_Delete is m') = same_hooks m m'"
  by (simp_all add: same_hooks_def deallocate_def cJSON_Delete_def)

lemma allocate_hooks: "allocate m = (ok, m') \<Longrightarrow> same_hooks m m'"
  by (auto simp: allocate_def same_hooks_def split: if_splits)

lemma New_Item_cases:
  assumes "cJSON_New_Item m = (r, m')"
  shows "same_hooks m m'" "r = None \<and> live m' = live m \<or> r = Some zero_item \<and> live m' = live m + 1"
  using assms allocate_hooks allocate_live
  by (fastforce simp: cJSON_New_Item_def split: prod.splits if_splits)+

lemma same_text_refl [simp]: "same_text b b"
  by (simp add: same_text_def)

lemma same_text_trans [trans]: "same_text a b \<Longrightarrow> same_text b c \<Longrightarrow> same_text a c"
  by (auto simp: same_text_def intro: same_hooks_trans)

lemma same_text_upd [simp]:
  "same_text b (b'\<lparr>offset := k\<rparr>) = same_text b b'" "same_text b (b'\<lparr>depth := k\<rparr>) = same_text b b'"
  "same_text (b\<lparr>offset := k\<rparr>) b' = same_text b b'" "same_text (b\<lparr>depth := k\<rparr>) b' = same_text b b'"
  by (simp_all add: same_text_def)

lemma terminated_same: "same_text b b' \<Longrightarrow> terminated b' = terminated b"
  by (simp add: same_text_def terminated_def)

lemma terminated_upd [simp]:
  "terminated (b\<lparr>offset := k\<rparr>) = terminated b" "terminated (b\<lparr>depth := k\<rparr>) = terminated b"
  "terminated (b\<lparr>bmem := m\<rparr>) = terminated b"
  by (simp_all add: terminated_def)

lemma terminated_len: "terminated b \<Longrightarrow> buflen b \<le> length (content b)"
  by (simp add: terminated_def)

lemma blank_zero [simp]: "blank zero_item"
  by (simp add: blank_def zero_item_def)

lemma blocks_blank: "blank item \<Longrightarrow> blocks item = 1 + (if item_string item = None then 0 else 1)"
  by (cases item) (auto simp: blank_def)

section \<open>Single reads and white space\<close>

lemma at_offset_in: "offset b + i < length (content b) \<Longrightarrow> at_offset b i = Some (content b ! (offset b + i))"
  by (simp add: at_offset_def peek_def)

lemma next_is_total:
  assumes "buflen b \<le> length (content b)"
  shows "next_is c b = Some (offset b < buflen b \<and> content b ! offset b = c)"
  using assms by (auto simp: next_is_def can_access_at_index_def at_offset_def peek_def)

lemma literal_at_total: "i + length cs \<le> length s \<Longrightarrow> \<exists>r. literal_at s i cs = Some r"
  by (induction cs arbitrary: i) (auto simp: peek_def)

lemma keyword_at_total:
  assumes "buflen b \<le> length (content b)"
  shows "\<exists>r. keyword_at w b = Some r \<and> (r \<longrightarrow> offset b + length w \<le> buflen b)"
  using assms literal_at_total [of "offset b" w "content b"]
  by (auto simp: keyword_at_def can_read_def)

lemma skip_loop_total:
  assumes "buflen b \<le> length (content b)" "offset b \<le> buflen b"
  shows "\<exists>k. skip_loop b = Some (b\<lparr>offset := k\<rparr>) \<and> offset b \<le> k \<and> k \<le> buflen b"
  using assms
proof (induction b rule: skip_loop.induct)
  case (1 b)
  show ?case
  proof (cases "can_access_at_index b 0 \<and> ord (content b ! offset b) \<le> 32")
    case True
    then have lt: "offset b < buflen b" by (simp add: can_access_at_index_def)
    have rd: "at_offset b 0 = Some (content b ! offset b)"
      using lt 1(2) by (simp add: at_offset_in)
    from 1(1) [OF _ rd] True lt 1(2) obtain k where
      "skip_loop (b\<lparr>offset := offset b + 1\<rparr>) = Some (b\<lparr>offset := k\<rparr>)" "offset b + 1 \<le> k" "k \<le> buflen b"
      by auto
    then show ?thesis using True rd by (intro exI [of _ k]) (simp add: skip_loop.simps [of b])
  next
    case False
    have "b = b\<lparr>offset := offset b\<rparr>" by simp
    with False 1(2,3) show ?thesis
      by (intro exI [of _ "offset b"])
         (auto simp: skip_loop.simps [of b] can_access_at_index_def at_offset_in)
  qed
qed

lemma buffer_skip_whitespace_total:
  assumes "buflen b \<le> length (content b)"
  shows "\<exists>k. buffer_skip_whitespace b = Some (b\<lparr>offset := k\<rparr>) \<and> offset b \<le> k \<and>
    (if offset b < buflen b then k < buflen b else k = offset b)"
proof (cases "offset b < buflen b")
  case True
  then obtain k where k: "skip_loop b = Some (b\<lparr>offset := k\<rparr>)" "offset b \<le> k" "k \<le> buflen b"
    using skip_loop_total [OF assms] by auto
  show ?thesis
  proof (cases "k = buflen b")
    case eq: True
    then show ?thesis using k True
      by (intro exI [of _ "k - 1"]) (simp add: buffer_skip_whitespace_def can_access_at_index_def)
  next
    case False
    then show ?thesis using k True
      by (intro exI [of _ k]) (simp add: buffer_skip_whitespace_def can_access_at_index_def)
  qed
next
  case False
  then show ?thesis
    by (intro exI [of _ "offset b"]) (simp add: buffer_skip_whitespace_def can_access_at_index_def)
qed

section \<open>Numbers\<close>

lemma half_even_bounds:
  assumes "0 < snd q" "real a \<le> qval q" "qval q \<le> real c"
  shows "a \<le> half_even q" "half_even q \<le> c"
proof -
  have "\<bar>qval q - real (half_even q)\<bar> \<le> 1 / 2" by (rule half_even_near [OF assms(1)])
  then have "real a < real (half_even q) + 1" "real (half_even q) < real c + 1"
    using assms(2,3) by linarith+
  then show "a \<le> half_even q" "half_even q \<le> c" by linarith+
qed

lemma round_ratio_wf:
  assumes "0 < snd q"
  shows "wf_double (round_ratio s q) \<and> round_ratio s q \<noteq> NaN"
proof (cases "fst q = 0")
  case True
  then show ?thesis by (simp add: round_ratio_def canonical_def)
next
  case False
  with assms have q: "qpos q" by (simp add: qpos_def)
  define k where "k = qlog 2 q"
  define e where "e = max (k - 52) (- 1074)"
  define h where "h = half_even (scale 2 (- e) q)"
  have lb: "2 powi k \<le> qval q" "qval q < 2 powi (k + 1)"
    using qlog_bounds [of 2 q] q by (auto simp: k_def)
  have s0: "0 < snd (scale 2 (- e) q)" using assms by (intro snd_scale_pos) auto
  have sv: "qval (scale 2 (- e) q) = qval q / 2 powi e" by (rule qval_scale_down)
  have p: "(0::real) < 2 powi e" by simp
  have sp: "2 powi (k + 1) \<le> (2::real) ^ 53 * 2 powi e"
  proof -
    have "(2::real) powi (k + 1) \<le> 2 powi (int 53 + e)" by (rule power_int_increasing) (auto simp: e_def)
    also have "\<dots> = 2 powi int 53 * 2 powi e" by (rule power_int_add) simp
    finally show ?thesis by simp
  qed
  have "qval q / 2 powi e \<le> real (2 ^ 53)"
    using lb(2) sp p by (simp add: pos_divide_le_eq)
  then have h: "h \<le> 2 ^ 53" unfolding h_def using half_even_bounds(2) [OF s0, of 0 "2 ^ 53"] sv by simp
  have norm: "2 ^ 52 \<le> h" if "e \<noteq> - 1074"
  proof -
    from that have "e = k - 52" by (auto simp: e_def)
    then have "(2::real) powi k = 2 powi (int 52 + e)" by simp
    also have "\<dots> = 2 powi int 52 * 2 powi e" by (rule power_int_add) simp
    finally have "real (2 ^ 52) \<le> qval q / 2 powi e" using lb(1) p by (simp add: pos_le_divide_eq)
    then show ?thesis unfolding h_def
      using half_even_bounds(1) [OF s0, of "2 ^ 52" "2 ^ 53"] sv \<open>qval q / 2 powi e \<le> real (2 ^ 53)\<close> by simp
  qed
  have "round_ratio s q = (if h = 2 ^ 53 then (if 971 < e + 1 then Infinity s else Finite s (2 ^ 52) (e + 1))
      else (if 971 < e then Infinity s else Finite s h e))"
    unfolding round_ratio_def round_pos_def Let_def e_def [unfolded k_def, symmetric] h_def [symmetric]
    using False by simp
  then show ?thesis using h norm by (auto simp: canonical_def e_def split: if_splits)
qed

lemma dval_range_to_int:
  assumes "is_finite d" "real_of_int INT_MIN < dval d" "dval d < real_of_int INT_MAX"
  shows "\<exists>i. double_to_int d = Some i"
proof -
  obtain s m e where d: "d = Finite s m e" using assms(1) by (cases d) auto
  obtain n c where sc: "scale 2 e (m, 1) = (n, c)" by fastforce
  have c: "0 < c" using snd_scale_pos [of 2 "(m, 1)" e] sc by simp
  have "qval (scale 2 e (m, 1)) = real m * 2 powi e" by (simp add: qval_scale qval_of_nat)
  then have v: "real n / real c = real m * 2 powi e" unfolding sc by (simp add: qval_def)
  have "real (n div c * c) \<le> real n" by (simp only: of_nat_le_iff) simp
  then have "real (n div c) \<le> real n / real c" using c by (simp add: pos_le_divide_eq)
  moreover have "real n / real c < 2147483648" using v assms by (auto simp: d split: if_splits)
  ultimately have "real (n div c) < 2147483648" by linarith
  then have "n div c < 2147483648" by linarith
  then have "int (n div c) < 2147483648" by linarith
  then show ?thesis by (simp add: d sc [simplified] Let_def del: of_nat_less_iff)
qed

lemma saturate_defined:
  assumes "d \<noteq> NaN"
  shows "\<exists>i. saturate d = Some i"
proof (cases d)
  case (Finite s m e)
  have lim: "is_finite (double_of_int INT_MAX)" "is_finite (double_of_int INT_MIN)"
    "dval (double_of_int INT_MAX) = real_of_int INT_MAX" "dval (double_of_int INT_MIN) = real_of_int INT_MIN"
    unfolding double_of_int_limits by (simp_all add: power_int_minus)
  have fin: "is_finite d" using Finite by simp
  show ?thesis
  proof (cases "dle (double_of_int INT_MAX) d \<or> dle d (double_of_int INT_MIN)")
    case True
    then show ?thesis by (auto simp: saturate_def)
  next
    case False
    then have "real_of_int INT_MIN < dval d" "dval d < real_of_int INT_MAX"
      using lim fin by (auto simp: not_le simp del: dval.simps)
    from dval_range_to_int [OF fin this] False show ?thesis by (simp add: saturate_def)
  qed
qed (use assms in \<open>auto simp: saturate_def double_of_int_limits\<close>)

lemma strtod_exp_len: "snd (strtod_exp t) \<le> length t"
proof (cases t)
  case (Cons c r)
  show ?thesis
  proof (cases "r \<noteq> [] \<and> (hd r = CHR ''+'' \<or> hd r = CHR ''-'')")
    case True
    then obtain y r' where "r = y # r'" by (cases r) auto
    with True Cons show ?thesis using length_takeWhile_le [of isdigit r']
      by (auto simp: strtod_exp_def Let_def)
  next
    case False
    with Cons show ?thesis using length_takeWhile_le [of isdigit r]
      by (auto simp: strtod_exp_def Let_def)
  qed
qed (simp add: strtod_exp_def)

lemma strtod_post:
  assumes "strtod s = (d, n)"
  shows "n \<le> length s" "d \<noteq> NaN" "wf_double d"
proof -
  define k where "k = (if s \<noteq> [] \<and> (hd s = CHR ''+'' \<or> hd s = CHR ''-'') then 1 else 0 :: nat)"
  define t where "t = drop k s"
  define ip where "ip = takeWhile isdigit t"
  define t1 where "t1 = drop (length ip) t"
  define dot where "dot = (if t1 \<noteq> [] \<and> hd t1 = CHR ''.'' then 1 else 0 :: nat)"
  define fp where "fp = (if dot = 1 then takeWhile isdigit (tl t1) else [])"
  define t2 where "t2 = drop (dot + length fp) t1"
  obtain x xlen where x: "strtod_exp t2 = (x, xlen)" by fastforce
  have s: "strtod s = (if ip = [] \<and> fp = [] then (zero_double, 0)
      else (round_ratio (k = 1 \<and> hd s = CHR ''-'') (scale 10 (x - int (length fp)) (dec_val (ip @ fp), 1)),
            k + length ip + dot + length fp + xlen))"
    unfolding strtod_def Let_def
    by (simp only: k_def [symmetric] t_def [symmetric] ip_def [symmetric] t1_def [symmetric]
        dot_def [symmetric] fp_def [symmetric] t2_def [symmetric] x prod.case)
  have k: "k \<le> length s" by (cases s) (auto simp: k_def)
  have ip: "length ip \<le> length t" unfolding ip_def by (rule length_takeWhile_le)
  have fp: "dot + length fp \<le> length t1"
    using length_takeWhile_le [of isdigit "tl t1"] by (cases t1) (auto simp: dot_def fp_def)
  have "xlen \<le> length t2" using strtod_exp_len [of t2] x by simp
  with k ip fp have "k + length ip + dot + length fp + xlen \<le> length s"
    by (simp add: t2_def t1_def t_def)
  then show "n \<le> length s" using s assms by (auto split: if_splits)
  have "0 < snd (scale 10 (x - int (length fp)) (dec_val (ip @ fp), 1))" by (rule snd_scale_pos) auto
  then show "d \<noteq> NaN" "wf_double d"
    using s assms round_ratio_wf by (auto simp: zero_double_def canonical_def split: if_splits)
qed

lemma copy_number_total:
  assumes "buflen b \<le> length (content b)"
  shows "\<exists>cs. copy_number b i = Some cs \<and> length cs \<le> 63 - i \<and> (cs \<noteq> [] \<longrightarrow> offset b + i + length cs \<le> buflen b)"
  using assms
proof (induction b i rule: copy_number.induct)
  case (1 b i)
  show ?case
  proof (cases "i < 63 \<and> can_access_at_index b i \<and> number_char (content b ! (offset b + i))")
    case True
    then have rd: "at_offset b i = Some (content b ! (offset b + i))"
      using 1(2) by (simp add: at_offset_in can_access_at_index_def)
    from True 1(1) [OF _ rd] 1(2) obtain cs where cs: "copy_number b (i + 1) = Some cs"
      "length cs \<le> 63 - (i + 1)" "cs \<noteq> [] \<longrightarrow> offset b + (i + 1) + length cs \<le> buflen b" by auto
    from True rd cs show ?thesis
      by (cases cs) (auto simp: copy_number.simps [of b i] can_access_at_index_def)
  next
    case False
    then show ?thesis using 1(2)
      by (auto simp: copy_number.simps [of b i] at_offset_in can_access_at_index_def)
  qed
qed

lemma parse_number_reads:
  assumes item: "blank item" and t: "terminated b"
  shows "\<exists>ok item' b'. parse_number item b = Some (ok, item', b') \<and> read_post ok item item' b b'"
proof -
  obtain cs where cs: "copy_number b 0 = Some cs" "cs \<noteq> [] \<longrightarrow> offset b + length cs \<le> buflen b"
    using copy_number_total [OF terminated_len [OF t], of 0] by auto
  obtain d n where dn: "strtod cs = (d, n)" by fastforce
  note post = strtod_post [OF dn]
  show ?thesis
  proof (cases "n = 0")
    case True
    then have "parse_number item b = Some (False, item, b)" by (simp add: parse_number_def cs dn)
    moreover have "read_post False item item b b" by (simp add: read_post_def)
    ultimately show ?thesis by blast
  next
    case False
    with post(1) cs(2) have off: "offset b + n \<le> buflen b" by (cases cs) auto
    obtain vi where vi: "saturate d = Some vi" using saturate_defined [OF post(2)] by blast
    obtain t' s' where i: "item = Item t' None (valueint item) (valuedouble item) s' []"
      using item by (cases item) (auto simp: blank_def)
    then have tt: "t' = 0 \<or> t' = cJSON_String" using item by (cases item) (auto simp: blank_def)
    show ?thesis using False off vi post tt
      by (subst (1 2) i) (auto simp: parse_number_def cs dn read_post_def)
  qed
qed

section \<open>Escapes\<close>

lemma hex4_loop_total:
  assumes "p + 4 \<le> length s"
  shows "\<exists>h'. hex4_loop s p i h = Some h'"
  using assms
proof (induction s p i h rule: hex4_loop.induct)
  case (1 s p i h)
  show ?case
  proof (cases "i < 4")
    case True
    then have rd: "peek s (p + i) = Some (s ! (p + i))" using 1(2) by (simp add: peek_def)
    show ?thesis using 1(1) [OF True rd] 1(2) True rd
      by (subst hex4_loop.simps) (auto split: option.splits)
  next
    case False
    then show ?thesis by (subst hex4_loop.simps) simp
  qed
qed

text \<open>A result other than 0 means that all four bytes were hexadecimal digits.\<close>

lemma hex4_loop_digits:
  assumes "hex4_loop s p i h = Some h'" "h' \<noteq> 0" "i \<le> j" "j < 4"
  shows "s ! (p + j) \<noteq> CHR 0x5C"
  using assms
proof (induction s p i h arbitrary: h' rule: hex4_loop.induct)
  case (1 s p i h)
  from 1(4,5) have i: "i < 4" by simp
  with 1(2) obtain c where c: "peek s (p + i) = Some c" by (subst (asm) hex4_loop.simps) auto
  define d where "d = (if 48 \<le> ord c \<and> ord c \<le> 57 then Some (h + of_nat (ord c) - 48)
               else if 65 \<le> ord c \<and> ord c \<le> 70 then Some (h + 10 + of_nat (ord c) - 65)
               else if 97 \<le> ord c \<and> ord c \<le> 102 then Some (h + 10 + of_nat (ord c) - 97)
               else None)"
  have step: "hex4_loop s p i h = (case d of None \<Rightarrow> Some 0
      | Some h' \<Rightarrow> hex4_loop s p (i + 1) (if i < 3 then push_bit 4 h' else h'))"
    using i c by (subst hex4_loop.simps) (simp add: d_def)
  with 1(2,3) obtain x where x: "d = Some x" by (cases d) auto
  have cb: "c \<noteq> CHR 0x5C" using x by (auto simp: d_def split: if_splits)
  have rec: "hex4_loop s p (i + 1) (if i < 3 then push_bit 4 x else x) = Some h'"
    using 1(2) step x by simp
  show ?case
  proof (cases "j = i")
    case True
    then show ?thesis using c cb by (simp add: peek_Some_iff)
  next
    case False
    then have "i + 1 \<le> j" using 1(4) by simp
    from 1(1) [OF i c x [unfolded d_def] rec 1(3) this 1(5)] show ?thesis .
  qed
qed

lemma encode_utf8_length:
  "encode_utf8 cp = Some bytes \<Longrightarrow> cp < 0x10000 \<Longrightarrow> length bytes \<le> 3 \<and> bytes \<noteq> []"
  "encode_utf8 cp = Some bytes \<Longrightarrow> length bytes \<le> 4 \<and> bytes \<noteq> []"
  "encode_utf8 0 = Some [NUL]"
proof -
  have len: "length (snd (utf8_tail n c acc)) = n + length acc" for n c acc
    by (induction n c acc rule: utf8_tail.induct) auto
  show "encode_utf8 cp = Some bytes \<Longrightarrow> cp < 0x10000 \<Longrightarrow> length bytes \<le> 3 \<and> bytes \<noteq> []"
    "encode_utf8 cp = Some bytes \<Longrightarrow> length bytes \<le> 4 \<and> bytes \<noteq> []"
    using len [of "3 :: nat" cp "[]"] len [of "2 :: nat" cp "[]"] len [of "1 :: nat" cp "[]"]
      len [of "0 :: nat" cp "[]"]
    by (auto simp: encode_utf8_def split: if_splits prod.splits)
  show "encode_utf8 0 = Some [NUL]" by (simp add: encode_utf8_def byte_of_def char_of_def)
qed

text \<open>How many input units (plain bytes or two-byte escapes) the first pass counts up to \<open>e\<close>.\<close>

function units :: "string \<Rightarrow> nat \<Rightarrow> nat \<Rightarrow> nat" where
  "units s e i = (if i < e then (if s ! i = CHR 0x5C then Suc (units s e (i + 2)) else Suc (units s e (i + 1)))
                  else 0)"
  by pat_completeness auto
termination
  by (relation "measure (\<lambda>(s, e, i). e - i)") auto

declare units.simps [simp del]

lemma units_step: "units s e (i + 1) \<le> units s e i \<and> units s e i \<le> units s e (i + 1) + 1"
proof (induction s e i rule: units.induct)
  case (1 s e i)
  show ?case
  proof (cases "i < e \<and> s ! i = CHR 0x5C")
    case True
    have a: "units s e i = Suc (units s e (i + 2))" using True by (subst units.simps) simp
    show ?thesis
    proof (cases "i + 1 < e")
      case lt: True
      show ?thesis
      proof (cases "s ! (i + 1) = CHR 0x5C")
        case esc: True
        have b: "units s e (i + 1) = Suc (units s e (i + 3))"
          using lt esc by (subst units.simps) (simp add: numeral_3_eq_3 numeral_2_eq_2)
        have c: "units s e (i + 2) \<le> units s e (i + 3) + 1 \<and> units s e (i + 3) \<le> units s e (i + 2)"
        proof (cases "i + 2 < e")
          case True
          have "units s e (i + 2) = (if s ! (i + 2) = CHR 0x5C then Suc (units s e (i + 4)) else Suc (units s e (i + 3)))"
            using True by (subst units.simps) (simp add: numeral_3_eq_3 numeral_2_eq_2 numeral_eq_Suc)
          show ?thesis using 1(1) \<open>i < e \<and> s ! i = CHR 0x5C\<close> by (simp add: numeral_3_eq_3 numeral_2_eq_2)
        next
          case False
          then show ?thesis by (simp add: units.simps [of s e "Suc (Suc i)"] units.simps [of s e "i + 3"])
        qed
        show ?thesis using a b c by linarith
      next
        case False
        have "units s e (i + 1) = Suc (units s e (i + 2))"
          using lt False by (subst units.simps) (simp add: numeral_2_eq_2)
        then show ?thesis using a by simp
      qed
    next
      case False
      then have "units s e (i + 1) = 0" "units s e (i + 2) = 0" by (simp_all add: units.simps)
      then show ?thesis using a False
        by (simp add: units.simps [of s e "Suc i"] units.simps [of s e "Suc (Suc i)"])
    qed
  next
    case False
    then show ?thesis
      by (cases "i < e") (auto simp: units.simps [of s e i] units.simps [of s e "Suc i"])
  qed
qed

lemma units_mono: "units s e (i + k) \<le> units s e i"
proof (induction k)
  case (Suc k)
  then show ?case using units_step [of s e "i + k"] by simp
qed simp

lemma units_plain:
  assumes "\<forall>j < k. s ! (i + j) \<noteq> CHR 0x5C" "i + k \<le> e"
  shows "units s e i = k + units s e (i + k)"
  using assms
proof (induction k)
  case (Suc k)
  then have "units s e i = k + units s e (i + k)" by simp
  moreover have "units s e (i + k) = Suc (units s e (i + k + 1))"
    using Suc(2,3) by (subst units.simps) simp
  ultimately show ?case by simp
qed simp

lemma utf16_total:
  assumes e: "e \<le> length s" and p: "p < e" "s ! p = CHR 0x5C" "s ! (p + 1) \<noteq> CHR 0x5C"
    and cap: "length out + units s e p \<le> cap"
  shows "\<exists>n out'. utf16_literal_to_utf8 s p e cap out = Some (n, out') \<and>
    (n \<noteq> 0 \<longrightarrow> length out' + units s e (p + n) \<le> length out + units s e p)"
proof (cases "e - p < 6")
  case True
  then show ?thesis by (simp add: utf16_literal_to_utf8_def)
next
  case False
  then have e6: "p + 6 \<le> e" by simp
  obtain h where h: "parse_hex4 s (p + 2) = Some h"
    using hex4_loop_total [of "p + 2" s 0 0] e6 e by (auto simp: parse_hex4_def)
  have pair: "units s e p = Suc (units s e (p + 2))"
    using p(1,2) by (subst units.simps) simp
  have plain4: "units s e (p + 2) = 4 + units s e (p + 6)" if "h \<noteq> 0"
  proof -
    have "\<forall>j < 4. s ! (p + 2 + j) \<noteq> CHR 0x5C"
      using hex4_loop_digits [of s "p + 2" 0 0 h] h that by (simp add: parse_hex4_def)
    then show ?thesis using units_plain [of 4 s "p + 2" e] e6 by (simp add: add.commute)
  qed
  consider (bad) "0xDC00 \<le> h \<and> h \<le> 0xDFFF" | (pair) "0xD800 \<le> h \<and> h \<le> 0xDBFF"
    | (one) "\<not> (0xDC00 \<le> h \<and> h \<le> 0xDFFF)" "\<not> (0xD800 \<le> h \<and> h \<le> 0xDBFF)" by blast
  then show ?thesis
  proof cases
    case bad
    then have "utf16_literal_to_utf8 s p e cap out = Some (0, out)"
      using e6 by (simp add: utf16_literal_to_utf8_def h [simplified] del: bind_Some_iff)
    then show ?thesis by simp
  next
    case one
    show ?thesis
    proof (cases "encode_utf8 h")
      case None
      then show ?thesis using e6 by (simp add: utf16_literal_to_utf8_def h [simplified] if_not_P [OF one(1)] if_not_P [OF one(2)] del: bind_Some_iff)
    next
      case (Some bytes)
      have fit: "length bytes + units s e (p + 6) \<le> units s e p"
      proof (cases "h = 0")
        case True
        then have "length bytes = 1" using Some encode_utf8_length(3) by auto
        then show ?thesis using pair units_mono [of s e "p + 2" 4] by (simp add: add.commute)
      next
        case False
        show ?thesis using encode_utf8_length(2) [OF Some] pair plain4 [OF False] by simp
      qed
      then have "put cap out bytes = Some (out @ bytes)" using cap by (simp add: put_def)
      then show ?thesis using e6 fit Some
        by (simp add: utf16_literal_to_utf8_def h [simplified] if_not_P [OF one(1)] if_not_P [OF one(2)] del: bind_Some_iff)
    qed
  next
    case pair
    then have h0: "h \<noteq> 0" by auto
    have not_bad: "\<not> (0xDC00 \<le> h \<and> h \<le> 0xDFFF)" using pair by (auto simp: not_le intro: le_less_trans)
    show ?thesis
    proof (cases "e - (p + 6) < 6")
      case True
      then show ?thesis using pair not_bad e6 by (simp add: utf16_literal_to_utf8_def h [simplified] del: bind_Some_iff)
    next
      case False
      then have e12: "p + 12 \<le> e" by simp
      have rd: "peek s (p + 6) = Some (s ! (p + 6))" "peek s (p + 7) = Some (s ! (p + 7))"
        using e12 e by (simp_all add: peek_def)
      obtain g where g: "parse_hex4 s (p + 8) = Some g"
        using hex4_loop_total [of "p + 8" s 0 0] e12 e by (auto simp: parse_hex4_def)
      have g': "parse_hex4 s (p + 6 + 2) = Some g" "parse_hex4 s (8 + p) = Some g" "peek s (7 + p) = Some (s ! (p + 7))"
        using g rd by (simp_all add: add.commute)
      note d = g' utf16_literal_to_utf8_def h [simplified] Let_def rd [simplified] g [simplified] add.assoc
      show ?thesis
      proof (cases "s ! (p + 6) = CHR 0x5C \<and> s ! (p + 7) = CHR ''u'' \<and> \<not> (g < 0xDC00 \<or> 0xDFFF < g)")
        case False
        then show ?thesis using pair not_bad e6 e12 by (auto simp: d simp del: bind_Some_iff)
      next
        case good: True
        define cp where "cp = 0x10000 + (push_bit 10 (h AND 0x3FF) OR (g AND 0x3FF))"
        have g0: "g \<noteq> 0" using good by auto
        have "\<forall>j < 4. s ! (p + 8 + j) \<noteq> CHR 0x5C"
          using hex4_loop_digits [of s "p + 8" 0 0 g] g g0 by (simp add: parse_hex4_def)
        then have "units s e (p + 8) = 4 + units s e (p + 12)"
          using units_plain [of 4 s "p + 8" e] e12 by (simp add: add.commute)
        moreover have "units s e (p + 6) = Suc (units s e (p + 8))"
          using good e12 by (subst units.simps) (simp add: add.commute)
        ultimately have u: "units s e p = 10 + units s e (p + 12)"
          using \<open>units s e p = Suc (units s e (p + 2))\<close> plain4 [OF h0] by simp
        show ?thesis
        proof (cases "encode_utf8 cp")
          case None
          then show ?thesis using good pair not_bad e6 e12 by (simp add: d cp_def del: bind_Some_iff)
        next
          case (Some bytes)
          have len: "length bytes \<le> 4" using encode_utf8_length(2) [OF Some] by simp
          then have "put cap out bytes = Some (out @ bytes)" using cap u by (simp add: put_def)
          then show ?thesis using good pair not_bad e6 e12 Some len u by (simp add: d cp_def del: bind_Some_iff)
        qed
      qed
    qed
  qed
qed

section \<open>String literals\<close>

lemma scan_string_total:
  assumes "len \<le> length s"
  shows "\<exists>r. scan_string s len i k = Some r"
  using assms
proof (induction s len i k rule: scan_string.induct)
  case (1 s len i k)
  show ?case
  proof (cases "i < len")
    case True
    then have rd: "peek s i = Some (s ! i)" using 1(3) by (simp add: peek_def)
    show ?thesis using 1(1) [OF True rd] 1(2) [OF True rd] 1(3) True rd
      by (subst scan_string.simps) auto
  next
    case False
    then show ?thesis by (subst scan_string.simps) simp
  qed
qed

lemma scan_string_units:
  assumes "scan_string s len i k = Some (Some (e, k'))" "e < len" "len \<le> length s"
  shows "i \<le> e \<and> k \<le> k' \<and> units s e i + (k' - k) = e - i \<and> s ! e = CHR 0x22"
  using assms
proof (induction s len i k arbitrary: e k' rule: scan_string.induct)
  case (1 s len i k)
  show ?case
  proof (cases "i < len")
    case False
    with 1(3) have "e = i" by (subst (asm) scan_string.simps) simp
    with False 1(4) show ?thesis by simp
  next
    case True
    then have rd: "peek s i = Some (s ! i)" using 1(5) by (simp add: peek_def)
    consider (quote) "s ! i = CHR 0x22" | (esc) "s ! i = CHR 0x5C" | (plain) "s ! i \<noteq> CHR 0x22" "s ! i \<noteq> CHR 0x5C"
      by blast
    then show ?thesis
    proof cases
      case quote
      with 1(3) True rd have "e = i" "k' = k" by (subst (asm) scan_string.simps; simp)+
      with quote show ?thesis by (simp add: units.simps)
    next
      case esc
      with 1(3) True rd have n: "\<not> len \<le> i + 1" "scan_string s len (i + 2) (k + 1) = Some (Some (e, k'))"
        by (subst (asm) scan_string.simps; simp split: if_splits)+
      from 1(1) [OF True rd _ esc n(1,2) 1(4,5)] esc
      have IH: "i + 2 \<le> e \<and> k + 1 \<le> k' \<and> units s e (i + 2) + (k' - (k + 1)) = e - (i + 2) \<and> s ! e = CHR 0x22"
        by simp
      have "units s e i = Suc (units s e (i + 2))" using IH esc by (subst units.simps) simp
      with IH show ?thesis by simp linarith
    next
      case plain
      with 1(3) True rd have n: "scan_string s len (i + 1) k = Some (Some (e, k'))"
        by (subst (asm) scan_string.simps) simp
      from 1(2) [OF True rd plain n 1(4,5)]
      have IH: "i + 1 \<le> e \<and> k \<le> k' \<and> units s e (i + 1) + (k' - k) = e - (i + 1) \<and> s ! e = CHR 0x22" .
      have "units s e i = Suc (units s e (i + 1))" using IH plain by (subst units.simps) simp
      with IH show ?thesis by simp linarith
    qed
  qed
qed

lemma unescape_total:
  assumes "e < length s" "length out + units s e p \<le> cap"
  shows "\<exists>good p' out'. unescape s e cap p out = Some (good, p', out') \<and>
    (good \<longrightarrow> length out' \<le> length out + units s e p)"
  using assms
proof (induction s e cap p out rule: unescape.induct)
  case (1 s e cap p out)
  show ?case
  proof (cases "p < e")
    case False
    then show ?thesis by (subst unescape.simps) auto
  next
    case True
    have rd: "peek s p = Some (s ! p)" "peek s (p + 1) = Some (s ! (p + 1))"
      using True 1(4) by (simp_all add: peek_def)
    show ?thesis
    proof (cases "s ! p = CHR 0x5C")
      case False
      have u: "units s e p = Suc (units s e (p + 1))" using True False by (subst units.simps) simp
      have put: "put cap out [s ! p] = Some (out @ [s ! p])" using 1(5) u by (simp add: put_def)
      from 1(1) [OF True rd(1) False put 1(4)] 1(5) u obtain good p' out' where
        "unescape s e cap (p + 1) (out @ [s ! p]) = Some (good, p', out')"
        "good \<longrightarrow> length out' \<le> length (out @ [s ! p]) + units s e (p + 1)" by auto
      with True False rd put u show ?thesis by (subst unescape.simps) simp
    next
      case bs: True
      have u: "units s e p = Suc (units s e (p + 2))" using True bs by (subst units.simps) simp
      show ?thesis
      proof (cases "simple_escape (s ! (p + 1))")
        case (Some x)
        have put: "put cap out [x] = Some (out @ [x])" using 1(5) u by (simp add: put_def)
        from 1(3) [OF True rd(1) _ _ rd(2) Some put 1(4)] bs True 1(5) u obtain good p' out' where
          "unescape s e cap (p + 2) (out @ [x]) = Some (good, p', out')"
          "good \<longrightarrow> length out' \<le> length (out @ [x]) + units s e (p + 2)" by auto
        with True bs rd Some put u show ?thesis by (subst unescape.simps) simp
      next
        case None
        show ?thesis
        proof (cases "s ! (p + 1) = CHR ''u''")
          case False
          with True bs rd None show ?thesis by (subst unescape.simps) (simp, blast)
        next
          case uni: True
          obtain n out' where n: "utf16_literal_to_utf8 s p e cap out = Some (n, out')"
            "n \<noteq> 0 \<longrightarrow> length out' + units s e (p + n) \<le> length out + units s e p"
            using utf16_total [of e s p out cap] 1(4,5) True bs uni by auto
          show ?thesis
          proof (cases "n = 0")
            case True
            with \<open>p < e\<close> bs rd None uni n show ?thesis by (subst unescape.simps) (simp, blast?)
          next
            case False
            from 1(2) [OF True rd(1) _ _ rd(2) None uni n(1) _ 1(4)] bs True 1(5) n False
            obtain good p' out2 where
              "unescape s e cap (p + n) out' = Some (good, p', out2)"
              "good \<longrightarrow> length out2 \<le> length out' + units s e (p + n)" by auto
            with True bs rd None uni n False show ?thesis by (subst unescape.simps) auto
          qed
        qed
      qed
    qed
  qed
qed

text \<open>A literal may start at the terminating byte past the claimed length, never later.\<close>

definition string_ready :: "parse_buffer \<Rightarrow> bool" where
  "string_ready b \<longleftrightarrow> offset b < length (content b) \<and> offset b \<le> buflen b"

lemma blank_fields:
  assumes "blank item"
  obtains t' vi vd s' where "item = Item t' None vi vd s' []" "t' = 0 \<or> t' = cJSON_String"
  using assms by (cases item) (auto simp: blank_def)

lemma parse_string_reads:
  assumes item: "blank item" and t: "terminated b" and rdy: "string_ready b"
  shows "\<exists>ok item' b'. parse_string item b = Some (ok, item', b') \<and> read_post ok item item' b b' \<and>
    (ok \<longrightarrow> (\<exists>v. item' = set_type cJSON_String (set_valuestring (Some v) item) \<and> nulfree v) \<and> offset b < buflen b)"
proof -
  note len = terminated_len [OF t]
  have c: "at_offset b 0 = Some (content b ! offset b)"
    using rdy by (simp add: at_offset_in string_ready_def)
  obtain t' vi vd s' where i: "item = Item t' None vi vd s' []" "t' = 0 \<or> t' = cJSON_String"
    using item by (rule blank_fields)
  show ?thesis
  proof (cases "content b ! offset b = CHR 0x22")
    case False
    then have "parse_string item b = Some (False, item, b\<lparr>offset := offset b + 1\<rparr>)"
      by (simp add: parse_string_def c)
    then show ?thesis by (auto simp: read_post_def)
  next
    case q: True
    obtain r where r: "scan_string (content b) (buflen b) (offset b + 1) 0 = Some r"
      using scan_string_total [OF len] by blast
    note d = parse_string_def Let_def c q r [simplified]
    show ?thesis
    proof (cases r)
      case None
      then have "parse_string item b = Some (False, item, b\<lparr>offset := offset b + 1\<rparr>)" by (simp add: d)
      then show ?thesis by (auto simp: read_post_def)
    next
      case (Some ek)
      obtain e k where ek: "ek = (e, k)" by fastforce
      show ?thesis
      proof (cases "buflen b \<le> e")
        case True
        then have "parse_string item b = Some (False, item, b\<lparr>offset := offset b + 1\<rparr>)"
          by (simp add: d Some ek)
        then show ?thesis by (auto simp: read_post_def)
      next
        case False
        from scan_string_units [OF r [unfolded Some ek] _ len] False
        have e: "offset b + 1 \<le> e" "units (content b) e (offset b + 1) + k = e - (offset b + 1)" by simp_all
        define cap where "cap = e - offset b - k + 1"
        have u: "units (content b) e (offset b + 1) + 1 < cap" using e by (simp add: cap_def)
        obtain ok m where al: "allocate (bmem b) = (ok, m)" by fastforce
        note hk = allocate_hooks [OF al] and lv = allocate_live [OF al]
        show ?thesis
        proof (cases ok)
          case False
          then have "parse_string item b = Some (False, item, b\<lparr>offset := offset b + 1, bmem := m\<rparr>)"
            using \<open>\<not> buflen b \<le> e\<close> by (simp add: d Some ek al)
          then show ?thesis using hk lv False by (auto simp: read_post_def same_text_def)
        next
          case True
          obtain good p out where un: "unescape (content b) e cap (offset b + 1) [] = Some (good, p, out)"
            "good \<longrightarrow> length out \<le> units (content b) e (offset b + 1)"
            using unescape_total [of e "content b" "[]" "offset b + 1" cap] u False len by auto
          show ?thesis
          proof (cases good)
            case False
            then have "parse_string item b = Some (False, item, b\<lparr>offset := p, bmem := deallocate 1 m\<rparr>)"
              using \<open>\<not> buflen b \<le> e\<close> True un(1) by (simp add: d Some ek al cap_def)
            then show ?thesis using hk lv True by (auto simp: read_post_def same_text_def)
          next
            case good: True
            have "put cap out [NUL] = Some (out @ [NUL])" using un(2) good u by (simp add: put_def)
            then have "parse_string item b = Some (True,
                set_type cJSON_String (set_valuestring (Some (cstring (out @ [NUL]))) item),
                b\<lparr>offset := e + 1, bmem := m\<rparr>)"
              using \<open>\<not> buflen b \<le> e\<close> True good un(1) by (simp add: d Some ek al cap_def)
            then show ?thesis using hk lv True i \<open>\<not> buflen b \<le> e\<close> e(1)
              by (auto simp: read_post_def same_text_def)
          qed
        qed
      qed
    qed
  qed
qed

end
