(* ===== verification/Parser_Safety.thy ===== *)
theory Parser_Safety
  imports Scan_Safety
begin

text \<open>
  Memory safety, termination and block accounting of the recursive parser.  What
  \<open>parse_array\<close> and \<open>parse_object\<close> rely on is stated as two interfaces: \<open>item_reader\<close>
  (what one call that fills an item promises) and \<open>element_reader\<close> (what one round of
  their loops promises); \<open>parse_number\<close>, \<open>parse_string\<close> and \<open>parse_value\<close> provide them.
\<close>

section \<open>The interface of a routine that fills an item\<close>

locale item_reader =
  fixes rd :: item_parser and ready :: "parse_buffer \<Rightarrow> bool"
  assumes reads: "blank item \<Longrightarrow> terminated b \<Longrightarrow> ready b \<Longrightarrow>
    \<exists>ok item' b'. rd item b = Some (ok, item', b') \<and> read_post ok item item' b b'"
begin

lemma never_undefined:
  assumes "blank item" "terminated b" "ready b"
  shows "rd item b \<noteq> None"
  using reads [OF assms] by auto

lemma read_result:
  assumes "blank item" "terminated b" "ready b" "rd item b = Some (ok, item', b')"
  shows "read_post ok item item' b b'"
  using reads [OF assms(1-3)] assms(4) by auto

end

interpretation number: item_reader parse_number "\<lambda>b. True"
  by unfold_locales (rule parse_number_reads)

interpretation string: item_reader parse_string string_ready
  by unfold_locales (use parse_string_reads in blast)

section \<open>The loops over elements and members\<close>

text \<open>Both loops have one shape; \<open>body\<close> is what a round does with the fresh item.\<close>

fun items_loop :: "item_parser \<Rightarrow> nat \<Rightarrow> cJSON list \<Rightarrow> parse_buffer \<Rightarrow>
    (bool \<times> cJSON list \<times> parse_buffer) option" where
  "items_loop body 0 head b = None"
| "items_loop body (Suc n) head b =
     (case cJSON_New_Item (bmem b) of
        (None, m) \<Rightarrow> Some (False, head, b\<lparr>bmem := m\<rparr>)
      | (Some new_item, m) \<Rightarrow> do {
          (ok, current_item, b2) \<leftarrow> body new_item (b\<lparr>bmem := m, offset := offset b + 1\<rparr>);
          if \<not> ok then Some (False, head @ [current_item], b2)
          else do {
            b3 \<leftarrow> buffer_skip_whitespace b2;
            comma \<leftarrow> next_is (CHR '','') b3;
            if comma then items_loop body n (head @ [current_item]) b3
            else Some (True, head @ [current_item], b3) } })"

definition array_element :: "item_parser \<Rightarrow> item_parser" where
  "array_element pv item b = do { b1 \<leftarrow> buffer_skip_whitespace b; pv item b1 }"

lemma parse_array_items_loop: "parse_array_items pv n head b = items_loop (array_element pv) n head b"
  by (induction n arbitrary: head b)
    (simp_all add: array_element_def Option.bind_assoc cong: if_cong option.case_cong)

lemma parse_object_items_loop: "parse_object_items pv n head b = items_loop (parse_member pv) n head b"
  by (induction n arbitrary: head b) (simp_all cong: if_cong option.case_cong)

definition items_post :: "(cJSON \<Rightarrow> bool) \<Rightarrow> bool \<Rightarrow> cJSON list \<Rightarrow> cJSON list \<Rightarrow> parse_buffer \<Rightarrow> parse_buffer \<Rightarrow> bool" where
  "items_post good ok head head' b b' \<longleftrightarrow> same_text b b' \<and>
     live (bmem b') = live (bmem b) + chain_blocks head' - chain_blocks head \<and>
     (ok \<longrightarrow> offset b < offset b' \<and> offset b' \<le> buflen b \<and> depth b' = depth b \<and>
       (\<exists>new. head' = head @ new \<and> (\<forall>c \<in> set new. good c \<and> fits b c)))"

definition element_post :: "(cJSON \<Rightarrow> bool) \<Rightarrow> bool \<Rightarrow> cJSON \<Rightarrow> parse_buffer \<Rightarrow> parse_buffer \<Rightarrow> bool" where
  "element_post good ok item' b b' \<longleftrightarrow> same_text b b' \<and> live (bmem b') = live (bmem b) + blocks item' - 1 \<and>
     (ok \<longrightarrow> offset b < offset b' \<and> offset b' \<le> buflen b \<and> depth b' = depth b \<and> good item' \<and> fits b item')"

locale element_reader =
  fixes body :: item_parser and start :: "parse_buffer \<Rightarrow> bool" and good :: "cJSON \<Rightarrow> bool"
  assumes body_reads: "terminated b \<Longrightarrow> start b \<Longrightarrow>
      \<exists>ok item' b'. body zero_item b = Some (ok, item', b') \<and> element_post good ok item' b b'"
    and start_comma: "terminated b \<Longrightarrow> start b \<Longrightarrow> same_text b b' \<Longrightarrow> offset b \<le> offset b' \<Longrightarrow>
      offset b' < buflen b' \<Longrightarrow> content b' ! offset b' = CHR '','' \<Longrightarrow> start (b'\<lparr>offset := offset b' + 1\<rparr>)"
    and start_mem: "start b \<Longrightarrow> same_hooks (bmem b) m \<Longrightarrow> start (b\<lparr>bmem := m\<rparr>)"
begin

lemma loop_reads:
  assumes "terminated b" "start (b\<lparr>offset := offset b + 1\<rparr>)" "offset b < buflen b" "buflen b - offset b \<le> n"
  shows "\<exists>ok head' b'. items_loop body n head b = Some (ok, head', b') \<and> items_post good ok head head' b b'"
  using assms
proof (induction n arbitrary: head b)
  case (Suc n)
  obtain r m where nm: "cJSON_New_Item (bmem b) = (r, m)" by fastforce
  note new = New_Item_cases [OF nm]
  show ?case
  proof (cases r)
    case None
    with new show ?thesis
      by (auto simp: nm items_post_def same_text_def)
  next
    case (Some i)
    with new have i: "i = zero_item" "live m = live (bmem b) + 1" by auto
    define b1 where "b1 = b\<lparr>bmem := m, offset := Suc (offset b)\<rparr>"
    have t1: "terminated b1" using Suc(2) by (simp add: b1_def terminated_def)
    have st: "same_text b b1" using new(1) by (simp add: b1_def same_text_def)
    have "b1 = b\<lparr>offset := offset b + 1, bmem := m\<rparr>" by (simp add: b1_def)
    then have s1: "start b1" using start_mem [OF Suc(3), of m] new(1) by simp
    obtain ok item' b2 where bd: "body zero_item b1 = Some (ok, item', b2)" "element_post good ok item' b1 b2"
      using body_reads [OF t1 s1] by blast
    from bd(2) have st2: "same_text b1 b2" and l2: "live (bmem b2) = live (bmem b1) + blocks item' - 1"
      by (simp_all add: element_post_def)
    show ?thesis
    proof (cases ok)
      case False
      then have "items_loop body (Suc n) head b = Some (False, head @ [item'], b2)"
        using bd(1) by (simp add: nm Some i b1_def [symmetric] del: bind_Some_iff)
      then show ?thesis using st st2 l2 i
        by (auto simp: items_post_def b1_def intro: same_text_trans)
    next
      case True
      with bd(2) have o2: "offset b + 1 < offset b2" "offset b2 \<le> buflen b" "depth b2 = depth b" "good item'" "fits b item'"
        using fits_depth [of b1 b] by (simp_all add: element_post_def b1_def)
      have t2: "terminated b2" using t1 st2 terminated_same by blast
      have bl2: "buflen b2 = buflen b" using st st2 by (simp add: same_text_def)
      from buffer_skip_whitespace_total [OF terminated_len [OF t2]] obtain k where
        k: "buffer_skip_whitespace b2 = Some (b2\<lparr>offset := k\<rparr>)" "offset b2 \<le> k"
          "k \<le> buflen b2" using o2(2) bl2 by (fastforce split: if_splits)
      define b3 where "b3 = b2\<lparr>offset := k\<rparr>"
      have t3: "terminated b3" using t2 by (simp add: b3_def)
      have st3: "same_text b1 b3" using st2 by (simp add: b3_def)
      have st03: "same_text b b3" using st st3 by (rule same_text_trans)
      have o3: "offset b3 = k" "buflen b3 = buflen b" "depth b3 = depth b" "bmem b3 = bmem b2"
        using o2 bl2 by (simp_all add: b3_def)
      have run: "items_loop body (Suc n) head b = (case next_is (CHR '','') b3 of None \<Rightarrow> None
          | Some c \<Rightarrow> if c then items_loop body n (head @ [item']) b3 else Some (True, head @ [item'], b3))"
        using True bd(1) k(1) by (simp add: nm Some i b1_def [symmetric] b3_def [symmetric] split: option.splits)
      show ?thesis
      proof (cases "k < buflen b3 \<and> content b3 ! k = CHR '',''")
        case comma: True
        have s3: "start (b3\<lparr>offset := offset b3 + 1\<rparr>)"
          using start_comma [OF t1 s1 st3] comma o2 k(2) by (simp add: o3 b1_def)
        have "buflen b3 - offset b3 \<le> n" using Suc(5) k(2) o2(1) by (simp add: o3)
        from Suc.IH [OF t3 s3 _ this, of "head @ [item']"] comma obtain ok' head' b' where
          r: "items_loop body n (head @ [item']) b3 = Some (ok', head', b')"
            "items_post good ok' (head @ [item']) head' b3 b'" by (auto simp: o3)
        have "next_is (CHR '','') b3 = Some True"
          using comma next_is_total [OF terminated_len [OF t3]] by (simp add: o3)
        with run r(1) have "items_loop body (Suc n) head b = Some (ok', head', b')" by simp
        moreover have "items_post good ok' head head' b b'"
          using r(2) st03 l2 i o2 k(2) fits_depth [OF o3(3)] o3(3)
          by (auto simp: items_post_def o3(1,2,4) b1_def intro: same_text_trans)
        ultimately show ?thesis by blast
      next
        case False
        then have "next_is (CHR '','') b3 = Some False"
          using next_is_total [OF terminated_len [OF t3]] by (simp add: o3)
        with run have "items_loop body (Suc n) head b = Some (True, head @ [item'], b3)" by simp
        moreover have "items_post good True head (head @ [item']) b b3"
          using st03 l2 i o2 k(2,3) bl2 by (auto simp: items_post_def o3 b1_def)
        ultimately show ?thesis by blast
      qed
    qed
  qed
qed simp

end

section \<open>Arrays and objects over a value reader\<close>

abbreviation array_child :: "cJSON \<Rightarrow> bool" where
  "array_child c \<equiv> item_string c = None \<and> wf_value c"

abbreviation object_child :: "cJSON \<Rightarrow> bool" where
  "object_child c \<equiv> (\<exists>k. item_string c = Some k \<and> nulfree k) \<and> wf_value c"

lemma skip_within:
  assumes "terminated b" "offset b \<le> buflen b"
  obtains k where "buffer_skip_whitespace b = Some (b\<lparr>offset := k\<rparr>)" "offset b \<le> k" "k \<le> buflen b"
    "offset b < buflen b \<Longrightarrow> k < buflen b"
  using buffer_skip_whitespace_total [OF terminated_len [OF assms(1)]] assms(2) that
  by (fastforce split: if_splits)

lemma next_is_at:
  assumes "terminated b"
  shows "next_is c b = Some (offset b < buflen b \<and> content b ! offset b = c)"
  by (rule next_is_total [OF terminated_len [OF assms]])

locale value_reader = item_reader +
  assumes ready_later: "ready b \<Longrightarrow> same_text b b' \<Longrightarrow> offset b \<le> offset b' \<Longrightarrow> ready b'"

lemma string_ready_after_comma:
  assumes "terminated b" "offset b < buflen b" "content b ! offset b = CHR '',''"
  shows "string_ready (b\<lparr>offset := offset b + 1\<rparr>)"
proof (cases "offset b + 1 < buflen b")
  case True
  then show ?thesis using terminated_len [OF assms(1)] by (simp add: string_ready_def)
next
  case False
  with assms(2) have "offset b = buflen b - 1" by simp
  with assms show ?thesis by (auto simp: string_ready_def terminated_def)
qed

lemma string_ready_skip:
  assumes "terminated b" "string_ready b" "buffer_skip_whitespace b = Some b'"
  shows "string_ready b'"
proof -
  have "offset b \<le> buflen b" using assms(2) by (simp add: string_ready_def)
  from skip_within [OF assms(1) this] obtain k where
    k: "buffer_skip_whitespace b = Some (b\<lparr>offset := k\<rparr>)" "offset b < buflen b \<Longrightarrow> k < buflen b"
      "k \<le> buflen b" by blast
  have "k = offset b" if "\<not> offset b < buflen b" using that k(1) assms(2)
    by (simp add: buffer_skip_whitespace_def can_access_at_index_def string_ready_def)
       (metis parse_buffer.ext_inject parse_buffer.surjective parse_buffer.update_convs(3))
  then show ?thesis using assms k terminated_len [OF assms(1)] by (cases "offset b < buflen b") (auto simp: string_ready_def)
qed

context value_reader
begin

lemma element_reads:
  assumes "terminated b" "ready b" "offset b \<le> buflen b"
  shows "\<exists>ok item' b'. array_element rd zero_item b = Some (ok, item', b') \<and>
    element_post array_child ok item' b b'"
proof -
  obtain k where k: "buffer_skip_whitespace b = Some (b\<lparr>offset := k\<rparr>)" "offset b \<le> k" "k \<le> buflen b"
    using skip_within [OF assms(1,3)] by blast
  have "ready (b\<lparr>offset := k\<rparr>)" using ready_later [OF assms(2), of "b\<lparr>offset := k\<rparr>"] k(2) by simp
  with reads [OF blank_zero, of "b\<lparr>offset := k\<rparr>"] assms(1) obtain ok item' b' where
    r: "rd zero_item (b\<lparr>offset := k\<rparr>) = Some (ok, item', b')" "read_post ok zero_item item' (b\<lparr>offset := k\<rparr>) b'"
    by auto
  have "element_post array_child ok item' b b'"
    using r(2) k by (auto simp: element_post_def read_post_def zero_item_def split: if_splits)
  with r(1) k(1) show ?thesis by (simp add: array_element_def)
qed

lemma member_reads:
  assumes "terminated b" "ready b" "string_ready b"
  shows "\<exists>ok item' b'. parse_member rd zero_item b = Some (ok, item', b') \<and>
    element_post object_child ok item' b b'"
proof -
  have "offset b \<le> buflen b" using assms(3) by (simp add: string_ready_def)
  from skip_within [OF assms(1) this] obtain k where
    k: "buffer_skip_whitespace b = Some (b\<lparr>offset := k\<rparr>)" "offset b \<le> k" "k \<le> buflen b" by blast
  define b1 where "b1 = b\<lparr>offset := k\<rparr>"
  have b1: "terminated b1" "string_ready b1" "same_text b b1"
    using assms string_ready_skip [OF assms(1,3) k(1)] by (simp_all add: b1_def)
  obtain ok named b2 where nm: "parse_string zero_item b1 = Some (ok, named, b2)"
    "read_post ok zero_item named b1 b2"
    "ok \<Longrightarrow> \<exists>v. named = set_type cJSON_String (set_valuestring (Some v) zero_item) \<and> nulfree v"
    using parse_string_reads [OF blank_zero b1(1,2)] by blast
  have st2: "same_text b1 b2" using nm(2) by (simp add: read_post_def)
  show ?thesis
  proof (cases ok)
    case False
    with nm have "element_post object_child False named b b2"
      by (auto simp: element_post_def read_post_def b1_def zero_item_def)
    moreover have "parse_member rd zero_item b = Some (False, named, b2)"
      using False nm(1) k(1) by (simp add: parse_member_def b1_def)
    ultimately show ?thesis by blast
  next
    case True
    with nm(3) obtain v where v: "named = set_type cJSON_String (set_valuestring (Some v) zero_item)" "nulfree v"
      by blast
    define cur where "cur = set_valuestring None (set_string (valuestring named) named)"
    have cur: "blank cur" "item_string cur = Some v" "blocks cur = 2"
      by (simp_all add: cur_def v blank_def zero_item_def)
    from True nm(2) k have o2: "offset b < offset b2" "offset b2 \<le> buflen b2" "depth b2 = depth b"
      "buflen b2 = buflen b" "live (bmem b2) = live (bmem b) + 1"
      by (auto simp: read_post_def b1_def v zero_item_def same_text_def)
    have t2: "terminated b2" using b1(1) st2 terminated_same by blast
    obtain k3 where k3: "buffer_skip_whitespace b2 = Some (b2\<lparr>offset := k3\<rparr>)" "offset b2 \<le> k3" "k3 \<le> buflen b2"
      using skip_within [OF t2 o2(2)] by blast
    define b3 where "b3 = b2\<lparr>offset := k3\<rparr>"
    have t3: "terminated b3" using t2 by (simp add: b3_def)
    have st03: "same_text b b3" using b1(3) st2 by (auto simp: b3_def intro: same_text_trans)
    have run: "parse_member rd zero_item b = (case next_is (CHR '':'') b3 of None \<Rightarrow> None
       | Some colon \<Rightarrow> if \<not> colon then Some (False, cur, b3)
          else Option.bind (buffer_skip_whitespace (b3\<lparr>offset := Suc (offset b3)\<rparr>)) (rd cur))"
      using True nm(1) k(1) k3(1)
      by (simp add: parse_member_def b1_def [symmetric] b3_def [symmetric] cur_def Let_def
          del: bind_Some_iff split: option.splits)
    show ?thesis
    proof (cases "offset b3 < buflen b3 \<and> content b3 ! offset b3 = CHR '':''")
      case False
      then have "parse_member rd zero_item b = Some (False, cur, b3)"
        using run next_is_at [OF t3] by simp
      moreover have "element_post object_child False cur b b3"
        using st03 o2 cur by (simp add: element_post_def b3_def)
      ultimately show ?thesis by blast
    next
      case colon: True
      define b3' where "b3' = b3\<lparr>offset := Suc (offset b3)\<rparr>"
      have t3': "terminated b3'" "offset b3' \<le> buflen b3'" using t3 colon by (simp_all add: b3'_def)
      obtain k4 where k4: "buffer_skip_whitespace b3' = Some (b3'\<lparr>offset := k4\<rparr>)" "offset b3' \<le> k4"
        using skip_within [OF t3'] by blast
      define b4 where "b4 = b3'\<lparr>offset := k4\<rparr>"
      have st04: "same_text b b4" using st03 by (simp add: b4_def b3'_def)
      have o4: "offset b < offset b4" using o2 k3 k4 by (simp add: b4_def b3'_def b3_def)
      have "ready b4" using ready_later [OF assms(2) st04] o4 by simp
      moreover have "terminated b4" using t3' by (simp add: b4_def)
      ultimately obtain ok' item' b' where r: "rd cur b4 = Some (ok', item', b')" "read_post ok' cur item' b4 b'"
        using reads [OF cur(1)] by blast
      have "parse_member rd zero_item b = Some (ok', item', b')"
        using run colon next_is_at [OF t3] k4(1) r(1) by (simp add: b3'_def [symmetric] b4_def)
      moreover have "element_post object_child ok' item' b b'"
        using r(2) st04 o4 o2 cur v(2) fits_depth [OF o2(3)]
        by (auto simp: element_post_def read_post_def b4_def b3'_def b3_def split: if_splits intro: same_text_trans)
      ultimately show ?thesis by blast
    qed
  qed
qed

end

sublocale value_reader \<subseteq> elements: element_reader "array_element rd"
  "\<lambda>b. ready b \<and> offset b \<le> buflen b" array_child
proof unfold_locales
  show "ready (b'\<lparr>offset := offset b' + 1\<rparr>) \<and> offset (b'\<lparr>offset := offset b' + 1\<rparr>) \<le> buflen (b'\<lparr>offset := offset b' + 1\<rparr>)"
    if "ready b \<and> offset b \<le> buflen b" "same_text b b'" "offset b \<le> offset b'" "offset b' < buflen b'" for b b'
    using that ready_later [of b "b'\<lparr>offset := offset b' + 1\<rparr>"] by simp
  show "ready (b\<lparr>bmem := m\<rparr>) \<and> offset (b\<lparr>bmem := m\<rparr>) \<le> buflen (b\<lparr>bmem := m\<rparr>)"
    if "ready b \<and> offset b \<le> buflen b" "same_hooks (bmem b) m" for b m
    using that ready_later [of b "b\<lparr>bmem := m\<rparr>"] by (simp add: same_text_def)
qed (use element_reads in blast)

sublocale value_reader \<subseteq> members: element_reader "parse_member rd"
  "\<lambda>b. ready b \<and> string_ready b" object_child
proof unfold_locales
  show "ready (b'\<lparr>offset := offset b' + 1\<rparr>) \<and> string_ready (b'\<lparr>offset := offset b' + 1\<rparr>)"
    if "terminated b" "ready b \<and> string_ready b" "same_text b b'" "offset b \<le> offset b'" "offset b' < buflen b'"
      "content b' ! offset b' = CHR '',''" for b b'
    using that ready_later [of b "b'\<lparr>offset := offset b' + 1\<rparr>"] terminated_same [OF that(3)]
      string_ready_after_comma [of b'] by simp
  show "ready (b\<lparr>bmem := m\<rparr>) \<and> string_ready (b\<lparr>bmem := m\<rparr>)"
    if "ready b \<and> string_ready b" "same_hooks (bmem b) m" for b m
    using that ready_later [of b "b\<lparr>bmem := m\<rparr>"] by (simp add: same_text_def string_ready_def)
qed (use member_reads in blast)

lemma blank_children:
  assumes "blank item"
  shows "blocks (set_children cs (set_type cJSON_Array item)) = blocks item + chain_blocks cs"
    "blocks (set_children cs (set_type cJSON_Object item)) = blocks item + chain_blocks cs"
    "wf_value (set_children cs (set_type cJSON_Array item)) = (\<forall>c \<in> set cs. array_child c)"
    "wf_value (set_children cs (set_type cJSON_Object item)) = (\<forall>c \<in> set cs. object_child c)"
proof -
  obtain t' vi vd s' where i: "item = Item t' None vi vd s' []" "t' = 0 \<or> t' = cJSON_String"
    using assms by (rule blank_fields)
  from i(2) show "blocks (set_children cs (set_type cJSON_Array item)) = blocks item + chain_blocks cs"
    "blocks (set_children cs (set_type cJSON_Object item)) = blocks item + chain_blocks cs"
    by (auto simp: i(1) chain_blocks_def)
  show "wf_value (set_children cs (set_type cJSON_Array item)) = (\<forall>c \<in> set cs. array_child c)"
    "wf_value (set_children cs (set_type cJSON_Object item)) = (\<forall>c \<in> set cs. object_child c)"
    by (simp_all add: i(1))
qed

text \<open>\<open>parse_array\<close> and \<open>parse_object\<close> have one shape too.\<close>

definition bracketed :: "char \<Rightarrow> char \<Rightarrow> u32 \<Rightarrow>
    (parse_buffer \<Rightarrow> (bool \<times> cJSON list \<times> parse_buffer) option) \<Rightarrow> item_parser" where
  "bracketed open_char close_char typ items item b0 =
     (if CJSON_NESTING_LIMIT \<le> depth b0 then Some (False, item, b0)
      else do {
        let b1 = b0\<lparr>depth := depth b0 + 1\<rparr>;
        opened \<leftarrow> next_is open_char b1;
        if \<not> opened then Some (False, item, b1)
        else do {
          b2 \<leftarrow> buffer_skip_whitespace (b1\<lparr>offset := offset b1 + 1\<rparr>);
          empty \<leftarrow> next_is close_char b2;
          if empty
          then Some (True, set_children [] (set_type typ item),
                     b2\<lparr>depth := depth b2 - 1, offset := offset b2 + 1\<rparr>)
          else if \<not> can_access_at_index b2 0 then Some (False, item, b2\<lparr>offset := offset b2 - 1\<rparr>)
          else do {
            (ok, head, b3) \<leftarrow> items (b2\<lparr>offset := offset b2 - 1\<rparr>);
            closed \<leftarrow> (if ok then next_is close_char b3 else Some False);
            if \<not> closed then Some (False, item, b3\<lparr>bmem := cJSON_Delete head (bmem b3)\<rparr>)
            else Some (True, set_children head (set_type typ item),
                       b3\<lparr>depth := depth b3 - 1, offset := offset b3 + 1\<rparr>) } } })"

lemma parse_array_bracketed:
  assumes "terminated b" "offset b < buflen b"
  shows "parse_array pv n item b = bracketed (CHR ''['') (CHR '']'') cJSON_Array (items_loop (array_element pv) n []) item b"
proof -
  have "at_offset (b\<lparr>depth := depth b + 1\<rparr>) 0 = Some (content b ! offset b)"
    "next_is (CHR ''['') (b\<lparr>depth := depth b + 1\<rparr>) = Some (content b ! offset b = CHR ''['')"
    using assms terminated_len [OF assms(1)] next_is_at [of "b\<lparr>depth := depth b + 1\<rparr>"]
    by (simp_all add: at_offset_in)
  then show ?thesis by (simp add: parse_array_def bracketed_def Let_def parse_array_items_loop del: bind_Some_iff cong: if_cong)
qed

lemma parse_object_bracketed:
  "parse_object pv n item b = bracketed (CHR ''{'') (CHR ''}'') cJSON_Object (items_loop (parse_member pv) n []) item b"
  by (simp add: parse_object_def bracketed_def parse_object_items_loop cong: if_cong)

lemma bracketed_reads:
  assumes t: "terminated b" and at: "offset b \<le> buflen b"
    and loop: "\<And>b2. terminated b2 \<Longrightarrow> same_text b b2 \<Longrightarrow> offset b \<le> offset b2 \<Longrightarrow> offset b2 + 1 < buflen b2 \<Longrightarrow>
       \<exists>ok head b'. items b2 = Some (ok, head, b') \<and> items_post good ok [] head b2 b'"
    and val: "\<And>cs. \<forall>c \<in> set cs. good c \<Longrightarrow> wf_value (set_children cs (set_type typ item))"
    and blk: "\<And>cs. blocks (set_children cs (set_type typ item)) = blocks item + chain_blocks cs"
  shows "\<exists>ok item' b'. bracketed open_char close_char typ items item b = Some (ok, item', b') \<and>
    read_post ok item item' b b'"
proof (cases "CJSON_NESTING_LIMIT \<le> depth b \<or> \<not> (offset b < buflen b \<and> content b ! offset b = open_char)")
  case True
  then show ?thesis using next_is_at [of "b\<lparr>depth := Suc (depth b)\<rparr>" open_char] t
    by (auto simp: bracketed_def read_post_def Let_def)
next
  case False
  define b1 where "b1 = b\<lparr>depth := Suc (depth b), offset := Suc (offset b)\<rparr>"
  have t1: "terminated b1" "offset b1 \<le> buflen b1" using t False by (simp_all add: b1_def)
  obtain k where k: "buffer_skip_whitespace b1 = Some (b1\<lparr>offset := k\<rparr>)" "offset b + 1 \<le> k" "k \<le> buflen b"
    using skip_within [OF t1] by (auto simp: b1_def)
  define b2 where "b2 = b1\<lparr>offset := k\<rparr>"
  have t2: "terminated b2" using t1 by (simp add: b2_def)
  have st2: "same_text b b2" by (simp add: b2_def b1_def same_text_def)
  have f2: "offset b2 = k" "buflen b2 = buflen b" "depth b2 = Suc (depth b)" "bmem b2 = bmem b"
    by (simp_all add: b2_def b1_def)
  have enter: "bracketed open_char close_char typ items item b =
      Option.bind (next_is close_char b2) (\<lambda>empty.
        if empty then Some (True, set_children [] (set_type typ item),
                     b2\<lparr>depth := depth b2 - 1, offset := offset b2 + 1\<rparr>)
        else if \<not> can_access_at_index b2 0 then Some (False, item, b2\<lparr>offset := offset b2 - 1\<rparr>)
        else do {
            (ok, head, b3) \<leftarrow> items (b2\<lparr>offset := offset b2 - 1\<rparr>);
            closed \<leftarrow> (if ok then next_is close_char b3 else Some False);
            if \<not> closed then Some (False, item, b3\<lparr>bmem := cJSON_Delete head (bmem b3)\<rparr>)
            else Some (True, set_children head (set_type typ item),
                       b3\<lparr>depth := depth b3 - 1, offset := offset b3 + 1\<rparr>) })"
    using False next_is_at [of "b\<lparr>depth := Suc (depth b)\<rparr>" open_char] t
    by (simp add: bracketed_def Let_def b1_def [symmetric] k(1) b2_def [symmetric] del: bind_Some_iff)
  consider (empty) "k < buflen b \<and> content b2 ! k = close_char" | (cut) "\<not> k < buflen b"
    | (more) "k < buflen b" "content b2 ! k \<noteq> close_char" by blast
  then show ?thesis
  proof cases
    case empty
    then have "bracketed open_char close_char typ items item b = Some (True, set_children [] (set_type typ item),
                     b2\<lparr>depth := depth b2 - 1, offset := offset b2 + 1\<rparr>)"
      using enter next_is_at [OF t2] f2 by simp
    then show ?thesis using empty st2 f2 k(2) val [of "[]"] False blk [of "[]"]
        fits_children [of b b2 "[]" "typ" item]
      by (auto simp: read_post_def)
  next
    case cut
    then have "bracketed open_char close_char typ items item b = Some (False, item, b2\<lparr>offset := offset b2 - 1\<rparr>)"
      using enter next_is_at [OF t2] f2 by (simp add: can_access_at_index_def)
    then show ?thesis using st2 f2 by (auto simp: read_post_def)
  next
    case more
    have "offset b \<le> k - 1" "k - 1 + 1 < buflen b" using k(2) more by simp_all
    then obtain ok head b3 where
      lp: "items (b2\<lparr>offset := k - 1\<rparr>) = Some (ok, head, b3)"
        "items_post good ok [] head (b2\<lparr>offset := k - 1\<rparr>) b3"
      using loop [of "b2\<lparr>offset := k - 1\<rparr>"] t2 st2 f2 by auto
    from lp(2) have st3: "same_text b b3" and l3: "live (bmem b3) = live (bmem b) + chain_blocks head"
      using st2 f2 by (auto simp: items_post_def intro: same_text_trans)
    have t3: "terminated b3" using t st3 terminated_same by blast
    have step: "bracketed open_char close_char typ items item b =
        Option.bind (if ok then next_is close_char b3 else Some False)
          (\<lambda>closed. if \<not> closed then Some (False, item, b3\<lparr>bmem := cJSON_Delete head (bmem b3)\<rparr>)
           else Some (True, set_children head (set_type typ item),
                      b3\<lparr>depth := depth b3 - 1, offset := offset b3 + 1\<rparr>))"
      using enter next_is_at [OF t2] f2 more lp(1)
      by (simp add: can_access_at_index_def del: bind_Some_iff)
    show ?thesis
    proof (cases "ok \<and> offset b3 < buflen b3 \<and> content b3 ! offset b3 = close_char")
      case True
      then have "bracketed open_char close_char typ items item b = Some (True, set_children head (set_type typ item),
          b3\<lparr>depth := depth b3 - 1, offset := offset b3 + 1\<rparr>)"
        using step next_is_at [OF t3] by simp
      moreover have "offset b \<le> offset b3" "depth b3 = Suc (depth b)" "\<forall>c \<in> set head. good c" "buflen b3 = buflen b"
        using lp(2) True k(2) f2 st3 by (auto simp: items_post_def same_text_def)
      moreover have "fits b (set_children head (set_type typ item))"
        using False lp(2) True f2 by (intro fits_children [of b b2]) (auto simp: items_post_def)
      ultimately show ?thesis using True st3 l3 val [of head] blk [of head]
        by (auto simp: read_post_def)
    next
      case no: False
      then have "bracketed open_char close_char typ items item b = Some (False, item, b3\<lparr>bmem := cJSON_Delete head (bmem b3)\<rparr>)"
        using step next_is_at [OF t3] by auto
      then show ?thesis using st3 l3 by (auto simp: read_post_def same_text_def)
    qed
  qed
qed

context value_reader
begin

lemma array_reads:
  assumes item: "blank item" and t: "terminated b" and at: "offset b < buflen b"
    and rdy: "ready (b\<lparr>offset := offset b + 1\<rparr>)" and n: "buflen b - offset b \<le> n"
  shows "\<exists>ok item' b'. parse_array rd n item b = Some (ok, item', b') \<and> read_post ok item item' b b'"
  unfolding parse_array_bracketed [OF t at]
proof (rule bracketed_reads [OF t less_imp_le [OF at], where good = array_child])
  fix b2 assume b2: "terminated b2" "same_text b b2" "offset b \<le> offset b2" "offset b2 + 1 < buflen b2"
  have "ready (b2\<lparr>offset := offset b2 + 1\<rparr>)" using ready_later [OF rdy] b2 by simp
  moreover have "buflen b2 - offset b2 \<le> n" using n b2 by (simp add: same_text_def)
  ultimately show "\<exists>ok head b'. items_loop (array_element rd) n [] b2 = Some (ok, head, b') \<and>
      items_post array_child ok [] head b2 b'"
    using b2 by (intro elements.loop_reads) auto
qed (use blank_children [OF item] in auto)

lemma object_reads:
  assumes item: "blank item" and t: "terminated b" and at: "offset b < buflen b"
    and rdy: "ready (b\<lparr>offset := offset b + 1\<rparr>)" and n: "buflen b - offset b \<le> n"
  shows "\<exists>ok item' b'. parse_object rd n item b = Some (ok, item', b') \<and> read_post ok item item' b b'"
  unfolding parse_object_bracketed
proof (rule bracketed_reads [OF t less_imp_le [OF at], where good = object_child])
  fix b2 assume b2: "terminated b2" "same_text b b2" "offset b \<le> offset b2" "offset b2 + 1 < buflen b2"
  have "ready (b2\<lparr>offset := offset b2 + 1\<rparr>)" using ready_later [OF rdy] b2 by simp
  moreover have "string_ready (b2\<lparr>offset := offset b2 + 1\<rparr>)"
    using b2(4) terminated_len [OF b2(1)] by (simp add: string_ready_def)
  moreover have "buflen b2 - offset b2 \<le> n" using n b2 by (simp add: same_text_def)
  ultimately show "\<exists>ok head b'. items_loop (parse_member rd) n [] b2 = Some (ok, head, b') \<and>
      items_post object_child ok [] head b2 b'"
    using b2 by (intro members.loop_reads) auto
qed (use blank_children [OF item] in auto)

end

section \<open>Values\<close>

definition fuel_ready :: "nat \<Rightarrow> parse_buffer \<Rightarrow> bool" where
  "fuel_ready f b \<longleftrightarrow> buflen b - offset b < f"

lemma dispatch_reads:
  assumes item: "blank item" and t: "terminated b"
    and array: "offset b < buflen b \<Longrightarrow>
      \<exists>ok item' b'. array item b = Some (ok, item', b') \<and> read_post ok item item' b b'"
    and object: "offset b < buflen b \<Longrightarrow>
      \<exists>ok item' b'. object item b = Some (ok, item', b') \<and> read_post ok item item' b b'"
  shows "\<exists>ok item' b'. parse_dispatch array object item b = Some (ok, item', b') \<and> read_post ok item item' b b'"
proof -
  note len = terminated_len [OF t]
  obtain t' vi vd s' where i: "item = Item t' None vi vd s' []" "t' = 0 \<or> t' = cJSON_String"
    using item by (rule blank_fields)
  obtain r1 where r1: "keyword_at ''null'' b = Some r1" "r1 \<longrightarrow> offset b + 4 \<le> buflen b"
    using keyword_at_total [OF len, of "''null''"] by auto
  obtain r2 where r2: "keyword_at ''false'' b = Some r2" "r2 \<longrightarrow> offset b + 5 \<le> buflen b"
    using keyword_at_total [OF len, of "''false''"] by auto
  obtain r3 where r3: "keyword_at ''true'' b = Some r3" "r3 \<longrightarrow> offset b + 4 \<le> buflen b"
    using keyword_at_total [OF len, of "''true''"] by auto
  have num: "\<exists>r. number_start b = Some r"
    using len by (auto simp: number_start_def can_access_at_index_def at_offset_in)
  then obtain r4 where r4: "number_start b = Some r4" by blast
  note run = parse_dispatch_def r1(1) r2(1) r3(1) r4 next_is_at [OF t]
  consider (null) r1 | (false) "\<not> r1" r2 | (true) "\<not> r1" "\<not> r2" r3
    | (str) "\<not> r1" "\<not> r2" "\<not> r3" "offset b < buflen b" "content b ! offset b = CHR 0x22"
    | (rest) "\<not> r1" "\<not> r2" "\<not> r3" "\<not> (offset b < buflen b \<and> content b ! offset b = CHR 0x22)" by blast
  then show ?thesis
  proof cases
    case null
    then show ?thesis using r1 i by (auto simp: run read_post_def)
  next
    case false
    then show ?thesis using r2 i by (auto simp: run read_post_def)
  next
    case true
    then show ?thesis using r3 i by (auto simp: run read_post_def)
  next
    case str
    then have "string_ready b" using len by (simp add: string_ready_def)
    with str show ?thesis using string.reads [OF item t] by (simp add: run)
  next
    case rest
    consider (num) r4 | (arr) "\<not> r4" "offset b < buflen b \<and> content b ! offset b = CHR ''[''"
      | (obj) "\<not> r4" "offset b < buflen b \<and> content b ! offset b = CHR ''{''"
      | (bad) "\<not> r4" "\<not> (offset b < buflen b \<and> content b ! offset b = CHR ''['')"
          "\<not> (offset b < buflen b \<and> content b ! offset b = CHR ''{'')" by blast
    then show ?thesis
    proof cases
      case num
      with rest show ?thesis using number.reads [OF item t] by (auto simp: run simp del: bind_Some_iff)
    next
      case arr
      with rest show ?thesis using array by (auto simp: run simp del: bind_Some_iff)
    next
      case obj
      with rest show ?thesis using object by (auto simp: run simp del: bind_Some_iff)
    next
      case bad
      with rest have "parse_dispatch array object item b = Some (False, item, b)"
        by (auto simp: run simp del: bind_Some_iff)
      then show ?thesis by (auto simp: read_post_def)
    qed
  qed
qed

lemma value_reader_parse_value: "value_reader (parse_value f) (fuel_ready f)"
proof (induction f)
  case 0
  show ?case by unfold_locales (simp_all add: fuel_ready_def)
next
  case (Suc f)
  show ?case
  proof
    show "\<exists>ok item' b'. parse_value (Suc f) item b = Some (ok, item', b') \<and> read_post ok item item' b b'"
      if "blank item" "terminated b" "fuel_ready (Suc f) b" for item b
    proof -
      have f: "buflen b - offset b \<le> f" using that(3) by (simp add: fuel_ready_def)
      have rdy: "fuel_ready f (b\<lparr>offset := offset b + 1\<rparr>)" if "offset b < buflen b"
        using that f by (simp add: fuel_ready_def)
      show ?thesis unfolding parse_value.simps
        using value_reader.array_reads [OF Suc.IH that(1,2) _ rdy f]
          value_reader.object_reads [OF Suc.IH that(1,2) _ rdy f]
        by (intro dispatch_reads [OF that(1,2)]) blast+
    qed
    show "fuel_ready (Suc f) b'" if "fuel_ready (Suc f) b" "same_text b b'" "offset b \<le> offset b'" for b b'
      using that by (auto simp: fuel_ready_def same_text_def)
  qed
qed

interpretation vals: value_reader "parse_value f" "fuel_ready f" for f
  by (rule value_reader_parse_value)

section \<open>Entry points\<close>

text \<open>What a caller of the parser gets: no item, no block kept and an error position inside
  the text; or a well-formed item that owns exactly the blocks taken.\<close>

definition parse_outcome :: "string \<Rightarrow> nat \<Rightarrow> globals \<Rightarrow> parse_result \<Rightarrow> bool" where
  "parse_outcome v n g r \<longleftrightarrow> (case r of
     (None, endpos, g') \<Rightarrow>
        live (gmem g') = live (gmem g) \<and> error_json g' = Some v \<and>
        (error_position g' < n \<or> n = 0 \<and> error_position g' = 0) \<and>
        (\<forall>e. endpos = Some e \<longrightarrow> e = error_position g')
   | (Some item, endpos, g') \<Rightarrow>
        wf_value item \<and> item_string item = None \<and> height item \<le> CJSON_NESTING_LIMIT \<and>
        live (gmem g') = live (gmem g) + blocks item \<and> error_json g' = None \<and>
        (\<forall>e. endpos = Some e \<longrightarrow> 0 < e \<and> e \<le> n))"

lemma parse_failed_outcome:
  assumes "live (gmem g') = live (gmem g)"
  shows "parse_outcome v n g (parse_failed v n off want_end g')"
  using assms by (auto simp: parse_failed_def parse_outcome_def Let_def)

lemma parse_from_outcome:
  fixes v n m g defines "b0 \<equiv> \<lparr>content = v, buflen = n, offset = 0, depth = 0, bmem = m\<rparr>"
  assumes b: "content b = v" "buflen b = n" "depth b = 0" "bmem b = m" "offset b \<le> n"
    and t: "terminated b0" and n: "live m = live (gmem g) + 1" and err: "error_json g = None"
  shows "\<exists>r. (do {
            b \<leftarrow> buffer_skip_whitespace b;
            (ok, item, b) \<leftarrow> parse_value (parse_fuel n) zero_item b;
               (if \<not> ok
               then Some (parse_failed v n (offset b) want_end (g\<lparr>gmem := cJSON_Delete [item] (bmem b)\<rparr>))
               else if \<not> require_null_terminated
               then Some (Some item, if want_end then Some (offset b) else None, g\<lparr>gmem := bmem b\<rparr>)
               else do {
                 b \<leftarrow> buffer_skip_whitespace b;
                 bad \<leftarrow> (if buflen b \<le> offset b then Some True
                        else map_option (\<lambda>c. c \<noteq> NUL) (at_offset b 0));
                 if bad
                 then Some (parse_failed v n (offset b) want_end (g\<lparr>gmem := cJSON_Delete [item] (bmem b)\<rparr>))
                 else Some (Some item, if want_end then Some (offset b) else None,
                            g\<lparr>gmem := bmem b\<rparr>) }) }) = Some r \<and> parse_outcome v n g r"
proof -
  have tb: "terminated b" using t b by (simp add: terminated_def b0_def)
  obtain k where k: "buffer_skip_whitespace b = Some (b\<lparr>offset := k\<rparr>)" "offset b \<le> k" "k \<le> n"
    using skip_within [OF tb] b by auto
  define b1 where "b1 = b\<lparr>offset := k\<rparr>"
  have t1: "terminated b1" "fuel_ready (parse_fuel n) b1"
    using tb b k by (auto simp: b1_def fuel_ready_def parse_fuel_def)
  obtain ok item b2 where pv: "parse_value (parse_fuel n) zero_item b1 = Some (ok, item, b2)"
    "read_post ok zero_item item b1 b2"
    using vals.reads [OF blank_zero t1] by blast
  have st: "same_text b b2" using pv(2) by (simp add: read_post_def b1_def)
  have t2: "terminated b2" using tb st terminated_same by blast
  show ?thesis
  proof (cases ok)
    case False
    with pv(2) have "live (bmem b2) = live m" "item = zero_item" by (auto simp: read_post_def b1_def b)
    then show ?thesis using False k(1) pv(1) n
      by (auto simp: b1_def [symmetric] zero_item_def intro!: parse_failed_outcome)
  next
    case True
    with pv(2) b k have p: "live (bmem b2) = live (gmem g) + blocks item" "offset b2 \<le> n" "0 < offset b2"
      "wf_value item" "item_string item = None" "height item \<le> CJSON_NESTING_LIMIT" "buflen b2 = n"
      using n st by (auto simp: read_post_def b1_def zero_item_def fits_def same_text_def)
    obtain k3 where k3: "buffer_skip_whitespace b2 = Some (b2\<lparr>offset := k3\<rparr>)" "offset b2 \<le> k3" "k3 \<le> n"
      using skip_within [OF t2] p by auto
    have rd: "at_offset (b2\<lparr>offset := k3\<rparr>) 0 = Some (content b2 ! k3)" if "k3 < n"
      using that terminated_len [OF t2] p by (simp add: at_offset_in)
    show ?thesis
    proof (cases "require_null_terminated \<and> (n \<le> k3 \<or> content b2 ! k3 \<noteq> NUL)")
      case True
      then show ?thesis using \<open>ok\<close> k(1) pv(1) k3(1) rd p
        by (cases "k3 < n") (auto simp: b1_def [symmetric] intro!: parse_failed_outcome)
    next
      case False
      then show ?thesis using \<open>ok\<close> k(1) pv(1) k3 rd p err
        by (cases "k3 < n"; cases require_null_terminated)
          (auto simp: b1_def [symmetric] parse_outcome_def)
    qed
  qed
qed

lemma skip_utf8_bom_total:
  assumes "offset b = 0" "buflen b \<le> length (content b)"
  shows "\<exists>b'. skip_utf8_bom b = Some (Some b') \<and> (b' = b \<or> b' = b\<lparr>offset := 3\<rparr> \<and> 3 \<le> buflen b)"
proof (cases "4 < buflen b")
  case True
  with assms(2) literal_at_total [of 0 "[CHR 0xEF, CHR 0xBB, CHR 0xBF]" "content b"]
  obtain r where "literal_at (content b) 0 [CHR 0xEF, CHR 0xBB, CHR 0xBF] = Some r" by auto
  with True assms(1) have "skip_utf8_bom b = Some (Some (if r then b\<lparr>offset := 3\<rparr> else b))"
    by (simp add: skip_utf8_bom_def can_access_at_index_def del: literal_at.simps)
  with True show ?thesis by auto
next
  case False
  then show ?thesis using assms(1) by (simp add: skip_utf8_bom_def can_access_at_index_def)
qed

lemma ParseWithLengthOpts_outcome:
  assumes "n \<le> length v" "n < length v \<or> n = 0 \<or> v ! (n - 1) \<noteq> CHR '',''"
  shows "\<exists>r. cJSON_ParseWithLengthOpts (Some v) n want_end require_null_terminated g = Some r \<and>
    parse_outcome v n g r"
proof (cases "n = 0")
  case True
  then show ?thesis by (auto simp: cJSON_ParseWithLengthOpts_def Let_def intro!: parse_failed_outcome)
next
  case False
  define g0 where "g0 = g\<lparr>error_json := None, error_position := 0\<rparr>"
  have gm: "gmem g0 = gmem g" "error_json g0 = None" by (simp_all add: g0_def)
  then have "parse_outcome v n g0 r = parse_outcome v n g r" for r
    by (simp only: parse_outcome_def)
  with gm have g0: "gmem g0 = gmem g" "error_json g0 = None" "parse_outcome v n g0 = parse_outcome v n g"
    by (simp_all add: fun_eq_iff)
  obtain r m where nm: "cJSON_New_Item (gmem g) = (r, m)" by fastforce
  note new = New_Item_cases [OF nm]
  show ?thesis
  proof (cases r)
    case None
    with False have "cJSON_ParseWithLengthOpts (Some v) n want_end require_null_terminated g =
        Some (parse_failed v n 0 want_end (g0\<lparr>gmem := m\<rparr>))"
      by (simp add: cJSON_ParseWithLengthOpts_def g0_def [symmetric] nm g0)
    moreover have "parse_outcome v n g (parse_failed v n 0 want_end (g0\<lparr>gmem := m\<rparr>))"
      using new None by (intro parse_failed_outcome) auto
    ultimately show ?thesis by blast
  next
    case (Some i)
    with new have i: "i = zero_item" "live m = live (gmem g0) + 1" using g0 by auto
    define b0 where "b0 = \<lparr>content = v, buflen = n, offset = 0, depth = 0, bmem = m\<rparr>"
    have t: "terminated b0" using assms False by (auto simp: terminated_def b0_def)
    obtain b' where b': "skip_utf8_bom b0 = Some (Some b')" "b' = b0 \<or> b' = b0\<lparr>offset := 3\<rparr> \<and> 3 \<le> n"
      using skip_utf8_bom_total [of b0] assms(1) by (auto simp: b0_def)
    have flds: "content b' = v" "buflen b' = n" "depth b' = 0" "bmem b' = m" "offset b' \<le> n"
      using b'(2) by (auto simp: b0_def)
    show ?thesis
      using parse_from_outcome [OF flds t [unfolded b0_def] i(2) g0(2)] False
      by (simp add: cJSON_ParseWithLengthOpts_def g0_def [symmetric] nm Some i b0_def [symmetric] b'(1) g0(1,3)
          del: bind_Some_iff)
  qed
qed

section \<open>Properties\<close>

text \<open>C1: Parsing any NUL-terminated text is defined: it never reads outside the text, never writes
  outside the strings it allocates, and its recursion ends (the fuel is enough).  It fails without
  keeping a block and with the error position inside the text, or returns a well-formed value,
  nested at most \<open>CJSON_NESTING_LIMIT\<close> deep, that owns exactly the blocks that were taken; whichever
  of its allocations fail.\<close>

theorem cJSON_Parse_outcome:
  assumes "NUL \<in> set v"
  shows "\<exists>r. cJSON_Parse (Some v) g = Some r \<and> parse_outcome v (Suc (length (cstring v))) g r"
proof -
  define k where "k = length (cstring v)"
  have k: "k < length v" "v ! k = NUL"
  proof -
    obtain xs ys where "v = xs @ NUL # ys" "NUL \<notin> set xs" using split_list_first [OF assms] by blast
    then show "k < length v" "v ! k = NUL" by (simp_all add: k_def nulfree_def)
  qed
  have "strlen_at v 0 = Some k" using k(1) by (simp add: strlen_at_def k_def Let_def)
  then have "cJSON_Parse (Some v) g = cJSON_ParseWithLengthOpts (Some v) (Suc k) False False g"
    by (simp add: cJSON_Parse_def cJSON_ParseWithOpts_def)
  then show ?thesis using ParseWithLengthOpts_outcome [of "Suc k" v] k by (simp add: k_def [symmetric])
qed

theorem cJSON_Parse_outcome_witness:
  "\<exists>r. cJSON_Parse (Some (''[null]'' @ [NUL])) initial_globals = Some r \<and>
     parse_outcome (''[null]'' @ [NUL]) 7 initial_globals r"
  using cJSON_Parse_outcome [of "''[null]'' @ [NUL]" initial_globals]
  by (simp add: cstring_def numeral_eq_Suc)

text \<open>C2: The same holds with an explicit length and any options, provided that the length lies in the
  object and, if it covers the whole object, that the last byte is not a comma.\<close>

theorem cJSON_ParseWithLengthOpts_outcome:
  assumes "n \<le> length v" and "n < length v \<or> n = 0 \<or> v ! (n - 1) \<noteq> CHR '',''"
  shows "\<exists>r. cJSON_ParseWithLengthOpts (Some v) n want_end require_null_terminated g = Some r \<and>
    parse_outcome v n g r"
  by (rule ParseWithLengthOpts_outcome [OF assms])

theorem cJSON_ParseWithLengthOpts_outcome_witness:
  "\<exists>r. cJSON_ParseWithLengthOpts (Some ''[true]'') 6 True False initial_globals = Some r \<and>
     parse_outcome ''[true]'' 6 initial_globals r"
  using cJSON_ParseWithLengthOpts_outcome [of 6 "''[true]''" True False initial_globals] by simp

text \<open>A four-digit escape whose digits are not hexadecimal is not refused: it decodes to a NUL
  byte that ends the string early.\<close>

theorem invalid_escape_accepted:
  "\<exists>item endpos g. cJSON_Parse (Some ([CHR 0x22, CHR 0x5C] @ ''uZ123abc'' @ [CHR 0x22, NUL])) initial_globals =
      Some (Some item, endpos, g) \<and> cJSON_GetStringValue (Some item) = Some ''''"
proof -
  have "(case cJSON_Parse (Some ([CHR 0x22, CHR 0x5C] @ ''uZ123abc'' @ [CHR 0x22, NUL])) initial_globals of
      Some (Some item, endpos, g) \<Rightarrow> cJSON_GetStringValue (Some item) = Some '''' | _ \<Rightarrow> False)"
    by code_simp
  then show ?thesis by (auto split: option.splits prod.splits)
qed

end
