(* ===== verification/Printer.thy ===== *)
theory Printer
  imports Parser_Safety
begin

text \<open>
  The printer of \<open>json/cJSON.c\<close>: the growing buffer, numbers, strings, values and the four
  entry points.  The buffer is the memory object it points to (or null); a write goes through
  \<^term>\<open>blit\<close>, so that a write outside the object is \<open>None\<close>.  A pointer that \<open>ensure\<close>
  returns is an index of that object.
\<close>

section \<open>The buffer\<close>

record printbuffer =
  pbuffer :: "string option"
  plength :: nat
  poffset :: nat
  pdepth :: nat
  noalloc :: bool
  pformat :: bool
  pmem :: mem

text \<open>The contents of a fresh block, and a block after \<open>realloc\<close>.\<close>

definition fresh_block :: "mem \<Rightarrow> nat \<Rightarrow> string" where
  "fresh_block m n = map (junk m) [0..<n]"

definition resized :: "mem \<Rightarrow> string \<Rightarrow> nat \<Rightarrow> string" where
  "resized m s n = take n s @ map (junk m) [length s..<n]"

definition reallocate :: "mem \<Rightarrow> bool \<times> mem" where
  "reallocate m = (may_alloc m (tries m), m\<lparr>tries := tries m + 1\<rparr>)"

definition INT_MAX_size :: nat where
  "INT_MAX_size = 2147483647"

definition ensure :: "printbuffer \<Rightarrow> nat \<Rightarrow> (nat option \<times> printbuffer) option" where
  "ensure p needed =
     (case pbuffer p of
        None \<Rightarrow> Some (None, p)
      | Some buffer \<Rightarrow>
          if 0 < plength p \<and> plength p \<le> poffset p then Some (None, p)
          else if INT_MAX_size < needed then Some (None, p)
          else let needed = needed + poffset p + 1 in
            if needed \<le> plength p then Some (Some (poffset p), p)
            else if noalloc p then Some (None, p)
            else
              (case (if INT_MAX_size div 2 < needed
                     then if needed \<le> INT_MAX_size then Some INT_MAX_size else None
                     else Some (needed * 2)) of
                 None \<Rightarrow> Some (None, p)
               | Some newsize \<Rightarrow>
                   if has_realloc (pmem p)
                   then (case reallocate (pmem p) of (ok, m) \<Rightarrow>
                     if \<not> ok
                     then Some (None, p\<lparr>pmem := deallocate 1 m, plength := 0, pbuffer := None\<rparr>)
                     else Some (Some (poffset p),
                            p\<lparr>pmem := m, plength := newsize, pbuffer := Some (resized m buffer newsize)\<rparr>))
                   else (case allocate (pmem p) of (ok, m) \<Rightarrow>
                     if \<not> ok
                     then Some (None, p\<lparr>pmem := deallocate 1 m, plength := 0, pbuffer := None\<rparr>)
                     else if length buffer < poffset p + 1 then None
                     else do {
                       newbuffer \<leftarrow> blit (fresh_block m newsize) 0 (take (poffset p + 1) buffer);
                       Some (Some (poffset p),
                         p\<lparr>pmem := deallocate 1 m, plength := newsize, pbuffer := Some newbuffer\<rparr>) })))"

definition update_offset :: "printbuffer \<Rightarrow> printbuffer option" where
  "update_offset p =
     (case pbuffer p of
        None \<Rightarrow> Some p
      | Some buffer \<Rightarrow> do { n \<leftarrow> strlen_at buffer (poffset p); Some (p\<lparr>poffset := poffset p + n\<rparr>) })"

text \<open>Writing the bytes \<open>cs\<close> at the pointer \<open>i\<close>.\<close>

definition store :: "printbuffer \<Rightarrow> nat \<Rightarrow> string \<Rightarrow> printbuffer option" where
  "store p i cs = do { b \<leftarrow> pbuffer p; b' \<leftarrow> blit b i cs; Some (p\<lparr>pbuffer := Some b'\<rparr>) }"

text \<open>\<open>ensure\<close>, then the writes of \<open>body\<close> at the pointer, or failure when it is null.\<close>

type_synonym printed = "(bool \<times> printbuffer) option"

definition with_space :: "printbuffer \<Rightarrow> nat \<Rightarrow> (nat \<Rightarrow> printbuffer \<Rightarrow> printed) \<Rightarrow> printed" where
  "with_space p needed body = do {
     (output, p) \<leftarrow> ensure p needed;
     (case output of None \<Rightarrow> Some (False, p) | Some i \<Rightarrow> body i p) }"

definition store_text :: "string \<Rightarrow> nat \<Rightarrow> printbuffer \<Rightarrow> printed" where
  "store_text cs i p = do { p \<leftarrow> store p i cs; Some (True, p) }"

section \<open>Numbers\<close>

text \<open>The text of a number: 15 digits when they read back to about the number, else 17.\<close>

definition number_text :: "double \<Rightarrow> string" where
  "number_text d =
     (if d = NaN \<or> \<not> is_finite d then ''null''
      else let t = sprintf_g 15 d in
        (case strtod t of (test, consumed) \<Rightarrow>
           if consumed = 0 \<or> \<not> compare_double test d then sprintf_g 17 d else t))"

text \<open>\<open>number_buffer\<close> has 26 bytes.\<close>

definition print_number :: "cJSON \<Rightarrow> printbuffer \<Rightarrow> printed" where
  "print_number item p =
     (let number_buffer = number_text (valuedouble item) in
      if 26 < length number_buffer + 1 then None
      else if 25 < length number_buffer then Some (False, p)
      else with_space p (length number_buffer + 1) (\<lambda>i p. do {
        p \<leftarrow> store p i (number_buffer @ [NUL]);
        Some (True, p\<lparr>poffset := poffset p + length number_buffer\<rparr>) }))"

section \<open>Strings\<close>

text \<open>The letter of a one-character escape.\<close>

definition escape_letter :: "char \<Rightarrow> char option" where
  "escape_letter c =
     (if c = CHR 0x5C then Some (CHR 0x5C)
      else if c = CHR 0x22 then Some (CHR 0x22)
      else if c = CHR 0x08 then Some (CHR ''b'')
      else if c = CHR 0x0C then Some (CHR ''f'')
      else if c = CHR 0x0A then Some (CHR ''n'')
      else if c = CHR 0x0D then Some (CHR ''r'')
      else if c = CHR 0x09 then Some (CHR ''t'')
      else None)"

definition escape_extra :: "char \<Rightarrow> nat" where
  "escape_extra c = (if escape_letter c \<noteq> None then 1 else if ord c < 32 then 5 else 0)"

definition hex_digit :: "nat \<Rightarrow> char" where
  "hex_digit n = (if n < 10 then char_of (48 + n) else char_of (87 + n))"

text \<open>\<open>sprintf(output_pointer, "u%04x", c)\<close>, which also writes a NUL.\<close>

definition hex_escape :: "char \<Rightarrow> string" where
  "hex_escape c = ''u00'' @ [hex_digit (ord c div 16), hex_digit (ord c mod 16)]"

fun copy_escaped :: "string \<Rightarrow> nat \<Rightarrow> printbuffer \<Rightarrow> printbuffer option" where
  "copy_escaped [] i p = Some p"
| "copy_escaped (c # cs) i p =
     (if 31 < ord c \<and> c \<noteq> CHR 0x22 \<and> c \<noteq> CHR 0x5C
      then do { p \<leftarrow> store p i [c]; copy_escaped cs (i + 1) p }
      else do {
        p \<leftarrow> store p i [CHR 0x5C];
        (case escape_letter c of
           Some e \<Rightarrow> do { p \<leftarrow> store p (i + 1) [e]; copy_escaped cs (i + 2) p }
         | None \<Rightarrow> do { p \<leftarrow> store p (i + 1) (hex_escape c @ [NUL]); copy_escaped cs (i + 6) p }) })"

definition print_string_ptr :: "string option \<Rightarrow> printbuffer \<Rightarrow> printed" where
  "print_string_ptr input p =
     (case input of
        None \<Rightarrow> with_space p 3 (store_text [CHR 0x22, CHR 0x22, NUL])
      | Some s \<Rightarrow>
          let escape_characters = sum_list (map escape_extra s);
              output_length = length s + escape_characters in
          with_space p (output_length + 3) (\<lambda>i p.
            if escape_characters = 0
            then store_text (CHR 0x22 # s @ [CHR 0x22, NUL]) i p
            else do {
              p \<leftarrow> store p i [CHR 0x22];
              p \<leftarrow> copy_escaped s (i + 1) p;
              p \<leftarrow> store p (i + output_length + 1) [CHR 0x22];
              p \<leftarrow> store p (i + output_length + 2) [NUL];
              Some (True, p) }))"

definition print_string :: "cJSON \<Rightarrow> printbuffer \<Rightarrow> printed" where
  "print_string item p = print_string_ptr (valuestring item) p"

section \<open>Arrays and objects\<close>

definition tabs :: "nat \<Rightarrow> string" where
  "tabs n = replicate n (CHR 0x09)"

text \<open>The body of the two functions around the loop over the children.\<close>

definition print_array :: "(printbuffer \<Rightarrow> printed) \<Rightarrow> printbuffer \<Rightarrow> printed" where
  "print_array elements p =
     with_space p 1 (\<lambda>i p. do {
       p \<leftarrow> store p i ''['';
       (ok, p) \<leftarrow> elements (p\<lparr>poffset := poffset p + 1, pdepth := pdepth p + 1\<rparr>);
       if \<not> ok then Some (False, p)
       else with_space p 2 (\<lambda>i p. do {
         p \<leftarrow> store p i ('']'' @ [NUL]);
         Some (True, p\<lparr>pdepth := pdepth p - 1\<rparr>) }) })"

text \<open>What follows an element: nothing after the last one.\<close>

definition print_separator :: "bool \<Rightarrow> printbuffer \<Rightarrow> printed" where
  "print_separator followed p =
     (if followed
      then (let len = (if pformat p then 2 else 1) in
        with_space p (len + 1) (\<lambda>i p. do {
          p \<leftarrow> store p i ((if pformat p then '', '' else '','') @ [NUL]);
          Some (True, p\<lparr>poffset := poffset p + len\<rparr>) }))
      else Some (True, p))"

definition print_object :: "(printbuffer \<Rightarrow> printed) \<Rightarrow> printbuffer \<Rightarrow> printed" where
  "print_object members p =
     (let len = (if pformat p then 2 else 1) in
      with_space p (len + 1) (\<lambda>i p. do {
        p \<leftarrow> store p i (if pformat p then [CHR ''{'', CHR 0x0A] else ''{'');
        (ok, p) \<leftarrow> members (p\<lparr>pdepth := pdepth p + 1, poffset := poffset p + len\<rparr>);
        if \<not> ok then Some (False, p)
        else with_space p (if pformat p then pdepth p + 1 else 2) (\<lambda>i p. do {
          p \<leftarrow> store p i ((if pformat p then tabs (pdepth p - 1) else []) @ ''}'' @ [NUL]);
          Some (True, p\<lparr>pdepth := pdepth p - 1\<rparr>) }) }))"

text \<open>The indentation, the name and the colon in front of the value of a member.\<close>

definition print_key :: "string option \<Rightarrow> printbuffer \<Rightarrow> printed" where
  "print_key name p = do {
     (ok, p) \<leftarrow> (if pformat p
       then with_space p (pdepth p) (\<lambda>i p. do {
         p \<leftarrow> store p i (tabs (pdepth p));
         Some (True, p\<lparr>poffset := poffset p + pdepth p\<rparr>) })
       else Some (True, p));
     if \<not> ok then Some (False, p)
     else do {
       (ok, p) \<leftarrow> print_string_ptr name p;
       if \<not> ok then Some (False, p)
       else do {
         p \<leftarrow> update_offset p;
         let len = (if pformat p then 2 else 1);
         with_space p len (\<lambda>i p. do {
           p \<leftarrow> store p i (if pformat p then [CHR '':'', CHR 0x09] else '':'');
           Some (True, p\<lparr>poffset := poffset p + len\<rparr>) }) } } }"

text \<open>The comma and the line end after the value of a member.\<close>

definition print_member_end :: "bool \<Rightarrow> printbuffer \<Rightarrow> printed" where
  "print_member_end followed p =
     (let len = (if pformat p then 1 else 0) + (if followed then 1 else 0) in
      with_space p (len + 1) (\<lambda>i p. do {
        p \<leftarrow> store p i ((if followed then '','' else []) @ (if pformat p then [CHR 0x0A] else []) @ [NUL]);
        Some (True, p\<lparr>poffset := poffset p + len\<rparr>) }))"

section \<open>Values\<close>

fun print_value :: "cJSON \<Rightarrow> printbuffer \<Rightarrow> printed"
  and print_elements :: "cJSON list \<Rightarrow> printbuffer \<Rightarrow> printed"
  and print_members :: "cJSON list \<Rightarrow> printbuffer \<Rightarrow> printed" where
  "print_value (Item t vs vi vd s cs) p =
     (let k = t AND 0xFF in
      if k = cJSON_NULL then with_space p 5 (store_text (''null'' @ [NUL]))
      else if k = cJSON_False then with_space p 6 (store_text (''false'' @ [NUL]))
      else if k = cJSON_True then with_space p 5 (store_text (''true'' @ [NUL]))
      else if k = cJSON_Number then print_number (Item t vs vi vd s cs) p
      else if k = cJSON_Raw then
        (case vs of None \<Rightarrow> Some (False, p)
         | Some v \<Rightarrow> with_space p (length v + 1) (store_text (v @ [NUL])))
      else if k = cJSON_String then print_string (Item t vs vi vd s cs) p
      else if k = cJSON_Array then print_array (print_elements cs) p
      else if k = cJSON_Object then print_object (print_members cs) p
      else Some (False, p))"
| "print_elements [] p = Some (True, p)"
| "print_elements (c # cs) p = do {
     (ok, p) \<leftarrow> print_value c p;
     if \<not> ok then Some (False, p)
     else do {
       p \<leftarrow> update_offset p;
       (ok, p) \<leftarrow> print_separator (cs \<noteq> []) p;
       if \<not> ok then Some (False, p) else print_elements cs p } }"
| "print_members [] p = Some (True, p)"
| "print_members (c # cs) p = do {
     (ok, p) \<leftarrow> print_key (item_string c) p;
     if \<not> ok then Some (False, p)
     else do {
       (ok, p) \<leftarrow> print_value c p;
       if \<not> ok then Some (False, p)
       else do {
         p \<leftarrow> update_offset p;
         (ok, p) \<leftarrow> print_member_end (cs \<noteq> []) p;
         if \<not> ok then Some (False, p) else print_members cs p } } }"

definition print_value_opt :: "cJSON option \<Rightarrow> printbuffer \<Rightarrow> printed" where
  "print_value_opt item p = (case item of None \<Rightarrow> Some (False, p) | Some i \<Rightarrow> print_value i p)"

section \<open>Entry points\<close>

definition start_buffer :: "string \<Rightarrow> nat \<Rightarrow> bool \<Rightarrow> bool \<Rightarrow> mem \<Rightarrow> printbuffer" where
  "start_buffer buffer len no_alloc fmt m =
     \<lparr>pbuffer = Some buffer, plength = len, poffset = 0, pdepth = 0, noalloc = no_alloc,
      pformat = fmt, pmem = m\<rparr>"

text \<open>Freeing the buffer when it is not null.\<close>

definition drop_buffer :: "printbuffer \<Rightarrow> mem" where
  "drop_buffer p = (if pbuffer p = None then pmem p else deallocate 1 (pmem p))"

text \<open>The result: the memory object returned, or null, and the heap.\<close>

definition print :: "cJSON option \<Rightarrow> bool \<Rightarrow> mem \<Rightarrow> (string option \<times> mem) option" where
  "print item fmt m0 =
     (case allocate m0 of (ok, m) \<Rightarrow>
        if \<not> ok then Some (None, m)
        else do {
          (ok, p) \<leftarrow> print_value_opt item (start_buffer (fresh_block m 256) 256 False fmt m);
          if \<not> ok then Some (None, drop_buffer p)
          else do {
            p \<leftarrow> update_offset p;
            buffer \<leftarrow> pbuffer p;
            if has_realloc m0
            then (case reallocate (pmem p) of (ok, m) \<Rightarrow>
              if \<not> ok then Some (None, drop_buffer (p\<lparr>pmem := m\<rparr>))
              else Some (Some (resized m buffer (poffset p + 1)), m))
            else (case allocate (pmem p) of (ok, m) \<Rightarrow>
              if \<not> ok then Some (None, drop_buffer (p\<lparr>pmem := m\<rparr>))
              else if length buffer < min (plength p) (poffset p + 1) then None
              else do {
                printed \<leftarrow> blit (fresh_block m (poffset p + 1)) 0 (take (min (plength p) (poffset p + 1)) buffer);
                printed \<leftarrow> poke printed (poffset p) NUL;
                Some (Some printed, drop_buffer (p\<lparr>pmem := m\<rparr>)) }) } })"

definition cJSON_Print :: "cJSON option \<Rightarrow> mem \<Rightarrow> (string option \<times> mem) option" where
  "cJSON_Print item m = print item True m"

definition cJSON_PrintUnformatted :: "cJSON option \<Rightarrow> mem \<Rightarrow> (string option \<times> mem) option" where
  "cJSON_PrintUnformatted item m = print item False m"

definition cJSON_PrintBuffered :: "cJSON option \<Rightarrow> int \<Rightarrow> bool \<Rightarrow> mem \<Rightarrow> (string option \<times> mem) option" where
  "cJSON_PrintBuffered item prebuffer fmt m0 =
     (if prebuffer < 0 then Some (None, m0)
      else (case allocate m0 of (ok, m) \<Rightarrow>
        if \<not> ok then Some (None, m)
        else do {
          (ok, p) \<leftarrow> print_value_opt item
             (start_buffer (fresh_block m (nat prebuffer)) (nat prebuffer) False fmt m);
          if \<not> ok then Some (None, drop_buffer p) else Some (pbuffer p, pmem p) }))"

text \<open>The caller's buffer: the object after the call, next to the result.\<close>

definition cJSON_PrintPreallocated ::
    "cJSON option \<Rightarrow> string option \<Rightarrow> int \<Rightarrow> bool \<Rightarrow> mem \<Rightarrow> (bool \<times> string option \<times> mem) option" where
  "cJSON_PrintPreallocated item buffer len fmt m =
     (case buffer of
        None \<Rightarrow> Some (False, None, m)
      | Some b \<Rightarrow>
          if len < 0 then Some (False, Some b, m)
          else do {
            (ok, p) \<leftarrow> print_value_opt item (start_buffer b (nat len) True fmt m);
            Some (ok, pbuffer p, pmem p) })"

end
