(* ===== verification/Printer_Correct.thy ===== *)
theory Printer_Correct
  imports Printer
begin

text \<open>
  The printer lays down the text of an item: an abstract \<open>render\<close>, and the proof that the
  buffer code implements it without a write outside the buffer, with every buffer accounted for
  when an allocation fails, and with at most two bytes of slack.
\<close>

section \<open>The text of an item\<close>

definition escape :: "char \<Rightarrow> string" where
  "escape c = (if 31 < ord c \<and> c \<noteq> CHR 0x22 \<and> c \<noteq> CHR 0x5C then [c]
     else CHR 0x5C # (case escape_letter c of Some e \<Rightarrow> [e] | None \<Rightarrow> hex_escape c))"

definition quote :: "string \<Rightarrow> string" where
  "quote s = CHR 0x22 # concat (map escape s) @ [CHR 0x22]"

definition text_of :: "string option \<Rightarrow> string" where
  "text_of s = (case s of None \<Rightarrow> [] | Some v \<Rightarrow> v)"

fun render :: "bool \<Rightarrow> nat \<Rightarrow> cJSON \<Rightarrow> string option"
  and render_elements :: "bool \<Rightarrow> nat \<Rightarrow> cJSON list \<Rightarrow> string option"
  and render_members :: "bool \<Rightarrow> nat \<Rightarrow> cJSON list \<Rightarrow> string option" where
  "render fmt d (Item t vs vi vd s cs) =
     (let k = t AND 0xFF in
      if k = cJSON_NULL then Some ''null''
      else if k = cJSON_False then Some ''false''
      else if k = cJSON_True then Some ''true''
      else if k = cJSON_Number then Some (number_text vd)
      else if k = cJSON_Raw then vs
      else if k = cJSON_String then Some (quote (text_of vs))
      else if k = cJSON_Array then map_option (\<lambda>t. ''['' @ t @ '']'') (render_elements fmt (d + 1) cs)
      else if k = cJSON_Object then
        map_option (\<lambda>t. (if fmt then [CHR ''{'', CHR 0x0A] else ''{'') @ t @
                        (if fmt then tabs d else []) @ ''}'') (render_members fmt (d + 1) cs)
      else None)"
| "render_elements fmt d [] = Some []"
| "render_elements fmt d (c # cs) = do {
     t \<leftarrow> render fmt d c;
     ts \<leftarrow> render_elements fmt d cs;
     Some (t @ (if cs = [] then [] else if fmt then '', '' else '','') @ ts) }"
| "render_members fmt d [] = Some []"
| "render_members fmt d (c # cs) = do {
     t \<leftarrow> render fmt d c;
     ts \<leftarrow> render_members fmt d cs;
     Some (((if fmt then tabs d else []) @ quote (text_of (item_string c)) @
            (if fmt then [CHR '':'', CHR 0x09] else '':'')) @ t @
           ((if cs = [] then [] else '','') @ (if fmt then [CHR 0x0A] else [])) @ ts) }"

text \<open>The strings of an item are C strings and its numbers are doubles.\<close>

fun printable :: "cJSON \<Rightarrow> bool" where
  "printable (Item t vs vi vd s cs) \<longleftrightarrow>
     nulfree (text_of vs) \<and> nulfree (text_of s) \<and> wf_double vd \<and> (\<forall>c \<in> set cs. printable c)"

section \<open>Buffers\<close>

definition held :: "printbuffer \<Rightarrow> int" where
  "held p = live (pmem p) - (if pbuffer p = None then 0 else 1)"

definition keeps :: "printbuffer \<Rightarrow> printbuffer \<Rightarrow> bool" where
  "keeps p q \<longleftrightarrow> noalloc q = noalloc p \<and> pformat q = pformat p \<and> same_hooks (pmem p) (pmem q) \<and>
     held q = held p \<and> (noalloc p \<longrightarrow> map_option length (pbuffer q) = map_option length (pbuffer p))"

definition sound :: "printbuffer \<Rightarrow> bool" where
  "sound p \<longleftrightarrow> (\<exists>b. pbuffer p = Some b \<and> plength p \<le> length b) \<and> plength p \<le> INT_MAX_size \<and>
     (poffset p < plength p \<or> plength p = 0 \<and> poffset p = 0 \<and> (has_realloc (pmem p) \<or> noalloc p))"

definition before :: "printbuffer \<Rightarrow> string" where
  "before p = take (poffset p) (the (pbuffer p))"

text \<open>The buffer can hold \<open>k\<close> bytes, or grow to hold them.\<close>

definition room :: "printbuffer \<Rightarrow> nat \<Rightarrow> bool" where
  "room p k \<longleftrightarrow> k \<le> plength p \<or> \<not> noalloc p \<and> (\<forall>i. may_alloc (pmem p) i) \<and> k \<le> INT_MAX_size"

definition adv :: "printbuffer \<Rightarrow> string \<Rightarrow> printbuffer \<Rightarrow> bool" where
  "adv p t q \<longleftrightarrow> keeps p q \<and> sound q \<and> plength p \<le> plength q \<and>
     before q = before p @ t \<and> poffset q = poffset p + length t"

definition wrote :: "printbuffer \<Rightarrow> string \<Rightarrow> printbuffer \<Rightarrow> bool" where
  "wrote p t q \<longleftrightarrow> keeps p q \<and> sound q \<and> plength p \<le> plength q \<and>
     poffset p \<le> poffset q \<and> poffset q \<le> poffset p + length t \<and> poffset p + length t < plength q \<and>
     take (poffset p + length t + 1) (the (pbuffer q)) = before p @ t @ [NUL]"

lemma keeps_refl [simp]: "keeps p p"
  by (simp add: keeps_def)

lemma keeps_trans [trans]: "keeps p q \<Longrightarrow> keeps q r \<Longrightarrow> keeps p r"
  by (auto simp: keeps_def intro: same_hooks_trans)

lemma keeps_upd [simp]:
  "keeps p (q\<lparr>poffset := k\<rparr>) = keeps p q" "keeps p (q\<lparr>pdepth := k\<rparr>) = keeps p q"
  "keeps (p\<lparr>poffset := k\<rparr>) q = keeps p q" "keeps (p\<lparr>pdepth := k\<rparr>) q = keeps p q"
  by (simp_all add: keeps_def held_def)

lemma depth_upd [simp]:
  "sound (p\<lparr>pdepth := k\<rparr>) = sound p" "before (p\<lparr>pdepth := k\<rparr>) = before p" "room (p\<lparr>pdepth := k\<rparr>) = room p"
  "adv p t (q\<lparr>pdepth := k\<rparr>) = adv p t q" "adv (p\<lparr>pdepth := k\<rparr>) t q = adv p t q"
  "wrote p t (q\<lparr>pdepth := k\<rparr>) = wrote p t q" "wrote (p\<lparr>pdepth := k\<rparr>) t q = wrote p t q"
  by (simp_all add: sound_def before_def room_def adv_def wrote_def fun_eq_iff)

lemma adv_trans: "adv p s q \<Longrightarrow> adv q t r \<Longrightarrow> adv p (s @ t) r"
  by (auto simp: adv_def intro: keeps_trans)

lemma adv_wrote: "adv p s q \<Longrightarrow> wrote q t r \<Longrightarrow> wrote p (s @ t) r"
  by (auto simp: adv_def wrote_def add.assoc intro: keeps_trans)

lemma adv_refl: "sound p \<Longrightarrow> adv p [] p"
  by (simp add: adv_def)

lemma adv_sound: "adv p t q \<Longrightarrow> sound q" "wrote p t q \<Longrightarrow> sound q"
  by (simp_all add: adv_def wrote_def)

lemma keeps_room: "room p k \<Longrightarrow> keeps p q \<Longrightarrow> plength p \<le> plength q \<Longrightarrow> room q k"
  by (auto simp: room_def keeps_def same_hooks_def)

lemma adv_room: "room p k \<Longrightarrow> adv p t q \<Longrightarrow> room q k"
  by (auto simp: adv_def intro: keeps_room)

lemma update_offset_wrote:
  assumes w: "wrote p t q" and n: "nulfree t"
  shows "\<exists>r. update_offset q = Some r \<and> adv p t r \<and> pdepth r = pdepth q"
proof -
  from w obtain b where b: "pbuffer q = Some b" "plength q \<le> length b" by (auto simp: wrote_def sound_def)
  define m where "m = poffset p + length t"
  from w have w': "take (m + 1) b = before p @ t @ [NUL]" "poffset q \<le> m" "poffset p \<le> poffset q" "m < plength q"
    by (auto simp: wrote_def b m_def)
  have lb: "length (before p) = poffset p"
  proof -
    have "length (before p @ t @ [NUL]) = m + 1" unfolding w'(1) [symmetric] using w'(4) b(2) by simp
    then show ?thesis by (simp add: m_def)
  qed
  define t' where "t' = drop (poffset q - poffset p) t"
  have "drop (poffset q) (take (m + 1) b) = t' @ [NUL]"
    unfolding w'(1) using lb w' by (simp add: t'_def m_def)
  moreover have "b = take (m + 1) b @ drop (m + 1) b" by simp
  ultimately have "drop (poffset q) b = t' @ NUL # drop (m + 1) b"
    using w' by (metis append.assoc append_Cons append_Nil append_take_drop_id drop_take take_drop
      add.commute le_add_diff_inverse2 trans_le_add1 drop_drop)
  moreover have "nulfree t'" using n by (auto simp: t'_def nulfree_def dest: in_set_dropD)
  ultimately have "strlen_at b (poffset q) = Some (length t')"
    using w' b by (simp add: strlen_at_def t'_def m_def)
  moreover have "poffset q + length t' = m" using w' by (simp add: t'_def m_def)
  ultimately have u: "update_offset q = Some (q\<lparr>poffset := m\<rparr>)" by (simp add: update_offset_def b)
  have "take m b = before p @ t"
  proof -
    have "take m (take (m + 1) b) = take m (before p @ t @ [NUL])" by (simp only: w'(1))
    then show ?thesis using lb by (simp add: m_def)
  qed
  then have "adv p t (q\<lparr>poffset := m\<rparr>)" using w w'
    by (auto simp: adv_def wrote_def before_def b sound_def m_def)
  with u show ?thesis by auto
qed

section \<open>Reserving space\<close>

definition grown :: "printbuffer \<Rightarrow> nat \<Rightarrow> printbuffer \<Rightarrow> bool" where
  "grown p n q \<longleftrightarrow> keeps p q \<and> sound q \<and> plength p \<le> plength q \<and> before q = before p \<and>
     poffset q = poffset p \<and> pdepth q = pdepth p \<and> poffset p + n < plength q"

text \<open>The buffer is too small and may grow; the two ways to do it.\<close>

definition must_grow :: "printbuffer \<Rightarrow> string \<Rightarrow> nat \<Rightarrow> bool" where
  "must_grow p b n \<longleftrightarrow> sound p \<and> pbuffer p = Some b \<and> \<not> noalloc p \<and> n \<le> INT_MAX_size \<and>
     plength p \<le> n + poffset p \<and> n + poffset p < INT_MAX_size"

lemma must_growD:
  assumes "must_grow p b n"
  shows "pbuffer p = Some b" "plength p \<le> length b" "poffset p < plength p \<or> plength p = 0 \<and> poffset p = 0 \<and> has_realloc (pmem p)"
    "\<not> (0 < plength p \<and> plength p \<le> poffset p)" "\<not> noalloc p" "plength p \<le> INT_MAX_size"
    "\<not> INT_MAX_size < n" "\<not> Suc (n + poffset p) \<le> plength p"
    "\<exists>l. (if INT_MAX_size div 2 < Suc (n + poffset p) then if Suc (n + poffset p) \<le> INT_MAX_size then Some INT_MAX_size else None
       else Some (Suc (n + poffset p) * 2)) = Some l \<and> n + poffset p < l \<and> l \<le> INT_MAX_size"
  using assms by (auto simp: must_grow_def sound_def)

lemma ensure_realloc:
  assumes g: "must_grow p b n" and r: "has_realloc (pmem p)"
  shows "\<exists>q. ensure p n = Some (None, q) \<and> keeps p q \<and> \<not> may_alloc (pmem p) (tries (pmem p)) \<or>
    ensure p n = Some (Some (poffset p), q) \<and> grown p n q"
proof -
  note b = must_growD [OF g]
  obtain l where l: "(if INT_MAX_size div 2 < Suc (n + poffset p) then if Suc (n + poffset p) \<le> INT_MAX_size then Some INT_MAX_size else None
       else Some (Suc (n + poffset p) * 2)) = Some l" "n + poffset p < l" "l \<le> INT_MAX_size" using b(9) by blast
  define m where "m = pmem p\<lparr>tries := tries (pmem p) + 1\<rparr>"
  have e: "ensure p n = (if \<not> may_alloc (pmem p) (tries (pmem p))
      then Some (None, p\<lparr>pmem := deallocate 1 m, plength := 0, pbuffer := None\<rparr>)
      else Some (Some (poffset p), p\<lparr>pmem := m, plength := l, pbuffer := Some (resized m b l)\<rparr>))"
    using b(5,7,8) r l(1) by (simp add: if_not_P [OF b(4)] ensure_def b(1) Let_def reallocate_def m_def)
  show ?thesis
  proof (cases "may_alloc (pmem p) (tries (pmem p))")
    case False
    then have "keeps p (p\<lparr>pmem := deallocate 1 m, plength := 0, pbuffer := None\<rparr>)"
      using b(1,5) by (auto simp: keeps_def held_def m_def same_hooks_def deallocate_def)
    with e False show ?thesis by auto
  next
    case True
    have "length (resized m b l) = l" "take (poffset p) (resized m b l) = take (poffset p) b"
      using b(2,3) l(2) by (auto simp: resized_def min_def)
    then have "grown p n (p\<lparr>pmem := m, plength := l, pbuffer := Some (resized m b l)\<rparr>)"
      using b(1,5,8) l(2,3) by (auto simp: grown_def keeps_def held_def m_def same_hooks_def sound_def before_def)
    with e True show ?thesis by auto
  qed
qed

lemma ensure_moves:
  assumes g: "must_grow p b n" and r: "\<not> has_realloc (pmem p)"
  shows "\<exists>q. ensure p n = Some (None, q) \<and> keeps p q \<and> \<not> may_alloc (pmem p) (tries (pmem p)) \<or>
    ensure p n = Some (Some (poffset p), q) \<and> grown p n q"
proof -
  note b = must_growD [OF g]
  have off: "poffset p < plength p" using b(3) r by blast
  obtain l where l: "(if INT_MAX_size div 2 < Suc (n + poffset p) then if Suc (n + poffset p) \<le> INT_MAX_size then Some INT_MAX_size else None
       else Some (Suc (n + poffset p) * 2)) = Some l" "n + poffset p < l" "l \<le> INT_MAX_size" using b(9) by blast
  obtain good m where al: "allocate (pmem p) = (good, m)" by fastforce
  note hk = allocate_hooks [OF al] and lv = allocate_live [OF al]
  have gd: "good = may_alloc (pmem p) (tries (pmem p))" using al by (auto simp: allocate_def split: if_splits)
  define nb where "nb = take (poffset p + 1) b @ drop (poffset p + 1) (fresh_block m l)"
  have lf: "length (fresh_block m l) = l" by (simp add: fresh_block_def)
  have cp: "blit (fresh_block m l) 0 (take (poffset p + 1) b) = Some nb"
    using off b(2) l(2) lf by (simp add: blit_def nb_def min_absorb2)
  have e: "ensure p n = (if \<not> good
      then Some (None, p\<lparr>pmem := deallocate 1 m, plength := 0, pbuffer := None\<rparr>)
      else Some (Some (poffset p), p\<lparr>pmem := deallocate 1 m, plength := l, pbuffer := Some nb\<rparr>))"
    using b(2,5,7,8) r l(1) off cp by (simp add: if_not_P [OF b(4)] ensure_def b(1) Let_def al)
  show ?thesis
  proof (cases good)
    case False
    then have "keeps p (p\<lparr>pmem := deallocate 1 m, plength := 0, pbuffer := None\<rparr>)"
      using b(1,5) hk lv by (auto simp: keeps_def held_def)
    with e False gd show ?thesis by auto
  next
    case True
    have "length nb = l" "take (poffset p) nb = take (poffset p) b"
      using off b(2) l(2) lf by (auto simp: nb_def min_def)
    then have "grown p n (p\<lparr>pmem := deallocate 1 m, plength := l, pbuffer := Some nb\<rparr>)"
      using b(1,5,8) l(2,3) True hk lv by (auto simp: grown_def keeps_def held_def sound_def before_def)
    with e True show ?thesis by auto
  qed
qed

lemma ensure_grows:
  assumes sp: "sound p"
  shows "\<exists>q. ensure p n = Some (None, q) \<and> keeps p q \<and> (\<forall>k. room p k \<longrightarrow> k < poffset p + n + 1) \<or>
    ensure p n = Some (Some (poffset p), q) \<and> grown p n q"
proof -
  from sp obtain b where b: "pbuffer p = Some b" "plength p \<le> INT_MAX_size" "\<not> (0 < plength p \<and> plength p \<le> poffset p)"
    by (auto simp: sound_def)
  consider (huge) "INT_MAX_size < n" | (fits) "n \<le> INT_MAX_size" "n + poffset p < plength p"
    | (refused) "n \<le> INT_MAX_size" "plength p \<le> n + poffset p" "noalloc p \<or> INT_MAX_size \<le> n + poffset p"
    | (grows) "must_grow p b n" using sp b(1) by (fastforce simp: must_grow_def)
  then show ?thesis
  proof cases
    case huge
    then show ?thesis using b by (auto simp: ensure_def room_def)
  next
    case fits
    then have "ensure p n = Some (Some (poffset p), p)" using b(3) by (simp add: ensure_def b(1))
    moreover have "grown p n p" using fits sp by (simp add: grown_def)
    ultimately show ?thesis by blast
  next
    case refused
    then have "ensure p n = Some (None, p)" using b(3) by (auto simp: ensure_def b(1))
    moreover have "\<forall>k. room p k \<longrightarrow> k < poffset p + n + 1" using refused b(2) by (auto simp: room_def)
    ultimately show ?thesis by auto
  next
    case grows
    have "k < poffset p + n + 1" if "room p k" "\<not> may_alloc (pmem p) (tries (pmem p))" for k
      using that grows by (auto simp: room_def must_grow_def)
    then show ?thesis using ensure_realloc [OF grows] ensure_moves [OF grows] by blast
  qed
qed

section \<open>Steps of the printer\<close>

text \<open>\<open>yields R d t p r\<close>: the run \<open>r\<close> from \<open>p\<close> is defined and keeps account of the buffer; if it
  reports success the text \<open>t\<close> exists, has been laid down in the sense of \<open>R\<close>, and the depth is
  \<open>d\<close>; and it does report success when there is room for the text and two bytes more.\<close>

definition yields ::
    "(printbuffer \<Rightarrow> string \<Rightarrow> printbuffer \<Rightarrow> bool) \<Rightarrow> nat \<Rightarrow> string option \<Rightarrow> printbuffer \<Rightarrow> printed \<Rightarrow> bool" where
  "yields R d t p r \<longleftrightarrow> (\<exists>ok q. r = Some (ok, q) \<and> keeps p q \<and>
     (ok \<longrightarrow> (\<exists>s. t = Some s \<and> R p s q \<and> pdepth q = d)) \<and>
     (\<forall>s k. t = Some s \<longrightarrow> room p k \<longrightarrow> poffset p + length s + 2 \<le> k \<longrightarrow> ok))"

lemma yieldsI:
  assumes "r = Some (True, q)" "t = Some s" "R p s q" "pdepth q = d" "keeps p q"
  shows "yields R d t p r"
  using assms by (auto simp: yields_def)

lemma yields_fail: "keeps p q \<Longrightarrow> yields R d None p (Some (False, q))"
  by (auto simp: yields_def)

lemma space_raw:
  assumes s: "sound p" and n: "\<And>s. t = Some s \<Longrightarrow> n \<le> length s + 1"
    and body: "\<And>q. grown p n q \<Longrightarrow> yields R d t p (body (poffset p) q)"
  shows "yields R d t p (with_space p n body)"
proof -
  obtain q where "ensure p n = Some (None, q) \<and> keeps p q \<and> (\<forall>k. room p k \<longrightarrow> k < poffset p + n + 1) \<or>
      ensure p n = Some (Some (poffset p), q) \<and> grown p n q"
    using ensure_grows [OF s] by blast
  then show ?thesis
  proof
    assume f: "ensure p n = Some (None, q) \<and> keeps p q \<and> (\<forall>k. room p k \<longrightarrow> k < poffset p + n + 1)"
    then have "with_space p n body = Some (False, q)" by (simp add: with_space_def)
    moreover have False if "t = Some s" "room p k" "poffset p + length s + 2 \<le> k" for s k
      using that f n [OF that(1)] by fastforce
    ultimately show ?thesis using f by (auto simp: yields_def)
  next
    assume "ensure p n = Some (Some (poffset p), q) \<and> grown p n q"
    then show ?thesis using body by (simp add: with_space_def)
  qed
qed

lemma length_before: "sound p \<Longrightarrow> length (before p) = poffset p"
  by (auto simp: sound_def before_def)

lemma store_grown:
  assumes g: "grown p n q" and p: "sound p" and w: "length w \<le> n + 1"
  obtains q' where "store q (poffset p) w = Some q'" "grown p n q'"
    "take (poffset p + length w) (the (pbuffer q')) = before p @ w"
    "pdepth q' = pdepth q" "poffset q' = poffset q" "pformat q' = pformat q"
proof -
  from g obtain b where b: "pbuffer q = Some b" "plength q \<le> length b" by (auto simp: grown_def sound_def)
  from g have o: "poffset p + n < plength q" "poffset q = poffset p" "before q = before p"
    by (auto simp: grown_def)
  define b' where "b' = take (poffset p) b @ w @ drop (poffset p + length w) b"
  have len: "length b' = length b" using o b w by (simp add: b'_def)
  have "store q (poffset p) w = Some (q\<lparr>pbuffer := Some b'\<rparr>)"
    using o b w by (simp add: store_def b'_def blit_in)
  moreover have bf: "take (poffset p) b = before p" using o b by (simp add: before_def)
  moreover have "take (poffset p + length w) b' = before p @ w"
    using bf length_before [OF p] by (simp add: b'_def)
  moreover have "grown p n (q\<lparr>pbuffer := Some b'\<rparr>)"
    using g b len bf length_before [OF p] o
    by (auto simp: grown_def sound_def before_def keeps_def held_def b'_def)
  ultimately show ?thesis using that by simp
qed

lemma grown_adv:
  assumes g: "grown p n q" and w: "take (poffset p + length w) (the (pbuffer q)) = before p @ w"
    and s: "length s \<le> n" "w = s @ z" and p: "sound p"
  shows "adv p s (q\<lparr>poffset := poffset p + length s\<rparr>)"
proof -
  have "take (poffset p + length s) (take (poffset p + length w) (the (pbuffer q))) =
      take (poffset p + length s) (before p @ w)" by (simp only: w)
  then have "take (poffset p + length s) (the (pbuffer q)) = before p @ s"
    using length_before [OF p] s by (simp add: min_def)
  then show ?thesis using g s by (auto simp: adv_def grown_def sound_def before_def)
qed

lemma grown_wrote:
  assumes g: "grown p n q" and w: "take (poffset p + length s + 1) (the (pbuffer q)) = before p @ s @ [NUL]"
    and s: "length s \<le> n" and k: "poffset p \<le> k" "k \<le> poffset p + length s"
  shows "wrote p s (q\<lparr>poffset := k\<rparr>)"
  using assms by (auto simp: wrote_def grown_def sound_def)

text \<open>The body sees the format, the depth and the offset that were there before.\<close>

lemma ensure_same:
  assumes "ensure p n = Some (r, q)"
  shows "pformat q = pformat p" "pdepth q = pdepth p" "poffset q = poffset p"
  using assms by (auto simp: ensure_def Let_def split: option.splits if_splits prod.splits)

lemma with_space_cong:
  assumes "\<And>i q. pformat q = pformat p \<Longrightarrow> pdepth q = pdepth p \<Longrightarrow> poffset q = poffset p \<Longrightarrow> body i q = body' i q"
  shows "with_space p n body = with_space p n body'"
proof (cases "ensure p n")
  case (Some x)
  obtain r q where x: "x = (r, q)" by fastforce
  show ?thesis using assms ensure_same [OF Some [unfolded x]]
    by (simp add: with_space_def Some x split: option.splits)
qed (simp add: with_space_def)

text \<open>Writing a piece of text and moving past it, before the rest.\<close>

lemma space_then:
  assumes p: "sound p" and w: "w = s @ z" "length w \<le> n + 1" "length s \<le> n" "n \<le> length s + 1"
    and R: "\<And>q r u. adv p s q \<Longrightarrow> R q u r \<Longrightarrow> R p (s @ u) r"
    and rest: "\<And>q. adv p s (q\<lparr>poffset := poffset p + length s\<rparr>) \<Longrightarrow> pdepth q = pdepth p \<Longrightarrow> poffset q = poffset p \<Longrightarrow>
      pformat q = pformat p \<Longrightarrow> yields R d u (q\<lparr>poffset := poffset p + length s\<rparr>) (g q)"
  shows "yields R d (map_option ((@) s) u) p (with_space p n (\<lambda>i q. do { q \<leftarrow> store q i w; g q }))"
proof (rule space_raw [OF p])
  show "n \<le> length t + 1" if "map_option ((@) s) u = Some t" for t using that w by auto
  fix q assume gr: "grown p n q"
  obtain q' where q': "store q (poffset p) w = Some q'" "grown p n q'"
    "take (poffset p + length w) (the (pbuffer q')) = before p @ w" "pdepth q' = pdepth q"
    "poffset q' = poffset q" "pformat q' = pformat q"
    using store_grown [OF gr p w(2)] by blast
  define q2 where "q2 = q'\<lparr>poffset := poffset p + length s\<rparr>"
  have a: "adv p s q2" unfolding q2_def by (rule grown_adv [OF q'(2,3) w(3,1) p])
  have "yields R d u q2 (g q')" unfolding q2_def
    using a gr q' by (intro rest) (auto simp: q2_def grown_def keeps_def)
  then obtain ok r where r: "g q' = Some (ok, r)" "keeps q2 r"
    "ok \<longrightarrow> (\<exists>s. u = Some s \<and> R q2 s r \<and> pdepth r = d)"
    "\<forall>s k. u = Some s \<longrightarrow> room q2 k \<longrightarrow> poffset q2 + length s + 2 \<le> k \<longrightarrow> ok"
    by (auto simp: yields_def)
  have "keeps p r" using a r(2) by (auto simp: adv_def intro: keeps_trans)
  then show "yields R d (map_option ((@) s) u) p (do { q \<leftarrow> store q (poffset p) w; g q })"
  proof -
    have run: "do { q \<leftarrow> store q (poffset p) w; g q } = Some (ok, r)" using q'(1) r(1) by simp
    have good: "\<exists>x. map_option ((@) s) u = Some x \<and> R p x r \<and> pdepth r = d" if ok
      using that r(3) R [OF a] by auto
    have enough: ok if "map_option ((@) s) u = Some x" "room p k" "poffset p + length x + 2 \<le> k" for x k
    proof -
      from that(1) obtain b where b: "u = Some b" "x = s @ b" by (cases u) auto
      with that(3) have "poffset q2 + length b + 2 \<le> k" by (simp add: q2_def)
      with r(4) b(1) adv_room [OF that(2) a] show ?thesis by blast
    qed
    show ?thesis unfolding yields_def using run \<open>keeps p r\<close> good enough by blast
  qed
qed

lemma space_adv:
  assumes p: "sound p" and w: "w = s @ z" "length w \<le> n + 1" "length s \<le> n" "n \<le> length s + 1"
    and g: "\<And>q. poffset q = poffset p \<Longrightarrow> pdepth q = pdepth p \<Longrightarrow>
      g q = Some (True, q\<lparr>poffset := poffset p + length s\<rparr>)"
  shows "yields adv (pdepth p) (Some s) p (with_space p n (\<lambda>i q. do { q \<leftarrow> store q i w; g q }))"
proof -
  have "yields adv (pdepth p) (map_option ((@) s) (Some [])) p (with_space p n (\<lambda>i q. do { q \<leftarrow> store q i w; g q }))"
  proof (rule space_then [OF p w])
    fix q assume q: "adv p s (q\<lparr>poffset := poffset p + length s\<rparr>)" "pdepth q = pdepth p" "poffset q = poffset p"
    have "adv (q\<lparr>poffset := poffset p + length s\<rparr>) [] (q\<lparr>poffset := poffset p + length s\<rparr>)"
      by (rule adv_refl) (use q in \<open>simp add: adv_def\<close>)
    then show "yields adv (pdepth p) (Some []) (q\<lparr>poffset := poffset p + length s\<rparr>) (g q)"
      using q g by (intro yieldsI [where q = "q\<lparr>poffset := poffset p + length s\<rparr>" and s = "[]"]) auto
  qed (rule adv_trans)
  then show ?thesis by simp
qed

lemma space_wrote:
  assumes p: "sound p" and s: "length s \<le> n" "n \<le> length s + 1"
    and g: "\<And>q. poffset q = poffset p \<Longrightarrow> pdepth q = pdepth p \<Longrightarrow> \<exists>k d'. g q = Some (True, q\<lparr>poffset := k, pdepth := d\<rparr>) \<and>
      poffset p \<le> k \<and> k \<le> poffset p + length s"
  shows "yields wrote d (Some s) p (with_space p n (\<lambda>i q. do { q \<leftarrow> store q i (s @ [NUL]); g q }))"
proof (rule space_raw [OF p])
  show "n \<le> length t + 1" if "Some s = Some t" for t using that s by simp
  fix q assume gr: "grown p n q"
  obtain q' where q': "store q (poffset p) (s @ [NUL]) = Some q'" "grown p n q'"
    "take (poffset p + length (s @ [NUL])) (the (pbuffer q')) = before p @ s @ [NUL]" "pdepth q' = pdepth q"
    "poffset q' = poffset q"
    using store_grown [OF gr p, of "s @ [NUL]"] s by auto
  obtain k d' where k: "g q' = Some (True, q'\<lparr>poffset := k, pdepth := d\<rparr>)" "poffset p \<le> k" "k \<le> poffset p + length s"
    using g [of q'] q' gr by (auto simp: grown_def)
  have "wrote p s (q'\<lparr>poffset := k\<rparr>)" using q' s k by (intro grown_wrote) auto
  then show "yields wrote d (Some s) p (do { q \<leftarrow> store q (poffset p) (s @ [NUL]); g q })"
    using q'(1) k by (intro yieldsI [where q = "q'\<lparr>poffset := k, pdepth := d\<rparr>"]) (auto simp: wrote_def)
qed

lemma space_text: "sound p \<Longrightarrow> n = length s + 1 \<Longrightarrow>
    yields wrote (pdepth p) (Some s) p (with_space p n (store_text (s @ [NUL])))"
proof -
  assume "sound p" "n = length s + 1"
  then have "yields wrote (pdepth p) (Some s) p (with_space p n (\<lambda>i q. do { q \<leftarrow> store q i (s @ [NUL]); Some (True, q) }))"
  proof (intro space_wrote)
    fix q assume "poffset q = poffset p" "pdepth q = pdepth p"
    then have "q = q\<lparr>poffset := poffset p, pdepth := pdepth p\<rparr>" by simp
    then show "\<exists>k d'. Some (True, q) = Some (True, q\<lparr>poffset := k, pdepth := pdepth p\<rparr>) \<and>
      poffset p \<le> k \<and> k \<le> poffset p + length s" by auto
  qed auto
  then show ?thesis by (simp add: store_text_def [abs_def])
qed

text \<open>One run after another.\<close>

definition both :: "string option \<Rightarrow> string option \<Rightarrow> string option" where
  "both s t = do { a \<leftarrow> s; b \<leftarrow> t; Some (a @ b) }"

lemma both_simps [simp]: "both (Some s) t = map_option ((@) s) t" "both None t = None"
  "both t None = None"
  by (cases t; simp add: both_def)+

lemma yields_then:
  assumes r: "yields adv d s p r"
    and R: "\<And>q r t u. adv p t q \<Longrightarrow> R q u r \<Longrightarrow> R p (t @ u) r"
    and g: "\<And>q t. s = Some t \<Longrightarrow> adv p t q \<Longrightarrow> pdepth q = d \<Longrightarrow> yields R d' u q (g q)"
  shows "yields R d' (both s u) p (do { (ok, q) \<leftarrow> r; if \<not> ok then Some (False, q) else g q })"
proof -
  from r obtain ok q where q: "r = Some (ok, q)" "keeps p q" "ok \<longrightarrow> (\<exists>t. s = Some t \<and> adv p t q \<and> pdepth q = d)"
    "\<forall>t k. s = Some t \<longrightarrow> room p k \<longrightarrow> poffset p + length t + 2 \<le> k \<longrightarrow> ok"
    by (auto simp: yields_def)
  show ?thesis
  proof (cases ok)
    case False
    have no: False if "both s u = Some w" "room p k" "poffset p + length w + 2 \<le> k" for w k
    proof -
      from that(1) obtain a b where ab: "s = Some a" "u = Some b" "w = a @ b" by (auto simp: both_def)
      with that(3) have "poffset p + length a + 2 \<le> k" by simp
      with q(4) ab(1) that(2) False show False by blast
    qed
    have "do { (ok, q) \<leftarrow> r; if \<not> ok then Some (False, q) else g q } = Some (False, q)"
      using q(1) False by simp
    with no q(2) show ?thesis unfolding yields_def by blast
  next
    case True
    with q(3) obtain t where t: "s = Some t" "adv p t q" "pdepth q = d" by blast
    from g [OF t] obtain ok' w where w: "g q = Some (ok', w)" "keeps q w"
      "ok' \<longrightarrow> (\<exists>s. u = Some s \<and> R q s w \<and> pdepth w = d')"
      "\<forall>s k. u = Some s \<longrightarrow> room q k \<longrightarrow> poffset q + length s + 2 \<le> k \<longrightarrow> ok'"
      by (auto simp: yields_def)
    have off: "poffset q = poffset p + length t" using t(2) by (simp add: adv_def)
    have kp: "keeps p w" using q(2) w(2) by (rule keeps_trans)
    have run: "do { (ok, q) \<leftarrow> r; if \<not> ok then Some (False, q) else g q } = Some (ok', w)"
      using q(1) True w(1) by simp
    have good: "\<exists>s. both (Some t) u = Some s \<and> R p s w \<and> pdepth w = d'" if ok'
      using that w(3) R [OF t(2)] by auto
    have enough: ok' if "both (Some t) u = Some x" "room p k" "poffset p + length x + 2 \<le> k" for x k
    proof -
      from that(1) obtain b where b: "u = Some b" "x = t @ b" by (cases u) auto
      with that(3) off have "poffset q + length b + 2 \<le> k" by simp
      with w(4) b(1) adv_room [OF that(2) t(2)] show ?thesis by blast
    qed
    show ?thesis unfolding yields_def t(1) using run kp good enough by blast
  qed
qed

lemma yields_update:
  assumes r: "yields wrote d s p r" and n: "\<And>t. s = Some t \<Longrightarrow> nulfree t"
  shows "yields adv d s p (do { (ok, q) \<leftarrow> r; if \<not> ok then Some (False, q)
    else do { q \<leftarrow> update_offset q; Some (True, q) } })"
proof -
  from r obtain ok q where q: "r = Some (ok, q)" "keeps p q" "ok \<longrightarrow> (\<exists>t. s = Some t \<and> wrote p t q \<and> pdepth q = d)"
    "\<forall>t k. s = Some t \<longrightarrow> room p k \<longrightarrow> poffset p + length t + 2 \<le> k \<longrightarrow> ok"
    by (auto simp: yields_def)
  show ?thesis
  proof (cases ok)
    case False
    with q show ?thesis by (auto simp: yields_def)
  next
    case True
    with q(3) obtain t where t: "s = Some t" "wrote p t q" "pdepth q = d" by blast
    obtain w where w: "update_offset q = Some w" "adv p t w" "pdepth w = pdepth q"
      using update_offset_wrote [OF t(2) n [OF t(1)]] by blast
    show ?thesis using q(1) True w t by (intro yieldsI) (auto simp: adv_def)
  qed
qed

lemma update_assoc:
  "(do { (ok, q) \<leftarrow> r; if \<not> ok then Some (False, q) else do { q \<leftarrow> update_offset q; g q } }) =
   (do { (ok, q) \<leftarrow> (do { (ok, q) \<leftarrow> r; if \<not> ok then Some (False, q)
      else do { q \<leftarrow> update_offset q; Some (True, q) } }); if \<not> ok then Some (False, q) else g q })"
  by (cases r) (auto split: option.splits)

section \<open>Strings\<close>

lemma length_escape: "length (concat (map escape s)) = length s + sum_list (map escape_extra s)"
proof (induction s)
  case (Cons c s)
  have "length (escape c) = 1 + escape_extra c"
    by (auto simp: escape_def escape_extra_def escape_letter_def hex_escape_def split: option.splits)
  with Cons show ?case by simp
qed simp

lemma no_escapes: "sum_list (map escape_extra s) = 0 \<Longrightarrow> concat (map escape s) = s"
proof (induction s)
  case (Cons c s)
  from Cons(2) have z: "escape_extra c = 0" "sum_list (map escape_extra s) = 0" by simp_all
  have l: "escape_letter c = None" "31 < ord c" using z(1) by (auto simp: escape_extra_def split: if_splits)
  have "c \<noteq> CHR 0x22" "c \<noteq> CHR 0x5C" using l(1) by (auto simp: escape_letter_def)
  then have "escape c = [c]" using l by (simp add: escape_def)
  with Cons(1) z(2) show ?case by simp
qed simp

lemma blit_prefix:
  assumes "take i b = x" "i + length w \<le> length b"
  shows "\<exists>b'. blit b i w = Some b' \<and> length b' = length b \<and> take (i + length w) b' = x @ w"
proof -
  have "length x = i" using assms by auto
  then show ?thesis using assms by (auto simp: blit_def)
qed

lemma store_prefix:
  assumes "pbuffer p = Some b" "take i b = x" "i + length w \<le> length b"
  shows "\<exists>b'. store p i w = Some (p\<lparr>pbuffer := Some b'\<rparr>) \<and> length b' = length b \<and> take (i + length w) b' = x @ w"
  using blit_prefix [OF assms(2,3)] assms(1) by (auto simp: store_def)

lemma take_prefix: "take (i + n) b = x @ w \<Longrightarrow> length x = i \<Longrightarrow> j \<le> length w \<Longrightarrow> take (i + j) b = x @ take j w"
proof -
  assume a: "take (i + n) b = x @ w" "length x = i" "j \<le> length w"
  have "length (x @ w) \<le> i + n" using a(1) by (metis length_take min.cobounded2)
  with a(2,3) have "j \<le> n" by simp
  then have "take (i + j) b = take (i + j) (take (i + n) b)" by simp
  also have "\<dots> = x @ take j w" using a by simp
  finally show ?thesis .
qed

lemma copy_escaped_text:
  assumes "pbuffer p = Some b" "take i b = x" "i + length (concat (map escape cs)) + 1 \<le> length b"
  shows "\<exists>b'. copy_escaped cs i p = Some (p\<lparr>pbuffer := Some b'\<rparr>) \<and> length b' = length b \<and>
    take (i + length (concat (map escape cs))) b' = x @ concat (map escape cs)"
  using assms
proof (induction cs arbitrary: i p b x)
  case Nil
  then have "p = p\<lparr>pbuffer := Some b\<rparr>" by simp
  with Nil show ?case by (intro exI [of _ b]) simp
next
  case (Cons c cs)
  have lx: "length x = i" using Cons(3,4) by auto
  have step: ?case if pc: "copy_escaped (c # cs) i p = copy_escaped cs (i + length (escape c)) (p\<lparr>pbuffer := Some b1\<rparr>)"
    "take (i + length (escape c)) b1 = x @ escape c" "length b1 = length b" for b1
  proof -
    have "i + length (escape c) + length (concat (map escape cs)) + 1 \<le> length b1"
      using Cons(4) pc(3) by simp
    with Cons.IH [of "p\<lparr>pbuffer := Some b1\<rparr>" b1 "i + length (escape c)" "x @ escape c"] pc(2) obtain b' where
      "copy_escaped cs (i + length (escape c)) (p\<lparr>pbuffer := Some b1\<rparr>) = Some (p\<lparr>pbuffer := Some b'\<rparr>)"
      "length b' = length b1" "take (i + length (escape c) + length (concat (map escape cs))) b' =
        (x @ escape c) @ concat (map escape cs)" by auto
    then show ?thesis unfolding pc(1) using pc(3) by (intro exI [of _ b']) (simp add: add.assoc)
  qed
  show ?case
  proof (cases "31 < ord c \<and> c \<noteq> CHR 0x22 \<and> c \<noteq> CHR 0x5C")
    case plain: True
    then have e: "escape c = [c]" by (simp add: escape_def)
    obtain b1 where b1: "store p i [c] = Some (p\<lparr>pbuffer := Some b1\<rparr>)" "length b1 = length b"
      "take (i + length [c]) b1 = x @ [c]"
      using store_prefix [OF Cons(2,3), of "[c]"] Cons(4) e by auto
    show ?thesis by (rule step [of b1]) (use plain b1 in \<open>simp_all add: e\<close>)
  next
    case special: False
    have l1: "i + 1 + 1 \<le> length b"
      using Cons(4) special by (simp add: escape_def split: option.splits)
    obtain b1 where b1: "store p i [CHR 0x5C] = Some (p\<lparr>pbuffer := Some b1\<rparr>)" "length b1 = length b"
      "take (i + length [CHR 0x5C]) b1 = x @ [CHR 0x5C]"
      using store_prefix [OF Cons(2,3), of "[CHR 0x5C]"] l1 by auto
    let ?p1 = "p\<lparr>pbuffer := Some b1\<rparr>"
    show ?thesis
    proof (cases "escape_letter c")
      case (Some e)
      obtain b2 where b2: "store ?p1 (i + 1) [e] = Some (p\<lparr>pbuffer := Some b2\<rparr>)" "length b2 = length b1"
        "take (i + 1 + length [e]) b2 = (x @ [CHR 0x5C]) @ [e]"
        using store_prefix [of ?p1 b1 "i + 1" "x @ [CHR 0x5C]" "[e]"] b1 l1 by auto
      have ec: "escape c = [CHR 0x5C, e]" using special Some by (simp add: escape_def)
      show ?thesis
        by (rule step [of b2]) (use b1 b2 Some in \<open>simp_all add: ec if_not_P [OF special]\<close>)
    next
      case None
      have ec: "escape c = CHR 0x5C # hex_escape c" using special None by (simp add: escape_def)
      have lh: "length (hex_escape c) = 5" by (simp add: hex_escape_def)
      have l6: "i + 1 + length (hex_escape c @ [NUL]) \<le> length b1"
        using Cons(4) b1(2) lh by (simp add: ec)
      obtain b2 where b2: "store ?p1 (i + 1) (hex_escape c @ [NUL]) = Some (p\<lparr>pbuffer := Some b2\<rparr>)"
        "length b2 = length b1"
        "take (i + 1 + length (hex_escape c @ [NUL])) b2 = (x @ [CHR 0x5C]) @ (hex_escape c @ [NUL])"
        using store_prefix [of ?p1 b1 "i + 1" "x @ [CHR 0x5C]" "hex_escape c @ [NUL]"] b1 l6 by auto
      have "take (i + 1 + 5) b2 = (x @ [CHR 0x5C]) @ take 5 (hex_escape c @ [NUL])"
        by (rule take_prefix [OF b2(3)]) (use lx lh in simp_all)
      then have t6: "take (i + 6) b2 = x @ escape c" and le: "length (escape c) = 6"
        using lh by (simp_all add: ec add.commute [of 6 i])
      show ?thesis
        by (rule step [of b2]) (use b1 b2 None t6 in \<open>simp_all add: le if_not_P [OF special]\<close>)
    qed
  qed
qed

lemma quote_empty: "quote [] = [CHR 0x22, CHR 0x22]"
  by (simp add: quote_def)

lemma grown_text_wrote:
  assumes g: "grown p n q" and p: "sound p" and s: "length s \<le> n"
    and b: "take (poffset p + length s + 1) b' = before p @ s @ [NUL]" "length b' = length (the (pbuffer q))"
  shows "wrote p s (q\<lparr>pbuffer := Some b'\<rparr>)"
proof -
  have "take (poffset p) (take (poffset p + length s + 1) b') = before p"
    unfolding b(1) using length_before [OF p] by simp
  then have "take (poffset p) b' = before p" by (simp add: min_def)
  then have "grown p n (q\<lparr>pbuffer := Some b'\<rparr>)"
    using g b(2) by (auto simp: grown_def sound_def before_def keeps_def held_def)
  then have "wrote p s ((q\<lparr>pbuffer := Some b'\<rparr>)\<lparr>poffset := poffset p\<rparr>)"
    using b s by (intro grown_wrote) auto
  moreover have "(q\<lparr>pbuffer := Some b'\<rparr>)\<lparr>poffset := poffset p\<rparr> = q\<lparr>pbuffer := Some b'\<rparr>"
    using g by (simp add: grown_def)
  ultimately show ?thesis by simp
qed

lemma print_string_yields:
  assumes p: "sound p"
  shows "yields wrote (pdepth p) (Some (quote (text_of s))) p (print_string_ptr s p)"
proof (cases s)
  case None
  then show ?thesis using space_text [OF p, of 3 "quote []"]
    by (simp add: print_string_ptr_def text_of_def quote_empty)
next
  case (Some v)
  define len where "len = length v + sum_list (map escape_extra v)"
  have len: "length (quote v) = len + 2" by (simp add: quote_def len_def length_escape [symmetric])
  show ?thesis
  proof (cases "sum_list (map escape_extra v) = 0")
    case True
    then have q: "quote v @ [NUL] = CHR 0x22 # v @ [CHR 0x22, NUL]" by (simp add: quote_def no_escapes)
    from True have "print_string_ptr s p = with_space p (len + 3) (store_text (quote v @ [NUL]))"
      unfolding print_string_ptr_def Some q by (simp add: Let_def len_def)
    with space_text [OF p, of "len + 3" "quote v"] len show ?thesis by (simp add: Some text_of_def)
  next
    case False
    have ps: "print_string_ptr (Some v) p = with_space p (len + 3) (\<lambda>i q. do {
              q \<leftarrow> store q i [CHR 0x22];
              q \<leftarrow> copy_escaped v (i + 1) q;
              q \<leftarrow> store q (i + len + 1) [CHR 0x22];
              q \<leftarrow> store q (i + len + 2) [NUL];
              Some (True, q) })"
      by (simp only: print_string_ptr_def option.case Let_def if_not_P [OF False] len_def)
    let ?o = "poffset p"
    show ?thesis unfolding Some ps text_of_def option.case
    proof (rule space_raw [OF p])
      show "len + 3 \<le> length t + 1" if "Some (quote v) = Some t" for t using that len by auto
      fix q assume g: "grown p (len + 3) q"
      then obtain b where b: "pbuffer q = Some b" "plength q \<le> length b" by (auto simp: grown_def sound_def)
      have big: "?o + len + 3 < length b" using g b by (simp add: grown_def)
      have bf: "take ?o b = before p" using g b by (auto simp: grown_def before_def)
      have esc: "length (concat (map escape v)) = len" by (simp add: len_def length_escape)
      obtain b1 where b1: "store q ?o [CHR 0x22] = Some (q\<lparr>pbuffer := Some b1\<rparr>)" "length b1 = length b"
        "take (?o + 1) b1 = before p @ [CHR 0x22]"
        using store_prefix [OF b(1) bf, of "[CHR 0x22]"] big by auto
      obtain b2 where b2: "copy_escaped v (?o + 1) (q\<lparr>pbuffer := Some b1\<rparr>) = Some (q\<lparr>pbuffer := Some b2\<rparr>)"
        "length b2 = length b" "take (?o + 1 + len) b2 = (before p @ [CHR 0x22]) @ concat (map escape v)"
        using copy_escaped_text [of "q\<lparr>pbuffer := Some b1\<rparr>" b1 "?o + 1" "before p @ [CHR 0x22]" v] b1 big esc
        by auto
      obtain b3 where b3: "store (q\<lparr>pbuffer := Some b2\<rparr>) (?o + 1 + len) [CHR 0x22] = Some (q\<lparr>pbuffer := Some b3\<rparr>)"
        "length b3 = length b" "take (?o + 1 + len + 1) b3 = ((before p @ [CHR 0x22]) @ concat (map escape v)) @ [CHR 0x22]"
        using store_prefix [of "q\<lparr>pbuffer := Some b2\<rparr>" b2, OF _ b2(3), of "[CHR 0x22]"] b2(2) big by auto
      obtain b4 where b4: "store (q\<lparr>pbuffer := Some b3\<rparr>) (?o + 1 + len + 1) [NUL] = Some (q\<lparr>pbuffer := Some b4\<rparr>)"
        "length b4 = length b" "take (?o + 1 + len + 1 + 1) b4 =
          (((before p @ [CHR 0x22]) @ concat (map escape v)) @ [CHR 0x22]) @ [NUL]"
        using store_prefix [of "q\<lparr>pbuffer := Some b3\<rparr>" b3, OF _ b3(3), of "[NUL]"] b3(2) big by auto
      have idx: "?o + len + 1 = ?o + 1 + len" "?o + len + 2 = ?o + 1 + len + 1" by simp_all
      have "take (?o + length (quote v) + 1) b4 = before p @ quote v @ [NUL]"
        using b4(3) len by (simp add: quote_def add.commute)
      then have w: "wrote p (quote v) (q\<lparr>pbuffer := Some b4\<rparr>)"
        using grown_text_wrote [OF g p, of "quote v" b4] len b4(2) b by simp
      have run: "do {
              q \<leftarrow> store q ?o [CHR 0x22];
              q \<leftarrow> copy_escaped v (?o + 1) q;
              q \<leftarrow> store q (?o + len + 1) [CHR 0x22];
              q \<leftarrow> store q (?o + len + 2) [NUL];
              Some (True, q) } = Some (True, q\<lparr>pbuffer := Some b4\<rparr>)"
        unfolding idx by (simp only: b1(1) b2(1) b3(1) b4(1) Option.bind.bind_lunit)
      show "yields wrote (pdepth p) (Some (quote v)) p (do {
              q \<leftarrow> store q ?o [CHR 0x22];
              q \<leftarrow> copy_escaped v (?o + 1) q;
              q \<leftarrow> store q (?o + len + 1) [CHR 0x22];
              q \<leftarrow> store q (?o + len + 2) [NUL];
              Some (True, q) })"
        by (rule yieldsI [where R = wrote, OF run refl w]) (use w g in \<open>auto simp: wrote_def grown_def\<close>)
    qed
  qed
qed

section \<open>Keys and separators\<close>

lemma print_separator_yields:
  assumes "sound p"
  shows "yields adv (pdepth p) (Some (if b then if pformat p then '', '' else '','' else [])) p
    (print_separator b p)"
proof (cases b)
  case True
  define s where "s = (if pformat p then '', '' else '','')"
  have "yields adv (pdepth p) (Some s) p (with_space p (length s + 1) (\<lambda>i q. do {
      q \<leftarrow> store q i (s @ [NUL]); Some (True, q\<lparr>poffset := poffset q + length s\<rparr>) }))"
    by (rule space_adv [OF assms refl]) simp_all
  also have "with_space p (length s + 1) (\<lambda>i q. do {
      q \<leftarrow> store q i (s @ [NUL]); Some (True, q\<lparr>poffset := poffset q + length s\<rparr>) }) = print_separator b p"
    using True unfolding print_separator_def
    by (simp add: s_def numeral_eq_Suc) (auto intro!: with_space_cong)
  finally show ?thesis using True by (simp add: s_def)
next
  case False
  then show ?thesis using adv_refl [OF assms]
    by (intro yieldsI [where R = adv]) (auto simp: print_separator_def)
qed

lemma print_member_end_yields:
  assumes "sound p"
  shows "yields adv (pdepth p) (Some ((if b then '','' else []) @ (if pformat p then [CHR 0x0A] else []))) p
    (print_member_end b p)"
proof -
  define s where "s = (if b then '','' else []) @ (if pformat p then [CHR 0x0A] else [])"
  have "yields adv (pdepth p) (Some s) p (with_space p (length s + 1) (\<lambda>i q. do {
      q \<leftarrow> store q i (s @ [NUL]); Some (True, q\<lparr>poffset := poffset q + length s\<rparr>) }))"
    by (rule space_adv [OF assms refl]) simp_all
  also have "with_space p (length s + 1) (\<lambda>i q. do {
      q \<leftarrow> store q i (s @ [NUL]); Some (True, q\<lparr>poffset := poffset q + length s\<rparr>) }) = print_member_end b p"
    unfolding print_member_end_def by (simp add: s_def) (auto intro!: with_space_cong)
  finally show ?thesis by (simp add: s_def)
qed

definition key_text :: "bool \<Rightarrow> nat \<Rightarrow> string option \<Rightarrow> string" where
  "key_text fmt d name = (if fmt then tabs d else []) @ quote (text_of name) @
     (if fmt then [CHR '':'', CHR 0x09] else '':'')"

lemma byte_bound: "ord c < 256"
  by (rule nat_of_char_less_256)

lemma nulfree_quote: "nulfree s \<Longrightarrow> nulfree (quote s)"
proof -
  have h: "hex_digit n \<noteq> NUL" if "n < 16" for n
  proof -
    have "ord (hex_digit n) \<noteq> 0" using that by (simp add: hex_digit_def del: ord_NUL)
    then show ?thesis by (simp only: ord_NUL not_False_eq_True)
  qed
  have l: "nulfree [e]" if "escape_letter c = Some e" for c e
    using that by (auto simp: escape_letter_def split: if_splits)
  have x: "nulfree (hex_escape c)" for c
    using h [of "ord c div 16"] h [of "ord c mod 16"] less_mult_imp_div_less [of "ord c" 16 16] byte_bound [of c]
    by (simp add: hex_escape_def)
  have "nulfree (escape c)" if "c \<noteq> NUL" for c
  proof (cases "escape_letter c")
    case None
    then show ?thesis using that x [of c] by (simp add: escape_def)
  next
    case (Some e)
    then show ?thesis using that l [OF Some] by (simp add: escape_def)
  qed
  then have "nulfree s \<Longrightarrow> nulfree (concat (map escape s))" by (induction s) simp_all
  then show "nulfree s \<Longrightarrow> nulfree (quote s)" by (simp add: quote_def)
qed

lemma length_tabs [simp]: "length (tabs n) = n"
  by (simp add: tabs_def)

lemma adv_format: "adv p t q \<Longrightarrow> pformat q = pformat p"
  by (simp add: adv_def keeps_def)

lemma print_key_yields:
  assumes p: "sound p" and n: "nulfree (text_of name)"
  shows "yields adv (pdepth p) (Some (key_text (pformat p) (pdepth p) name)) p (print_key name p)"
proof -
  define colon where "colon = (if pformat p then [CHR '':'', CHR 0x09] else '':'')"
  define ind where "ind = (if pformat p then tabs (pdepth p) else [])"
  define run where "run = (if pformat p
       then with_space p (pdepth p) (\<lambda>i p. do {
         p \<leftarrow> store p i (tabs (pdepth p));
         Some (True, p\<lparr>poffset := poffset p + pdepth p\<rparr>) })
       else Some (True, p))"
  have first: "yields adv (pdepth p) (Some ind) p run"
  proof (cases "pformat p")
    case True
    have "yields adv (pdepth p) (Some ind) p (with_space p (pdepth p) (\<lambda>i q. do {
         q \<leftarrow> store q i ind; Some (True, q\<lparr>poffset := poffset q + pdepth q\<rparr>) }))"
      by (rule space_adv [OF p, of _ _ "[]"]) (simp_all add: ind_def True)
    also have "with_space p (pdepth p) (\<lambda>i q. do {
         q \<leftarrow> store q i ind; Some (True, q\<lparr>poffset := poffset q + pdepth q\<rparr>) }) = run"
      by (simp add: run_def True ind_def) (auto intro!: with_space_cong)
    finally show ?thesis .
  next
    case False
    then show ?thesis using adv_refl [OF p]
      by (intro yieldsI [where R = adv]) (auto simp: run_def ind_def)
  qed
  have rest: "yields adv (pdepth q) (both (Some (quote (text_of name))) (Some colon)) q
     (do { (ok, r) \<leftarrow> print_string_ptr name q; if \<not> ok then Some (False, r)
           else do { r \<leftarrow> update_offset r;
             let len = (if pformat r then 2 else 1);
             with_space r len (\<lambda>i p. do {
               p \<leftarrow> store p i (if pformat p then [CHR '':'', CHR 0x09] else '':'');
               Some (True, p\<lparr>poffset := poffset p + len\<rparr>) }) } })" if q: "adv p ind q" for q
  proof (subst update_assoc, rule yields_then [OF yields_update [OF print_string_yields]])
    show "sound q" using q by (rule adv_sound)
    show "nulfree t" if "Some (quote (text_of name)) = Some t" for t using that nulfree_quote [OF n] by simp
    fix r t assume r: "adv q t r" "pdepth r = pdepth q"
    have fm: "pformat r = pformat p" using adv_format [OF q] adv_format [OF r(1)] by simp
    have "yields adv (pdepth r) (Some colon) r (with_space r (length colon) (\<lambda>i p. do {
               p \<leftarrow> store p i colon; Some (True, p\<lparr>poffset := poffset p + length colon\<rparr>) }))"
      by (rule space_adv [OF adv_sound(1) [OF r(1)], of _ _ "[]"]) simp_all
    also have "with_space r (length colon) (\<lambda>i p. do {
               p \<leftarrow> store p i colon; Some (True, p\<lparr>poffset := poffset p + length colon\<rparr>) }) =
       (let len = (if pformat r then 2 else 1) in
             with_space r len (\<lambda>i p. do {
               p \<leftarrow> store p i (if pformat p then [CHR '':'', CHR 0x09] else '':'');
               Some (True, p\<lparr>poffset := poffset p + len\<rparr>) }))"
      by (simp add: colon_def fm numeral_eq_Suc) (auto intro!: with_space_cong simp: fm)
    finally show "yields adv (pdepth q) (Some colon) r
       (let len = (if pformat r then 2 else 1) in
             with_space r len (\<lambda>i p. do {
               p \<leftarrow> store p i (if pformat p then [CHR '':'', CHR 0x09] else '':'');
               Some (True, p\<lparr>poffset := poffset p + len\<rparr>) }))" using r(2) by simp
  qed (rule adv_trans)
  have "yields adv (pdepth p) (both (Some ind) (both (Some (quote (text_of name))) (Some colon))) p (print_key name p)"
    unfolding print_key_def run_def [symmetric]
  proof (rule yields_then [where R = adv, OF first])
    fix q t assume "Some ind = Some t" "adv p t q" "pdepth q = pdepth p"
    then show "yields adv (pdepth p) (both (Some (quote (text_of name))) (Some colon)) q
     (do { (ok, r) \<leftarrow> print_string_ptr name q; if \<not> ok then Some (False, r)
           else do { r \<leftarrow> update_offset r;
             let len = (if pformat r then 2 else 1);
             with_space r len (\<lambda>i p. do {
               p \<leftarrow> store p i (if pformat p then [CHR '':'', CHR 0x09] else '':'');
               Some (True, p\<lparr>poffset := poffset p + len\<rparr>) }) } })"
      using rest [of q] by simp
  qed (rule adv_trans)
  then show ?thesis by (simp add: key_text_def ind_def colon_def)
qed

section \<open>Values\<close>

lemma nulfree_number_text:
  assumes "wf_double d"
  shows "nulfree (number_text d)" "length (number_text d) \<le> 24"
proof -
  have "nulfree t" if "numeric t" for t using that by (auto simp: numeric_def nulfree_def isdigit_def)
  then show "nulfree (number_text d)"
    using numeric_sprintf_g by (auto simp: number_text_def Let_def split: prod.splits)
  show "length (number_text d) \<le> 24"
    using length_sprintf_g [OF assms, of 15] length_sprintf_g [OF assms, of 17]
    by (auto simp: number_text_def Let_def split: prod.splits)
qed

lemma nulfree_tabs [simp]: "nulfree (tabs n)"
  by (auto simp: tabs_def nulfree_def)

lemma render_nulfree:
  "printable i \<Longrightarrow> render fmt d i = Some t \<Longrightarrow> nulfree t"
  "\<forall>c \<in> set cs. printable c \<Longrightarrow> render_elements fmt d cs = Some t \<Longrightarrow> nulfree t"
  "\<forall>c \<in> set cs. printable c \<Longrightarrow> render_members fmt d cs = Some t \<Longrightarrow> nulfree t"
proof (induction fmt d i and fmt d cs and fmt d cs arbitrary: t and t and t
    rule: render_render_elements_render_members.induct)
  case (1 fmt d ty vs vi vd s cs)
  define k where "k = ty AND 0xFF"
  from 1(3) have pr: "nulfree (text_of vs)" "wf_double vd" "\<forall>c \<in> set cs. printable c" by simp_all
  note r = 1(4) [unfolded render.simps Let_def k_def [symmetric]]
  note IH = 1(1,2) [unfolded k_def [symmetric], OF refl]
  consider "k = cJSON_NULL \<or> k = cJSON_False \<or> k = cJSON_True" | "k = cJSON_Number" | "k = cJSON_Raw" | "k = cJSON_String"
    | "k = cJSON_Array" | "k = cJSON_Object"
    | "k \<noteq> cJSON_NULL" "k \<noteq> cJSON_False" "k \<noteq> cJSON_True" "k \<noteq> cJSON_Number" "k \<noteq> cJSON_Raw"
      "k \<noteq> cJSON_String" "k \<noteq> cJSON_Array" "k \<noteq> cJSON_Object" by blast
  then show ?case
  proof cases
    case 5
    with r obtain u where "render_elements fmt (d + 1) cs = Some u" "t = ''['' @ u @ '']''" by auto
    with IH(1) 5 pr show ?thesis by simp
  next
    case 6
    with r obtain u where "render_members fmt (d + 1) cs = Some u"
      "t = (if fmt then [CHR ''{'', CHR 0x0A] else ''{'') @ u @ (if fmt then tabs d else []) @ ''}''" by auto
    with IH(2) 6 pr show ?thesis by simp
  qed (use r pr in \<open>auto simp: nulfree_number_text nulfree_quote text_of_def split: if_splits\<close>)
next
  case (3 fmt d c cs)
  then show ?case by (auto split: if_splits)
next
  case (5 fmt d c cs)
  from 5(4) obtain a b where ab: "render fmt d c = Some a" "render_members fmt d cs = Some b"
    "t = ((if fmt then tabs d else []) @ quote (text_of (item_string c)) @
            (if fmt then [CHR '':'', CHR 0x09] else '':'')) @ a @
           ((if cs = [] then [] else '','') @ (if fmt then [CHR 0x0A] else [])) @ b" by auto
  have "nulfree (text_of (item_string c))" using 5(3) by (cases c) auto
  then show ?case using 5 ab by (auto simp: nulfree_quote)
qed auto

lemma print_number_yields:
  assumes p: "sound p" and d: "wf_double (valuedouble i)"
  shows "yields wrote (pdepth p) (Some (number_text (valuedouble i))) p (print_number i p)"
proof -
  define t where "t = number_text (valuedouble i)"
  have l: "length t \<le> 24" using nulfree_number_text(2) [OF d] by (simp add: t_def)
  have "yields wrote (pdepth p) (Some t) p (with_space p (length t + 1) (\<lambda>i q. do {
      q \<leftarrow> store q i (t @ [NUL]); Some (True, q\<lparr>poffset := poffset q + length t\<rparr>) }))"
  proof (rule space_wrote [OF p])
    fix q assume q: "poffset q = poffset p" "pdepth q = pdepth p"
    then have "q\<lparr>poffset := poffset q + length t\<rparr> = q\<lparr>poffset := poffset p + length t, pdepth := pdepth p\<rparr>" by simp
    then show "\<exists>k d'. Some (True, q\<lparr>poffset := poffset q + length t\<rparr>) =
        Some (True, q\<lparr>poffset := k, pdepth := pdepth p\<rparr>) \<and> poffset p \<le> k \<and> k \<le> poffset p + length t"
      by (intro exI [of _ "poffset p + length t"]) auto
  qed simp_all
  then show ?thesis using l by (simp add: print_number_def t_def [symmetric] Let_def)
qed

text \<open>The closing bracket: written without moving past it.\<close>

lemma space_close:
  assumes p: "sound p"
  shows "yields wrote (pdepth p - 1) (Some (s @ [c])) p (with_space p (length s + 2) (\<lambda>i p. do {
    p \<leftarrow> store p i (s @ [c] @ [NUL]); Some (True, p\<lparr>pdepth := pdepth p - 1\<rparr>) }))"
proof -
  have "yields wrote (pdepth p - 1) (Some (s @ [c])) p (with_space p (length s + 2) (\<lambda>i q. do {
    q \<leftarrow> store q i ((s @ [c]) @ [NUL]); Some (True, q\<lparr>pdepth := pdepth q - 1\<rparr>) }))"
  proof (rule space_wrote [OF p])
    fix q assume q: "poffset q = poffset p" "pdepth q = pdepth p"
    then have "q\<lparr>pdepth := pdepth q - 1\<rparr> = q\<lparr>poffset := poffset p, pdepth := pdepth p - 1\<rparr>" by simp
    then show "\<exists>k d'. Some (True, q\<lparr>pdepth := pdepth q - 1\<rparr>) =
        Some (True, q\<lparr>poffset := k, pdepth := pdepth p - 1\<rparr>) \<and> poffset p \<le> k \<and> k \<le> poffset p + length (s @ [c])"
      by (intro exI [of _ "poffset p"]) auto
  qed simp_all
  then show ?thesis by simp
qed

lemma print_array_yields:
  assumes p: "sound p"
    and e: "\<And>q. sound q \<Longrightarrow> pformat q = pformat p \<Longrightarrow> pdepth q = pdepth p + 1 \<Longrightarrow>
      yields adv (pdepth p + 1) t q (elements q)"
  shows "yields wrote (pdepth p) (map_option (\<lambda>t. ''['' @ t @ '']'') t) p (print_array elements p)"
proof -
  have "yields wrote (pdepth p) (map_option ((@) ''['') (both t (Some '']''))) p (print_array elements p)"
    unfolding print_array_def
  proof (rule space_then [OF p, of _ _ "[]"])
    fix q assume q: "adv p ''['' (q\<lparr>poffset := poffset p + length ''[''\<rparr>)" "pdepth q = pdepth p"
      "poffset q = poffset p" "pformat q = pformat p"
    define q1 where "q1 = q\<lparr>poffset := poffset p + length ''['', pdepth := pdepth p + 1\<rparr>"
    have q1: "sound q1" "pformat q1 = pformat p" "pdepth q1 = pdepth p + 1"
      using q by (auto simp: q1_def adv_def)
    have "yields wrote (pdepth p) (both t (Some '']'')) q1 (do { (ok, p) \<leftarrow> elements q1;
       if \<not> ok then Some (False, p)
       else with_space p 2 (\<lambda>i p. do {
         p \<leftarrow> store p i ('']'' @ [NUL]); Some (True, p\<lparr>pdepth := pdepth p - 1\<rparr>) }) })"
    proof (rule yields_then [where R = wrote, OF e [OF q1]])
      fix r s assume r: "adv q1 s r" "pdepth r = pdepth p + 1"
      show "yields wrote (pdepth p) (Some '']'') r (with_space r 2 (\<lambda>i p. do {
         p \<leftarrow> store p i ('']'' @ [NUL]); Some (True, p\<lparr>pdepth := pdepth p - 1\<rparr>) }))"
        using space_close [OF adv_sound(1) [OF r(1)], of "[]" "CHR '']''"] r(2)
        by (simp add: numeral_2_eq_2)
    qed (rule adv_wrote)
    moreover have "q\<lparr>poffset := poffset q + 1, pdepth := pdepth q + 1\<rparr> = q1"
      using q by (simp add: q1_def)
    moreover have "yields wrote d u q1 r = yields wrote d u (q\<lparr>poffset := poffset p + length ''[''\<rparr>) r" for d u r
      by (simp add: q1_def yields_def)
    ultimately show "yields wrote (pdepth p) (both t (Some '']'')) (q\<lparr>poffset := poffset p + length ''[''\<rparr>)
       (do { (ok, p) \<leftarrow> elements (q\<lparr>poffset := poffset q + 1, pdepth := pdepth q + 1\<rparr>);
       if \<not> ok then Some (False, p)
       else with_space p 2 (\<lambda>i p. do {
         p \<leftarrow> store p i ('']'' @ [NUL]); Some (True, p\<lparr>pdepth := pdepth p - 1\<rparr>) }) })" by simp
  qed (use adv_wrote [of p "''[''"] in simp_all)
  then show ?thesis by (cases t) simp_all
qed

lemma print_object_yields:
  assumes p: "sound p"
    and e: "\<And>q. sound q \<Longrightarrow> pformat q = pformat p \<Longrightarrow> pdepth q = pdepth p + 1 \<Longrightarrow>
      yields adv (pdepth p + 1) t q (members q)"
  shows "yields wrote (pdepth p) (map_option (\<lambda>t. (if pformat p then [CHR ''{'', CHR 0x0A] else ''{'') @ t @
        (if pformat p then tabs (pdepth p) else []) @ ''}'') t) p (print_object members p)"
proof -
  define s where "s = (if pformat p then [CHR ''{'', CHR 0x0A] else ''{'')"
  define e1 where "e1 = (if pformat p then tabs (pdepth p) else [])"
  define tail where "tail q1 = (do { (ok, p) \<leftarrow> members q1;
       if \<not> ok then Some (False, p)
        else with_space p (if pformat p then pdepth p + 1 else 2) (\<lambda>i p. do {
          p \<leftarrow> store p i ((if pformat p then tabs (pdepth p - 1) else []) @ ''}'' @ [NUL]);
          Some (True, p\<lparr>pdepth := pdepth p - 1\<rparr>) }) })" for q1
  have po: "print_object members p = with_space p (length s + 1) (\<lambda>i p. do {
        p \<leftarrow> store p i s; tail (p\<lparr>pdepth := pdepth p + 1, poffset := poffset p + length s\<rparr>) })"
    unfolding print_object_def tail_def s_def
    by (simp add: numeral_eq_Suc) (auto intro!: with_space_cong)
  have "yields wrote (pdepth p) (map_option ((@) s) (both t (Some (e1 @ ''}'')))) p (print_object members p)"
    unfolding po
  proof (rule space_then [OF p, of _ _ "[]"])
    fix q assume q: "adv p s (q\<lparr>poffset := poffset p + length s\<rparr>)" "pdepth q = pdepth p"
      "poffset q = poffset p" "pformat q = pformat p"
    define q1 where "q1 = q\<lparr>poffset := poffset p + length s, pdepth := pdepth p + 1\<rparr>"
    have q1: "sound q1" "pformat q1 = pformat p" "pdepth q1 = pdepth p + 1"
      using q by (auto simp: q1_def adv_def)
    have "yields wrote (pdepth p) (both t (Some (e1 @ ''}''))) q1 (tail q1)"
      unfolding tail_def
    proof (rule yields_then [where R = wrote, OF e [OF q1]])
      fix r s' assume r: "adv q1 s' r" "pdepth r = pdepth p + 1"
      have fm: "pformat r = pformat p" using adv_format [OF r(1)] q1 by simp
      have "yields wrote (pdepth r - 1) (Some (e1 @ ''}'')) r (with_space r (length e1 + 2) (\<lambda>i p. do {
          p \<leftarrow> store p i (e1 @ ''}'' @ [NUL]); Some (True, p\<lparr>pdepth := pdepth p - 1\<rparr>) }))"
        by (rule space_close [OF adv_sound(1) [OF r(1)], of e1 "CHR ''}''"])
      also have "with_space r (length e1 + 2) (\<lambda>i p. do {
          p \<leftarrow> store p i (e1 @ ''}'' @ [NUL]); Some (True, p\<lparr>pdepth := pdepth p - 1\<rparr>) }) =
        with_space r (if pformat r then pdepth r + 1 else 2) (\<lambda>i p. do {
          p \<leftarrow> store p i ((if pformat p then tabs (pdepth p - 1) else []) @ ''}'' @ [NUL]);
          Some (True, p\<lparr>pdepth := pdepth p - 1\<rparr>) })"
        by (simp add: e1_def fm r(2) numeral_2_eq_2) (auto intro!: with_space_cong simp: fm r(2))
      finally show "yields wrote (pdepth p) (Some (e1 @ ''}'')) r
        (with_space r (if pformat r then pdepth r + 1 else 2) (\<lambda>i p. do {
          p \<leftarrow> store p i ((if pformat p then tabs (pdepth p - 1) else []) @ ''}'' @ [NUL]);
          Some (True, p\<lparr>pdepth := pdepth p - 1\<rparr>) }))" using r(2) by simp
    qed (rule adv_wrote)
    moreover have "q\<lparr>pdepth := pdepth q + 1, poffset := poffset q + length s\<rparr> = q1"
      using q by (simp add: q1_def)
    moreover have "yields wrote d u q1 r = yields wrote d u (q\<lparr>poffset := poffset p + length s\<rparr>) r" for d u r
      by (simp add: q1_def yields_def)
    ultimately show "yields wrote (pdepth p) (both t (Some (e1 @ ''}''))) (q\<lparr>poffset := poffset p + length s\<rparr>)
       (tail (q\<lparr>pdepth := pdepth q + 1, poffset := poffset q + length s\<rparr>))" by simp
  qed (simp_all add: adv_wrote)
  then show ?thesis by (cases t) (simp_all add: s_def e1_def)
qed

definition item_prints :: "cJSON \<Rightarrow> bool" where
  "item_prints c \<longleftrightarrow> (\<forall>p. sound p \<longrightarrow>
     yields wrote (pdepth p) (render (pformat p) (pdepth p) c) p (print_value c p))"

lemma render_elements_both: "render_elements fmt d (c # cs) = both (render fmt d c)
    (both (Some (if cs \<noteq> [] then if fmt then '', '' else '','' else [])) (render_elements fmt d cs))"
  by (auto simp: both_def)

lemma render_members_both: "render_members fmt d (c # cs) = both (Some (key_text fmt d (item_string c)))
    (both (render fmt d c) (both (Some ((if cs \<noteq> [] then '','' else []) @ (if fmt then [CHR 0x0A] else [])))
       (render_members fmt d cs)))"
  by (auto simp: both_def key_text_def)

lemma print_elements_yields:
  assumes "\<forall>c \<in> set cs. item_prints c \<and> printable c" "sound p"
  shows "yields adv (pdepth p) (render_elements (pformat p) (pdepth p) cs) p (print_elements cs p)"
  using assms
proof (induction cs arbitrary: p)
  case Nil
  then show ?case using adv_refl by (intro yieldsI [where R = adv]) auto
next
  case (Cons c cs)
  let ?sep = "Some (if cs \<noteq> [] then if pformat p then '', '' else '','' else [])"
  have r: "yields wrote (pdepth p) (render (pformat p) (pdepth p) c) p (print_value c p)"
    using Cons.prems by (simp add: item_prints_def)
  have n: "nulfree t" if "render (pformat p) (pdepth p) c = Some t" for t
    using render_nulfree(1) that Cons.prems by auto
  show ?case unfolding render_elements_both print_elements.simps
  proof (subst update_assoc, rule yields_then [where R = adv, OF yields_update [OF r n]])
    fix q t assume q: "adv p t q" "pdepth q = pdepth p"
    have fm: "pformat q = pformat p" using q(1) by (rule adv_format)
    show "yields adv (pdepth p) (both ?sep (render_elements (pformat p) (pdepth p) cs)) q
       (do { (ok, q) \<leftarrow> print_separator (cs \<noteq> []) q; if \<not> ok then Some (False, q) else print_elements cs q })"
    proof (rule yields_then [where R = adv and d = "pdepth p"])
      show "yields adv (pdepth p) ?sep q (print_separator (cs \<noteq> []) q)"
        using print_separator_yields [OF adv_sound(1) [OF q(1)], of "cs \<noteq> []"] by (simp only: q(2) fm)
      fix r t assume r: "adv q t r" "pdepth r = pdepth p"
      show "yields adv (pdepth p) (render_elements (pformat p) (pdepth p) cs) r (print_elements cs r)"
        using Cons.IH [OF _ adv_sound(1) [OF r(1)]] Cons.prems r(2) adv_format [OF r(1)] fm by simp
    qed (rule adv_trans)
  qed (assumption | rule adv_trans)+
qed

lemma print_members_yields:
  assumes "\<forall>c \<in> set cs. item_prints c \<and> printable c" "sound p"
  shows "yields adv (pdepth p) (render_members (pformat p) (pdepth p) cs) p (print_members cs p)"
  using assms
proof (induction cs arbitrary: p)
  case Nil
  then show ?case using adv_refl by (intro yieldsI [where R = adv]) auto
next
  case (Cons c cs)
  let ?sep = "Some ((if cs \<noteq> [] then '','' else []) @ (if pformat p then [CHR 0x0A] else []))"
  have key: "yields adv (pdepth p) (Some (key_text (pformat p) (pdepth p) (item_string c))) p
      (print_key (item_string c) p)"
    using Cons.prems by (intro print_key_yields) (cases c; auto)+
  have n: "nulfree t" if "render (pformat p) (pdepth p) c = Some t" for t
    using render_nulfree(1) that Cons.prems by auto
  show ?case unfolding render_members_both print_members.simps
  proof (rule yields_then [where R = adv, OF key])
    fix q t assume q: "adv p t q" "pdepth q = pdepth p"
    have fm: "pformat q = pformat p" using q(1) by (rule adv_format)
    have r: "yields wrote (pdepth p) (render (pformat p) (pdepth p) c) q (print_value c q)"
      using Cons.prems adv_sound(1) [OF q(1)] q(2) fm by (auto simp: item_prints_def)
    show "yields adv (pdepth p) (both (render (pformat p) (pdepth p) c)
        (both ?sep (render_members (pformat p) (pdepth p) cs))) q
       (do { (ok, p) \<leftarrow> print_value c q; if \<not> ok then Some (False, p)
             else do { p \<leftarrow> update_offset p;
               (ok, p) \<leftarrow> print_member_end (cs \<noteq> []) p;
               if \<not> ok then Some (False, p) else print_members cs p } })"
    proof (subst update_assoc, rule yields_then [where R = adv, OF yields_update [OF r n]])
      fix r t assume r: "adv q t r" "pdepth r = pdepth p"
      have fr: "pformat r = pformat p" using adv_format [OF r(1)] fm by simp
      show "yields adv (pdepth p) (both ?sep (render_members (pformat p) (pdepth p) cs)) r
         (do { (ok, p) \<leftarrow> print_member_end (cs \<noteq> []) r; if \<not> ok then Some (False, p) else print_members cs p })"
      proof (rule yields_then [where R = adv and d = "pdepth p"])
        show "yields adv (pdepth p) ?sep r (print_member_end (cs \<noteq> []) r)"
          using print_member_end_yields [OF adv_sound(1) [OF r(1)], of "cs \<noteq> []"] by (simp only: r(2) fr)
        fix s t assume s: "adv r t s" "pdepth s = pdepth p"
        show "yields adv (pdepth p) (render_members (pformat p) (pdepth p) cs) s (print_members cs s)"
          using Cons.IH [OF _ adv_sound(1) [OF s(1)]] Cons.prems s(2) adv_format [OF s(1)] fr by simp
      qed (rule adv_trans)
    qed (assumption | rule adv_trans)+
  qed (rule adv_trans)
qed

lemma yields_if:
  "(b \<Longrightarrow> yields R d t p r) \<Longrightarrow> (\<not> b \<Longrightarrow> yields R d u p r') \<Longrightarrow>
   yields R d (if b then t else u) p (if b then r else r')"
  by simp

lemma print_value_yields:
  "printable i \<Longrightarrow> item_prints i"
proof (induction i)
  case (Item t vs vi vd s cs)
  define k where "k = t AND 0xFF"
  from Item(2) have pr: "nulfree (text_of vs)" "wf_double vd" "\<forall>c \<in> set cs. printable c" by simp_all
  then have IH: "\<forall>c \<in> set cs. item_prints c \<and> printable c" using Item(1) by blast
  show ?case
    unfolding item_prints_def
  proof (intro allI impI)
    fix p assume p: "sound p"
    have lit: "yields wrote (pdepth p) (Some x) p (with_space p n (store_text (x @ [NUL])))"
      if "n = length x + 1" for x n by (rule space_text [OF p that])
    show "yields wrote (pdepth p) (render (pformat p) (pdepth p) (Item t vs vi vd s cs)) p
        (print_value (Item t vs vi vd s cs) p)"
      unfolding print_value.simps render.simps Let_def k_def [symmetric]
    proof (intro yields_if, goal_cases)
      case 1
      show ?case by (rule lit) simp
    next
      case 2
      show ?case by (rule lit) simp
    next
      case 3
      show ?case by (rule lit) simp
    next
      case 4
      show ?case using print_number_yields [OF p, of "Item t vs vi vd s cs"] pr by simp
    next
      case 5
      show ?case
      proof (cases vs)
        case None
        then show ?thesis using yields_fail [OF keeps_refl] by simp
      next
        case (Some v)
        then show ?thesis using lit [of "length v + 1" v] by simp
      qed
    next
      case 6
      show ?case using print_string_yields [OF p, of vs] by (simp add: print_string_def)
    next
      case 7
      show ?case
      proof (rule print_array_yields [OF p])
        fix q assume "sound q" "pformat q = pformat p" "pdepth q = pdepth p + 1"
        then show "yields adv (pdepth p + 1) (render_elements (pformat p) (pdepth p + 1) cs) q (print_elements cs q)"
          using print_elements_yields [OF IH, of q] by simp
      qed
    next
      case 8
      show ?case
      proof (rule print_object_yields [OF p])
        fix q assume "sound q" "pformat q = pformat p" "pdepth q = pdepth p + 1"
        then show "yields adv (pdepth p + 1) (render_members (pformat p) (pdepth p + 1) cs) q (print_members cs q)"
          using print_members_yields [OF IH, of q] by simp
      qed
    next
      case 9
      show ?case by (rule yields_fail [OF keeps_refl])
    qed
  qed
qed

section \<open>Entry points\<close>

lemma start_sound:
  assumes "len \<le> length buffer" "len \<le> INT_MAX_size" "0 < len \<or> has_realloc m \<or> na"
  shows "sound (start_buffer buffer len na fmt m)"
  using assms by (auto simp: sound_def start_buffer_def)

lemma start_fields [simp]:
  "pformat (start_buffer b len na fmt m) = fmt" "pdepth (start_buffer b len na fmt m) = 0"
  "poffset (start_buffer b len na fmt m) = 0" "plength (start_buffer b len na fmt m) = len"
  "noalloc (start_buffer b len na fmt m) = na" "pmem (start_buffer b len na fmt m) = m"
  "pbuffer (start_buffer b len na fmt m) = Some b" "before (start_buffer b len na fmt m) = []"
  "held (start_buffer b len na fmt m) = live m - 1"
  by (simp_all add: start_buffer_def before_def held_def)

lemma live_drop: "live (drop_buffer p) = held p"
  by (simp add: drop_buffer_def held_def)

definition render_item :: "bool \<Rightarrow> cJSON option \<Rightarrow> string option" where
  "render_item fmt item = Option.bind item (render fmt 0)"

lemma print_start_yields:
  assumes "sound p" "pdepth p = 0" "\<And>i. item = Some i \<Longrightarrow> printable i"
  shows "yields wrote 0 (render_item (pformat p) item) p (print_value_opt item p)"
proof (cases item)
  case None
  then show ?thesis using yields_fail [OF keeps_refl] by (simp add: render_item_def print_value_opt_def)
next
  case (Some i)
  then show ?thesis using print_value_yields [OF assms(3) [OF Some]] assms(1,2)
    by (auto simp: item_prints_def render_item_def print_value_opt_def)
qed

lemma render_item_nulfree:
  "(\<And>i. item = Some i \<Longrightarrow> printable i) \<Longrightarrow> render_item fmt item = Some t \<Longrightarrow> nulfree t"
  using render_nulfree(1) by (cases item) (auto simp: render_item_def)

lemma update_offset_buffer: "update_offset q = Some r \<Longrightarrow> pbuffer r = pbuffer q \<and> pmem r = pmem q \<and> plength r = plength q"
  by (auto simp: update_offset_def split: option.splits)

text \<open>The text is cut to its size and handed over, or given up.\<close>

definition handed_over :: "printbuffer \<Rightarrow> string \<Rightarrow> (string option \<times> mem) option" where
  "handed_over r b = (if has_realloc (pmem r)
     then (case reallocate (pmem r) of (ok, m) \<Rightarrow>
       if \<not> ok then Some (None, drop_buffer (r\<lparr>pmem := m\<rparr>))
       else Some (Some (resized m b (poffset r + 1)), m))
     else (case allocate (pmem r) of (ok, m) \<Rightarrow>
       if \<not> ok then Some (None, drop_buffer (r\<lparr>pmem := m\<rparr>))
       else if length b < min (plength r) (poffset r + 1) then None
       else do {
         printed \<leftarrow> blit (fresh_block m (poffset r + 1)) 0 (take (min (plength r) (poffset r + 1)) b);
         printed \<leftarrow> poke printed (poffset r) NUL;
         Some (Some printed, drop_buffer (r\<lparr>pmem := m\<rparr>)) }))"

lemma handed_over_text:
  assumes b: "pbuffer r = Some b" "plength r \<le> length b" and t: "poffset r = length t" "length t < plength r" "take (length t + 1) b = t @ [NUL]"
  shows "\<exists>x m'. handed_over r b = Some (x, m') \<and> live m' = live (pmem r) - (if x = None then 1 else 0) \<and>
    (\<forall>s. x = Some s \<longrightarrow> s = t @ [NUL]) \<and> (may_alloc (pmem r) (tries (pmem r)) \<longrightarrow> x \<noteq> None)"
proof (cases "has_realloc (pmem r)")
  case hr: True
  define m2 where "m2 = (pmem r)\<lparr>tries := tries (pmem r) + 1\<rparr>"
  have ra: "reallocate (pmem r) = (may_alloc (pmem r) (tries (pmem r)), m2)" by (simp add: reallocate_def m2_def)
  have "resized m2 b (length t + 1) = t @ [NUL]" using t b(2) by (simp add: resized_def)
  then show ?thesis using hr ra t(1) b(1)
    by (cases "may_alloc (pmem r) (tries (pmem r))") (auto simp: handed_over_def drop_buffer_def m2_def)
next
  case nr: False
  obtain ok m2 where al: "allocate (pmem r) = (ok, m2)" by fastforce
  have ok: "ok = may_alloc (pmem r) (tries (pmem r))" using al by (auto simp: allocate_def split: if_splits)
  have mn: "min (plength r) (poffset r + 1) = length t + 1" "\<not> length b < length t + 1" using t b(2) by (simp_all add: min_def)
  have "blit (fresh_block m2 (length t + 1)) 0 (take (length t + 1) b) = Some (t @ [NUL])"
    unfolding t(3) by (simp add: blit_def fresh_block_def)
  moreover have "poke (t @ [NUL]) (length t) NUL = Some (t @ [NUL])" by (simp add: poke_def)
  ultimately show ?thesis using nr al mn t(1) b(1) ok allocate_live [OF al] by (cases ok) (auto simp: handed_over_def drop_buffer_def)
qed

lemma print_outcome:
  assumes pr: "\<And>i. item = Some i \<Longrightarrow> printable i"
  shows "\<exists>r m'. print item fmt m = Some (r, m') \<and> live m' = live m + (if r = None then 0 else 1) \<and>
    (\<forall>s. r = Some s \<longrightarrow> (\<exists>t. render_item fmt item = Some t \<and> s = t @ [NUL])) \<and>
    (\<forall>t. render_item fmt item = Some t \<and> (\<forall>i. may_alloc m i) \<and> length t + 2 \<le> INT_MAX_size \<longrightarrow> r \<noteq> None)"
proof -
  obtain ok m1 where al: "allocate m = (ok, m1)" by fastforce
  note hk = allocate_hooks [OF al] and lv = allocate_live [OF al]
  have ok: "ok = may_alloc m (tries m)" using al by (auto simp: allocate_def split: if_splits)
  show ?thesis
  proof (cases ok)
    case False
    then show ?thesis using lv ok by (auto simp: print_def al)
  next
    case True
    define p where "p = start_buffer (fresh_block m1 256) 256 False fmt m1"
    have sp: "sound p" unfolding p_def by (rule start_sound) (simp_all add: fresh_block_def INT_MAX_size_def)
    have "yields wrote 0 (render_item (pformat p) item) p (print_value_opt item p)"
      by (rule print_start_yields [OF sp _ pr]) (simp_all add: p_def)
    then obtain ok2 q where q: "print_value_opt item p = Some (ok2, q)" "keeps p q"
      "ok2 \<longrightarrow> (\<exists>s. render_item fmt item = Some s \<and> wrote p s q)"
      "\<forall>s k. render_item fmt item = Some s \<longrightarrow> room p k \<longrightarrow> length s + 2 \<le> k \<longrightarrow> ok2"
      by (auto simp: yields_def p_def)
    have held: "held q = live m" using q(2) lv True by (simp add: keeps_def p_def)
    have total: ok2 if "render_item fmt item = Some t" "\<forall>i. may_alloc m i" "length t + 2 \<le> INT_MAX_size" for t
    proof -
      have "room p INT_MAX_size" using that(2) hk by (simp add: room_def p_def same_hooks_def)
      with q(4) that show ?thesis by blast
    qed
    show ?thesis
    proof (cases ok2)
      case False
      then have "print item fmt m = Some (None, drop_buffer q)"
        using True q(1) by (simp add: print_def al p_def)
      then show ?thesis using total False held live_drop by auto
    next
      case good: True
      with q(3) obtain t where t: "render_item fmt item = Some t" "wrote p t q" by blast
      obtain r where r: "update_offset q = Some r" "adv p t r"
        using update_offset_wrote [OF t(2) render_item_nulfree [OF pr t(1)]] by auto
      note ub = update_offset_buffer [OF r(1)]
      obtain b where b: "pbuffer q = Some b" "plength q \<le> length b"
        using t(2) by (auto simp: wrote_def sound_def)
      have off: "poffset r = length t" "length t < plength q" "take (length t + 1) b = t @ [NUL]"
        using r(2) t(2) b by (simp_all add: adv_def wrote_def p_def)
      have same: "has_realloc (pmem q) = has_realloc m" "may_alloc (pmem q) = may_alloc m"
        using hk q(2) by (simp_all add: same_hooks_def keeps_def p_def)
      have start: "print item fmt m = handed_over r b"
        using True good q(1) r(1) b(1) ub same by (simp add: print_def al p_def [symmetric] handed_over_def del: bind_Some_iff)
      have lq: "live (pmem r) = live m + 1" using held b ub by (simp add: held_def)
      have "pbuffer r = Some b" "plength r \<le> length b" "length t < plength r" using b off ub by simp_all
      from handed_over_text [OF this(1,2) off(1) this(3) off(3)] show ?thesis
        using t lq same ub unfolding start by fastforce
    qed
  qed
qed

lemma preallocated_outcome:
  assumes pr: "\<And>i. item = Some i \<Longrightarrow> printable i"
    and b: "length b = nat len" and len: "0 \<le> len" "nat len \<le> INT_MAX_size"
  shows "\<exists>ok b' m'. cJSON_PrintPreallocated item (Some b) len fmt m = Some (ok, Some b', m') \<and>
    live m' = live m \<and> length b' = length b \<and>
    (ok \<longrightarrow> (\<exists>t. render_item fmt item = Some t \<and> cstring b' = t \<and> length t < nat len)) \<and>
    (\<forall>t. render_item fmt item = Some t \<and> length t + 2 \<le> nat len \<longrightarrow> ok)"
proof -
  define p where "p = start_buffer b (nat len) True fmt m"
  have sp: "sound p" unfolding p_def by (rule start_sound) (use b len in auto)
  have "yields wrote 0 (render_item (pformat p) item) p (print_value_opt item p)"
    by (rule print_start_yields [OF sp _ pr]) (simp_all add: p_def)
  then obtain ok q where q: "print_value_opt item p = Some (ok, q)" "keeps p q"
    "ok \<longrightarrow> (\<exists>s. render_item fmt item = Some s \<and> wrote p s q)"
    "\<forall>s k. render_item fmt item = Some s \<longrightarrow> room p k \<longrightarrow> length s + 2 \<le> k \<longrightarrow> ok"
    by (auto simp: yields_def p_def)
  obtain b' where b': "pbuffer q = Some b'" using q(2) by (auto simp: keeps_def p_def)
  have lq: "live (pmem q) = live m" and lb: "length b' = nat len"
    using q(2) b' b by (simp_all add: keeps_def held_def p_def)
  have run: "cJSON_PrintPreallocated item (Some b) len fmt m = Some (ok, Some b', pmem q)"
    using len(1) q(1) b' by (simp add: cJSON_PrintPreallocated_def p_def [symmetric])
  have good: "\<exists>t. render_item fmt item = Some t \<and> cstring b' = t \<and> length t < nat len" if ok
  proof -
    from that q(3) obtain t where t: "render_item fmt item = Some t" "wrote p t q" by blast
    have "take (length t + 1) b' = t @ [NUL]" using t(2) b' by (simp add: wrote_def p_def)
    then have "b' = t @ NUL # drop (length t + 1) b'"
      using append_take_drop_id [of "length t + 1" b'] by simp
    then have "cstring b' = t" using render_item_nulfree [OF pr t(1)] cstring_append_NUL by metis
    moreover have "length t < nat len"
      using arg_cong [OF \<open>b' = t @ NUL # drop (length t + 1) b'\<close>, of length] lb by simp
    ultimately show ?thesis using t(1) by blast
  qed
  have enough: ok if "render_item fmt item = Some t" "length t + 2 \<le> nat len" for t
  proof -
    have "room p (nat len)" by (simp add: room_def p_def)
    with q(4) that show ?thesis by blast
  qed
  show ?thesis using run lq lb b good enough by auto
qed


lemma buffered_outcome:
  assumes pr: "\<And>i. item = Some i \<Longrightarrow> printable i"
    and pre: "prebuffer \<le> INT_MAX" "0 < prebuffer \<or> has_realloc m"
  shows "\<exists>r m'. cJSON_PrintBuffered item prebuffer fmt m = Some (r, m') \<and>
    live m' = live m + (if r = None then 0 else 1) \<and>
    (\<forall>s. r = Some s \<longrightarrow> (\<exists>t. render_item fmt item = Some t \<and> cstring s = t \<and> length t < length s)) \<and>
    (\<forall>t. render_item fmt item = Some t \<and> 0 \<le> prebuffer \<and> (\<forall>i. may_alloc m i) \<and> length t + 2 \<le> INT_MAX_size \<longrightarrow> r \<noteq> None)"
proof (cases "prebuffer < 0")
  case True
  then show ?thesis by (simp add: cJSON_PrintBuffered_def)
next
  case nonneg: False
  obtain ok m1 where al: "allocate m = (ok, m1)" by fastforce
  note hk = allocate_hooks [OF al] and lv = allocate_live [OF al]
  have ok: "ok = may_alloc m (tries m)" using al by (auto simp: allocate_def split: if_splits)
  show ?thesis
  proof (cases ok)
    case False
    then show ?thesis using lv nonneg ok by (auto simp: cJSON_PrintBuffered_def al)
  next
    case True
    define p where "p = start_buffer (fresh_block m1 (nat prebuffer)) (nat prebuffer) False fmt m1"
    have sp: "sound p" unfolding p_def
      by (rule start_sound) (use pre hk in \<open>auto simp: fresh_block_def INT_MAX_size_def same_hooks_def\<close>)
    have "yields wrote 0 (render_item (pformat p) item) p (print_value_opt item p)"
      by (rule print_start_yields [OF sp _ pr]) (simp_all add: p_def)
    then obtain ok2 q where q: "print_value_opt item p = Some (ok2, q)" "keeps p q"
      "ok2 \<longrightarrow> (\<exists>s. render_item fmt item = Some s \<and> wrote p s q)"
      "\<forall>s k. render_item fmt item = Some s \<longrightarrow> room p k \<longrightarrow> length s + 2 \<le> k \<longrightarrow> ok2"
      by (auto simp: yields_def p_def)
    have held: "held q = live m" using q(2) lv True by (simp add: keeps_def p_def)
    have total: ok2 if "render_item fmt item = Some t" "\<forall>i. may_alloc m i" "length t + 2 \<le> INT_MAX_size" for t
    proof -
      have "room p INT_MAX_size" using that(2) hk by (simp add: room_def p_def same_hooks_def)
      with q(4) that show ?thesis by blast
    qed
    have run: "cJSON_PrintBuffered item prebuffer fmt m =
        (if \<not> ok2 then Some (None, drop_buffer q) else Some (pbuffer q, pmem q))"
      using nonneg True q(1) by (simp add: cJSON_PrintBuffered_def al p_def)
    show ?thesis
    proof (cases ok2)
      case False
      then show ?thesis using run held live_drop total by auto
    next
      case good: True
      with q(3) obtain t where t: "render_item fmt item = Some t" "wrote p t q" by blast
      obtain b where b: "pbuffer q = Some b" "take (length t + 1) b = t @ [NUL]"
        using t(2) by (auto simp: wrote_def sound_def p_def)
      then have eq: "b = t @ NUL # drop (length t + 1) b"
        using append_take_drop_id [of "length t + 1" b] by simp
      then have "cstring b = t" using render_item_nulfree [OF pr t(1)] cstring_append_NUL by metis
      moreover have "length t < length b" using arg_cong [OF eq, of length] by simp
      moreover have "live (pmem q) = live m + 1" using held b by (simp add: held_def)
      ultimately show ?thesis using run good t(1) b by auto
    qed
  qed
qed

section \<open>Properties\<close>

text \<open>C4: \<open>cJSON_Print\<close> and \<open>cJSON_PrintUnformatted\<close> implement \<^term>\<open>render\<close>: the buffer code never
  writes outside its buffer, whichever allocations fail; a returned block holds exactly the text
  and its NUL, nothing else is kept, and with a heap that serves every request they do return it
  (up to the size limit).\<close>

theorem cJSON_Print_renders:
  assumes "\<And>i. item = Some i \<Longrightarrow> printable i" and "fmt = True \<and> f = cJSON_Print \<or> fmt = False \<and> f = cJSON_PrintUnformatted"
  shows "\<exists>r m'. f item m = Some (r, m') \<and> live m' = live m + (if r = None then 0 else 1) \<and>
    (\<forall>s. r = Some s \<longrightarrow> (\<exists>t. render_item fmt item = Some t \<and> s = t @ [NUL])) \<and>
    (\<forall>t. render_item fmt item = Some t \<and> (\<forall>i. may_alloc m i) \<and> length t + 2 \<le> INT_MAX_size \<longrightarrow> r \<noteq> None)"
proof -
  from assms(2) have "f item m = print item fmt m"
    by (auto simp: cJSON_Print_def cJSON_PrintUnformatted_def)
  then show ?thesis using print_outcome [OF assms(1)] by simp
qed

theorem cJSON_Print_renders_witness:
  "\<exists>r m'. cJSON_Print (Some (Item cJSON_True None 1 zero_double None [])) initial_mem = Some (r, m') \<and>
    live m' = live initial_mem + (if r = None then 0 else 1) \<and>
    (\<forall>s. r = Some s \<longrightarrow> (\<exists>t. render_item True (Some (Item cJSON_True None 1 zero_double None [])) = Some t \<and> s = t @ [NUL])) \<and>
    (\<forall>t. render_item True (Some (Item cJSON_True None 1 zero_double None [])) = Some t \<and>
      (\<forall>i. may_alloc initial_mem i) \<and> length t + 2 \<le> INT_MAX_size \<longrightarrow> r \<noteq> None)"
proof (rule cJSON_Print_renders)
  show "printable i" if "Some (Item cJSON_True None 1 zero_double None []) = Some i" for i
    using that by (auto simp: text_of_def zero_double_def canonical_def)
qed simp

text \<open>C5: \<open>cJSON_PrintPreallocated\<close> writes inside the caller's buffer only, takes no block, returns
  true only with the NUL-terminated text in the buffer, and succeeds whenever the buffer has two
  bytes more than the text (the header asks for five).\<close>

theorem cJSON_PrintPreallocated_fits:
  assumes "\<And>i. item = Some i \<Longrightarrow> printable i"
    and "length b = nat len" and "0 \<le> len" and "nat len \<le> INT_MAX_size"
  shows "\<exists>ok b' m'. cJSON_PrintPreallocated item (Some b) len fmt m = Some (ok, Some b', m') \<and>
    live m' = live m \<and> length b' = length b \<and>
    (ok \<longrightarrow> (\<exists>t. render_item fmt item = Some t \<and> cstring b' = t \<and> length t < nat len)) \<and>
    (\<forall>t. render_item fmt item = Some t \<and> length t + 2 \<le> nat len \<longrightarrow> ok)"
  by (rule preallocated_outcome [OF assms])

definition sample_item :: cJSON where
  "sample_item = Item cJSON_Array None 0 zero_double None [Item cJSON_True None 1 zero_double None []]"

lemma sample_item_printable: "printable sample_item"
  by (simp add: sample_item_def text_of_def zero_double_def canonical_def)

lemma sample_item_text: "render_item False (Some sample_item) = Some ''[true]''"
  by (simp add: sample_item_def render_item_def kind_def)

text \<open>Eight bytes are enough for six and two more.\<close>

theorem cJSON_PrintPreallocated_fits_witness:
  "\<exists>b' m'. cJSON_PrintPreallocated (Some sample_item) (Some ''abcdefgh'') 8 False initial_mem = Some (True, Some b', m') \<and>
    live m' = live initial_mem \<and> length b' = 8 \<and> cstring b' = ''[true]''"
  using cJSON_PrintPreallocated_fits [where item = "Some sample_item" and b = "''abcdefgh''" and len = 8 and m = initial_mem and fmt = False]
    sample_item_printable sample_item_text by (fastforce simp: INT_MAX_size_def)

text \<open>C6: For every first buffer size that is not negative, \<open>cJSON_PrintBuffered\<close> returns the same text, accounts
  for its blocks, and does return it when the heap serves every request (up to the size limit), except that a
  size of 0 needs the hooks to have \<open>realloc\<close>.  A negative size gives null.\<close>

theorem cJSON_PrintBuffered_renders:
  assumes "\<And>i. item = Some i \<Longrightarrow> printable i"
    and "prebuffer \<le> INT_MAX" and "0 < prebuffer \<or> has_realloc m"
  shows "\<exists>r m'. cJSON_PrintBuffered item prebuffer fmt m = Some (r, m') \<and>
    live m' = live m + (if r = None then 0 else 1) \<and>
    (\<forall>s. r = Some s \<longrightarrow> (\<exists>t. render_item fmt item = Some t \<and> cstring s = t \<and> length t < length s)) \<and>
    (\<forall>t. render_item fmt item = Some t \<and> 0 \<le> prebuffer \<and> (\<forall>i. may_alloc m i) \<and> length t + 2 \<le> INT_MAX_size \<longrightarrow> r \<noteq> None)"
  by (rule buffered_outcome [OF assms])

text \<open>The buffer of one byte has to grow.\<close>

theorem cJSON_PrintBuffered_renders_witness:
  "\<exists>s m'. cJSON_PrintBuffered (Some sample_item) 1 False initial_mem = Some (Some s, m') \<and>
    live m' = live initial_mem + 1 \<and> cstring s = ''[true]''"
  using cJSON_PrintBuffered_renders [where item = "Some sample_item" and prebuffer = 1 and m = initial_mem and fmt = False]
    sample_item_printable sample_item_text by (fastforce simp: INT_MAX_size_def initial_mem_def)

lemma number_reads_back:
  assumes "wf_double d" and "is_finite d"
  shows "\<exists>d'. strtod (number_text d) = (d', length (number_text d)) \<and> (d' = d \<or> compare_double d' d) \<and>
    length (number_text d) + 1 \<le> 26"
proof -
  obtain s m e where d: "d = Finite s m e" using assms(2) by (cases d) auto
  have c: "canonical m e" using assms(1) d by simp
  obtain r where r: "strtod (sprintf_g 15 d) = (r, length (sprintf_g 15 d))"
    using strtod_sprintf_g [OF assms, of 15] by auto
  have l: "length (number_text d) \<le> 24" using nulfree_number_text(2) [OF assms(1)] .
  show ?thesis
  proof (cases "compare_double r d \<and> length (sprintf_g 15 d) \<noteq> 0")
    case True
    then have "number_text d = sprintf_g 15 d" using r d by (simp add: number_text_def Let_def del: sprintf_g.simps)
    then show ?thesis using r True l by auto
  next
    case False
    then have "number_text d = sprintf_g 17 d"
      using r d by (auto simp: number_text_def Let_def simp del: sprintf_g.simps)
    then show ?thesis using strtod_sprintf_17 [OF c, of s] l d by auto
  qed
qed

text \<open>Without \<open>realloc\<close> and with a first buffer of size 0, \<open>ensure\<close> copies the byte at the
  offset out of an empty block.\<close>

theorem cJSON_PrintBuffered_empty_buffer:
  "cJSON_PrintBuffered (Some (Item cJSON_NULL None 0 zero_double None [])) 0 False
     (initial_mem\<lparr>has_realloc := False\<rparr>) = None"
  by (simp add: cJSON_PrintBuffered_def allocate_def initial_mem_def print_value_opt_def Let_def
      with_space_def ensure_def start_buffer_def fresh_block_def INT_MAX_size_def bind_eq_None_conv)

text \<open>C7: A printed number reads back to itself, or to a double within the relative tolerance of
  \<^term>\<open>compare_double\<close>, and its text fits the 26-byte buffer it is formatted into.\<close>

theorem number_text_reads_back:
  assumes "wf_double d" and "is_finite d"
  shows "\<exists>d'. strtod (number_text d) = (d', length (number_text d)) \<and> (d' = d \<or> compare_double d' d) \<and>
    length (number_text d) + 1 \<le> 26"
  by (rule number_reads_back [OF assms])

theorem number_text_reads_back_witness:
  "\<exists>d'. strtod (number_text (double_of_int 7)) = (d', length (number_text (double_of_int 7))) \<and>
    (d' = double_of_int 7 \<or> compare_double d' (double_of_int 7)) \<and> length (number_text (double_of_int 7)) + 1 \<le> 26"
proof -
  have "wf_double (double_of_int 7)" "is_finite (double_of_int 7)"
    using round_ratio_int(1,4) [of "(7, 1)" 7 False] by (simp_all add: double_of_int_def qval_of_nat)
  then show ?thesis by (rule number_text_reads_back)
qed

text \<open>The second alternative occurs: the tolerance accepts 15 digits for a number that needs 17,
  so \<open>0.1 + 0.2\<close> is printed as \<open>0.3\<close>.\<close>

theorem number_text_rounds:
  "number_text (Finite False 5404319552844596 (- 54)) = ''0.3'' \<and>
   fst (strtod ''0.3'') = Finite False 5404319552844595 (- 54)"
proof -
  have t: "sprintf_g 15 (Finite False 5404319552844596 (- 54)) = ''0.3''" by (simp add: double_eval)
  have r: "strtod ''0.3'' = (Finite False 5404319552844595 (- 54), 3)" by (simp add: double_eval)
  have c: "compare_double (Finite False 5404319552844595 (- 54)) (Finite False 5404319552844596 (- 54))"
    by (simp add: compare_double_def double_eval)
  show ?thesis by (simp add: number_text_def t r c del: sprintf_g.simps)
qed

text \<open>An integer of at most 15 digits is printed as its decimal digits.\<close>

lemma number_text_int:
  assumes "\<bar>n\<bar> < 10 ^ 15"
  shows "number_text (double_of_int n) = (if n < 0 then ''-'' else []) @ show_nat (nat \<bar>n\<bar>)"
proof -
  have "(10 :: int) ^ 15 < 2 ^ 53" by simp
  then have b: "\<bar>n\<bar> < 2 ^ 53" using assms by (rule less_trans [rotated])
  have k: "nat \<bar>n\<bar> < 2 ^ 53" using b by (simp add: nat_less_iff)
  have fin: "is_finite (double_of_int n)"
    using round_ratio_int(4) [of "(nat \<bar>n\<bar>, 1)" "nat \<bar>n\<bar>" "n < 0"] k by (simp add: double_of_int_def qval_of_nat)
  have t: "sprintf_g 15 (double_of_int n) = (if n < 0 then ''-'' else []) @ show_nat (nat \<bar>n\<bar>)"
    by (rule sprintf_int [OF assms b])
  have c: "compare_double (double_of_int n) (double_of_int n)" by (rule compare_double_refl [OF fin])
  have "double_of_int n \<noteq> NaN" using fin by auto
  then show ?thesis using strtod_int [OF b] fin c by (simp add: number_text_def t Let_def)
qed

end
