(* ===== verification/Roundtrip.thy ===== *)
theory Roundtrip
  imports Printer_Correct
begin

text \<open>
  Parsing what was printed: with a heap that serves every request, \<open>cJSON_Parse\<close> of a rendered
  item gives the item back, with each number replaced by the number that its text denotes.  With a comma in
  place of its closing brace, the text of an object is read one byte past its end.
\<close>

section \<open>The input ahead\<close>

definition look :: "parse_buffer \<Rightarrow> string" where
  "look b = drop (offset b) (take (buflen b) (content b))"

definition valid :: "parse_buffer \<Rightarrow> bool" where
  "valid b \<longleftrightarrow> buflen b \<le> length (content b) \<and> (\<forall>i. may_alloc (bmem b) i)"

text \<open>The buffer after \<open>n\<close> bytes, with a heap that still serves every request.\<close>

definition ahead :: "parse_buffer \<Rightarrow> nat \<Rightarrow> parse_buffer \<Rightarrow> bool" where
  "ahead b n b' \<longleftrightarrow> (\<exists>m. b' = b\<lparr>offset := offset b + n, bmem := m\<rparr> \<and> (\<forall>i. may_alloc m i))"

lemma look_length: "valid b \<Longrightarrow> length (look b) = buflen b - offset b"
  by (simp add: look_def valid_def)

lemma look_ahead: "ahead b n b' \<Longrightarrow> look b' = drop n (look b)"
  by (auto simp: ahead_def look_def add.commute)

lemma look_upd [simp]:
  "look (b\<lparr>depth := d\<rparr>) = look b" "look (b\<lparr>bmem := m\<rparr>) = look b"
  "valid (b\<lparr>depth := d\<rparr>) = valid b" "valid (b\<lparr>offset := k\<rparr>) = valid b"
  by (simp_all add: look_def valid_def)

lemma look_offset: "look (b\<lparr>offset := offset b + n\<rparr>) = drop n (look b)"
  by (simp add: look_def add.commute)

lemma ahead_valid: "ahead b n b' \<Longrightarrow> valid b \<Longrightarrow> valid b'"
  by (auto simp: ahead_def valid_def)

lemma ahead_refl: "valid b \<Longrightarrow> ahead b 0 b"
  unfolding ahead_def valid_def by (intro exI [of _ "bmem b"]) auto

lemma ahead_step: "valid b \<Longrightarrow> ahead b n (b\<lparr>offset := offset b + n\<rparr>)"
  unfolding ahead_def valid_def by (intro exI [of _ "bmem b"]) auto

lemma ahead_trans: "ahead a i b \<Longrightarrow> ahead b j c \<Longrightarrow> ahead a (i + j) c"
  unfolding ahead_def by (elim exE conjE, rule exI, intro conjI) (auto simp: add.assoc)

lemma ahead_fields: "ahead b n b' \<Longrightarrow> depth b' = depth b \<and> buflen b' = buflen b \<and> offset b' = offset b + n"
  by (auto simp: ahead_def)

lemma access_look: "valid b \<Longrightarrow> can_access_at_index b i \<longleftrightarrow> i < length (look b)"
  by (auto simp: look_length can_access_at_index_def)

lemma at_look:
  assumes "valid b" "i < length (look b)"
  shows "at_offset b i = Some (look b ! i)"
proof -
  have "offset b + i < buflen b" using assms by (simp add: look_length)
  moreover from this have "offset b + i < length (content b)" using assms(1) by (simp add: valid_def)
  ultimately show ?thesis by (simp add: at_offset_def peek_def look_def)
qed

lemma next_look: "valid b \<Longrightarrow> next_is c b = Some (look b \<noteq> [] \<and> hd (look b) = c)"
  using at_look [of b 0] by (auto simp: next_is_def access_look hd_conv_nth)

lemma literal_at_take:
  "i + length w \<le> length s \<Longrightarrow> literal_at s i w = Some (take (length w) (drop i s) = w)"
proof (induction w arbitrary: i)
  case (Cons c w)
  have "drop i s = s ! i # drop (Suc i) s" using Cons(2) by (simp add: Cons_nth_drop_Suc)
  with Cons show ?case by (simp add: peek_def)
qed simp

lemma keyword_look:
  assumes "valid b"
  shows "keyword_at w b = Some (take (length w) (look b) = w \<and> (w = [] \<longrightarrow> offset b \<le> buflen b))"
proof (cases "offset b + length w \<le> buflen b")
  case True
  then have "take (length w) (look b) = take (length w) (drop (offset b) (content b))"
    by (simp add: look_def drop_take min_absorb1)
  with True assms literal_at_take [of "offset b" w "content b"] show ?thesis
    by (auto simp: keyword_at_def can_read_def valid_def)
next
  case False
  then have "length (look b) < length w \<or> w = []" using assms by (cases w) (auto simp: look_length)
  then have "take (length w) (look b) = w \<longrightarrow> w = []" by auto
  with False show ?thesis by (auto simp: keyword_at_def can_read_def)
qed

definition blanks :: "string \<Rightarrow> bool" where
  "blanks ws \<longleftrightarrow> (\<forall>c \<in> set ws. ord c \<le> 32)"

lemma blanks_simps [simp]: "blanks []" "blanks (c # ws) \<longleftrightarrow> ord c \<le> 32 \<and> blanks ws"
  "blanks (ws @ vs) \<longleftrightarrow> blanks ws \<and> blanks vs"
  by (auto simp: blanks_def)

lemma blanks_tabs [simp]: "blanks (tabs n)"
  by (auto simp: tabs_def blanks_def)

lemma skip_look:
  assumes "valid b" "look b = ws @ c # r" "blanks ws" "32 < ord c"
  shows "buffer_skip_whitespace b = Some (b\<lparr>offset := offset b + length ws\<rparr>)"
proof -
  have sl: "skip_loop b = Some (b\<lparr>offset := offset b + length ws\<rparr>)"
    using assms
  proof (induction ws arbitrary: b)
    case Nil
    have "at_offset b 0 = Some c" using Nil at_look [of b 0] by simp
    moreover have "can_access_at_index b 0" using Nil by (simp add: access_look)
    moreover have "b = b\<lparr>offset := offset b\<rparr>" by simp
    ultimately show ?case using Nil(4) by (subst skip_loop.simps) simp
  next
    case (Cons x ws)
    have "at_offset b 0 = Some x" using Cons(2,3) at_look [of b 0] by simp
    moreover have "can_access_at_index b 0" using Cons(2,3) by (simp add: access_look)
    ultimately have "skip_loop b = skip_loop (b\<lparr>offset := offset b + 1\<rparr>)"
      using Cons(4) by (subst skip_loop.simps) simp
    moreover have "look (b\<lparr>offset := offset b + 1\<rparr>) = ws @ c # r"
      using Cons(3) look_offset [of b 1] by simp
    moreover have "blanks ws" "valid (b\<lparr>offset := offset b + 1\<rparr>)" using Cons(2,4) by simp_all
    ultimately show ?case using Cons.IH [of "b\<lparr>offset := offset b + 1\<rparr>"] Cons(5) by simp
  qed
  have "offset b + length ws < buflen b" using assms(1,2) look_length [of b] by simp
  then show ?thesis using sl assms(1,2) by (simp add: buffer_skip_whitespace_def access_look)
qed

section \<open>Numbers\<close>

lemma numeric_number_char: "numeric t \<Longrightarrow> \<forall>c \<in> set t. number_char c"
proof
  fix c assume "numeric t" "c \<in> set t"
  then have "isdigit c \<or> c \<in> set ''+-e.''" by (auto simp: numeric_def)
  then show "number_char c"
  proof
    assume "isdigit c"
    then have "48 \<le> ord c" "ord c \<le> 57" by (simp_all add: isdigit_def)
    then have "ord c \<in> set (map ord ''0123456789'')" by simp presburger
    then have "c \<in> set ''0123456789''" by (simp only: set_map image_iff ord_inj) blast
    then show ?thesis by (auto simp: number_char_def)
  qed (auto simp: number_char_def)
qed

lemma copy_number_look:
  assumes "valid b" "drop i (look b) = t @ c # r" "\<forall>x \<in> set t. number_char x" "\<not> number_char c"
    "i + length t \<le> 63" "i \<le> length (look b)"
  shows "copy_number b i = Some t"
  using assms
proof (induction t arbitrary: i)
  case Nil
  then have "i < length (look b)" by (metis append_Nil drop_all list.distinct(1) not_le)
  moreover have "look b ! i = c" using Nil(2) calculation by (metis append_Nil nth_via_drop)
  ultimately show ?case using Nil by (subst copy_number.simps) (simp add: at_look access_look)
next
  case (Cons x t)
  have lt: "i < length (look b)" using Cons(3) by (metis Cons_eq_appendI drop_all list.distinct(1) not_le)
  have x: "look b ! i = x" using Cons(3) by (metis Cons_eq_appendI nth_via_drop)
  have "drop (i + 1) (look b) = t @ c # r" using Cons(3) 
    using Cons_nth_drop_Suc [OF lt] by simp
  from Cons.IH [OF Cons(2) this] Cons(4-6) lt have "copy_number b (i + 1) = Some t" by simp
  then show ?case using Cons(4,6) lt x Cons(2)
    by (subst copy_number.simps) (simp add: at_look access_look)
qed

lemma parse_number_look:
  assumes v: "valid b" and l: "look b = number_text d @ c # r" and c: "\<not> number_char c"
    and d: "wf_double d" "is_finite d"
  shows "\<exists>d' vi. fst (strtod (number_text d)) = d' \<and> saturate d' = Some vi \<and>
    parse_number item b = Some (True, set_type cJSON_Number (set_valueint vi (set_valuedouble d' item)),
      b\<lparr>offset := offset b + length (number_text d)\<rparr>)"
proof -
  obtain d' where r: "strtod (number_text d) = (d', length (number_text d))"
    "length (number_text d) + 1 \<le> 26" using number_reads_back [OF d] by blast
  have "d \<noteq> NaN" using d(2) by auto
  then have "number_text d = sprintf_g 15 d \<or> number_text d = sprintf_g 17 d"
    using d(2) by (auto simp: number_text_def Let_def split: prod.splits)
  moreover have "sprintf_g 15 d \<noteq> []" "sprintf_g 17 d \<noteq> []"
    using numeric_sprintf_g_start [OF d, of 15] numeric_sprintf_g_start [OF d, of 17] by auto
  ultimately have num: "numeric (number_text d)" "number_text d \<noteq> []"
    using numeric_sprintf_g [OF d(2)] by metis+
  obtain vi where vi: "saturate d' = Some vi"
    using saturate_defined strtod_post(2) [OF r(1)] by blast
  have "copy_number b 0 = Some (number_text d)"
    using copy_number_look [OF v, of 0 "number_text d"] l numeric_number_char [OF num(1)] c r(2) by simp
  then have "parse_number item b = Some (True, set_type cJSON_Number (set_valueint vi (set_valuedouble d' item)),
      b\<lparr>offset := offset b + length (number_text d)\<rparr>)"
    using r(1) vi num(2) by (simp add: parse_number_def)
  with r(1) vi show ?thesis by simp
qed


section \<open>Strings\<close>

lemma hex4_loop_local:
  assumes "p + 4 \<le> length s"
  shows "hex4_loop s p i h = hex4_loop (take 4 (drop p s)) 0 i h"
  using assms
proof (induction s p i h rule: hex4_loop.induct)
  case (1 s p i h)
  show ?case
  proof (cases "i < 4")
    case True
    then have rd: "peek s (p + i) = Some (s ! (p + i))" "peek (take 4 (drop p s)) i = Some (s ! (p + i))"
      using 1(2) by (simp_all add: peek_def)
    have IH: "hex4_loop s p (i + 1) (if i < 3 then push_bit 4 x else x) =
        hex4_loop (take 4 (drop p s)) 0 (i + 1) (if i < 3 then push_bit 4 x else x)"
      if "(if 48 \<le> ord (s ! (p + i)) \<and> ord (s ! (p + i)) \<le> 57 then Some (h + of_nat (ord (s ! (p + i))) - 48)
               else if 65 \<le> ord (s ! (p + i)) \<and> ord (s ! (p + i)) \<le> 70 then Some (h + 10 + of_nat (ord (s ! (p + i))) - 65)
               else if 97 \<le> ord (s ! (p + i)) \<and> ord (s ! (p + i)) \<le> 102 then Some (h + 10 + of_nat (ord (s ! (p + i))) - 97)
               else None) = Some x" for x
      by (rule 1(1) [OF True rd(1) that 1(2)])
    show ?thesis
      unfolding hex4_loop.simps [of s p i h] hex4_loop.simps [of "take 4 (drop p s)" 0 i h]
      using True rd IH by (simp add: Let_def split: option.splits)
  next
    case False
    then show ?thesis by (simp add: hex4_loop.simps [of s p i h] hex4_loop.simps [of "take 4 (drop p s)" 0 i h])
  qed
qed

lemma control_escapes:
  "list_all (\<lambda>n. hex4_loop (''00'' @ [hex_digit (n div 16), hex_digit (n mod 16)]) 0 0 0 = Some (of_nat n)) [0..<32]"
  "list_all (\<lambda>n. encode_utf8 (of_nat n) = Some [char_of n]) [0..<32]"
  by (simp_all add: hex4_loop.simps upt_rec peek_def hex_digit_def encode_utf8_def byte_of_def)

lemma control_escape:
  assumes "n < 32"
  shows "hex4_loop (''00'' @ [hex_digit (n div 16), hex_digit (n mod 16)]) 0 0 0 = Some (of_nat n)"
    "encode_utf8 (of_nat n) = Some [char_of n]" "(of_nat n :: u32) < 0xD800"
proof -
  have n: "n \<in> set [0..<32]" using assms by (simp only: set_upt atLeastLessThan_iff zero_le)
  show "hex4_loop (''00'' @ [hex_digit (n div 16), hex_digit (n mod 16)]) 0 0 0 = Some (of_nat n)"
    using bspec [OF control_escapes(1) [unfolded list_all_iff] n] .
  show "encode_utf8 (of_nat n) = Some [char_of n]"
    using bspec [OF control_escapes(2) [unfolded list_all_iff] n] .
  show "(of_nat n :: u32) < 0xD800" using assms by (simp add: word_less_nat_alt unat_of_nat)
qed

lemma utf16_control:
  assumes s: "drop p s = (CHR 0x5C # hex_escape c) @ r" and e: "p + 6 \<le> e" and c: "ord c < 32"
    and cap: "length out + 1 \<le> cap"
  shows "utf16_literal_to_utf8 s p e cap out = Some (6, out @ [c])"
proof -
  have len: "p + 6 \<le> length s"
  proof -
    have "length (drop p s) \<ge> 6" unfolding s by (simp add: hex_escape_def)
    then show ?thesis by simp
  qed
  have "drop (p + 2) s = drop 2 (drop p s)" by (simp add: add.commute)
  then have "take 4 (drop (p + 2) s) = ''00'' @ [hex_digit (ord c div 16), hex_digit (ord c mod 16)]"
    unfolding s by (simp add: hex_escape_def)
  then have h: "parse_hex4 s (Suc (Suc p)) = Some (of_nat (ord c))"
    using hex4_loop_local [of "p + 2" s 0 0] len control_escape(1) [OF c] by (simp add: parse_hex4_def)
  have small: "(of_nat (ord c) :: u32) < 0xD800" by (rule control_escape(3) [OF c])
  have n1: "\<not> (0xDC00 \<le> (of_nat (ord c) :: u32) \<and> (of_nat (ord c) :: u32) \<le> 0xDFFF)"
  proof
    assume a: "0xDC00 \<le> (of_nat (ord c) :: u32) \<and> (of_nat (ord c) :: u32) \<le> 0xDFFF"
    have "(0xD800 :: u32) \<le> 0xDC00" by simp
    also have "\<dots> \<le> of_nat (ord c)" using a by blast
    finally show False using small by simp
  qed
  have n2: "\<not> (0xD800 \<le> (of_nat (ord c) :: u32) \<and> (of_nat (ord c) :: u32) \<le> 0xDBFF)"
    using small by (simp add: not_le)
  have "put cap out [c] = Some (out @ [c])" using cap by (simp add: put_def)
  then show ?thesis
    using e by (simp add: utf16_literal_to_utf8_def h if_not_P [OF n1] if_not_P [OF n2]
        control_escape(2) [OF c] del: bind_Some_iff)
qed

text \<open>The two passes over an escaped string.\<close>

definition escaped_count :: "string \<Rightarrow> nat" where
  "escaped_count v = length (filter (\<lambda>c. escape c \<noteq> [c]) v)"

lemma escape_cases:
  obtains (plain) "escape c = [c]" "c \<noteq> CHR 0x22" "c \<noteq> CHR 0x5C"
  | (letter) e where "escape c = [CHR 0x5C, e]" "simple_escape e = Some c"
  | (control) "escape c = CHR 0x5C # hex_escape c" "ord c < 32"
proof (cases "31 < ord c \<and> c \<noteq> CHR 0x22 \<and> c \<noteq> CHR 0x5C")
  case True
  then show ?thesis using plain by (simp add: escape_def)
next
  case False
  show ?thesis
  proof (cases "escape_letter c")
    case (Some e)
    have "escape c = [CHR 0x5C, e]" unfolding escape_def if_not_P [OF False] Some by simp
    moreover have "simple_escape e = Some c"
      using Some by (auto simp: escape_letter_def simple_escape_def split: if_splits)
    ultimately show ?thesis by (rule letter)
  next
    case None
    then have "c \<noteq> CHR 0x22" "c \<noteq> CHR 0x5C" by (auto simp: escape_letter_def)
    with False have "ord c < 32" by simp
    moreover have "escape c = CHR 0x5C # hex_escape c" unfolding escape_def if_not_P [OF False] None by simp
    ultimately show ?thesis using control by blast
  qed
qed

lemma drop_step:
  assumes "drop i s = x @ y"
  shows "drop (i + length x) s = y" "length x \<le> length s - i" "\<And>j. j < length x \<Longrightarrow> s ! (i + j) = x ! j \<and> i + j < length s"
proof -
  have d: "drop (i + length x) s = drop (length x) (drop i s)" by (simp add: add.commute)
  show "drop (i + length x) s = y" unfolding d assms by simp
  have l: "length (drop i s) = length x + length y" unfolding assms by simp
  then show "length x \<le> length s - i" by simp
  fix j assume j: "j < length x"
  then have "i + j < length s" using l by simp
  moreover have "drop i s ! j = x ! j" unfolding assms using j by (simp add: nth_append)
  ultimately show "s ! (i + j) = x ! j \<and> i + j < length s" by simp
qed

lemma scan_plain:
  assumes "drop i s = x @ y" "CHR 0x22 \<notin> set x" "CHR 0x5C \<notin> set x" "i + length x \<le> len"
  shows "scan_string s len i k = scan_string s len (i + length x) k"
  using assms
proof (induction x arbitrary: i)
  case (Cons c x)
  have rd: "s ! i = c \<and> i < length s" using drop_step(3) [OF Cons(2), of 0] by simp
  have d: "drop (i + 1) s = x @ y" using drop_step(1) [of i s "[c]" "x @ y"] Cons(2) by simp
  have "scan_string s len i k = scan_string s len (i + 1) k"
    using rd Cons(3-5) by (subst scan_string.simps) (auto simp: peek_def)
  with Cons.IH [OF d] Cons(3-5) show ?case by simp
qed simp

lemma scan_escaped:
  assumes "drop i s = concat (map escape v) @ CHR 0x22 # r" "i + length (concat (map escape v)) < len" "len \<le> length s"
  shows "scan_string s len i k = Some (Some (i + length (concat (map escape v)), k + escaped_count v))"
  using assms
proof (induction v arbitrary: i k)
  case Nil
  then have "s ! i = CHR 0x22 \<and> i < length s" using drop_step(3) [of i s "[CHR 0x22]" r 0] by simp
  with Nil show ?case by (subst scan_string.simps) (simp add: peek_def escaped_count_def)
next
  case (Cons c v)
  have d: "drop i s = escape c @ concat (map escape v) @ CHR 0x22 # r" using Cons(2) by simp
  have d2: "drop (i + length (escape c)) s = concat (map escape v) @ CHR 0x22 # r"
    by (rule drop_step(1) [OF d])
  have IH: "scan_string s len (i + length (escape c)) k' =
      Some (Some (i + length (escape c) + length (concat (map escape v)), k' + escaped_count v))" for k'
    using Cons.IH [OF d2] Cons(3,4) by simp
  have le: "i + length (escape c) \<le> len" using Cons(3) by simp
  show ?case
  proof (cases rule: escape_cases [of c])
    case plain
    have "scan_string s len i k = scan_string s len (i + length (escape c)) k"
      by (rule scan_plain [OF d _ _ le]) (use plain in auto)
    with IH plain show ?thesis by (simp add: escaped_count_def)
  next
    case (letter e)
    have rd: "s ! i = CHR 0x5C \<and> i < length s" using drop_step(3) [OF d, of 0] letter by simp
    have "scan_string s len i k = scan_string s len (i + 2) (k + 1)"
      using rd le letter by (subst scan_string.simps) (simp add: peek_def)
    with IH [of "k + 1"] letter show ?thesis by (simp add: escaped_count_def)
  next
    case control
    have rd: "s ! i = CHR 0x5C \<and> i < length s" using drop_step(3) [OF d, of 0] control by simp
    have lh: "length (hex_escape c) = 5" by (simp add: hex_escape_def)
    have step: "scan_string s len i k = scan_string s len (i + 2) (k + 1)"
      using rd le control lh by (subst scan_string.simps) (simp add: peek_def)
    have split: "escape c = [CHR 0x5C, CHR ''u''] @ tl (hex_escape c)" using control by (simp add: hex_escape_def)
    have d3: "drop (i + 2) s = tl (hex_escape c) @ concat (map escape v) @ CHR 0x22 # r"
      using drop_step(1) [of i s "[CHR 0x5C, CHR ''u'']" "tl (hex_escape c) @ concat (map escape v) @ CHR 0x22 # r"]
        d split by (simp add: numeral_2_eq_2)
    have hx: "hex_digit n \<noteq> CHR 0x22 \<and> hex_digit n \<noteq> CHR 0x5C" if "n < 16" for n
    proof -
      have "list_all (\<lambda>n. hex_digit n \<noteq> CHR 0x22 \<and> hex_digit n \<noteq> CHR 0x5C) [0..<16]" by code_simp
      with that show ?thesis by (simp only: list_all_iff set_upt atLeastLessThan_iff) auto
    qed
    have "CHR 0x22 \<notin> set (tl (hex_escape c))" "CHR 0x5C \<notin> set (tl (hex_escape c))"
      using hx [of "ord c div 16"] hx [of "ord c mod 16"] less_mult_imp_div_less [of "ord c" 16 16] control
      by (auto simp: hex_escape_def)
    from scan_plain [OF d3 this, of len "k + 1"] le control lh
    have "scan_string s len (i + 2) (k + 1) = scan_string s len (i + length (escape c)) (k + 1)"
      by (simp add: add.commute [of 6 i])
    moreover have "hex_escape c \<noteq> []" by (simp add: hex_escape_def)
    ultimately show ?thesis using step IH [of "k + 1"] control by (simp add: escaped_count_def)
  qed
qed

lemma unescape_escaped:
  assumes "drop p s = concat (map escape v) @ CHR 0x22 # r" "e = p + length (concat (map escape v))"
    "length out + length v \<le> cap"
  shows "unescape s e cap p out = Some (True, e, out @ v)"
  using assms
proof (induction v arbitrary: p out)
  case Nil
  then show ?case by (subst unescape.simps) simp
next
  case (Cons c v)
  have d: "drop p s = escape c @ concat (map escape v) @ CHR 0x22 # r" using Cons(2) by simp
  have d2: "drop (p + length (escape c)) s = concat (map escape v) @ CHR 0x22 # r"
    by (rule drop_step(1) [OF d])
  have IH: "unescape s e cap (p + length (escape c)) (out @ [c]) = Some (True, e, (out @ [c]) @ v)"
    using Cons.IH [OF d2] Cons(3,4) by simp
  have put: "put cap out [c] = Some (out @ [c])" using Cons(4) by (simp add: put_def)
  show ?case
  proof (cases rule: escape_cases [of c])
    case plain
    have rd: "s ! p = c \<and> p < length s" using drop_step(3) [OF d, of 0] plain by simp
    have "unescape s e cap p out = unescape s e cap (p + 1) (out @ [c])"
      using rd plain put Cons(3) by (subst unescape.simps) (simp add: peek_def)
    with IH plain show ?thesis by simp
  next
    case (letter x)
    have rd: "s ! p = CHR 0x5C \<and> p < length s" "s ! (p + 1) = x \<and> p + 1 < length s"
      using drop_step(3) [OF d, of 0] drop_step(3) [OF d, of 1] letter by simp_all
    have "unescape s e cap p out = unescape s e cap (p + 2) (out @ [c])"
      using rd letter put Cons(3) by (subst unescape.simps) (simp add: peek_def)
    with IH letter show ?thesis by (simp add: numeral_2_eq_2)
  next
    case control
    have lh: "length (hex_escape c) = 5" "hex_escape c = CHR ''u'' # tl (hex_escape c)" by (simp_all add: hex_escape_def)
    have rd: "s ! p = CHR 0x5C \<and> p < length s" "s ! (p + 1) = CHR ''u'' \<and> p + 1 < length s"
      using drop_step(3) [OF d, of 0] drop_step(3) [OF d, of 1] control by (simp_all add: hex_escape_def)
    have u: "utf16_literal_to_utf8 s p e cap out = Some (6, out @ [c])"
      by (rule utf16_control [of p s c "concat (map escape v) @ CHR 0x22 # r"])
         (use d control Cons(3,4) lh in auto)
    have "simple_escape (CHR ''u'') = None" by (simp add: simple_escape_def)
    then have "unescape s e cap p out = unescape s e cap (p + 6) (out @ [c])"
      using rd u Cons(3) control lh by (subst unescape.simps) (simp add: peek_def)
    with IH control lh show ?thesis by simp
  qed
qed

lemma escaped_count_bound: "length v + escaped_count v \<le> length (concat (map escape v))"
proof (induction v)
  case (Cons c v)
  have "1 + (if escape c \<noteq> [c] then 1 else 0) \<le> length (escape c)"
    by (cases rule: escape_cases [of c]) (auto simp: hex_escape_def)
  with Cons show ?case by (auto simp: escaped_count_def)
qed (simp add: escaped_count_def)

lemma parse_string_look:
  assumes v: "valid b" and l: "look b = quote s @ r" and n: "nulfree s"
  shows "\<exists>b'. parse_string item b = Some (True, set_type cJSON_String (set_valuestring (Some s) item), b') \<and>
    ahead b (length (quote s)) b'"
proof -
  define t where "t = concat (map escape s)"
  define o1 where "o1 = offset b"
  have l': "take (buflen b) (content b) = take o1 (take (buflen b) (content b)) @ quote s @ r"
    using l append_take_drop_id [of o1 "take (buflen b) (content b)"] by (simp add: look_def o1_def)
  have lq: "length (quote s) = length t + 2" by (simp add: quote_def t_def)
  then have lens: "o1 + length (quote s) \<le> buflen b" using look_length [OF v] l by (simp add: o1_def)
  have dr: "drop o1 (content b) = quote s @ r @ drop (buflen b) (content b)"
  proof -
    have "drop o1 (content b) = drop o1 (take (buflen b) (content b) @ drop (buflen b) (content b))" by simp
    also have "\<dots> = look b @ drop (buflen b) (content b)"
      using lens v by (simp add: look_def o1_def valid_def min_absorb2 del: append_take_drop_id)
    finally show ?thesis using l by simp
  qed
  then have d0: "content b ! o1 = CHR 0x22 \<and> o1 < length (content b)"
    using drop_step(3) [OF dr, of 0] by (simp add: quote_def)
  have d1: "drop (o1 + 1) (content b) = t @ CHR 0x22 # (r @ drop (buflen b) (content b))"
    using drop_step(1) [of o1 "content b" "[CHR 0x22]" "t @ CHR 0x22 # (r @ drop (buflen b) (content b))"] dr
    by (simp add: quote_def t_def)
  define e where "e = o1 + 1 + length t"
  have sc: "scan_string (content b) (buflen b) (o1 + 1) 0 = Some (Some (e, escaped_count s))"
    using scan_escaped [of "o1 + 1" "content b" s _ "buflen b" 0] d1 lens lq v
    by (simp add: t_def e_def valid_def)
  define al where "al = e - o1 - escaped_count s"
  have cap: "length s + 1 \<le> al + 1" using escaped_count_bound [of s] by (simp add: al_def e_def t_def)
  have un: "unescape (content b) e (al + 1) (o1 + 1) [] = Some (True, e, s)"
    using unescape_escaped [of "o1 + 1" "content b" s _ e "[]" "al + 1"] d1 cap by (simp add: t_def e_def)
  have put: "put (al + 1) s [NUL] = Some (s @ [NUL])" using cap by (simp add: put_def)
  obtain m where m: "allocate (bmem b) = (True, m)" "\<forall>i. may_alloc m i"
    using v by (auto simp: allocate_def valid_def)
  have at: "at_offset b 0 = Some (CHR 0x22)" using d0 by (simp add: at_offset_def peek_def o1_def)
  have "e < buflen b" using lens lq by (simp add: e_def)
  then have "parse_string item b = Some (True, set_type cJSON_String (set_valuestring (Some s) item),
      b\<lparr>offset := e + 1, bmem := m\<rparr>)"
    using at sc un put m(1) n
    by (simp add: parse_string_def Let_def o1_def [symmetric] al_def [simplified, symmetric] del: bind_Some_iff)
  moreover have "ahead b (length (quote s)) (b\<lparr>offset := e + 1, bmem := m\<rparr>)"
    unfolding ahead_def using m(2) by (intro exI [of _ m]) (simp add: e_def o1_def lq)
  ultimately show ?thesis by blast
qed


section \<open>What comes back\<close>

fun reparsed :: "string option \<Rightarrow> cJSON \<Rightarrow> cJSON" where
  "reparsed name (Item t vs vi vd s cs) =
     (let k = t AND 0xFF in
      if k = cJSON_False then Item cJSON_False None 0 zero_double name []
      else if k = cJSON_True then Item cJSON_True None 1 zero_double name []
      else if k = cJSON_Number \<and> is_finite vd then
        (let d = fst (strtod (number_text vd)) in Item cJSON_Number None (the (saturate d)) d name [])
      else if k = cJSON_String then Item cJSON_String (Some (text_of vs)) 0 zero_double name []
      else if k = cJSON_Array then Item cJSON_Array None 0 zero_double name (map (reparsed None) cs)
      else if k = cJSON_Object then
        Item cJSON_Object None 0 zero_double name (map (\<lambda>c. reparsed (Some (text_of (item_string c))) c) cs)
      else Item cJSON_NULL None 0 zero_double name [])"

text \<open>No raw text, whose meaning is the client's business, below the item.\<close>

fun no_raw :: "cJSON \<Rightarrow> bool" where
  "no_raw (Item t vs vi vd s cs) \<longleftrightarrow> t AND 0xFF \<noteq> cJSON_Raw \<and>
     (t AND 0xFF = cJSON_Array \<or> t AND 0xFF = cJSON_Object \<longrightarrow> (\<forall>c \<in> set cs. no_raw c))"

text \<open>The item that the parser fills: fresh, except for the name and the type that the parsing of
  the name left behind.\<close>

definition fresh_item :: "string option \<Rightarrow> cJSON \<Rightarrow> bool" where
  "fresh_item name item \<longleftrightarrow> (\<exists>t. item = Item t None 0 zero_double name [])"

lemma fresh_zero [simp]: "fresh_item None zero_item"
  by (simp add: fresh_item_def zero_item_def)

definition start_char :: "char \<Rightarrow> bool" where
  "start_char c \<longleftrightarrow> isdigit c \<or> c \<in> set (''-ntf[{'' @ [CHR 0x22])"

lemma start_char_visible:
  assumes "start_char c"
  shows "32 < ord c" "c \<noteq> CHR '']''" "c \<noteq> CHR ''}''" "c \<noteq> CHR 0xEF"
  using assms by (auto simp: start_char_def isdigit_def)

lemma render_start:
  assumes "render fmt d i = Some t" "printable i" "no_raw i"
  shows "\<exists>c r. t = c # r \<and> start_char c"
proof (cases i)
  case (Item ty vs vi vd s cs)
  define k where "k = ty AND 0xFF"
  note r = assms(1) [unfolded Item render.simps Let_def k_def [symmetric]]
  have vd: "wf_double vd" using assms(2) Item by simp
  have raw: "k \<noteq> cJSON_Raw" using assms(3) Item by (simp add: k_def)
  consider "k = cJSON_Number" | "k \<noteq> cJSON_Number" by blast
  then show ?thesis
  proof cases
    case 1
    then have t: "t = number_text vd" using r by simp
    have "\<exists>c r. sprintf_g P vd = c # r \<and> (isdigit c \<or> c = CHR ''-'')" if "is_finite vd" "0 < P" for P
      using numeric_sprintf_g_start [OF vd] that by blast
    from this [of 15] this [of 17] show ?thesis
      by (auto simp: t number_text_def Let_def start_char_def split: prod.splits)
  next
    case 2
    then show ?thesis using r raw by (auto simp: start_char_def quote_def split: if_splits)
  qed
qed

lemma number_char_not_start: "\<not> number_char NUL" "\<not> number_char CHR '',''" "\<not> number_char CHR '']''"
  "\<not> number_char CHR ''}''" "\<not> number_char CHR 0x0A"
  by (simp_all add: number_char_def)

section \<open>Scalars\<close>

text \<open>What the round trip of one item says.\<close>

definition returns :: "nat \<Rightarrow> string option \<Rightarrow> cJSON \<Rightarrow> string \<Rightarrow> bool" where
  "returns fuel name i t \<longleftrightarrow> (\<forall>b item c r. valid b \<longrightarrow> look b = t @ c # r \<longrightarrow> \<not> number_char c \<longrightarrow>
     fresh_item name item \<longrightarrow> depth b + height (reparsed name i) \<le> CJSON_NESTING_LIMIT \<longrightarrow> length (look b) < fuel \<longrightarrow>
     (\<exists>b'. parse_value fuel item b = Some (True, reparsed name i, b') \<and> ahead b (length t) b'))"

lemma dispatch_other:
  assumes v: "valid b" and l: "look b = c # r" and c: "c \<notin> set ''ntf''"
  shows "parse_dispatch array object item b =
    (if c = CHR 0x22 then parse_string item b
     else if c = CHR ''-'' \<or> isdigit c then parse_number item b
     else if c = CHR ''['' then array item b
     else if c = CHR ''{'' then object item b else Some (False, item, b))"
proof -
  have kw: "keyword_at w b = Some False" if "w \<noteq> []" "hd w \<in> set ''ntf''" for w
    using that keyword_look [OF v, of w] c l by (cases w) auto
  have num: "number_start b = Some (c = CHR ''-'' \<or> isdigit c)"
    using at_look [OF v, of 0] l access_look [OF v, of 0] by (auto simp: number_start_def isdigit_def)
  show ?thesis using kw [of "''null''"] kw [of "''false''"] kw [of "''true''"] num l
    by (simp add: parse_dispatch_def next_look [OF v] del: bind_Some_iff)
qed

lemma dispatch_words:
  assumes v: "valid b"
  shows "look b = ''null'' @ r \<Longrightarrow> parse_dispatch array object item b =
      Some (True, set_type cJSON_NULL item, b\<lparr>offset := offset b + 4\<rparr>)"
    "look b = ''false'' @ r \<Longrightarrow> parse_dispatch array object item b =
      Some (True, set_type cJSON_False item, b\<lparr>offset := offset b + 5\<rparr>)"
    "look b = ''true'' @ r \<Longrightarrow> parse_dispatch array object item b =
      Some (True, set_valueint 1 (set_type cJSON_True item), b\<lparr>offset := offset b + 4\<rparr>)"
  using keyword_look [OF v] by (simp_all add: parse_dispatch_def)

lemma word_returns:
  assumes v: "valid b" and fr: "fresh_item name item" and f: "0 < fuel" and
    l: "look b = w @ r"
    and w: "w = ''null'' \<and> i = Item cJSON_NULL None 0 zero_double name [] \<or>
     w = ''false'' \<and> i = Item cJSON_False None 0 zero_double name [] \<or>
     w = ''true'' \<and> i = Item cJSON_True None 1 zero_double name []"
  shows "\<exists>b'. parse_value fuel item b = Some (True, i, b') \<and> ahead b (length w) b'"
proof -
  obtain n where n: "fuel = Suc n" using f by (cases fuel) auto
  obtain t where item: "item = Item t None 0 zero_double name []" using fr by (auto simp: fresh_item_def)
  have "parse_value fuel item b = Some (True, i, b\<lparr>offset := offset b + length w\<rparr>)"
    using w l dispatch_words [OF v, of r] by (auto simp: n item)
  then show ?thesis using ahead_step [OF v, of "length w"] by auto
qed

lemma string_returns:
  assumes "nulfree s" "valid b" "look b = quote s @ r" "fresh_item name item" "0 < fuel"
  shows "\<exists>b'. parse_value fuel item b = Some (True, Item cJSON_String (Some s) 0 zero_double name [], b') \<and>
       ahead b (length (quote s)) b'"
proof -
  obtain n where n: "fuel = Suc n" using assms(5) by (cases fuel) auto
  obtain t where item: "item = Item t None 0 zero_double name []" using assms(4) by (auto simp: fresh_item_def)
  obtain b' where b': "parse_string item b = Some (True, set_type cJSON_String (set_valuestring (Some s) item), b')"
    "ahead b (length (quote s)) b'" using parse_string_look [OF assms(2,3,1)] by blast
  have "look b = CHR 0x22 # tl (look b)" using assms(3) by (simp add: quote_def)
  from dispatch_other [OF assms(2) this] b' show ?thesis by (auto simp: n item)
qed

lemma number_returns:
  assumes "wf_double d" "is_finite d" "valid b" "look b = number_text d @ c # r" "\<not> number_char c"
    "fresh_item name item" "0 < fuel"
  shows "\<exists>b'. parse_value fuel item b = Some (True, (let d' = fst (strtod (number_text d)) in
       Item cJSON_Number None (the (saturate d')) d' name []), b') \<and> ahead b (length (number_text d)) b'"
proof -
  obtain n where n: "fuel = Suc n" using assms(7) by (cases fuel) auto
  obtain t where item: "item = Item t None 0 zero_double name []" using assms(6) by (auto simp: fresh_item_def)
  obtain d' vi where p: "fst (strtod (number_text d)) = d'" "saturate d' = Some vi"
    "parse_number item b = Some (True, set_type cJSON_Number (set_valueint vi (set_valuedouble d' item)),
      b\<lparr>offset := offset b + length (number_text d)\<rparr>)"
    using parse_number_look [OF assms(3-5,1,2)] by blast
  have "d \<noteq> NaN" using assms(2) by auto
  then have "\<exists>x y. number_text d = x # y \<and> (isdigit x \<or> x = CHR ''-'')"
    using assms(2) numeric_sprintf_g_start [OF assms(1,2), of 15] numeric_sprintf_g_start [OF assms(1,2), of 17]
    by (auto simp: number_text_def Let_def split: prod.splits)
  then obtain x y where x: "number_text d = x # y" "isdigit x \<or> x = CHR ''-''" by blast
  then have "x \<notin> set ''ntf''" "x \<noteq> CHR 0x22" by (auto simp: isdigit_def)
  then have "parse_value fuel item b = parse_number item b"
    using dispatch_other [OF assms(3), of x "y @ c # r"] assms(4) x by (auto simp: n)
  then show ?thesis using p ahead_step [OF assms(3), of "length (number_text d)"]
    by (auto simp: item Let_def)
qed


section \<open>Arrays\<close>

lemma New_Item_valid:
  assumes "valid b"
  shows "\<exists>m. cJSON_New_Item (bmem b) = (Some zero_item, m) \<and> (\<forall>i. may_alloc m i)"
  using assms by (auto simp: cJSON_New_Item_def allocate_def valid_def)

lemma skip_none:
  assumes "valid b" "look b = c # r" "32 < ord c"
  shows "buffer_skip_whitespace b = Some b"
  using skip_look [of b "[]" c r] assms by simp

lemma render_elements_Cons:
  assumes "render_elements fmt d (c # cs) = Some te"
  obtains t ts where "render fmt d c = Some t" "render_elements fmt d cs = Some ts"
    "te = t @ (if cs = [] then [] else if fmt then '', '' else '','') @ ts"
  using assms by auto

lemma ahead_look: "ahead b n b' \<Longrightarrow> look b = x @ y \<Longrightarrow> length x = n \<Longrightarrow> look b' = y"
  by (auto simp: look_ahead)

lemma array_items_return:
  assumes "cs \<noteq> []" "render_elements fmt d cs = Some te" "valid b" "look b = x # ws @ te @ CHR '']'' # r" "blanks ws"
    "length (look b) \<le> n" "length (look b) \<le> f"
    "\<forall>c \<in> set cs. printable c \<and> no_raw c \<and> depth b + height (reparsed None c) \<le> CJSON_NESTING_LIMIT \<and>
       (\<forall>t. render fmt d c = Some t \<longrightarrow> returns f None c t)"
  shows "\<exists>b'. parse_array_items (parse_value f) n head b = Some (True, head @ map (reparsed None) cs, b') \<and>
    ahead b (1 + length ws + length te) b'"
  using assms
proof (induction cs arbitrary: te b x ws n head)
  case (Cons c cs)
  obtain t ts where t: "render fmt d c = Some t" "render_elements fmt d cs = Some ts"
    "te = t @ (if cs = [] then [] else if fmt then '', '' else '','') @ ts"
    using render_elements_Cons [OF Cons.prems(2)] by blast
  obtain t0 t' where start: "t = t0 # t'" "start_char t0" using render_start [OF t(1)] Cons.prems(8) by auto
  note vis = start_char_visible [OF start(2)]
  define tail where "tail = (if cs = [] then [] else (if fmt then '', '' else '','') @ ts) @ CHR '']'' # r"
  have ts0: "cs = [] \<Longrightarrow> ts = []" using t(2) by simp
  have lb: "look b = x # ws @ t @ tail"
    using Cons.prems(4) t(3) ts0 by (auto simp: tail_def)
  define h where "h = (if cs = [] then CHR '']'' else CHR '','')"
  define tail' where "tail' = tl tail"
  have tl: "tail = h # tail'" "\<not> number_char h" "32 < ord h" "h = CHR '','' \<longleftrightarrow> cs \<noteq> []"
    using number_char_not_start by (auto simp: tail_def h_def tail'_def)
  obtain n' where n: "n = Suc n'" using Cons.prems(4,6) by (cases n) auto
  obtain m where m: "cJSON_New_Item (bmem b) = (Some zero_item, m)" "\<forall>i. may_alloc m i"
    using New_Item_valid [OF Cons.prems(3)] by blast
  define b0 where "b0 = b\<lparr>bmem := m, offset := offset b + 1\<rparr>"
  have a0: "ahead b 1 b0" unfolding ahead_def b0_def using m(2) by (intro exI [of _ m]) simp
  have v0: "valid b0" using ahead_valid [OF a0 Cons.prems(3)] .
  have l0: "look b0 = ws @ t @ tail" using ahead_look [OF a0, of "[x]"] lb by simp
  define b1 where "b1 = b0\<lparr>offset := offset b0 + length ws\<rparr>"
  have sk: "buffer_skip_whitespace b0 = Some b1"
    using skip_look [OF v0, of ws t0 "t' @ tail"] l0 start vis Cons.prems(5) by (simp add: b1_def)
  have a1: "ahead b (1 + length ws) b1" unfolding b1_def by (rule ahead_trans [OF a0 ahead_step [OF v0]])
  have v1: "valid b1" using ahead_valid [OF a1 Cons.prems(3)] .
  have l1: "look b1 = t @ h # tail'" using ahead_look [OF a1, of "x # ws"] lb tl by simp
  have "returns f None c t" using Cons.prems(8) t(1) by simp
  moreover have "depth b1 + height (reparsed None c) \<le> CJSON_NESTING_LIMIT"
    using Cons.prems(8) ahead_fields [OF a1] by simp
  moreover have "length (look b1) < f" using Cons.prems(7) lb l1 tl by simp
  ultimately obtain b2 where b2: "parse_value f zero_item b1 = Some (True, reparsed None c, b2)" "ahead b1 (length t) b2"
    using v1 l1 tl(2) unfolding returns_def by (metis fresh_zero)
  have a2: "ahead b (1 + length ws + length t) b2" by (rule ahead_trans [OF a1 b2(2)])
  have v2: "valid b2" using ahead_valid [OF a2 Cons.prems(3)] .
  have l2: "look b2 = h # tail'" using ahead_look [OF b2(2) l1] by simp
  have sk2: "buffer_skip_whitespace b2 = Some b2" by (rule skip_none [OF v2 l2 tl(3)])
  have nx: "next_is (CHR '','') b2 = Some (cs \<noteq> [])" using next_look [OF v2] l2 tl(4) by simp
  have run: "parse_array_items (parse_value f) n head b =
      (if cs \<noteq> [] then parse_array_items (parse_value f) n' (head @ [reparsed None c]) b2
       else Some (True, head @ [reparsed None c], b2))"
    using m(1) sk b2(1) sk2 nx by (simp add: n b0_def [simplified, symmetric] del: bind_Some_iff)
  show ?case
  proof (cases "cs = []")
    case True
    then have "length te = length t" using t(3) ts0 by simp
    with True run a2 show ?thesis by simp
  next
    case False
    define ws2 where "ws2 = (if fmt then '' '' else [])"
    have l2': "look b2 = CHR '','' # ws2 @ ts @ CHR '']'' # r"
      using l2 tl(1) False by (auto simp: tail_def ws2_def)
    have "length (look b2) < length (look b)" using l2 tl lb by simp
    then have "\<exists>b'. parse_array_items (parse_value f) n' (head @ [reparsed None c]) b2 =
        Some (True, (head @ [reparsed None c]) @ map (reparsed None) cs, b') \<and> ahead b2 (1 + length ws2 + length ts) b'"
      using Cons.prems(6-8) ahead_fields [OF a2]
      by (intro Cons.IH [OF False t(2) v2 l2']) (auto simp: ws2_def n)
    then obtain b' where b': "parse_array_items (parse_value f) n' (head @ [reparsed None c]) b2 =
        Some (True, head @ map (reparsed None) (c # cs), b')" "ahead b2 (1 + length ws2 + length ts) b'" by auto
    have eq: "1 + length ws + length t + (1 + length ws2 + length ts) = 1 + length ws + length te"
      using t(3) False by (auto simp: ws2_def)
    have "ahead b (1 + length ws + length te) b'" using ahead_trans [OF a2 b'(2)] unfolding eq .
    with b'(1) run False show ?thesis by auto
  qed
qed simp

lemma ahead_close:
  assumes "ahead (b\<lparr>depth := depth b + 1\<rparr>) n b3"
  shows "ahead b (n + 1) (b3\<lparr>depth := depth b3 - 1, offset := offset b3 + 1\<rparr>)"
proof -
  obtain m where "b3 = b\<lparr>depth := depth b + 1, offset := offset b + n, bmem := m\<rparr>" "\<forall>i. may_alloc m i"
    using assms by (auto simp: ahead_def)
  then show ?thesis unfolding ahead_def by (intro exI [of _ m]) simp
qed

lemma array_returns:
  assumes te: "render_elements fmt d cs = Some te" and v: "valid b" and l: "look b = CHR ''['' # te @ CHR '']'' # r"
    and fr: "fresh_item name item" and f: "length (look b) \<le> f"
    and dep: "depth b < CJSON_NESTING_LIMIT"
    and IH: "\<forall>c \<in> set cs. printable c \<and> no_raw c \<and> depth b + 1 + height (reparsed None c) \<le> CJSON_NESTING_LIMIT \<and>
       (\<forall>t. render fmt d c = Some t \<longrightarrow> returns f None c t)"
  shows "\<exists>b'. parse_array (parse_value f) f item b =
      Some (True, Item cJSON_Array None 0 zero_double name (map (reparsed None) cs), b') \<and>
    ahead b (length te + 2) b'"
proof -
  obtain t where item: "item = Item t None 0 zero_double name []" using fr by (auto simp: fresh_item_def)
  define b1 where "b1 = b\<lparr>depth := depth b + 1\<rparr>"
  have v1: "valid b1" "look b1 = look b" using v by (simp_all add: b1_def)
  have at: "at_offset b1 0 = Some (CHR ''['')" using at_look [OF v1(1), of 0] v1(2) l by simp
  define b2 where "b2 = b1\<lparr>offset := offset b1 + 1\<rparr>"
  have a2: "ahead b1 1 b2" unfolding b2_def by (rule ahead_step [OF v1(1)])
  have v2: "valid b2" using ahead_valid [OF a2 v1(1)] .
  have l2: "look b2 = te @ CHR '']'' # r" using ahead_look [OF a2, of "[CHR ''['']"] v1(2) l by simp
  obtain h hr where h: "look b2 = h # hr" "32 < ord h" "h = CHR '']'' \<longleftrightarrow> cs = []"
  proof (cases cs)
    case Nil
    then show ?thesis using te l2 that by simp
  next
    case (Cons c cs')
    obtain t ts where t: "render fmt d c = Some t" "te = t @ (if cs' = [] then [] else if fmt then '', '' else '','') @ ts"
      using render_elements_Cons te Cons by metis
    obtain t0 t' where start: "t = t0 # t'" "start_char t0" using render_start [OF t(1)] IH Cons by auto
    show ?thesis using that [of t0] l2 t(2) start start_char_visible [OF start(2)] Cons by simp
  qed
  have sk: "buffer_skip_whitespace b2 = Some b2" by (rule skip_none [OF v2 h(1,2)])
  have nx: "next_is (CHR '']'') b2 = Some (cs = [])" using next_look [OF v2] h by simp
  have acc: "can_access_at_index b2 0" using access_look [OF v2] h(1) by simp
  have rewind: "b2\<lparr>offset := offset b2 - Suc 0\<rparr> = b1" by (simp add: b2_def b1_def)
  have run: "parse_array (parse_value f) f item b =
      (if cs = [] then Some (True, set_children [] (set_type cJSON_Array item),
          b2\<lparr>depth := depth b2 - 1, offset := offset b2 + 1\<rparr>)
       else do {
            (ok, head, b3) \<leftarrow> parse_array_items (parse_value f) f [] b1;
            closed \<leftarrow> (if ok then next_is (CHR '']'') b3 else Some False);
            if \<not> closed then Some (False, item, b3\<lparr>bmem := cJSON_Delete head (bmem b3)\<rparr>)
            else Some (True, set_children head (set_type cJSON_Array item),
                       b3\<lparr>depth := depth b3 - 1, offset := offset b3 + 1\<rparr>) })"
    using dep at sk nx acc rewind
    by (simp add: parse_array_def Let_def b1_def [simplified, symmetric] b2_def [simplified, symmetric] del: bind_Some_iff)
  show ?thesis
  proof (cases "cs = []")
    case True
    then have "te = []" using te by simp
    moreover have "ahead b 2 (b2\<lparr>depth := depth b2 - 1, offset := offset b2 + 1\<rparr>)"
      unfolding ahead_def b2_def b1_def using v by (intro exI [of _ "bmem b"]) (auto simp: valid_def)
    ultimately show ?thesis using run True by (auto simp: item numeral_2_eq_2)
  next
    case False
    have "length (look b1) \<le> f" using f v1(2) by simp
    with array_items_return [OF False te v1(1), of "CHR ''[''" "[]" r f f "[]"] IH l v1(2)
    obtain b3 where b3: "parse_array_items (parse_value f) f [] b1 = Some (True, map (reparsed None) cs, b3)"
      "ahead b1 (1 + length te) b3" by (auto simp: b1_def)
    have v3: "valid b3" using ahead_valid [OF b3(2) v1(1)] .
    have "look b3 = CHR '']'' # r" using ahead_look [OF b3(2), of "CHR ''['' # te"] v1(2) l by simp
    then have nx3: "next_is (CHR '']'') b3 = Some True" using next_look [OF v3] by simp
    have "ahead b (length te + 2) (b3\<lparr>depth := depth b3 - 1, offset := offset b3 + 1\<rparr>)"
      using ahead_close [of b "1 + length te" b3] b3(2) by (simp add: b1_def)
    with run False b3(1) nx3 show ?thesis by (auto simp: item)
  qed
qed


section \<open>Objects\<close>

text \<open>The text of the members without the indentation of the first one.\<close>

lemma render_members_Cons:
  assumes "render_members fmt d (c # cs) = Some te"
  obtains t ts where "render fmt d c = Some t" "render_members fmt d cs = Some ts"
    "te = (if fmt then tabs d else []) @ quote (text_of (item_string c)) @ CHR '':'' # (if fmt then [CHR 0x09] else []) @ t @
      (if cs = [] then [] else '','') @ (if fmt then [CHR 0x0A] else []) @ ts"
  using assms by (auto split: if_splits)

lemma member_returns:
  assumes v: "valid b" and l: "look b = ws @ quote k @ CHR '':'' # ws2 @ t @ h # r"
    and ws: "blanks ws" "blanks ws2" and h: "\<not> number_char h" and k: "nulfree k"
    and st: "t = t0 # t'" "start_char t0" and ret: "returns f (Some k) c t" and f: "length (look b) \<le> f"
    and dep: "depth b + height (reparsed (Some k) c) \<le> CJSON_NESTING_LIMIT"
  shows "\<exists>b'. parse_member (parse_value f) zero_item b = Some (True, reparsed (Some k) c, b') \<and>
    ahead b (length ws + length (quote k) + 1 + length ws2 + length t) b'"
proof -
  define b1 where "b1 = b\<lparr>offset := offset b + length ws\<rparr>"
  have qk: "quote k = CHR 0x22 # tl (quote k)" by (simp add: quote_def)
  have sk: "buffer_skip_whitespace b = Some b1"
    using skip_look [OF v, of ws "CHR 0x22" "tl (quote k) @ CHR '':'' # ws2 @ t @ h # r"] l ws qk by (simp add: b1_def)
  have a1: "ahead b (length ws) b1" unfolding b1_def by (rule ahead_step [OF v])
  have v1: "valid b1" using ahead_valid [OF a1 v] .
  have l1: "look b1 = quote k @ CHR '':'' # ws2 @ t @ h # r" using ahead_look [OF a1 l] by simp
  obtain b2 where b2: "parse_string zero_item b1 = Some (True, set_type cJSON_String (set_valuestring (Some k) zero_item), b2)"
    "ahead b1 (length (quote k)) b2" using parse_string_look [OF v1 l1 k] by blast
  have a2: "ahead b (length ws + length (quote k)) b2" by (rule ahead_trans [OF a1 b2(2)])
  have v2: "valid b2" using ahead_valid [OF a2 v] .
  have l2: "look b2 = CHR '':'' # ws2 @ t @ h # r" using ahead_look [OF b2(2) l1] by simp
  have sk2: "buffer_skip_whitespace b2 = Some b2" by (rule skip_none [OF v2 l2]) simp
  have nx: "next_is (CHR '':'') b2 = Some True" using next_look [OF v2] l2 by simp
  define b3 where "b3 = b2\<lparr>offset := offset b2 + 1\<rparr>"
  have a3: "ahead b (length ws + length (quote k) + 1) b3" unfolding b3_def by (rule ahead_trans [OF a2 ahead_step [OF v2]])
  have v3: "valid b3" using ahead_valid [OF a3 v] .
  have l3: "look b3 = ws2 @ t @ h # r" unfolding b3_def look_offset using l2 by simp
  define b4 where "b4 = b3\<lparr>offset := offset b3 + length ws2\<rparr>"
  have sk3: "buffer_skip_whitespace b3 = Some b4"
    using skip_look [OF v3, of ws2 t0 "t' @ h # r"] l3 st start_char_visible [OF st(2)] ws by (simp add: b4_def)
  have a4: "ahead b (length ws + length (quote k) + 1 + length ws2) b4" unfolding b4_def
    by (rule ahead_trans [OF a3 ahead_step [OF v3]])
  have v4: "valid b4" using ahead_valid [OF a4 v] .
  have l4: "look b4 = t @ h # r" unfolding b4_def look_offset using l3 by simp
  define cur where "cur = Item cJSON_String None 0 zero_double (Some k) []"
  have cur: "set_valuestring None (set_string (Some k) (set_type cJSON_String (set_valuestring (Some k) zero_item))) = cur"
    by (simp add: cur_def zero_item_def)
  have "fresh_item (Some k) cur" by (simp add: fresh_item_def cur_def)
  moreover have "length (look b4) < f" using f l l4 by simp
  moreover have "depth b4 = depth b" using ahead_fields [OF a4] by simp
  ultimately obtain b5 where b5: "parse_value f cur b4 = Some (True, reparsed (Some k) c, b5)" "ahead b4 (length t) b5"
    using ret v4 l4 h dep unfolding returns_def by metis
  have "parse_member (parse_value f) zero_item b = Some (True, reparsed (Some k) c, b5)"
    using sk b2(1) sk2 nx sk3 b5(1) cur
    by (simp add: parse_member_def Let_def b3_def [simplified, symmetric] del: bind_Some_iff)
  with ahead_trans [OF a4 b5(2)] show ?thesis by blast
qed

lemma object_items_return:
  assumes "cs \<noteq> []" "render_members fmt d cs = Some te" "te = (if fmt then tabs d else []) @ mt" "valid b"
    "look b = x # ws @ mt @ we @ CHR ''}'' # r" "blanks ws" "blanks we"
    "length (look b) \<le> n" "length (look b) \<le> f"
    "\<forall>c \<in> set cs. printable c \<and> no_raw c \<and>
       depth b + height (reparsed (Some (text_of (item_string c))) c) \<le> CJSON_NESTING_LIMIT \<and>
       (\<forall>t. render fmt d c = Some t \<longrightarrow> returns f (Some (text_of (item_string c))) c t)"
  shows "\<exists>b'. parse_object_items (parse_value f) n head b =
      Some (True, head @ map (\<lambda>c. reparsed (Some (text_of (item_string c))) c) cs, b') \<and>
    ahead b (1 + length ws + length mt + length we) b'"
  using assms
proof (induction cs arbitrary: te mt b x ws n head)
  case (Cons c cs)
  let ?k = "text_of (item_string c)"
  define ind where "ind = (if fmt then tabs d else [])"
  define nl where "nl = (if fmt then [CHR 0x0A] else [])"
  define ws2 where "ws2 = (if fmt then [CHR 0x09] else [])"
  obtain t ts where t: "render fmt d c = Some t" "render_members fmt d cs = Some ts"
    "te = ind @ quote ?k @ CHR '':'' # ws2 @ t @ (if cs = [] then [] else '','') @ nl @ ts"
    using render_members_Cons [OF Cons.prems(2)] unfolding ind_def nl_def ws2_def by blast
  have mt: "mt = quote ?k @ CHR '':'' # ws2 @ t @ (if cs = [] then [] else '','') @ nl @ ts"
    using t(3) Cons.prems(3) by (simp add: ind_def)
  have bl: "blanks nl" "blanks ws2" "blanks ind" by (simp_all add: nl_def ws2_def ind_def)
  obtain t0 t' where start: "t = t0 # t'" "start_char t0" using render_start [OF t(1)] Cons.prems(10) by auto
  have ts0: "cs = [] \<Longrightarrow> ts = []" using t(2) by simp
  define tail where "tail = (if cs = [] then [] else '','') @ nl @ ts @ we @ CHR ''}'' # r"
  define h where "h = hd tail"
  have tl: "tail = h # tl tail" by (simp add: tail_def h_def)
  have hn: "\<not> number_char h"
  proof (cases "cs = []")
    case True
    have nb: "\<not> number_char y" if "ord y \<le> 32" for y using that by (auto simp: number_char_def)
    have "ord h \<le> 32 \<or> h = CHR ''}''"
      using True Cons.prems(7) bl(1) ts0 by (cases nl; cases we) (auto simp: h_def tail_def)
    then show ?thesis using nb number_char_not_start by auto
  next
    case False
    then show ?thesis using number_char_not_start by (simp add: h_def tail_def)
  qed
  have lb: "look b = x # ws @ quote ?k @ CHR '':'' # ws2 @ t @ tail"
    using Cons.prems(5) mt by (simp add: tail_def)
  obtain n' where n: "n = Suc n'" using Cons.prems(8) lb by (cases n) auto
  obtain m where m: "cJSON_New_Item (bmem b) = (Some zero_item, m)" "\<forall>i. may_alloc m i"
    using New_Item_valid [OF Cons.prems(4)] by blast
  define b0 where "b0 = b\<lparr>bmem := m, offset := offset b + 1\<rparr>"
  have a0: "ahead b 1 b0" unfolding ahead_def b0_def using m(2) by (intro exI [of _ m]) simp
  have v0: "valid b0" using ahead_valid [OF a0 Cons.prems(4)] .
  have l0: "look b0 = ws @ quote ?k @ CHR '':'' # ws2 @ t @ h # tl tail"
    using ahead_look [OF a0, of "[x]"] lb tl by simp
  have nk: "nulfree ?k" using Cons.prems(10) by (cases c) auto
  have fu: "length (look b0) \<le> f" using look_ahead [OF a0] Cons.prems(9) by simp
  have dp: "depth b0 + height (reparsed (Some ?k) c) \<le> CJSON_NESTING_LIMIT" "returns f (Some ?k) c t"
    using Cons.prems(10) ahead_fields [OF a0] t(1) by simp_all
  obtain b2 where b2: "parse_member (parse_value f) zero_item b0 = Some (True, reparsed (Some ?k) c, b2)"
    "ahead b0 (length ws + length (quote ?k) + 1 + length ws2 + length t) b2"
    using member_returns [OF v0 l0 Cons.prems(6) bl(2) hn nk start dp(2) fu dp(1)] by blast
  have a2: "ahead b (1 + (length ws + length (quote ?k) + 1 + length ws2 + length t)) b2"
    by (rule ahead_trans [OF a0 b2(2)])
  have v2: "valid b2" using ahead_valid [OF a2 Cons.prems(4)] .
  have l2: "look b2 = tail" using ahead_look [OF a2, of "x # ws @ quote ?k @ CHR '':'' # ws2 @ t" tail] lb by simp
  show ?case
  proof (cases "cs = []")
    case True
    have l2': "look b2 = (nl @ we) @ CHR ''}'' # r" using l2 True ts0 by (simp add: tail_def)
    define b3 where "b3 = b2\<lparr>offset := offset b2 + length (nl @ we)\<rparr>"
    have sk: "buffer_skip_whitespace b2 = Some b3"
      using skip_look [OF v2 l2'] Cons.prems(7) bl by (simp add: b3_def)
    have a3: "ahead b (1 + (length ws + length (quote ?k) + 1 + length ws2 + length t) + length (nl @ we)) b3"
      unfolding b3_def by (rule ahead_trans [OF a2 ahead_step [OF v2]])
    have v3: "valid b3" using ahead_valid [OF a3 Cons.prems(4)] .
    have l3: "look b3 = CHR ''}'' # r" unfolding b3_def look_offset using l2' by simp
    have nx: "next_is (CHR '','') b3 = Some False" using next_look [OF v3] l3 by simp
    have eq: "1 + (length ws + length (quote ?k) + 1 + length ws2 + length t) + length (nl @ we) =
        1 + length ws + length mt + length we" using mt True ts0 by simp
    have "parse_object_items (parse_value f) n head b = Some (True, head @ [reparsed (Some ?k) c], b3)"
      using m(1) b2(1) sk nx by (simp add: n b0_def [simplified, symmetric] del: bind_Some_iff)
    then show ?thesis using True a3 unfolding eq by auto
  next
    case False
    have l2': "look b2 = CHR '','' # nl @ ts @ we @ CHR ''}'' # r" using l2 False by (simp add: tail_def)
    obtain mt' where mt': "ts = ind @ mt'"
    proof -
      obtain c' cs' where "cs = c' # cs'" using False by (cases cs) auto
      with t(2) obtain u us where "ts = ind @ quote (text_of (item_string c')) @ CHR '':'' # (if fmt then [CHR 0x09] else []) @ u @
          (if cs' = [] then [] else '','') @ (if fmt then [CHR 0x0A] else []) @ us"
        unfolding ind_def by (metis render_members_Cons)
      then show ?thesis using that by blast
    qed
    have sk: "buffer_skip_whitespace b2 = Some b2" by (rule skip_none [OF v2 l2']) simp
    have nx: "next_is (CHR '','') b2 = Some True" using next_look [OF v2] l2' by simp
    have run: "parse_object_items (parse_value f) n head b =
        parse_object_items (parse_value f) n' (head @ [reparsed (Some ?k) c]) b2"
      using m(1) b2(1) sk nx by (simp add: n b0_def [simplified, symmetric] del: bind_Some_iff)
    have l2'': "look b2 = CHR '','' # (nl @ ind) @ mt' @ we @ CHR ''}'' # r" using l2' mt' by simp
    have lt: "length (look b2) < length (look b)" using lb l2 by simp
    have "\<exists>b'. parse_object_items (parse_value f) n' (head @ [reparsed (Some ?k) c]) b2 =
        Some (True, (head @ [reparsed (Some ?k) c]) @ map (\<lambda>c. reparsed (Some (text_of (item_string c))) c) cs, b') \<and>
        ahead b2 (1 + length (nl @ ind) + length mt' + length we) b'"
      using Cons.prems(7-10) ahead_fields [OF a2] lt bl mt' n
      by (intro Cons.IH [OF False t(2) _ v2 l2'']) (auto simp: ind_def)
    then obtain b' where b': "parse_object_items (parse_value f) n' (head @ [reparsed (Some ?k) c]) b2 =
        Some (True, head @ map (\<lambda>c. reparsed (Some (text_of (item_string c))) c) (c # cs), b')"
      "ahead b2 (1 + length (nl @ ind) + length mt' + length we) b'" by auto
    have eq: "1 + (length ws + length (quote ?k) + 1 + length ws2 + length t) + (1 + length (nl @ ind) + length mt' + length we) =
        1 + length ws + length mt + length we" using mt False mt' by simp
    have "ahead b (1 + length ws + length mt + length we) b'" using ahead_trans [OF a2 b'(2)] unfolding eq .
    with b'(1) run show ?thesis by auto
  qed
qed simp


lemma object_returns:
  assumes te: "render_members fmt d cs = Some te" and v: "valid b"
    and l: "look b = CHR ''{'' # (if fmt then [CHR 0x0A] else []) @ te @ we @ CHR ''}'' # r"
    and we: "blanks we" and fr: "fresh_item name item" and f: "length (look b) \<le> f"
    and dep: "depth b < CJSON_NESTING_LIMIT"
    and IH: "\<forall>c \<in> set cs. printable c \<and> no_raw c \<and>
       depth b + 1 + height (reparsed (Some (text_of (item_string c))) c) \<le> CJSON_NESTING_LIMIT \<and>
       (\<forall>t. render fmt d c = Some t \<longrightarrow> returns f (Some (text_of (item_string c))) c t)"
  shows "\<exists>b'. parse_object (parse_value f) f item b =
      Some (True, Item cJSON_Object None 0 zero_double name
        (map (\<lambda>c. reparsed (Some (text_of (item_string c))) c) cs), b') \<and>
    ahead b (length te + length we + (if fmt then 3 else 2)) b'"
proof -
  obtain t where item: "item = Item t None 0 zero_double name []" using fr by (auto simp: fresh_item_def)
  define nl where "nl = (if fmt then [CHR 0x0A] else [])"
  define ind where "ind = (if cs \<noteq> [] \<and> fmt then tabs d else [])"
  obtain mt where mt: "te = ind @ mt" "cs \<noteq> [] \<Longrightarrow> mt = CHR 0x22 # tl mt" "cs = [] \<Longrightarrow> mt = []"
  proof (cases cs)
    case Nil
    then show ?thesis using te that [of "[]"] by (simp add: ind_def)
  next
    case (Cons c cs')
    obtain u us where "te = (if fmt then tabs d else []) @ quote (text_of (item_string c)) @ CHR '':'' #
       (if fmt then [CHR 0x09] else []) @ u @ (if cs' = [] then [] else '','') @ (if fmt then [CHR 0x0A] else []) @ us"
      using render_members_Cons te Cons by metis
    then show ?thesis using that Cons by (auto simp: ind_def quote_def)
  qed
  define ws where "ws = nl @ ind @ (if cs = [] then we else [])"
  have bws: "blanks ws" using we by (auto simp: ws_def nl_def ind_def)
  define b1 where "b1 = b\<lparr>depth := depth b + 1\<rparr>"
  have v1: "valid b1" "look b1 = look b" using v by (simp_all add: b1_def)
  have nx1: "next_is (CHR ''{'') b1 = Some True" using next_look [OF v1(1)] v1(2) l by simp
  define b2 where "b2 = b1\<lparr>offset := offset b1 + 1\<rparr>"
  have a2: "ahead b1 1 b2" unfolding b2_def by (rule ahead_step [OF v1(1)])
  have v2: "valid b2" using ahead_valid [OF a2 v1(1)] .
  define rest where "rest = (if cs = [] then [] else mt @ we) @ CHR ''}'' # r"
  have l2: "look b2 = ws @ rest"
    using ahead_look [OF a2, of "[CHR ''{'']"] v1(2) l mt by (auto simp: ws_def rest_def nl_def ind_def)
  define h where "h = (if cs = [] then CHR ''}'' else CHR 0x22)"
  have h: "rest = h # tl rest" "32 < ord h"
  proof -
    have "rest = h # tl rest \<and> 32 < ord h"
    proof (cases "cs = []")
      case False
      obtain m where "mt = CHR 0x22 # m" using mt(2) False by blast
      then show ?thesis using False by (simp add: h_def rest_def)
    qed (simp add: h_def rest_def)
    then show "rest = h # tl rest" "32 < ord h" by blast+
  qed
  define b3 where "b3 = b2\<lparr>offset := offset b2 + length ws\<rparr>"
  have sk: "buffer_skip_whitespace b2 = Some b3"
    unfolding b3_def by (rule skip_look [OF v2, of ws h "tl rest"]) (use l2 h bws in auto)
  have a3: "ahead b1 (1 + length ws) b3" unfolding b3_def by (rule ahead_trans [OF a2 ahead_step [OF v2]])
  have v3: "valid b3" using ahead_valid [OF a3 v1(1)] .
  have l3: "look b3 = rest" unfolding b3_def look_offset using l2 by simp
  have ne: "rest \<noteq> []" "hd rest = h" by (subst h(1), simp)+
  have nx: "next_is (CHR ''}'') b3 = Some (cs = [])" using next_look [OF v3] l3 ne by (simp add: h_def)
  have acc: "can_access_at_index b3 0" using access_look [OF v3] l3 ne(1) by simp
  define b4 where "b4 = b3\<lparr>offset := offset b3 - Suc 0\<rparr>"
  have b4: "b4 = b1\<lparr>offset := offset b1 + length ws\<rparr>" by (simp add: b4_def b3_def b2_def)
  have run: "parse_object (parse_value f) f item b =
      (if cs = [] then Some (True, set_children [] (set_type cJSON_Object item),
          b3\<lparr>depth := depth b3 - 1, offset := offset b3 + 1\<rparr>)
       else do {
            (ok, head, b3) \<leftarrow> parse_object_items (parse_value f) f [] b4;
            closed \<leftarrow> (if ok then next_is (CHR ''}'') b3 else Some False);
            if \<not> closed then Some (False, item, b3\<lparr>bmem := cJSON_Delete head (bmem b3)\<rparr>)
            else Some (True, set_children head (set_type cJSON_Object item),
                       b3\<lparr>depth := depth b3 - 1, offset := offset b3 + 1\<rparr>) })"
    using dep nx1 sk nx acc b4_def
    by (simp add: parse_object_def Let_def b1_def [simplified, symmetric] b2_def [simplified, symmetric] del: bind_Some_iff)
  show ?thesis
  proof (cases "cs = []")
    case True
    have "ahead b (1 + length ws + 1) (b3\<lparr>depth := depth b3 - 1, offset := offset b3 + 1\<rparr>)"
      using ahead_close [of b "1 + length ws" b3] a3 by (simp add: b1_def)
    moreover have "1 + length ws + 1 = length te + length we + (if fmt then 3 else 2)"
      using True mt by (simp add: ws_def nl_def ind_def)
    ultimately show ?thesis using run True by (auto simp: item)
  next
    case False
    have wsl: "ws = nl @ ind" using False by (simp add: ws_def)
    have a4: "ahead b1 (length ws) b4" unfolding b4 by (rule ahead_step [OF v1(1)])
    have v4: "valid b4" using ahead_valid [OF a4 v1(1)] .
    obtain x where l4: "look b4 = x # mt @ we @ CHR ''}'' # r" "length (look b4) \<le> length (look b)"
    proof -
      define pre where "pre = CHR ''{'' # ws"
      have lb: "look b1 = pre @ mt @ we @ CHR ''}'' # r"
        using v1(2) l mt False by (simp add: pre_def wsl nl_def)
      have "pre = butlast pre @ [last pre]" by (simp add: pre_def)
      then have "look b1 = butlast pre @ last pre # mt @ we @ CHR ''}'' # r" using lb by (metis append.assoc append_Cons append_Nil)
      from ahead_look [OF a4 this] have "look b4 = last pre # mt @ we @ CHR ''}'' # r" by (simp add: pre_def)
      moreover have "length (look b4) \<le> length (look b)" using look_ahead [OF a4] v1(2) by simp
      ultimately show ?thesis using that by blast
    qed
    have dp4: "depth b4 = depth b + 1" using ahead_fields [OF a4] by (simp add: b1_def)
    have te': "te = (if fmt then tabs d else []) @ mt" using mt(1) False by (simp add: ind_def)
    have "\<exists>b'. parse_object_items (parse_value f) f [] b4 =
        Some (True, [] @ map (\<lambda>c. reparsed (Some (text_of (item_string c))) c) cs, b') \<and>
        ahead b4 (1 + length ([] :: string) + length mt + length we) b'"
      by (rule object_items_return [OF False te te' v4, of x "[]" we r]) (use l4 f we IH dp4 in auto)
    then obtain b5 where b5: "parse_object_items (parse_value f) f [] b4 =
        Some (True, map (\<lambda>c. reparsed (Some (text_of (item_string c))) c) cs, b5)"
      "ahead b4 (1 + length mt + length we) b5" by auto
    have v5: "valid b5" using ahead_valid [OF b5(2) v4] .
    have "look b5 = CHR ''}'' # r" using ahead_look [OF b5(2), of "x # mt @ we"] l4 by simp
    then have nx5: "next_is (CHR ''}'') b5 = Some True" using next_look [OF v5] by simp
    have a5: "ahead b1 (length ws + (1 + length mt + length we)) b5" by (rule ahead_trans [OF a4 b5(2)])
    have "ahead b (length ws + (1 + length mt + length we) + 1) (b5\<lparr>depth := depth b5 - 1, offset := offset b5 + 1\<rparr>)"
      using ahead_close [of b _ b5] a5 by (simp add: b1_def)
    moreover have eq: "length ws + (1 + length mt + length we) + 1 = length te + length we + (if fmt then 3 else 2)"
      using mt(1) False by (simp add: wsl nl_def)
    ultimately have "ahead b (length te + length we + (if fmt then 3 else 2))
      (b5\<lparr>depth := depth b5 - 1, offset := offset b5 + 1\<rparr>)" by (simp only: eq)
    then show ?thesis using run False b5(1) nx5 by (simp add: item)
  qed
qed

section \<open>Every item\<close>

lemma height_children:
  "height (Item cJSON_Array vs vi vd s cs) = Suc (foldr max (map height cs) 0)"
  "height (Item cJSON_Object vs vi vd s cs) = Suc (foldr max (map height cs) 0)"
  by simp_all

lemma child_height: "c \<in> set cs \<Longrightarrow> height (g c) \<le> foldr max (map height (map g cs)) 0"
  using foldr_max_le [of height "map g cs" "foldr max (map height (map g cs)) 0"] by simp

lemma value_returns:
  assumes "printable i" "no_raw i" "render fmt d i = Some t"
  shows "returns fuel name i t"
  using assms
proof (induction fuel arbitrary: i t d name)
  case 0
  show ?case by (simp add: returns_def)
next
  case (Suc f)
  obtain ty vs vi vd s cs where i: "i = Item ty vs vi vd s cs" by (cases i) auto
  define k where "k = ty AND 0xFF"
  note r = Suc.prems(3) [unfolded i render.simps Let_def k_def [symmetric]]
  have pr: "nulfree (text_of vs)" "wf_double vd" "\<forall>c \<in> set cs. printable c" using Suc.prems(1) i by simp_all
  have raw: "k \<noteq> cJSON_Raw" "k = cJSON_Array \<or> k = cJSON_Object \<longrightarrow> (\<forall>c \<in> set cs. no_raw c)"
    using Suc.prems(2) i by (simp_all add: k_def)
  have rp: "reparsed name i = (if k = cJSON_False then Item cJSON_False None 0 zero_double name []
      else if k = cJSON_True then Item cJSON_True None 1 zero_double name []
      else if k = cJSON_Number \<and> is_finite vd then
        (let d = fst (strtod (number_text vd)) in Item cJSON_Number None (the (saturate d)) d name [])
      else if k = cJSON_String then Item cJSON_String (Some (text_of vs)) 0 zero_double name []
      else if k = cJSON_Array then Item cJSON_Array None 0 zero_double name (map (reparsed None) cs)
      else if k = cJSON_Object then
        Item cJSON_Object None 0 zero_double name (map (\<lambda>c. reparsed (Some (text_of (item_string c))) c) cs)
      else Item cJSON_NULL None 0 zero_double name [])" by (simp add: i k_def Let_def)
  show ?case unfolding returns_def
  proof (intro allI impI)
    fix b item c r
    assume v: "valid b" and l: "look b = t @ c # r" and c: "\<not> number_char c" and fr: "fresh_item name item"
      and h: "depth b + height (reparsed name i) \<le> CJSON_NESTING_LIMIT" and f: "length (look b) < Suc f"
    consider (word) "t = ''null'' \<and> reparsed name i = Item cJSON_NULL None 0 zero_double name [] \<or>
        t = ''false'' \<and> reparsed name i = Item cJSON_False None 0 zero_double name [] \<or>
        t = ''true'' \<and> reparsed name i = Item cJSON_True None 1 zero_double name []"
      | (num) "k = cJSON_Number" "is_finite vd" | (str) "k = cJSON_String" | (arr) "k = cJSON_Array" | (obj) "k = cJSON_Object"
    proof -
      have "t = ''null''" if "k = cJSON_Number" "\<not> is_finite vd" using r that by (simp add: number_text_def)
      then show ?thesis using r raw(1) that unfolding rp by (cases "is_finite vd") (auto split: if_splits)
    qed
    then show "\<exists>b'. parse_value (Suc f) item b = Some (True, reparsed name i, b') \<and> ahead b (length t) b'"
    proof cases
      case word
      then show ?thesis using word_returns [OF v fr, of "Suc f" t "c # r"] l by auto
    next
      case num
      then have "t = number_text vd" using r by simp
      then show ?thesis using number_returns [OF pr(2) num(2) v _ c fr, of r "Suc f"] l num unfolding rp by auto
    next
      case str
      then have "t = quote (text_of vs)" using r by simp
      then show ?thesis using string_returns [OF pr(1) v _ fr, of "c # r" "Suc f"] l str unfolding rp by auto
    next
      case arr
      then obtain te where te: "render_elements fmt (d + 1) cs = Some te" "t = ''['' @ te @ '']''" using r by auto
      have hs: "depth b + 1 + height (reparsed None x) \<le> CJSON_NESTING_LIMIT" if "x \<in> set cs" for x
        using h child_height [OF that, of "reparsed None"] arr unfolding rp by (simp del: map_map)
      have l': "look b = CHR ''['' # te @ CHR '']'' # c # r" using l te by simp
      have dep: "depth b < CJSON_NESTING_LIMIT" using h arr unfolding rp by simp
      have "\<exists>b'. parse_array (parse_value f) f item b =
          Some (True, Item cJSON_Array None 0 zero_double name (map (reparsed None) cs), b') \<and> ahead b (length te + 2) b'"
        by (rule array_returns [OF te(1) v l' fr _ dep]) (use f hs pr raw arr Suc.IH in auto)
      moreover have "parse_value (Suc f) item b = parse_array (parse_value f) f item b"
        using dispatch_other [OF v l'] by (simp add: isdigit_def)
      ultimately show ?thesis using arr te(2) unfolding rp by auto
    next
      case obj
      then obtain te where te: "render_members fmt (d + 1) cs = Some te"
        "t = (if fmt then [CHR ''{'', CHR 0x0A] else ''{'') @ te @ (if fmt then tabs d else []) @ ''}''" using r by auto
      have hs: "depth b + 1 + height (reparsed (Some (text_of (item_string x))) x) \<le> CJSON_NESTING_LIMIT" if "x \<in> set cs" for x
        using h child_height [OF that, of "\<lambda>c. reparsed (Some (text_of (item_string c))) c"] obj unfolding rp by (simp del: map_map)
      have l': "look b = CHR ''{'' # (if fmt then [CHR 0x0A] else []) @ te @ (if fmt then tabs d else []) @ CHR ''}'' # c # r"
        using l te by auto
      have dep: "depth b < CJSON_NESTING_LIMIT" using h obj unfolding rp by simp
      have "\<exists>b'. parse_object (parse_value f) f item b =
          Some (True, Item cJSON_Object None 0 zero_double name
            (map (\<lambda>c. reparsed (Some (text_of (item_string c))) c) cs), b') \<and>
          ahead b (length te + length (if fmt then tabs d else []) + (if fmt then 3 else 2)) b'"
        by (rule object_returns [OF te(1) v l' _ fr _ dep]) (use f hs pr raw obj Suc.IH in auto)
      moreover have "parse_value (Suc f) item b = parse_object (parse_value f) f item b"
        using dispatch_other [OF v l'] by (simp add: isdigit_def)
      moreover have "length te + length (if fmt then tabs d else []) + (if fmt then 3 else 2) = length t"
        using te(2) by simp
      ultimately show ?thesis using obj unfolding rp by auto
    qed
  qed
qed


section \<open>The whole text\<close>

lemma parse_rendered:
  assumes i: "printable i" "no_raw i" "render fmt 0 i = Some t"
    and h: "height (reparsed None i) \<le> CJSON_NESTING_LIMIT" and al: "\<forall>k. may_alloc (gmem g) k"
  shows "\<exists>g'. cJSON_Parse (Some (t @ NUL # rest)) g = Some (Some (reparsed None i), None, g') \<and> error_json g' = None"
proof -
  define v where "v = t @ NUL # rest"
  have nf: "nulfree t" using render_nulfree(1) [OF i(1,3)] .
  have len: "strlen_at v 0 = Some (length t)" using strlen_at_found [OF nf, of "[]" rest] by (simp add: v_def)
  obtain m where m: "cJSON_New_Item (gmem g) = (Some zero_item, m)" "\<forall>k. may_alloc m k"
    using al by (auto simp: cJSON_New_Item_def allocate_def)
  define b where "b = \<lparr>content = v, buflen = length t + 1, offset = 0, depth = 0, bmem = m\<rparr>"
  have vb: "valid b" using m by (simp add: b_def v_def valid_def)
  have lb: "look b = t @ NUL # []" by (simp add: b_def v_def look_def)
  obtain c r where st: "t = c # r" "start_char c" using render_start [OF i(3,1,2)] by blast
  have vis: "32 < ord c" "c \<noteq> CHR 0xEF" using start_char_visible [OF st(2)] by blast+
  have bom: "skip_utf8_bom b = Some (Some b)"
  proof -
    have "literal_at v 0 [CHR 0xEF, CHR 0xBB, CHR 0xBF] = Some False"
      using st(1) vis(2) by (simp add: v_def peek_def)
    then show ?thesis by (simp add: skip_utf8_bom_def b_def v_def can_access_at_index_def del: literal_at.simps)
  qed
  have ws: "buffer_skip_whitespace b = Some b"
    using skip_look [OF vb, of "[]" c "r @ [NUL]"] lb st(1) vis(1) by simp
  have "returns (length t + 3) None i t" by (rule value_returns [OF i])
  then obtain b' where b': "parse_value (length t + 3) zero_item b = Some (True, reparsed None i, b')"
  proof -
    assume ret: "returns (length t + 3) None i t"
    have "depth b + height (reparsed None i) \<le> CJSON_NESTING_LIMIT" using h by (simp add: b_def)
    moreover have "length (look b) < length t + 3" using lb by simp
    ultimately show ?thesis
      using ret [unfolded returns_def, rule_format, OF vb lb number_char_not_start(1) fresh_zero] that by blast
  qed
  have "cJSON_ParseWithLengthOpts (Some v) (length t + 1) False False g =
      Some (Some (reparsed None i), None, g\<lparr>error_json := None, error_position := 0, gmem := bmem b'\<rparr>)"
    using b' m bom ws by (simp add: cJSON_ParseWithLengthOpts_def b_def parse_fuel_def numeral_eq_Suc)
  then show ?thesis using len by (simp add: cJSON_Parse_def cJSON_ParseWithOpts_def v_def)
qed

text \<open>C8: Printing an item without raw text and parsing the text gives the item back, with each
  number replaced by the number that its text denotes and what is not a JSON value by null.\<close>

theorem cJSON_Parse_Print:
  assumes "printable i" and "no_raw i" and "height (reparsed None i) \<le> CJSON_NESTING_LIMIT"
    and "\<forall>k. may_alloc (gmem g) k" and "render True 0 i = Some t" and "length t + 2 \<le> INT_MAX_size"
  shows "\<exists>s m' g'. cJSON_Print (Some i) (gmem g) = Some (Some s, m') \<and> live m' = live (gmem g) + 1 \<and>
    cJSON_Parse (Some s) g = Some (Some (reparsed None i), None, g')"
proof -
  obtain r m' where r: "cJSON_Print (Some i) (gmem g) = Some (r, m')" "live m' = live (gmem g) + (if r = None then 0 else 1)"
    "\<forall>s. r = Some s \<longrightarrow> (\<exists>t. render_item True (Some i) = Some t \<and> s = t @ [NUL])"
    "\<forall>t. render_item True (Some i) = Some t \<and> (\<forall>k. may_alloc (gmem g) k) \<and> length t + 2 \<le> INT_MAX_size \<longrightarrow> r \<noteq> None"
    using print_outcome [of "Some i" True "gmem g"] assms(1) by (auto simp: cJSON_Print_def)
  have "render_item True (Some i) = Some t" using assms(5) by (simp add: render_item_def)
  then have "r = Some (t @ [NUL])" using r(3,4) assms(4,6) by auto
  then show ?thesis using r(1,2) parse_rendered [OF assms(1,2,5,3,4), of "[]"] by auto
qed

theorem cJSON_Parse_Print_witness:
  "\<exists>s m' g'. cJSON_Print (Some (Item cJSON_String (Some ''a'') 0 zero_double None [])) (gmem initial_globals) = Some (Some s, m') \<and>
    live m' = live (gmem initial_globals) + 1 \<and>
    cJSON_Parse (Some s) initial_globals =
      Some (Some (reparsed None (Item cJSON_String (Some ''a'') 0 zero_double None [])), None, g')"
  by (rule cJSON_Parse_Print [where t = "[CHR 0x22, CHR ''a'', CHR 0x22]"])
    (simp_all add: text_of_def zero_double_def canonical_def initial_globals_def initial_mem_def quote_def
      escape_def escape_letter_def INT_MAX_size_def)

section \<open>An object that ends in a comma\<close>

text \<open>At the end of the text the name of the next member is read from the byte behind it.\<close>

lemma items_at_end:
  assumes "valid b" "look b = [x]" "buflen b = length (content b)"
  shows "parse_object_items pv n head b = None"
proof (cases n)
  case (Suc n')
  obtain m where m: "cJSON_New_Item (bmem b) = (Some zero_item, m)" using New_Item_valid [OF assms(1)] by blast
  have "offset b + 1 = length (content b)" using look_length [OF assms(1)] assms(2,3) by simp
  then have "parse_member pv zero_item (b\<lparr>bmem := m, offset := offset b + 1\<rparr>) = None"
    using assms(3) by (simp add: parse_member_def buffer_skip_whitespace_def can_access_at_index_def parse_string_def
      at_offset_def peek_def)
  then show ?thesis using m Suc by simp
qed simp

lemma object_items_overread:
  assumes "cs \<noteq> []" "render_members False d cs = Some te" "valid b" "buflen b = length (content b)"
    "look b = x # te @ [CHR '','']" "length (look b) \<le> f"
    "\<forall>c \<in> set cs. printable c \<and> no_raw c \<and>
       depth b + height (reparsed (Some (text_of (item_string c))) c) \<le> CJSON_NESTING_LIMIT \<and>
       (\<forall>t. render False d c = Some t \<longrightarrow> returns f (Some (text_of (item_string c))) c t)"
  shows "parse_object_items (parse_value f) n head b = None"
  using assms
proof (induction cs arbitrary: te b x n head)
  case (Cons c cs)
  let ?k = "text_of (item_string c)"
  obtain t ts where t: "render False d c = Some t" "render_members False d cs = Some ts"
    "te = quote ?k @ CHR '':'' # t @ (if cs = [] then [] else '','') @ ts"
    using render_members_Cons [OF Cons.prems(2)] by auto
  obtain t0 t' where start: "t = t0 # t'" "start_char t0" using render_start [OF t(1)] Cons.prems(7) by auto
  have ts0: "cs = [] \<Longrightarrow> ts = []" using t(2) by simp
  define tl where "tl = (if cs = [] then [] else ts @ [CHR '',''])"
  have lb: "look b = x # quote ?k @ CHR '':'' # t @ CHR '','' # tl" using Cons.prems(5) t(3) ts0 by (simp add: tl_def)
  obtain m where m: "cJSON_New_Item (bmem b) = (Some zero_item, m)" "\<forall>i. may_alloc m i"
    using New_Item_valid [OF Cons.prems(3)] by blast
  define b0 where "b0 = b\<lparr>bmem := m, offset := offset b + 1\<rparr>"
  have a0: "ahead b 1 b0" unfolding ahead_def b0_def using m(2) by (intro exI [of _ m]) simp
  have v0: "valid b0" using ahead_valid [OF a0 Cons.prems(3)] .
  have l0: "look b0 = [] @ quote ?k @ CHR '':'' # [] @ t @ CHR '','' # tl" using ahead_look [OF a0, of "[x]"] lb by simp
  have nk: "nulfree ?k" using Cons.prems(7) by (cases c) auto
  have fu: "length (look b0) \<le> f" using look_ahead [OF a0] Cons.prems(6) by simp
  have dp: "depth b0 + height (reparsed (Some ?k) c) \<le> CJSON_NESTING_LIMIT" "returns f (Some ?k) c t"
    using Cons.prems(7) ahead_fields [OF a0] t(1) by simp_all
  have nc: "\<not> number_char (CHR '','')" using number_char_not_start by simp
  obtain b2 where b2: "parse_member (parse_value f) zero_item b0 = Some (True, reparsed (Some ?k) c, b2)"
    "ahead b0 (length (quote ?k) + 1 + length t) b2"
    using member_returns [OF v0 l0 _ _ nc nk start dp(2) fu dp(1)] by auto
  have a2: "ahead b (1 + (length (quote ?k) + 1 + length t)) b2" by (rule ahead_trans [OF a0 b2(2)])
  have v2: "valid b2" using ahead_valid [OF a2 Cons.prems(3)] .
  have l2: "look b2 = CHR '','' # tl" using ahead_look [OF a2, of "x # quote ?k @ CHR '':'' # t"] lb by simp
  have e2: "buflen b2 = length (content b2)" "depth b2 = depth b" using a2 Cons.prems(4) by (auto simp: ahead_def)
  have sk: "buffer_skip_whitespace b2 = Some b2" by (rule skip_none [OF v2 l2]) simp
  have nx: "next_is (CHR '','') b2 = Some True" using next_look [OF v2] l2 by simp
  have step: "parse_object_items (parse_value f) n' (head @ [reparsed (Some ?k) c]) b2 = None" for n'
  proof (cases "cs = []")
    case True
    show ?thesis by (rule items_at_end [OF v2 _ e2(1)]) (use l2 True in \<open>simp add: tl_def\<close>)
  next
    case False
    have "length (look b2) \<le> f" using l2 lb Cons.prems(6) by simp
    then show ?thesis
      by (intro Cons.IH [OF False t(2) v2 e2(1)]) (use l2 False Cons.prems(7) e2(2) in \<open>auto simp: tl_def\<close>)
  qed
  show ?case
  proof (cases n)
    case (Suc n')
    then show ?thesis using m(1) b2(1) sk nx step [of n'] by (simp add: b0_def [simplified, symmetric])
  qed simp
qed simp

text \<open>C3: The proviso of \<open>cJSON_ParseWithLengthOpts_outcome\<close> is needed: when the closing brace of a
  printed object with members is a comma, \<open>parse_object\<close> calls \<open>parse_string\<close> at the end of the text.
  That reads exactly one byte past it: the call is undefined when the text fills its object, and
  defined as soon as there is a further byte, whatever it is.\<close>

theorem cJSON_ParseWithLength_overread:
  assumes "printable (Item ty vs vi vd s cs)" and "no_raw (Item ty vs vi vd s cs)"
    and "height (reparsed None (Item ty vs vi vd s cs)) \<le> CJSON_NESTING_LIMIT" and "\<forall>k. may_alloc (gmem g) k"
    and "ty AND 0xFF = cJSON_Object" and "cs \<noteq> []"
    and "render False 0 (Item ty vs vi vd s cs) = Some (t @ ''}'')"
  shows "cJSON_ParseWithLength (Some (t @ '','')) (length t + 1) g = None \<and>
    cJSON_ParseWithLength (Some (t @ '','' @ [c])) (length t + 1) g \<noteq> None"
proof
  obtain te where te: "render_members False 1 cs = Some te" "t = CHR ''{'' # te" using assms(5,7) by auto
  obtain m where m: "cJSON_New_Item (gmem g) = (Some zero_item, m)" "\<forall>k. may_alloc m k"
    using assms(4) by (auto simp: cJSON_New_Item_def allocate_def)
  define b where "b = \<lparr>content = t @ '','', buflen = length t + 1, offset = 0, depth = 0, bmem = m\<rparr>"
  have vb: "valid b" using m by (simp add: b_def valid_def)
  have lb: "look b = CHR ''{'' # te @ [CHR '','']" by (simp add: b_def look_def te(2))
  obtain c0 cs' where cs: "cs = c0 # cs'" using assms(6) by (cases cs) auto
  obtain mt where mt: "te = CHR 0x22 # mt"
    using render_members_Cons [OF te(1) [unfolded cs]] by (auto simp: quote_def)
  have bom: "skip_utf8_bom b = Some (Some b)"
  proof -
    have "literal_at (t @ '','') 0 [CHR 0xEF, CHR 0xBB, CHR 0xBF] = Some False" by (simp add: te(2) peek_def)
    then show ?thesis by (simp add: skip_utf8_bom_def b_def can_access_at_index_def del: literal_at.simps)
  qed
  have ws: "buffer_skip_whitespace b = Some b" by (rule skip_none [OF vb lb]) simp
  let ?f = "length t + 2"
  define b1 where "b1 = b\<lparr>depth := 1\<rparr>"
  have v1: "valid b1" "look b1 = CHR ''{'' # te @ [CHR '','']" using vb lb by (simp_all add: b1_def)
  define b2 where "b2 = b1\<lparr>offset := 1\<rparr>"
  have a2: "ahead b1 1 b2" unfolding b2_def using ahead_step [OF v1(1), of 1] by (simp add: b1_def b_def)
  have v2: "valid b2" using ahead_valid [OF a2 v1(1)] .
  have l2: "look b2 = CHR 0x22 # mt @ [CHR '','']" using ahead_look [OF a2, of "[CHR ''{'']"] v1(2) mt by simp
  have sk: "buffer_skip_whitespace b2 = Some b2" by (rule skip_none [OF v2 l2]) simp
  have nx: "next_is (CHR ''{'') b1 = Some True" "next_is (CHR ''}'') b2 = Some False" "can_access_at_index b2 0"
    using next_look [OF v1(1)] next_look [OF v2] access_look [OF v2] v1(2) l2 by simp_all
  have fields: "depth b = 0" "b\<lparr>depth := Suc 0\<rparr> = b1" "b1\<lparr>offset := Suc (offset b1)\<rparr> = b2" "b2\<lparr>offset := offset b2 - Suc 0\<rparr> = b1"
    by (simp_all add: b2_def b1_def b_def)
  have hs: "1 + height (reparsed (Some (text_of (item_string x))) x) \<le> CJSON_NESTING_LIMIT" if "x \<in> set cs" for x
    using assms(3,5) child_height [OF that, of "\<lambda>c. reparsed (Some (text_of (item_string c))) c"] by (simp del: map_map)
  have "parse_object_items (parse_value ?f) ?f [] b1 = None"
    by (rule object_items_overread [OF assms(6) te(1) v1(1) _ v1(2)])
      (use v1(2) te(2) assms(1,2,5) hs value_returns in \<open>auto simp: b1_def b_def\<close>)
  then have "parse_object (parse_value ?f) ?f zero_item b = None"
    using nx sk by (simp add: parse_object_def Let_def fields del: parse_object_items.simps)
  moreover have "parse_value (Suc ?f) zero_item b = parse_object (parse_value ?f) ?f zero_item b"
    using dispatch_other [OF vb lb] by (simp add: isdigit_def)
  ultimately have "parse_value (parse_fuel (length t + 1)) zero_item b = None"
    by (simp add: parse_fuel_def numeral_eq_Suc del: parse_value.simps)
  then show "cJSON_ParseWithLength (Some (t @ '','')) (length t + 1) g = None"
    using m bom ws by (simp add: cJSON_ParseWithLength_def cJSON_ParseWithLengthOpts_def b_def del: parse_value.simps)
  show "cJSON_ParseWithLength (Some (t @ '','' @ [c])) (length t + 1) g \<noteq> None"
    using ParseWithLengthOpts_outcome [of "length t + 1" "t @ '','' @ [c]" False False g]
    by (auto simp: cJSON_ParseWithLength_def)
qed

theorem cJSON_ParseWithLength_overread_witness:
  "\<exists>t. t = [CHR ''{'', CHR 0x22, CHR ''a'', CHR 0x22] @ '':null'' \<and>
    cJSON_ParseWithLength (Some (t @ '','')) (length t + 1) initial_globals = None \<and>
    cJSON_ParseWithLength (Some (t @ '','' @ [NUL])) (length t + 1) initial_globals \<noteq> None"
proof (intro exI conjI)
  let ?i = "Item cJSON_Object None 0 zero_double None [Item cJSON_NULL None 0 zero_double (Some ''a'') []]"
  let ?t = "[CHR ''{'', CHR 0x22, CHR ''a'', CHR 0x22] @ '':null''"
  have i: "printable ?i" "no_raw ?i" "height (reparsed None ?i) \<le> CJSON_NESTING_LIMIT" "render False 0 ?i = Some (?t @ ''}'')"
    "\<forall>k. may_alloc (gmem initial_globals) k"
    by (simp_all add: text_of_def zero_double_def canonical_def initial_globals_def initial_mem_def quote_def
      escape_def escape_letter_def)
  from cJSON_ParseWithLength_overread [OF i(1,2,3,5) _ _ i(4), of NUL]
  show "cJSON_ParseWithLength (Some (?t @ '','')) (length ?t + 1) initial_globals = None"
    "cJSON_ParseWithLength (Some (?t @ '','' @ [NUL])) (length ?t + 1) initial_globals \<noteq> None" by simp_all
qed simp

end
