(* ===== verification/Minify.thy ===== *)
theory Minify
  imports Roundtrip
begin

text \<open>
  \<open>cJSON_Minify\<close>: white space and comments are removed from a text in place.  The text is one
  object; \<open>json\<close> and \<open>into\<close> are indices of it, and every access is checked.
\<close>

section \<open>The code\<close>

partial_function (option) oneline_loop :: "string \<Rightarrow> nat \<Rightarrow> nat option" where
  [code]: "oneline_loop s i = do {
     c \<leftarrow> peek s i;
     if c = NUL then Some i else if c = CHR 0x0A then Some (i + 1) else oneline_loop s (i + 1) }"

definition skip_oneline_comment :: "string \<Rightarrow> nat \<Rightarrow> nat option" where
  "skip_oneline_comment s i = oneline_loop s (i + 2)"

partial_function (option) multiline_loop :: "string \<Rightarrow> nat \<Rightarrow> nat option" where
  [code]: "multiline_loop s i = do {
     c \<leftarrow> peek s i;
     if c = NUL then Some i
     else do {
       over \<leftarrow> (if c = CHR ''*'' then map_option (\<lambda>d. d = CHR ''/'') (peek s (i + 1)) else Some False);
       if over then Some (i + 2) else multiline_loop s (i + 1) } }"

definition skip_multiline_comment :: "string \<Rightarrow> nat \<Rightarrow> nat option" where
  "skip_multiline_comment s i = multiline_loop s (i + 2)"

text \<open>The object, and the two pointers afterwards.\<close>

partial_function (option) minify_loop :: "string \<Rightarrow> nat \<Rightarrow> nat \<Rightarrow> (string \<times> nat \<times> nat) option" where
  [code]: "minify_loop s input output = do {
     c \<leftarrow> peek s input;
     if c = NUL then Some (s, input, output)
     else do {
       s \<leftarrow> poke s output c;
       c \<leftarrow> peek s input;
       if c = CHR 0x22
       then do { s \<leftarrow> poke s output (CHR 0x22); Some (s, input + 1, output + 1) }
       else do {
         d \<leftarrow> (if c = CHR 0x5C then peek s (input + 1) else Some NUL);
         if d = CHR 0x22
         then do { s \<leftarrow> poke s (output + 1) d; minify_loop s (input + 2) (output + 2) }
         else minify_loop s (input + 1) (output + 1) } } }"

definition minify_string :: "string \<Rightarrow> nat \<Rightarrow> nat \<Rightarrow> (string \<times> nat \<times> nat) option" where
  "minify_string s input output = do {
     c \<leftarrow> peek s input;
     s \<leftarrow> poke s output c;
     minify_loop s (input + 1) (output + 1) }"

partial_function (option) minify_text :: "string \<Rightarrow> nat \<Rightarrow> nat \<Rightarrow> (string \<times> nat) option" where
  [code]: "minify_text s json into = do {
     c \<leftarrow> peek s json;
     if c = NUL then Some (s, into)
     else if c = CHR '' '' \<or> c = CHR 0x09 \<or> c = CHR 0x0D \<or> c = CHR 0x0A then minify_text s (json + 1) into
     else if c = CHR ''/'' then do {
       d \<leftarrow> peek s (json + 1);
       if d = CHR ''/'' then do { json \<leftarrow> skip_oneline_comment s json; minify_text s json into }
       else if d = CHR ''*'' then do { json \<leftarrow> skip_multiline_comment s json; minify_text s json into }
       else minify_text s (json + 1) into }
     else if c = CHR 0x22 then do {
       (s, json, into) \<leftarrow> minify_string s json into;
       minify_text s json into }
     else do { s \<leftarrow> poke s into c; minify_text s (json + 1) (into + 1) } }"

definition cJSON_Minify :: "string option \<Rightarrow> string option option" where
  "cJSON_Minify json = (case json of
     None \<Rightarrow> Some None
   | Some s \<Rightarrow> do {
       (s, into) \<leftarrow> minify_text s 0 0;
       s \<leftarrow> poke s into NUL;
       Some (Some s) })"

section \<open>The same on lists\<close>

fun after_line :: "string \<Rightarrow> string" where
  "after_line [] = []"
| "after_line (c # cs) = (if c = CHR 0x0A then cs else after_line cs)"

fun after_block :: "string \<Rightarrow> string" where
  "after_block [] = []"
| "after_block (c # cs) = (if c = CHR ''*'' \<and> take 1 cs = ''/'' then tl cs else after_block cs)"

text \<open>What is copied of a string after its opening quote, and what follows it.\<close>

fun in_string :: "string \<Rightarrow> string \<times> string" where
  "in_string [] = ([], [])"
| "in_string (c # cs) =
     (if c = CHR 0x22 then ([c], cs)
      else if c = CHR 0x5C \<and> take 1 cs = [CHR 0x22]
      then (case in_string (tl cs) of (a, r) \<Rightarrow> (c # CHR 0x22 # a, r))
      else (case in_string cs of (a, r) \<Rightarrow> (c # a, r)))"

definition json_blank :: "char \<Rightarrow> bool" where
  "json_blank c \<longleftrightarrow> c = CHR '' '' \<or> c = CHR 0x09 \<or> c = CHR 0x0D \<or> c = CHR 0x0A"

lemma after_line_length: "length (after_line u) \<le> length u"
  by (induction u rule: after_line.induct) auto

lemma after_block_length: "length (after_block u) \<le> length u"
  by (induction u rule: after_block.induct) auto

lemma in_string_length: "in_string u = (a, r) \<Longrightarrow> length a + length r \<le> length u"
proof (induction u arbitrary: a r rule: in_string.induct)
  case (2 c cs)
  then show ?case by (cases cs) (fastforce split: if_splits prod.splits)+
qed simp

function minified :: "string \<Rightarrow> string" where
  "minified [] = []"
| "minified (c # cs) =
     (if json_blank c then minified cs
      else if c = CHR ''/'' then
        (if take 1 cs = ''/'' then minified (after_line (tl cs))
         else if take 1 cs = ''*'' then minified (after_block (tl cs))
         else minified cs)
      else if c = CHR 0x22 then c # fst (in_string cs) @ minified (snd (in_string cs))
      else c # minified cs)"
  by pat_completeness auto
termination
proof (relation "measure length"; simp)
  show "length (after_line (tl cs)) < Suc (length cs)" for cs using after_line_length [of "tl cs"] by simp
  show "length (after_block (tl cs)) < Suc (length cs)" for cs using after_block_length [of "tl cs"] by simp
  show "length (snd (in_string cs)) < Suc (length cs)" for cs
    using in_string_length [of cs "fst (in_string cs)" "snd (in_string cs)"] by simp
qed


section \<open>The code in terms of lists\<close>

text \<open>What is written is in front of \<open>output\<close>, what is not yet read begins at \<open>input\<close>.\<close>

definition gap :: "string \<Rightarrow> nat \<Rightarrow> nat \<Rightarrow> string \<Rightarrow> string \<Rightarrow> bool" where
  "gap s i k out rest \<longleftrightarrow> k \<le> i \<and> i \<le> length s \<and> take k s = out \<and> drop i s = rest"

lemma gap_peek: "gap s i k out (c # rest) \<Longrightarrow> peek s i = Some c"
  unfolding gap_def peek_def by (metis drop_all hd_drop_conv_nth linorder_not_less list.discI list.sel(1))

lemma gap_peek2: "gap s i k out (c # d # rest) \<Longrightarrow> peek s (Suc i) = Some d"
  unfolding gap_def by (auto simp: peek_def dest: arg_cong [where f = length] arg_cong [where f = "\<lambda>l. l ! 1"])

lemma gap_skip:
  assumes "gap s i k out (c # rest)"
  shows "gap s (Suc i) k out rest"
proof -
  have d: "k \<le> i" "drop i s = c # rest" "take k s = out" using assms by (simp_all add: gap_def)
  have "i < length s" using arg_cong [OF d(2), of length] by simp
  moreover have "drop (Suc i) s = rest" using arg_cong [OF d(2), of tl] by (simp add: drop_Suc tl_drop)
  ultimately show ?thesis using d by (simp add: gap_def)
qed

lemma gap_poke:
  assumes "gap s i k out (c # rest)"
  shows "\<exists>s'. poke s k c = Some s' \<and> gap s' (Suc i) (Suc k) (out @ [c]) rest \<and> drop i s' = c # rest \<and> length s' = length s"
proof -
  have i: "k \<le> i" "i < length s" "s ! i = c" "drop (Suc i) s = rest" "take k s = out"
    using assms gap_peek [OF assms] gap_skip [OF assms] by (auto simp: gap_def peek_Some_iff)
  have "drop i (s[k := c]) = c # rest"
  proof (cases "k = i")
    case True
    then show ?thesis using i by (simp add: drop_update_cancel Cons_nth_drop_Suc [symmetric])
  next
    case False
    then show ?thesis using i assms by (simp add: gap_def)
  qed
  moreover have "drop (Suc i) (s[k := c]) = rest" using i by simp
  moreover have "take (Suc k) (s[k := c]) = out @ [c]" using i by (simp add: take_Suc_conv_app_nth)
  ultimately show ?thesis using i by (simp add: poke_def gap_def)
qed


lemma minify_loop_gap:
  assumes "gap s i k out (u @ NUL # r)" "nulfree u" "in_string u = (a, v)"
  shows "\<exists>s' i' k'. minify_loop s i k = Some (s', i', k') \<and> gap s' i' k' (out @ a) (v @ NUL # r) \<and> length s' = length s"
  using assms
proof (induction u arbitrary: s i k out a v rule: in_string.induct)
  case 1
  then show ?case by (subst minify_loop.simps) (simp add: gap_peek)
next
  case (2 c cs)
  have c: "c \<noteq> NUL" "nulfree cs" using 2(4) by auto
  have g: "gap s i k out (c # cs @ NUL # r)" using 2(3) by simp
  obtain s1 where s1: "poke s k c = Some s1" "gap s1 (Suc i) (Suc k) (out @ [c]) (cs @ NUL # r)"
    "drop i s1 = c # cs @ NUL # r" "length s1 = length s" using gap_poke [OF g] by blast
  have ci: "peek s1 i = Some c" using s1(2,3) by (intro gap_peek [of s1 i 0 "[]"]) (auto simp: gap_def)
  show ?case
  proof (cases "c = CHR 0x22")
    case True
    have "poke s1 k c = Some s1" using s1(2) by (auto simp: gap_def poke_def take_Suc_conv_app_nth list_update_same_conv)
    then show ?thesis using True 2(5) s1 c ci gap_peek [OF g] by (subst minify_loop.simps) simp
  next
    case q: False
    show ?thesis
    proof (cases "c = CHR 0x5C \<and> take 1 cs = [CHR 0x22]")
      case True
      then obtain cs' where cs: "cs = CHR 0x22 # cs'" by (cases cs) auto
      obtain a' where a': "in_string cs' = (a', v)" "a = c # CHR 0x22 # a'"
        using 2(5) True cs q by (auto split: prod.splits)
      have g1: "gap s1 (Suc i) (Suc k) (out @ [c]) (CHR 0x22 # cs' @ NUL # r)" using s1(2) cs by simp
      obtain s2 where s2: "poke s1 (Suc k) (CHR 0x22) = Some s2"
        "gap s2 (Suc (Suc i)) (Suc (Suc k)) (out @ [c, CHR 0x22]) (cs' @ NUL # r)" "length s2 = length s1"
        using gap_poke [OF g1] by auto
      have "\<exists>s' i' k'. minify_loop s2 (Suc (Suc i)) (Suc (Suc k)) = Some (s', i', k') \<and>
          gap s' i' k' ((out @ [c, CHR 0x22]) @ a') (v @ NUL # r) \<and> length s' = length s2"
      proof (rule 2(1) [OF q True])
        show "nulfree (tl cs)" "in_string (tl cs) = (a', v)" using c(2) cs a'(1) by simp_all
      qed (use s2(2) cs in simp)
      then show ?thesis using True q c ci gap_peek [OF g] gap_peek [OF g1] s1 s2 a'(2)
        by (subst minify_loop.simps) auto
    next
      case False
      obtain a' where a': "in_string cs = (a', v)" "a = c # a'"
        using 2(5) False q by (auto split: prod.splits)
      have "\<exists>s' i' k'. minify_loop s1 (Suc i) (Suc k) = Some (s', i', k') \<and>
          gap s' i' k' ((out @ [c]) @ a') (v @ NUL # r) \<and> length s' = length s1"
        using 2(2) [OF q False s1(2) c(2) a'(1)] .
      moreover have "\<exists>d. peek s1 (Suc i) = Some d \<and> (c = CHR 0x5C \<longrightarrow> d \<noteq> CHR 0x22)"
        using s1(2) False by (cases cs) (auto dest: gap_peek)
      ultimately show ?thesis using q c ci gap_peek [OF g] s1 a'(2)
        by (subst minify_loop.simps) (auto split: if_splits)
    qed
  qed
qed

lemma oneline_gap:
  assumes "gap s i k out (u @ NUL # r)" "nulfree u"
  shows "\<exists>i'. oneline_loop s i = Some i' \<and> gap s i' k out (after_line u @ NUL # r)"
  using assms
proof (induction u arbitrary: i rule: after_line.induct)
  case 1
  then show ?case by (subst oneline_loop.simps) (simp add: gap_peek)
next
  case (2 c cs)
  have g: "gap s i k out (c # cs @ NUL # r)" using 2(2) by simp
  show ?case using 2 gap_peek [OF g] gap_skip [OF g] by (subst oneline_loop.simps) auto
qed

lemma multiline_gap:
  assumes "gap s i k out (u @ NUL # r)" "nulfree u"
  shows "\<exists>i'. multiline_loop s i = Some i' \<and> gap s i' k out (after_block u @ NUL # r)"
  using assms
proof (induction u arbitrary: i rule: after_block.induct)
  case 1
  then show ?case by (subst multiline_loop.simps) (simp add: gap_peek)
next
  case (2 c cs)
  have g: "gap s i k out (c # cs @ NUL # r)" using 2(2) by simp
  have g': "gap s (Suc i) k out (cs @ NUL # r)" by (rule gap_skip [OF g])
  show ?case
  proof (cases "c = CHR ''*'' \<and> take 1 cs = ''/''")
    case True
    then obtain cs' where cs: "cs = CHR ''/'' # cs'" by (cases cs) auto
    have "gap s (Suc (Suc i)) k out (cs' @ NUL # r)" using gap_skip g' cs by auto
    then show ?thesis using True cs gap_peek [OF g] gap_peek [of s "Suc i" k out "CHR ''/''"] g'
      by (subst multiline_loop.simps) auto
  next
    case False
    have "\<exists>d. peek s (Suc i) = Some d \<and> (c = CHR ''*'' \<longrightarrow> d \<noteq> CHR ''/'')"
      using g' False by (cases cs) (auto dest: gap_peek)
    then show ?thesis using 2(1) [OF False g'] 2(3) False gap_peek [OF g]
      by (subst multiline_loop.simps) (auto split: if_splits)
  qed
qed


lemma set_after: "set (after_line u) \<subseteq> set u" "set (after_block v) \<subseteq> set v"
proof -
  show "set (after_line u) \<subseteq> set u" by (induction u rule: after_line.induct) auto
  show "set (after_block v) \<subseteq> set v"
    by (induction v rule: after_block.induct) (auto dest: list.set_sel(2) [rotated] intro: list.set_sel(2))
qed

lemma nulfree_after:
  "nulfree u \<Longrightarrow> nulfree (after_line u)" "nulfree v \<Longrightarrow> nulfree (after_block v)"
  using set_after by (auto simp: nulfree_def)

lemma nulfree_in_string: "in_string u = (a, v) \<Longrightarrow> nulfree u \<Longrightarrow> nulfree a \<and> nulfree v"
proof (induction u arbitrary: a v rule: in_string.induct)
  case (2 c cs)
  then show ?case by (cases cs) (fastforce split: if_splits prod.splits)+
qed simp

lemma nulfree_minified: "nulfree u \<Longrightarrow> nulfree (minified u)"
proof (induction u rule: minified.induct)
  case (2 c cs)
  have cs: "nulfree cs" "c \<noteq> NUL" using 2(7) by auto
  have tl: "nulfree (tl cs)" using cs by (cases cs) auto
  have ins: "nulfree (fst (in_string cs))" "nulfree (snd (in_string cs))"
    using nulfree_in_string [of cs "fst (in_string cs)" "snd (in_string cs)"] cs by simp_all
  show ?case using 2(1-6) cs tl ins by (simp add: nulfree_after)
qed simp

lemma minify_text_gap:
  assumes "gap s i k out (u @ NUL # r)" "nulfree u"
  shows "\<exists>s' i' k'. minify_text s i k = Some (s', k') \<and> gap s' i' k' (out @ minified u) (NUL # r) \<and> length s' = length s"
  using assms
proof (induction u arbitrary: s i k out rule: minified.induct)
  case 1
  then show ?case by (subst minify_text.simps) (auto simp: gap_peek)
next
  case (2 c cs)
  have g: "gap s i k out (c # cs @ NUL # r)" and c: "c \<noteq> NUL" "nulfree cs" using 2(7,8) by auto
  note step = minify_text.simps [of s i k] and sk = gap_skip [OF g]
  consider (blank) "json_blank c" | (slash) "c = CHR ''/''" | (quot) "c = CHR 0x22"
    | (other) "\<not> json_blank c" "c \<noteq> CHR ''/''" "c \<noteq> CHR 0x22" by blast
  then show ?case
  proof cases
    case blank
    then show ?thesis using 2(1) [OF blank sk c(2)] gap_peek [OF g] c(1) step by (simp add: json_blank_def)
  next
    case slash
    have nb: "\<not> json_blank c" using slash by (simp add: json_blank_def)
    note nb' = nb [unfolded json_blank_def]
    show ?thesis
    proof (cases cs)
      case Nil
      then show ?thesis using 2(4) [OF nb slash _ _ sk c(2)] gap_peek [OF g] gap_peek [OF sk [unfolded Nil append_Nil]] c(1) step slash nb
        by (simp add: json_blank_def)
    next
      case (Cons d ds)
      have pd: "peek s (Suc i) = Some d" using sk Cons gap_peek by fastforce
      have g2: "gap s (Suc (Suc i)) k out (ds @ NUL # r)" using sk Cons gap_skip by fastforce
      have ds: "nulfree ds" using c Cons by simp
      consider (line) "d = CHR ''/''" | (block) "d = CHR ''*''" | (none) "d \<noteq> CHR ''/''" "d \<noteq> CHR ''*''" by blast
      then show ?thesis
      proof cases
        case line
        obtain i' where "oneline_loop s (Suc (Suc i)) = Some i'" "gap s i' k out (after_line ds @ NUL # r)"
          using oneline_gap [OF g2 ds] by blast
        then show ?thesis using 2(2) [OF nb slash, of s i' k out] Cons line ds gap_peek [OF g] pd c(1) step slash nb
          by (simp add: json_blank_def skip_oneline_comment_def nulfree_after)
      next
        case block
        obtain i' where "multiline_loop s (Suc (Suc i)) = Some i'" "gap s i' k out (after_block ds @ NUL # r)"
          using multiline_gap [OF g2 ds] by blast
        then show ?thesis using 2(3) [OF nb slash, of s i' k out] Cons block ds gap_peek [OF g] pd c(1) step slash nb
          by (simp add: json_blank_def skip_multiline_comment_def nulfree_after)
      next
        case none
        then show ?thesis using 2(4) [OF nb slash _ _ sk c(2)] gap_peek [OF g] pd c(1) step slash nb Cons
          by (simp add: json_blank_def)
      qed
    qed
  next
    case quot
    have nb: "\<not> json_blank c" "c \<noteq> CHR ''/''" using quot by (simp_all add: json_blank_def)
    obtain a v where av: "in_string cs = (a, v)" by (cases "in_string cs")
    obtain s1 where s1: "poke s k c = Some s1" "gap s1 (Suc i) (Suc k) (out @ [c]) (cs @ NUL # r)" "length s1 = length s"
      using gap_poke [OF g] by blast
    obtain s2 i2 k2 where s2: "minify_loop s1 (Suc i) (Suc k) = Some (s2, i2, k2)"
      "gap s2 i2 k2 ((out @ [c]) @ a) (v @ NUL # r)" "length s2 = length s1" using minify_loop_gap [OF s1(2) c(2) av] by blast
    have "minify_string s i k = Some (s2, i2, k2)" using s1(1) s2(1) gap_peek [OF g] by (simp add: minify_string_def)
    moreover have "\<exists>s' i' k'. minify_text s2 i2 k2 = Some (s', k') \<and>
        gap s' i' k' (((out @ [c]) @ a) @ minified v) (NUL # r) \<and> length s' = length s2"
      using 2(5) [OF nb(1) nb(2) quot, of s2 i2 k2 "(out @ [c]) @ a"] s2(2) av nulfree_in_string [OF av c(2)] by simp
    ultimately show ?thesis using gap_peek [OF g] c(1) step quot s1(3) s2(3) av nb by (auto simp: json_blank_def)
  next
    case other
    obtain s1 where s1: "poke s k c = Some s1" "gap s1 (Suc i) (Suc k) (out @ [c]) (cs @ NUL # r)" "length s1 = length s"
      using gap_poke [OF g] by blast
    show ?thesis using 2(6) [OF other s1(2) c(2)] gap_peek [OF g] c(1) step other s1 by (auto simp: json_blank_def)
  qed
qed

lemma minify_implements:
  assumes "nulfree u"
  shows "\<exists>s'. cJSON_Minify (Some (u @ NUL # r)) = Some (Some s') \<and> cstring s' = minified u \<and> length s' = length u + 1 + length r"
proof -
  have "gap (u @ NUL # r) 0 0 [] (u @ NUL # r)" by (simp add: gap_def)
  from minify_text_gap [OF this assms] obtain s1 i k where
    s1: "minify_text (u @ NUL # r) 0 0 = Some (s1, k)" "gap s1 i k (minified u) (NUL # r)" "length s1 = length u + 1 + length r"
    by auto
  obtain s2 where s2: "poke s1 k NUL = Some s2" "gap s2 (Suc i) (Suc k) (minified u @ [NUL]) r" "length s2 = length s1"
    using gap_poke [OF s1(2)] by blast
  have "s2 = minified u @ NUL # drop (Suc k) s2" using s2(2) append_take_drop_id [of "Suc k" s2] by (simp add: gap_def)
  moreover have "nulfree (minified u)" by (rule nulfree_minified [OF assms])
  ultimately have "cstring s2 = minified u" by (metis cstring_append_NUL)
  then show ?thesis using s1 s2 by (simp add: cJSON_Minify_def)
qed


section \<open>Formatted and unformatted texts\<close>

text \<open>The scan of a string takes a backslash at its end for the escape of the closing quote.\<close>

definition unescaped_end :: "string \<Rightarrow> bool" where
  "unescaped_end s \<longleftrightarrow> s = [] \<or> last s \<noteq> CHR 0x5C"

fun minifiable :: "cJSON \<Rightarrow> bool" where
  "minifiable (Item t vs vi vd s cs) \<longleftrightarrow>
     unescaped_end (text_of vs) \<and> unescaped_end (text_of s) \<and> (\<forall>c \<in> set cs. minifiable c)"

lemma in_string_copy:
  "c \<noteq> CHR 0x22 \<Longrightarrow> c = CHR 0x5C \<longrightarrow> take 1 cs \<noteq> [CHR 0x22] \<Longrightarrow>
   in_string (c # cs) = (c # fst (in_string cs), snd (in_string cs))"
  by (auto split: prod.splits)

lemma in_string_plain:
  "CHR 0x22 \<notin> set u \<Longrightarrow> CHR 0x5C \<notin> set u \<Longrightarrow> in_string (u @ v) = (u @ fst (in_string v), snd (in_string v))"
proof (induction u)
  case (Cons c u)
  then show ?case using in_string_copy [of c "u @ v"] by auto
qed simp

lemma in_string_escaped:
  "unescaped_end s \<Longrightarrow> in_string (concat (map escape s) @ CHR 0x22 # r) = (concat (map escape s) @ [CHR 0x22], r)"
proof (induction s)
  case (Cons c s)
  define v where "v = concat (map escape s) @ CHR 0x22 # r"
  have "unescaped_end s" using Cons.prems by (auto simp: unescaped_end_def split: if_splits)
  then have v: "in_string v = (concat (map escape s) @ [CHR 0x22], r)" using Cons.IH by (simp add: v_def)
  have esc: "take 1 (escape d @ w) \<noteq> [CHR 0x22]" for d w by (auto simp: escape_def)
  have "in_string (escape c @ v) = (escape c @ fst (in_string v), snd (in_string v))"
  proof -
    consider (plain) "31 < ord c" "c \<noteq> CHR 0x22" "c \<noteq> CHR 0x5C" | (quot) "c = CHR 0x22" | (slash) "c = CHR 0x5C"
      | (letter) e where "escape c = [CHR 0x5C, e]" "e \<noteq> CHR 0x22" "e \<noteq> CHR 0x5C"
      | (hex) "escape c = CHR 0x5C # hex_escape c"
    proof -
      have "\<exists>e. escape c = [CHR 0x5C, e] \<and> e \<noteq> CHR 0x22 \<and> e \<noteq> CHR 0x5C \<or> escape c = CHR 0x5C # hex_escape c"
        if n: "\<not> 31 < ord c"
      proof (cases "escape_letter c")
        case None
        then show ?thesis using n by (simp add: escape_def)
      next
        case (Some e)
        have "c \<noteq> CHR 0x22" "c \<noteq> CHR 0x5C" using n by auto
        then have "e \<noteq> CHR 0x22" "e \<noteq> CHR 0x5C"
          using Some unfolding escape_letter_def by (auto split: if_split_asm)
        then show ?thesis using n Some by (simp add: escape_def)
      qed
      then show ?thesis using that by blast
    qed
    then show ?thesis
    proof cases
      case plain
      then show ?thesis using in_string_copy [of c v] by (simp add: escape_def)
    next
      case quot
      then show ?thesis by (simp add: escape_def escape_letter_def split: prod.splits)
    next
      case slash
      then have "s \<noteq> []" using Cons.prems by (auto simp: unescaped_end_def)
      then have "take 1 v \<noteq> [CHR 0x22]" using esc by (cases s) (simp_all add: v_def del: take_append)
      then show ?thesis using slash in_string_copy [of "CHR 0x5C" v] in_string_copy [of "CHR 0x5C" "CHR 0x5C # v"]
        by (simp add: escape_def escape_letter_def)
    next
      case letter
      then show ?thesis using in_string_copy [of e v] in_string_copy [of "CHR 0x5C" "e # v"] by simp
    next
      case hex
      have h: "hex_digit n \<noteq> CHR 0x22" "hex_digit n \<noteq> CHR 0x5C" if "n < 16" for n
      proof -
        have o: "ord (hex_digit n) = (if n < 10 then 48 + n else 87 + n)" using that by (simp add: hex_digit_def)
        then have "ord (hex_digit n) \<noteq> 34" "ord (hex_digit n) \<noteq> 92" by auto
        then show "hex_digit n \<noteq> CHR 0x22" "hex_digit n \<noteq> CHR 0x5C" by auto
      qed
      have "ord c div 16 < 16" using byte_bound [of c] by linarith
      then have "CHR 0x22 \<notin> set (hex_escape c)" "CHR 0x5C \<notin> set (hex_escape c)"
        using h [of "ord c div 16"] h [of "ord c mod 16"] by (auto simp: hex_escape_def)
      then show ?thesis using hex in_string_plain [of "hex_escape c" v] in_string_copy [of "CHR 0x5C" "hex_escape c @ v"]
        by (simp add: hex_escape_def)
    qed
  qed
  then show ?case using v by (simp add: v_def)
qed simp

lemma minified_quote: "unescaped_end s \<Longrightarrow> minified (quote s @ r) = quote s @ minified r"
  by (simp add: quote_def in_string_escaped json_blank_def)

definition solid :: "char \<Rightarrow> bool" where
  "solid c \<longleftrightarrow> \<not> json_blank c \<and> c \<noteq> CHR ''/'' \<and> c \<noteq> CHR 0x22"

lemma minified_solid: "\<forall>c \<in> set u. solid c \<Longrightarrow> minified (u @ r) = u @ minified r"
  by (induction u) (simp_all add: solid_def)

lemma minified_blank: "\<forall>c \<in> set u. json_blank c \<Longrightarrow> minified (u @ r) = minified r"
  by (induction u) simp_all


lemma number_text_solid:
  assumes "wf_double d"
  shows "\<forall>c \<in> set (number_text d). solid c"
proof -
  have "numeric (sprintf_g P d)" if "is_finite d" for P using numeric_sprintf_g [OF that] .
  then have "\<forall>c \<in> set (sprintf_g P d). solid c" if "is_finite d" for P
    using that by (fastforce simp: numeric_def solid_def json_blank_def isdigit_def)
  then show ?thesis by (auto simp: number_text_def Let_def solid_def json_blank_def split: prod.splits)
qed

lemma blank_tabs: "\<forall>c \<in> set (tabs d). json_blank c"
  by (simp add: tabs_def json_blank_def)

lemma minified_key:
  assumes "unescaped_end k"
  shows "minified ((if fmt then tabs d else []) @ quote k @ (if fmt then [CHR '':'', CHR 0x09] else '':'') @ r) =
    quote k @ CHR '':'' # minified r"
  using minified_blank [OF blank_tabs] by (simp add: minified_quote [OF assms] json_blank_def)

text \<open>The text of an item within a longer text.\<close>

definition slim :: "(cJSON \<Rightarrow> string option) \<Rightarrow> (cJSON \<Rightarrow> string option) \<Rightarrow> cJSON \<Rightarrow> bool" where
  "slim f g i \<longleftrightarrow> (\<forall>t r. f i = Some t \<longrightarrow> (\<exists>t'. g i = Some t' \<and> minified (t @ r) = t' @ minified r))"

lemma slimD: "slim f g i \<Longrightarrow> f i = Some t \<Longrightarrow> \<exists>t'. g i = Some t' \<and> minified (t @ r) = t' @ minified r"
  by (simp add: slim_def)

lemma minified_elements:
  assumes "\<forall>c \<in> set cs. slim (render True d) (render False e) c" "render_elements True d cs = Some t"
  shows "\<exists>t'. render_elements False e cs = Some t' \<and> minified (t @ r) = t' @ minified r"
  using assms
proof (induction cs arbitrary: t)
  case (Cons c cs)
  obtain u us where u: "render True d c = Some u" "render_elements True d cs = Some us"
    "t = u @ (if cs = [] then [] else '', '') @ us" using Cons.prems(2) by auto
  obtain us' where us': "render_elements False e cs = Some us'" "minified (us @ r) = us' @ minified r"
    using Cons u(2) by auto
  obtain u' where "render False e c = Some u'"
    "minified (u @ (if cs = [] then [] else '', '') @ us @ r) = u' @ minified ((if cs = [] then [] else '', '') @ us @ r)"
    using slimD [of "render True d" "render False e" c u] u(1) Cons.prems(1) by (metis list.set_intros(1))
  then show ?case using us' u(3) by (auto simp: json_blank_def)
qed simp

lemma minified_members:
  assumes "\<forall>c \<in> set cs. slim (render True d) (render False e) c" "\<forall>c \<in> set cs. unescaped_end (text_of (item_string c))"
    and "render_members True d cs = Some t"
  shows "\<exists>t'. render_members False e cs = Some t' \<and> minified (t @ r) = t' @ minified r"
  using assms
proof (induction cs arbitrary: t)
  case (Cons c cs)
  obtain u us where u: "render True d c = Some u" "render_members True d cs = Some us"
    "t = tabs d @ quote (text_of (item_string c)) @ [CHR '':'', CHR 0x09] @ u @ (if cs = [] then [] else '','') @ [CHR 0x0A] @ us"
    using Cons.prems(3) by auto
  obtain us' where us': "render_members False e cs = Some us'" "minified (us @ r) = us' @ minified r"
    using Cons u(2) by auto
  obtain u' where u': "render False e c = Some u'"
    "minified (u @ (if cs = [] then [] else '','') @ [CHR 0x0A] @ us @ r) =
      u' @ minified ((if cs = [] then [] else '','') @ [CHR 0x0A] @ us @ r)"
    using slimD [of "render True d" "render False e" c u] u(1) Cons.prems(1) by (metis list.set_intros(1))
  have "minified (t @ r) = quote (text_of (item_string c)) @ CHR '':'' #
      minified (u @ (if cs = [] then [] else '','') @ [CHR 0x0A] @ us @ r)"
    using minified_key [of "text_of (item_string c)" True d] Cons.prems(2) u(3) by simp
  then show ?case using us' u' by (auto simp: json_blank_def)
qed simp

lemma slim_render:
  assumes "printable i" "no_raw i" "minifiable i"
  shows "slim (render True d) (render False e) i"
  using assms
proof (induction i arbitrary: d e rule: cJSON.induct)
  case (Item t vs vi vd s cs)
  define k where "k = t AND 0xFF"
  have vd: "wf_double vd" and nr: "k \<noteq> cJSON_Raw" and vs: "unescaped_end (text_of vs)"
    using Item.prems by (simp_all add: k_def)
  have sub: "\<forall>c \<in> set cs. slim (render True (d + 1)) (render False (e + 1)) c" if "k = cJSON_Array \<or> k = cJSON_Object"
    using Item that by (auto simp: k_def)
  have names: "\<forall>c \<in> set cs. unescaped_end (text_of (item_string c))"
  proof
    fix c assume "c \<in> set cs"
    then have "minifiable c" using Item.prems by simp
    then show "unescaped_end (text_of (item_string c))" by (cases c) simp
  qed
  show ?case unfolding slim_def
  proof (intro allI impI)
    fix u r assume r: "render True d (Item t vs vi vd s cs) = Some u"
    note r' = r [unfolded render.simps Let_def k_def [symmetric]]
    note goal = render.simps(1) [of False e t vs vi vd s cs, unfolded Let_def k_def [symmetric]]
    consider (num) "k = cJSON_Number" | (str) "k = cJSON_String" | (arr) "k = cJSON_Array" | (obj) "k = cJSON_Object"
      | (word) "k = cJSON_NULL \<or> k = cJSON_False \<or> k = cJSON_True"
      using r' nr by (auto split: if_splits)
    then show "\<exists>t'. render False e (Item t vs vi vd s cs) = Some t' \<and> minified (u @ r) = t' @ minified r"
    proof cases
      case num
      then show ?thesis using r' minified_solid [OF number_text_solid [OF vd]] unfolding goal by simp
    next
      case str
      then show ?thesis using r' minified_quote [OF vs] unfolding goal by simp
    next
      case arr
      then obtain ts where ts: "render_elements True (d + 1) cs = Some ts" "u = ''['' @ ts @ '']''" using r' by auto
      obtain ts' where "render_elements False (e + 1) cs = Some ts'" "minified (ts @ '']'' @ r) = ts' @ minified ('']'' @ r)"
        using minified_elements [OF _ ts(1), of "e + 1" "'']'' @ r"] sub arr by auto
      then show ?thesis using arr ts(2) unfolding goal by (simp add: json_blank_def)
    next
      case obj
      then obtain ts where ts: "render_members True (d + 1) cs = Some ts" "u = [CHR ''{'', CHR 0x0A] @ ts @ tabs d @ ''}''"
        using r' by auto
      obtain ts' where "render_members False (e + 1) cs = Some ts'"
        "minified (ts @ tabs d @ ''}'' @ r) = ts' @ minified (tabs d @ ''}'' @ r)"
        using minified_members [OF _ names ts(1), of "e + 1" "tabs d @ ''}'' @ r"] sub obj by auto
      then show ?thesis using obj ts(2) minified_blank [OF blank_tabs] unfolding goal by (simp add: json_blank_def)
    next
      case word
      then show ?thesis using r' unfolding goal by (auto simp: json_blank_def)
    qed
  qed
qed

lemma minify_formatted:
  assumes "printable i" and "no_raw i" and "minifiable i" and "render True 0 i = Some t"
  shows "\<exists>s' t'. cJSON_Minify (Some (t @ NUL # rest)) = Some (Some s') \<and> length s' = length t + 1 + length rest \<and>
    render False 0 i = Some t' \<and> cstring s' = t'"
proof -
  obtain t' where t': "render False 0 i = Some t'" "minified (t @ []) = t' @ minified []"
    using slim_render [OF assms(1-3), of 0 0] assms(4) unfolding slim_def by blast
  moreover have "nulfree t" using render_nulfree(1) [OF assms(1,4)] .
  ultimately show ?thesis using minify_implements [of t rest] by auto
qed

text \<open>C9: \<open>cJSON_Minify\<close> stays inside its text, which keeps its length, and turns the formatted text
  of an item into the unformatted text, if no string or name in it ends in a backslash.\<close>

theorem cJSON_Minify_formatted:
  assumes "printable i" and "no_raw i" and "minifiable i" and "render True 0 i = Some t"
  shows "\<exists>s' t'. cJSON_Minify (Some (t @ NUL # rest)) = Some (Some s') \<and> length s' = length t + 1 + length rest \<and>
    render False 0 i = Some t' \<and> cstring s' = t'"
  by (rule minify_formatted [OF assms])

theorem cJSON_Minify_formatted_witness:
  "\<exists>s' t'. cJSON_Minify (Some (''[true, null]'' @ NUL # ''x'')) = Some (Some s') \<and> length s' = length ''[true, null]'' + 1 + length ''x'' \<and>
    render False 0 (Item cJSON_Array None 0 zero_double None
      [Item cJSON_True None 1 zero_double None [], Item cJSON_NULL None 0 zero_double None []]) = Some t' \<and> cstring s' = t'"
  by (rule cJSON_Minify_formatted)
    (simp_all add: text_of_def zero_double_def canonical_def unescaped_end_def)

text \<open>The condition is needed: after a name that ends in a backslash the string state is inverted,
  and white space of the JSON text is kept while white space inside the next string is removed.\<close>

theorem cJSON_Minify_backslash:
  "map_option (map_option cstring) (cJSON_Minify (Some ([CHR 0x22, CHR 0x5C, CHR 0x5C, CHR 0x22] @ '', '' @ [CHR 0x22] @ ''a b'' @ [CHR 0x22, NUL]))) =
   Some (Some ([CHR 0x22, CHR 0x5C, CHR 0x5C, CHR 0x22] @ '', '' @ [CHR 0x22] @ ''ab'' @ [CHR 0x22]))"
proof -
  have "nulfree ([CHR 0x22, CHR 0x5C, CHR 0x5C, CHR 0x22] @ '', '' @ [CHR 0x22] @ ''a b'' @ [CHR 0x22])" by simp
  from minify_implements [OF this, of "[]"] show ?thesis by (auto simp: json_blank_def)
qed

end
