(* ===== verification/Nodes.thy ===== *)
theory Nodes
  imports Printer
begin

text \<open>
  Items as nodes of a heap, for the code of \<open>json/cJSON.c\<close> that builds and edits trees through
  pointers: the fields \<open>next\<close>, \<open>prev\<close> and \<open>child\<close> are addresses, and a read or write
  through a null or freed pointer is \<open>None\<close>.  A loop along a chain is a partial function, which
  is \<open>None\<close> when the chain does not end.
\<close>

section \<open>The heap\<close>

type_synonym ptr = "nat option"

text \<open>A pointer to characters: null, a constant of the program, or a place in a block.\<close>

datatype text_ptr = Null | Const string | Block nat nat

record node =
  nnext :: ptr
  nprev :: ptr
  nchild :: ptr
  ntype :: u32
  nvaluestring :: text_ptr
  nvalueint :: int
  nvaluedouble :: double
  nstring :: text_ptr

record heap =
  nodes :: "nat \<Rightarrow> node option"
  texts :: "nat \<Rightarrow> string option"
  brk :: nat
  hmem :: mem

definition zero_node :: node where
  "zero_node = \<lparr>nnext = None, nprev = None, nchild = None, ntype = 0, nvaluestring = Null,
     nvalueint = 0, nvaluedouble = zero_double, nstring = Null\<rparr>"

definition node_at :: "heap \<Rightarrow> ptr \<Rightarrow> node option" where
  "node_at h p = Option.bind p (nodes h)"

text \<open>Assignment to fields of the node at \<open>p\<close>.\<close>

definition change :: "heap \<Rightarrow> ptr \<Rightarrow> (node \<Rightarrow> node) \<Rightarrow> heap option" where
  "change h p f = do { a \<leftarrow> p; n \<leftarrow> nodes h a; Some (h\<lparr>nodes := (nodes h)(a \<mapsto> f n)\<rparr>) }"

definition set_next :: "heap \<Rightarrow> ptr \<Rightarrow> ptr \<Rightarrow> heap option" where
  "set_next h p q = change h p (\<lambda>n. n\<lparr>nnext := q\<rparr>)"

definition set_prev :: "heap \<Rightarrow> ptr \<Rightarrow> ptr \<Rightarrow> heap option" where
  "set_prev h p q = change h p (\<lambda>n. n\<lparr>nprev := q\<rparr>)"

definition set_child :: "heap \<Rightarrow> ptr \<Rightarrow> ptr \<Rightarrow> heap option" where
  "set_child h p q = change h p (\<lambda>n. n\<lparr>nchild := q\<rparr>)"

text \<open>The C string at a pointer: \<open>Some None\<close> is the null pointer.\<close>

definition text_at :: "heap \<Rightarrow> text_ptr \<Rightarrow> string option option" where
  "text_at h t = (case t of
     Null \<Rightarrow> Some None
   | Const s \<Rightarrow> Some (Some (cstring s))
   | Block a i \<Rightarrow> do { s \<leftarrow> texts h a; n \<leftarrow> strlen_at s i; Some (Some (take n (drop i s))) })"

text \<open>The same where the code reads characters without a test for null.\<close>

definition chars_at :: "heap \<Rightarrow> text_ptr \<Rightarrow> string option" where
  "chars_at h t = Option.bind (text_at h t) (\<lambda>r. r)"

definition new_node :: "heap \<Rightarrow> ptr \<times> heap" where
  "new_node h = (case allocate (hmem h) of
     (False, m) \<Rightarrow> (None, h\<lparr>hmem := m\<rparr>)
   | (True, m) \<Rightarrow> (Some (brk h), h\<lparr>hmem := m, nodes := (nodes h)(brk h \<mapsto> zero_node), brk := brk h + 1\<rparr>))"

definition new_text :: "heap \<Rightarrow> string \<Rightarrow> text_ptr \<times> heap" where
  "new_text h s = (case allocate (hmem h) of
     (False, m) \<Rightarrow> (Null, h\<lparr>hmem := m\<rparr>)
   | (True, m) \<Rightarrow> (Block (brk h) 0, h\<lparr>hmem := m, texts := (texts h)(brk h \<mapsto> s), brk := brk h + 1\<rparr>))"

text \<open>\<open>malloc\<close> of characters, and writing to them.\<close>

definition malloc_text :: "heap \<Rightarrow> nat \<Rightarrow> text_ptr \<times> heap" where
  "malloc_text h n = new_text h (fresh_block (hmem h) n)"

definition write_text :: "heap \<Rightarrow> text_ptr \<Rightarrow> string \<Rightarrow> heap option" where
  "write_text h t cs = (case t of
     Block a i \<Rightarrow> do { s \<leftarrow> texts h a; s \<leftarrow> blit s i cs; Some (h\<lparr>texts := (texts h)(a \<mapsto> s)\<rparr>) }
   | _ \<Rightarrow> None)"

text \<open>\<open>free\<close> of a node and of characters; only a live block can be freed.\<close>

definition free_node :: "heap \<Rightarrow> nat \<Rightarrow> heap option" where
  "free_node h a = do { _ \<leftarrow> nodes h a;
     Some (h\<lparr>nodes := (nodes h)(a := None), hmem := deallocate 1 (hmem h)\<rparr>) }"

definition free_text :: "heap \<Rightarrow> text_ptr \<Rightarrow> heap option" where
  "free_text h t = (case t of
     Null \<Rightarrow> Some h
   | Const _ \<Rightarrow> None
   | Block a i \<Rightarrow> do { _ \<leftarrow> texts h a;
       if i = 0 then Some (h\<lparr>texts := (texts h)(a := None), hmem := deallocate 1 (hmem h)\<rparr>) else None })"

definition flag :: "node \<Rightarrow> u32 \<Rightarrow> bool" where
  "flag n f \<longleftrightarrow> ntype n AND f \<noteq> 0"

text \<open>The type tests \<open>cJSON_IsArray\<close> and so on, on a pointer.\<close>

definition is_kind_at :: "u32 \<Rightarrow> heap \<Rightarrow> ptr \<Rightarrow> bool option" where
  "is_kind_at t h p = (case p of None \<Rightarrow> Some False | Some a \<Rightarrow> map_option (\<lambda>n. ntype n AND 0xFF = t) (nodes h a))"

section \<open>Comparing strings\<close>

text \<open>\<open>strcmp\<close> of C strings after the map \<open>f\<close> of characters: the difference at the first place
  where they differ.\<close>

fun compare_by :: "(char \<Rightarrow> char) \<Rightarrow> string \<Rightarrow> string \<Rightarrow> int" where
  "compare_by f [] [] = 0"
| "compare_by f [] (d # ds) = - int (ord (f d))"
| "compare_by f (c # cs) [] = int (ord (f c))"
| "compare_by f (c # cs) (d # ds) =
     (if f c = f d then compare_by f cs ds else int (ord (f c)) - int (ord (f d)))"

definition strcmp :: "string \<Rightarrow> string \<Rightarrow> int" where
  "strcmp = compare_by id"

definition case_insensitive_strcmp :: "string option \<Rightarrow> string option \<Rightarrow> int" where
  "case_insensitive_strcmp string1 string2 =
     (case (string1, string2) of (Some s, Some t) \<Rightarrow> compare_by tolower s t | _ \<Rightarrow> 1)"

section \<open>Strings\<close>

definition cJSON_strdup :: "heap \<Rightarrow> text_ptr \<Rightarrow> (text_ptr \<times> heap) option" where
  "cJSON_strdup h t = do {
     r \<leftarrow> text_at h t;
     (case r of None \<Rightarrow> Some (Null, h) | Some s \<Rightarrow> Some (new_text h (s @ [NUL]))) }"

text \<open>\<open>strcpy\<close> of a string onto itself is undefined, as is writing to a constant.\<close>

definition cJSON_SetValuestring :: "heap \<Rightarrow> ptr \<Rightarrow> text_ptr \<Rightarrow> (text_ptr \<times> heap) option" where
  "cJSON_SetValuestring h object value = do {
     n \<leftarrow> node_at h object;
     if \<not> flag n cJSON_String \<or> flag n cJSON_IsReference then Some (Null, h)
     else do {
       new \<leftarrow> chars_at h value;
       old \<leftarrow> chars_at h (nvaluestring n);
       if length new \<le> length old
       then do {
         h \<leftarrow> (if value = nvaluestring n then None else write_text h (nvaluestring n) (new @ [NUL]));
         Some (nvaluestring n, h) }
       else do {
         (copy, h) \<leftarrow> cJSON_strdup h value;
         if copy = Null then Some (Null, h)
         else do {
           h \<leftarrow> free_text h (nvaluestring n);
           h \<leftarrow> change h object (\<lambda>n. n\<lparr>nvaluestring := copy\<rparr>);
           Some (copy, h) } } } }"

section \<open>Deleting\<close>

partial_function (option) cJSON_Delete_at :: "heap \<Rightarrow> ptr \<Rightarrow> heap option" where
  [code]: "cJSON_Delete_at h item = (case item of
     None \<Rightarrow> Some h
   | Some a \<Rightarrow> do {
       n \<leftarrow> nodes h a;
       h \<leftarrow> (if \<not> flag n cJSON_IsReference \<and> nchild n \<noteq> None then cJSON_Delete_at h (nchild n) else Some h);
       n' \<leftarrow> nodes h a;
       h \<leftarrow> (if \<not> flag n' cJSON_IsReference \<and> nvaluestring n' \<noteq> Null then free_text h (nvaluestring n') else Some h);
       h \<leftarrow> (if \<not> flag n' cJSON_StringIsConst \<and> nstring n' \<noteq> Null then free_text h (nstring n') else Some h);
       h \<leftarrow> free_node h a;
       cJSON_Delete_at h (nnext n) })"

section \<open>Looking up\<close>

partial_function (option) chain_length :: "heap \<Rightarrow> ptr \<Rightarrow> nat \<Rightarrow> nat option" where
  [code]: "chain_length h child count = (case child of
     None \<Rightarrow> Some count
   | Some a \<Rightarrow> do { n \<leftarrow> nodes h a; chain_length h (nnext n) (count + 1) })"

text \<open>The cast of \<open>size_t\<close> to \<open>int\<close> wraps.\<close>

definition cJSON_GetArraySize :: "heap \<Rightarrow> ptr \<Rightarrow> int option" where
  "cJSON_GetArraySize h array = (case array of
     None \<Rightarrow> Some 0
   | Some a \<Rightarrow> do {
       n \<leftarrow> nodes h a;
       count \<leftarrow> chain_length h (nchild n) 0;
       Some (sint (word_of_nat count :: u32)) })"

partial_function (option) chain_nth :: "heap \<Rightarrow> ptr \<Rightarrow> nat \<Rightarrow> ptr option" where
  [code]: "chain_nth h current_child index = (case current_child of
     None \<Rightarrow> Some None
   | Some a \<Rightarrow> if 0 < index then do { n \<leftarrow> nodes h a; chain_nth h (nnext n) (index - 1) }
               else Some current_child)"

definition get_array_item :: "heap \<Rightarrow> ptr \<Rightarrow> nat \<Rightarrow> ptr option" where
  "get_array_item h array index = (case array of
     None \<Rightarrow> Some None
   | Some a \<Rightarrow> do { n \<leftarrow> nodes h a; chain_nth h (nchild n) index })"

definition cJSON_GetArrayItem :: "heap \<Rightarrow> ptr \<Rightarrow> int \<Rightarrow> ptr option" where
  "cJSON_GetArrayItem h array index =
     (if index < 0 then Some None else get_array_item h array (nat index))"

text \<open>Where the search for a name stops: with case at a null name too, without case only at the name.\<close>

definition name_stops :: "bool \<Rightarrow> string \<Rightarrow> string option \<Rightarrow> bool" where
  "name_stops case_sensitive name key =
     (if case_sensitive then (case key of None \<Rightarrow> True | Some s \<Rightarrow> strcmp name s = 0)
      else case_insensitive_strcmp (Some name) key = 0)"

partial_function (option) chain_find :: "heap \<Rightarrow> bool \<Rightarrow> string \<Rightarrow> ptr \<Rightarrow> ptr option" where
  [code]: "chain_find h case_sensitive name current_element = (case current_element of
     None \<Rightarrow> Some None
   | Some a \<Rightarrow> do {
       n \<leftarrow> nodes h a;
       key \<leftarrow> text_at h (nstring n);
       if name_stops case_sensitive name key then Some current_element
       else chain_find h case_sensitive name (nnext n) })"

definition get_object_item :: "heap \<Rightarrow> ptr \<Rightarrow> text_ptr \<Rightarrow> bool \<Rightarrow> ptr option" where
  "get_object_item h object name case_sensitive =
     (if object = None \<or> name = Null then Some None
      else do {
        n \<leftarrow> node_at h object;
        nm \<leftarrow> chars_at h name;
        current_element \<leftarrow> chain_find h case_sensitive nm (nchild n);
        (case current_element of
           None \<Rightarrow> Some None
         | Some a \<Rightarrow> do { e \<leftarrow> nodes h a; Some (if nstring e = Null then None else current_element) }) })"

definition cJSON_GetObjectItem :: "heap \<Rightarrow> ptr \<Rightarrow> text_ptr \<Rightarrow> ptr option" where
  "cJSON_GetObjectItem h object string = get_object_item h object string False"

definition cJSON_GetObjectItemCaseSensitive :: "heap \<Rightarrow> ptr \<Rightarrow> text_ptr \<Rightarrow> ptr option" where
  "cJSON_GetObjectItemCaseSensitive h object string = get_object_item h object string True"

definition cJSON_HasObjectItem :: "heap \<Rightarrow> ptr \<Rightarrow> text_ptr \<Rightarrow> bool option" where
  "cJSON_HasObjectItem h object string = map_option (\<lambda>r. r \<noteq> None) (cJSON_GetObjectItem h object string)"

section \<open>Adding\<close>

definition suffix_object :: "heap \<Rightarrow> ptr \<Rightarrow> ptr \<Rightarrow> heap option" where
  "suffix_object h prev item = do { h \<leftarrow> set_next h prev item; set_prev h item prev }"

definition create_reference :: "heap \<Rightarrow> ptr \<Rightarrow> (ptr \<times> heap) option" where
  "create_reference h item = (case item of
     None \<Rightarrow> Some (None, h)
   | Some _ \<Rightarrow> (case new_node h of
       (None, h) \<Rightarrow> Some (None, h)
     | (Some r, h) \<Rightarrow> do {
         n \<leftarrow> node_at h item;
         h \<leftarrow> change h (Some r) (\<lambda>_. n\<lparr>nstring := Null, ntype := ntype n OR cJSON_IsReference,
                                         nnext := None, nprev := None\<rparr>);
         Some (Some r, h) }))"

definition add_item_to_array :: "heap \<Rightarrow> ptr \<Rightarrow> ptr \<Rightarrow> (bool \<times> heap) option" where
  "add_item_to_array h array item =
     (if item = None \<or> array = None \<or> array = item then Some (False, h)
      else do {
        n \<leftarrow> node_at h array;
        (case nchild n of
           None \<Rightarrow> do {
             h \<leftarrow> set_child h array item;
             h \<leftarrow> set_prev h item item;
             h \<leftarrow> set_next h item None;
             Some (True, h) }
         | Some child \<Rightarrow> do {
             c \<leftarrow> nodes h child;
             if nprev c \<noteq> None
             then do {
               h \<leftarrow> suffix_object h (nprev c) item;
               n \<leftarrow> node_at h array;
               h \<leftarrow> set_prev h (nchild n) item;
               Some (True, h) }
             else Some (True, h) }) })"

definition cJSON_AddItemToArray :: "heap \<Rightarrow> ptr \<Rightarrow> ptr \<Rightarrow> (bool \<times> heap) option" where
  "cJSON_AddItemToArray h array item = add_item_to_array h array item"

definition add_item_to_object :: "heap \<Rightarrow> ptr \<Rightarrow> text_ptr \<Rightarrow> ptr \<Rightarrow> bool \<Rightarrow> (bool \<times> heap) option" where
  "add_item_to_object h object string item constant_key =
     (if object = None \<or> string = Null \<or> item = None \<or> object = item then Some (False, h)
      else do {
        (new_key, h) \<leftarrow> (if constant_key then Some (string, h) else cJSON_strdup h string);
        if \<not> constant_key \<and> new_key = Null then Some (False, h)
        else do {
          n \<leftarrow> node_at h item;
          let new_type = (if constant_key then ntype n OR cJSON_StringIsConst
                          else ntype n AND NOT cJSON_StringIsConst);
          h \<leftarrow> (if \<not> flag n cJSON_StringIsConst \<and> nstring n \<noteq> Null then free_text h (nstring n) else Some h);
          h \<leftarrow> change h item (\<lambda>n. n\<lparr>nstring := new_key, ntype := new_type\<rparr>);
          add_item_to_array h object item } })"

definition cJSON_AddItemToObject :: "heap \<Rightarrow> ptr \<Rightarrow> text_ptr \<Rightarrow> ptr \<Rightarrow> (bool \<times> heap) option" where
  "cJSON_AddItemToObject h object string item = add_item_to_object h object string item False"

definition cJSON_AddItemToObjectCS :: "heap \<Rightarrow> ptr \<Rightarrow> text_ptr \<Rightarrow> ptr \<Rightarrow> (bool \<times> heap) option" where
  "cJSON_AddItemToObjectCS h object string item = add_item_to_object h object string item True"

definition cJSON_AddItemReferenceToArray :: "heap \<Rightarrow> ptr \<Rightarrow> ptr \<Rightarrow> (bool \<times> heap) option" where
  "cJSON_AddItemReferenceToArray h array item =
     (if array = None then Some (False, h)
      else do { (r, h) \<leftarrow> create_reference h item; add_item_to_array h array r })"

definition cJSON_AddItemReferenceToObject :: "heap \<Rightarrow> ptr \<Rightarrow> text_ptr \<Rightarrow> ptr \<Rightarrow> (bool \<times> heap) option" where
  "cJSON_AddItemReferenceToObject h object string item =
     (if object = None \<or> string = Null then Some (False, h)
      else do { (r, h) \<leftarrow> create_reference h item; add_item_to_object h object string r False })"

section \<open>Detaching, inserting, replacing\<close>

definition cJSON_DetachItemViaPointer :: "heap \<Rightarrow> ptr \<Rightarrow> ptr \<Rightarrow> (ptr \<times> heap) option" where
  "cJSON_DetachItemViaPointer h parent item =
     (if parent = None \<or> item = None then Some (None, h)
      else do {
        p \<leftarrow> node_at h parent;
        h \<leftarrow> (if item \<noteq> nchild p then do { n \<leftarrow> node_at h item; set_next h (nprev n) (nnext n) } else Some h);
        n \<leftarrow> node_at h item;
        h \<leftarrow> (if nnext n \<noteq> None then set_prev h (nnext n) (nprev n) else Some h);
        p \<leftarrow> node_at h parent;
        n \<leftarrow> node_at h item;
        h \<leftarrow> (if item = nchild p then set_child h parent (nnext n)
             else if nnext n = None then set_prev h (nchild p) (nprev n)
             else Some h);
        h \<leftarrow> set_prev h item None;
        h \<leftarrow> set_next h item None;
        Some (item, h) })"

definition cJSON_DetachItemFromArray :: "heap \<Rightarrow> ptr \<Rightarrow> int \<Rightarrow> (ptr \<times> heap) option" where
  "cJSON_DetachItemFromArray h array which =
     (if which < 0 then Some (None, h)
      else do { item \<leftarrow> get_array_item h array (nat which); cJSON_DetachItemViaPointer h array item })"

definition cJSON_DeleteItemFromArray :: "heap \<Rightarrow> ptr \<Rightarrow> int \<Rightarrow> heap option" where
  "cJSON_DeleteItemFromArray h array which = do {
     (item, h) \<leftarrow> cJSON_DetachItemFromArray h array which; cJSON_Delete_at h item }"

definition cJSON_DetachItemFromObject :: "heap \<Rightarrow> ptr \<Rightarrow> text_ptr \<Rightarrow> (ptr \<times> heap) option" where
  "cJSON_DetachItemFromObject h object string = do {
     to_detach \<leftarrow> cJSON_GetObjectItem h object string; cJSON_DetachItemViaPointer h object to_detach }"

definition cJSON_DetachItemFromObjectCaseSensitive :: "heap \<Rightarrow> ptr \<Rightarrow> text_ptr \<Rightarrow> (ptr \<times> heap) option" where
  "cJSON_DetachItemFromObjectCaseSensitive h object string = do {
     to_detach \<leftarrow> cJSON_GetObjectItemCaseSensitive h object string;
     cJSON_DetachItemViaPointer h object to_detach }"

definition cJSON_DeleteItemFromObject :: "heap \<Rightarrow> ptr \<Rightarrow> text_ptr \<Rightarrow> heap option" where
  "cJSON_DeleteItemFromObject h object string = do {
     (item, h) \<leftarrow> cJSON_DetachItemFromObject h object string; cJSON_Delete_at h item }"

definition cJSON_DeleteItemFromObjectCaseSensitive :: "heap \<Rightarrow> ptr \<Rightarrow> text_ptr \<Rightarrow> heap option" where
  "cJSON_DeleteItemFromObjectCaseSensitive h object string = do {
     (item, h) \<leftarrow> cJSON_DetachItemFromObjectCaseSensitive h object string; cJSON_Delete_at h item }"

text \<open>The links that \<open>newitem\<close> gets in front of \<open>after_inserted\<close>.\<close>

definition link_before :: "heap \<Rightarrow> ptr \<Rightarrow> ptr \<Rightarrow> ptr \<Rightarrow> heap option" where
  "link_before h array after_inserted newitem = do {
     h \<leftarrow> set_next h newitem after_inserted;
     a \<leftarrow> node_at h after_inserted;
     h \<leftarrow> set_prev h newitem (nprev a);
     h \<leftarrow> set_prev h after_inserted newitem;
     p \<leftarrow> node_at h array;
     if after_inserted = nchild p then set_child h array newitem
     else do { n \<leftarrow> node_at h newitem; set_next h (nprev n) newitem } }"

definition cJSON_InsertItemInArray :: "heap \<Rightarrow> ptr \<Rightarrow> int \<Rightarrow> ptr \<Rightarrow> (bool \<times> heap) option" where
  "cJSON_InsertItemInArray h array which newitem =
     (if which < 0 then Some (False, h)
      else do {
        after_inserted \<leftarrow> get_array_item h array (nat which);
        if after_inserted = None then add_item_to_array h array newitem
        else do { h \<leftarrow> link_before h array after_inserted newitem; Some (True, h) } })"

text \<open>The links that \<open>replacement\<close> takes over from \<open>item\<close>.\<close>

definition link_instead :: "heap \<Rightarrow> ptr \<Rightarrow> ptr \<Rightarrow> ptr \<Rightarrow> heap option" where
  "link_instead h parent item replacement = do {
     n \<leftarrow> node_at h item;
     h \<leftarrow> set_next h replacement (nnext n);
     n \<leftarrow> node_at h item;
     h \<leftarrow> set_prev h replacement (nprev n);
     r \<leftarrow> node_at h replacement;
     h \<leftarrow> (if nnext r \<noteq> None then set_prev h (nnext r) replacement else Some h);
     p \<leftarrow> node_at h parent;
     h \<leftarrow> (if nchild p = item
          then do {
            c \<leftarrow> node_at h (nchild p);
            h \<leftarrow> (if nprev c = nchild p then set_prev h replacement replacement else Some h);
            set_child h parent replacement }
          else do {
            r \<leftarrow> node_at h replacement;
            h \<leftarrow> (if nprev r \<noteq> None then set_next h (nprev r) replacement else Some h);
            r \<leftarrow> node_at h replacement;
            if nnext r = None then do { p \<leftarrow> node_at h parent; set_prev h (nchild p) replacement }
            else Some h });
     h \<leftarrow> set_next h item None;
     set_prev h item None }"

definition cJSON_ReplaceItemViaPointer :: "heap \<Rightarrow> ptr \<Rightarrow> ptr \<Rightarrow> ptr \<Rightarrow> (bool \<times> heap) option" where
  "cJSON_ReplaceItemViaPointer h parent item replacement =
     (if parent = None \<or> replacement = None \<or> item = None then Some (False, h)
      else if replacement = item then Some (True, h)
      else do {
        h \<leftarrow> link_instead h parent item replacement;
        h \<leftarrow> cJSON_Delete_at h item;
        Some (True, h) })"

definition cJSON_ReplaceItemInArray :: "heap \<Rightarrow> ptr \<Rightarrow> int \<Rightarrow> ptr \<Rightarrow> (bool \<times> heap) option" where
  "cJSON_ReplaceItemInArray h array which newitem =
     (if which < 0 then Some (False, h)
      else do { item \<leftarrow> get_array_item h array (nat which); cJSON_ReplaceItemViaPointer h array item newitem })"

definition replace_item_in_object :: "heap \<Rightarrow> ptr \<Rightarrow> text_ptr \<Rightarrow> ptr \<Rightarrow> bool \<Rightarrow> (bool \<times> heap) option" where
  "replace_item_in_object h object string replacement case_sensitive =
     (if replacement = None \<or> string = Null then Some (False, h)
      else do {
        r \<leftarrow> node_at h replacement;
        h \<leftarrow> (if \<not> flag r cJSON_StringIsConst \<and> nstring r \<noteq> Null then free_text h (nstring r) else Some h);
        (key, h) \<leftarrow> cJSON_strdup h string;
        h \<leftarrow> change h replacement (\<lambda>r. r\<lparr>nstring := key, ntype := ntype r AND NOT cJSON_StringIsConst\<rparr>);
        item \<leftarrow> get_object_item h object string case_sensitive;
        cJSON_ReplaceItemViaPointer h object item replacement })"

definition cJSON_ReplaceItemInObject :: "heap \<Rightarrow> ptr \<Rightarrow> text_ptr \<Rightarrow> ptr \<Rightarrow> (bool \<times> heap) option" where
  "cJSON_ReplaceItemInObject h object string newitem = replace_item_in_object h object string newitem False"

definition cJSON_ReplaceItemInObjectCaseSensitive :: "heap \<Rightarrow> ptr \<Rightarrow> text_ptr \<Rightarrow> ptr \<Rightarrow> (bool \<times> heap) option" where
  "cJSON_ReplaceItemInObjectCaseSensitive h object string newitem =
     replace_item_in_object h object string newitem True"

end
