(* ===== verification/Create.thy ===== *)
theory Create
  imports Nodes
begin

text \<open>
  The constructors of \<open>json/cJSON.c\<close>, the functions that create an item and add it to an object
  at once, arrays from C arrays, the copy of an item and the comparison of two items.  Recursion over
  the tree takes fuel; the entry points pass \<open>depth_fuel\<close>, more than the number of nodes.
\<close>

section \<open>Constructors\<close>

text \<open>A new item, if there is memory, finished by \<open>f\<close>.\<close>

definition create_with :: "(nat \<Rightarrow> heap \<Rightarrow> (ptr \<times> heap) option) \<Rightarrow> heap \<Rightarrow> (ptr \<times> heap) option" where
  "create_with f h = (case new_node h of (None, h) \<Rightarrow> Some (None, h) | (Some a, h) \<Rightarrow> f a h)"

text \<open>Assignments to the fields of the new item, then its return.\<close>

definition filled :: "(node \<Rightarrow> node) \<Rightarrow> nat \<Rightarrow> heap \<Rightarrow> (ptr \<times> heap) option" where
  "filled f a h = do { h \<leftarrow> change h (Some a) f; Some (Some a, h) }"

definition cJSON_CreateNull :: "heap \<Rightarrow> (ptr \<times> heap) option" where
  "cJSON_CreateNull = create_with (filled (\<lambda>n. n\<lparr>ntype := cJSON_NULL\<rparr>))"

definition cJSON_CreateTrue :: "heap \<Rightarrow> (ptr \<times> heap) option" where
  "cJSON_CreateTrue = create_with (filled (\<lambda>n. n\<lparr>ntype := cJSON_True\<rparr>))"

definition cJSON_CreateFalse :: "heap \<Rightarrow> (ptr \<times> heap) option" where
  "cJSON_CreateFalse = create_with (filled (\<lambda>n. n\<lparr>ntype := cJSON_False\<rparr>))"

definition cJSON_CreateBool :: "bool \<Rightarrow> heap \<Rightarrow> (ptr \<times> heap) option" where
  "cJSON_CreateBool boolean =
     create_with (filled (\<lambda>n. n\<lparr>ntype := (if boolean then cJSON_True else cJSON_False)\<rparr>))"

definition cJSON_CreateNumber :: "double \<Rightarrow> heap \<Rightarrow> (ptr \<times> heap) option" where
  "cJSON_CreateNumber num = create_with (\<lambda>a h. do {
     vi \<leftarrow> saturate num;
     filled (\<lambda>n. n\<lparr>ntype := cJSON_Number, nvaluedouble := num, nvalueint := vi\<rparr>) a h })"

text \<open>An item of type \<open>t\<close> that holds a copy of the string.\<close>

definition create_text :: "u32 \<Rightarrow> text_ptr \<Rightarrow> heap \<Rightarrow> (ptr \<times> heap) option" where
  "create_text t s = create_with (\<lambda>a h. do {
     (copy, h) \<leftarrow> cJSON_strdup h s;
     h \<leftarrow> change h (Some a) (\<lambda>n. n\<lparr>ntype := t, nvaluestring := copy\<rparr>);
     if copy = Null then do { h \<leftarrow> cJSON_Delete_at h (Some a); Some (None, h) }
     else Some (Some a, h) })"

definition cJSON_CreateString :: "text_ptr \<Rightarrow> heap \<Rightarrow> (ptr \<times> heap) option" where
  "cJSON_CreateString s = create_text cJSON_String s"

definition cJSON_CreateRaw :: "text_ptr \<Rightarrow> heap \<Rightarrow> (ptr \<times> heap) option" where
  "cJSON_CreateRaw raw = create_text cJSON_Raw raw"

definition cJSON_CreateStringReference :: "text_ptr \<Rightarrow> heap \<Rightarrow> (ptr \<times> heap) option" where
  "cJSON_CreateStringReference s =
     create_with (filled (\<lambda>n. n\<lparr>ntype := cJSON_String OR cJSON_IsReference, nvaluestring := s\<rparr>))"

definition cJSON_CreateObjectReference :: "ptr \<Rightarrow> heap \<Rightarrow> (ptr \<times> heap) option" where
  "cJSON_CreateObjectReference child =
     create_with (filled (\<lambda>n. n\<lparr>ntype := cJSON_Object OR cJSON_IsReference, nchild := child\<rparr>))"

definition cJSON_CreateArrayReference :: "ptr \<Rightarrow> heap \<Rightarrow> (ptr \<times> heap) option" where
  "cJSON_CreateArrayReference child =
     create_with (filled (\<lambda>n. n\<lparr>ntype := cJSON_Array OR cJSON_IsReference, nchild := child\<rparr>))"

definition cJSON_CreateArray :: "heap \<Rightarrow> (ptr \<times> heap) option" where
  "cJSON_CreateArray = create_with (filled (\<lambda>n. n\<lparr>ntype := cJSON_Array\<rparr>))"

definition cJSON_CreateObject :: "heap \<Rightarrow> (ptr \<times> heap) option" where
  "cJSON_CreateObject = create_with (filled (\<lambda>n. n\<lparr>ntype := cJSON_Object\<rparr>))"

section \<open>Creating and adding\<close>

text \<open>All nine functions have this shape: add the new item, or delete it when it was not added.\<close>

definition add_created ::
    "(heap \<Rightarrow> (ptr \<times> heap) option) \<Rightarrow> heap \<Rightarrow> ptr \<Rightarrow> text_ptr \<Rightarrow> (ptr \<times> heap) option" where
  "add_created create h object name = do {
     (item, h) \<leftarrow> create h;
     (ok, h) \<leftarrow> add_item_to_object h object name item False;
     if ok then Some (item, h)
     else do { h \<leftarrow> cJSON_Delete_at h item; Some (None, h) } }"

definition cJSON_AddNullToObject :: "heap \<Rightarrow> ptr \<Rightarrow> text_ptr \<Rightarrow> (ptr \<times> heap) option" where
  "cJSON_AddNullToObject = add_created cJSON_CreateNull"

definition cJSON_AddTrueToObject :: "heap \<Rightarrow> ptr \<Rightarrow> text_ptr \<Rightarrow> (ptr \<times> heap) option" where
  "cJSON_AddTrueToObject = add_created cJSON_CreateTrue"

definition cJSON_AddFalseToObject :: "heap \<Rightarrow> ptr \<Rightarrow> text_ptr \<Rightarrow> (ptr \<times> heap) option" where
  "cJSON_AddFalseToObject = add_created cJSON_CreateFalse"

definition cJSON_AddBoolToObject :: "bool \<Rightarrow> heap \<Rightarrow> ptr \<Rightarrow> text_ptr \<Rightarrow> (ptr \<times> heap) option" where
  "cJSON_AddBoolToObject boolean = add_created (cJSON_CreateBool boolean)"

definition cJSON_AddNumberToObject :: "double \<Rightarrow> heap \<Rightarrow> ptr \<Rightarrow> text_ptr \<Rightarrow> (ptr \<times> heap) option" where
  "cJSON_AddNumberToObject number = add_created (cJSON_CreateNumber number)"

definition cJSON_AddStringToObject :: "text_ptr \<Rightarrow> heap \<Rightarrow> ptr \<Rightarrow> text_ptr \<Rightarrow> (ptr \<times> heap) option" where
  "cJSON_AddStringToObject s = add_created (cJSON_CreateString s)"

definition cJSON_AddRawToObject :: "text_ptr \<Rightarrow> heap \<Rightarrow> ptr \<Rightarrow> text_ptr \<Rightarrow> (ptr \<times> heap) option" where
  "cJSON_AddRawToObject raw = add_created (cJSON_CreateRaw raw)"

definition cJSON_AddObjectToObject :: "heap \<Rightarrow> ptr \<Rightarrow> text_ptr \<Rightarrow> (ptr \<times> heap) option" where
  "cJSON_AddObjectToObject = add_created cJSON_CreateObject"

definition cJSON_AddArrayToObject :: "heap \<Rightarrow> ptr \<Rightarrow> text_ptr \<Rightarrow> (ptr \<times> heap) option" where
  "cJSON_AddArrayToObject = add_created cJSON_CreateArray"

section \<open>Arrays from C arrays\<close>

text \<open>
  The loop of the four functions: \<open>create i\<close> makes the item of index \<open>i\<close>, \<open>p\<close> is the
  previous item, \<open>k\<close> the number of items to go.  The result is \<open>None\<close> when an item could not
  be made (then the array is deleted), else the last item.
\<close>

fun fill_array ::
    "(nat \<Rightarrow> heap \<Rightarrow> (ptr \<times> heap) option) \<Rightarrow> ptr \<Rightarrow> nat \<Rightarrow> nat \<Rightarrow> ptr \<Rightarrow> heap \<Rightarrow> (ptr option \<times> heap) option" where
  "fill_array create a i 0 p h = Some (Some p, h)"
| "fill_array create a i (Suc k) p h = do {
     (n, h) \<leftarrow> create i h;
     if n = None then do { h \<leftarrow> cJSON_Delete_at h a; Some (None, h) }
     else do {
       h \<leftarrow> (if i = 0 then set_child h a n else suffix_object h p n);
       fill_array create a (i + 1) k n h } }"

text \<open>The functions end with \<open>a->child->prev = n\<close>, also when \<open>a\<close> or its child is null.\<close>

definition create_array ::
    "(nat \<Rightarrow> heap \<Rightarrow> (ptr \<times> heap) option) \<Rightarrow> nat \<Rightarrow> heap \<Rightarrow> (ptr \<times> heap) option" where
  "create_array create count h = do {
     (a, h) \<leftarrow> cJSON_CreateArray h;
     (r, h) \<leftarrow> (if a = None then Some (Some None, h) else fill_array create a 0 count None h);
     (case r of
        None \<Rightarrow> Some (None, h)
      | Some n \<Rightarrow> do {
          array \<leftarrow> node_at h a;
          h \<leftarrow> set_prev h (nchild array) n;
          Some (a, h) }) }"

text \<open>Reading entry \<open>i\<close> of a C array.\<close>

definition entry :: "'a list \<Rightarrow> nat \<Rightarrow> 'a option" where
  "entry xs i = (if i < length xs then Some (xs ! i) else None)"

definition cJSON_CreateIntArray :: "int list option \<Rightarrow> int \<Rightarrow> heap \<Rightarrow> (ptr \<times> heap) option" where
  "cJSON_CreateIntArray numbers count h = (case numbers of
     None \<Rightarrow> Some (None, h)
   | Some xs \<Rightarrow> if count < 0 then Some (None, h)
       else create_array (\<lambda>i h. do { x \<leftarrow> entry xs i; cJSON_CreateNumber (double_of_int x) h }) (nat count) h)"

text \<open>The entries of the array of floats are given as the doubles they convert to.\<close>

definition cJSON_CreateFloatArray :: "double list option \<Rightarrow> int \<Rightarrow> heap \<Rightarrow> (ptr \<times> heap) option" where
  "cJSON_CreateFloatArray numbers count h = (case numbers of
     None \<Rightarrow> Some (None, h)
   | Some xs \<Rightarrow> if count < 0 then Some (None, h)
       else create_array (\<lambda>i h. do { x \<leftarrow> entry xs i; cJSON_CreateNumber x h }) (nat count) h)"

definition cJSON_CreateDoubleArray :: "double list option \<Rightarrow> int \<Rightarrow> heap \<Rightarrow> (ptr \<times> heap) option" where
  "cJSON_CreateDoubleArray numbers count h = (case numbers of
     None \<Rightarrow> Some (None, h)
   | Some xs \<Rightarrow> if count < 0 then Some (None, h)
       else create_array (\<lambda>i h. do { x \<leftarrow> entry xs i; cJSON_CreateNumber x h }) (nat count) h)"

definition cJSON_CreateStringArray :: "text_ptr list option \<Rightarrow> int \<Rightarrow> heap \<Rightarrow> (ptr \<times> heap) option" where
  "cJSON_CreateStringArray strings count h = (case strings of
     None \<Rightarrow> Some (None, h)
   | Some xs \<Rightarrow> if count < 0 then Some (None, h)
       else create_array (\<lambda>i h. do { x \<leftarrow> entry xs i; cJSON_CreateString x h }) (nat count) h)"

section \<open>Copying\<close>

definition depth_fuel :: "heap \<Rightarrow> nat" where
  "depth_fuel h = brk h + 1"

text \<open>The loop over the children, with the recursive call \<open>dup\<close>: false when a copy failed, and the
  last copy.\<close>

partial_function (option) duplicate_chain ::
    "(heap \<Rightarrow> ptr \<Rightarrow> (ptr \<times> heap) option) \<Rightarrow> ptr \<Rightarrow> ptr \<Rightarrow> ptr \<Rightarrow> heap \<Rightarrow> (bool \<times> ptr \<times> heap) option" where
  [code]: "duplicate_chain dup newitem nxt child h = (case child of
     None \<Rightarrow> Some (True, nxt, h)
   | Some c \<Rightarrow> do {
       (newchild, h) \<leftarrow> dup h child;
       if newchild = None then Some (False, None, h)
       else do {
         h \<leftarrow> (if nxt \<noteq> None then suffix_object h nxt newchild else set_child h newitem newchild);
         n \<leftarrow> nodes h c;
         duplicate_chain dup newitem newchild (nnext n) h } })"

text \<open>A copy of a string that is not null into the new item: false when there is no memory.\<close>

definition copy_text ::
    "bool \<Rightarrow> text_ptr \<Rightarrow> (text_ptr \<Rightarrow> node \<Rightarrow> node) \<Rightarrow> ptr \<Rightarrow> heap \<Rightarrow> (bool \<times> heap) option" where
  "copy_text share s assign newitem h =
     (if s = Null then Some (True, h)
      else do {
        (copy, h) \<leftarrow> (if share then Some (s, h) else cJSON_strdup h s);
        h \<leftarrow> change h newitem (assign copy);
        Some (copy \<noteq> Null, h) })"

fun duplicate_item :: "nat \<Rightarrow> heap \<Rightarrow> ptr \<Rightarrow> bool \<Rightarrow> (ptr \<times> heap) option" where
  "duplicate_item 0 h item recurse = None"
| "duplicate_item (Suc k) h item recurse = (case item of
     None \<Rightarrow> Some (None, h)
   | Some a \<Rightarrow> (case new_node h of
       (None, h) \<Rightarrow> Some (None, h)
     | (newitem, h) \<Rightarrow> do {
         n \<leftarrow> nodes h a;
         h \<leftarrow> change h newitem (\<lambda>m. m\<lparr>ntype := ntype n AND NOT cJSON_IsReference,
                nvalueint := nvalueint n, nvaluedouble := nvaluedouble n\<rparr>);
         (ok, h) \<leftarrow> copy_text False (nvaluestring n) (\<lambda>s m. m\<lparr>nvaluestring := s\<rparr>) newitem h;
         (ok, h) \<leftarrow> (if ok then copy_text (flag n cJSON_StringIsConst) (nstring n)
                             (\<lambda>s m. m\<lparr>nstring := s\<rparr>) newitem h else Some (False, h));
         (ok, newchild, h) \<leftarrow> (if ok \<and> recurse
            then duplicate_chain (\<lambda>h child. duplicate_item k h child True) newitem None (nchild n) h
            else Some (ok, None, h));
         if \<not> ok then do { h \<leftarrow> cJSON_Delete_at h newitem; Some (None, h) }
         else if \<not> recurse then Some (newitem, h)
         else do {
           m \<leftarrow> node_at h newitem;
           h \<leftarrow> (if nchild m \<noteq> None then set_prev h (nchild m) newchild else Some h);
           Some (newitem, h) } }))"

definition cJSON_Duplicate :: "heap \<Rightarrow> ptr \<Rightarrow> bool \<Rightarrow> (ptr \<times> heap) option" where
  "cJSON_Duplicate h item recurse = duplicate_item (depth_fuel h) h item recurse"

section \<open>Comparing\<close>

text \<open>The loops over the elements of two arrays, and over the members of one object, each looked up
  in the other.\<close>

partial_function (option) compare_elements ::
    "(ptr \<Rightarrow> ptr \<Rightarrow> bool option) \<Rightarrow> heap \<Rightarrow> ptr \<Rightarrow> ptr \<Rightarrow> bool option" where
  [code]: "compare_elements cmp h a_element b_element =
     (if a_element = None \<or> b_element = None then Some (a_element = b_element)
      else do {
        same \<leftarrow> cmp a_element b_element;
        if \<not> same then Some False
        else do {
          a \<leftarrow> node_at h a_element;
          b \<leftarrow> node_at h b_element;
          compare_elements cmp h (nnext a) (nnext b) } })"

partial_function (option) compare_members ::
    "(ptr \<Rightarrow> ptr \<Rightarrow> bool option) \<Rightarrow> heap \<Rightarrow> bool \<Rightarrow> ptr \<Rightarrow> ptr \<Rightarrow> bool option" where
  [code]: "compare_members cmp h case_sensitive other element = (case element of
     None \<Rightarrow> Some True
   | Some e \<Rightarrow> do {
       n \<leftarrow> nodes h e;
       other_element \<leftarrow> get_object_item h other (nstring n) case_sensitive;
       if other_element = None then Some False
       else do {
         same \<leftarrow> cmp element other_element;
         if \<not> same then Some False
         else compare_members cmp h case_sensitive other (nnext n) } })"

fun compare_items :: "nat \<Rightarrow> heap \<Rightarrow> ptr \<Rightarrow> ptr \<Rightarrow> bool \<Rightarrow> bool option" where
  "compare_items 0 h a b case_sensitive = None"
| "compare_items (Suc fuel) h a b case_sensitive =
     (if a = None \<or> b = None then Some False
      else do {
        m \<leftarrow> node_at h a;
        n \<leftarrow> node_at h b;
        let k = ntype m AND 0xFF;
        if k \<noteq> ntype n AND 0xFF \<or> k = cJSON_Invalid then Some False
        else if k \<notin> {cJSON_False, cJSON_True, cJSON_NULL, cJSON_Number, cJSON_String, cJSON_Raw,
                      cJSON_Array, cJSON_Object} then Some False
        else if a = b then Some True
        else if k = cJSON_False \<or> k = cJSON_True \<or> k = cJSON_NULL then Some True
        else if k = cJSON_Number then Some (compare_double (nvaluedouble m) (nvaluedouble n))
        else if k = cJSON_String \<or> k = cJSON_Raw
        then (if nvaluestring m = Null \<or> nvaluestring n = Null then Some False
              else do {
                s \<leftarrow> chars_at h (nvaluestring m);
                t \<leftarrow> chars_at h (nvaluestring n);
                Some (strcmp s t = 0) })
        else if k = cJSON_Array
        then compare_elements (\<lambda>x y. compare_items fuel h x y case_sensitive) h (nchild m) (nchild n)
        else do {
          same \<leftarrow> compare_members (\<lambda>x y. compare_items fuel h x y case_sensitive) h case_sensitive b (nchild m);
          if \<not> same then Some False
          else compare_members (\<lambda>x y. compare_items fuel h x y case_sensitive) h case_sensitive a (nchild n) } })"

definition cJSON_Compare :: "heap \<Rightarrow> ptr \<Rightarrow> ptr \<Rightarrow> bool \<Rightarrow> bool option" where
  "cJSON_Compare h a b case_sensitive = compare_items (depth_fuel h) h a b case_sensitive"

end
