(* ===== verification/Paths.thy ===== *)
theory Paths
  imports Create
begin

text \<open>
  JSON pointers (RFC 6901) as \<open>json/cJSON_Utils.c\<close> handles them: comparing a name with a path
  token, escaping, decoding an array index, following a path and finding the path of an item.  A C
  string that is only read is given by its characters (no NUL), a null pointer by \<open>None\<close>.
\<close>

section \<open>Strings\<close>

definition cJSONUtils_strdup :: "heap \<Rightarrow> text_ptr \<Rightarrow> (text_ptr \<times> heap) option" where
  "cJSONUtils_strdup h t = do { s \<leftarrow> chars_at h t; Some (new_text h (s @ [NUL])) }"

definition compare_strings :: "string option \<Rightarrow> string option \<Rightarrow> bool \<Rightarrow> int" where
  "compare_strings string1 string2 case_sensitive =
     (case (string1, string2) of
        (Some s, Some t) \<Rightarrow> if case_sensitive then strcmp s t else compare_by tolower s t
      | _ \<Rightarrow> 1)"

text \<open>The loop of \<open>compare_pointers\<close> and the test after it.\<close>

fun compare_token :: "bool \<Rightarrow> string \<Rightarrow> string \<Rightarrow> bool" where
  "compare_token case_sensitive [] pointer = (pointer = [] \<or> hd pointer = CHR ''/'')"
| "compare_token case_sensitive (n # name) [] = False"
| "compare_token case_sensitive (n # name) (p # pointer) =
     (if p = CHR ''/'' then False
      else if p = CHR ''~'' then
        (if (take 1 pointer \<noteq> ''0'' \<or> n \<noteq> CHR ''~'') \<and> (take 1 pointer \<noteq> ''1'' \<or> n \<noteq> CHR ''/'') then False
         else compare_token case_sensitive name (tl pointer))
      else if (\<not> case_sensitive \<and> tolower n \<noteq> tolower p) \<or> (case_sensitive \<and> n \<noteq> p) then False
      else compare_token case_sensitive name pointer)"

definition compare_pointers :: "string option \<Rightarrow> string option \<Rightarrow> bool \<Rightarrow> bool" where
  "compare_pointers name pointer case_sensitive =
     (case (name, pointer) of (Some n, Some p) \<Rightarrow> compare_token case_sensitive n p | _ \<Rightarrow> False)"

fun pointer_encoded_length :: "string \<Rightarrow> nat" where
  "pointer_encoded_length [] = 0"
| "pointer_encoded_length (c # cs) = (if c = CHR ''~'' \<or> c = CHR ''/'' then 2 else 1) + pointer_encoded_length cs"

text \<open>A pointer moved forward.\<close>

definition advance :: "text_ptr \<Rightarrow> nat \<Rightarrow> text_ptr" where
  "advance t k = (case t of Block a i \<Rightarrow> Block a (i + k) | Const s \<Rightarrow> Const (drop k s) | Null \<Rightarrow> Null)"

fun encode_string_as_pointer :: "heap \<Rightarrow> text_ptr \<Rightarrow> string \<Rightarrow> heap option" where
  "encode_string_as_pointer h destination [] = write_text h destination [NUL]"
| "encode_string_as_pointer h destination (c # source) =
     (if c = CHR ''/'' then do {
        h \<leftarrow> write_text h destination ''~'';
        h \<leftarrow> write_text h (advance destination 1) ''1'';
        encode_string_as_pointer h (advance destination 2) source }
      else if c = CHR ''~'' then do {
        h \<leftarrow> write_text h destination ''~'';
        h \<leftarrow> write_text h (advance destination 1) ''0'';
        encode_string_as_pointer h (advance destination 2) source }
      else do {
        h \<leftarrow> write_text h destination [c];
        encode_string_as_pointer h (advance destination 1) source })"

section \<open>The index of an array element\<close>

type_synonym size_t = "64 word"

fun index_digits :: "bool \<Rightarrow> string \<Rightarrow> size_t \<Rightarrow> size_t \<times> string" where
  "index_digits enter [] parsed_index = (parsed_index, [])"
| "index_digits enter (c # cs) parsed_index =
     (if 48 \<le> ord c \<and> enter then index_digits enter cs (10 * parsed_index + word_of_nat (ord c - 48))
      else (parsed_index, c # cs))"

text \<open>The loop goes on while the character is at least \<open>0\<close> and the first one at most \<open>9\<close>.\<close>

definition decode_array_index_from_pointer :: "string \<Rightarrow> nat option" where
  "decode_array_index_from_pointer pointer =
     (if take 1 pointer = ''0'' \<and> tl pointer \<noteq> [] \<and> hd (tl pointer) \<noteq> CHR ''/'' then None
      else (case index_digits (pointer = [] \<or> ord (hd pointer) \<le> 57) pointer 0 of
        (parsed_index, rest) \<Rightarrow>
          if rest \<noteq> [] \<and> hd rest \<noteq> CHR ''/'' then None else Some (unat parsed_index)))"

section \<open>Following a path\<close>

text \<open>\<open>get_array_item\<close> of \<open>cJSON_Utils.c\<close>.\<close>

definition get_array_item_utils :: "heap \<Rightarrow> ptr \<Rightarrow> nat \<Rightarrow> ptr option" where
  "get_array_item_utils h array item = do {
     child \<leftarrow> (case array of None \<Rightarrow> Some None | Some a \<Rightarrow> map_option nchild (nodes h a));
     chain_nth h child item }"

partial_function (option) chain_match :: "heap \<Rightarrow> bool \<Rightarrow> string \<Rightarrow> ptr \<Rightarrow> ptr option" where
  [code]: "chain_match h case_sensitive pointer current_element = (case current_element of
     None \<Rightarrow> Some None
   | Some a \<Rightarrow> do {
       n \<leftarrow> nodes h a;
       key \<leftarrow> text_at h (nstring n);
       if compare_pointers key (Some pointer) case_sensitive then Some current_element
       else chain_match h case_sensitive pointer (nnext n) })"

text \<open>One step of the path: the child that the token at the front of \<open>pointer\<close> names.\<close>

definition path_step :: "heap \<Rightarrow> bool \<Rightarrow> string \<Rightarrow> ptr \<Rightarrow> ptr option" where
  "path_step h case_sensitive pointer current_element = do {
     n \<leftarrow> node_at h current_element;
     if ntype n AND 0xFF = cJSON_Array then
       (case decode_array_index_from_pointer pointer of
          None \<Rightarrow> Some None
        | Some index \<Rightarrow> get_array_item_utils h current_element index)
     else if ntype n AND 0xFF = cJSON_Object then chain_match h case_sensitive pointer (nchild n)
     else Some None }"

function follow_path :: "heap \<Rightarrow> bool \<Rightarrow> ptr \<Rightarrow> string \<Rightarrow> ptr option" where
  "follow_path h case_sensitive current_element [] = Some current_element"
| "follow_path h case_sensitive current_element (c # pointer) =
     (if c = CHR ''/'' \<and> current_element \<noteq> None then do {
        child \<leftarrow> path_step h case_sensitive pointer current_element;
        follow_path h case_sensitive child (dropWhile (\<lambda>c. c \<noteq> CHR ''/'') pointer) }
      else Some current_element)"
  by pat_completeness auto
termination
  by (relation "measure (\<lambda>(_, _, _, p). length p)") (simp_all add: le_imp_less_Suc length_dropWhile_le)

definition get_item_from_pointer :: "heap \<Rightarrow> ptr \<Rightarrow> string option \<Rightarrow> bool \<Rightarrow> ptr option" where
  "get_item_from_pointer h object pointer case_sensitive =
     (case pointer of None \<Rightarrow> Some None | Some p \<Rightarrow> follow_path h case_sensitive object p)"

definition cJSONUtils_GetPointer :: "heap \<Rightarrow> ptr \<Rightarrow> string option \<Rightarrow> ptr option" where
  "cJSONUtils_GetPointer h object pointer = get_item_from_pointer h object pointer False"

definition cJSONUtils_GetPointerCaseSensitive :: "heap \<Rightarrow> ptr \<Rightarrow> string option \<Rightarrow> ptr option" where
  "cJSONUtils_GetPointerCaseSensitive h object pointer = get_item_from_pointer h object pointer True"

section \<open>The path of an item\<close>

abbreviation ULONG_MAX :: nat where "ULONG_MAX \<equiv> 4294967295"

text \<open>The path through child number \<open>child_index\<close>, when the target was found below it.  The
  blocks are not tested for null.\<close>

definition extend_path :: "heap \<Rightarrow> node \<Rightarrow> node \<Rightarrow> nat \<Rightarrow> text_ptr \<Rightarrow> (text_ptr \<times> heap) option" where
  "extend_path h object child child_index target_pointer = do {
     target \<leftarrow> chars_at h target_pointer;
     if ntype object AND 0xFF = cJSON_Array then do {
       let (full_pointer, h) = malloc_text h (length target + 20 + 2);
       if ULONG_MAX < child_index then do {
         h \<leftarrow> free_text h target_pointer;
         h \<leftarrow> free_text h full_pointer;
         Some (Null, h) }
       else do {
         h \<leftarrow> write_text h full_pointer (''/'' @ show_nat child_index @ target @ [NUL]);
         h \<leftarrow> free_text h target_pointer;
         Some (full_pointer, h) } }
     else if ntype object AND 0xFF = cJSON_Object then do {
       name \<leftarrow> chars_at h (nstring child);
       let (full_pointer, h) = malloc_text h (length target + pointer_encoded_length name + 2);
       h \<leftarrow> write_text h full_pointer ''/'';
       h \<leftarrow> encode_string_as_pointer h (advance full_pointer 1) name;
       front \<leftarrow> chars_at h full_pointer;
       h \<leftarrow> write_text h (advance full_pointer (length front)) (target @ [NUL]);
       h \<leftarrow> free_text h target_pointer;
       Some (full_pointer, h) }
     else do { h \<leftarrow> free_text h target_pointer; Some (Null, h) } }"

partial_function (option) find_in_children ::
    "(heap \<Rightarrow> ptr \<Rightarrow> (text_ptr \<times> heap) option) \<Rightarrow> node \<Rightarrow> ptr \<Rightarrow> nat \<Rightarrow> heap \<Rightarrow> (text_ptr \<times> heap) option" where
  [code]: "find_in_children search object current_child child_index h = (case current_child of
     None \<Rightarrow> Some (Null, h)
   | Some c \<Rightarrow> do {
       (target_pointer, h) \<leftarrow> search h current_child;
       child \<leftarrow> nodes h c;
       if target_pointer \<noteq> Null then extend_path h object child child_index target_pointer
       else find_in_children search object (nnext child) (child_index + 1) h })"

fun find_pointer :: "nat \<Rightarrow> ptr \<Rightarrow> heap \<Rightarrow> ptr \<Rightarrow> (text_ptr \<times> heap) option" where
  "find_pointer 0 target h object = None"
| "find_pointer (Suc fuel) target h object =
     (if object = None \<or> target = None then Some (Null, h)
      else if object = target then cJSONUtils_strdup h (Const [])
      else do {
        n \<leftarrow> node_at h object;
        find_in_children (find_pointer fuel target) n (nchild n) 0 h })"

definition cJSONUtils_FindPointerFromObjectTo :: "heap \<Rightarrow> ptr \<Rightarrow> ptr \<Rightarrow> (text_ptr \<times> heap) option" where
  "cJSONUtils_FindPointerFromObjectTo h object target = find_pointer (depth_fuel h) target h object"

section \<open>Decoding in place\<close>

text \<open>\<open>string\<close> is read at \<open>i\<close>, \<open>decoded_string\<close> is the index \<open>d\<close>; only an escaped
  tilde or slash is written.\<close>

partial_function (option) decode_loop :: "string \<Rightarrow> nat \<Rightarrow> nat \<Rightarrow> string option" where
  [code]: "decode_loop s d i = do {
     c \<leftarrow> peek s i;
     if c = NUL then poke s d NUL
     else if c = CHR ''~'' then do {
       e \<leftarrow> peek s (i + 1);
       if e = CHR ''0'' then do { s \<leftarrow> poke s d (CHR ''~''); decode_loop s (d + 1) (i + 2) }
       else if e = CHR ''1'' then do { s \<leftarrow> poke s (d + 1) (CHR ''/''); decode_loop s (d + 1) (i + 2) }
       else Some s }
     else decode_loop s (d + 1) (i + 1) }"

definition decode_pointer_inplace :: "heap \<Rightarrow> text_ptr \<Rightarrow> heap option" where
  "decode_pointer_inplace h t = (case t of
     Null \<Rightarrow> Some h
   | Const _ \<Rightarrow> None
   | Block a i \<Rightarrow> do { s \<leftarrow> texts h a; s \<leftarrow> decode_loop s i i; Some (h\<lparr>texts := (texts h)(a \<mapsto> s)\<rparr>) })"

end
