(* ===== verification/Patch.thy ===== *)
theory Patch
  imports Paths
begin

text \<open>
  \<open>json/cJSON_Utils.c\<close> on the heap: sorting the members of an object, the destructive comparison,
  and the application of a JSON patch (RFC 6902).  Functions that recurse over the tree take fuel, as
  in \<open>Create\<close>.
\<close>

section \<open>Detaching by path\<close>

text \<open>The same assignments as \<open>cJSON_DetachItemViaPointer\<close> on the element that was found.\<close>

definition detach_item_from_array :: "heap \<Rightarrow> ptr \<Rightarrow> nat \<Rightarrow> (ptr \<times> heap) option" where
  "detach_item_from_array h array which = do {
     n \<leftarrow> node_at h array;
     c \<leftarrow> chain_nth h (nchild n) which;
     if c = None then Some (None, h) else cJSON_DetachItemViaPointer h array c }"

text \<open>Index of the last slash: \<open>strrchr\<close>.\<close>

definition last_slash :: "string \<Rightarrow> nat option" where
  "last_slash s = (if CHR ''/'' \<in> set s
     then Some (length s - 1 - length (takeWhile (\<lambda>c. c \<noteq> CHR ''/'') (rev s))) else None)"

text \<open>The copy of a path is cut at its last slash; the result is the pointer behind it, or null.\<close>

definition split_pointer :: "heap \<Rightarrow> text_ptr \<Rightarrow> (text_ptr \<times> heap) option" where
  "split_pointer h parent_pointer = do {
     s \<leftarrow> chars_at h parent_pointer;
     (case last_slash s of
        None \<Rightarrow> Some (Null, h)
      | Some k \<Rightarrow> do {
          h \<leftarrow> write_text h (advance parent_pointer k) [NUL];
          Some (advance parent_pointer (k + 1), h) }) }"

definition detach_path :: "heap \<Rightarrow> ptr \<Rightarrow> text_ptr \<Rightarrow> bool \<Rightarrow> (ptr \<times> heap) option" where
  "detach_path h object path case_sensitive = do {
     (parent_pointer, h) \<leftarrow> cJSONUtils_strdup h path;
     if parent_pointer = Null then Some (None, h)
     else do {
       (child_pointer, h) \<leftarrow> split_pointer h parent_pointer;
       (detached_item, h) \<leftarrow>
         (if child_pointer = Null then Some (None, h)
          else do {
            p \<leftarrow> text_at h parent_pointer;
            parent \<leftarrow> get_item_from_pointer h object p case_sensitive;
            h \<leftarrow> decode_pointer_inplace h child_pointer;
            is_array \<leftarrow> is_kind_at cJSON_Array h parent;
            is_object \<leftarrow> is_kind_at cJSON_Object h parent;
            if is_array then do {
              s \<leftarrow> chars_at h child_pointer;
              (case decode_array_index_from_pointer s of
                 None \<Rightarrow> Some (None, h)
               | Some index \<Rightarrow> detach_item_from_array h parent index) }
            else if is_object then cJSON_DetachItemFromObject h parent child_pointer
            else Some (None, h) });
       h \<leftarrow> free_text h parent_pointer;
       Some (detached_item, h) } }"

section \<open>Sorting\<close>

text \<open>The test for a sorted list.\<close>

partial_function (option) sorted_chain :: "heap \<Rightarrow> bool \<Rightarrow> ptr \<Rightarrow> bool option" where
  [code]: "sorted_chain h case_sensitive current_item = (case current_item of
     None \<Rightarrow> Some True
   | Some a \<Rightarrow> do {
       n \<leftarrow> nodes h a;
       (case nnext n of
          None \<Rightarrow> Some True
        | Some b \<Rightarrow> do {
            m \<leftarrow> nodes h b;
            s \<leftarrow> text_at h (nstring n);
            t \<leftarrow> text_at h (nstring m);
            if compare_strings s t case_sensitive < 0 then sorted_chain h case_sensitive (nnext n)
            else Some False }) })"

text \<open>Two pointers walk along the list, the second twice as fast.\<close>

partial_function (option) middle :: "heap \<Rightarrow> ptr \<Rightarrow> ptr \<Rightarrow> ptr option" where
  [code]: "middle h second current_item = (case current_item of
     None \<Rightarrow> Some second
   | Some a \<Rightarrow> do {
       s \<leftarrow> node_at h second;
       n \<leftarrow> nodes h a;
       (case nnext n of
          None \<Rightarrow> Some (nnext s)
        | Some b \<Rightarrow> do { m \<leftarrow> nodes h b; middle h (nnext s) (nnext m) }) })"

text \<open>The merge loop: what is left of both lists, the first and the last merged item.\<close>

partial_function (option) merge_loop ::
    "bool \<Rightarrow> ptr \<Rightarrow> ptr \<Rightarrow> ptr \<Rightarrow> ptr \<Rightarrow> heap \<Rightarrow> (ptr \<times> ptr \<times> ptr \<times> ptr \<times> heap) option" where
  [code]: "merge_loop case_sensitive first second result result_tail h =
     (if first = None \<or> second = None then Some (first, second, result, result_tail, h)
      else do {
        m \<leftarrow> node_at h first;
        n \<leftarrow> node_at h second;
        s \<leftarrow> text_at h (nstring m);
        t \<leftarrow> text_at h (nstring n);
        let smaller = (if compare_strings s t case_sensitive < 0 then first else second);
        h \<leftarrow> (if result = None then Some h else suffix_object h result_tail smaller);
        let result = (if result = None then smaller else result);
        if first = smaller
        then do { m \<leftarrow> node_at h first; merge_loop case_sensitive (nnext m) second result smaller h }
        else do { n \<leftarrow> node_at h second; merge_loop case_sensitive first (nnext n) result smaller h } })"

definition merge_lists :: "bool \<Rightarrow> ptr \<Rightarrow> ptr \<Rightarrow> heap \<Rightarrow> (ptr \<times> heap) option" where
  "merge_lists case_sensitive first second h = do {
     (first, second, result, result_tail, h) \<leftarrow> merge_loop case_sensitive first second None None h;
     if first \<noteq> None \<and> result = None then Some (first, h)
     else do {
       h \<leftarrow> (if first \<noteq> None then suffix_object h result_tail first else Some h);
       if second \<noteq> None \<and> result = None then Some (second, h)
       else do {
         h \<leftarrow> (if second \<noteq> None then suffix_object h result_tail second else Some h);
         Some (result, h) } } }"

fun sort_list :: "nat \<Rightarrow> heap \<Rightarrow> ptr \<Rightarrow> bool \<Rightarrow> (ptr \<times> heap) option" where
  "sort_list 0 h list case_sensitive = None"
| "sort_list (Suc fuel) h list case_sensitive = (case list of
     None \<Rightarrow> Some (list, h)
   | Some a \<Rightarrow> do {
       l \<leftarrow> nodes h a;
       if nnext l = None then Some (list, h)
       else do {
         is_sorted \<leftarrow> sorted_chain h case_sensitive list;
         if is_sorted then Some (list, h)
         else do {
           second \<leftarrow> middle h list list;
           h \<leftarrow> (case second of
              None \<Rightarrow> Some h
            | Some b \<Rightarrow> do {
                s \<leftarrow> nodes h b;
                if nprev s \<noteq> None then do { h \<leftarrow> set_next h (nprev s) None; set_prev h second None }
                else Some h });
           (first, h) \<leftarrow> sort_list fuel h list case_sensitive;
           (second, h) \<leftarrow> sort_list fuel h second case_sensitive;
           merge_lists case_sensitive first second h } } })"

definition sort_object :: "heap \<Rightarrow> ptr \<Rightarrow> bool \<Rightarrow> heap option" where
  "sort_object h object case_sensitive =
     (if object = None then Some h
      else do {
        n \<leftarrow> node_at h object;
        (list, h) \<leftarrow> sort_list (depth_fuel h) h (nchild n) case_sensitive;
        set_child h object list })"

definition cJSONUtils_SortObject :: "heap \<Rightarrow> ptr \<Rightarrow> heap option" where
  "cJSONUtils_SortObject h object = sort_object h object False"

definition cJSONUtils_SortObjectCaseSensitive :: "heap \<Rightarrow> ptr \<Rightarrow> heap option" where
  "cJSONUtils_SortObjectCaseSensitive h object = sort_object h object True"

section \<open>Comparing\<close>

text \<open>The loop over two chains, with (for objects) or without a comparison of the names.\<close>

partial_function (option) compare_chains ::
    "(heap \<Rightarrow> ptr \<Rightarrow> ptr \<Rightarrow> (bool \<times> heap) option) \<Rightarrow> bool \<Rightarrow> bool \<Rightarrow> heap \<Rightarrow> ptr \<Rightarrow> ptr \<Rightarrow> (bool \<times> heap) option" where
  [code]: "compare_chains cmp names case_sensitive h a b =
     (if a = None \<or> b = None then Some (a = None \<and> b = None, h)
      else do {
        m \<leftarrow> node_at h a;
        n \<leftarrow> node_at h b;
        same_name \<leftarrow> (if names then do {
            s \<leftarrow> text_at h (nstring m);
            t \<leftarrow> text_at h (nstring n);
            Some (compare_strings s t case_sensitive = 0) }
          else Some True);
        if \<not> same_name then Some (False, h)
        else do {
          (identical, h) \<leftarrow> cmp h a b;
          if \<not> identical then Some (False, h)
          else do {
            m \<leftarrow> node_at h a;
            n \<leftarrow> node_at h b;
            compare_chains cmp names case_sensitive h (nnext m) (nnext n) } } })"

fun compare_json_fuel :: "nat \<Rightarrow> bool \<Rightarrow> heap \<Rightarrow> ptr \<Rightarrow> ptr \<Rightarrow> (bool \<times> heap) option" where
  "compare_json_fuel 0 case_sensitive h a b = None"
| "compare_json_fuel (Suc fuel) case_sensitive h a b =
     (if a = None \<or> b = None then Some (False, h)
      else do {
        m \<leftarrow> node_at h a;
        n \<leftarrow> node_at h b;
        let k = ntype m AND 0xFF;
        if k \<noteq> ntype n AND 0xFF then Some (False, h)
        else if k = cJSON_Number then
          Some (nvalueint m = nvalueint n \<and> compare_double (nvaluedouble m) (nvaluedouble n), h)
        else if k = cJSON_String then do {
          s \<leftarrow> chars_at h (nvaluestring m);
          t \<leftarrow> chars_at h (nvaluestring n);
          Some (strcmp s t = 0, h) }
        else if k = cJSON_Array then
          compare_chains (compare_json_fuel fuel case_sensitive) False case_sensitive h (nchild m) (nchild n)
        else if k = cJSON_Object then do {
          h \<leftarrow> sort_object h a case_sensitive;
          h \<leftarrow> sort_object h b case_sensitive;
          m \<leftarrow> node_at h a;
          n \<leftarrow> node_at h b;
          compare_chains (compare_json_fuel fuel case_sensitive) True case_sensitive h (nchild m) (nchild n) }
        else Some (True, h) })"

definition compare_json :: "heap \<Rightarrow> ptr \<Rightarrow> ptr \<Rightarrow> bool \<Rightarrow> (bool \<times> heap) option" where
  "compare_json h a b case_sensitive = compare_json_fuel (depth_fuel h) case_sensitive h a b"

section \<open>Applying a patch\<close>

partial_function (option) chain_skip :: "heap \<Rightarrow> ptr \<Rightarrow> nat \<Rightarrow> (ptr \<times> nat) option" where
  [code]: "chain_skip h child which = (case child of
     None \<Rightarrow> Some (None, which)
   | Some a \<Rightarrow> if 0 < which then do { n \<leftarrow> nodes h a; chain_skip h (nnext n) (which - 1) }
               else Some (child, which))"

definition insert_item_in_array :: "heap \<Rightarrow> ptr \<Rightarrow> nat \<Rightarrow> ptr \<Rightarrow> (bool \<times> heap) option" where
  "insert_item_in_array h array which newitem = do {
     n \<leftarrow> node_at h array;
     (child, which) \<leftarrow> chain_skip h (nchild n) which;
     if 0 < which then Some (False, h)
     else if child = None then do { (_, h) \<leftarrow> cJSON_AddItemToArray h array newitem; Some (True, h) }
     else do { h \<leftarrow> link_before h array child newitem; Some (True, h) } }"

text \<open>\<open>get_object_item\<close> of \<open>cJSON_Utils.c\<close>, with a constant as the name.\<close>

definition member_named :: "heap \<Rightarrow> ptr \<Rightarrow> string \<Rightarrow> bool \<Rightarrow> ptr option" where
  "member_named h object name case_sensitive =
     (if case_sensitive then cJSON_GetObjectItemCaseSensitive h object (Const name)
      else cJSON_GetObjectItem h object (Const name))"

datatype patch_operation = INVALID | ADD | REMOVE | REPLACE | MOVE | COPY | TEST

definition decode_patch_operation :: "heap \<Rightarrow> ptr \<Rightarrow> bool \<Rightarrow> patch_operation option" where
  "decode_patch_operation h patch case_sensitive = do {
     operation \<leftarrow> member_named h patch ''op'' case_sensitive;
     is_string \<leftarrow> is_kind_at cJSON_String h operation;
     if \<not> is_string then Some INVALID
     else do {
       n \<leftarrow> node_at h operation;
       s \<leftarrow> chars_at h (nvaluestring n);
       Some (if strcmp s ''add'' = 0 then ADD
             else if strcmp s ''remove'' = 0 then REMOVE
             else if strcmp s ''replace'' = 0 then REPLACE
             else if strcmp s ''move'' = 0 then MOVE
             else if strcmp s ''copy'' = 0 then COPY
             else if strcmp s ''test'' = 0 then TEST
             else INVALID) } }"

text \<open>The whole node is overwritten, its links too.\<close>

definition overwrite_item :: "heap \<Rightarrow> ptr \<Rightarrow> node \<Rightarrow> heap option" where
  "overwrite_item h item replacement =
     (if item = None then Some h
      else do {
        r \<leftarrow> node_at h item;
        h \<leftarrow> (if nstring r \<noteq> Null then free_text h (nstring r) else Some h);
        h \<leftarrow> (if nvaluestring r \<noteq> Null then free_text h (nvaluestring r) else Some h);
        h \<leftarrow> (if nchild r \<noteq> None then cJSON_Delete_at h (nchild r) else Some h);
        change h item (\<lambda>_. replacement) })"

text \<open>The value of an operation that adds: the copy of a member, or status 7 or 8.\<close>

definition copied_value :: "heap \<Rightarrow> ptr \<Rightarrow> bool \<Rightarrow> (int \<times> ptr \<times> heap) option" where
  "copied_value h patch case_sensitive = do {
     value \<leftarrow> member_named h patch ''value'' case_sensitive;
     if value = None then Some (7, None, h)
     else do {
       (value, h) \<leftarrow> cJSON_Duplicate h value True;
       Some (if value = None then 8 else 0, value, h) } }"

text \<open>Replacing the root: the status.\<close>

definition replace_root :: "heap \<Rightarrow> ptr \<Rightarrow> ptr \<Rightarrow> bool \<Rightarrow> (int \<times> heap) option" where
  "replace_root h object patch case_sensitive = do {
     (status, value, h) \<leftarrow> copied_value h patch case_sensitive;
     if status \<noteq> 0 then Some (status, h)
     else do {
       v \<leftarrow> node_at h value;
       h \<leftarrow> overwrite_item h object v;
       a \<leftarrow> value;
       h \<leftarrow> free_node h a;
       n \<leftarrow> node_at h object;
       h \<leftarrow> (if nstring n \<noteq> Null
            then do { h \<leftarrow> free_text h (nstring n); change h object (\<lambda>n. n\<lparr>nstring := Null\<rparr>) }
            else Some h);
       Some (0, h) } }"

text \<open>The value that move, copy, add or replace put in place, or the status of the failure.\<close>

definition patch_value ::
    "heap \<Rightarrow> ptr \<Rightarrow> ptr \<Rightarrow> patch_operation \<Rightarrow> bool \<Rightarrow> (int \<times> ptr \<times> heap) option" where
  "patch_value h object patch opcode case_sensitive =
     (if opcode = MOVE \<or> opcode = COPY then do {
        source \<leftarrow> member_named h patch ''from'' case_sensitive;
        if source = None then Some (4, None, h)
        else do {
          f \<leftarrow> node_at h source;
          (value, h) \<leftarrow> (if opcode = MOVE then detach_path h object (nvaluestring f) case_sensitive
            else do {
              p \<leftarrow> text_at h (nvaluestring f);
              v \<leftarrow> get_item_from_pointer h object p case_sensitive;
              Some (v, h) });
          if value = None then Some (5, None, h)
          else do {
            (value, h) \<leftarrow> (if opcode = COPY then cJSON_Duplicate h value True else Some (value, h));
            Some (if value = None then 6 else 0, value, h) } } }
      else copied_value h patch case_sensitive)"

text \<open>Putting the value at the path: the status, and the value when it was not put anywhere.\<close>

definition add_at ::
    "heap \<Rightarrow> ptr \<Rightarrow> text_ptr \<Rightarrow> ptr \<Rightarrow> bool \<Rightarrow> (int \<times> ptr \<times> heap) option" where
  "add_at h parent child_pointer value case_sensitive =
     (if parent = None \<or> child_pointer = Null then Some (9, value, h)
      else do {
        is_array \<leftarrow> is_kind_at cJSON_Array h parent;
        is_object \<leftarrow> is_kind_at cJSON_Object h parent;
        if is_array then do {
          s \<leftarrow> chars_at h child_pointer;
          if strcmp s ''-'' = 0
          then do { (_, h) \<leftarrow> cJSON_AddItemToArray h parent value; Some (0, None, h) }
          else (case decode_array_index_from_pointer s of
              None \<Rightarrow> Some (11, value, h)
            | Some index \<Rightarrow> do {
                (inserted, h) \<leftarrow> insert_item_in_array h parent index value;
                Some (if inserted then (0, None, h) else (10, value, h)) }) }
        else if is_object then do {
          h \<leftarrow> (if case_sensitive then cJSON_DeleteItemFromObjectCaseSensitive h parent child_pointer
               else cJSON_DeleteItemFromObject h parent child_pointer);
          (_, h) \<leftarrow> cJSON_AddItemToObject h parent child_pointer value;
          Some (0, None, h) }
        else Some (9, value, h) })"

text \<open>The part from the split of the path to the label \<open>cleanup\<close>.\<close>

definition patch_add :: "heap \<Rightarrow> ptr \<Rightarrow> text_ptr \<Rightarrow> ptr \<Rightarrow> bool \<Rightarrow> (int \<times> heap) option" where
  "patch_add h object path value case_sensitive = do {
     (parent_pointer, h) \<leftarrow> cJSONUtils_strdup h path;
     (child_pointer, h) \<leftarrow> split_pointer h parent_pointer;
     p \<leftarrow> text_at h parent_pointer;
     parent \<leftarrow> get_item_from_pointer h object p case_sensitive;
     h \<leftarrow> decode_pointer_inplace h child_pointer;
     (status, value, h) \<leftarrow> add_at h parent child_pointer value case_sensitive;
     h \<leftarrow> (if value \<noteq> None then cJSON_Delete_at h value else Some h);
     h \<leftarrow> free_text h parent_pointer;
     Some (status, h) }"

definition apply_patch :: "heap \<Rightarrow> ptr \<Rightarrow> ptr \<Rightarrow> bool \<Rightarrow> (int \<times> heap) option" where
  "apply_patch h object patch case_sensitive = do {
     path \<leftarrow> member_named h patch ''path'' case_sensitive;
     is_string \<leftarrow> is_kind_at cJSON_String h path;
     if \<not> is_string then Some (2, h)
     else do {
       n \<leftarrow> node_at h path;
       opcode \<leftarrow> decode_patch_operation h patch case_sensitive;
       if opcode = INVALID then Some (3, h)
       else if opcode = TEST then do {
         p \<leftarrow> text_at h (nvaluestring n);
         item \<leftarrow> get_item_from_pointer h object p case_sensitive;
         value \<leftarrow> member_named h patch ''value'' case_sensitive;
         (same, h) \<leftarrow> compare_json h item value case_sensitive;
         Some (if same then 0 else 1, h) }
       else do {
         p \<leftarrow> chars_at h (nvaluestring n);
         if p = [] \<and> opcode = REMOVE then do { h \<leftarrow> overwrite_item h object zero_node; Some (0, h) }
         else if p = [] \<and> (opcode = REPLACE \<or> opcode = ADD) then replace_root h object patch case_sensitive
         else do {
           (status, h) \<leftarrow> (if opcode = REMOVE \<or> opcode = REPLACE then do {
               (old_item, h) \<leftarrow> detach_path h object (nvaluestring n) case_sensitive;
               if old_item = None then Some (13, h)
               else do { h \<leftarrow> cJSON_Delete_at h old_item; Some (0, h) } }
             else Some (0, h));
           if status \<noteq> 0 \<or> opcode = REMOVE then Some (status, h)
           else do {
             (status, value, h) \<leftarrow> patch_value h object patch opcode case_sensitive;
             if status \<noteq> 0 then Some (status, h)
             else do {
               n \<leftarrow> node_at h path;
               patch_add h object (nvaluestring n) value case_sensitive } } } } } }"

text \<open>The loop over the patches.\<close>

partial_function (option) apply_chain :: "bool \<Rightarrow> ptr \<Rightarrow> ptr \<Rightarrow> heap \<Rightarrow> (int \<times> heap) option" where
  [code]: "apply_chain case_sensitive object current_patch h = (case current_patch of
     None \<Rightarrow> Some (0, h)
   | Some a \<Rightarrow> do {
       (status, h) \<leftarrow> apply_patch h object current_patch case_sensitive;
       if status \<noteq> 0 then Some (status, h)
       else do { n \<leftarrow> nodes h a; apply_chain case_sensitive object (nnext n) h } })"

definition cJSONUtils_ApplyPatches :: "heap \<Rightarrow> ptr \<Rightarrow> ptr \<Rightarrow> (int \<times> heap) option" where
  "cJSONUtils_ApplyPatches h object patches = do {
     is_array \<leftarrow> is_kind_at cJSON_Array h patches;
     if \<not> is_array then Some (1, h)
     else do { n \<leftarrow> node_at h patches; apply_chain False object (nchild n) h } }"

definition cJSONUtils_ApplyPatchesCaseSensitive :: "heap \<Rightarrow> ptr \<Rightarrow> ptr \<Rightarrow> (int \<times> heap) option" where
  "cJSONUtils_ApplyPatchesCaseSensitive h object patches = do {
     is_array \<leftarrow> is_kind_at cJSON_Array h patches;
     if \<not> is_array then Some (1, h)
     else do { n \<leftarrow> node_at h patches; apply_chain True object (nchild n) h } }"

end
