(* ===== verification/Merge.thy ===== *)
theory Merge
  imports Patch
begin

text \<open>
  \<open>json/cJSON_Utils.c\<close>, second half: composing patches, the patch between two items, and merge
  patches (RFC 7386) with their generation.
\<close>

section \<open>Composing a patch\<close>

definition compose_patch :: "heap \<Rightarrow> ptr \<Rightarrow> text_ptr \<Rightarrow> text_ptr \<Rightarrow> text_ptr \<Rightarrow> ptr \<Rightarrow> heap option" where
  "compose_patch h patches operation path ending value =
     (if patches = None \<or> operation = Null \<or> path = Null then Some h
      else do {
        (patch, h) \<leftarrow> cJSON_CreateObject h;
        if patch = None then Some h
        else do {
          (op, h) \<leftarrow> cJSON_CreateString operation h;
          (_, h) \<leftarrow> cJSON_AddItemToObject h patch (Const ''op'') op;
          h \<leftarrow> (if ending = Null then do {
                (p, h) \<leftarrow> cJSON_CreateString path h;
                (_, h) \<leftarrow> cJSON_AddItemToObject h patch (Const ''path'') p;
                Some h }
              else do {
                s \<leftarrow> chars_at h ending;
                pt \<leftarrow> chars_at h path;
                let (full_path, h) = malloc_text h (length pt + pointer_encoded_length s + 2);
                h \<leftarrow> write_text h full_path (pt @ ''/'' @ [NUL]);
                h \<leftarrow> encode_string_as_pointer h (advance full_path (length pt + 1)) s;
                (p, h) \<leftarrow> cJSON_CreateString full_path h;
                (_, h) \<leftarrow> cJSON_AddItemToObject h patch (Const ''path'') p;
                free_text h full_path });
          h \<leftarrow> (if value \<noteq> None then do {
                (v, h) \<leftarrow> cJSON_Duplicate h value True;
                (_, h) \<leftarrow> cJSON_AddItemToObject h patch (Const ''value'') v;
                Some h }
              else Some h);
          (_, h) \<leftarrow> cJSON_AddItemToArray h patches patch;
          Some h } })"

definition cJSONUtils_AddPatchToArray :: "heap \<Rightarrow> ptr \<Rightarrow> text_ptr \<Rightarrow> text_ptr \<Rightarrow> ptr \<Rightarrow> heap option" where
  "cJSONUtils_AddPatchToArray h array operation path value = compose_patch h array operation path Null value"

section \<open>The patch between two items\<close>

text \<open>The first loop over two arrays: whether it ran to its end, what is left of both, the index.\<close>

partial_function (option) patch_common ::
    "(heap \<Rightarrow> text_ptr \<Rightarrow> ptr \<Rightarrow> ptr \<Rightarrow> heap option) \<Rightarrow> text_ptr \<Rightarrow> text_ptr \<Rightarrow> nat \<Rightarrow> ptr \<Rightarrow> ptr \<Rightarrow> heap \<Rightarrow>
     (bool \<times> ptr \<times> ptr \<times> nat \<times> heap) option" where
  [code]: "patch_common create path new_path index from_child to_child h =
     (if from_child = None \<or> to_child = None then Some (True, from_child, to_child, index, h)
      else if ULONG_MAX < index then Some (False, from_child, to_child, index, h)
      else do {
        p \<leftarrow> chars_at h path;
        h \<leftarrow> write_text h new_path (p @ ''/'' @ show_nat index @ [NUL]);
        h \<leftarrow> create h new_path from_child to_child;
        m \<leftarrow> node_at h from_child;
        n \<leftarrow> node_at h to_child;
        patch_common create path new_path (index + 1) (nnext m) (nnext n) h })"

text \<open>The two loops over what is left.\<close>

partial_function (option) patch_removed ::
    "ptr \<Rightarrow> text_ptr \<Rightarrow> text_ptr \<Rightarrow> nat \<Rightarrow> ptr \<Rightarrow> heap \<Rightarrow> (bool \<times> heap) option" where
  [code]: "patch_removed patches path new_path index from_child h =
     (if from_child = None then Some (True, h)
      else if ULONG_MAX < index then Some (False, h)
      else do {
        h \<leftarrow> write_text h new_path (show_nat index @ [NUL]);
        h \<leftarrow> compose_patch h patches (Const ''remove'') path new_path None;
        m \<leftarrow> node_at h from_child;
        patch_removed patches path new_path index (nnext m) h })"

partial_function (option) patch_added :: "ptr \<Rightarrow> text_ptr \<Rightarrow> ptr \<Rightarrow> heap \<Rightarrow> heap option" where
  [code]: "patch_added patches path to_child h =
     (if to_child = None then Some h
      else do {
        h \<leftarrow> compose_patch h patches (Const ''add'') path (Const ''-'') to_child;
        n \<leftarrow> node_at h to_child;
        patch_added patches path (nnext n) h })"

definition patch_arrays ::
    "(heap \<Rightarrow> text_ptr \<Rightarrow> ptr \<Rightarrow> ptr \<Rightarrow> heap option) \<Rightarrow> heap \<Rightarrow> ptr \<Rightarrow> text_ptr \<Rightarrow> ptr \<Rightarrow> ptr \<Rightarrow> heap option" where
  "patch_arrays create h patches path from_child to_child = do {
     p \<leftarrow> chars_at h path;
     let (new_path, h) = malloc_text h (length p + 20 + 2);
     (all, from_child, to_child, index, h) \<leftarrow> patch_common create path new_path 0 from_child to_child h;
     if \<not> all then free_text h new_path
     else do {
       (all, h) \<leftarrow> patch_removed patches path new_path index from_child h;
       if \<not> all then free_text h new_path
       else do {
         h \<leftarrow> patch_added patches path to_child h;
         free_text h new_path } } }"

text \<open>The loop over the sorted members of two objects.\<close>

partial_function (option) patch_members ::
    "(heap \<Rightarrow> text_ptr \<Rightarrow> ptr \<Rightarrow> ptr \<Rightarrow> heap option) \<Rightarrow> bool \<Rightarrow> ptr \<Rightarrow> text_ptr \<Rightarrow> ptr \<Rightarrow> ptr \<Rightarrow> heap \<Rightarrow> heap option" where
  [code]: "patch_members create case_sensitive patches path from_child to_child h =
     (if from_child = None \<and> to_child = None then Some h
      else do {
        diff \<leftarrow> (if from_child = None then Some 1
               else if to_child = None then Some (- 1)
               else do {
                 m \<leftarrow> node_at h from_child;
                 n \<leftarrow> node_at h to_child;
                 s \<leftarrow> text_at h (nstring m);
                 t \<leftarrow> text_at h (nstring n);
                 Some (compare_strings s t case_sensitive) });
        if diff = 0 then do {
          m \<leftarrow> node_at h from_child;
          p \<leftarrow> chars_at h path;
          name \<leftarrow> chars_at h (nstring m);
          let (new_path, h) = malloc_text h (length p + pointer_encoded_length name + 2);
          h \<leftarrow> write_text h new_path (p @ ''/'' @ [NUL]);
          h \<leftarrow> encode_string_as_pointer h (advance new_path (length p + 1)) name;
          h \<leftarrow> create h new_path from_child to_child;
          h \<leftarrow> free_text h new_path;
          m \<leftarrow> node_at h from_child;
          n \<leftarrow> node_at h to_child;
          patch_members create case_sensitive patches path (nnext m) (nnext n) h }
        else if diff < 0 then do {
          m \<leftarrow> node_at h from_child;
          h \<leftarrow> compose_patch h patches (Const ''remove'') path (nstring m) None;
          m \<leftarrow> node_at h from_child;
          patch_members create case_sensitive patches path (nnext m) to_child h }
        else do {
          n \<leftarrow> node_at h to_child;
          h \<leftarrow> compose_patch h patches (Const ''add'') path (nstring n) to_child;
          n \<leftarrow> node_at h to_child;
          patch_members create case_sensitive patches path from_child (nnext n) h } })"

fun create_patches :: "nat \<Rightarrow> bool \<Rightarrow> ptr \<Rightarrow> heap \<Rightarrow> text_ptr \<Rightarrow> ptr \<Rightarrow> ptr \<Rightarrow> heap option" where
  "create_patches 0 case_sensitive patches h path source target = None"
| "create_patches (Suc fuel) case_sensitive patches h path source target =
     (if source = None \<or> target = None then Some h
      else do {
        m \<leftarrow> node_at h source;
        n \<leftarrow> node_at h target;
        let k = ntype m AND 0xFF;
        if k \<noteq> ntype n AND 0xFF then compose_patch h patches (Const ''replace'') path Null target
        else if k = cJSON_Number then
          (if nvalueint m \<noteq> nvalueint n \<or> \<not> compare_double (nvaluedouble m) (nvaluedouble n)
           then compose_patch h patches (Const ''replace'') path Null target else Some h)
        else if k = cJSON_String then do {
          s \<leftarrow> chars_at h (nvaluestring m);
          t \<leftarrow> chars_at h (nvaluestring n);
          if strcmp s t \<noteq> 0 then compose_patch h patches (Const ''replace'') path Null target else Some h }
        else if k = cJSON_Array then
          patch_arrays (create_patches fuel case_sensitive patches) h patches path (nchild m) (nchild n)
        else if k = cJSON_Object then do {
          h \<leftarrow> sort_object h source case_sensitive;
          h \<leftarrow> sort_object h target case_sensitive;
          m \<leftarrow> node_at h source;
          n \<leftarrow> node_at h target;
          patch_members (create_patches fuel case_sensitive patches) case_sensitive patches path
            (nchild m) (nchild n) h }
        else Some h })"

definition generate_patches :: "heap \<Rightarrow> ptr \<Rightarrow> ptr \<Rightarrow> bool \<Rightarrow> (ptr \<times> heap) option" where
  "generate_patches h source target case_sensitive =
     (if source = None \<or> target = None then Some (None, h)
      else do {
        (patches, h) \<leftarrow> cJSON_CreateArray h;
        h \<leftarrow> create_patches (depth_fuel h) case_sensitive patches h (Const []) source target;
        Some (patches, h) })"

definition cJSONUtils_GeneratePatches :: "heap \<Rightarrow> ptr \<Rightarrow> ptr \<Rightarrow> (ptr \<times> heap) option" where
  "cJSONUtils_GeneratePatches h source target = generate_patches h source target False"

definition cJSONUtils_GeneratePatchesCaseSensitive :: "heap \<Rightarrow> ptr \<Rightarrow> ptr \<Rightarrow> (ptr \<times> heap) option" where
  "cJSONUtils_GeneratePatchesCaseSensitive h source target = generate_patches h source target True"

section \<open>Merge patches\<close>

text \<open>The loop over the members of the patch: false when a replacement could not be made.\<close>

partial_function (option) merge_members ::
    "(heap \<Rightarrow> ptr \<Rightarrow> ptr \<Rightarrow> (ptr \<times> heap) option) \<Rightarrow> bool \<Rightarrow> ptr \<Rightarrow> ptr \<Rightarrow> heap \<Rightarrow> (bool \<times> heap) option" where
  [code]: "merge_members merge case_sensitive target patch_child h = (case patch_child of
     None \<Rightarrow> Some (True, h)
   | Some c \<Rightarrow> do {
       n \<leftarrow> nodes h c;
       (ok, h) \<leftarrow> (if ntype n AND 0xFF = cJSON_NULL then do {
           h \<leftarrow> (if case_sensitive then cJSON_DeleteItemFromObjectCaseSensitive h target (nstring n)
                else cJSON_DeleteItemFromObject h target (nstring n));
           Some (True, h) }
         else do {
           (replace_me, h) \<leftarrow> (if case_sensitive
             then cJSON_DetachItemFromObjectCaseSensitive h target (nstring n)
             else cJSON_DetachItemFromObject h target (nstring n));
           (replacement, h) \<leftarrow> merge h replace_me patch_child;
           if replacement = None then Some (False, h)
           else do {
             n \<leftarrow> nodes h c;
             (_, h) \<leftarrow> cJSON_AddItemToObject h target (nstring n) replacement;
             Some (True, h) } });
       if \<not> ok then Some (False, h)
       else do { n \<leftarrow> nodes h c; merge_members merge case_sensitive target (nnext n) h } })"

fun merge_patch_fuel :: "nat \<Rightarrow> bool \<Rightarrow> heap \<Rightarrow> ptr \<Rightarrow> ptr \<Rightarrow> (ptr \<times> heap) option" where
  "merge_patch_fuel 0 case_sensitive h target patch = None"
| "merge_patch_fuel (Suc fuel) case_sensitive h target patch = do {
     patch_is_object \<leftarrow> is_kind_at cJSON_Object h patch;
     if \<not> patch_is_object then do {
       h \<leftarrow> cJSON_Delete_at h target;
       cJSON_Duplicate h patch True }
     else do {
       target_is_object \<leftarrow> is_kind_at cJSON_Object h target;
       (target, h) \<leftarrow> (if \<not> target_is_object then do {
           h \<leftarrow> cJSON_Delete_at h target;
           cJSON_CreateObject h }
         else Some (target, h));
       p \<leftarrow> node_at h patch;
       (ok, h) \<leftarrow> merge_members (merge_patch_fuel fuel case_sensitive) case_sensitive target (nchild p) h;
       Some (if ok then target else None, h) } }"

definition merge_patch :: "heap \<Rightarrow> ptr \<Rightarrow> ptr \<Rightarrow> bool \<Rightarrow> (ptr \<times> heap) option" where
  "merge_patch h target patch case_sensitive = merge_patch_fuel (depth_fuel h) case_sensitive h target patch"

definition cJSONUtils_MergePatch :: "heap \<Rightarrow> ptr \<Rightarrow> ptr \<Rightarrow> (ptr \<times> heap) option" where
  "cJSONUtils_MergePatch h target patch = merge_patch h target patch False"

definition cJSONUtils_MergePatchCaseSensitive :: "heap \<Rightarrow> ptr \<Rightarrow> ptr \<Rightarrow> (ptr \<times> heap) option" where
  "cJSONUtils_MergePatchCaseSensitive h target patch = merge_patch h target patch True"

section \<open>Generating merge patches\<close>

text \<open>The loop over the sorted members; \<open>strcmp\<close> whatever \<open>case_sensitive\<close> is, and the
  recursive call goes through the entry point without case.\<close>

partial_function (option) merge_patch_members ::
    "(heap \<Rightarrow> ptr \<Rightarrow> ptr \<Rightarrow> (ptr \<times> heap) option) \<Rightarrow> bool \<Rightarrow> ptr \<Rightarrow> ptr \<Rightarrow> ptr \<Rightarrow> heap \<Rightarrow> heap option" where
  [code]: "merge_patch_members generate case_sensitive patch from_child to_child h =
     (if from_child = None \<and> to_child = None then Some h
      else do {
        diff \<leftarrow> (if from_child = None then Some 1
               else if to_child = None then Some (- 1)
               else do {
                 m \<leftarrow> node_at h from_child;
                 n \<leftarrow> node_at h to_child;
                 s \<leftarrow> chars_at h (nstring m);
                 t \<leftarrow> chars_at h (nstring n);
                 Some (strcmp s t) });
        if diff < 0 then do {
          m \<leftarrow> node_at h from_child;
          (null, h) \<leftarrow> cJSON_CreateNull h;
          (_, h) \<leftarrow> cJSON_AddItemToObject h patch (nstring m) null;
          m \<leftarrow> node_at h from_child;
          merge_patch_members generate case_sensitive patch (nnext m) to_child h }
        else if 0 < diff then do {
          n \<leftarrow> node_at h to_child;
          (copy, h) \<leftarrow> cJSON_Duplicate h to_child True;
          (_, h) \<leftarrow> cJSON_AddItemToObject h patch (nstring n) copy;
          n \<leftarrow> node_at h to_child;
          merge_patch_members generate case_sensitive patch from_child (nnext n) h }
        else do {
          (same, h) \<leftarrow> compare_json h from_child to_child case_sensitive;
          h \<leftarrow> (if same then Some h
               else do {
                 n \<leftarrow> node_at h to_child;
                 (sub, h) \<leftarrow> generate h from_child to_child;
                 (_, h) \<leftarrow> cJSON_AddItemToObject h patch (nstring n) sub;
                 Some h });
          m \<leftarrow> node_at h from_child;
          n \<leftarrow> node_at h to_child;
          merge_patch_members generate case_sensitive patch (nnext m) (nnext n) h } })"

fun generate_merge_patch_fuel :: "nat \<Rightarrow> bool \<Rightarrow> heap \<Rightarrow> ptr \<Rightarrow> ptr \<Rightarrow> (ptr \<times> heap) option" where
  "generate_merge_patch_fuel 0 case_sensitive h source target = None"
| "generate_merge_patch_fuel (Suc fuel) case_sensitive h source target =
     (if target = None then cJSON_CreateNull h
      else do {
        target_is_object \<leftarrow> is_kind_at cJSON_Object h target;
        source_is_object \<leftarrow> is_kind_at cJSON_Object h source;
        if \<not> target_is_object \<or> \<not> source_is_object then cJSON_Duplicate h target True
        else do {
          h \<leftarrow> sort_object h source case_sensitive;
          h \<leftarrow> sort_object h target case_sensitive;
          m \<leftarrow> node_at h source;
          n \<leftarrow> node_at h target;
          (patch, h) \<leftarrow> cJSON_CreateObject h;
          if patch = None then Some (None, h)
          else do {
            h \<leftarrow> merge_patch_members (generate_merge_patch_fuel fuel False) case_sensitive patch (nchild m) (nchild n) h;
            p \<leftarrow> node_at h patch;
            if nchild p = None then do { h \<leftarrow> cJSON_Delete_at h patch; Some (None, h) }
            else Some (patch, h) } } })"

definition generate_merge_patch :: "heap \<Rightarrow> ptr \<Rightarrow> ptr \<Rightarrow> bool \<Rightarrow> (ptr \<times> heap) option" where
  "generate_merge_patch h source target case_sensitive =
     generate_merge_patch_fuel (depth_fuel h) case_sensitive h source target"

definition cJSONUtils_GenerateMergePatch :: "heap \<Rightarrow> ptr \<Rightarrow> ptr \<Rightarrow> (ptr \<times> heap) option" where
  "cJSONUtils_GenerateMergePatch h source target = generate_merge_patch h source target False"

definition cJSONUtils_GenerateMergePatchCaseSensitive :: "heap \<Rightarrow> ptr \<Rightarrow> ptr \<Rightarrow> (ptr \<times> heap) option" where
  "cJSONUtils_GenerateMergePatchCaseSensitive h source target = generate_merge_patch h source target True"

end
