(* ===== verification/Links.thy ===== *)
theory Links
  imports Create
begin

text \<open>
  Child lists of the heap: which lists of addresses the fields \<open>child\<close>, \<open>next\<close> and \<open>prev\<close>
  represent, what an assignment to one of them does to such a list, and the refinement of the editing
  functions by the operations of lists.
\<close>

section \<open>Chains\<close>

text \<open>The first of \<open>xs\<close>, or else \<open>e\<close>; the last, or else \<open>q\<close>.\<close>

fun front :: "nat list \<Rightarrow> ptr \<Rightarrow> ptr" where
  "front [] e = e"
| "front (b # xs) e = Some b"

fun hind :: "ptr \<Rightarrow> nat list \<Rightarrow> ptr" where
  "hind q [] = q"
| "hind q (b # xs) = hind (Some b) xs"

lemma front_append [simp]: "front (xs @ ys) e = front xs (front ys e)"
  by (cases xs) auto

lemma hind_append [simp]: "hind q (xs @ ys) = hind (hind q xs) ys"
  by (induction xs arbitrary: q) auto

lemma front_eq: "front xs None = (if xs = [] then None else Some (hd xs))"
  by (cases xs) auto

lemma hind_eq: "hind q xs = (if xs = [] then q else Some (last xs))"
  by (induction xs arbitrary: q) auto

lemma hind_in: "hind (Some b) xs = Some a \<Longrightarrow> a \<in> set (b # xs)"
  by (induction xs arbitrary: b) auto

lemma front_Some [simp]: "front xs None = None \<longleftrightarrow> xs = []"
  by (cases xs) auto

text \<open>The nodes reached from \<open>p\<close> through \<open>next\<close>.\<close>

fun chain :: "(nat \<Rightarrow> node option) \<Rightarrow> ptr \<Rightarrow> nat list \<Rightarrow> bool" where
  "chain N p [] \<longleftrightarrow> p = None"
| "chain N p (a # as) \<longleftrightarrow> p = Some a \<and> (\<exists>n. N a = Some n \<and> chain N (nnext n) as)"

text \<open>Doubly linked: \<open>q\<close> is the \<open>prev\<close> of the first node and \<open>e\<close> the \<open>next\<close> of the last.\<close>

fun links :: "(nat \<Rightarrow> node option) \<Rightarrow> ptr \<Rightarrow> nat list \<Rightarrow> ptr \<Rightarrow> bool" where
  "links N q [] e \<longleftrightarrow> True"
| "links N q (a # as) e \<longleftrightarrow>
     (\<exists>n. N a = Some n \<and> nprev n = q \<and> nnext n = front as e \<and> links N (Some a) as e)"

lemma links_append: "links N q (xs @ ys) e \<longleftrightarrow> links N q xs (front ys e) \<and> links N (hind q xs) ys e"
proof (induction xs arbitrary: q)
  case (Cons a xs)
  then show ?case by auto
qed simp

lemma links_cong: "(\<And>a. a \<in> set xs \<Longrightarrow> N' a = N a) \<Longrightarrow> links N' q xs e = links N q xs e"
  by (induction xs arbitrary: q) auto

lemma chain_cong: "(\<And>a. a \<in> set xs \<Longrightarrow> N' a = N a) \<Longrightarrow> chain N' p xs = chain N p xs"
  by (induction xs arbitrary: p) auto

lemma links_other [simp]: "a \<notin> set xs \<Longrightarrow> links (N(a := v)) q xs e = links N q xs e"
  by (rule links_cong) auto

lemma chain_other [simp]: "a \<notin> set xs \<Longrightarrow> chain (N(a := v)) p xs = chain N p xs"
  by (rule chain_cong) auto

lemma links_chain: "links N q xs None \<Longrightarrow> chain N (front xs None) xs"
proof (induction xs arbitrary: q)
  case (Cons a xs)
  then show ?case by (cases xs) auto
qed simp

lemma chain_unique: "chain N p xs \<Longrightarrow> chain N p ys \<Longrightarrow> xs = ys"
proof (induction xs arbitrary: p ys)
  case Nil
  then show ?case by (cases ys) simp_all
next
  case (Cons a xs)
  obtain n where n: "p = Some a" "N a = Some n" "chain N (nnext n) xs" using Cons.prems(1) by auto
  obtain ys' where ys: "ys = a # ys'" "chain N (nnext n) ys'" using Cons.prems(2) n(1,2) by (cases ys) auto
  from Cons.IH [OF n(3) ys(2)] show ?case using ys(1) by simp
qed

lemma links_dom: "links N q xs e \<Longrightarrow> a \<in> set xs \<Longrightarrow> N a \<noteq> None"
  by (induction xs arbitrary: q) auto

lemma links_node: "links N q (xs @ a # ys) e \<Longrightarrow>
  \<exists>n. N a = Some n \<and> nprev n = hind q xs \<and> nnext n = front ys e"
  by (auto simp: links_append)

section \<open>Child lists\<close>

text \<open>\<open>cs\<close> are the children of the node \<open>p\<close>: the first one points back to the last.\<close>

definition kids :: "heap \<Rightarrow> nat \<Rightarrow> nat list \<Rightarrow> bool" where
  "kids h p cs \<longleftrightarrow> distinct (p # cs) \<and> (\<exists>n. nodes h p = Some n \<and> nchild n = front cs None) \<and>
     links (nodes h) (hind None cs) cs None"

text \<open>A node that is in no list.\<close>

definition loose :: "heap \<Rightarrow> nat \<Rightarrow> bool" where
  "loose h x \<longleftrightarrow> (\<exists>n. nodes h x = Some n \<and> nnext n = None)"

text \<open>The parts of a node apart from its links.\<close>

definition content_of :: "node \<Rightarrow> node" where
  "content_of n = n\<lparr>nnext := None, nprev := None\<rparr>"

text \<open>Only the child list of \<open>p\<close> changed, among the nodes \<open>A\<close>.\<close>

definition relinked :: "nat \<Rightarrow> nat set \<Rightarrow> heap \<Rightarrow> heap \<Rightarrow> bool" where
  "relinked p A h h' \<longleftrightarrow> h' = h\<lparr>nodes := nodes h'\<rparr> \<and>
     (\<forall>a. a \<notin> insert p A \<longrightarrow> nodes h' a = nodes h a) \<and>
     (\<forall>a \<in> A. map_option content_of (nodes h' a) = map_option content_of (nodes h a)) \<and>
     map_option (\<lambda>n. n\<lparr>nchild := None\<rparr>) (nodes h' p) = map_option (\<lambda>n. n\<lparr>nchild := None\<rparr>) (nodes h p)"

lemma change_eq: "nodes h a = Some n \<Longrightarrow> change h (Some a) f = Some (h\<lparr>nodes := (nodes h)(a \<mapsto> f n)\<rparr>)"
  by (simp add: change_def)

lemma content_links [simp]:
  "content_of (n\<lparr>nnext := x\<rparr>) = content_of n" "content_of (n\<lparr>nprev := x\<rparr>) = content_of n"
  by (simp_all add: content_of_def)

lemmas set_defs = set_next_def set_prev_def set_child_def node_at_def suffix_object_def

section \<open>Adding\<close>

lemma add_kids:
  assumes k: "kids h p cs" and x: "loose h x" "x \<noteq> p" "x \<notin> set cs"
  shows "\<exists>h'. add_item_to_array h (Some p) (Some x) = Some (True, h') \<and> kids h' p (cs @ [x]) \<and>
    relinked p (insert x (set cs)) h h'"
proof -
  obtain n where n: "nodes h p = Some n" "nchild n = front cs None" using k by (auto simp: kids_def)
  obtain m where m: "nodes h x = Some m" "nnext m = None" using x by (auto simp: loose_def)
  show ?thesis
  proof (cases cs)
    case Nil
    then show ?thesis using n m x k
      by (auto simp: add_item_to_array_def set_defs change_def kids_def relinked_def)
  next
    case (Cons c ds)
    obtain es l where l: "cs = es @ [l]" using Cons by (metis append_butlast_last_id list.distinct(1))
    have d: "distinct cs" "p \<notin> set cs" and lk: "links (nodes h) (Some l) cs None" using k l by (auto simp: kids_def)
    obtain nc where nc: "nodes h c = Some nc" "nprev nc = Some l" using lk Cons by auto
    obtain nl where nl: "nodes h l = Some nl" "nnext nl = None" using links_node [of "nodes h" "Some l" es l "[]" None] lk l by auto
    show ?thesis
    proof (cases "l = c")
      case True
      then have "es = []" "ds = []" using l Cons d by (cases es; auto)+
      then show ?thesis using n m x nc nl True Cons l d k
        by (auto simp: add_item_to_array_def set_defs change_def kids_def relinked_def)
    next
      case False
      then obtain es' where es: "es = c # es'" using l Cons by (cases es) auto
      have lk': "links (nodes h) (Some c) es' (Some l)" "links (nodes h) (hind (Some c) es') [l] None"
        using lk l es by (auto simp: links_append)
      show ?thesis using n m x nc nl False Cons l es d lk' lk
        by (auto simp: add_item_to_array_def set_defs change_def kids_def relinked_def links_append)
    qed
  qed
qed


section \<open>Detaching\<close>

text \<open>How a list of nodes begins and ends, for a case analysis on the neighbours of a place.\<close>

lemma list_ends:
  obtains "xs = []" | u where "xs = [u]" | c us u where "xs = c # us @ [u]"
proof (cases xs rule: rev_cases)
  case (snoc us u)
  then show ?thesis using that by (cases us) auto
qed (use that in auto)

lemmas detach_simps = cJSON_DetachItemViaPointer_def set_defs change_def kids_def relinked_def loose_def links_append

lemma detach_kids:
  assumes k: "kids h p (xs @ a # ys)"
  shows "\<exists>h'. cJSON_DetachItemViaPointer h (Some p) (Some a) = Some (Some a, h') \<and> kids h' p (xs @ ys) \<and>
    relinked p (set (xs @ a # ys)) h h' \<and> loose h' a"
proof (cases xs rule: list_ends)
  case 1
  then show ?thesis using k by (cases ys) (auto simp: detach_simps simp del: bind_Some_iff cong: if_cong)
next
  case (2 u)
  then show ?thesis using k by (cases ys) (auto simp: detach_simps simp del: bind_Some_iff cong: if_cong)
next
  case (3 c us u)
  then show ?thesis using k by (cases ys) (auto simp: detach_simps simp del: bind_Some_iff cong: if_cong)
qed


section \<open>Inserting and replacing\<close>

lemma link_before_kids:
  assumes k: "kids h p (xs @ a # ys)" and x: "nodes h x = Some m" "x \<noteq> p" "x \<notin> set (xs @ a # ys)"
  shows "\<exists>h'. link_before h (Some p) (Some a) (Some x) = Some h' \<and> kids h' p (xs @ x # a # ys) \<and>
    relinked p (insert x (set (xs @ a # ys))) h h'"
proof (cases xs rule: list_ends)
  case 1
  then show ?thesis using k x
    by (cases ys) (auto simp: link_before_def detach_simps simp del: bind_Some_iff cong: if_cong)
next
  case (2 u)
  then show ?thesis using k x
    by (cases ys) (auto simp: link_before_def detach_simps simp del: bind_Some_iff cong: if_cong)
next
  case (3 c us u)
  then show ?thesis using k x
    by (cases ys) (auto simp: link_before_def detach_simps simp del: bind_Some_iff cong: if_cong)
qed

text \<open>The replacement takes the place of \<open>a\<close>, which is then deleted.\<close>

lemma link_instead_kids:
  assumes k: "kids h p (xs @ a # ys)" and x: "nodes h x = Some m" "x \<noteq> p" "x \<notin> set (xs @ a # ys)"
  shows "\<exists>h'. link_instead h (Some p) (Some a) (Some x) = Some h' \<and>
    kids h' p (xs @ x # ys) \<and> relinked p (insert x (set (xs @ a # ys))) h h' \<and> loose h' a"
proof (cases xs rule: list_ends)
  case 1
  have "hind (Some b) zs \<noteq> Some a" if "ys = b # zs" for b zs
    using hind_in [of b zs a] k that by (auto simp: kids_def)
  then show ?thesis using k x 1
    by (cases ys) (auto simp: link_instead_def detach_simps simp del: bind_Some_iff cong: if_cong)
next
  case (2 u)
  then show ?thesis using k x
    by (cases ys) (auto simp: link_instead_def detach_simps simp del: bind_Some_iff cong: if_cong)
next
  case (3 c us u)
  then show ?thesis using k x
    by (cases ys) (auto simp: link_instead_def detach_simps simp del: bind_Some_iff cong: if_cong)
qed


section \<open>Looking up\<close>

lemma chain_length_eq: "chain (nodes h) p cs \<Longrightarrow> chain_length h p k = Some (k + length cs)"
proof (induction cs arbitrary: p k)
  case Nil
  then show ?case by (subst chain_length.simps) simp
next
  case (Cons a cs)
  then show ?case by (subst chain_length.simps) auto
qed

lemma chain_nth_eq: "chain (nodes h) p cs \<Longrightarrow> chain_nth h p k = Some (if k < length cs then Some (cs ! k) else None)"
proof (induction cs arbitrary: p k)
  case Nil
  then show ?case by (subst chain_nth.simps) simp
next
  case (Cons a cs)
  then show ?case by (subst chain_nth.simps) (cases k, auto)
qed

text \<open>The name of a node.\<close>

definition key_of :: "heap \<Rightarrow> nat \<Rightarrow> string option" where
  "key_of h a = (case nodes h a of None \<Rightarrow> None | Some n \<Rightarrow> the (text_at h (nstring n)))"

definition named :: "heap \<Rightarrow> nat \<Rightarrow> bool" where
  "named h a \<longleftrightarrow> (\<exists>n. nodes h a = Some n \<and> text_at h (nstring n) \<noteq> None)"

lemma chain_find_eq:
  "chain (nodes h) p cs \<Longrightarrow> \<forall>a \<in> set cs. named h a \<Longrightarrow>
   chain_find h b name p = Some (find (\<lambda>a. name_stops b name (key_of h a)) cs)"
proof (induction cs arbitrary: p)
  case Nil
  then show ?case by (subst chain_find.simps) simp
next
  case (Cons a cs)
  then show ?case by (subst chain_find.simps) (auto simp: named_def key_of_def)
qed

lemma kids_chain: "kids h p cs \<Longrightarrow> \<exists>n. nodes h p = Some n \<and> chain (nodes h) (nchild n) cs"
  using links_chain by (auto simp: kids_def)

lemma get_array_item_kids:
  "kids h p cs \<Longrightarrow> get_array_item h (Some p) k = Some (if k < length cs then Some (cs ! k) else None)"
  using kids_chain chain_nth_eq by (fastforce simp: get_array_item_def)

lemma text_at_nulfree: "text_at h t = Some (Some s) \<Longrightarrow> nulfree s"
proof (cases t)
  case (Block a i)
  assume "text_at h t = Some (Some s)"
  then obtain u n where u: "texts h a = Some u" "strlen_at u i = Some n" "s = take n (drop i u)"
    using Block by (auto simp: text_at_def)
  then have "n = length (cstring (drop i u))" by (auto simp: strlen_at_def Let_def split: if_splits)
  then have "s = cstring (drop i u)" using u(3) by (simp add: cstring_def takeWhile_eq_take [symmetric])
  then show ?thesis by simp
qed (auto simp: text_at_def)

lemma text_at_Null: "text_at h t = Some None \<longleftrightarrow> t = Null"
  by (cases t) (auto simp: text_at_def)

lemma compare_by_0:
  assumes "\<And>c. f c = NUL \<longleftrightarrow> c = NUL" "nulfree s" "nulfree t"
  shows "compare_by f s t = 0 \<longleftrightarrow> map f s = map f t"
  using assms by (induction f s t rule: compare_by.induct) (auto simp: ord_inj)

text \<open>When two names are the same.\<close>

definition same_name :: "bool \<Rightarrow> string \<Rightarrow> string \<Rightarrow> bool" where
  "same_name case_sensitive s t \<longleftrightarrow> (if case_sensitive then s = t else map tolower s = map tolower t)"

lemma strcmp_0: "nulfree s \<Longrightarrow> nulfree t \<Longrightarrow> strcmp s t = 0 \<longleftrightarrow> s = t"
  using compare_by_0 [of id] by (simp add: strcmp_def)

lemma name_stops_iff:
  assumes "nulfree name" "\<And>s. key = Some s \<Longrightarrow> nulfree s"
  shows "name_stops b name key \<longleftrightarrow> (case key of None \<Rightarrow> b | Some s \<Rightarrow> same_name b name s)"
  using assms compare_by_0 [of tolower name]
  by (cases key) (auto simp: name_stops_def same_name_def case_insensitive_strcmp_def strcmp_0)

text \<open>The child that a name selects: the first of that name; with case, a child without a name ends
  the search.\<close>

definition selected :: "heap \<Rightarrow> bool \<Rightarrow> string \<Rightarrow> nat list \<Rightarrow> nat option" where
  "selected h b name cs = (case find (\<lambda>a. case key_of h a of None \<Rightarrow> b | Some s \<Rightarrow> same_name b name s) cs of
     None \<Rightarrow> None | Some a \<Rightarrow> if key_of h a = None then None else Some a)"

lemma key_nulfree: "named h a \<Longrightarrow> key_of h a = Some s \<Longrightarrow> nulfree s"
  using text_at_nulfree by (auto simp: named_def key_of_def)

lemma get_object_item_chain:
  assumes n0: "nodes h p = Some n0" "chain (nodes h) (nchild n0) cs"
    and n: "\<forall>a \<in> set cs. named h a" and name: "text_at h name = Some (Some s)"
  shows "get_object_item h (Some p) name b = Some (selected h b s cs)"
proof -
  have stop: "name_stops b s (key_of h a) = (case key_of h a of None \<Rightarrow> b | Some t \<Rightarrow> same_name b s t)" if "a \<in> set cs" for a
    by (rule name_stops_iff) (use that n key_nulfree text_at_nulfree [OF name] in auto)
  have f: "chain_find h b s (nchild n0) = Some (find (\<lambda>a. case key_of h a of None \<Rightarrow> b | Some t \<Rightarrow> same_name b s t) cs)"
    unfolding chain_find_eq [OF n0(2) n] using find_cong [OF refl stop] by simp
  have key: "(nstring m = Null) = (key_of h a = None)" if "a \<in> set cs" "nodes h a = Some m" for a m
    using n that text_at_Null [of h "nstring m"] by (auto simp: named_def key_of_def)
  have nn: "name \<noteq> Null" "chars_at h name = Some s" using name by (auto simp: chars_at_def text_at_def)
  show ?thesis
  proof (cases "find (\<lambda>a. case key_of h a of None \<Rightarrow> b | Some t \<Rightarrow> same_name b s t) cs")
    case None
    then show ?thesis using n0 f nn by (simp add: get_object_item_def node_at_def selected_def)
  next
    case (Some a)
    then have "a \<in> set cs" by (auto simp: find_Some_iff)
    then obtain m where "nodes h a = Some m" using n by (auto simp: named_def)
    then show ?thesis using n0 f nn Some key [OF \<open>a \<in> set cs\<close>]
      by (simp add: get_object_item_def node_at_def selected_def)
  qed
qed

lemma get_object_item_kids:
  assumes "kids h p cs" "\<forall>a \<in> set cs. named h a" "text_at h name = Some (Some s)"
  shows "get_object_item h (Some p) name b = Some (selected h b s cs)"
  using get_object_item_chain [OF _ _ assms(2,3)] kids_chain [OF assms(1)] by blast

end
