(* ===== verification/Owned.thy ===== *)
theory Owned
  imports Links
begin

text \<open>
  Trees of nodes with the blocks they own, and \<open>cJSON_Delete\<close>: it frees exactly the nodes and
  blocks of the tree, each once, and leaves the rest of the heap alone.
\<close>

section \<open>Shapes\<close>

text \<open>The addresses of a tree.\<close>

datatype shape = Shape (top: nat) (subs: "shape list")

fun addrs :: "shape \<Rightarrow> nat list" where
  "addrs (Shape a ts) = a # concat (map addrs ts)"

abbreviation all_addrs :: "shape list \<Rightarrow> nat list" where
  "all_addrs ts \<equiv> concat (map addrs ts)"

lemma top_addrs [simp]: "top t \<in> set (addrs t)"
  by (cases t) simp

lemma tops_addrs: "set (map top ts) \<subseteq> set (all_addrs ts)"
  by auto

section \<open>Ownership\<close>

fun block_of :: "text_ptr \<Rightarrow> nat list" where
  "block_of (Block b i) = [b]"
| "block_of _ = []"

fun freeable :: "heap \<Rightarrow> text_ptr \<Rightarrow> bool" where
  "freeable h Null = True"
| "freeable h (Const s) = False"
| "freeable h (Block b i) = (i = 0 \<and> texts h b \<noteq> None)"

text \<open>The strings that a node owns: not those of a reference, nor a constant name.\<close>

definition own_texts :: "node \<Rightarrow> text_ptr list" where
  "own_texts n = (if flag n cJSON_IsReference then [] else [nvaluestring n]) @
     (if flag n cJSON_StringIsConst then [] else [nstring n])"

definition node_blocks :: "node \<Rightarrow> nat list" where
  "node_blocks n = concat (map block_of (own_texts n))"

fun owns :: "heap \<Rightarrow> shape \<Rightarrow> bool" where
  "owns h (Shape a ts) \<longleftrightarrow> (\<exists>n. nodes h a = Some n \<and>
     (if flag n cJSON_IsReference then ts = [] else chain (nodes h) (nchild n) (map top ts)) \<and>
     (\<forall>t \<in> set (own_texts n). freeable h t)) \<and> (\<forall>t \<in> set ts. owns h t)"

fun blocks_at :: "heap \<Rightarrow> shape \<Rightarrow> nat list" where
  "blocks_at h (Shape a ts) =
     (case nodes h a of None \<Rightarrow> [] | Some n \<Rightarrow> node_blocks n) @ concat (map (blocks_at h) ts)"

abbreviation all_blocks :: "heap \<Rightarrow> shape list \<Rightarrow> nat list" where
  "all_blocks h ts \<equiv> concat (map (blocks_at h) ts)"

text \<open>A list of trees that share nothing.\<close>

definition forest :: "heap \<Rightarrow> shape list \<Rightarrow> bool" where
  "forest h ts \<longleftrightarrow> (\<forall>t \<in> set ts. owns h t) \<and> distinct (all_addrs ts) \<and> distinct (all_blocks h ts)"

definition agree :: "heap \<Rightarrow> heap \<Rightarrow> nat set \<Rightarrow> nat set \<Rightarrow> bool" where
  "agree h h' A B \<longleftrightarrow> (\<forall>a \<in> A. nodes h' a = nodes h a) \<and> (\<forall>b \<in> B. texts h' b = texts h b)"

lemma freeable_agree: "agree h h' A B \<Longrightarrow> set (block_of t) \<subseteq> B \<Longrightarrow> freeable h' t = freeable h t"
  by (cases t) (auto simp: agree_def)

lemma blocks_agree: "agree h h' (set (addrs t)) B \<Longrightarrow> blocks_at h' t = blocks_at h t"
proof (induction t)
  case (Shape a ts)
  have "agree h h' (set (addrs t)) B" if "t \<in> set ts" for t using Shape.prems that by (auto simp: agree_def)
  then have "all_blocks h' ts = all_blocks h ts" using Shape.IH by (intro arg_cong [where f = concat] map_cong) auto
  moreover have "nodes h' a = nodes h a" using Shape.prems by (simp add: agree_def)
  ultimately show ?case by simp
qed

lemma owns_agree:
  "agree h h' (set (addrs t)) (set (blocks_at h t)) \<Longrightarrow> owns h t \<Longrightarrow> owns h' t"
proof (induction t)
  case (Shape a ts)
  from Shape.prems(2) obtain n where n: "nodes h a = Some n"
    "if flag n cJSON_IsReference then ts = [] else chain (nodes h) (nchild n) (map top ts)"
    "\<forall>t \<in> set (own_texts n). freeable h t" "\<forall>t \<in> set ts. owns h t" by auto
  note ag = Shape.prems(1)
  have n': "nodes h' a = Some n" using ag n(1) by (simp add: agree_def)
  have sub: "agree h h' (set (addrs t)) (set (blocks_at h t))" if "t \<in> set ts" for t
    using ag that by (auto simp: agree_def)
  have "chain (nodes h') (nchild n) (map top ts) = chain (nodes h) (nchild n) (map top ts)"
    by (rule chain_cong) (use ag in \<open>auto simp: agree_def\<close>)
  moreover have "freeable h' t" if "t \<in> set (own_texts n)" for t
  proof -
    have "set (block_of t) \<subseteq> set (blocks_at h (Shape a ts))" using n(1) that by (auto simp: node_blocks_def)
    then show ?thesis using freeable_agree [OF ag] n(3) that by blast
  qed
  ultimately show ?case using n n' Shape.IH sub by auto
qed

section \<open>Erasing\<close>

text \<open>The heap without the nodes \<open>A\<close> and the blocks \<open>B\<close>, freed one by one.\<close>

definition erase :: "heap \<Rightarrow> nat list \<Rightarrow> nat list \<Rightarrow> heap" where
  "erase h A B = h\<lparr>nodes := nodes h |` (- set A), texts := texts h |` (- set B),
     hmem := deallocate (int (length A + length B)) (hmem h)\<rparr>"

lemma restrict_all [simp]: "f |` UNIV = f"
  by (rule ext) simp

lemma erase_Nil [simp]: "erase h [] [] = h"
  by (simp add: erase_def deallocate_def)

lemma erase_erase: "erase (erase h A B) A' B' = erase h (A @ A') (B @ B')"
  by (simp add: erase_def deallocate_def Compl_Un algebra_simps Int_commute)

lemma erase_cong:
  "set A = set A' \<Longrightarrow> set B = set B' \<Longrightarrow> length A + length B = length A' + length B' \<Longrightarrow> erase h A B = erase h A' B'"
  by (simp add: erase_def)

lemma erase_agree: "set A \<inter> A' = {} \<Longrightarrow> set B \<inter> B' = {} \<Longrightarrow> agree h (erase h A B) A' B'"
  by (auto simp: agree_def erase_def restrict_map_def)

lemma free_node_erase: "nodes h a \<noteq> None \<Longrightarrow> free_node h a = Some (erase h [a] [])"
  by (auto simp: free_node_def erase_def restrict_map_def fun_eq_iff)

lemma free_text_erase: "freeable h t \<Longrightarrow> free_text h t = Some (erase h [] (block_of t))"
  by (cases t) (auto simp: free_text_def erase_def restrict_map_def fun_eq_iff deallocate_def)

lemma forest_erase:
  assumes "forest h (us @ ts)"
  shows "forest (erase h (all_addrs us) (all_blocks h us)) ts \<and>
    all_blocks (erase h (all_addrs us) (all_blocks h us)) ts = all_blocks h ts"
proof -
  have ag: "agree h (erase h (all_addrs us) (all_blocks h us)) (set (addrs t)) (set (blocks_at h t))" if "t \<in> set ts" for t
    by (rule erase_agree) (use assms that in \<open>auto simp: forest_def\<close>)
  have "all_blocks (erase h (all_addrs us) (all_blocks h us)) ts = all_blocks h ts"
    using blocks_agree [OF ag] by (intro arg_cong [where f = concat] map_cong) auto
  then show ?thesis using assms owns_agree [OF ag] by (auto simp: forest_def)
qed


section \<open>Deleting\<close>

lemma delete_forest:
  "forest h ts \<Longrightarrow> chain (nodes h) p (map top ts) \<Longrightarrow>
   cJSON_Delete_at h p = Some (erase h (all_addrs ts) (all_blocks h ts))"
proof (induction "length (all_addrs ts)" arbitrary: h p ts rule: less_induct)
  case less
  show ?case
  proof (cases ts)
    case Nil
    then show ?thesis using less.prems by (subst cJSON_Delete_at.simps) simp
  next
    case (Cons t ts')
    obtain a us where t: "t = Shape a us" by (cases t)
    have own: "owns h (Shape a us)" using less.prems(1) Cons t by (simp add: forest_def)
    obtain n where n: "nodes h a = Some n" "\<forall>t \<in> set us. owns h t" "\<forall>t \<in> set (own_texts n). freeable h t"
      "if flag n cJSON_IsReference then us = [] else chain (nodes h) (nchild n) (map top us)"
      using own by auto
    have p: "p = Some a" "chain (nodes h) (nnext n) (map top ts')" using less.prems(2) Cons t n(1) by auto
    have bl: "all_blocks h ts = node_blocks n @ all_blocks h us @ all_blocks h ts'" using Cons t n(1) by simp
    have ad: "all_addrs ts = a # all_addrs us @ all_addrs ts'" using Cons t by simp
    have dA: "distinct (a # all_addrs us @ all_addrs ts')" using less.prems(1) ad by (simp add: forest_def)
    have dB: "distinct (node_blocks n @ all_blocks h us @ all_blocks h ts')" using less.prems(1) bl by (simp add: forest_def)
    have fu: "forest h us" using n(2) dA dB by (simp add: forest_def)
    define h1 where "h1 = erase h (all_addrs us) (all_blocks h us)"
    have del: "(if \<not> flag n cJSON_IsReference \<and> nchild n \<noteq> None then cJSON_Delete_at h (nchild n) else Some h) = Some h1"
    proof (cases "\<not> flag n cJSON_IsReference \<and> nchild n \<noteq> None")
      case True
      have "length (all_addrs us) < length (all_addrs ts)" using ad by simp
      then show ?thesis using less.hyps [OF _ fu] n(4) True by (simp add: h1_def)
    next
      case False
      then have "us = []" using n(4) by (cases us) (auto split: if_splits)
      then show ?thesis using False by (auto simp: h1_def)
    qed
    have n1: "nodes h1 a = Some n" using n(1) dA by (simp add: h1_def erase_def)
    define h2 where "h2 = erase h1 [] (if flag n cJSON_IsReference then [] else block_of (nvaluestring n))"
    have f1: "freeable h1 t" if "t \<in> set (own_texts n)" for t
    proof -
      have "agree h h1 {} (set (block_of t))" unfolding h1_def
        by (rule erase_agree) (use dB that in \<open>auto simp: node_blocks_def\<close>)
      then show ?thesis using freeable_agree n(3) that by blast
    qed
    have v: "(if \<not> flag n cJSON_IsReference \<and> nvaluestring n \<noteq> Null then free_text h1 (nvaluestring n) else Some h1) = Some h2"
      using f1 free_text_erase [of h1 "nvaluestring n"] by (auto simp: own_texts_def h2_def)
    define h3 where "h3 = erase h2 [] (if flag n cJSON_StringIsConst then [] else block_of (nstring n))"
    have f2: "freeable h2 (nstring n)" if "\<not> flag n cJSON_StringIsConst"
    proof -
      have "agree h1 h2 {} (set (block_of (nstring n)))" unfolding h2_def
        by (rule erase_agree) (use dB that in \<open>auto simp: node_blocks_def own_texts_def split: if_splits\<close>)
      moreover have "freeable h1 (nstring n)" using f1 that by (simp add: own_texts_def)
      ultimately show ?thesis using freeable_agree by blast
    qed
    have s: "(if \<not> flag n cJSON_StringIsConst \<and> nstring n \<noteq> Null then free_text h2 (nstring n) else Some h2) = Some h3"
      using f2 free_text_erase [of h2 "nstring n"] by (auto simp: h3_def)
    have h3: "h3 = erase h (all_addrs us) (all_blocks h us @ node_blocks n)"
      by (simp add: h3_def h2_def h1_def erase_erase node_blocks_def own_texts_def)
    define h4 where "h4 = erase h3 [a] []"
    have fr: "free_node h3 a = Some h4" unfolding h4_def
      by (rule free_node_erase) (use n(1) dA in \<open>simp add: h3 erase_def\<close>)
    have h4: "h4 = erase h (all_addrs [t]) (all_blocks h [t])"
      unfolding h4_def h3 erase_erase using n(1) by (intro erase_cong) (auto simp: t)
    have rest: "forest h4 ts'" "all_blocks h4 ts' = all_blocks h ts'"
      using forest_erase [of h "[t]" ts'] less.prems(1) Cons by (simp_all add: h4)
    have ch: "chain (nodes h4) (nnext n) (map top ts')"
    proof -
      have "chain (nodes h4) (nnext n) (map top ts') = chain (nodes h) (nnext n) (map top ts')"
      proof (rule chain_cong)
        fix x assume "x \<in> set (map top ts')"
        then have "x \<in> set (all_addrs ts')" using tops_addrs by blast
        then have "x \<notin> set (all_addrs [t])" using dA t by auto
        then show "nodes h4 x = nodes h x" by (simp add: h4 erase_def restrict_map_def)
      qed
      then show ?thesis using p(2) by simp
    qed
    have "length (all_addrs ts') < length (all_addrs ts)" using ad by simp
    from less.hyps [OF this rest(1) ch] have "cJSON_Delete_at h4 (nnext n) = Some (erase h4 (all_addrs ts') (all_blocks h ts'))"
      using rest(2) by simp
    also have "erase h4 (all_addrs ts') (all_blocks h ts') = erase h (all_addrs ts) (all_blocks h ts)"
      unfolding h4 erase_erase Cons by simp
    finally show ?thesis using n(1) n1 p(1) del v s fr by (subst cJSON_Delete_at.simps) simp
  qed
qed

end
