(* ===== verification/Copy.thy ===== *)
theory Copy
  imports Owned
begin

text \<open>
  The value that a tree of nodes stands for, and \<open>cJSON_Duplicate\<close>: the copy stands for the same
  value (without reference flags), is made of new nodes and blocks only, is properly linked, and
  nothing is left behind when memory runs out.
\<close>

section \<open>Values\<close>

text \<open>Reading goes through the children of a reference too, so \<open>views\<close> is not \<open>owns\<close>.\<close>

fun views :: "heap \<Rightarrow> shape \<Rightarrow> bool" where
  "views h (Shape a ts) \<longleftrightarrow> (\<exists>n. nodes h a = Some n \<and> chain (nodes h) (nchild n) (map top ts) \<and>
     text_at h (nvaluestring n) \<noteq> None \<and> text_at h (nstring n) \<noteq> None) \<and> (\<forall>t \<in> set ts. views h t)"

fun value_at :: "heap \<Rightarrow> shape \<Rightarrow> cJSON" where
  "value_at h (Shape a ts) = (case nodes h a of
     None \<Rightarrow> zero_item
   | Some n \<Rightarrow> Item (ntype n) (the (text_at h (nvaluestring n))) (nvalueint n) (nvaluedouble n)
       (the (text_at h (nstring n))) (map (value_at h) ts))"

fun linked :: "heap \<Rightarrow> shape \<Rightarrow> bool" where
  "linked h (Shape a ts) \<longleftrightarrow> kids h a (map top ts) \<and> (\<forall>t \<in> set ts. linked h t)"

fun depth_of :: "shape \<Rightarrow> nat" where
  "depth_of (Shape a ts) = Suc (foldr max (map depth_of ts) 0)"

lemma depth_of_sub: "t \<in> set ts \<Longrightarrow> depth_of t < depth_of (Shape a ts)"
  by (induction ts) (auto simp: less_Suc_eq_le le_max_iff_disj)

section \<open>Frames\<close>

text \<open>The nodes \<open>A\<close> and all strings are as before.\<close>

definition kept :: "heap \<Rightarrow> heap \<Rightarrow> nat set \<Rightarrow> bool" where
  "kept h h' A \<longleftrightarrow> (\<forall>a \<in> A. nodes h' a = nodes h a) \<and> (\<forall>b. texts h b \<noteq> None \<longrightarrow> texts h' b = texts h b)"

lemma kept_mono: "kept h h' A \<Longrightarrow> B \<subseteq> A \<Longrightarrow> kept h h' B"
  by (auto simp: kept_def)

lemma kept_refl: "kept h h A"
  by (simp add: kept_def)

lemma kept_trans: "kept h h1 {} \<Longrightarrow> kept h1 h2 {} \<Longrightarrow> kept h h2 {}"
  by (simp add: kept_def)

lemma kept_text: "kept h h' A \<Longrightarrow> text_at h t \<noteq> None \<Longrightarrow> text_at h' t = text_at h t"
proof (cases t)
  case (Block b i)
  assume "kept h h' A" "text_at h t \<noteq> None"
  then have "texts h' b = texts h b" using Block by (auto simp: kept_def text_at_def bind_eq_None_conv simp del: not_None_eq)
  then show ?thesis using Block by (simp add: text_at_def)
qed (simp_all add: text_at_def)

lemma kept_freeable: "kept h h' A \<Longrightarrow> freeable h t \<Longrightarrow> freeable h' t"
  by (cases t) (auto simp: kept_def)

text \<open>A tree whose root may have been relinked.\<close>

definition kept_tree :: "heap \<Rightarrow> heap \<Rightarrow> shape \<Rightarrow> bool" where
  "kept_tree h h' t \<longleftrightarrow> map_option content_of (nodes h' (top t)) = map_option content_of (nodes h (top t)) \<and>
     kept h h' (set (all_addrs (subs t)))"

lemma kept_tree_all: "kept h h' (set (addrs t)) \<Longrightarrow> kept_tree h h' t"
  by (cases t) (auto simp: kept_tree_def kept_def)

lemma content_of_eq:
  assumes "map_option content_of (nodes h' a) = map_option content_of (nodes h a)" "nodes h a = Some n"
  shows "\<exists>n'. nodes h' a = Some n' \<and> nchild n' = nchild n \<and> ntype n' = ntype n \<and> nvaluestring n' = nvaluestring n \<and>
    nvalueint n' = nvalueint n \<and> nvaluedouble n' = nvaluedouble n \<and> nstring n' = nstring n"
  using assms by (auto simp: content_of_def elim!: node.cases dest!: arg_cong [of _ _ "\<lambda>n. (nchild n, ntype n, nvaluestring n, nvalueint n, nvaluedouble n, nstring n)"])


lemma own_texts_eq:
  "ntype n' = ntype n \<Longrightarrow> nvaluestring n' = nvaluestring n \<Longrightarrow> nstring n' = nstring n \<Longrightarrow>
   own_texts n' = own_texts n \<and> node_blocks n' = node_blocks n \<and> flag n' f = flag n f"
  by (simp add: own_texts_def node_blocks_def flag_def)

lemma kept_sub: "kept_tree h h' (Shape a ts) \<Longrightarrow> t \<in> set ts \<Longrightarrow> kept_tree h h' t"
  by (rule kept_tree_all) (auto simp: kept_tree_def kept_def)

lemma chain_kept:
  assumes "kept h h' (set (all_addrs ts))"
  shows "chain (nodes h') p (map top ts) = chain (nodes h) p (map top ts)"
  by (rule chain_cong) (use assms tops_addrs in \<open>auto simp: kept_def\<close>)

lemma kept_owns:
  "kept_tree h h' t \<Longrightarrow> owns h t \<Longrightarrow> owns h' t \<and> blocks_at h' t = blocks_at h t"
proof (induction t)
  case (Shape a ts)
  from Shape.prems(2) obtain n where n: "nodes h a = Some n"
    "if flag n cJSON_IsReference then ts = [] else chain (nodes h) (nchild n) (map top ts)"
    "\<forall>t \<in> set (own_texts n). freeable h t" "\<forall>t \<in> set ts. owns h t" by auto
  have k: "kept h h' (set (all_addrs ts))" "map_option content_of (nodes h' a) = map_option content_of (nodes h a)"
    using Shape.prems(1) by (simp_all add: kept_tree_def)
  obtain n' where n': "nodes h' a = Some n'" "nchild n' = nchild n" "ntype n' = ntype n"
    "nvaluestring n' = nvaluestring n" "nstring n' = nstring n" using content_of_eq [OF k(2) n(1)] by blast
  have sub: "owns h' t \<and> blocks_at h' t = blocks_at h t" if "t \<in> set ts" for t
    using Shape.IH [OF that kept_sub [OF Shape.prems(1) that]] n(4) that by blast
  have "all_blocks h' ts = all_blocks h ts" using sub by (intro arg_cong [where f = concat] map_cong) auto
  then show ?case using n n' sub own_texts_eq [OF n'(3,4,5)] kept_freeable [OF k(1)] chain_kept [OF k(1)] by auto
qed

lemma kept_views:
  "kept_tree h h' t \<Longrightarrow> views h t \<Longrightarrow> views h' t \<and> value_at h' t = value_at h t"
proof (induction t)
  case (Shape a ts)
  from Shape.prems(2) obtain n where n: "nodes h a = Some n" "chain (nodes h) (nchild n) (map top ts)"
    "text_at h (nvaluestring n) \<noteq> None" "text_at h (nstring n) \<noteq> None" "\<forall>t \<in> set ts. views h t" by auto
  have k: "kept h h' (set (all_addrs ts))" "map_option content_of (nodes h' a) = map_option content_of (nodes h a)"
    using Shape.prems(1) by (simp_all add: kept_tree_def)
  obtain n' where n': "nodes h' a = Some n'" "nchild n' = nchild n" "ntype n' = ntype n"
    "nvaluestring n' = nvaluestring n" "nvalueint n' = nvalueint n" "nvaluedouble n' = nvaluedouble n" "nstring n' = nstring n"
    using content_of_eq [OF k(2) n(1)] by blast
  have sub: "views h' t \<and> value_at h' t = value_at h t" if "t \<in> set ts" for t
    using Shape.IH [OF that kept_sub [OF Shape.prems(1) that]] n(5) that by blast
  show ?case using n n' sub kept_text [OF k(1) n(3)] kept_text [OF k(1) n(4)] chain_kept [OF k(1)] by auto
qed

lemma kept_linked: "kept_tree h h' t \<Longrightarrow> linked h t \<Longrightarrow> linked h' t"
proof (induction t)
  case (Shape a ts)
  have k: "kept h h' (set (all_addrs ts))" "map_option content_of (nodes h' a) = map_option content_of (nodes h a)"
    using Shape.prems(1) by (simp_all add: kept_tree_def)
  have kd: "kids h a (map top ts)" using Shape.prems(2) by simp
  obtain n where n: "nodes h a = Some n" using kd by (auto simp: kids_def)
  have "links (nodes h') q (map top ts) e = links (nodes h) q (map top ts) e" for q e
    by (rule links_cong) (use k(1) tops_addrs in \<open>auto simp: kept_def\<close>)
  then have "kids h' a (map top ts)" using kd content_of_eq [OF k(2) n] n by (auto simp: kids_def)
  moreover have "linked h' t" if "t \<in> set ts" for t
    using Shape.IH [OF that kept_sub [OF Shape.prems(1) that]] Shape.prems(2) that by simp
  ultimately show ?case by simp
qed

section \<open>New memory\<close>

text \<open>Nothing at or above the next address; and what has been added since \<open>h\<close>.\<close>

definition bounded :: "heap \<Rightarrow> bool" where
  "bounded h \<longleftrightarrow> (\<forall>a \<ge> brk h. nodes h a = None \<and> texts h a = None)"

definition grew :: "heap \<Rightarrow> heap \<Rightarrow> nat list \<Rightarrow> nat list \<Rightarrow> bool" where
  "grew h h' A B \<longleftrightarrow> brk h \<le> brk h' \<and> same_hooks (hmem h) (hmem h') \<and>
     (\<forall>a < brk h. nodes h' a = nodes h a \<and> texts h' a = texts h a) \<and>
     (\<forall>a \<ge> brk h. (nodes h' a \<noteq> None \<longleftrightarrow> a \<in> set A) \<and> (texts h' a \<noteq> None \<longleftrightarrow> a \<in> set B)) \<and>
     set A \<union> set B \<subseteq> {brk h..<brk h'} \<and> live (hmem h') = live (hmem h) + int (length A + length B)"

lemma grew_refl: "bounded h \<Longrightarrow> grew h h [] []"
  by (simp add: grew_def bounded_def)

lemma grew_bounded:
  assumes "grew h h' A B" shows "bounded h'"
  unfolding bounded_def
proof (intro allI impI)
  fix a assume a: "brk h' \<le> a"
  then have "brk h \<le> a" "a \<notin> set A" "a \<notin> set B" using assms by (auto simp: grew_def subset_iff)
  then show "nodes h' a = None \<and> texts h' a = None" using assms by (auto simp: grew_def)
qed

lemma grew_new: "grew h h' A B \<Longrightarrow> brk h \<le> a \<Longrightarrow> (nodes h' a = None) = (a \<notin> set A) \<and> (texts h' a = None) = (a \<notin> set B)"
  unfolding grew_def by blast

lemma grew_old: "grew h h' A B \<Longrightarrow> a < brk h \<Longrightarrow> nodes h' a = nodes h a \<and> texts h' a = texts h a"
  by (simp add: grew_def)

lemma grew_range: "grew h h' A B \<Longrightarrow> a \<in> set A \<union> set B \<Longrightarrow> brk h \<le> a \<and> a < brk h'"
  unfolding grew_def by (meson atLeastLessThan_iff subsetD)

lemma grew_brk: "grew h h' A B \<Longrightarrow> brk h \<le> brk h'"
  by (simp add: grew_def)

lemma grew_mem: "grew h h' A B \<Longrightarrow> same_hooks (hmem h) (hmem h') \<and> live (hmem h') = live (hmem h) + int (length A + length B)"
  unfolding grew_def by blast

lemma grew_trans:
  assumes g: "grew h h1 A B" "grew h1 h2 A' B'" and s: "set A'' = set A \<union> set A'" "set B'' = set B \<union> set B'"
    "length A'' + length B'' = length A + length B + (length A' + length B')"
  shows "grew h h2 A'' B''"
proof -
  have new: "(nodes h2 a = None) = (a \<notin> set A'') \<and> (texts h2 a = None) = (a \<notin> set B'')" if a: "brk h \<le> a" for a
  proof (cases "a < brk h1")
    case True
    then have "a \<notin> set A'" "a \<notin> set B'" using grew_range [OF g(2), of a] by auto
    then show ?thesis using grew_new [OF g(1) a] grew_old [OF g(2) True] s(1,2) by simp
  next
    case False
    then have "a \<notin> set A" "a \<notin> set B" using grew_range [OF g(1), of a] by auto
    then show ?thesis using grew_new [OF g(2), of a] s(1,2) False by simp
  qed
  have old: "nodes h2 a = nodes h a \<and> texts h2 a = texts h a" if "a < brk h" for a
    using grew_old [OF g(1) that] grew_old [OF g(2), of a] that grew_brk [OF g(1)] by simp
  have r: "set A'' \<union> set B'' \<subseteq> {brk h..<brk h2}"
  proof
    fix a assume "a \<in> set A'' \<union> set B''"
    then have "a \<in> set A \<union> set B \<or> a \<in> set A' \<union> set B'" using s(1,2) by auto
    then show "a \<in> {brk h..<brk h2}"
      using grew_range [OF g(1), of a] grew_range [OF g(2), of a] grew_brk [OF g(1)] grew_brk [OF g(2)] by auto
  qed
  have hk: "same_hooks (hmem h) (hmem h2)"
    using grew_mem [OF g(1)] grew_mem [OF g(2)] by (simp add: same_hooks_def)
  have l: "live (hmem h2) = live (hmem h) + int (length A'' + length B'')"
  proof -
    have "live (hmem h1) = live (hmem h) + int (length A + length B)" using grew_mem [OF g(1)] by (rule conjunct2)
    moreover have "live (hmem h2) = live (hmem h1) + int (length A' + length B')" using grew_mem [OF g(2)] by (rule conjunct2)
    ultimately show ?thesis using s(3) by linarith
  qed
  have o: "\<forall>a < brk h. nodes h2 a = nodes h a \<and> texts h2 a = texts h a" using old by blast
  have n: "\<forall>a \<ge> brk h. (nodes h2 a \<noteq> None \<longleftrightarrow> a \<in> set A'') \<and> (texts h2 a \<noteq> None \<longleftrightarrow> a \<in> set B'')"
  proof (intro allI impI)
    fix a assume "brk h \<le> a"
    from new [OF this] show "(nodes h2 a \<noteq> None \<longleftrightarrow> a \<in> set A'') \<and> (texts h2 a \<noteq> None \<longleftrightarrow> a \<in> set B'')"
      by (simp only: not_not)
  qed
  have "brk h \<le> brk h2" using grew_brk [OF g(1)] grew_brk [OF g(2)] by (rule order_trans)
  from this hk o n r l show ?thesis unfolding grew_def by (rule conjI [OF _ conjI [OF _ conjI [OF _ conjI [OF _ conjI]]]])
qed

lemma bounded_lt:
  assumes "bounded h"
  shows "nodes h a \<noteq> None \<Longrightarrow> a < brk h" "texts h a \<noteq> None \<Longrightarrow> a < brk h"
  using assms unfolding bounded_def by (meson linorder_not_less)+

lemma grew_kept: "grew h h' A B \<Longrightarrow> bounded h \<Longrightarrow> kept h h' {a. nodes h a \<noteq> None}"
  unfolding kept_def by (auto simp: grew_old bounded_lt simp del: not_None_eq)

lemma grew_erase:
  assumes g: "grew h h1 A B" and b: "bounded h"
  shows "grew h (erase h1 A B) [] []"
  using assms by (auto simp: grew_def erase_def deallocate_def same_hooks_def restrict_map_def bounded_def subset_iff)

lemma grew_change:
  assumes "grew h h1 A B" "a \<in> set A" "nodes h1 a = Some n"
  shows "grew h (h1\<lparr>nodes := (nodes h1)(a \<mapsto> n')\<rparr>) A B"
  using assms by (auto simp: grew_def subset_iff)

lemma new_node_cases:
  assumes "bounded h"
  obtains h' where "new_node h = (None, h')" "grew h h' [] []" "\<not> (\<forall>i. may_alloc (hmem h) i)"
  | h' where "new_node h = (Some (brk h), h')" "grew h h' [brk h] []" "nodes h' = (nodes h)(brk h \<mapsto> zero_node)" "texts h' = texts h"
proof (cases "may_alloc (hmem h) (tries (hmem h))")
  case True
  then show ?thesis using assms that(2)
    by (auto simp: new_node_def allocate_def grew_def same_hooks_def bounded_def)
next
  case False
  then show ?thesis using assms that(1)
    by (auto simp: new_node_def allocate_def grew_def same_hooks_def bounded_def)
qed

lemma new_text_cases:
  assumes "bounded h"
  obtains h' where "new_text h s = (Null, h')" "grew h h' [] []" "nodes h' = nodes h" "\<not> (\<forall>i. may_alloc (hmem h) i)"
  | h' where "new_text h s = (Block (brk h) 0, h')" "grew h h' [] [brk h]" "nodes h' = nodes h" "texts h' = (texts h)(brk h \<mapsto> s)"
proof (cases "may_alloc (hmem h) (tries (hmem h))")
  case True
  then show ?thesis using assms that(2)
    by (auto simp: new_text_def allocate_def grew_def same_hooks_def bounded_def)
next
  case False
  then show ?thesis using assms that(1)
    by (auto simp: new_text_def allocate_def grew_def same_hooks_def bounded_def)
qed


section \<open>Copies\<close>

fun copied :: "cJSON \<Rightarrow> cJSON" where
  "copied (Item t vs vi vd s cs) = Item (t AND NOT cJSON_IsReference) vs vi vd s (map copied cs)"

definition detached :: "heap \<Rightarrow> nat \<Rightarrow> bool" where
  "detached h a \<longleftrightarrow> (\<exists>n. nodes h a = Some n \<and> nnext n = None \<and> nprev n = None)"

definition copy_of :: "heap \<Rightarrow> cJSON \<Rightarrow> heap \<Rightarrow> shape \<Rightarrow> bool" where
  "copy_of h v h' t \<longleftrightarrow> grew h h' (addrs t) (blocks_at h' t) \<and> forest h' [t] \<and> linked h' t \<and> views h' t \<and>
     value_at h' t = copied v \<and> detached h' (top t)"

text \<open>An unfinished copy: the node \<open>b\<close>, with the fields \<open>M\<close>, and the children \<open>us\<close> so far.\<close>

definition partial :: "heap \<Rightarrow> node \<Rightarrow> heap \<Rightarrow> nat \<Rightarrow> shape list \<Rightarrow> bool" where
  "partial h M hc b us \<longleftrightarrow> grew h hc (addrs (Shape b us)) (blocks_at hc (Shape b us)) \<and> forest hc [Shape b us] \<and>
     (\<forall>u \<in> set us. linked hc u \<and> views hc u) \<and> links (nodes hc) None (map top us) None \<and>
     nodes hc b = Some (M\<lparr>nchild := front (map top us) None\<rparr>) \<and> \<not> flag M cJSON_IsReference \<and> nnext M = None \<and> nprev M = None \<and>
     text_at hc (nvaluestring M) \<noteq> None \<and> text_at hc (nstring M) \<noteq> None"

lemma partial_forest:
  assumes "partial h M hc b us"
  shows "distinct (b # all_addrs us)" "distinct (node_blocks M @ all_blocks hc us)" "\<forall>u \<in> set us. owns hc u"
    "\<forall>t \<in> set (own_texts M). freeable hc t" "blocks_at hc (Shape b us) = node_blocks M @ all_blocks hc us"
  using assms own_texts_eq [of "M\<lparr>nchild := front (map top us) None\<rparr>" M] by (auto simp: partial_def forest_def)

lemma links_snoc:
  assumes "links N q (cs @ [l]) None" "distinct (cs @ [l, x])" "N x = Some n" "nnext n = None" "N l = Some m"
  shows "links (N(l \<mapsto> m\<lparr>nnext := Some x\<rparr>, x \<mapsto> n\<lparr>nprev := Some l\<rparr>)) q (cs @ [l, x]) None"
  using assms by (auto simp: links_append)

lemma partial_undo:
  assumes p: "partial h M hc b us" and b: "bounded h"
  shows "\<exists>h'. cJSON_Delete_at hc (Some b) = Some h' \<and> grew h h' [] []"
proof -
  have ch: "chain (nodes hc) (Some b) (map top [Shape b us])" using p by (simp add: partial_def)
  have f: "forest hc [Shape b us]" and g: "grew h hc (all_addrs [Shape b us]) (all_blocks hc [Shape b us])"
    using p by (simp_all add: partial_def del: addrs.simps blocks_at.simps)
  show ?thesis using delete_forest [OF f ch] grew_erase [OF g b] by blast
qed

lemma distinct_tops: "distinct (all_addrs ts) \<Longrightarrow> distinct (map top ts)"
proof (induction ts)
  case (Cons t ts)
  have "top t \<notin> set (all_addrs ts)" using Cons.prems top_addrs [of t] by (auto simp del: top_addrs)
  then have "top t \<notin> set (map top ts)" using tops_addrs by blast
  then show ?case using Cons by simp
qed simp

lemma addrs_disjoint:
  "distinct (all_addrs ts) \<Longrightarrow> t \<in> set ts \<Longrightarrow> u \<in> set ts \<Longrightarrow> a \<in> set (addrs t) \<Longrightarrow> a \<in> set (addrs u) \<Longrightarrow> t = u"
  by (induction ts) auto

lemma inner_not_top:
  assumes "distinct (all_addrs ts)" "u \<in> set ts" "a \<in> set (all_addrs (subs u))"
  shows "a \<notin> set (map top ts)"
proof
  assume "a \<in> set (map top ts)"
  then obtain t where t: "t \<in> set ts" "a = top t" by auto
  have au: "a \<in> set (addrs u)" using assms(3) by (cases u) auto
  have "t = u" by (rule addrs_disjoint [OF assms(1) t(1) assms(2) _ au]) (simp add: t(2))
  moreover have "distinct (addrs u)" using assms(1,2) by (auto simp: distinct_concat_iff)
  ultimately show False using assms(3) t(2) by (cases u) auto
qed

lemma grew_relink:
  assumes "grew h h1 A B" "hmem h2 = hmem h1" "brk h2 = brk h1" "texts h2 = texts h1"
    and "\<And>a. a < brk h \<Longrightarrow> nodes h2 a = nodes h1 a" "\<And>a. (nodes h2 a = None) = (nodes h1 a = None)"
  shows "grew h h2 A B"
  using assms unfolding grew_def by simp

text \<open>A copy is hung behind the last of the copies, or under the parent as the first.\<close>

lemma hang_copy:
  assumes m: "nodes h1 (top t) = Some m" "nnext m = None" "nprev m = None"
    and nb: "nodes h1 b = Some (M\<lparr>nchild := front (map top us) None\<rparr>)" and lk: "links (nodes h1) None (map top us) None"
    and dist: "distinct (b # all_addrs us @ addrs t)"
  shows "\<exists>h2. (if hind None (map top us) \<noteq> None then suffix_object h1 (hind None (map top us)) (Some (top t))
      else set_child h1 (Some b) (Some (top t))) = Some h2 \<and>
    texts h2 = texts h1 \<and> hmem h2 = hmem h1 \<and> brk h2 = brk h1 \<and>
    nodes h2 b = Some (M\<lparr>nchild := front (map top (us @ [t])) None\<rparr>) \<and>
    links (nodes h2) None (map top (us @ [t])) None \<and>
    (\<forall>a. a \<notin> set (b # map top (us @ [t])) \<longrightarrow> nodes h2 a = nodes h1 a) \<and>
    (\<forall>a. a \<noteq> b \<longrightarrow> map_option content_of (nodes h2 a) = map_option content_of (nodes h1 a))"
proof (cases us rule: rev_cases)
  case Nil
  have ne: "b \<noteq> (top t)" using dist by (cases t) auto
  show ?thesis
    by (rule exI [of _ "h1\<lparr>nodes := (nodes h1)(b \<mapsto> M\<lparr>nchild := Some (top t)\<rparr>)\<rparr>"])
      (use Nil nb m ne in \<open>auto simp: set_defs change_def loose_def\<close>)
next
  case (snoc us' l)
  obtain nl where nl: "nodes h1 (top l) = Some nl" using links_dom [OF lk, of "top l"] snoc by auto
  have "top l \<in> set (all_addrs us)" using tops_addrs [of us] snoc by auto
  then have ne: "b \<noteq> top t" "b \<noteq> top l" "top l \<noteq> top t" using dist top_addrs [of t] by (auto simp del: top_addrs)
  have dt: "distinct (map top us' @ [top l, top t])"
    using distinct_tops [of "us @ [t]"] dist snoc by simp
  show ?thesis
    by (rule exI [of _ "h1\<lparr>nodes := (nodes h1)(top l \<mapsto> nl\<lparr>nnext := Some (top t)\<rparr>, top t \<mapsto> m\<lparr>nprev := Some (top l)\<rparr>)\<rparr>"])
      (use snoc nb m ne nl dt links_snoc [of "nodes h1" None "map top us'" "top l" "top t" m nl] lk
       in \<open>auto simp: set_defs change_def loose_def\<close>)
qed

lemma partial_step:
  assumes p: "partial h M hc b us" and b: "bounded h" and c: "copy_of hc v h1 t"
  shows "\<exists>h2. (if hind None (map top us) \<noteq> None then suffix_object h1 (hind None (map top us)) (Some (top t))
        else set_child h1 (Some b) (Some (top t))) = Some h2 \<and>
    partial h M h2 b (us @ [t]) \<and> map (value_at h2) (us @ [t]) = map (value_at hc) us @ [copied v] \<and> kept hc h2 {}"
proof -
  have g1: "grew h hc (addrs (Shape b us)) (blocks_at hc (Shape b us))" using p unfolding partial_def by blast
  have g2: "grew hc h1 (addrs t) (blocks_at h1 t)" using c by (simp add: copy_of_def)
  have bc: "bounded hc" by (rule grew_bounded [OF g1])
  have k: "kept hc h1 {a. nodes hc a \<noteq> None}" by (rule grew_kept [OF g2 bc])
  have range1: "a < brk hc \<and> brk h \<le> a" if "a \<in> set (b # all_addrs us)" for a
    using grew_range [OF g1, of a] that by auto
  have range2: "brk hc \<le> a" if "a \<in> set (addrs t)" for a using grew_range [OF g2, of a] that by auto
  have dom: "nodes hc a \<noteq> None" if "a \<in> set (b # all_addrs us)" for a
    using grew_new [OF g1, of a] range1 [OF that] that by auto
  have ku: "kept_tree hc h1 u" if "u \<in> set us" for u
    by (rule kept_tree_all, rule kept_mono [OF k]) (use dom that in auto)
  note pf = partial_forest [OF p]
  have dist: "distinct (b # all_addrs us @ addrs t)"
    using pf(1) range1 range2 c by (fastforce simp: copy_of_def forest_def)
  let ?tt = "top t"
  define q where "q = hind None (map top us)"
  obtain m where m: "nodes h1 ?tt = Some m" "nnext m = None" "nprev m = None" using c by (auto simp: copy_of_def detached_def)
  have nb: "nodes h1 b = Some (M\<lparr>nchild := front (map top us) None\<rparr>)"
    using p k dom [of b] by (auto simp: partial_def kept_def)
  have lk: "links (nodes h1) None (map top us) None"
  proof -
    have "links (nodes h1) None (map top us) None = links (nodes hc) None (map top us) None"
    proof (rule links_cong)
      fix a assume "a \<in> set (map top us)"
      then have "a \<in> set (b # all_addrs us)" using tops_addrs by auto
      then show "nodes h1 a = nodes hc a" using k dom by (simp add: kept_def del: not_None_eq)
    qed
    then show ?thesis using p by (simp add: partial_def)
  qed
  have tops: "top u \<in> set (all_addrs us)" if "u \<in> set us" for u using that tops_addrs by auto
  obtain h2 where h2: "(if q \<noteq> None then suffix_object h1 q (Some ?tt) else set_child h1 (Some b) (Some ?tt)) = Some h2"
    "texts h2 = texts h1" "hmem h2 = hmem h1" "brk h2 = brk h1"
    "nodes h2 b = Some (M\<lparr>nchild := front (map top (us @ [t])) None\<rparr>)"
    "links (nodes h2) None (map top (us @ [t])) None"
    "\<forall>a. a \<notin> set (b # map top (us @ [t])) \<longrightarrow> nodes h2 a = nodes h1 a"
    "\<forall>a. a \<noteq> b \<longrightarrow> map_option content_of (nodes h2 a) = map_option content_of (nodes h1 a)"
    using hang_copy [OF m nb lk dist] unfolding q_def [symmetric] by blast
  have kt: "kept_tree h1 h2 u" if "u \<in> set (us @ [t])" for u
  proof -
    have da: "distinct (all_addrs (us @ [t]))" using dist by simp
    have "top u \<noteq> b" using dist tops that top_addrs [of t] by (auto simp del: top_addrs)
    moreover have "nodes h2 a = nodes h1 a" if a: "a \<in> set (all_addrs (subs u))" for a
    proof -
      have "a \<in> set (addrs u)" using a by (cases u) auto
      then have "a \<noteq> b" using dist \<open>u \<in> set (us @ [t])\<close> by auto
      then show ?thesis using inner_not_top [OF da \<open>u \<in> set (us @ [t])\<close> a] h2(7) by auto
    qed
    ultimately show ?thesis using h2(2,8) by (simp add: kept_tree_def kept_def)
  qed
  have ou: "owns h2 u \<and> blocks_at h2 u = blocks_at hc u \<and> views h2 u \<and> value_at h2 u = value_at hc u \<and> linked h2 u"
    if "u \<in> set us" for u
  proof -
    have o: "owns hc u" "views hc u" "linked hc u" using pf(3) p that by (auto simp: partial_def)
    note a = kept_owns [OF ku [OF that] o(1)] kept_views [OF ku [OF that] o(2)] kept_linked [OF ku [OF that] o(3)]
    have kt': "kept_tree h1 h2 u" using kt that by simp
    show ?thesis using a kept_owns [OF kt'] kept_views [OF kt'] kept_linked [OF kt'] by simp
  qed
  have ot: "owns h2 t \<and> blocks_at h2 t = blocks_at h1 t \<and> views h2 t \<and> value_at h2 t = copied v \<and> linked h2 t"
  proof -
    have kt': "kept_tree h1 h2 t" using kt by simp
    show ?thesis using c kept_owns [OF kt'] kept_views [OF kt'] kept_linked [OF kt'] by (simp add: copy_of_def forest_def)
  qed
  have blu: "all_blocks h2 us = all_blocks hc us"
    using ou by (intro arg_cong [where f = concat] map_cong) auto
  have nM: "node_blocks (M\<lparr>nchild := x\<rparr>) = node_blocks M" "own_texts (M\<lparr>nchild := x\<rparr>) = own_texts M"
    "flag (M\<lparr>nchild := x\<rparr>) f = flag M f" for x f
    using own_texts_eq [of "M\<lparr>nchild := x\<rparr>" M] by simp_all
  have bl: "blocks_at h2 (Shape b (us @ [t])) = node_blocks M @ all_blocks hc us @ blocks_at h1 t"
    using h2(5) blu ot nM by simp
  have rangeB: "a < brk hc" if "a \<in> set (node_blocks M @ all_blocks hc us)" for a
    using grew_range [OF g1, of a] that unfolding pf(5) by blast
  have rangeB2: "brk hc \<le> a" if "a \<in> set (blocks_at h1 t)" for a using grew_range [OF g2, of a] that by simp
  have dB: "distinct (node_blocks M @ all_blocks hc us @ blocks_at h1 t)"
    using pf(2) rangeB rangeB2 c by (fastforce simp: copy_of_def forest_def)
  have fr: "freeable h2 x" if "x \<in> set (own_texts M)" for x
  proof -
    have "freeable h1 x" using kept_freeable [OF k] pf(4) that by blast
    then show ?thesis using h2(2) by (cases x) simp_all
  qed
  have "forest h2 [Shape b (us @ [t])]"
    using h2(5) links_chain [OF h2(6)] nM fr ou ot dist dB bl p by (auto simp: forest_def partial_def simp del: blocks_at.simps)
  moreover have "grew h h2 (addrs (Shape b (us @ [t]))) (blocks_at h2 (Shape b (us @ [t])))"
  proof (rule grew_relink)
    show "grew h h1 (addrs (Shape b (us @ [t]))) (blocks_at h2 (Shape b (us @ [t])))"
      by (rule grew_trans [OF g1 g2]) (use bl pf(5) in \<open>auto simp del: blocks_at.simps\<close>)
    show "nodes h2 a = nodes h1 a" if "a < brk h" for a
    proof -
      have "a \<notin> set (b # map top (us @ [t]))"
        using that range1 range2 [of "top t"] tops grew_brk [OF g1] by fastforce
      then show ?thesis using h2(7) by blast
    qed
    show "(nodes h2 a = None) = (nodes h1 a = None)" for a
      using h2(5,8) nb by (cases "a = b") (metis option.distinct(1), metis map_option_is_None)
  qed (use h2 in auto)
  moreover have "text_at h2 x \<noteq> None" if "text_at hc x \<noteq> None" for x
  proof -
    have "text_at h1 x \<noteq> None" using kept_text [OF k that] that by simp
    then show ?thesis using h2(2) by (cases x) (simp_all add: text_at_def)
  qed
  ultimately have "partial h M h2 b (us @ [t])" using p h2(5,6) ou ot by (auto simp: partial_def simp del: blocks_at.simps not_None_eq)
  moreover have "map (value_at h2) (us @ [t]) = map (value_at hc) us @ [copied v]" using ou ot by auto
  moreover have "kept hc h2 {}" using k h2(2) by (simp add: kept_def)
  ultimately show ?thesis using h2(1) by (auto simp: q_def)
qed


section \<open>The loop and the recursion\<close>

lemma views_dom: "views h t \<Longrightarrow> set (addrs t) \<subseteq> {a. nodes h a \<noteq> None}"
proof (induction t)
  case (Shape a ts)
  have "nodes h a \<noteq> None" using Shape.prems by auto
  moreover have "set (addrs t) \<subseteq> {a. nodes h a \<noteq> None}" if "t \<in> set ts" for t using Shape that by simp
  ultimately show ?case by (auto simp del: not_None_eq)
qed

text \<open>What a call for \<open>t\<close> does: a copy, or nothing when there is not enough memory.\<close>

definition duplicates :: "(heap \<Rightarrow> ptr \<Rightarrow> (ptr \<times> heap) option) \<Rightarrow> heap \<Rightarrow> shape \<Rightarrow> bool" where
  "duplicates dup h t \<longleftrightarrow> (\<exists>r h'. dup h (Some (top t)) = Some (r, h') \<and>
     (r = None \<and> grew h h' [] [] \<and> \<not> (\<forall>i. may_alloc (hmem h) i) \<or>
      (\<exists>t'. r = Some (top t') \<and> copy_of h (value_at h t) h' t')))"

lemma grew_views:
  assumes g: "grew h h' A B" and b: "bounded h" and v: "views h t"
  shows "views h' t \<and> value_at h' t = value_at h t"
  by (rule kept_views [OF kept_tree_all v], rule kept_mono [OF grew_kept [OF g b] views_dom [OF v]])

lemma partial_bounded: "partial h M hc b us \<Longrightarrow> bounded hc"
  unfolding partial_def using grew_bounded by blast

lemma partial_grew:
  assumes p: "partial h M hc b us" and g: "grew hc h' [] []"
  shows "partial h M h' b us"
proof -
  have k: "kept hc h' {a. nodes hc a \<noteq> None}" by (rule grew_kept [OF g partial_bounded [OF p]])
  have n: "nodes hc b \<noteq> None" using p by (simp add: partial_def)
  have f: "forest hc [Shape b us]" using p by (simp add: partial_def)
  have dom: "set (addrs u) \<subseteq> {a. nodes hc a \<noteq> None}" if "u \<in> set us" for u
    using views_dom p that by (auto simp: partial_def simp del: not_None_eq)
  have ks: "kept hc h' (set (addrs (Shape b us)))"
    by (rule kept_mono [OF k]) (use dom n in \<open>auto simp del: not_None_eq\<close>)
  have o: "owns h' (Shape b us) \<and> blocks_at h' (Shape b us) = blocks_at hc (Shape b us)"
    using kept_owns [OF kept_tree_all [OF ks]] f by (simp add: forest_def del: owns.simps blocks_at.simps)
  have u: "linked h' u \<and> views h' u" if "u \<in> set us" for u
  proof -
    have "kept_tree hc h' u" by (rule kept_tree_all, rule kept_mono [OF k dom [OF that]])
    then show ?thesis using kept_linked kept_views p that by (auto simp: partial_def)
  qed
  have "links (nodes h') None (map top us) None = links (nodes hc) None (map top us) None"
  proof (rule links_cong)
    fix a assume "a \<in> set (map top us)"
    then have "a \<in> set (addrs (Shape b us))" using tops_addrs by auto
    then show "nodes h' a = nodes hc a" using ks by (simp add: kept_def del: addrs.simps)
  qed
  moreover have "nodes h' b = nodes hc b" using ks by (simp add: kept_def)
  moreover have "grew h h' (addrs (Shape b us)) (blocks_at h' (Shape b us))"
    by (rule grew_trans [OF _ g]) (use p o in \<open>auto simp: partial_def simp del: addrs.simps blocks_at.simps\<close>)
  moreover have "text_at h' x \<noteq> None" if "text_at hc x \<noteq> None" for x using kept_text [OF k that] that by simp
  ultimately show ?thesis using p o u f unfolding partial_def forest_def by auto
qed

lemma duplicate_chain_copies:
  assumes b: "bounded h" and p: "partial h M hc b us"
    and v: "\<forall>t \<in> set ts. views h t" and ch: "chain (nodes h) q (map top ts)"
    and dup: "\<And>t hx. t \<in> set ts \<Longrightarrow> bounded hx \<Longrightarrow> views hx t \<Longrightarrow> duplicates dup hx t"
  shows "\<exists>ok nc h' us'. duplicate_chain dup (Some b) (hind None (map top us)) q hc = Some (ok, nc, h') \<and>
    partial h M h' b us' \<and> kept hc h' {} \<and> (\<not> ok \<longrightarrow> \<not> (\<forall>i. may_alloc (hmem h) i)) \<and>
    (ok \<longrightarrow> nc = hind None (map top us') \<and>
       map (value_at h') us' = map (value_at hc) us @ map (\<lambda>t. copied (value_at h t)) ts)"
  using p v ch dup
proof (induction ts arbitrary: hc us q)
  case Nil
  then show ?case by (subst duplicate_chain.simps) (auto simp: kept_refl)
next
  case (Cons t ts)
  have q: "q = Some (top t)" and n: "\<exists>n. nodes h (top t) = Some n \<and> chain (nodes h) (nnext n) (map top ts)"
    using Cons.prems(3) by auto
  obtain n where n: "nodes h (top t) = Some n" "chain (nodes h) (nnext n) (map top ts)" using n by blast
  have g: "grew h hc (addrs (Shape b us)) (blocks_at hc (Shape b us))" using Cons.prems(1) unfolding partial_def by blast
  have bc: "bounded hc" by (rule partial_bounded [OF Cons.prems(1)])
  have vt: "views hc t" "value_at hc t = value_at h t" using grew_views [OF g b] Cons.prems(2) by simp_all
  have hk: "may_alloc (hmem hc) = may_alloc (hmem h)" using grew_mem [OF g] by (simp add: same_hooks_def)
  from Cons.prems(4) [of t hc] vt(1) bc have "duplicates dup hc t" by simp
  then obtain r h1 where r: "dup hc (Some (top t)) = Some (r, h1)"
    "r = None \<and> grew hc h1 [] [] \<and> \<not> (\<forall>i. may_alloc (hmem hc) i) \<or> (\<exists>t'. r = Some (top t') \<and> copy_of hc (value_at hc t) h1 t')"
    unfolding duplicates_def by blast
  show ?case
  proof (cases r)
    case None
    then have "grew hc h1 [] []" "\<not> (\<forall>i. may_alloc (hmem h) i)" using r(2) hk by auto
    moreover have "duplicate_chain dup (Some b) (hind None (map top us)) q hc = Some (False, None, h1)"
      using q r(1) None by (subst duplicate_chain.simps) simp
    moreover have "kept hc h1 {}" using kept_mono [OF grew_kept [OF _ bc]] calculation(1) by blast
    ultimately show ?thesis using partial_grew [OF Cons.prems(1)] by blast
  next
    case (Some x)
    then obtain t' where t': "r = Some (top t')" "copy_of hc (value_at h t) h1 t'" using r(2) vt(2) by auto
    obtain h2 where h2: "(if hind None (map top us) \<noteq> None then suffix_object h1 (hind None (map top us)) (Some (top t'))
        else set_child h1 (Some b) (Some (top t'))) = Some h2"
      "partial h M h2 b (us @ [t'])" "map (value_at h2) (us @ [t']) = map (value_at hc) us @ [copied (value_at h t)]" "kept hc h2 {}"
      using partial_step [OF Cons.prems(1) b t'(2)] by blast
    have g2: "grew h h2 (addrs (Shape b (us @ [t']))) (blocks_at h2 (Shape b (us @ [t'])))"
      using h2(2) unfolding partial_def by blast
    have n2: "nodes h2 (top t) = Some n" using grew_kept [OF g2 b] n(1) by (auto simp: kept_def)
    have step: "duplicate_chain dup (Some b) (hind None (map top us)) q hc =
        duplicate_chain dup (Some b) (hind None (map top (us @ [t']))) (nnext n) h2"
      using q r(1) t'(1) h2(1) n2 by (subst duplicate_chain.simps) simp
    have "\<exists>ok nc h' us'. duplicate_chain dup (Some b) (hind None (map top (us @ [t']))) (nnext n) h2 = Some (ok, nc, h') \<and>
      partial h M h' b us' \<and> kept h2 h' {} \<and> (\<not> ok \<longrightarrow> \<not> (\<forall>i. may_alloc (hmem h) i)) \<and>
      (ok \<longrightarrow> nc = hind None (map top us') \<and>
         map (value_at h') us' = map (value_at h2) (us @ [t']) @ map (\<lambda>t. copied (value_at h t)) ts)"
      by (rule Cons.IH [OF h2(2) _ n(2)]) (use Cons.prems(2,4) in auto)
    then show ?thesis unfolding step h2(3) using kept_trans [OF h2(4)] by fastforce
  qed
qed


section \<open>The strings of the copy\<close>

lemma node_blocks_plain:
  "\<not> flag M cJSON_IsReference \<Longrightarrow> node_blocks M = block_of (nvaluestring M) @ (if flag M cJSON_StringIsConst then [] else block_of (nstring M))"
  "\<not> flag M cJSON_IsReference \<Longrightarrow> own_texts M = nvaluestring M # (if flag M cJSON_StringIsConst then [] else [nstring M])"
  by (simp_all add: node_blocks_def own_texts_def)

lemma flag_fields [simp]:
  "flag (M\<lparr>nvaluestring := s\<rparr>) f = flag M f" "flag (M\<lparr>nstring := s\<rparr>) f = flag M f" "flag (M\<lparr>nchild := c\<rparr>) f = flag M f"
  by (simp_all add: flag_def)

lemma partial_Nil:
  "partial h M hc b [] \<longleftrightarrow> grew h hc [b] (node_blocks M) \<and> nodes hc b = Some (M\<lparr>nchild := None\<rparr>) \<and>
     \<not> flag M cJSON_IsReference \<and> nnext M = None \<and> nprev M = None \<and>
     text_at hc (nvaluestring M) \<noteq> None \<and> text_at hc (nstring M) \<noteq> None \<and>
     distinct (node_blocks M) \<and> (\<forall>t \<in> set (own_texts M). freeable hc t)"
proof -
  have "own_texts (M\<lparr>nchild := None\<rparr>) = own_texts M" "node_blocks (M\<lparr>nchild := None\<rparr>) = node_blocks M"
    using own_texts_eq [of "M\<lparr>nchild := None\<rparr>" M] by simp_all
  then show ?thesis by (auto simp: partial_def forest_def)
qed

lemma text_at_new: "nulfree s \<Longrightarrow> texts h a = Some (s @ [NUL]) \<Longrightarrow> text_at h (Block a 0) = Some (Some s)"
  using strlen_at_found [of s "[]" "[]"] by (simp add: text_at_def)

text \<open>A new block \<open>x\<close> becomes a string of the node: \<open>M'\<close> has it in addition to the strings of \<open>M\<close>.\<close>

lemma partial_new_text:
  assumes p: "partial h M hc b []" and s: "nulfree s"
    and n: "new_text hc (s @ [NUL]) = (Block (brk hc) 0, h1)" "grew hc h1 [] [brk hc]" "nodes h1 = nodes hc"
      "texts h1 = (texts hc)(brk hc \<mapsto> s @ [NUL])"
    and M': "M' = M\<lparr>nvaluestring := Block (brk hc) 0\<rparr> \<and> nvaluestring M = Null \<or>
      M' = M\<lparr>nstring := Block (brk hc) 0\<rparr> \<and> nstring M = Null \<and> \<not> flag M cJSON_StringIsConst"
  shows "partial h M' (h1\<lparr>nodes := (nodes h1)(b \<mapsto> M'\<lparr>nchild := None\<rparr>)\<rparr>) b []"
proof -
  let ?x = "brk hc"
  let ?h2 = "h1\<lparr>nodes := (nodes h1)(b \<mapsto> M'\<lparr>nchild := None\<rparr>)\<rparr>"
  note p' = p [unfolded partial_Nil]
  have g: "grew h hc [b] (node_blocks M)" using p' by blast
  have bc: "bounded hc" by (rule grew_bounded [OF g])
  have fresh: "?x \<notin> set (node_blocks M)" using grew_range [OF g, of ?x] by auto
  have ref: "\<not> flag M cJSON_IsReference" "\<not> flag M' cJSON_IsReference" using p' M' by auto
  have nb: "set (node_blocks M') = insert ?x (set (node_blocks M))" "length (node_blocks M') = Suc (length (node_blocks M))"
    "distinct (node_blocks M')"
    using M' fresh p' node_blocks_plain(1) [OF ref(1)] node_blocks_plain(1) [OF ref(2)] by auto
  have g1: "grew h h1 [b] (node_blocks M')"
    by (rule grew_trans [OF g n(2)]) (use nb in auto)
  have nd: "nodes h1 b = Some (M\<lparr>nchild := None\<rparr>)" using p' n(3) by simp
  have g2: "grew h ?h2 [b] (node_blocks M')"
  proof (rule grew_relink [OF g1])
    have "brk h \<le> b" using grew_range [OF g, of b] by simp
    then show "nodes ?h2 a = nodes h1 a" if "a < brk h" for a using that by simp
    show "(nodes ?h2 a = None) = (nodes h1 a = None)" for a using nd by simp
  qed simp_all
  have k: "kept hc ?h2 {}" using n(4) bounded_lt(2) [OF bc, of ?x] by (auto simp: kept_def)
  have tx: "text_at ?h2 (Block ?x 0) = Some (Some s)" by (rule text_at_new [OF s]) (simp add: n(4))
  have old: "text_at ?h2 (nvaluestring M) \<noteq> None" "text_at ?h2 (nstring M) \<noteq> None"
    using kept_text [OF k] p' by auto
  have "freeable ?h2 t" if t: "t \<in> set (own_texts M')" for t
  proof -
    have "t = Block ?x 0 \<or> t \<in> set (own_texts M) \<or> t = Null"
      using t M' node_blocks_plain(2) [OF ref(1)] node_blocks_plain(2) [OF ref(2)] by (auto split: if_splits)
    then show ?thesis
    proof (elim disjE)
      assume "t \<in> set (own_texts M)"
      then have "freeable hc t" using p' by blast
      then show ?thesis by (rule kept_freeable [OF k])
    qed (simp_all add: n(4))
  qed
  moreover have "text_at ?h2 (nvaluestring M') \<noteq> None" "text_at ?h2 (nstring M') \<noteq> None"
    using M' tx old by auto
  ultimately show ?thesis using g2 nb(3) ref(2) p' M' unfolding partial_Nil by auto
qed

lemma copy_text_partial:
  assumes p: "partial h M hc b []" and s: "text_at hc s \<noteq> None" and b: "bounded h"
    and a: "assign = (\<lambda>s m. m\<lparr>nvaluestring := s\<rparr>) \<and> nvaluestring M = Null \<and> \<not> share \<or>
      assign = (\<lambda>s m. m\<lparr>nstring := s\<rparr>) \<and> nstring M = Null \<and> share = flag M cJSON_StringIsConst"
  shows "\<exists>ok h' s'. copy_text share s assign (Some b) hc = Some (ok, h') \<and> partial h (assign s' M) h' b [] \<and>
    kept hc h' {} \<and> (ok \<longrightarrow> text_at h' s' = text_at hc s) \<and> (\<not> ok \<longrightarrow> \<not> (\<forall>i. may_alloc (hmem h) i))"
proof -
  note p' = p [unfolded partial_Nil]
  have same: "assign Null M = M" using a by auto
  have bc: "bounded hc" by (rule partial_bounded [OF p])
  have hk: "may_alloc (hmem hc) = may_alloc (hmem h)" using p' grew_mem by (fastforce simp: same_hooks_def)
  have com: "assign x (M\<lparr>nchild := None\<rparr>) = (assign x M)\<lparr>nchild := None\<rparr>" for x using a by auto
  consider (null) "s = Null" | (share) "s \<noteq> Null" share | (copy) "s \<noteq> Null" "\<not> share" by blast
  then show ?thesis
  proof cases
    case null
    then have "copy_text share s assign (Some b) hc = Some (True, hc)" by (simp add: copy_text_def)
    moreover have "partial h (assign Null M) hc b []" using p same by simp
    ultimately show ?thesis using null kept_refl by blast
  next
    case share
    then have as: "assign = (\<lambda>s m. m\<lparr>nstring := s\<rparr>)" "flag M cJSON_StringIsConst" using a by auto
    define h2 where "h2 = hc\<lparr>nodes := (nodes hc)(b \<mapsto> assign s (M\<lparr>nchild := None\<rparr>))\<rparr>"
    have "copy_text share s assign (Some b) hc = Some (True, h2)"
      using share p' by (simp add: copy_text_def change_def h2_def)
    moreover have "partial h (M\<lparr>nstring := s\<rparr>) h2 b []"
    proof -
      have g: "grew h hc [b] (node_blocks M)" using p' by blast
      have nb: "node_blocks (M\<lparr>nstring := s\<rparr>) = node_blocks M" "own_texts (M\<lparr>nstring := s\<rparr>) = own_texts M"
        using as(2) by (simp_all add: node_blocks_def own_texts_def)
      have "brk h \<le> b" using grew_range [OF g, of b] by simp
      then have "grew h h2 [b] (node_blocks M)"
        by (intro grew_relink [OF g]) (use p' in \<open>auto simp: h2_def\<close>)
      moreover have "text_at h2 x = text_at hc x" "freeable h2 x = freeable hc x" for x
        by (cases x; simp add: h2_def text_at_def)+
      moreover have "nodes h2 b = Some ((M\<lparr>nstring := s\<rparr>)\<lparr>nchild := None\<rparr>)" using com [of s] as(1) by (simp add: h2_def)
      ultimately show ?thesis using p' s nb by (auto simp: partial_Nil)
    qed
    moreover have "text_at h2 s = text_at hc s" by (cases s) (simp_all add: h2_def text_at_def)
    moreover have "kept hc h2 {}" by (simp add: kept_def h2_def)
    ultimately show ?thesis using as(1) by blast
  next
    case copy
    obtain u where u: "text_at hc s = Some (Some u)" using s copy text_at_Null [of hc s] by (cases "text_at hc s") auto
    have nu: "nulfree u" by (rule text_at_nulfree [OF u])
    show ?thesis
    proof (rule new_text_cases [OF bc, of "u @ [NUL]"])
      fix h1 assume f: "new_text hc (u @ [NUL]) = (Null, h1)" "grew hc h1 [] []" "nodes h1 = nodes hc" "\<not> (\<forall>i. may_alloc (hmem hc) i)"
      have p1: "partial h M h1 b []" by (rule partial_grew [OF p f(2)])
      have nb: "nodes h1 b = Some (M\<lparr>nchild := None\<rparr>)" using p1 by (simp add: partial_Nil)
      then have "(nodes h1)(b \<mapsto> M\<lparr>nchild := None\<rparr>) = nodes h1" by (rule fun_upd_idem)
      then have "change h1 (Some b) (assign Null) = Some h1"
        using nb com [of Null] same by (simp add: change_def)
      then have "copy_text share s assign (Some b) hc = Some (False, h1)"
        using copy u f(1) by (simp add: copy_text_def cJSON_strdup_def)
      moreover have "kept hc h1 {}" using kept_mono [OF grew_kept [OF f(2) bc]] by blast
      ultimately show ?thesis using p1 same f(4) hk by metis
    next
      fix h1 assume f: "new_text hc (u @ [NUL]) = (Block (brk hc) 0, h1)" "grew hc h1 [] [brk hc]" "nodes h1 = nodes hc"
        "texts h1 = (texts hc)(brk hc \<mapsto> u @ [NUL])"
      define M' where "M' = assign (Block (brk hc) 0) M"
      define h2 where "h2 = h1\<lparr>nodes := (nodes h1)(b \<mapsto> M'\<lparr>nchild := None\<rparr>)\<rparr>"
      have "partial h M' h2 b []" unfolding h2_def
        by (rule partial_new_text [OF p nu f]) (use a copy in \<open>auto simp: M'_def\<close>)
      moreover have "change h1 (Some b) (assign (Block (brk hc) 0)) = Some h2"
        using p' f(3) com by (simp add: change_def h2_def M'_def)
      then have "copy_text share s assign (Some b) hc = Some (True, h2)"
        using copy u f(1) by (simp add: copy_text_def cJSON_strdup_def)
      moreover have "text_at h2 (Block (brk hc) 0) = Some (Some u)"
        by (rule text_at_new [OF nu]) (simp add: h2_def f(4))
      moreover have "kept hc h2 {}"
        using bounded_lt(2) [OF bc, of "brk hc"] by (auto simp: kept_def h2_def f(4))
      ultimately show ?thesis using u unfolding M'_def by metis
    qed
  qed
qed


section \<open>The whole item\<close>

lemma partial_close:
  assumes p: "partial h M hc b us" and b: "bounded h"
    and v: "value_at hc (Shape b us) = copied v"
  shows "\<exists>h'. (case front (map top us) None of None \<Rightarrow> Some hc | Some c \<Rightarrow> set_prev hc (Some c) (hind None (map top us))) = Some h' \<and>
    copy_of h v h' (Shape b us)"
proof -
  note pf = partial_forest [OF p]
  have g: "grew h hc (addrs (Shape b us)) (blocks_at hc (Shape b us))" using p unfolding partial_def by blast
  have nb: "nodes hc b = Some (M\<lparr>nchild := front (map top us) None\<rparr>)" using p by (simp add: partial_def)
  have lk: "links (nodes hc) None (map top us) None" using p by (simp add: partial_def)
  have dt: "distinct (b # map top us)" using pf(1) distinct_tops [of us] tops_addrs [of us] by auto
  obtain h' where h': "(case front (map top us) None of None \<Rightarrow> Some hc | Some c \<Rightarrow> set_prev hc (Some c) (hind None (map top us))) = Some h'"
    "texts h' = texts hc" "hmem h' = hmem hc" "brk h' = brk hc"
    "\<forall>a. a \<notin> set (map top us) \<longrightarrow> nodes h' a = nodes hc a"
    "\<forall>a. map_option content_of (nodes h' a) = map_option content_of (nodes hc a)"
    "links (nodes h') (hind None (map top us)) (map top us) None"
  proof (cases us)
    case Nil
    show ?thesis by (rule that [of hc]) (use Nil in simp_all)
  next
    case (Cons u us')
    obtain m where m: "nodes hc (top u) = Some m" using lk Cons by auto
    show ?thesis
      by (rule that [of "hc\<lparr>nodes := (nodes hc)(top u \<mapsto> m\<lparr>nprev := hind None (map top us)\<rparr>)\<rparr>"])
        (use Cons m lk dt in \<open>auto simp: set_defs change_def\<close>)
  qed
  have kt: "kept_tree hc h' u" if u: "u \<in> set us" for u
  proof -
    have "nodes h' a = nodes hc a" if "a \<in> set (all_addrs (subs u))" for a
      using inner_not_top [OF _ u that] pf(1) h'(5) by auto
    then show ?thesis using h'(2,6) by (simp add: kept_tree_def kept_def)
  qed
  have u: "owns h' u \<and> blocks_at h' u = blocks_at hc u \<and> views h' u \<and> value_at h' u = value_at hc u \<and> linked h' u"
    if "u \<in> set us" for u
    using kept_owns [OF kt [OF that]] kept_views [OF kt [OF that]] kept_linked [OF kt [OF that]] pf(3) p that
    by (auto simp: partial_def)
  have nb': "nodes h' b = nodes hc b" using h'(5) dt by auto
  have blu: "all_blocks h' us = all_blocks hc us" using u by (intro arg_cong [where f = concat] map_cong) auto
  have tx: "text_at h' x = text_at hc x" for x using h'(2) by (cases x) (simp_all add: text_at_def)
  have fr: "freeable h' x = freeable hc x" for x using h'(2) by (cases x) simp_all
  have ch: "chain (nodes h') (front (map top us) None) (map top us)" by (rule links_chain [OF h'(7)])
  have nM: "node_blocks (M\<lparr>nchild := x\<rparr>) = node_blocks M" "own_texts (M\<lparr>nchild := x\<rparr>) = own_texts M" for x
    using own_texts_eq [of "M\<lparr>nchild := x\<rparr>" M] by simp_all
  have bl: "blocks_at h' (Shape b us) = blocks_at hc (Shape b us)" using nb' blu by simp
  have "forest h' [Shape b us]"
    using nb nb' ch u pf fr nM blu p by (auto simp: forest_def partial_def)
  moreover have "linked h' (Shape b us)" using nb nb' h'(7) dt u by (auto simp: kids_def)
  moreover have "views h' (Shape b us)" using nb nb' ch u tx p by (auto simp: partial_def)
  moreover have "value_at h' (Shape b us) = copied v" using v nb nb' u tx by (simp cong: map_cong)
  moreover have "detached h' b" using nb nb' p by (auto simp: detached_def partial_def)
  moreover have "grew h h' (addrs (Shape b us)) (blocks_at h' (Shape b us))"
  proof (rule grew_relink)
    show "grew h hc (addrs (Shape b us)) (blocks_at h' (Shape b us))" using g bl by (simp only:)
    show "nodes h' a = nodes hc a" if "a < brk h" for a
    proof -
      have "a \<notin> set (all_addrs us)" using grew_range [OF g, of a] that by auto
      then show ?thesis using h'(5) tops_addrs by blast
    qed
    show "(nodes h' a = None) = (nodes hc a = None)" for a using h'(6) by (metis map_option_is_None)
  qed (use h' in auto)
  ultimately show ?thesis using h'(1) unfolding copy_of_def by auto
qed

lemma and_not_self: "(w AND NOT r) AND r = (0 :: u32)"
  by (simp only: and.assoc bit.conj_cancel_left bit.conj_zero_right)

lemma and_not_flags:
  "(t AND NOT cJSON_IsReference) AND cJSON_IsReference = 0"
  "(t AND NOT cJSON_IsReference) AND cJSON_StringIsConst = t AND cJSON_StringIsConst"
proof -
  show "(t AND NOT cJSON_IsReference) AND cJSON_IsReference = 0" by (rule and_not_self)
  have "NOT cJSON_IsReference AND cJSON_StringIsConst = cJSON_StringIsConst" by simp
  then show "(t AND NOT cJSON_IsReference) AND cJSON_StringIsConst = t AND cJSON_StringIsConst"
    by (simp only: and.assoc)
qed

text \<open>The root of a copy: its numbers, then its two strings.\<close>

lemma copy_root:
  assumes b: "bounded h" and n: "nodes h a = Some n" "text_at h (nvaluestring n) \<noteq> None" "text_at h (nstring n) \<noteq> None"
    and f: "grew h h1 [brk h] []" "nodes h1 = (nodes h)(brk h \<mapsto> zero_node)" "texts h1 = texts h"
  shows "\<exists>h2 ok1 h3 ok2 h4 M2. nodes h1 a = Some n \<and>
    change h1 (Some (brk h)) (\<lambda>m. m\<lparr>ntype := ntype n AND NOT cJSON_IsReference, nvalueint := nvalueint n,
      nvaluedouble := nvaluedouble n\<rparr>) = Some h2 \<and>
    copy_text False (nvaluestring n) (\<lambda>s m. m\<lparr>nvaluestring := s\<rparr>) (Some (brk h)) h2 = Some (ok1, h3) \<and>
    (if ok1 then copy_text (flag n cJSON_StringIsConst) (nstring n) (\<lambda>s m. m\<lparr>nstring := s\<rparr>) (Some (brk h)) h3
     else Some (False, h3)) = Some (ok2, h4) \<and>
    partial h M2 h4 (brk h) [] \<and> (\<not> ok2 \<longrightarrow> \<not> (\<forall>i. may_alloc (hmem h) i)) \<and>
    (ok2 \<longrightarrow> ntype M2 = ntype n AND NOT cJSON_IsReference \<and> nvalueint M2 = nvalueint n \<and> nvaluedouble M2 = nvaluedouble n \<and>
      text_at h4 (nvaluestring M2) = text_at h (nvaluestring n) \<and> text_at h4 (nstring M2) = text_at h (nstring n))"
proof -
  define b0 where "b0 = brk h"
  define M0 where "M0 = zero_node\<lparr>ntype := ntype n AND NOT cJSON_IsReference, nvalueint := nvalueint n, nvaluedouble := nvaluedouble n\<rparr>"
  define h2 where "h2 = h1\<lparr>nodes := (nodes h1)(b0 \<mapsto> M0)\<rparr>"
  have ab: "a < b0" using bounded_lt(1) [OF b] n(1) by (simp add: b0_def)
  have na: "nodes h1 a = Some n" using f(2) n(1) ab by (simp add: b0_def)
  have ch: "change h1 (Some b0) (\<lambda>m. m\<lparr>ntype := ntype n AND NOT cJSON_IsReference, nvalueint := nvalueint n,
      nvaluedouble := nvaluedouble n\<rparr>) = Some h2" using f(2) by (simp add: change_def h2_def M0_def b0_def)
  have M0: "nvaluestring M0 = Null" "nstring M0 = Null" "\<not> flag M0 cJSON_IsReference" "nnext M0 = None" "nprev M0 = None"
    "M0\<lparr>nchild := None\<rparr> = M0" "flag M0 cJSON_StringIsConst = flag n cJSON_StringIsConst"
    using and_not_flags [of "ntype n"] by (simp_all add: M0_def zero_node_def flag_def)
  have g2: "grew h h2 [b0] []" unfolding h2_def
    by (rule grew_relink [OF f(1) [folded b0_def]]) (auto simp: b0_def f(2))
  have p0: "partial h M0 h2 b0 []"
    using g2 M0 by (auto simp: partial_Nil h2_def node_blocks_plain text_at_def)
  have tx: "text_at h2 x = text_at h x" for x by (cases x) (simp_all add: text_at_def h2_def f(3))
  obtain ok1 h3 s1 where c1: "copy_text False (nvaluestring n) (\<lambda>s m. m\<lparr>nvaluestring := s\<rparr>) (Some b0) h2 = Some (ok1, h3)"
    "partial h (M0\<lparr>nvaluestring := s1\<rparr>) h3 b0 []" "kept h2 h3 {}" "ok1 \<longrightarrow> text_at h3 s1 = text_at h (nvaluestring n)"
    "\<not> ok1 \<longrightarrow> \<not> (\<forall>i. may_alloc (hmem h) i)"
    using copy_text_partial [OF p0 _ b, of "nvaluestring n" "\<lambda>s m. m\<lparr>nvaluestring := s\<rparr>" False] n(2) tx M0(1) by auto
  define M1 where "M1 = M0\<lparr>nvaluestring := s1\<rparr>"
  have t3: "text_at h3 (nstring n) = text_at h (nstring n)" using kept_text [OF c1(3)] n(3) tx by simp
  obtain ok2 h4 M2 where c2: "(if ok1 then copy_text (flag n cJSON_StringIsConst) (nstring n) (\<lambda>s m. m\<lparr>nstring := s\<rparr>) (Some b0) h3
      else Some (False, h3)) = Some (ok2, h4)" "partial h M2 h4 b0 []" "\<not> ok2 \<longrightarrow> \<not> (\<forall>i. may_alloc (hmem h) i)"
    "ok2 \<longrightarrow> (\<exists>s2. M2 = M1\<lparr>nstring := s2\<rparr> \<and> text_at h4 s2 = text_at h (nstring n) \<and> text_at h4 s1 = text_at h (nvaluestring n))"
  proof (cases ok1)
    case False
    show ?thesis by (rule that [of False h3 M1]) (use False c1 in \<open>auto simp: M1_def\<close>)
  next
    case True
    obtain ok2 h4 s2 where c: "copy_text (flag n cJSON_StringIsConst) (nstring n) (\<lambda>s m. m\<lparr>nstring := s\<rparr>) (Some b0) h3 = Some (ok2, h4)"
      "partial h (M1\<lparr>nstring := s2\<rparr>) h4 b0 []" "kept h3 h4 {}" "ok2 \<longrightarrow> text_at h4 s2 = text_at h (nstring n)"
      "\<not> ok2 \<longrightarrow> \<not> (\<forall>i. may_alloc (hmem h) i)"
      using copy_text_partial [OF c1(2) _ b, of "nstring n" "\<lambda>s m. m\<lparr>nstring := s\<rparr>" "flag n cJSON_StringIsConst"] n(3) t3 M0(2,7)
      by (auto simp: M1_def)
    have "text_at h4 s1 = text_at h (nvaluestring n)"
      using kept_text [OF c(3), of s1] c1(4) True n(2) by simp
    then have k: "ok2 \<longrightarrow> (\<exists>s2. M1\<lparr>nstring := s\<rparr> = M1\<lparr>nstring := s2\<rparr> \<and> text_at h4 s2 = text_at h (nstring n) \<and>
        text_at h4 s1 = text_at h (nvaluestring n))" if "s = s2" for s using c(4) that by blast
    show ?thesis by (rule that [OF _ c(2,5) k [OF refl]]) (simp add: True c(1))
  qed
  have "ntype M2 = ntype n AND NOT cJSON_IsReference \<and> nvalueint M2 = nvalueint n \<and> nvaluedouble M2 = nvaluedouble n \<and>
      text_at h4 (nvaluestring M2) = text_at h (nvaluestring n) \<and> text_at h4 (nstring M2) = text_at h (nstring n)" if ok2
    using c2(4) that by (auto simp: M1_def M0_def)
  then show ?thesis using na ch c1(1) c2(1-3) unfolding b0_def by blast
qed

lemma duplicate_item_copies:
  "depth_of t \<le> k \<Longrightarrow> bounded h \<Longrightarrow> views h t \<Longrightarrow> duplicates (\<lambda>h item. duplicate_item k h item True) h t"
proof (induction k arbitrary: h t)
  case 0
  then show ?case by (cases t) simp
next
  case (Suc k)
  obtain a ts where t: "t = Shape a ts" by (cases t)
  note b = Suc.prems(2)
  obtain n where n: "nodes h a = Some n" "chain (nodes h) (nchild n) (map top ts)" "text_at h (nvaluestring n) \<noteq> None"
    "text_at h (nstring n) \<noteq> None" "\<forall>t \<in> set ts. views h t" using Suc.prems(3) t by auto
  have dts: "depth_of u \<le> k" if "u \<in> set ts" for u using depth_of_sub [OF that, of a] Suc.prems(1) t by simp
  show ?case unfolding duplicates_def t shape.sel
  proof (rule new_node_cases [OF b])
    fix h1 assume f: "new_node h = (None, h1)" "grew h h1 [] []" "\<not> (\<forall>i. may_alloc (hmem h) i)"
    then have "duplicate_item (Suc k) h (Some a) True = Some (None, h1)" by simp
    then show "\<exists>r h'. duplicate_item (Suc k) h (Some a) True = Some (r, h') \<and>
       (r = None \<and> grew h h' [] [] \<and> \<not> (\<forall>i. may_alloc (hmem h) i) \<or>
        (\<exists>t'. r = Some (top t') \<and> copy_of h (value_at h (Shape a ts)) h' t'))" using f by blast
  next
    fix h1 assume f: "new_node h = (Some (brk h), h1)" "grew h h1 [brk h] []"
      "nodes h1 = (nodes h)(brk h \<mapsto> zero_node)" "texts h1 = texts h"
    show "\<exists>r h'. duplicate_item (Suc k) h (Some a) True = Some (r, h') \<and>
       (r = None \<and> grew h h' [] [] \<and> \<not> (\<forall>i. may_alloc (hmem h) i) \<or>
        (\<exists>t'. r = Some (top t') \<and> copy_of h (value_at h (Shape a ts)) h' t'))"
    proof -
      obtain h2 ok1 h3 ok2 h4 M2 where c: "nodes h1 a = Some n"
        "change h1 (Some (brk h)) (\<lambda>m. m\<lparr>ntype := ntype n AND NOT cJSON_IsReference, nvalueint := nvalueint n,
          nvaluedouble := nvaluedouble n\<rparr>) = Some h2"
        "copy_text False (nvaluestring n) (\<lambda>s m. m\<lparr>nvaluestring := s\<rparr>) (Some (brk h)) h2 = Some (ok1, h3)"
        "(if ok1 then copy_text (flag n cJSON_StringIsConst) (nstring n) (\<lambda>s m. m\<lparr>nstring := s\<rparr>) (Some (brk h)) h3
          else Some (False, h3)) = Some (ok2, h4)" and c2: "partial h M2 h4 (brk h) []" "\<not> ok2 \<longrightarrow> \<not> (\<forall>i. may_alloc (hmem h) i)"
        "ok2 \<longrightarrow> ntype M2 = ntype n AND NOT cJSON_IsReference \<and> nvalueint M2 = nvalueint n \<and> nvaluedouble M2 = nvaluedouble n \<and>
          text_at h4 (nvaluestring M2) = text_at h (nvaluestring n) \<and> text_at h4 (nstring M2) = text_at h (nstring n)"
        using copy_root [OF b n(1,3,4) f(2-4)] by blast
      obtain ok3 nc h5 us where c3: "(if ok2 then duplicate_chain (\<lambda>h child. duplicate_item k h child True) (Some (brk h)) None (nchild n) h4
          else Some (ok2, None, h4)) = Some (ok3, nc, h5)" "partial h M2 h5 (brk h) us" "\<not> ok3 \<longrightarrow> \<not> (\<forall>i. may_alloc (hmem h) i)"
        "ok3 \<longrightarrow> ok2 \<and> kept h4 h5 {} \<and> nc = hind None (map top us) \<and> map (value_at h5) us = map (\<lambda>t. copied (value_at h t)) ts"
      proof (cases ok2)
        case False
        show ?thesis by (rule that [of False None h4 "[]"]) (use False c2 in auto)
      next
        case True
        have "duplicates (\<lambda>h child. duplicate_item k h child True) hx u" if "u \<in> set ts" "bounded hx" "views hx u" for u hx
          by (rule Suc.IH [OF dts [OF that(1)] that(2,3)])
        then show ?thesis using duplicate_chain_copies [OF b c2(1) n(5,2), of "\<lambda>h child. duplicate_item k h child True"] True that
          by fastforce
      qed
      let ?b = "brk h"
      have run: "duplicate_item (Suc k) h (Some a) True =
        (if \<not> ok3 then do { h \<leftarrow> cJSON_Delete_at h5 (Some ?b); Some (None, h) }
         else do {
           m \<leftarrow> node_at h5 (Some ?b);
           h \<leftarrow> (if nchild m \<noteq> None then set_prev h5 (nchild m) nc else Some h5);
           Some (Some ?b, h) })"
        using f(1) c(1-4) c3(1) by (simp del: bind_Some_iff not_None_eq cong: if_cong)
      show ?thesis
      proof (cases ok3)
        case False
        then show ?thesis using run partial_undo [OF c3(2) b] c3(3) by auto
      next
        case True
        then have ok: "ok2" "kept h4 h5 {}" "nc = hind None (map top us)" "map (value_at h5) us = map (\<lambda>t. copied (value_at h t)) ts"
          using c3(4) by auto
        have n5: "nodes h5 (brk h) = Some (M2\<lparr>nchild := front (map top us) None\<rparr>)" using c3(2) by (simp add: partial_def)
        have "text_at h5 (nstring M2) = text_at h (nstring n)" "text_at h5 (nvaluestring M2) = text_at h (nvaluestring n)"
          using kept_text [OF ok(2)] c2(3) ok(1) n(3,4) by simp_all
        then have "value_at h5 (Shape (brk h) us) = copied (value_at h (Shape a ts))"
          using n5 n(1) ok(4) c2(3) ok(1) by (simp add: comp_def)
        from partial_close [OF c3(2) b this] obtain h' where
          h': "(case front (map top us) None of None \<Rightarrow> Some h5 | Some c \<Rightarrow> set_prev h5 (Some c) (hind None (map top us))) = Some h'"
            "copy_of h (value_at h (Shape a ts)) h' (Shape (brk h) us)" by blast
        have "duplicate_item (Suc k) h (Some a) True = Some (Some (brk h), h')"
          using run True n5 h'(1) ok(3) by (auto simp: node_at_def split: option.splits)
        then show ?thesis using h'(2) by (metis shape.sel(1))
      qed
    qed
  qed
qed

end
