(* ===== verification/Editing.thy ===== *)
theory Editing
  imports Copy
begin

text \<open>
  Editing of child lists through an interface: the laws of the operations on pointers
  (\<open>child_list\<close>), the operations by index that the code builds from them (\<open>indexed_list\<close>), and
  their model, the functions of \<open>json/cJSON.c\<close> on the children of a node.  The properties say that
  the functions do to the heap what the operations of lists do to the list of children.
\<close>

section \<open>The interfaces\<close>

text \<open>An edit by index; beyond the end an insertion appends and a removal does nothing.\<close>

datatype 'e edit = Append 'e | Insert nat 'e | Remove nat

fun edit_list :: "'e edit \<Rightarrow> 'e list \<Rightarrow> 'e list" where
  "edit_list (Append x) xs = xs @ [x]"
| "edit_list (Insert k x) xs = take k xs @ x # drop k xs"
| "edit_list (Remove k) xs = take k xs @ drop (Suc k) xs"

text \<open>What an edit takes from the free elements \<open>F\<close> or gives back to them.\<close>

fun pool :: "'e edit \<Rightarrow> 'e list \<Rightarrow> 'e set \<Rightarrow> 'e set" where
  "pool (Append x) xs F = F - {x}"
| "pool (Insert k x) xs F = F - {x}"
| "pool (Remove k) xs F = (if k < length xs then insert (xs ! k) F else F)"

fun takes :: "'e edit \<Rightarrow> 'e set" where
  "takes (Append x) = {x}"
| "takes (Insert k x) = {x}"
| "takes (Remove k) = {}"

text \<open>Every edit adds an element that is free by then.\<close>

fun feasible :: "'e edit list \<Rightarrow> 'e list \<Rightarrow> 'e set \<Rightarrow> bool" where
  "feasible [] xs F = True"
| "feasible (e # es) xs F = (takes e \<subseteq> F \<and> feasible es (edit_list e xs) (pool e xs F))"

locale indexed_list =
  fixes rep :: "'s \<Rightarrow> 'e list \<Rightarrow> bool"
    and free :: "'s \<Rightarrow> 'e \<Rightarrow> bool"
    and run :: "'s \<Rightarrow> 'e edit \<Rightarrow> 's option"
  assumes run_edit: "rep s xs \<Longrightarrow> \<forall>x \<in> takes e. free s x \<and> x \<notin> set xs \<Longrightarrow> \<exists>s'. run s e = Some s' \<and>
      rep s' (edit_list e xs) \<and> (\<forall>y. y \<notin> set xs \<union> takes e \<longrightarrow> free s' y = free s y) \<and>
      (\<forall>y \<in> set xs - set (edit_list e xs). free s' y)"
    and rep_distinct: "rep s xs \<Longrightarrow> distinct xs"
begin

fun run_all :: "'s \<Rightarrow> 'e edit list \<Rightarrow> 's option" where
  "run_all s [] = Some s"
| "run_all s (e # es) = Option.bind (run s e) (\<lambda>s. run_all s es)"

lemma pool_step:
  assumes r: "rep s xs" "rep s' (edit_list e xs)" and t: "takes e \<subseteq> F"
    and f: "\<forall>x \<in> F. free s x \<and> x \<notin> set xs"
    and s': "\<forall>y. y \<notin> set xs \<union> takes e \<longrightarrow> free s' y = free s y" "\<forall>y \<in> set xs - set (edit_list e xs). free s' y"
  shows "\<forall>x \<in> pool e xs F. free s' x \<and> x \<notin> set (edit_list e xs)"
proof (cases e)
  case (Append x)
  then show ?thesis using s' f by auto
next
  case (Insert k x)
  then show ?thesis using s' f by (auto dest: in_set_takeD in_set_dropD)
next
  case (Remove k)
  show ?thesis
  proof (cases "k < length xs")
    case True
    then have "xs ! k \<notin> set (edit_list e xs)" using rep_distinct [OF r(1)] Remove
      by (auto simp: in_set_conv_nth nth_eq_iff_index_eq)
    then show ?thesis using True Remove s' f by (auto dest: in_set_takeD in_set_dropD)
  next
    case False
    then show ?thesis using Remove s' f by (auto dest: in_set_takeD in_set_dropD)
  qed
qed

lemma run_all_edits:
  "rep s xs \<Longrightarrow> \<forall>x \<in> F. free s x \<and> x \<notin> set xs \<Longrightarrow> feasible es xs F \<Longrightarrow>
   \<exists>s'. run_all s es = Some s' \<and> rep s' (fold edit_list es xs)"
proof (induction es arbitrary: s xs F)
  case (Cons e es)
  then have t: "takes e \<subseteq> F" by simp
  then have "\<forall>x \<in> takes e. free s x \<and> x \<notin> set xs" using Cons.prems(2) by blast
  from run_edit [OF Cons.prems(1) this] obtain s' where s': "run s e = Some s'" "rep s' (edit_list e xs)"
    "\<forall>y. y \<notin> set xs \<union> takes e \<longrightarrow> free s' y = free s y" "\<forall>y \<in> set xs - set (edit_list e xs). free s' y" by blast
  have "\<forall>x \<in> pool e xs F. free s' x \<and> x \<notin> set (edit_list e xs)"
    by (rule pool_step [OF Cons.prems(1) s'(2) t Cons.prems(2) s'(3,4)])
  from Cons.IH [OF s'(2) this] Cons.prems(3) s'(1) show ?case by simp
qed simp

end

text \<open>The operations on pointers, and those by index that are made of them.\<close>

locale child_list =
  fixes rep :: "'s \<Rightarrow> 'e list \<Rightarrow> bool"
    and free :: "'s \<Rightarrow> 'e \<Rightarrow> bool"
    and nth_of :: "'s \<Rightarrow> nat \<Rightarrow> 'e option option"
    and append_to :: "'s \<Rightarrow> 'e \<Rightarrow> 's option"
    and detach :: "'s \<Rightarrow> 'e \<Rightarrow> 's option"
    and put_before :: "'s \<Rightarrow> 'e \<Rightarrow> 'e \<Rightarrow> 's option"
  assumes nth_law: "rep s xs \<Longrightarrow> nth_of s k = Some (if k < length xs then Some (xs ! k) else None)"
    and append_law: "rep s xs \<Longrightarrow> free s x \<Longrightarrow> x \<notin> set xs \<Longrightarrow> \<exists>s'. append_to s x = Some s' \<and> rep s' (xs @ [x]) \<and>
      (\<forall>y. y \<notin> insert x (set xs) \<longrightarrow> free s' y = free s y)"
    and detach_law: "rep s (xs @ a # ys) \<Longrightarrow> \<exists>s'. detach s a = Some s' \<and> rep s' (xs @ ys) \<and> free s' a \<and>
      (\<forall>y. y \<notin> set (xs @ a # ys) \<longrightarrow> free s' y = free s y)"
    and before_law: "rep s (xs @ a # ys) \<Longrightarrow> free s x \<Longrightarrow> x \<notin> set (xs @ a # ys) \<Longrightarrow>
      \<exists>s'. put_before s a x = Some s' \<and> rep s' (xs @ x # a # ys) \<and>
      (\<forall>y. y \<notin> insert x (set (xs @ a # ys)) \<longrightarrow> free s' y = free s y)"
    and distinct_law: "rep s xs \<Longrightarrow> distinct xs"
begin

fun by_index :: "'s \<Rightarrow> 'e edit \<Rightarrow> 's option" where
  "by_index s (Append x) = append_to s x"
| "by_index s (Insert k x) =
     Option.bind (nth_of s k) (\<lambda>r. case r of None \<Rightarrow> append_to s x | Some a \<Rightarrow> put_before s a x)"
| "by_index s (Remove k) = Option.bind (nth_of s k) (\<lambda>r. case r of None \<Rightarrow> Some s | Some a \<Rightarrow> detach s a)"

lemma by_index_law:
  assumes r: "rep s xs" and f: "\<forall>x \<in> takes e. free s x \<and> x \<notin> set xs"
  shows "\<exists>s'. by_index s e = Some s' \<and> rep s' (edit_list e xs) \<and>
    (\<forall>y. y \<notin> set xs \<union> takes e \<longrightarrow> free s' y = free s y) \<and> (\<forall>y \<in> set xs - set (edit_list e xs). free s' y)"
proof (cases e)
  case (Append x)
  then show ?thesis using append_law [OF r, of x] f by auto
next
  case (Insert k x)
  show ?thesis
  proof (cases "k < length xs")
    case True
    note xs = id_take_nth_drop [OF True]
    obtain s' where "put_before s (xs ! k) x = Some s'" "rep s' (take k xs @ x # xs ! k # drop (Suc k) xs)"
      "\<forall>y. y \<notin> insert x (set xs) \<longrightarrow> free s' y = free s y"
      using before_law [of s "take k xs" "xs ! k" "drop (Suc k) xs" x] r f Insert xs by auto
    moreover have "edit_list e xs = take k xs @ x # xs ! k # drop (Suc k) xs"
      using True Insert by (simp add: Cons_nth_drop_Suc)
    moreover from this have "set xs \<subseteq> set (edit_list e xs)"
      using arg_cong [OF xs, of set] by auto
    ultimately show ?thesis using nth_law [OF r] True Insert by auto
  next
    case False
    then show ?thesis using append_law [OF r, of x] nth_law [OF r] f Insert by auto
  qed
next
  case (Remove k)
  show ?thesis
  proof (cases "k < length xs")
    case True
    note xs = id_take_nth_drop [OF True]
    obtain s' where s': "detach s (xs ! k) = Some s'" "rep s' (take k xs @ drop (Suc k) xs)" "free s' (xs ! k)"
      "\<forall>y. y \<notin> set xs \<longrightarrow> free s' y = free s y"
      using detach_law [of s "take k xs" "xs ! k" "drop (Suc k) xs"] r xs by auto
    have "set xs - set (edit_list e xs) \<subseteq> {xs ! k}" using Remove arg_cong [OF xs, of set] by auto
    then show ?thesis using nth_law [OF r] True Remove s' by auto
  next
    case False
    then show ?thesis using nth_law [OF r] r Remove by auto
  qed
qed

end

sublocale child_list \<subseteq> indexed_list rep free by_index
  by unfold_locales (fact by_index_law, fact distinct_law)

section \<open>The children of a node\<close>

definition can_join :: "nat \<Rightarrow> heap \<Rightarrow> nat \<Rightarrow> bool" where
  "can_join p h x \<longleftrightarrow> loose h x \<and> x \<noteq> p"

lemma relinked_loose: "relinked p A h h' \<Longrightarrow> y \<notin> A \<Longrightarrow> can_join p h' y = can_join p h y"
  by (auto simp: relinked_def can_join_def loose_def)

interpretation kids: child_list "\<lambda>h cs. kids h p cs" "can_join p" "\<lambda>h k. get_array_item h (Some p) k"
  "\<lambda>h x. map_option snd (add_item_to_array h (Some p) (Some x))"
  "\<lambda>h x. map_option snd (cJSON_DetachItemViaPointer h (Some p) (Some x))"
  "\<lambda>h a x. link_before h (Some p) (Some a) (Some x)" for p
proof (unfold_locales, goal_cases)
  case (1 s xs k)
  then show ?case by (rule get_array_item_kids)
next
  case (2 s xs x)
  then show ?case using add_kids [of s p xs x] relinked_loose by (fastforce simp: can_join_def)
next
  case (3 s xs a ys)
  have "a \<noteq> p" using 3 by (auto simp: kids_def)
  then show ?case using detach_kids [OF 3] relinked_loose by (fastforce simp: can_join_def)
next
  case (4 s xs a ys x)
  then obtain m where "nodes s x = Some m" "x \<noteq> p" by (auto simp: can_join_def loose_def)
  then show ?case using link_before_kids [OF 4(1) _ _ 4(3)] relinked_loose by (fastforce simp: can_join_def)
next
  case (5 s xs)
  then show ?case by (simp add: kids_def)
qed


section \<open>The editing functions by index\<close>

fun edit_array :: "nat \<Rightarrow> heap \<Rightarrow> nat edit \<Rightarrow> heap option" where
  "edit_array p h (Append x) = map_option snd (cJSON_AddItemToArray h (Some p) (Some x))"
| "edit_array p h (Insert k x) = map_option snd (cJSON_InsertItemInArray h (Some p) (int k) (Some x))"
| "edit_array p h (Remove k) = map_option snd (cJSON_DetachItemFromArray h (Some p) (int k))"

fun edit_array_all :: "nat \<Rightarrow> heap \<Rightarrow> nat edit list \<Rightarrow> heap option" where
  "edit_array_all p h [] = Some h"
| "edit_array_all p h (e # es) = Option.bind (edit_array p h e) (\<lambda>h. edit_array_all p h es)"

lemma edit_array_by_index: "edit_array p h e = kids.by_index p h e"
proof (cases e)
  case (Append x)
  then show ?thesis by (simp add: cJSON_AddItemToArray_def)
next
  case (Insert k x)
  then show ?thesis
    by (cases "get_array_item h (Some p) k")
      (auto simp: cJSON_InsertItemInArray_def map_option_bind comp_def simp del: bind_Some_iff split: option.splits)
next
  case (Remove k)
  have none: "cJSON_DetachItemViaPointer h (Some p) None = Some (None, h)"
    by (simp add: cJSON_DetachItemViaPointer_def)
  show ?thesis using Remove
    by (cases "get_array_item h (Some p) k") (auto simp: cJSON_DetachItemFromArray_def none simp del: bind_Some_iff split: option.splits)
qed

lemma edit_array_all_run: "edit_array_all p h es = kids.run_all p h es"
  by (induction es arbitrary: h) (simp_all add: edit_array_by_index cong: Option.bind_cong)

lemma array_size_kids:
  "kids h p cs \<Longrightarrow> cJSON_GetArraySize h (Some p) = Some (sint (word_of_nat (length cs) :: u32))"
  using kids_chain chain_length_eq by (fastforce simp: cJSON_GetArraySize_def)

section \<open>Replacing and deleting\<close>

lemma kids_erase:
  assumes "kids h p cs" "set A \<inter> insert p (set cs) = {}"
  shows "kids (erase h A B) p cs"
proof -
  have "nodes (erase h A B) a = nodes h a" if "a \<in> insert p (set cs)" for a
    using assms(2) that by (auto simp: erase_def restrict_map_def)
  then have "nodes (erase h A B) p = nodes h p" "links (nodes (erase h A B)) q cs e = links (nodes h) q cs e" for q e
    using links_cong [of cs "nodes (erase h A B)" "nodes h" q e] by blast+
  then show ?thesis using assms(1) by (simp add: kids_def)
qed

lemma relinked_texts: "relinked p A h h' \<Longrightarrow> texts h' = texts h"
  by (metis relinked_def heap.select_convs(2) heap.surjective heap.update_convs(1))

lemma relinked_text_at: "relinked p A h h' \<Longrightarrow> text_at h' t = text_at h t"
  using relinked_texts by (cases t) (auto simp: text_at_def)

lemma relinked_string:
  "relinked p A h h' \<Longrightarrow> a \<in> A \<Longrightarrow> nodes h a = Some n \<Longrightarrow> \<exists>n'. nodes h' a = Some n' \<and> nstring n' = nstring n"
  using content_of_eq [of h' a h n] by (auto simp: relinked_def)

text \<open>A tree whose root was taken out of the list of \<open>p\<close> can be deleted.\<close>

lemma delete_relinked:
  assumes r: "relinked p A h h1" and a: "top t \<in> A" "loose h1 (top t)" and f: "forest h [t]"
    and d: "set (all_addrs (subs t)) \<inter> insert p A = {}"
  shows "cJSON_Delete_at h1 (Some (top t)) = Some (erase h1 (addrs t) (blocks_at h t))"
proof -
  have "texts h1 = texts h" by (rule relinked_texts [OF r])
  moreover have "nodes h1 x = nodes h x" if "x \<in> set (all_addrs (subs t))" for x
  proof -
    have "x \<notin> insert p A" using d that by blast
    then show ?thesis using r by (simp add: relinked_def)
  qed
  ultimately have k: "kept_tree h h1 t" using r a(1) by (simp add: kept_tree_def kept_def relinked_def)
  have "owns h1 t" "blocks_at h1 t = blocks_at h t" using kept_owns [OF k] f by (auto simp: forest_def)
  then have "forest h1 [t]" using f by (simp add: forest_def)
  moreover have "chain (nodes h1) (Some (top t)) (map top [t])" using a(2) by (auto simp: loose_def)
  ultimately show ?thesis using delete_forest \<open>blocks_at h1 t = blocks_at h t\<close> by fastforce
qed


section \<open>The depth of a tree\<close>

text \<open>A tree that can be read is determined by its root, so the tops of subtrees of different depth
  are different and the depth is at most the number of addresses.\<close>

lemma views_unique: "views h t \<Longrightarrow> views h u \<Longrightarrow> top t = top u \<Longrightarrow> t = u"
proof (induction t arbitrary: u)
  case (Shape a ts)
  obtain us where u: "u = Shape a us" using Shape.prems(3) by (cases u) simp
  have "map top ts = map top us" using Shape.prems(1,2) u chain_unique by fastforce
  then have "length ts = length us" "\<And>i. i < length ts \<Longrightarrow> top (ts ! i) = top (us ! i)"
    by (metis length_map) (metis nth_map length_map \<open>map top ts = map top us\<close>)
  then have "ts = us" using Shape.IH Shape.prems(1,2) u by (intro nth_equalityI) auto
  then show ?case using u by simp
qed

lemma max_attained: "d < Suc (foldr max (map depth_of ts) 0) \<Longrightarrow> 0 < d \<Longrightarrow> \<exists>t \<in> set ts. d \<le> depth_of t"
  by (induction ts) (auto simp: less_Suc_eq_le le_max_iff_disj)

lemma views_depths: "views h t \<Longrightarrow> 0 < d \<Longrightarrow> d \<le> depth_of t \<Longrightarrow> \<exists>u. views h u \<and> depth_of u = d"
proof (induction t)
  case (Shape a ts)
  show ?case
  proof (cases "d = depth_of (Shape a ts)")
    case True
    then show ?thesis using Shape.prems(1) by blast
  next
    case False
    then obtain t where "t \<in> set ts" "d \<le> depth_of t" using Shape.prems(2,3) max_attained [of d ts] by auto
    then show ?thesis using Shape.IH Shape.prems(1,2) by simp
  qed
qed

lemma views_depth_le:
  assumes v: "views h t" and b: "bounded h"
  shows "depth_of t \<le> brk h"
proof -
  define sub where "sub d = (SOME u. views h u \<and> depth_of u = d)" for d
  have sub: "views h (sub d) \<and> depth_of (sub d) = d" if "d \<in> {1..depth_of t}" for d
    unfolding sub_def by (rule someI_ex) (use views_depths [OF v] that in auto)
  have "inj_on (\<lambda>d. top (sub d)) {1..depth_of t}"
    by (rule inj_onI) (metis sub views_unique)
  moreover have "(\<lambda>d. top (sub d)) ` {1..depth_of t} \<subseteq> {..<brk h}"
  proof
    fix a assume "a \<in> (\<lambda>d. top (sub d)) ` {1..depth_of t}"
    then obtain d where d: "d \<in> {1..depth_of t}" "a = top (sub d)" by blast
    then have "nodes h a \<noteq> None" using sub [OF d(1)] by (cases "sub d") auto
    then show "a \<in> {..<brk h}" using b by (meson bounded_def lessThan_iff not_le)
  qed
  ultimately have "card {1..depth_of t} \<le> card {..<brk h}" by (rule card_inj_on_le) simp
  then show ?thesis by simp
qed

section \<open>An example\<close>

text \<open>An array 0 with the children 1 and 2, the second with a string, and a node 3 that is in no list.\<close>

definition sample :: heap where
  "sample = \<lparr>nodes = [0 \<mapsto> zero_node\<lparr>nchild := Some 1, ntype := cJSON_Array\<rparr>,
       1 \<mapsto> zero_node\<lparr>nnext := Some 2, nprev := Some 2, ntype := cJSON_NULL\<rparr>,
       2 \<mapsto> zero_node\<lparr>nprev := Some 1, ntype := cJSON_String, nvaluestring := Block 4 0\<rparr>,
       3 \<mapsto> zero_node\<lparr>ntype := cJSON_True\<rparr>],
     texts = [4 \<mapsto> ''hi'' @ [NUL]], brk = 5,
     hmem = \<lparr>may_alloc = (\<lambda>_. True), tries = 0, live = 5, has_realloc = True, junk = (\<lambda>_. NUL)\<rparr>\<rparr>"

lemma sample_kids: "kids sample 0 [1, 2]" "can_join 0 sample 3"
  by (simp_all add: sample_def kids_def can_join_def loose_def zero_node_def)

section \<open>The properties\<close>

text \<open>C10: Every sequence of additions, insertions and removals by index, in which each added node is
  free at that time, is defined and does to the children of a node what it does to a list: the
  functions refine the operations of lists, and the list stays properly linked.\<close>

theorem array_edits_refine_lists:
  assumes "kids h p cs" and "\<forall>x \<in> F. can_join p h x \<and> x \<notin> set cs" and "feasible es cs F"
  shows "\<exists>h'. edit_array_all p h es = Some h' \<and> kids h' p (fold edit_list es cs)"
  unfolding edit_array_all_run by (rule kids.run_all_edits [OF assms])

theorem array_edits_refine_lists_witness:
  "\<exists>h'. edit_array_all 0 sample [Insert 1 3, Remove 0, Append 1] = Some h' \<and> kids h' 0 [3, 2, 1]"
  using array_edits_refine_lists [OF sample_kids(1), of "{3}" "[Insert 1 3, Remove 0, Append 1]"] sample_kids(2) by simp

text \<open>Reading by index and the size: an index outside the list gives null, and the size is the
  number of children while it fits an \<open>int\<close>.\<close>

theorem array_index_reads:
  assumes "kids h p cs"
  shows "cJSON_GetArrayItem h (Some p) i = Some (if 0 \<le> i \<and> nat i < length cs then Some (cs ! nat i) else None) \<and>
    (length cs < 2 ^ 31 \<longrightarrow> cJSON_GetArraySize h (Some p) = Some (int (length cs)))"
proof -
  have "sint (word_of_nat (length cs) :: u32) = int (length cs)" if "length cs < 2 ^ 31"
    using that by (simp add: signed_of_nat signed_take_bit_int_eq_self)
  then show ?thesis using array_size_kids [OF assms] get_array_item_kids [OF assms] by (simp add: cJSON_GetArrayItem_def)
qed

theorem array_index_reads_witness:
  "cJSON_GetArrayItem sample (Some 0) 1 = Some (Some 2) \<and> cJSON_GetArraySize sample (Some 0) = Some 2"
  using array_index_reads [OF sample_kids(1), of 1] by simp

text \<open>C11: Inserting a free node at an index and detaching what is at that index gives the node back
  and restores the list, whatever the list.\<close>

theorem insert_then_detach:
  assumes k: "kids h p cs" and x: "can_join p h x" "x \<notin> set cs" and i: "i \<le> length cs"
  shows "\<exists>h1 h2. cJSON_InsertItemInArray h (Some p) (int i) (Some x) = Some (True, h1) \<and>
    kids h1 p (take i cs @ x # drop i cs) \<and>
    cJSON_DetachItemFromArray h1 (Some p) (int i) = Some (Some x, h2) \<and> kids h2 p cs \<and> can_join p h2 x"
proof -
  have x': "loose h x" "x \<noteq> p" using x(1) by (auto simp: can_join_def)
  have ins: "\<exists>h1. cJSON_InsertItemInArray h (Some p) (int i) (Some x) = Some (True, h1) \<and> kids h1 p (take i cs @ x # drop i cs)"
  proof (cases "i < length cs")
    case True
    obtain m where m: "nodes h x = Some m" using x' by (auto simp: loose_def)
    note cs = id_take_nth_drop [OF True]
    have "kids h p (take i cs @ cs ! i # drop (Suc i) cs)" "x \<notin> set (take i cs @ cs ! i # drop (Suc i) cs)"
      using k x(2) cs by simp_all
    from link_before_kids [OF this(1) m x'(2) this(2)] show ?thesis
      using True get_array_item_kids [OF k] by (auto simp: cJSON_InsertItemInArray_def Cons_nth_drop_Suc)
  next
    case False
    then show ?thesis using i add_kids [OF k x' x(2)] get_array_item_kids [OF k]
      by (auto simp: cJSON_InsertItemInArray_def)
  qed
  then obtain h1 where h1: "cJSON_InsertItemInArray h (Some p) (int i) (Some x) = Some (True, h1)"
    "kids h1 p (take i cs @ x # drop i cs)" by blast
  from detach_kids [OF h1(2)] get_array_item_kids [OF h1(2), of i] x'(2) i h1 show ?thesis
    by (auto simp: cJSON_DetachItemFromArray_def can_join_def nth_append)
qed

theorem insert_then_detach_witness:
  "\<exists>h1 h2. cJSON_InsertItemInArray sample (Some 0) 1 (Some 3) = Some (True, h1) \<and> kids h1 0 [1, 3, 2] \<and>
    cJSON_DetachItemFromArray h1 (Some 0) 1 = Some (Some 3, h2) \<and> kids h2 0 [1, 2] \<and> can_join 0 h2 3"
  using insert_then_detach [OF sample_kids, of 1] by simp

text \<open>Deleting the element at an index removes it from the list and frees exactly its tree: its
  nodes and the strings that they own, each once; nothing else of the heap is freed.\<close>

theorem delete_from_array:
  assumes k: "kids h p (xs @ top t # ys)" and f: "forest h [t]"
    and d: "set (all_addrs (subs t)) \<inter> insert p (set (xs @ top t # ys)) = {}"
  shows "\<exists>h1. cJSON_DeleteItemFromArray h (Some p) (int (length xs)) = Some (erase h1 (addrs t) (blocks_at h t)) \<and>
    relinked p (set (xs @ top t # ys)) h h1 \<and> kids (erase h1 (addrs t) (blocks_at h t)) p (xs @ ys)"
proof -
  obtain h1 where h1: "cJSON_DetachItemViaPointer h (Some p) (Some (top t)) = Some (Some (top t), h1)" "kids h1 p (xs @ ys)"
    "relinked p (set (xs @ top t # ys)) h h1" "loose h1 (top t)" using detach_kids [OF k] by blast
  have "cJSON_Delete_at h1 (Some (top t)) = Some (erase h1 (addrs t) (blocks_at h t))"
    by (rule delete_relinked [OF h1(3) _ h1(4) f d]) simp
  moreover have "set (addrs t) \<inter> insert p (set (xs @ ys)) = {}"
    using d k by (cases t) (auto simp: kids_def)
  ultimately show ?thesis using kids_erase [OF h1(2)] h1(1,3) get_array_item_kids [OF k, of "length xs"]
    by (intro exI [of _ h1]) (simp add: cJSON_DeleteItemFromArray_def cJSON_DetachItemFromArray_def)
qed

lemma sample_forest: "forest sample [Shape 2 []]" "blocks_at sample (Shape 2 []) = [4]"
  by (simp_all add: forest_def sample_def zero_node_def own_texts_def node_blocks_def flag_def)

theorem delete_from_array_witness:
  "\<exists>h1. cJSON_DeleteItemFromArray sample (Some 0) 1 = Some (erase h1 [2] [4]) \<and>
    relinked 0 {1, 2} sample h1 \<and> kids (erase h1 [2] [4]) 0 [1]"
  using delete_from_array [of sample 0 "[1]" "Shape 2 []" "[]"] sample_kids(1) sample_forest by simp

text \<open>C12: Replacing an item puts the replacement at its place in the list and frees exactly the tree
  of the item.\<close>

theorem replace_via_pointer:
  assumes k: "kids h p (xs @ top t # ys)" and f: "forest h [t]" and x: "can_join p h x" "x \<notin> set (xs @ top t # ys)"
    and d: "set (all_addrs (subs t)) \<inter> insert p (insert x (set (xs @ top t # ys))) = {}"
  shows "\<exists>h1. cJSON_ReplaceItemViaPointer h (Some p) (Some (top t)) (Some x) = Some (True, erase h1 (addrs t) (blocks_at h t)) \<and>
    relinked p (insert x (set (xs @ top t # ys))) h h1 \<and> kids (erase h1 (addrs t) (blocks_at h t)) p (xs @ x # ys)"
proof -
  obtain m where m: "nodes h x = Some m" "x \<noteq> p" using x(1) by (auto simp: can_join_def loose_def)
  obtain h1 where h1: "link_instead h (Some p) (Some (top t)) (Some x) = Some h1" "kids h1 p (xs @ x # ys)"
    "relinked p (insert x (set (xs @ top t # ys))) h h1" "loose h1 (top t)"
    using link_instead_kids [OF k m x(2)] by blast
  have "cJSON_Delete_at h1 (Some (top t)) = Some (erase h1 (addrs t) (blocks_at h t))"
    by (rule delete_relinked [OF h1(3) _ h1(4) f d]) simp
  moreover have "set (addrs t) \<inter> insert p (set (xs @ x # ys)) = {}"
    using d k x m(2) by (cases t) (auto simp: kids_def)
  ultimately show ?thesis using kids_erase [OF h1(2)] h1(1,3) x(2)
    by (intro exI [of _ h1]) (auto simp: cJSON_ReplaceItemViaPointer_def)
qed

theorem replace_via_pointer_witness:
  "\<exists>h1. cJSON_ReplaceItemViaPointer sample (Some 0) (Some 2) (Some 3) = Some (True, erase h1 [2] [4]) \<and>
    relinked 0 {3, 1, 2} sample h1 \<and> kids (erase h1 [2] [4]) 0 [1, 3]"
  using replace_via_pointer [of sample 0 "[1]" "Shape 2 []" "[]" 3] sample_kids sample_forest by simp

text \<open>C13: \<open>cJSON_Delete\<close> of a list of trees that share nothing frees every node and every owned
  string of them, each once, and nothing else.\<close>

theorem delete_frees_exactly:
  assumes "forest h ts" and "chain (nodes h) p (map top ts)"
  shows "cJSON_Delete_at h p = Some (erase h (all_addrs ts) (all_blocks h ts))"
  by (rule delete_forest [OF assms])

theorem delete_frees_exactly_witness: "cJSON_Delete_at sample (Some 2) = Some (erase sample [2] [4])"
  using delete_frees_exactly [OF sample_forest(1), of "Some 2"] sample_forest(2)
  by (simp add: sample_def zero_node_def)

text \<open>C14: With enough memory \<open>cJSON_Duplicate\<close> returns a copy of the tree: made of new nodes and
  blocks only, which it owns, properly linked, with the same values and without reference flags;
  when memory runs out it returns null and keeps nothing.\<close>

theorem duplicate_copies:
  assumes "views h t" and "bounded h"
  shows "\<exists>r h'. cJSON_Duplicate h (Some (top t)) True = Some (r, h') \<and>
     (r = None \<and> grew h h' [] [] \<and> \<not> (\<forall>i. may_alloc (hmem h) i) \<or>
      (\<exists>t'. r = Some (top t') \<and> copy_of h (value_at h t) h' t'))"
  using duplicate_item_copies [OF _ assms(2,1), of "depth_fuel h"] views_depth_le [OF assms]
  by (simp add: duplicates_def cJSON_Duplicate_def depth_fuel_def)

theorem duplicate_copies_witness:
  "\<exists>h' t'. cJSON_Duplicate sample (Some 0) True = Some (Some (top t'), h') \<and>
    copy_of sample (value_at sample (Shape 0 [Shape 1 [], Shape 2 []])) h' t'"
proof -
  have "views sample (Shape 0 [Shape 1 [], Shape 2 []])" "bounded sample"
    by (auto simp: sample_def zero_node_def text_at_def strlen_at_def cstring_def bounded_def)
  from duplicate_copies [OF this] show ?thesis by (auto simp: sample_def)
qed

end
