(* ===== verification/Members.thy ===== *)
theory Members
  imports Editing
begin

text \<open>
  Members of objects: the look-up by name, and the nine functions of \<open>json/cJSON.c\<close> that create an
  item and add it to an object, through one interface for their constructors.
\<close>

section \<open>Constructors\<close>

text \<open>A new node \<open>x\<close> without name that stands for \<open>v\<close>, finished apart from its list.\<close>

definition made :: "heap \<Rightarrow> cJSON \<Rightarrow> heap \<Rightarrow> nat \<Rightarrow> bool" where
  "made h v h1 x \<longleftrightarrow> (\<exists>M. partial h M h1 x [] \<and> nstring M = Null \<and> \<not> flag M cJSON_StringIsConst \<and>
     value_at h1 (Shape x []) = v)"

locale constructor =
  fixes create :: "heap \<Rightarrow> (ptr \<times> heap) option"
    and makes :: "heap \<Rightarrow> cJSON \<Rightarrow> bool"
  assumes create_law: "bounded h \<Longrightarrow> makes h v \<Longrightarrow> \<exists>r h1. create h = Some (r, h1) \<and>
    (r = None \<and> grew h h1 [] [] \<and> \<not> (\<forall>i. may_alloc (hmem h) i) \<or> (\<exists>x. r = Some x \<and> made h v h1 x))"

lemma text_at_none: "text_at h Null = Some None"
  by (simp add: text_at_def)

text \<open>Constructors that only fill fields of the new node.\<close>

lemma filled_made:
  assumes b: "bounded h"
    and M: "nnext (f zero_node) = None" "nprev (f zero_node) = None" "nchild (f zero_node) = None"
      "nstring (f zero_node) = Null" "nvaluestring (f zero_node) = Null"
    and fl: "\<not> flag (f zero_node) cJSON_IsReference" "\<not> flag (f zero_node) cJSON_StringIsConst"
    and v: "v = Item (ntype (f zero_node)) None (nvalueint (f zero_node)) (nvaluedouble (f zero_node)) None []"
  shows "\<exists>r h1. create_with (filled f) h = Some (r, h1) \<and>
    (r = None \<and> grew h h1 [] [] \<and> \<not> (\<forall>i. may_alloc (hmem h) i) \<or> (\<exists>x. r = Some x \<and> made h v h1 x))"
proof (rule new_node_cases [OF b])
  fix h1 assume "new_node h = (None, h1)" "grew h h1 [] []" "\<not> (\<forall>i. may_alloc (hmem h) i)"
  then show ?thesis by (simp add: create_with_def)
next
  fix h1 assume h1: "new_node h = (Some (brk h), h1)" "grew h h1 [brk h] []" "nodes h1 = (nodes h)(brk h \<mapsto> zero_node)" "texts h1 = texts h"
  define M where "M = f zero_node"
  note M = M [folded M_def] fl [folded M_def]
  let ?h = "h1\<lparr>nodes := (nodes h1)(brk h \<mapsto> M)\<rparr>"
  have own: "own_texts M = [Null, Null]" "node_blocks M = []"
    using M by (simp_all add: own_texts_def node_blocks_def)
  have "M\<lparr>nchild := None\<rparr> = M" using M(3) by (cases M) simp
  then have "partial h M ?h (brk h) []" using grew_change [OF h1(2), of "brk h" zero_node M] h1(3) M own
    by (simp add: partial_Nil text_at_def)
  moreover have "value_at ?h (Shape (brk h) []) = v" using v M by (simp add: text_at_def M_def)
  ultimately have "made h v ?h (brk h)" using M by (auto simp: made_def)
  then show ?thesis using h1(1,3) by (simp add: create_with_def filled_def change_def M_def)
qed

lemmas plain_simps = zero_node_def flag_def

interpretation null: constructor cJSON_CreateNull "\<lambda>h v. v = Item cJSON_NULL None 0 zero_double None []"
  unfolding cJSON_CreateNull_def by unfold_locales (rule filled_made; simp add: plain_simps)

interpretation true: constructor cJSON_CreateTrue "\<lambda>h v. v = Item cJSON_True None 0 zero_double None []"
  unfolding cJSON_CreateTrue_def by unfold_locales (rule filled_made; simp add: plain_simps)

interpretation false: constructor cJSON_CreateFalse "\<lambda>h v. v = Item cJSON_False None 0 zero_double None []"
  unfolding cJSON_CreateFalse_def by unfold_locales (rule filled_made; simp add: plain_simps)

interpretation bool: constructor "cJSON_CreateBool b"
  "\<lambda>h v. v = Item (if b then cJSON_True else cJSON_False) None 0 zero_double None []" for b
  unfolding cJSON_CreateBool_def by unfold_locales (rule filled_made; simp add: plain_simps)

interpretation object: constructor cJSON_CreateObject "\<lambda>h v. v = Item cJSON_Object None 0 zero_double None []"
  unfolding cJSON_CreateObject_def by unfold_locales (rule filled_made; simp add: plain_simps)

interpretation array: constructor cJSON_CreateArray "\<lambda>h v. v = Item cJSON_Array None 0 zero_double None []"
  unfolding cJSON_CreateArray_def by unfold_locales (rule filled_made; simp add: plain_simps)

text \<open>The saturation of NaN is undefined, so a number has a condition.\<close>

interpretation number: constructor "cJSON_CreateNumber d"
  "\<lambda>h v. \<exists>i. saturate d = Some i \<and> v = Item cJSON_Number None i d None []" for d
proof (unfold_locales, elim exE conjE, goal_cases)
  case (1 h v i)
  then have "cJSON_CreateNumber d h =
      create_with (filled (\<lambda>n. n\<lparr>ntype := cJSON_Number, nvaluedouble := d, nvalueint := i\<rparr>)) h"
    by (simp add: cJSON_CreateNumber_def create_with_def split: prod.splits option.splits)
  then show ?case using 1 by (simp only:) (rule filled_made; simp add: plain_simps)
qed

text \<open>A copy of a string, or nothing: an item whose string could not be copied is deleted.\<close>

lemma create_text_made:
  assumes b: "bounded h" and s: "text_at h t = Some (Some s)"
    and ty: "ty AND cJSON_IsReference = 0" "ty AND cJSON_StringIsConst = 0"
    and v: "v = Item ty (Some s) 0 zero_double None []"
  shows "\<exists>r h1. create_text ty t h = Some (r, h1) \<and>
    (r = None \<and> grew h h1 [] [] \<and> \<not> (\<forall>i. may_alloc (hmem h) i) \<or> (\<exists>x. r = Some x \<and> made h v h1 x))"
proof (rule new_node_cases [OF b])
  fix h1 assume "new_node h = (None, h1)" "grew h h1 [] []" "\<not> (\<forall>i. may_alloc (hmem h) i)"
  then show ?thesis by (simp add: create_text_def create_with_def)
next
  fix h1 assume h1: "new_node h = (Some (brk h), h1)" "grew h h1 [brk h] []" "nodes h1 = (nodes h)(brk h \<mapsto> zero_node)" "texts h1 = texts h"
  let ?M = "zero_node\<lparr>ntype := ty\<rparr>"
  have own: "own_texts ?M = [Null, Null]" "node_blocks ?M = []" "\<not> flag ?M cJSON_IsReference" "\<not> flag ?M cJSON_StringIsConst"
    using ty by (simp_all add: own_texts_def node_blocks_def plain_simps)
  have s1: "text_at h1 t = Some (Some s)" using s h1(4) by (cases t) (simp_all add: text_at_def)
  let ?h1 = "h1\<lparr>nodes := (nodes h1)(brk h \<mapsto> ?M)\<rparr>"
  have p1: "partial h ?M ?h1 (brk h) []"
    using grew_change [OF h1(2), of "brk h" zero_node ?M] h1(3) own by (simp add: partial_Nil text_at_def zero_node_def)
  have b1: "bounded ?h1" by (rule partial_bounded [OF p1])
  have old: "new_text h1 (s @ [NUL]) = (c, h2\<lparr>nodes := nodes h1\<rparr>)" if "new_text ?h1 (s @ [NUL]) = (c, h2)" for c h2
    using that by (auto simp: new_text_def split: prod.splits bool.splits)
  show ?thesis
  proof (rule new_text_cases [OF b1, of "s @ [NUL]"])
    fix h2 assume h2: "new_text ?h1 (s @ [NUL]) = (Null, h2)" "grew ?h1 h2 [] []" "nodes h2 = nodes ?h1" "\<not> (\<forall>i. may_alloc (hmem ?h1) i)"
    have g: "grew h ?h1 [brk h] []" using p1 own by (simp add: partial_Nil)
    have "grew h h2 [brk h] []" by (rule grew_trans [OF g h2(2)]) auto
    then have "partial h ?M h2 (brk h) []" using own h2(3) by (simp add: partial_Nil text_at_def zero_node_def)
    from partial_undo [OF this b] obtain h' where "cJSON_Delete_at h2 (Some (brk h)) = Some h'" "grew h h' [] []" by blast
    moreover have "\<not> (\<forall>i. may_alloc (hmem h) i)"
      using h2(4) grew_mem [OF h1(2)] by (simp add: same_hooks_def)
    moreover have "h2\<lparr>nodes := (nodes h1)(brk h \<mapsto> zero_node\<lparr>ntype := ty, nvaluestring := Null\<rparr>)\<rparr> = h2"
      using h2(3) by (cases h2) (simp add: zero_node_def)
    ultimately show ?thesis using h1(1,3) old [OF h2(1)] s1
      by (simp add: create_text_def create_with_def cJSON_strdup_def change_def)
  next
    fix h2 assume h2: "new_text ?h1 (s @ [NUL]) = (Block (brk ?h1) 0, h2)" "grew ?h1 h2 [] [brk ?h1]" "nodes h2 = nodes ?h1"
      "texts h2 = (texts ?h1)(brk ?h1 \<mapsto> s @ [NUL])"
    let ?M' = "?M\<lparr>nvaluestring := Block (brk h1) 0\<rparr>"
    let ?h = "h2\<lparr>nodes := (nodes h2)(brk h \<mapsto> ?M'\<lparr>nchild := None\<rparr>)\<rparr>"
    have "partial h ?M' ?h (brk h) []"
      by (rule partial_new_text [OF p1 text_at_nulfree [OF s] h2]) (simp add: zero_node_def)
    moreover have "value_at ?h (Shape (brk h) []) = v"
      using text_at_new [OF text_at_nulfree [OF s], of ?h "brk h1"] h2(4) v by (simp add: zero_node_def text_at_none)
    ultimately have "made h v ?h (brk h)" using own by (auto simp: made_def zero_node_def flag_def)
    then show ?thesis using h1(1,3) h2(3) old [OF h2(1)] s1
      by (simp add: create_text_def create_with_def cJSON_strdup_def change_def zero_node_def)
  qed
qed

interpretation string: constructor "cJSON_CreateString t"
  "\<lambda>h v. \<exists>s. text_at h t = Some (Some s) \<and> v = Item cJSON_String (Some s) 0 zero_double None []" for t
  unfolding cJSON_CreateString_def by unfold_locales (elim exE conjE, rule create_text_made; simp)

interpretation raw: constructor "cJSON_CreateRaw t"
  "\<lambda>h v. \<exists>s. text_at h t = Some (Some s) \<and> v = Item cJSON_Raw (Some s) 0 zero_double None []" for t
  unfolding cJSON_CreateRaw_def by unfold_locales (elim exE conjE, rule create_text_made; simp)


section \<open>Creating and adding\<close>

text \<open>The name that the new member gets.\<close>

fun with_name :: "string \<Rightarrow> cJSON \<Rightarrow> cJSON" where
  "with_name s (Item t vs vi vd _ cs) = Item t vs vi vd (Some s) cs"

text \<open>The new member \<open>x\<close> stands for \<open>v\<close> under the name \<open>s\<close>, owns its strings, and is the last of
  the children of \<open>p\<close>; of the old nodes only the links of those children have changed.\<close>

definition member_added :: "heap \<Rightarrow> nat \<Rightarrow> nat list \<Rightarrow> string \<Rightarrow> cJSON \<Rightarrow> heap \<Rightarrow> nat \<Rightarrow> bool" where
  "member_added h p cs s v h' x \<longleftrightarrow> kids h' p (cs @ [x]) \<and> value_at h' (Shape x []) = with_name s v \<and>
     forest h' [Shape x []] \<and> views h' (Shape x []) \<and>
     (\<exists>h1. grew h h1 [x] (blocks_at h' (Shape x [])) \<and> relinked p (insert x (set cs)) h1 h')"

lemma flag_clear: "t AND f = 0 \<Longrightarrow> t AND NOT f = (t :: u32)"
  by (rule bit_word_eqI) (auto simp: bit_and_iff bit_not_iff dest: arg_cong [of _ _ "\<lambda>w. bit w n" for n])

lemma kids_grew:
  assumes k: "kids h p cs" and g: "grew h h' A B" and b: "bounded h"
  shows "kids h' p cs"
proof -
  have d: "nodes h a \<noteq> None" if "a \<in> insert p (set cs)" for a
    using k that links_dom by (fastforce simp: kids_def)
  then have same: "nodes h' a = nodes h a" if "a \<in> insert p (set cs)" for a
    using grew_old [OF g] bounded_lt(1) [OF b] that by blast
  have "links (nodes h') q cs e = links (nodes h) q cs e" for q e by (rule links_cong) (simp add: same)
  then show ?thesis using k same by (simp add: kids_def)
qed

lemma relinked_single:
  assumes r: "relinked p A h h'" and x: "x \<in> A" and v: "views h (Shape x [])" "owns h (Shape x [])"
  shows "views h' (Shape x [])" "value_at h' (Shape x []) = value_at h (Shape x [])" "owns h' (Shape x [])"
    "blocks_at h' (Shape x []) = blocks_at h (Shape x [])"
proof -
  have "texts h' = texts h" by (rule relinked_texts [OF r])
  then have k: "kept_tree h h' (Shape x [])" using r x by (simp add: kept_tree_def kept_def relinked_def)
  show "views h' (Shape x [])" "value_at h' (Shape x []) = value_at h (Shape x [])" "owns h' (Shape x [])"
    "blocks_at h' (Shape x []) = blocks_at h (Shape x [])"
    using kept_views [OF k v(1)] kept_owns [OF k v(2)] by blast+
qed

lemma add_made:
  assumes m: "made h v h1 x" and b: "bounded h" and k: "kids h p cs" and name: "text_at h name = Some (Some s)"
  shows "\<exists>ok h'. add_item_to_object h1 (Some p) name (Some x) False = Some (ok, h') \<and>
    (ok \<and> member_added h p cs s v h' x \<or>
     \<not> ok \<and> \<not> (\<forall>i. may_alloc (hmem h) i) \<and> (\<exists>h2. cJSON_Delete_at h' (Some x) = Some h2 \<and> grew h h2 [] []))"
proof -
  obtain M where M: "partial h M h1 x []" "nstring M = Null" "\<not> flag M cJSON_StringIsConst" "value_at h1 (Shape x []) = v"
    using m by (auto simp: made_def)
  have g: "grew h h1 [x] (node_blocks M)" and n: "nodes h1 x = Some (M\<lparr>nchild := None\<rparr>)" and ref: "\<not> flag M cJSON_IsReference"
    using M(1) by (simp_all add: partial_Nil)
  have b1: "bounded h1" by (rule partial_bounded [OF M(1)])
  have px: "p \<noteq> x" "x \<notin> set cs"
  proof -
    have "brk h \<le> x" using grew_range [OF g, of x] by simp
    moreover have "nodes h a \<noteq> None" if "a \<in> insert p (set cs)" for a
      using k that links_dom by (fastforce simp: kids_def)
    ultimately show "p \<noteq> x" "x \<notin> set cs" using bounded_lt(1) [OF b] by (metis insertI1 insertI2 not_le)+
  qed
  have nm: "text_at h1 name = Some (Some s)" "name \<noteq> Null"
    using kept_text [OF grew_kept [OF g b], of name] name by (auto simp: text_at_def)
  show ?thesis
  proof (rule new_text_cases [OF b1, of "s @ [NUL]"])
    fix h2 assume h2: "new_text h1 (s @ [NUL]) = (Null, h2)" "grew h1 h2 [] []" "nodes h2 = nodes h1" "\<not> (\<forall>i. may_alloc (hmem h1) i)"
    have "grew h h2 [x] (node_blocks M)" by (rule grew_trans [OF g h2(2)]) auto
    moreover have "kept h1 h2 {}" using grew_kept [OF h2(2) b1] by (rule kept_mono) simp
    ultimately have "partial h M h2 x []" using M(1) n h2(3) kept_text [of h1 h2 "{}"] kept_freeable [of h1 h2 "{}"]
      by (simp add: partial_Nil del: not_None_eq)
    note undo = partial_undo [OF this b]
    show ?thesis using undo h2(1,4) nm px grew_mem [OF g]
      by (intro exI [of _ False] exI [of _ h2]) (simp add: add_item_to_object_def cJSON_strdup_def same_hooks_def)
  next
    fix h2 assume h2: "new_text h1 (s @ [NUL]) = (Block (brk h1) 0, h2)" "grew h1 h2 [] [brk h1]" "nodes h2 = nodes h1"
      "texts h2 = (texts h1)(brk h1 \<mapsto> s @ [NUL])"
    define M' where "M' = M\<lparr>nstring := Block (brk h1) 0\<rparr>"
    define h3 where "h3 = h2\<lparr>nodes := (nodes h2)(x \<mapsto> M'\<lparr>nchild := None\<rparr>)\<rparr>"
    have p3: "partial h M' h3 x []" unfolding h3_def
      by (rule partial_new_text [OF M(1) text_at_nulfree [OF name] h2]) (simp add: M'_def M)
    have g3: "grew h h3 [x] (node_blocks M')" using p3 by (simp add: partial_Nil)
    have f3: "forest h3 [Shape x []]" "views h3 (Shape x [])"
      using p3 by (auto simp: partial_def)
    have "kept h1 h3 {}" using h2(4) bounded_lt(2) [OF b1, of "brk h1"] by (auto simp: kept_def h3_def)
    then have "text_at h3 (nvaluestring M) = text_at h1 (nvaluestring M)"
      using M(1) kept_text by (simp add: partial_Nil)
    moreover have "text_at h3 (Block (brk h1) 0) = Some (Some s)"
      by (rule text_at_new [OF text_at_nulfree [OF name]]) (simp add: h3_def h2(4))
    ultimately have v3: "value_at h3 (Shape x []) = with_name s v"
      using M(4) n by (auto simp: h3_def M'_def)
    have lo: "loose h3 x" using M(1) by (simp add: loose_def h3_def M'_def partial_Nil)
    obtain h' where h': "add_item_to_array h3 (Some p) (Some x) = Some (True, h')" "kids h' p (cs @ [x])"
      "relinked p (insert x (set cs)) h3 h'"
      using add_kids [OF kids_grew [OF k g3 b] lo] px by auto
    have "M'\<lparr>nchild := None\<rparr> = M\<lparr>nchild := None, nstring := Block (brk h1) 0, ntype := ntype M AND NOT cJSON_StringIsConst\<rparr>"
      using flag_clear [of "ntype M" cJSON_StringIsConst] M(3) by (simp add: M'_def flag_def)
    then have run: "add_item_to_object h1 (Some p) name (Some x) False = Some (True, h')"
      using h2(1,3) nm px h'(1) n M(2,3)
      by (simp add: add_item_to_object_def cJSON_strdup_def node_at_def change_def Let_def h3_def)
    have o3: "owns h3 (Shape x [])" using f3(1) by (simp add: forest_def)
    note rs = relinked_single [OF h'(3) _ f3(2) o3]
    have "blocks_at h3 (Shape x []) = node_blocks M'" using p3 partial_forest(5) by fastforce
    then have "member_added h p cs s v h' x" using h'(2,3) rs v3 g3 f3(1) unfolding member_added_def forest_def by auto
    then show ?thesis using run by blast
  qed
qed

context constructor begin

text \<open>Creating and adding: the member is there, or nothing has changed but the use of memory.\<close>

lemma add_created_law:
  assumes b: "bounded h" and v: "makes h v" and k: "kids h p cs" and name: "text_at h name = Some (Some s)"
  shows "\<exists>r h'. add_created create h (Some p) name = Some (r, h') \<and>
    (r = None \<and> grew h h' [] [] \<and> \<not> (\<forall>i. may_alloc (hmem h) i) \<or> (\<exists>x. r = Some x \<and> member_added h p cs s v h' x))"
proof -
  obtain r h1 where c: "create h = Some (r, h1)"
    "r = None \<and> grew h h1 [] [] \<and> \<not> (\<forall>i. may_alloc (hmem h) i) \<or> (\<exists>x. r = Some x \<and> made h v h1 x)"
    using create_law [OF b v] by blast
  show ?thesis
  proof (cases r)
    case None
    have "add_created create h (Some p) name = Some (None, h1)" using c(1) None
      by (subst add_created_def) (simp add: add_item_to_object_def cJSON_Delete_at.simps)
    then show ?thesis using c(2) None by auto
  next
    case (Some x)
    then have "made h v h1 x" using c(2) by simp
    from add_made [OF this b k name] show ?thesis using c(1) Some
      by (fastforce simp: add_created_def)
  qed
qed

end


section \<open>Looking up a member\<close>

text \<open>The outcome of creating and adding.\<close>

definition add_outcome :: "heap \<Rightarrow> nat \<Rightarrow> nat list \<Rightarrow> string \<Rightarrow> cJSON \<Rightarrow> (ptr \<times> heap) option \<Rightarrow> bool" where
  "add_outcome h p cs s v result \<longleftrightarrow> (\<exists>r h'. result = Some (r, h') \<and>
     (r = None \<and> grew h h' [] [] \<and> \<not> (\<forall>i. may_alloc (hmem h) i) \<or> (\<exists>x. r = Some x \<and> member_added h p cs s v h' x)))"

text \<open>The names of the old children are as they were.\<close>

lemma member_added_keys:
  assumes m: "member_added h p cs s v h' x" and b: "bounded h" and a: "a \<in> set cs" "named h a"
  shows "named h' a \<and> key_of h' a = key_of h a"
proof -
  obtain h1 B where h1: "grew h h1 [x] B" "relinked p (insert x (set cs)) h1 h'" using m by (auto simp: member_added_def)
  obtain n where n: "nodes h a = Some n" "text_at h (nstring n) \<noteq> None" using a(2) by (auto simp: named_def)
  have k: "kept h h1 {a}" using grew_kept [OF h1(1) b] n(1) by (auto intro: kept_mono)
  then have "nodes h1 a = Some n" using n(1) by (simp add: kept_def)
  then obtain n' where "nodes h' a = Some n'" "nstring n' = nstring n" using relinked_string [OF h1(2)] a(1) by blast
  then show ?thesis using n kept_text [OF k n(2)] relinked_text_at [OF h1(2)] by (auto simp: named_def key_of_def)
qed

lemma member_added_new:
  assumes m: "member_added h p cs s v h' x"
  shows "named h' x \<and> key_of h' x = Some s"
proof -
  have v: "value_at h' (Shape x []) = with_name s v" and w: "views h' (Shape x [])"
    using m by (simp_all add: member_added_def)
  obtain n where n: "nodes h' x = Some n" "text_at h' (nstring n) \<noteq> None" using w by auto
  then have "the (text_at h' (nstring n)) = Some s" using v by (cases v) auto
  then show ?thesis using n by (simp add: named_def key_of_def)
qed


lemma member_added_name:
  assumes m: "member_added h p cs s v h' x" and b: "bounded h" and name: "text_at h name \<noteq> None"
  shows "text_at h' name = text_at h name"
proof -
  obtain h1 B where h1: "grew h h1 [x] B" "relinked p (insert x (set cs)) h1 h'" using m by (auto simp: member_added_def)
  show ?thesis using kept_text [OF grew_kept [OF h1(1) b] name] relinked_text_at [OF h1(2)] by simp
qed

lemma same_name_refl: "same_name b s s"
  by (simp add: same_name_def)

lemma member_added_found:
  assumes m: "member_added h p cs s v h' x" and b: "bounded h" and name: "text_at h name = Some (Some s)"
    and old: "\<forall>a \<in> set cs. named h a \<and> (\<exists>k. key_of h a = Some k \<and> \<not> same_name c s k)"
  shows "get_object_item h' (Some p) name c = Some (Some x)"
proof -
  let ?P = "\<lambda>a. case key_of h' a of None \<Rightarrow> c | Some k \<Rightarrow> same_name c s k"
  note x = member_added_new [OF m]
  have "named h' a \<and> \<not> ?P a" if "a \<in> set cs" for a
    using member_added_keys [OF m b that] old that by fastforce
  then have n: "find ?P cs = None" "\<forall>a \<in> set (cs @ [x]). named h' a" using x by (auto simp: find_None_iff)
  then have "selected h' c s (cs @ [x]) = Some x" using x by (simp add: selected_def same_name_refl find_append)
  then show ?thesis
    using get_object_item_kids [of h' p "cs @ [x]" name s c] m member_added_name [OF m b] name n(2)
    by (simp add: member_added_def)
qed

section \<open>An example\<close>

text \<open>An object 0 with one member 1, null, of the name \<open>Ab\<close>.\<close>

definition sample_object :: heap where
  "sample_object = \<lparr>nodes = [0 \<mapsto> zero_node\<lparr>nchild := Some 1, ntype := cJSON_Object\<rparr>,
       1 \<mapsto> zero_node\<lparr>nprev := Some 1, ntype := cJSON_NULL, nstring := Block 2 0\<rparr>],
     texts = [2 \<mapsto> ''Ab'' @ [NUL]], brk = 3,
     hmem = \<lparr>may_alloc = (\<lambda>_. True), tries = 0, live = 3, has_realloc = True, junk = (\<lambda>_. NUL)\<rparr>\<rparr>"

lemma sample_object_facts:
  "kids sample_object 0 [1]" "bounded sample_object" "named sample_object 1" "key_of sample_object 1 = Some ''Ab''"
  "text_at sample_object (Const s) = Some (Some (cstring s))" "may_alloc (hmem sample_object) i"
  by (auto simp: sample_object_def kids_def zero_node_def bounded_def named_def key_of_def text_at_def strlen_at_def cstring_def)

section \<open>The properties\<close>

text \<open>C15: Looking up a name in an object selects the first child of that name; with case, the search
  ends at a child without a name, without case it passes over it.\<close>

theorem object_lookup:
  assumes "kids h p cs" and "\<forall>a \<in> set cs. named h a" and "text_at h name = Some (Some s)"
  shows "cJSON_GetObjectItem h (Some p) name = Some (selected h False s cs) \<and>
    cJSON_GetObjectItemCaseSensitive h (Some p) name = Some (selected h True s cs) \<and>
    cJSON_HasObjectItem h (Some p) name = Some (selected h False s cs \<noteq> None)"
  by (simp add: cJSON_HasObjectItem_def cJSON_GetObjectItem_def cJSON_GetObjectItemCaseSensitive_def
    get_object_item_kids [OF assms] del: not_None_eq)

theorem object_lookup_witness:
  "cJSON_GetObjectItem sample_object (Some 0) (Const ''aB'') = Some (Some 1) \<and>
    cJSON_GetObjectItemCaseSensitive sample_object (Some 0) (Const ''aB'') = Some None"
proof -
  have names: "same_name False ''aB'' ''Ab''" "\<not> same_name True ''aB'' ''Ab''" by code_simp+
  show ?thesis
    using object_lookup [OF sample_object_facts(1), of "Const ''aB''" "''aB''"] sample_object_facts names
    by (simp add: cstring_def selected_def)
qed

text \<open>C16: Each of the nine functions that create an item and add it to an object either returns the
  new member, the last child, with its value, its own copy of the name and its own strings, or returns
  null, has changed no node or string and has kept no memory; the latter only when memory is short.\<close>

theorem add_to_object_outcome:
  assumes "bounded h" and "kids h p cs" and "text_at h name = Some (Some s)"
  shows "add_outcome h p cs s (Item cJSON_NULL None 0 zero_double None []) (cJSON_AddNullToObject h (Some p) name) \<and>
    add_outcome h p cs s (Item cJSON_True None 0 zero_double None []) (cJSON_AddTrueToObject h (Some p) name) \<and>
    add_outcome h p cs s (Item cJSON_False None 0 zero_double None []) (cJSON_AddFalseToObject h (Some p) name) \<and>
    add_outcome h p cs s (Item (if b then cJSON_True else cJSON_False) None 0 zero_double None [])
      (cJSON_AddBoolToObject b h (Some p) name) \<and>
    (saturate d = Some i \<longrightarrow>
      add_outcome h p cs s (Item cJSON_Number None i d None []) (cJSON_AddNumberToObject d h (Some p) name)) \<and>
    (text_at h t = Some (Some u) \<longrightarrow>
      add_outcome h p cs s (Item cJSON_String (Some u) 0 zero_double None []) (cJSON_AddStringToObject t h (Some p) name) \<and>
      add_outcome h p cs s (Item cJSON_Raw (Some u) 0 zero_double None []) (cJSON_AddRawToObject t h (Some p) name)) \<and>
    add_outcome h p cs s (Item cJSON_Object None 0 zero_double None []) (cJSON_AddObjectToObject h (Some p) name) \<and>
    add_outcome h p cs s (Item cJSON_Array None 0 zero_double None []) (cJSON_AddArrayToObject h (Some p) name)"
  unfolding add_outcome_def cJSON_AddNullToObject_def cJSON_AddTrueToObject_def cJSON_AddFalseToObject_def
    cJSON_AddBoolToObject_def cJSON_AddNumberToObject_def cJSON_AddStringToObject_def cJSON_AddRawToObject_def
    cJSON_AddObjectToObject_def cJSON_AddArrayToObject_def
  by (intro conjI impI; rule null.add_created_law [OF assms(1) _ assms(2,3)] true.add_created_law [OF assms(1) _ assms(2,3)]
    false.add_created_law [OF assms(1) _ assms(2,3)] bool.add_created_law [OF assms(1) _ assms(2,3)]
    number.add_created_law [OF assms(1) _ assms(2,3)] string.add_created_law [OF assms(1) _ assms(2,3)]
    raw.add_created_law [OF assms(1) _ assms(2,3)] object.add_created_law [OF assms(1) _ assms(2,3)]
    array.add_created_law [OF assms(1) _ assms(2,3)]; simp)

theorem add_to_object_outcome_witness:
  "\<exists>h' x. cJSON_AddStringToObject (Const ''v'') sample_object (Some 0) (Const ''k'') = Some (Some x, h') \<and>
    member_added sample_object 0 [1] ''k'' (Item cJSON_String (Some ''v'') 0 zero_double None []) h' x"
  using add_to_object_outcome [OF sample_object_facts(2,1), of "Const ''k''" "''k''" True zero_double 0 "Const ''v''" "''v''"]
    sample_object_facts(5,6) by (simp add: cstring_def add_outcome_def) blast

text \<open>A member that was added to an object is found under its name, with and without case, if no
  older member has the name.\<close>

theorem added_number_found:
  assumes "bounded h" and "kids h p cs" and "text_at h name = Some (Some s)" and "saturate d = Some i"
    and "\<forall>a \<in> set cs. named h a \<and> (\<exists>k. key_of h a = Some k \<and> \<not> same_name c s k)"
    and "cJSON_AddNumberToObject d h (Some p) name = Some (Some x, h')"
  shows "get_object_item h' (Some p) name c = Some (Some x)"
proof -
  have "member_added h p cs s (Item cJSON_Number None i d None []) h' x"
    using number.add_created_law [OF assms(1) _ assms(2,3), of d] assms(4,6) by (simp add: cJSON_AddNumberToObject_def)
  from member_added_found [OF this assms(1,3,5)] show ?thesis .
qed

theorem added_number_found_witness:
  "\<exists>x h'. cJSON_AddNumberToObject (double_of_int 7) sample_object (Some 0) (Const ''k'') = Some (Some x, h') \<and>
    get_object_item h' (Some 0) (Const ''k'') True = Some (Some x)"
proof -
  have s: "saturate (double_of_int 7) = Some 7" by (rule saturate_int; simp)
  have n: "text_at sample_object (Const ''k'') = Some (Some ''k'')" by (simp add: sample_object_facts cstring_def)
  let ?v = "Item cJSON_Number None 7 (double_of_int 7) None []"
  have v: "\<exists>i. saturate (double_of_int 7) = Some i \<and> ?v = Item cJSON_Number None i (double_of_int 7) None []" using s by blast
  obtain x h' where "cJSON_AddNumberToObject (double_of_int 7) sample_object (Some 0) (Const ''k'') = Some (Some x, h')"
    using number.add_created_law [OF sample_object_facts(2) v sample_object_facts(1) n] sample_object_facts(6)
    unfolding cJSON_AddNumberToObject_def by blast
  with added_number_found [OF sample_object_facts(2,1) n s _ this, of True] show ?thesis
    using sample_object_facts(3,4) by (auto simp: same_name_def)
qed

end
