(* ===== verification/Pointer_Laws.thy ===== *)
theory Pointer_Laws
  imports Editing Patch
begin

text \<open>
  Laws of JSON pointers: tokens and their encoding, array indices, decoding in place, following a
  path as RFC 6901 says (\<open>rfc_resolve\<close>), and the round trip from an item to its path and back.  \<open>resolve\<close> is
  what the code follows with its own reading of an index, for paths of patches whatever their tokens are.
\<close>

section \<open>Encoding\<close>

text \<open>A name as a token of a path: a slash as \<open>~1\<close>, a tilde as \<open>~0\<close>.\<close>

fun encoded_pointer :: "string \<Rightarrow> string" where
  "encoded_pointer [] = []"
| "encoded_pointer (c # cs) =
     (if c = CHR ''/'' then ''~1'' else if c = CHR ''~'' then ''~0'' else [c]) @ encoded_pointer cs"

lemma write_text_app:
  "write_text h d (cs @ ds) = do { h \<leftarrow> write_text h d cs; write_text h (advance d (length cs)) ds }"
proof (cases d)
  case (Block a i)
  then show ?thesis
    by (cases "texts h a") (auto simp: write_text_def blit_def advance_def ac_simps)
qed (simp_all add: write_text_def)

lemma advance_add [simp]: "advance (advance d i) j = advance d (i + j)"
  by (cases d) (simp_all add: advance_def add.commute)

text \<open>Character by character the code writes the token and the NUL.\<close>

lemma encode_string_as_pointer_eq: "encode_string_as_pointer h d s = write_text h d (encoded_pointer s @ [NUL])"
proof (induction s arbitrary: h d)
  case (Cons c s)
  have two: "write_text h d (x # y # t) = do {
      h \<leftarrow> write_text h d [x]; h \<leftarrow> write_text h (advance d 1) [y]; write_text h (advance d 2) t }" for x y t
    using write_text_app [of h d "[x]" "y # t"] write_text_app [of _ "advance d 1" "[y]" t]
    by (simp add: numeral_2_eq_2 cong: bind_option_cong)
  have one: "write_text h d (x # t) = do { h \<leftarrow> write_text h d [x]; write_text h (advance d 1) t }" for x t
    using write_text_app [of h d "[x]" t] by simp
  show ?case using Cons two [of _ _ "encoded_pointer s @ [NUL]"] one [of _ "encoded_pointer s @ [NUL]"]
    by (simp cong: bind_option_cong)
qed simp

declare encode_string_as_pointer.simps [simp del]

section \<open>Tokens\<close>

text \<open>The end of a token: the end of the path or a slash.\<close>

definition token_end :: "string \<Rightarrow> bool" where
  "token_end rest \<longleftrightarrow> rest = [] \<or> hd rest = CHR ''/''"

lemma same_name_simps [simp]:
  "same_name b [] t \<longleftrightarrow> t = []" "same_name b s [] \<longleftrightarrow> s = []"
  "same_name b (c # s) (d # t) \<longleftrightarrow> (if b then c = d else tolower c = tolower d) \<and> same_name b s t"
  by (auto simp: same_name_def)

lemma tolower_special: "tolower c = CHR ''~'' \<longleftrightarrow> c = CHR ''~''" "tolower c = CHR ''/'' \<longleftrightarrow> c = CHR ''/''"
  by (simp_all add: of_char_eq_iff [symmetric, where ?'a = nat] ord_tolower del: of_char_eq_iff)

text \<open>The path starts with a token for the name.\<close>

definition begins_with :: "bool \<Rightarrow> string \<Rightarrow> string \<Rightarrow> bool" where
  "begins_with b name pointer \<longleftrightarrow>
     (\<exists>key rest. pointer = encoded_pointer key @ rest \<and> token_end rest \<and> same_name b name key)"

lemma begins_with_Nil: "begins_with b [] pointer \<longleftrightarrow> token_end pointer"
  by (auto simp: begins_with_def)

lemma begins_with_Cons:
  "begins_with b (n # name) pointer \<longleftrightarrow>
     (\<exists>k rest. pointer = encoded_pointer [k] @ rest \<and> same_name b [n] [k] \<and> begins_with b name rest)"
proof
  assume "begins_with b (n # name) pointer"
  then obtain key rest where k: "pointer = encoded_pointer key @ rest" "token_end rest" "same_name b (n # name) key"
    by (auto simp: begins_with_def)
  then obtain c cs where c: "key = c # cs" by (cases key) auto
  have "begins_with b name (encoded_pointer cs @ rest)" unfolding begins_with_def using k c by auto
  then show "\<exists>k rest. pointer = encoded_pointer [k] @ rest \<and> same_name b [n] [k] \<and> begins_with b name rest"
    using k c by (intro exI [of _ c] exI [of _ "encoded_pointer cs @ rest"]) auto
next
  assume "\<exists>k rest. pointer = encoded_pointer [k] @ rest \<and> same_name b [n] [k] \<and> begins_with b name rest"
  then obtain k rest key rest' where "pointer = encoded_pointer [k] @ encoded_pointer key @ rest'" "same_name b [n] [k]"
    "token_end rest'" "same_name b name key" by (auto simp: begins_with_def)
  then show "begins_with b (n # name) pointer"
    unfolding begins_with_def by (intro exI [of _ "k # key"] exI [of _ rest']) auto
qed

lemma encoded_one: "encoded_pointer [k] @ rest = p # pointer \<longleftrightarrow>
   (if p = CHR ''/'' then False
    else if p = CHR ''~'' then (k = CHR ''/'' \<and> pointer = CHR ''1'' # rest) \<or> (k = CHR ''~'' \<and> pointer = CHR ''0'' # rest)
    else k = p \<and> rest = pointer)"
  by auto

lemma compare_token_iff: "compare_token b name pointer \<longleftrightarrow> begins_with b name pointer"
proof (induction b name pointer rule: compare_token.induct)
  case (1 b pointer)
  then show ?case by (simp add: begins_with_Nil token_end_def)
next
  case (2 b n name)
  then show ?case by (auto simp: begins_with_Cons split: if_splits)
next
  case (3 b n name p pointer)
  have e: "begins_with b (n # name) (p # pointer) \<longleftrightarrow>
    (\<exists>k rest. encoded_pointer [k] @ rest = p # pointer \<and> same_name b [n] [k] \<and> begins_with b name rest)"
    unfolding begins_with_Cons by (rule ex_cong1)+ (simp only: eq_commute [of "p # pointer"])
  consider "p = CHR ''/''" | "p = CHR ''~''" | "p \<noteq> CHR ''/''" "p \<noteq> CHR ''~''" by blast
  then show ?case
  proof cases
    case 1
    then show ?thesis unfolding e encoded_one by simp
  next
    case p: 3
    show ?thesis
    proof (cases "same_name b [n] [p]")
      case True
      then have "compare_token b name pointer \<longleftrightarrow> begins_with b name pointer"
        using 3(2) p by (simp split: if_splits)
      then show ?thesis unfolding e encoded_one using p True by (simp split: if_splits)
    next
      case False
      then show ?thesis unfolding e encoded_one using p by (auto split: if_splits)
    qed
  next
    case 2
    have c: "(tolower n = tolower (CHR ''/'')) = (n = CHR ''/'')" "(tolower n = tolower (CHR ''~'')) = (n = CHR ''~'')"
      using tolower_special [of n] by (simp_all add: tolower_def)
    show ?thesis
    proof (cases pointer)
      case (Cons d ds)
      have IH: "compare_token b name ds \<longleftrightarrow> begins_with b name ds"
        if "(take 1 pointer = ''0'' \<and> n = CHR ''~'') \<or> (take 1 pointer = ''1'' \<and> n = CHR ''/'')"
        using 3(1) 2 that Cons by auto
      show ?thesis unfolding e encoded_one using 2 Cons IH c by (cases b) auto
    next
      case Nil
      then show ?thesis unfolding e encoded_one using 2 by auto
    qed
  qed
qed


lemma encoded_length: "length (encoded_pointer s) = pointer_encoded_length s"
  by (induction s) auto

lemma encoded_no_slash: "CHR ''/'' \<notin> set (encoded_pointer s)"
  by (induction s) auto

lemma encoded_nulfree: "nulfree s \<Longrightarrow> nulfree (encoded_pointer s)"
  by (induction s) auto

lemma skip_token: "CHR ''/'' \<notin> set tok \<Longrightarrow> token_end rest \<Longrightarrow> dropWhile (\<lambda>c. c \<noteq> CHR ''/'') (tok @ rest) = rest"
  by (induction tok) (cases rest; auto simp: token_end_def)+

section \<open>Array indices\<close>

lemma show_nat_leading: "take 1 (show_nat n) = ''0'' \<longleftrightarrow> n = 0"
proof (induction n rule: show_nat.induct)
  case (1 n)
  show ?case
  proof (cases "n < 10")
    case True
    have "digit n = CHR ''0'' \<longleftrightarrow> n = 0" using digit_inj [OF True, of 0] by (simp add: digit_def char_of_def bit_0)
    then show ?thesis using True by (simp add: show_nat.simps [of n])
  next
    case False
    then have "take 1 (show_nat n) = take 1 (show_nat (n div 10))" by (subst show_nat.simps) (simp add: Suc_le_eq)
    then show ?thesis using 1 False by simp
  qed
qed

lemma index_digits_end: "token_end rest \<Longrightarrow> index_digits e rest w = (w, rest)"
  by (cases rest) (auto simp: token_end_def)

lemma dec_val_Cons: "dec_val (c # cs) = (ord c - 48) * 10 ^ length cs + dec_val cs"
  using dec_val_append [of "[c]" cs] dec_val_snoc [of "[]" c] by simp

lemma index_digits_app:
  "\<forall>c \<in> set ds. 48 \<le> ord c \<Longrightarrow>
   index_digits True (ds @ rest) w = index_digits True rest (w * 10 ^ length ds + word_of_nat (dec_val ds))"
proof (induction ds arbitrary: w)
  case (Cons c ds)
  define m where "m = ord c - 48"
  have "index_digits True ((c # ds) @ rest) w =
    index_digits True rest ((10 * w + word_of_nat m) * 10 ^ length ds + word_of_nat (dec_val ds))"
    using Cons unfolding m_def by simp
  also have "(10 * w + word_of_nat m) * 10 ^ length ds + word_of_nat (dec_val ds) =
    w * (10 * 10 ^ length ds) + word_of_nat (m * 10 ^ length ds + dec_val ds)"
    by (simp only: of_nat_add of_nat_mult of_nat_power of_nat_numeral distrib_right mult.assoc mult.left_commute add.assoc)
  also have "w * (10 * 10 ^ length ds) + word_of_nat (m * 10 ^ length ds + dec_val ds) =
    w * 10 ^ length (c # ds) + word_of_nat (dec_val (c # ds))" by (simp only: dec_val_Cons m_def power_Suc list.size(4) add_Suc_right add_0_right)
  finally show ?case .
qed simp

lemma decode_index_show_nat:
  assumes "token_end rest"
  shows "decode_array_index_from_pointer (show_nat k @ rest) = Some (k mod 2 ^ 64)"
proof -
  have dig: "\<forall>c \<in> set (show_nat k). 48 \<le> ord c \<and> ord c \<le> 57"
    using isdigit_show_nat by (auto simp: isdigit_def)
  obtain c cs where c: "show_nat k = c # cs" by (cases "show_nat k") auto
  have lead: "\<not> (take 1 (show_nat k @ rest) = ''0'' \<and> tl (show_nat k @ rest) \<noteq> [] \<and> hd (tl (show_nat k @ rest)) \<noteq> CHR ''/'')"
  proof (cases "k = 0")
    case True
    then have "cs = []" using c by (simp add: show_nat.simps [of 0])
    then show ?thesis using c assms by (auto simp: token_end_def)
  next
    case False
    then show ?thesis using show_nat_leading [of k] c by simp
  qed
  have "index_digits True (show_nat k @ rest) 0 = (word_of_nat k, rest)"
    using index_digits_app [of "show_nat k" rest 0] dig index_digits_end [OF assms] by simp
  moreover have "ord (hd (show_nat k @ rest)) \<le> 57" using dig c by simp
  ultimately show ?thesis using lead assms c
    by (simp add: decode_array_index_from_pointer_def token_end_def unat_of_nat)
qed

section \<open>Decoding in place\<close>

lemma peek_pos: "c \<noteq> NUL \<Longrightarrow> peek s i = Some c \<Longrightarrow> strlen_at s i = Some n \<Longrightarrow> 0 < n \<and> strlen_at s (i + 1) = Some (n - 1)"
proof -
  assume c: "c \<noteq> NUL" "peek s i = Some c" "strlen_at s i = Some n"
  then have "drop i s = c # drop (Suc i) s" by (auto simp: peek_def Cons_nth_drop_Suc split: if_splits)
  then have "cstring (drop i s) = c # cstring (drop (Suc i) s)" using c(1) by (simp add: cstring_def)
  then show ?thesis using c(3) by (auto simp: strlen_at_def Let_def split: if_splits)
qed

lemma strlen_peek: "strlen_at s i = Some n \<Longrightarrow> \<exists>c. peek s i = Some c \<and> (c = NUL \<longleftrightarrow> n = 0)"
  by (cases "drop i s") (auto simp: strlen_at_def Let_def peek_def cstring_def nth_via_drop split: if_splits dest: nth_via_drop)


lemma strlen_at_cong: "drop i s = drop i s' \<Longrightarrow> length s = length s' \<Longrightarrow> strlen_at s i = strlen_at s' i"
  by (simp add: strlen_at_def)

text \<open>The write index is not beyond the read index, so what is still to be read is not overwritten.\<close>

lemma decode_loop_defined:
  "strlen_at s i = Some n \<Longrightarrow> d \<le> i \<Longrightarrow> \<exists>s'. decode_loop s d i = Some s' \<and> length s' = length s"
proof (induction n arbitrary: s d i rule: less_induct)
  case (less n)
  obtain c where c: "peek s i = Some c" "c = NUL \<longleftrightarrow> n = 0" using strlen_peek [OF less.prems(1)] by blast
  have i: "i < length s" using c(1) by (simp add: peek_Some_iff)
  have go: "\<exists>s''. decode_loop (s[j := x]) (d + 1) (i + k) = Some s'' \<and> length s'' = length s"
    if "strlen_at s (i + k) = Some m" "m < n" "j < i + k" "0 < k" for j x k m
  proof -
    have "strlen_at (s[j := x]) (i + k) = Some m" using that(1,3) by (subst strlen_at_cong [of _ _ s]) auto
    from less.IH [OF that(2) this, of "d + 1"] show ?thesis using less.prems(2) that(4) by simp
  qed
  show ?case
  proof (cases "c = NUL")
    case True
    then show ?thesis using c(1) i less.prems(2) by (subst decode_loop.simps) (auto simp: poke_def)
  next
    case False
    have n1: "0 < n" "strlen_at s (i + 1) = Some (n - 1)" using peek_pos [OF False c(1) less.prems(1)] by auto
    from strlen_peek [OF n1(2)] obtain e where "peek s (i + 1) = Some e \<and> (e = NUL \<longleftrightarrow> n - 1 = 0)" ..
    then have e: "peek s (i + 1) = Some e" "e = NUL \<longleftrightarrow> n - 1 = 0" by simp_all
    have i1: "i + 1 < length s" using e(1) by (simp add: peek_Some_iff)
    have n2: "0 < n - 1" "strlen_at s (i + 2) = Some (n - 2)" if "e \<noteq> NUL"
      using peek_pos [OF that e(1) n1(2)] by auto
    consider "c \<noteq> CHR ''~''" | "c = CHR ''~''" "e = CHR ''0''" | "c = CHR ''~''" "e = CHR ''1''"
      | "c = CHR ''~''" "e \<noteq> CHR ''0''" "e \<noteq> CHR ''1''" by blast
    then show ?thesis
    proof cases
      case 1
      then show ?thesis using False c(1) n1 less.IH [of "n - 1" s "i + 1" "d + 1"] less.prems(2)
        by (subst decode_loop.simps) simp
    next
      case 2
      then show ?thesis using False c(1) e(1) n2 go [of 2 "n - 2" d "CHR ''~''"] less.prems(2) i
        by (subst decode_loop.simps) (simp add: poke_def)
    next
      case 3
      then show ?thesis using False c(1) e(1) n2 go [of 2 "n - 2" "d + 1" "CHR ''/''"] less.prems(2) i1
        by (subst decode_loop.simps) (simp add: poke_def)
    next
      case 4
      then show ?thesis using False c(1) e(1) by (subst decode_loop.simps) simp
    qed
  qed
qed

lemma decode_loop_plain:
  "strlen_at s i = Some n \<Longrightarrow> CHR ''~'' \<notin> set (take n (drop i s)) \<Longrightarrow> decode_loop s i i = Some s"
proof (induction n arbitrary: i)
  case 0
  then have "peek s i = Some NUL" using strlen_peek by fastforce
  then show ?case by (subst decode_loop.simps) (auto simp: poke_def peek_Some_iff)
next
  case (Suc n)
  obtain c where c: "peek s i = Some c" "c \<noteq> NUL" using strlen_peek [OF Suc.prems(1)] by auto
  have "drop i s = c # drop (Suc i) s" using c(1) by (auto simp: peek_Some_iff Cons_nth_drop_Suc)
  then have "c \<noteq> CHR ''~''" "CHR ''~'' \<notin> set (take n (drop (Suc i) s))" using Suc.prems(2) by auto
  then show ?case using Suc.IH [of "Suc i"] peek_pos [OF c(2,1) Suc.prems(1)] c
    by (subst decode_loop.simps) simp
qed


section \<open>Following a path\<close>

fun path_text :: "string list \<Rightarrow> string" where
  "path_text [] = []"
| "path_text (s # ss) = CHR ''/'' # encoded_pointer s @ path_text ss"

text \<open>The first member of an object with the name.\<close>

abbreviation rfc_member :: "heap \<Rightarrow> bool \<Rightarrow> string \<Rightarrow> shape list \<Rightarrow> shape option" where
  "rfc_member h b s ts \<equiv> find (\<lambda>t. case key_of h (top t) of None \<Rightarrow> False | Some key \<Rightarrow> same_name b key s) ts"

text \<open>What a list of tokens selects in a tree when an index is read the way the code reads it.\<close>

fun resolve :: "heap \<Rightarrow> bool \<Rightarrow> shape \<Rightarrow> string list \<Rightarrow> shape option" where
  "resolve h b t [] = Some t"
| "resolve h b (Shape a ts) (s # ss) = do {
     n \<leftarrow> nodes h a;
     if ntype n AND 0xFF = cJSON_Array then do {
       i \<leftarrow> decode_array_index_from_pointer (encoded_pointer s);
       if i < length ts then resolve h b (ts ! i) ss else None }
     else if ntype n AND 0xFF = cJSON_Object then do {
       t \<leftarrow> rfc_member h b s ts;
       resolve h b t ss }
     else None }"











lemma path_text_end [simp]: "token_end (path_text ss)"
  by (cases ss) (simp_all add: token_end_def)

lemma begins_with_encoded: "token_end rest \<Longrightarrow> begins_with b name (encoded_pointer s @ rest) \<longleftrightarrow> same_name b name s"
proof (induction s arbitrary: name)
  case Nil
  have "\<not> (\<exists>k r. rest = encoded_pointer [k] @ r)" using Nil by (auto simp: token_end_def split: if_splits)
  then show ?case using Nil by (cases name) (auto simp: begins_with_Nil begins_with_Cons)
next
  case (Cons c s)
  have one: "encoded_pointer (c # s) @ rest = encoded_pointer [k] @ r \<longleftrightarrow> k = c \<and> r = encoded_pointer s @ rest" for k r
    by auto
  have "\<not> token_end (encoded_pointer (c # s) @ rest)" by (auto simp: token_end_def)
  then show ?case unfolding begins_with_Cons begins_with_Nil one
    by (cases name) (auto simp: begins_with_Nil begins_with_Cons one Cons simp del: encoded_pointer.simps)
qed

lemma index_digits_token: "CHR ''/'' \<notin> set tok \<Longrightarrow> token_end rest \<Longrightarrow>
  index_digits e (tok @ rest) w = (case index_digits e tok w of (v, r) \<Rightarrow> (v, r @ rest))"
  by (induction tok arbitrary: w) (auto simp: index_digits_end)

lemma decode_index_token:
  assumes "CHR ''/'' \<notin> set tok" "token_end rest"
  shows "decode_array_index_from_pointer (tok @ rest) = decode_array_index_from_pointer tok"
proof -
  obtain v r where r: "index_digits (tok = [] \<or> ord (hd tok) \<le> 57) tok 0 = (v, r)" by fastforce
  have e: "(tok @ rest = [] \<or> ord (hd (tok @ rest)) \<le> 57) = (tok = [] \<or> ord (hd tok) \<le> 57)"
    using assms(2) by (cases tok) (auto simp: token_end_def)
  have z: "(take 1 (tok @ rest) = ''0'' \<and> tl (tok @ rest) \<noteq> [] \<and> hd (tl (tok @ rest)) \<noteq> CHR ''/'') =
    (take 1 tok = ''0'' \<and> tl tok \<noteq> [] \<and> hd (tl tok) \<noteq> CHR ''/'')"
  proof (cases tok)
    case Nil
    then show ?thesis using assms(2) by (cases rest) (auto simp: token_end_def)
  next
    case (Cons c cs)
    then show ?thesis using assms by (cases cs) (auto simp: token_end_def)
  qed
  have x: "(r @ rest \<noteq> [] \<and> hd (r @ rest) \<noteq> CHR ''/'') = (r \<noteq> [] \<and> hd r \<noteq> CHR ''/'')"
    using assms(2) by (cases r) (auto simp: token_end_def)
  then show ?thesis unfolding decode_array_index_from_pointer_def z e index_digits_token [OF assms] r prod.case by (simp only: x)
qed

lemma views_named: "views h t \<Longrightarrow> named h (top t)"
  by (cases t) (auto simp: named_def)

lemma chain_match_eq:
  "chain (nodes h) p (map top ts) \<Longrightarrow> \<forall>t \<in> set ts. views h t \<Longrightarrow> token_end rest \<Longrightarrow>
   chain_match h b (encoded_pointer s @ rest) p =
     Some (map_option top (find (\<lambda>t. case key_of h (top t) of None \<Rightarrow> False | Some key \<Rightarrow> same_name b key s) ts))"
proof (induction ts arbitrary: p)
  case Nil
  then show ?case by (subst chain_match.simps) simp
next
  case (Cons t ts)
  obtain n where n: "p = Some (top t)" "nodes h (top t) = Some n" "chain (nodes h) (nnext n) (map top ts)" using Cons.prems(1) by auto
  obtain key where key: "text_at h (nstring n) = Some key" "key_of h (top t) = key"
    using views_named [of h t] Cons.prems(2) n(2) by (auto simp: named_def key_of_def)
  show ?case using n key Cons.IH [OF n(3)] Cons.prems(2,3) begins_with_encoded [OF Cons.prems(3)]
    by (subst chain_match.simps) (auto simp: compare_pointers_def compare_token_iff split: option.splits)
qed

lemma follow_path_None: "follow_path h b None p = Some None"
  by (cases p) simp_all

lemma follow_path_resolve:
  "views h t \<Longrightarrow> follow_path h b (Some (top t)) (path_text ss) = Some (map_option top (resolve h b t ss))"
proof (induction ss arbitrary: t)
  case (Cons s ss)
  obtain a ts where t: "t = Shape a ts" by (cases t)
  obtain n where n: "nodes h a = Some n" "chain (nodes h) (nchild n) (map top ts)" "\<forall>t \<in> set ts. views h t"
    using Cons.prems t by auto
  let ?p = "encoded_pointer s @ path_text ss"
  have skip: "dropWhile (\<lambda>c. c \<noteq> CHR ''/'') ?p = path_text ss" by (rule skip_token [OF encoded_no_slash path_text_end])
  consider "ntype n AND 0xFF = cJSON_Array" | "ntype n AND 0xFF = cJSON_Object" "ntype n AND 0xFF \<noteq> cJSON_Array"
    | "ntype n AND 0xFF \<noteq> cJSON_Array" "ntype n AND 0xFF \<noteq> cJSON_Object" by blast
  then show ?case
  proof cases
    case 1
    have "get_array_item_utils h (Some a) i = Some (if i < length ts then Some (top (ts ! i)) else None)" for i
      using n chain_nth_eq [OF n(2)] by (simp add: get_array_item_utils_def)
    then show ?thesis using t n 1 skip Cons.IH decode_index_token [OF encoded_no_slash path_text_end]
      by (cases "decode_array_index_from_pointer (encoded_pointer s)")
        (auto simp: path_step_def node_at_def follow_path_None simp del: bind_Some_iff)
  next
    case 2
    have m: "chain_match h b ?p (nchild n) = Some (map_option top (find (\<lambda>t. case key_of h (top t) of None \<Rightarrow> False | Some key \<Rightarrow> same_name b key s) ts))"
      by (rule chain_match_eq [OF n(2,3)]) simp
    show ?thesis
    proof (cases "find (\<lambda>t. case key_of h (top t) of None \<Rightarrow> False | Some key \<Rightarrow> same_name b key s) ts")
      case None
      then show ?thesis using t n 2 skip m by (simp add: path_step_def node_at_def follow_path_None del: bind_Some_iff)
    next
      case (Some u)
      then have "u \<in> set ts" by (auto simp: find_Some_iff)
      then show ?thesis using t n 2 skip m Some Cons.IH [of u] by (simp add: path_step_def node_at_def del: bind_Some_iff)
    qed
  next
    case 3
    then show ?thesis using t n skip by (simp add: path_step_def node_at_def follow_path_None del: bind_Some_iff)
  qed
qed simp


section \<open>The path of an item\<close>

text \<open>What the search needs of a tree: nodes with children are arrays, whose indices can be printed, or
  objects, whose members have different names.\<close>

fun searchable :: "heap \<Rightarrow> shape \<Rightarrow> bool" where
  "searchable h (Shape a ts) \<longleftrightarrow> (\<forall>t \<in> set ts. searchable h t) \<and> (ts \<noteq> [] \<longrightarrow> (\<exists>n. nodes h a = Some n \<and>
     (ntype n AND 0xFF = cJSON_Array \<and> length ts \<le> 2 ^ 32 \<or>
      ntype n AND 0xFF = cJSON_Object \<and> (\<forall>t \<in> set ts. key_of h (top t) \<noteq> None) \<and>
      distinct (map (\<lambda>t. key_of h (top t)) ts))))"

text \<open>The search has found the item by the tokens \<open>ss\<close> and returns them in a new block.\<close>

definition found_path :: "heap \<Rightarrow> heap \<Rightarrow> text_ptr \<Rightarrow> string list \<Rightarrow> bool" where
  "found_path h h' tp ss \<longleftrightarrow> (\<exists>b. tp = Block b 0 \<and> grew h h' [] [b] \<and> text_at h' tp = Some (Some (path_text ss)))"

lemma grew_write:
  "grew h h1 A B \<Longrightarrow> b \<in> set B \<Longrightarrow> grew h (h1\<lparr>texts := (texts h1)(b \<mapsto> s)\<rparr>) A B"
  by (auto simp: grew_def subset_iff)

lemma grew_free_text:
  assumes g: "grew h h1 A (b # B)" and b: "b \<notin> set B"
  shows "\<exists>h2. free_text h1 (Block b 0) = Some h2 \<and> grew h h2 A B \<and> nodes h2 = nodes h1 \<and>
    (\<forall>c. c \<noteq> b \<longrightarrow> texts h2 c = texts h1 c)"
proof -
  have r: "brk h \<le> b" using grew_range [OF g, of b] by simp
  then have "texts h1 b \<noteq> None" using g by (simp add: grew_def)
  then obtain s where s: "texts h1 b = Some s" by blast
  have "grew h (h1\<lparr>texts := (texts h1)(b := None), hmem := deallocate 1 (hmem h1)\<rparr>) A B"
    using g b r by (auto simp: grew_def deallocate_def same_hooks_def subset_iff)
  then show ?thesis using s by (simp add: free_text_def)
qed

lemma grew_nodes:
  assumes "grew h h' [] B" "bounded h" shows "nodes h' = nodes h"
proof
  fix a show "nodes h' a = nodes h a"
    using assms by (cases "a < brk h") (auto simp: grew_def bounded_def)
qed

text \<open>A larger block for the path in front of the target's path, which is freed.\<close>

lemma write_text_block:
  "texts h b = Some s \<Longrightarrow> i + length cs \<le> length s \<Longrightarrow>
   write_text h (Block b i) cs = Some (h\<lparr>texts := (texts h)(b \<mapsto> take i s @ cs @ drop (i + length cs) s)\<rparr>)"
  by (simp add: write_text_def blit_def)

lemma malloc_text_ok:
  assumes "bounded h" "\<forall>i. may_alloc (hmem h) i"
  shows "\<exists>h1. malloc_text h n = (Block (brk h) 0, h1) \<and> grew h h1 [] [brk h] \<and> nodes h1 = nodes h \<and>
    (\<exists>j. length j = n \<and> texts h1 = (texts h)(brk h \<mapsto> j))"
proof (rule new_text_cases [OF assms(1), of "fresh_block (hmem h) n"])
  fix h' assume "\<not> (\<forall>i. may_alloc (hmem h) i)"
  then show ?thesis using assms(2) by blast
next
  fix h' assume "new_text h (fresh_block (hmem h) n) = (Block (brk h) 0, h')" "grew h h' [] [brk h]" "nodes h' = nodes h"
    "texts h' = (texts h)(brk h \<mapsto> fresh_block (hmem h) n)"
  moreover have "length (fresh_block (hmem h) n) = n" by (simp add: fresh_block_def)
  ultimately show ?thesis unfolding malloc_text_def by blast
qed

lemma text_at_block: "texts h b = Some (t @ NUL # r) \<Longrightarrow> nulfree t \<Longrightarrow> text_at h (Block b 0) = Some (Some t)"
  using strlen_at_found [of t "[]" r] by (simp add: text_at_def)

lemma show_nat_plain: "encoded_pointer (show_nat i) = show_nat i" "nulfree (show_nat i)"
proof -
  have "\<forall>c \<in> set ds. isdigit c \<Longrightarrow> encoded_pointer ds = ds \<and> nulfree ds" for ds
    by (induction ds) (auto simp: isdigit_def)
  then show "encoded_pointer (show_nat i) = show_nat i" "nulfree (show_nat i)" using isdigit_show_nat by auto
qed

lemma show_nat_short: "i < 2 ^ 32 \<Longrightarrow> length (show_nat i) \<le> 20"
proof (rule ccontr)
  assume i: "i < 2 ^ 32" and l: "\<not> length (show_nat i) \<le> 20"
  have "(10 :: nat) ^ 20 \<le> 10 ^ (length (show_nat i) - 1)" by (rule power_increasing) (use l in auto)
  moreover have "length (show_nat 0) = 1" by (simp add: show_nat.simps [of 0])
  then have "i \<noteq> 0" using l by (cases "i = 0") auto
  ultimately show False using i length_show_nat [of i] by simp
qed

text \<open>The two ways of writing the new path: at once, or the encoded name first.\<close>

lemma write_joined:
  assumes "texts h b = Some j" "length j = length t + length e + 2" "nulfree e"
  shows "\<exists>h1 h2 h3. write_text h (Block b 0) ''/'' = Some h1 \<and> write_text h1 (Block b 1) (e @ [NUL]) = Some h2 \<and>
    chars_at h2 (Block b 0) = Some (CHR ''/'' # e) \<and> write_text h2 (Block b (length (CHR ''/'' # e))) (t @ [NUL]) = Some h3 \<and>
    h3 = h\<lparr>texts := (texts h)(b \<mapsto> CHR ''/'' # e @ t @ [NUL])\<rparr>"
proof -
  define h1 where "h1 = h\<lparr>texts := (texts h)(b \<mapsto> CHR ''/'' # drop 1 j)\<rparr>"
  define h2 where "h2 = h\<lparr>texts := (texts h)(b \<mapsto> CHR ''/'' # e @ NUL # drop (length e + 2) j)\<rparr>"
  have "write_text h (Block b 0) ''/'' = Some h1" using assms by (simp add: write_text_block h1_def)
  moreover have "write_text h1 (Block b 1) (e @ [NUL]) = Some h2"
    using assms by (simp add: write_text_block h1_def h2_def)
  moreover have "chars_at h2 (Block b 0) = Some (CHR ''/'' # e)"
    using text_at_block [of h2 b "CHR ''/'' # e"] assms(3) by (simp add: chars_at_def h2_def)
  moreover have "write_text h2 (Block b (length (CHR ''/'' # e))) (t @ [NUL]) =
      Some (h\<lparr>texts := (texts h)(b \<mapsto> CHR ''/'' # e @ t @ [NUL])\<rparr>)"
    using assms(2) by (subst write_text_block [of h2 b "CHR ''/'' # e @ NUL # drop (length e + 2) j"]) (simp_all add: h2_def)
  ultimately show ?thesis by blast
qed

lemma extend_path_found:
  assumes f: "found_path h h1 tp ss" and b: "bounded h" and al: "\<forall>i. may_alloc (hmem h) i"
    and k: "ntype n AND 0xFF = cJSON_Array \<and> i < 2 ^ 32 \<and> s = show_nat i \<or>
      ntype n AND 0xFF = cJSON_Object \<and> text_at h (nstring m) = Some (Some s)"
  shows "\<exists>tp' h2. extend_path h1 n m i tp = Some (tp', h2) \<and> found_path h h2 tp' (s # ss)"
proof -
  obtain c where c: "tp = Block c 0" "grew h h1 [] [c]" "text_at h1 tp = Some (Some (path_text ss))"
    using f by (auto simp: found_path_def)
  define t where "t = path_text ss"
  have nt: "nulfree t" using text_at_nulfree [OF c(3)] by (simp add: t_def)
  have b1: "bounded h1" and al1: "\<forall>i. may_alloc (hmem h1) i"
    using grew_bounded [OF c(2)] grew_mem [OF c(2)] al by (simp_all add: same_hooks_def)
  have tgt: "chars_at h1 tp = Some t" using c(3) by (simp add: chars_at_def t_def)
  define N where "N = (if ntype n AND 0xFF = cJSON_Array then length t + 20 + 2 else length t + pointer_encoded_length s + 2)"
  obtain h2 j where h2: "malloc_text h1 N = (Block (brk h1) 0, h2)" "grew h1 h2 [] [brk h1]" "nodes h2 = nodes h1"
    "length j = N" "texts h2 = (texts h1)(brk h1 \<mapsto> j)" using malloc_text_ok [OF b1 al1, of N] by blast
  let ?d = "brk h1"
  have cd: "c < ?d" using grew_range [OF c(2), of c] by simp
  have g2: "grew h h2 [] [c, ?d]" by (rule grew_trans [OF c(2) h2(2)]) auto
  have fin: "\<exists>h4. free_text (h2\<lparr>texts := (texts h2)(?d \<mapsto> CHR ''/'' # encoded_pointer s @ t @ NUL # r)\<rparr>) tp = Some h4 \<and>
    found_path h h4 (Block ?d 0) (s # ss)" if "nulfree s" for r
  proof -
    let ?h3 = "h2\<lparr>texts := (texts h2)(?d \<mapsto> CHR ''/'' # encoded_pointer s @ t @ NUL # r)\<rparr>"
    have "grew h ?h3 [] [c, ?d]" by (rule grew_write [OF g2]) simp
    from grew_free_text [OF this] cd obtain h4 where h4: "free_text ?h3 (Block c 0) = Some h4" "grew h h4 [] [?d]"
      "\<forall>e. e \<noteq> c \<longrightarrow> texts h4 e = texts ?h3 e" by auto
    have "text_at h4 (Block ?d 0) = Some (Some (CHR ''/'' # encoded_pointer s @ t))"
      by (rule text_at_block [where r = r]) (use h4(3) cd nt that encoded_nulfree in auto)
    then show ?thesis using h4(1,2) c(1) by (auto simp: found_path_def t_def)
  qed
  from k show ?thesis
  proof (elim disjE conjE)
    assume a: "ntype n AND 0xFF = cJSON_Array" "i < 2 ^ 32" "s = show_nat i"
    have len: "length t + length s + 2 \<le> N" using show_nat_short [OF a(2)] a(1,3) by (simp add: N_def)
    then have w: "write_text h2 (Block ?d 0) (''/'' @ show_nat i @ t @ [NUL]) =
      Some (h2\<lparr>texts := (texts h2)(?d \<mapsto> CHR ''/'' # encoded_pointer s @ t @ NUL # drop (length t + length s + 2) j)\<rparr>)"
      using h2(4,5) a(3) by (subst write_text_block [of _ _ j]) (simp_all add: show_nat_plain add.commute)
    have "N = length t + 20 + 2" using a(1) by (simp add: N_def)
    moreover have "nulfree s" using a(3) show_nat_plain by simp
    ultimately show ?thesis using a fin [of "drop (length t + length s + 2) j"] w h2(1) tgt c(1)
      by (auto simp: extend_path_def Let_def simp del: bind_Some_iff)
  next
    assume a: "ntype n AND 0xFF = cJSON_Object" "text_at h (nstring m) = Some (Some s)"
    have ns: "nulfree s" by (rule text_at_nulfree [OF a(2)])
    have "kept h h1 {}" using grew_kept [OF c(2) b] by (rule kept_mono) simp
    then have nm: "chars_at h1 (nstring m) = Some s" using kept_text a(2) by (simp add: chars_at_def)
    have jd: "texts h2 ?d = Some j" using h2(5) by simp
    have "length j = length t + length (encoded_pointer s) + 2" using a(1) h2(4) by (simp add: N_def encoded_length)
    from write_joined [OF jd this encoded_nulfree [OF ns]] obtain w1 w2 w3 where
      w: "write_text h2 (Block ?d 0) ''/'' = Some w1" "write_text w1 (Block ?d 1) (encoded_pointer s @ [NUL]) = Some w2"
        "chars_at w2 (Block ?d 0) = Some (CHR ''/'' # encoded_pointer s)"
        "write_text w2 (Block ?d (length (CHR ''/'' # encoded_pointer s))) (t @ [NUL]) = Some w3"
        "w3 = h2\<lparr>texts := (texts h2)(?d \<mapsto> CHR ''/'' # encoded_pointer s @ t @ NUL # [])\<rparr>" by blast
    have "N = length t + pointer_encoded_length s + 2" using a(1) by (simp add: N_def)
    then show ?thesis using a fin [OF ns, of "[]"] w h2(1) tgt nm
      by (auto simp: extend_path_def Let_def advance_def encode_string_as_pointer_eq simp del: bind_Some_iff)
  qed
qed


lemma find_in_children_misses:
  "chain (nodes h) p (map top ts) \<Longrightarrow> \<forall>t \<in> set ts. search h (Some (top t)) = Some (Null, h) \<Longrightarrow>
   find_in_children search n p i h = Some (Null, h)"
proof (induction ts arbitrary: p i)
  case Nil
  then show ?case by (subst find_in_children.simps) simp
next
  case (Cons t ts)
  then show ?case by (subst find_in_children.simps) auto
qed

lemma find_in_children_hits:
  "chain (nodes h) p (map top (us @ t # vs)) \<Longrightarrow> \<forall>u \<in> set us. search h (Some (top u)) = Some (Null, h) \<Longrightarrow>
   search h (Some (top t)) = Some (tp, h1) \<Longrightarrow> tp \<noteq> Null \<Longrightarrow> nodes h1 = nodes h \<Longrightarrow>
   \<exists>m. nodes h (top t) = Some m \<and> find_in_children search n p i h = extend_path h1 n m (i + length us) tp"
proof (induction us arbitrary: p i)
  case Nil
  then show ?case by (subst find_in_children.simps) auto
next
  case (Cons u us)
  then obtain q where q: "p = Some (top u)" "nodes h (top u) = Some q" "chain (nodes h) (nnext q) (map top (us @ t # vs))" by auto
  from Cons.IH [OF q(3), of "i + 1"] Cons.prems q show ?case by (subst find_in_children.simps) auto
qed

lemma find_pointer_misses:
  "x \<notin> set (addrs t) \<Longrightarrow> views h t \<Longrightarrow> depth_of t \<le> k \<Longrightarrow> find_pointer k (Some x) h (Some (top t)) = Some (Null, h)"
proof (induction k arbitrary: t)
  case 0
  then show ?case by (cases t) simp
next
  case (Suc k)
  obtain a ts where t: "t = Shape a ts" by (cases t)
  obtain n where n: "nodes h a = Some n" "chain (nodes h) (nchild n) (map top ts)" "\<forall>t \<in> set ts. views h t"
    using Suc.prems t by auto
  have "find_pointer k (Some x) h (Some (top u)) = Some (Null, h)" if "u \<in> set ts" for u
    by (rule Suc.IH) (use Suc.prems t n(3) that depth_of_sub [OF that, of a] in auto)
  then have "find_in_children (find_pointer k (Some x)) n (nchild n) 0 h = Some (Null, h)"
    by (intro find_in_children_misses [OF n(2)]) blast
  then show ?case using Suc.prems(1) t n(1) by (simp add: node_at_def)
qed

lemma find_pointer_hits:
  "x \<in> set (addrs t) \<Longrightarrow> views h t \<Longrightarrow> distinct (addrs t) \<Longrightarrow> searchable h t \<Longrightarrow> depth_of t \<le> k \<Longrightarrow>
   bounded h \<Longrightarrow> \<forall>i. may_alloc (hmem h) i \<Longrightarrow>
   \<exists>tp h' ss u. find_pointer k (Some x) h (Some (top t)) = Some (tp, h') \<and> found_path h h' tp ss \<and>
     resolve h True t ss = Some u \<and> top u = x"
proof (induction k arbitrary: t)
  case 0
  then show ?case by (cases t) simp
next
  case (Suc k)
  note b = Suc.prems(6) and al = Suc.prems(7)
  obtain a ts where t: "t = Shape a ts" by (cases t)
  obtain n where n: "nodes h a = Some n" "chain (nodes h) (nchild n) (map top ts)" "\<forall>t \<in> set ts. views h t"
    using Suc.prems(2) t by auto
  show ?case
  proof (cases "x = a")
    case True
    show ?thesis
    proof (rule new_text_cases [OF b, of "[NUL]"])
      fix h' assume h': "new_text h [NUL] = (Block (brk h) 0, h')" "grew h h' [] [brk h]" "texts h' = (texts h)(brk h \<mapsto> [NUL])"
      then have "found_path h h' (Block (brk h) 0) []"
        using text_at_block [of h' "brk h" "[]" "[]"] by (simp add: found_path_def)
      moreover have "find_pointer (Suc k) (Some x) h (Some (top t)) = Some (Block (brk h) 0, h')"
        using True t h'(1) by (simp add: cJSONUtils_strdup_def chars_at_def text_at_def cstring_def)
      ultimately show ?thesis using True t by fastforce
    qed (use al in blast)
  next
    case False
    then obtain v where v: "v \<in> set ts" "x \<in> set (addrs v)" using Suc.prems(1) t by auto
    obtain us vs where ts: "ts = us @ v # vs" using split_list [OF v(1)] by blast
    have dv: "depth_of u \<le> k" if "u \<in> set ts" for u using depth_of_sub [OF that, of a] Suc.prems(5) t by simp
    have "distinct (addrs v)" "searchable h v" "views h v" using Suc.prems(3,4) n(3) t ts by auto
    from Suc.IH [OF v(2) this(3,1,2) dv [OF v(1)] b al] obtain tp h1 ss u where
      f: "find_pointer k (Some x) h (Some (top v)) = Some (tp, h1)" "found_path h h1 tp ss" "resolve h True v ss = Some u" "top u = x"
      by blast
    have "find_pointer k (Some x) h (Some (top w)) = Some (Null, h)" if "w \<in> set us" for w
    proof (rule find_pointer_misses)
      show "x \<notin> set (addrs w)" using Suc.prems(3) t ts v(2) that by auto
    qed (use n(3) dv ts that in auto)
    moreover have "tp \<noteq> Null" "nodes h1 = nodes h" using f(2) grew_nodes [OF _ b] by (auto simp: found_path_def)
    ultimately obtain m where m: "nodes h (top v) = Some m"
      "find_in_children (find_pointer k (Some x)) n (nchild n) 0 h = extend_path h1 n m (length us) tp"
      using find_in_children_hits [of h "nchild n" us v vs "find_pointer k (Some x)" tp h1 n 0] n(2) ts f(1) by auto
    have run: "find_pointer (Suc k) (Some x) h (Some (top t)) = extend_path h1 n m (length us) tp"
      using False t n(1) m(2) by (simp add: node_at_def)
    have kind: "ntype n AND 0xFF = cJSON_Array \<and> length ts \<le> 2 ^ 32 \<or>
      ntype n AND 0xFF = cJSON_Object \<and> (\<forall>t \<in> set ts. key_of h (top t) \<noteq> None) \<and> distinct (map (\<lambda>t. key_of h (top t)) ts)"
      using Suc.prems(4) t ts n(1) by auto
    have "\<exists>s tp' h2. extend_path h1 n m (length us) tp = Some (tp', h2) \<and> found_path h h2 tp' (s # ss) \<and>
      resolve h True t (s # ss) = Some u"
      using kind
    proof (elim disjE conjE)
      assume ar: "ntype n AND 0xFF = cJSON_Array" "length ts \<le> 2 ^ 32"
      have i: "length us < 2 ^ 32" using ar(2) ts by simp
      have "resolve h True t (show_nat (length us) # ss) = Some u"
        using t n(1) ar(1) i ts f(3) decode_index_show_nat [of "[]" "length us"]
        by (simp add: show_nat_plain token_end_def nth_append)
      then show ?thesis using extend_path_found [OF f(2) b al, of n "length us" "show_nat (length us)" m] ar(1) i by blast
    next
      assume ob: "ntype n AND 0xFF = cJSON_Object" "\<forall>t \<in> set ts. key_of h (top t) \<noteq> None" "distinct (map (\<lambda>t. key_of h (top t)) ts)"
      obtain s where s: "key_of h (top v) = Some s" using ob(2) v(1) by auto
      have nm: "text_at h (nstring m) = Some (Some s)" using s m(1) views_named [OF \<open>views h v\<close>]
        by (auto simp: key_of_def named_def)
      let ?P = "\<lambda>t. case key_of h (top t) of None \<Rightarrow> False | Some key \<Rightarrow> same_name True key s"
      have "\<not> ?P w" if "w \<in> set us" for w
      proof -
        have "Some s \<notin> (\<lambda>t. key_of h (top t)) ` set us" using ob(3) ts s by simp
        then have "key_of h (top w) \<noteq> Some s" using that by (metis image_eqI)
        then show ?thesis by (auto simp: same_name_def split: option.splits)
      qed
      then have "find ?P us = None" by (simp add: find_None_iff)
      then have "find ?P ts = Some v" using s by (simp add: ts find_append same_name_def)
      then have "resolve h True t (s # ss) = Some u" using t n(1) ob(1) f(3) by simp
      then show ?thesis using extend_path_found [OF f(2) b al, of n "length us" s m] ob(1) nm by blast
    qed
    then show ?thesis using run f(4) by metis
  qed
qed


section \<open>The properties\<close>

text \<open>C17: Comparing a name with a path is comparing it with the decoded first token: the path begins
  with the encoding of a name that is the same, and the token ends there.\<close>

theorem compare_pointers_decodes:
  "compare_pointers (Some name) (Some pointer) b \<longleftrightarrow>
     (\<exists>key rest. pointer = encoded_pointer key @ rest \<and> token_end rest \<and> same_name b name key)"
  by (simp add: compare_pointers_def compare_token_iff begins_with_def)

text \<open>C18: \<open>encode_string_as_pointer\<close> stays inside its block exactly when the block has room for
  \<open>pointer_encoded_length\<close> characters and the NUL, and then it leaves the encoding there, whose
  first token is the name.\<close>

theorem encoding_fits:
  assumes "texts h a = Some s"
  shows "(encode_string_as_pointer h (Block a i) name \<noteq> None \<longleftrightarrow> i + pointer_encoded_length name + 1 \<le> length s) \<and>
    (\<forall>h'. encode_string_as_pointer h (Block a i) name = Some h' \<and> nulfree name \<longrightarrow>
      text_at h' (Block a i) = Some (Some (encoded_pointer name)))"
proof -
  have "text_at h' (Block a i) = Some (Some (encoded_pointer name))"
    if "encode_string_as_pointer h (Block a i) name = Some h'" "nulfree name" for h'
  proof -
    have h': "h' = h\<lparr>texts := (texts h)(a \<mapsto> take i s @ encoded_pointer name @ NUL # drop (i + length (encoded_pointer name) + 1) s)\<rparr>"
      "i \<le> length s" using that(1) assms by (auto simp: encode_string_as_pointer_eq write_text_def blit_def split: if_splits)
    have "length (take i s) = i" using h'(2) by simp
    then have "strlen_at (take i s @ encoded_pointer name @ NUL # r) i = Some (length (encoded_pointer name))" for r
      using strlen_at_found [OF encoded_nulfree [OF that(2)], of "take i s" r] by simp
    then show ?thesis using h' by (simp add: text_at_def)
  qed
  then show ?thesis using assms by (auto simp: encode_string_as_pointer_eq write_text_def blit_def encoded_length)
qed

theorem encoding_fits_witness:
  "encode_string_as_pointer (sample\<lparr>texts := [4 \<mapsto> ''123456'']\<rparr>) (Block 4 1) ''a/b'' \<noteq> None \<and>
    encode_string_as_pointer (sample\<lparr>texts := [4 \<mapsto> ''12345'']\<rparr>) (Block 4 1) ''a/b'' = None"
  using encoding_fits [of "sample\<lparr>texts := [4 \<mapsto> ''123456'']\<rparr>" 4 "''123456''" 1 "''a/b''"]
    encoding_fits [of "sample\<lparr>texts := [4 \<mapsto> ''12345'']\<rparr>" 4 "''12345''" 1 "''a/b''"] by simp

text \<open>A decimal array index is decoded modulo the width of \<open>size_t\<close>: the index itself below
  \<open>2 ^ 64\<close>, but a larger one wraps around and selects an element instead of none.\<close>

theorem array_index_wraps:
  assumes "token_end rest"
  shows "decode_array_index_from_pointer (show_nat k @ rest) = Some (k mod 2 ^ 64)"
  by (rule decode_index_show_nat [OF assms])

theorem array_index_wraps_witness:
  "decode_array_index_from_pointer (show_nat 42 @ ''/x'') = Some 42 \<and>
    decode_array_index_from_pointer (show_nat (2 ^ 64) @ []) = Some 0"
  using array_index_wraps [of "''/x''" 42] array_index_wraps [of "[]" "2 ^ 64"] by (simp add: token_end_def)

text \<open>The test for the end of the digits looks at the first character: letters are taken as digits,
  and an empty token as the index 0.\<close>

theorem array_index_accepts_letters:
  "decode_array_index_from_pointer ''1A'' = Some 27 \<and> decode_array_index_from_pointer ''/x'' = Some 0"
  by (simp add: decode_array_index_from_pointer_def)

text \<open>Decoding in place is defined on every string of a block, keeps the length of the block and
  touches no other part of the heap; a string without a tilde is left as it is.\<close>

theorem decode_in_place_safe:
  assumes "text_at h (Block a i) = Some (Some s)"
  shows "\<exists>u u'. texts h a = Some u \<and> length u' = length u \<and>
    decode_pointer_inplace h (Block a i) = Some (h\<lparr>texts := (texts h)(a \<mapsto> u')\<rparr>) \<and>
    (CHR ''~'' \<notin> set s \<longrightarrow> decode_pointer_inplace h (Block a i) = Some h)"
proof -
  obtain u n where u: "texts h a = Some u" "strlen_at u i = Some n" "s = take n (drop i u)"
    using assms by (auto simp: text_at_def)
  obtain u' where u': "decode_loop u i i = Some u'" "length u' = length u" using decode_loop_defined [OF u(2)] by blast
  have "h\<lparr>texts := (texts h)(a \<mapsto> u)\<rparr> = h" using u(1) by (simp add: fun_upd_idem)
  then show ?thesis using u u' decode_loop_plain [OF u(2)] by (auto simp: decode_pointer_inplace_def)
qed

theorem decode_in_place_safe_witness: "decode_pointer_inplace sample (Block 4 0) = Some sample"
proof -
  have "text_at sample (Block 4 0) = Some (Some ''hi'')" by (simp add: sample_def text_at_def strlen_at_def cstring_def)
  from decode_in_place_safe [OF this] show ?thesis by auto
qed

text \<open>An escape is not decoded: the slash is written behind its place and what follows is not moved,
  so the token of the name \<open>a/b\<close> becomes \<open>a~/\<close>.\<close>

theorem decode_in_place_wrong:
  "encoded_pointer ''a/b'' = ''a~1b'' \<and>
   map_option cstring (decode_loop (''a~1b'' @ [NUL]) 0 0) = Some ''a~/''"
proof -
  have "decode_loop (''a~1b'' @ [NUL]) 0 0 = Some (''a~/'' @ [NUL, NUL])"
    by (simp add: decode_loop.simps peek_def poke_def)
  then show ?thesis by (simp add: cstring_def)
qed


lemma sample_views: "views sample (Shape 0 [Shape 1 [], Shape 2 []])" "bounded sample"
  by (auto simp: sample_def zero_node_def text_at_def strlen_at_def cstring_def bounded_def)


text \<open>C20: The path that \<open>cJSONUtils_FindPointerFromObjectTo\<close> returns for an item of a tree leads
  back to the item, if there is enough memory, the nodes with children are arrays or objects and the
  members of an object have different names; the path is a new block and no other is kept.\<close>

theorem find_pointer_round_trip:
  assumes "views h t" and "distinct (addrs t)" and "searchable h t" and "bounded h"
    and "\<forall>i. may_alloc (hmem h) i" and "x \<in> set (addrs t)"
  shows "\<exists>tp h' b path. cJSONUtils_FindPointerFromObjectTo h (Some (top t)) (Some x) = Some (tp, h') \<and>
    tp = Block b 0 \<and> grew h h' [] [b] \<and> text_at h' tp = Some (Some path) \<and>
    cJSONUtils_GetPointerCaseSensitive h (Some (top t)) (Some path) = Some (Some x)"
proof -
  have "depth_of t \<le> depth_fuel h" using views_depth_le [OF assms(1,4)] by (simp add: depth_fuel_def)
  from find_pointer_hits [OF assms(6,1,2,3) this assms(4,5)] follow_path_resolve [OF assms(1)] show ?thesis
    by (fastforce simp: cJSONUtils_FindPointerFromObjectTo_def found_path_def cJSONUtils_GetPointerCaseSensitive_def
      get_item_from_pointer_def)
qed

theorem find_pointer_round_trip_witness:
  "\<exists>tp h' path. cJSONUtils_FindPointerFromObjectTo sample (Some 0) (Some 2) = Some (tp, h') \<and>
    text_at h' tp = Some (Some path) \<and> cJSONUtils_GetPointerCaseSensitive sample (Some 0) (Some path) = Some (Some 2)"
proof -
  have "distinct (addrs (Shape 0 [Shape 1 [], Shape 2 []]))" "searchable sample (Shape 0 [Shape 1 [], Shape 2 []])"
    "\<forall>i. may_alloc (hmem sample) i" "2 \<in> set (addrs (Shape 0 [Shape 1 [], Shape 2 []]))"
    by (simp_all add: sample_def)
  from find_pointer_round_trip [OF sample_views(1) this(1,2) sample_views(2) this(3,4)] show ?thesis by auto
qed

end
