(* ===== verification/Sorting_Members.thy ===== *)
theory Sorting_Members
  imports Pointer_Laws "HOL-Library.List_Lexorder" "HOL-Library.Multiset"
begin

text \<open>
  The merge sort of \<open>json/cJSON_Utils.c\<close> on the children of an object: the result is a
  permutation of the children, ordered by name, and properly linked but for the pointer of the first
  child to the last, which is the old one if the first child stays first and null if not.
\<close>

section \<open>The order of names\<close>

text \<open>The characters that a comparison looks at, as numbers: names are ordered lexicographically.\<close>

definition rank_of :: "bool \<Rightarrow> string \<Rightarrow> nat list" where
  "rank_of case_sensitive s = map (\<lambda>c. ord (if case_sensitive then c else tolower c)) s"

lemma compare_by_less:
  assumes "\<And>c. f c = NUL \<longleftrightarrow> c = NUL" "nulfree s" "nulfree t"
  shows "compare_by f s t < 0 \<longleftrightarrow> map (\<lambda>c. ord (f c)) s < map (\<lambda>c. ord (f c)) t"
  using assms
proof (induction f s t rule: compare_by.induct)
  case (2 f d ds)
  then have "0 < ord (f d)" by (metis nulfree_simps(2) ord_NUL not_gr_zero)
  then show ?case by simp
next
  case (4 f c cs d ds)
  then show ?case by (auto simp: ord_inj)
qed simp_all

lemma compare_strings_less:
  "nulfree s \<Longrightarrow> nulfree t \<Longrightarrow> compare_strings (Some s) (Some t) b < 0 \<longleftrightarrow> rank_of b s < rank_of b t"
  using compare_by_less [of id s t] compare_by_less [of tolower s t]
  by (simp add: compare_strings_def strcmp_def rank_of_def)

text \<open>The rank of a node of a heap.\<close>

definition rank :: "heap \<Rightarrow> bool \<Rightarrow> nat \<Rightarrow> nat list" where
  "rank h b a = rank_of b (the (key_of h a))"

definition keyed :: "heap \<Rightarrow> nat list \<Rightarrow> bool" where
  "keyed h as \<longleftrightarrow> (\<forall>a \<in> set as. named h a \<and> key_of h a \<noteq> None)"

lemma keyed_text:
  assumes "keyed h as" "a \<in> set as" "nodes h a = Some n"
  shows "\<exists>s. text_at h (nstring n) = Some (Some s) \<and> nulfree s \<and> key_of h a = Some s"
proof -
  have k: "named h a" "key_of h a \<noteq> None" using assms(1,2) by (auto simp: keyed_def)
  then obtain s where "text_at h (nstring n) = Some (Some s)" "key_of h a = Some s"
    using assms(3) by (auto simp: named_def key_of_def)
  then show ?thesis using text_at_nulfree by blast
qed

lemma compare_ranks:
  assumes "keyed h as" "a \<in> set as" "b \<in> set as" "nodes h a = Some m" "nodes h b = Some n"
  shows "\<exists>s t. text_at h (nstring m) = Some s \<and> text_at h (nstring n) = Some t \<and>
    (compare_strings s t c < 0 \<longleftrightarrow> rank h c a < rank h c b)"
  using keyed_text [OF assms(1,2,4)] keyed_text [OF assms(1,3,5)] compare_strings_less
  by (fastforce simp: rank_def)

section \<open>Rewiring\<close>

text \<open>Only the links of the nodes \<open>A\<close> have changed.\<close>

definition rewired :: "nat set \<Rightarrow> heap \<Rightarrow> heap \<Rightarrow> bool" where
  "rewired A h h' \<longleftrightarrow> texts h' = texts h \<and> brk h' = brk h \<and> hmem h' = hmem h \<and>
     (\<forall>a. a \<notin> A \<longrightarrow> nodes h' a = nodes h a) \<and>
     (\<forall>a. map_option content_of (nodes h' a) = map_option content_of (nodes h a))"

lemma rewired_refl [simp]: "rewired A h h"
  by (simp add: rewired_def)

lemma rewired_trans: "rewired A h h1 \<Longrightarrow> rewired B h1 h2 \<Longrightarrow> A \<subseteq> C \<Longrightarrow> B \<subseteq> C \<Longrightarrow> rewired C h h2"
  unfolding rewired_def by (simp add: subset_eq) metis

lemma rewired_text_at: "rewired A h h' \<Longrightarrow> text_at h' t = text_at h t"
  by (cases t) (simp_all add: text_at_def rewired_def)

lemma rewired_change:
  "nodes h a = Some n \<Longrightarrow> content_of (f n) = content_of n \<Longrightarrow> rewired {a} h (h\<lparr>nodes := (nodes h)(a \<mapsto> f n)\<rparr>)"
  by (simp add: rewired_def)

lemma rewired_key:
  assumes "rewired A h h'" "nodes h a = Some n"
  shows "named h' a = named h a \<and> key_of h' a = key_of h a"
proof -
  obtain n' where "nodes h' a = Some n'" "nstring n' = nstring n"
    using assms content_of_eq [of h' a h n] by (auto simp: rewired_def)
  then show ?thesis using assms rewired_text_at [OF assms(1)] by (auto simp: named_def key_of_def)
qed

lemma rewired_keyed:
  assumes "rewired A h h'" "keyed h as"
  shows "keyed h' as" "\<And>a. a \<in> set as \<Longrightarrow> rank h' b a = rank h b a"
proof -
  have "named h' a = named h a \<and> key_of h' a = key_of h a" if "a \<in> set as" for a
  proof -
    obtain n where "nodes h a = Some n" using assms(2) \<open>a \<in> set as\<close> by (auto simp: keyed_def named_def)
    then show ?thesis by (rule rewired_key [OF assms(1)])
  qed
  then show "keyed h' as" "\<And>a. a \<in> set as \<Longrightarrow> rank h' b a = rank h b a"
    using assms(2) by (auto simp: keyed_def rank_def)
qed

lemma rewired_links: "rewired A h h' \<Longrightarrow> A \<inter> set xs = {} \<Longrightarrow> links (nodes h') q xs e = links (nodes h) q xs e"
  by (rule links_cong) (auto simp: rewired_def)

text \<open>The pointer of a node to the one before it.\<close>

definition prev_of :: "heap \<Rightarrow> nat \<Rightarrow> ptr" where
  "prev_of h a = Option.bind (nodes h a) nprev"

lemma links_prev: "links (nodes h) q as e \<Longrightarrow> as \<noteq> [] \<Longrightarrow> prev_of h (hd as) = q"
  by (cases as) (auto simp: prev_of_def)

lemma rewired_prev: "rewired A h h' \<Longrightarrow> a \<notin> A \<Longrightarrow> prev_of h' a = prev_of h a"
  by (simp add: rewired_def prev_of_def)

section \<open>Runs that are in order, and the middle\<close>

lemma sorted_chain_eq:
  "links (nodes h) q as None \<Longrightarrow> keyed h as \<Longrightarrow>
   sorted_chain h c (front as None) = Some (sorted_wrt (<) (map (rank h c) as))"
proof (induction as arbitrary: q)
  case Nil
  then show ?case by (subst sorted_chain.simps) simp
next
  case (Cons a as)
  obtain m where m: "nodes h a = Some m" "nnext m = front as None" "links (nodes h) (Some a) as None" using Cons.prems(1) by auto
  show ?case
  proof (cases as)
    case Nil
    then show ?thesis using m by (subst sorted_chain.simps) simp
  next
    case (Cons b bs)
    then obtain n where n: "nodes h b = Some n" using m(3) by auto
    have "a \<in> set (a # as)" "b \<in> set (a # as)" using Cons by simp_all
    from compare_ranks [OF Cons.prems(2) this m(1) n] obtain s t where
      st: "text_at h (nstring m) = Some s" "text_at h (nstring n) = Some t"
        "compare_strings s t c < 0 \<longleftrightarrow> rank h c a < rank h c b" by blast
    have "sorted_chain h c (front as None) = Some (sorted_wrt (<) (map (rank h c) as))"
      by (rule Cons.IH [OF m(3)]) (use Cons.prems(2) in \<open>simp add: keyed_def\<close>)
    then show ?thesis using m n st Cons by (subst sorted_chain.simps) (auto intro: less_trans)
  qed
qed

lemma links_drop: "links N q as None \<Longrightarrow> j < length as \<Longrightarrow>
  \<exists>n. N (as ! j) = Some n \<and> nnext n = front (drop (Suc j) as) None \<and> nprev n = hind q (take j as)"
  using links_node [of N q "take j as" "as ! j" "drop (Suc j) as" None] by (simp flip: id_take_nth_drop) blast

lemma front_drop: "front (drop j as) None = (if j < length as then Some (as ! j) else None)"
  by (cases "drop j as") (auto simp: nth_via_drop dest: arg_cong [of _ _ length])

lemma middle_eq:
  "links (nodes h) q as None \<Longrightarrow> i \<le> length as \<Longrightarrow> j \<le> i \<Longrightarrow>
   middle h (front (drop j as) None) (front (drop i as) None) = Some (front (drop (j + (length as - i + 1) div 2) as) None)"
proof (induction "length as - i" arbitrary: i j rule: less_induct)
  case less
  note lk = less.prems(1)
  show ?case
  proof (cases "i < length as")
    case False
    then show ?thesis using less.prems(2) by (subst middle.simps) simp
  next
    case True
    obtain n where n: "nodes h (as ! i) = Some n" "nnext n = front (drop (Suc i) as) None" using links_drop [OF lk True] by blast
    have "j < length as" using True less.prems(3) by simp
    from links_drop [OF lk this] obtain s where s: "nodes h (as ! j) = Some s" "nnext s = front (drop (Suc j) as) None" by blast
    show ?thesis
    proof (cases "Suc i < length as")
      case False
      then have "length as - i = 1" using True by simp
      then show ?thesis using n s True False less.prems(3)
        by (subst middle.simps) (simp add: front_drop node_at_def)
    next
      case i: True
      obtain m where m: "nodes h (as ! Suc i) = Some m" "nnext m = front (drop (Suc (Suc i)) as) None"
        using links_drop [OF lk i] by blast
      have "middle h (front (drop (Suc j) as) None) (front (drop (Suc (Suc i)) as) None) =
        Some (front (drop (Suc j + (length as - Suc (Suc i) + 1) div 2) as) None)"
        by (rule less.hyps [OF _ lk]) (use i less.prems(3) in auto)
      moreover have "Suc j + (length as - Suc (Suc i) + 1) div 2 = j + (length as - i + 1) div 2" using i by simp
      moreover define k where "k = j + (length as - i + 1) div 2"
      ultimately have "middle h (front (drop (Suc j) as) None) (front (drop (Suc (Suc i)) as) None) = Some (front (drop k as) None)"
        by (simp only:)
      then show ?thesis unfolding k_def [symmetric] using n s m i True less.prems(3)
        by (subst middle.simps) (simp add: front_drop node_at_def)
    qed
  qed
qed


section \<open>Merging\<close>

lemma front_hd: "xs \<noteq> [] \<Longrightarrow> front xs e = Some (hd xs)"
  by (cases xs) auto

fun merged :: "('a \<Rightarrow> 'b :: linorder) \<Rightarrow> 'a list \<Rightarrow> 'a list \<Rightarrow> 'a list" where
  "merged r [] ys = ys"
| "merged r (x # xs) [] = x # xs"
| "merged r (x # xs) (y # ys) = (if r x < r y then x # merged r xs (y # ys) else y # merged r (x # xs) ys)"

lemma mset_merged [simp]: "mset (merged r xs ys) = mset xs + mset ys"
  by (induction r xs ys rule: merged.induct) simp_all

lemma merged_cong: "\<forall>a \<in> set xs \<union> set ys. r' a = r a \<Longrightarrow> merged r' xs ys = merged r xs ys"
  by (induction r xs ys rule: merged.induct) simp_all

lemma sorted_merged: "sorted (map r xs) \<Longrightarrow> sorted (map r ys) \<Longrightarrow> sorted (map r (merged r xs ys))"
proof (induction r xs ys rule: merged.induct)
  case (3 r x xs y ys)
  have "set (merged r xs (y # ys)) = set xs \<union> set (y # ys)" "set (merged r (x # xs) ys) = set (x # xs) \<union> set ys"
    by (simp_all flip: set_mset_mset)
  then show ?case using 3 by (auto intro: less_imp_le)
qed simp_all

text \<open>Three lists of nodes: the result so far, whose last node still points somewhere, and the rests.\<close>

definition merging :: "heap \<Rightarrow> nat list \<Rightarrow> nat list \<Rightarrow> nat list \<Rightarrow> bool" where
  "merging h rs xs ys \<longleftrightarrow> distinct (rs @ xs @ ys) \<and> (\<exists>q e. links (nodes h) q rs e) \<and>
     (\<exists>q. links (nodes h) q xs None) \<and> (\<exists>q. links (nodes h) q ys None)"

lemma merging_swap: "merging h rs xs ys \<longleftrightarrow> merging h rs ys xs"
  by (auto simp: merging_def)

text \<open>The node \<open>x\<close> in front of a rest moves to the end of the result.\<close>

lemma merging_step:
  assumes m: "merging h rs (x # xs) ys"
  shows "\<exists>h'. (if rs = [] then Some h else suffix_object h (hind None rs) (Some x)) = Some h' \<and>
    rewired (set (rs @ [x])) h h' \<and> merging h' (rs @ [x]) xs ys \<and> nodes h' x \<noteq> None \<and>
    (\<forall>n. nodes h' x = Some n \<longrightarrow> nnext n = front xs None) \<and> prev_of h' (hd (rs @ [x])) = prev_of h (hd (rs @ [x]))"
proof -
  obtain q e q1 q2 where l: "distinct (rs @ (x # xs) @ ys)" "links (nodes h) q rs e" "links (nodes h) q1 (x # xs) None"
    "links (nodes h) q2 ys None" using m by (auto simp: merging_def)
  obtain n where n: "nodes h x = Some n" "nnext n = front xs None" "links (nodes h) (Some x) xs None" using l(3) by auto
  show ?thesis
  proof (cases rs rule: rev_cases)
    case Nil
    then have "merging h [x] xs ys" using l n by (auto simp: merging_def)
    then show ?thesis using Nil n by simp
  next
    case (snoc us t)
    obtain k where k: "nodes h t = Some k" using links_node [of "nodes h" q us t "[]" e] l(2) snoc by auto
    define h' where "h' = h\<lparr>nodes := (nodes h)(t \<mapsto> k\<lparr>nnext := Some x\<rparr>, x \<mapsto> n\<lparr>nprev := Some t\<rparr>)\<rparr>"
    have tx: "t \<noteq> x" using l(1) snoc by auto
    have run: "suffix_object h (hind None rs) (Some x) = Some h'"
      using k n(1) tx snoc by (simp add: suffix_object_def set_next_def set_prev_def change_def h'_def)
    have "rewired (set (rs @ [x])) h h'" using k n(1) tx snoc by (auto simp: rewired_def h'_def)
    moreover have "links (nodes h') q (rs @ [x]) (front xs None)"
      using l(1,2) snoc n tx k by (auto simp: h'_def links_append)
    moreover have "links (nodes h') (Some x) xs None" "links (nodes h') q2 ys None"
      using l(1,4) n(3) snoc by (auto simp: h'_def)
    ultimately have "rewired (set (rs @ [x])) h h' \<and> merging h' (rs @ [x]) xs ys"
      using l(1) by (auto simp: merging_def)
    moreover have "prev_of h' (hd (rs @ [x])) = prev_of h (hd (rs @ [x]))"
      using l(1) k n(1) tx snoc by (cases us) (auto simp: prev_of_def h'_def)
    ultimately show ?thesis using run snoc n(2) by (auto simp: h'_def)
  qed
qed

lemma merge_loop_merges:
  "merging h rs xs ys \<Longrightarrow> keyed h (xs @ ys) \<Longrightarrow>
   \<exists>rs' xs' ys' h'. merge_loop c (front xs None) (front ys None) (front rs None) (hind None rs) h =
       Some (front xs' None, front ys' None, front rs' None, hind None rs', h') \<and>
     rs' @ xs' @ ys' = rs @ merged (rank h c) xs ys \<and> (xs' = [] \<or> ys' = []) \<and> (xs @ ys \<noteq> [] \<longrightarrow> xs' @ ys' \<noteq> []) \<and>
     merging h' rs' xs' ys' \<and> rewired (set (rs @ xs @ ys)) h h' \<and>
     prev_of h' (hd (rs @ merged (rank h c) xs ys)) = prev_of h (hd (rs @ merged (rank h c) xs ys))"
proof (induction "length xs + length ys" arbitrary: h rs xs ys rule: less_induct)
  case less
  show ?case
  proof (cases "xs = [] \<or> ys = []")
    case True
    then have "merge_loop c (front xs None) (front ys None) (front rs None) (hind None rs) h =
      Some (front xs None, front ys None, front rs None, hind None rs, h)" by (subst merge_loop.simps) simp
    moreover have "merged (rank h c) xs ys = xs @ ys" using True by (cases xs) auto
    ultimately show ?thesis using True less.prems(1) by fastforce
  next
    case False
    then obtain x xs1 y ys1 where xy: "xs = x # xs1" "ys = y # ys1" by (meson neq_Nil_conv)
    have xy': "x \<in> set (xs @ ys)" "y \<in> set (xs @ ys)" "x \<noteq> y" using xy less.prems(1) by (auto simp: merging_def)
    obtain m n where mn: "nodes h x = Some m" "nodes h y = Some n" using less.prems(1) xy by (auto simp: merging_def)
    from compare_ranks [OF less.prems(2) xy'(1,2) mn] obtain s t where st: "text_at h (nstring m) = Some s"
      "text_at h (nstring n) = Some t" "compare_strings s t c < 0 \<longleftrightarrow> rank h c x < rank h c y" by blast
    have rs: "(front rs None = None) = (rs = [])" by simp
    show ?thesis
    proof (cases "rank h c x < rank h c y")
      case True
      obtain h1 where h1: "(if rs = [] then Some h else suffix_object h (hind None rs) (Some x)) = Some h1"
        "rewired (set (rs @ [x])) h h1" "merging h1 (rs @ [x]) xs1 ys" "nodes h1 x \<noteq> None"
        "\<forall>n. nodes h1 x = Some n \<longrightarrow> nnext n = front xs1 None" "prev_of h1 (hd (rs @ [x])) = prev_of h (hd (rs @ [x]))" using merging_step [of h rs x xs1 ys] less.prems(1) xy(1) by blast
      obtain k where k: "nodes h1 x = Some k" "nnext k = front xs1 None" using h1(4,5) by blast
      have step: "merge_loop c (front xs None) (front ys None) (front rs None) (hind None rs) h =
        merge_loop c (front xs1 None) (front ys None) (front (rs @ [x]) None) (hind None (rs @ [x])) h1"
        using mn st True xy h1(1) k by (subst merge_loop.simps) (cases "rs = []"; simp add: node_at_def Let_def front_hd)
      have kd: "keyed h1 (xs1 @ ys)" "\<forall>a \<in> set xs1 \<union> set ys. rank h1 c a = rank h c a"
        using rewired_keyed [OF h1(2) less.prems(2)] xy by (auto simp: keyed_def)
      have "length xs1 + length ys < length xs + length ys" using xy by simp
      from less.hyps [OF this h1(3) kd(1)] obtain rs' xs' ys' h' where r:
        "merge_loop c (front xs1 None) (front ys None) (front (rs @ [x]) None) (hind None (rs @ [x])) h1 =
          Some (front xs' None, front ys' None, front rs' None, hind None rs', h')"
        "rs' @ xs' @ ys' = (rs @ [x]) @ merged (rank h1 c) xs1 ys" "xs' = [] \<or> ys' = []"
        "xs1 @ ys \<noteq> [] \<longrightarrow> xs' @ ys' \<noteq> []" "merging h' rs' xs' ys'" "rewired (set ((rs @ [x]) @ xs1 @ ys)) h1 h'"
        "prev_of h' (hd ((rs @ [x]) @ merged (rank h1 c) xs1 ys)) = prev_of h1 (hd ((rs @ [x]) @ merged (rank h1 c) xs1 ys))" by blast
      have mg: "rs @ merged (rank h c) xs ys = (rs @ [x]) @ merged (rank h1 c) xs1 ys" using merged_cong [OF kd(2)] True xy by simp
      have "rs' @ xs' @ ys' = rs @ merged (rank h c) xs ys" using r(2) mg by simp
      moreover have "prev_of h' (hd (rs @ merged (rank h c) xs ys)) = prev_of h (hd (rs @ merged (rank h c) xs ys))"
        using r(7) h1(6) unfolding mg by (cases rs) simp_all
      moreover have "rewired (set (rs @ xs @ ys)) h h'" by (rule rewired_trans [OF h1(2) r(6)]) (use xy in auto)
      ultimately show ?thesis unfolding step using r(1,3,4,5) xy by blast
    next
      case False
      obtain h1 where h1: "(if rs = [] then Some h else suffix_object h (hind None rs) (Some y)) = Some h1"
        "rewired (set (rs @ [y])) h h1" "merging h1 (rs @ [y]) ys1 xs" "nodes h1 y \<noteq> None"
        "\<forall>n. nodes h1 y = Some n \<longrightarrow> nnext n = front ys1 None" "prev_of h1 (hd (rs @ [y])) = prev_of h (hd (rs @ [y]))" using merging_step [of h rs y ys1 xs] less.prems(1) xy(2) merging_swap by metis
      obtain k where k: "nodes h1 y = Some k" "nnext k = front ys1 None" using h1(4,5) by blast
      have step: "merge_loop c (front xs None) (front ys None) (front rs None) (hind None rs) h =
        merge_loop c (front xs None) (front ys1 None) (front (rs @ [y]) None) (hind None (rs @ [y])) h1"
        using mn st False xy xy'(3) h1(1) k by (subst merge_loop.simps) (cases "rs = []"; simp add: node_at_def Let_def front_hd)
      have kd: "keyed h1 (xs @ ys1)" "\<forall>a \<in> set xs \<union> set ys1. rank h1 c a = rank h c a"
        using rewired_keyed [OF h1(2) less.prems(2)] xy by (auto simp: keyed_def)
      have "length xs + length ys1 < length xs + length ys" using xy by simp
      from less.hyps [OF this h1(3) [unfolded merging_swap [of h1 "rs @ [y]" ys1 xs]] kd(1)] obtain rs' xs' ys' h' where r:
        "merge_loop c (front xs None) (front ys1 None) (front (rs @ [y]) None) (hind None (rs @ [y])) h1 =
          Some (front xs' None, front ys' None, front rs' None, hind None rs', h')"
        "rs' @ xs' @ ys' = (rs @ [y]) @ merged (rank h1 c) xs ys1" "xs' = [] \<or> ys' = []"
        "xs @ ys1 \<noteq> [] \<longrightarrow> xs' @ ys' \<noteq> []" "merging h' rs' xs' ys'" "rewired (set ((rs @ [y]) @ xs @ ys1)) h1 h'"
        "prev_of h' (hd ((rs @ [y]) @ merged (rank h1 c) xs ys1)) = prev_of h1 (hd ((rs @ [y]) @ merged (rank h1 c) xs ys1))" by blast
      have mg: "rs @ merged (rank h c) xs ys = (rs @ [y]) @ merged (rank h1 c) xs ys1" using merged_cong [OF kd(2)] False xy by simp
      have "rs' @ xs' @ ys' = rs @ merged (rank h c) xs ys" using r(2) mg by simp
      moreover have "prev_of h' (hd (rs @ merged (rank h c) xs ys)) = prev_of h (hd (rs @ merged (rank h c) xs ys))"
        using r(7) h1(6) unfolding mg by (cases rs) simp_all
      moreover have "rewired (set (rs @ xs @ ys)) h h'" by (rule rewired_trans [OF h1(2) r(6)]) (use xy in auto)
      ultimately show ?thesis unfolding step using r(1,3,4,5) xy by blast
    qed
  qed
qed


lemma append_rest:
  assumes l: "links (nodes h) q rs e" "links (nodes h) q1 (z # zs) None" and d: "distinct (rs @ z # zs)" and r: "rs \<noteq> []"
  shows "\<exists>h'. suffix_object h (hind None rs) (Some z) = Some h' \<and> links (nodes h') q (rs @ z # zs) None \<and>
    rewired (set (rs @ z # zs)) h h' \<and> prev_of h' (hd rs) = prev_of h (hd rs)"
proof -
  obtain us t where snoc: "rs = us @ [t]" using r by (cases rs rule: rev_cases) auto
  obtain k where k: "nodes h t = Some k" using links_node [of "nodes h" q us t "[]" e] l(1) snoc by auto
  obtain n where n: "nodes h z = Some n" using l(2) by auto
  let ?h = "h\<lparr>nodes := (nodes h)(t \<mapsto> k\<lparr>nnext := Some z\<rparr>, z \<mapsto> n\<lparr>nprev := Some t\<rparr>)\<rparr>"
  have tz: "t \<noteq> z" using d snoc by auto
  have "suffix_object h (hind None rs) (Some z) = Some ?h"
    using k n tz snoc by (simp add: suffix_object_def set_next_def set_prev_def change_def)
  moreover have "links (nodes ?h) q (rs @ z # zs) None" using l d snoc n k tz by (auto simp: links_append)
  moreover have "rewired (set (rs @ z # zs)) h ?h" using k n tz snoc by (auto simp: rewired_def)
  moreover have "prev_of ?h (hd rs) = prev_of h (hd rs)" using k tz snoc d by (cases us) (auto simp: prev_of_def)
  ultimately show ?thesis by blast
qed

lemma merge_lists_merges:
  assumes m: "merging h [] xs ys" and k: "keyed h (xs @ ys)" and ne: "xs @ ys \<noteq> []"
  shows "\<exists>h'. merge_lists c (front xs None) (front ys None) h = Some (front (merged (rank h c) xs ys) None, h') \<and>
    links (nodes h') (prev_of h (hd (merged (rank h c) xs ys))) (merged (rank h c) xs ys) None \<and> rewired (set (xs @ ys)) h h'"
proof -
  obtain rs xs' ys' h1 where r: "merge_loop c (front xs None) (front ys None) None None h =
      Some (front xs' None, front ys' None, front rs None, hind None rs, h1)"
    "rs @ xs' @ ys' = merged (rank h c) xs ys" "xs' = [] \<or> ys' = []" "xs' @ ys' \<noteq> []" "merging h1 rs xs' ys'"
    "rewired (set (xs @ ys)) h h1" "prev_of h1 (hd (merged (rank h c) xs ys)) = prev_of h (hd (merged (rank h c) xs ys))"
    using merge_loop_merges [OF m k, of c] ne by auto
  obtain z zs where z: "xs' @ ys' = z # zs" using r(4) by (cases "xs' @ ys'") auto
  obtain q e q1 where l: "links (nodes h1) q rs e" "links (nodes h1) q1 (z # zs) None" "distinct (rs @ z # zs)"
    using r(3,5) z by (auto simp: merging_def)
  have all: "rs @ z # zs = merged (rank h c) xs ys" using r(2) z by simp
  show ?thesis
  proof (cases "rs = []")
    case True
    have "merge_lists c (front xs None) (front ys None) h = Some (Some z, h1)"
      using r(1,3) z True by (auto simp: merge_lists_def)
    moreover have "links (nodes h1) (prev_of h (hd (z # zs))) (z # zs) None"
      using links_prev [OF l(2)] r(7) l(2) True by (simp flip: all del: links.simps)
    ultimately show ?thesis using True r(6) by (simp flip: all del: links.simps)
  next
    case False
    obtain h2 where h2: "suffix_object h1 (hind None rs) (Some z) = Some h2" "links (nodes h2) q (rs @ z # zs) None"
      "rewired (set (rs @ z # zs)) h1 h2" "prev_of h2 (hd rs) = prev_of h1 (hd rs)" using append_rest [OF l False] by blast
    have "prev_of h (hd (rs @ z # zs)) = q" using r(7) links_prev [OF l(1) False] False by (simp flip: all)
    have "front xs' None = Some z \<and> front ys' None = None \<or> front xs' None = None \<and> front ys' None = Some z"
      using r(3) z by auto
    then have "merge_lists c (front xs None) (front ys None) h = Some (front (rs @ z # zs) None, h2)"
      using r(1) False h2(1) by (auto simp: merge_lists_def front_hd)
    moreover have "set (rs @ z # zs) = set (xs @ ys)" unfolding all by (metis mset_merged mset_append set_mset_mset)
    ultimately show ?thesis using h2(2) rewired_trans [OF r(6) h2(3)] \<open>prev_of h (hd (rs @ z # zs)) = q\<close> unfolding all by auto
  qed
qed

section \<open>Sorting\<close>

text \<open>The list that is left of the sort: a permutation in order, linked from the first to the last node.\<close>

definition sorted_to :: "heap \<Rightarrow> bool \<Rightarrow> nat list \<Rightarrow> heap \<Rightarrow> nat list \<Rightarrow> bool" where
  "sorted_to h c as h' bs \<longleftrightarrow> mset bs = mset as \<and> sorted (map (rank h c) bs) \<and> (\<exists>q. links (nodes h') q bs None) \<and>
     rewired (set as) h h'"

lemma keyed_mono: "keyed h as \<Longrightarrow> set bs \<subseteq> set as \<Longrightarrow> keyed h bs"
  by (auto simp: keyed_def)

text \<open>Cutting the list in front of its second half.\<close>

lemma cut_halves:
  assumes l: "links (nodes h) q (xs @ y # ys) None" and d: "distinct (xs @ y # ys)" and x: "xs \<noteq> []"
  shows "\<exists>s h1. nodes h y = Some s \<and> nprev s \<noteq> None \<and>
    Option.bind (set_next h (nprev s) None) (\<lambda>h. set_prev h (Some y) None) = Some h1 \<and>
    links (nodes h1) q xs None \<and> links (nodes h1) None (y # ys) None \<and> rewired (set (xs @ y # ys)) h h1"
proof -
  obtain us t where snoc: "xs = us @ [t]" using x by (cases xs rule: rev_cases) auto
  obtain k s where ks: "nodes h t = Some k" "nodes h y = Some s" "nprev s = Some t" using l snoc by (auto simp: links_append)
  let ?h = "h\<lparr>nodes := (nodes h)(t \<mapsto> k\<lparr>nnext := None\<rparr>, y \<mapsto> s\<lparr>nprev := None\<rparr>)\<rparr>"
  have ty: "t \<noteq> y" using d snoc by auto
  have "Option.bind (set_next h (nprev s) None) (\<lambda>h. set_prev h (Some y) None) = Some ?h"
    using ks ty by (simp add: set_next_def set_prev_def change_def)
  moreover have "links (nodes ?h) q xs None" "links (nodes ?h) None (y # ys) None"
    using l d snoc ks ty by (auto simp: links_append)
  moreover have "rewired (set (xs @ y # ys)) h ?h" using ks ty snoc by (auto simp: rewired_def)
  ultimately show ?thesis using ks by auto
qed


lemma sorted_to_set: "sorted_to h c as h' bs \<Longrightarrow> set bs = set as \<and> length bs = length as"
  unfolding sorted_to_def by (metis set_mset_mset size_mset)

lemma sorted_rank_cong: "\<forall>a \<in> set bs. r' a = r a \<Longrightarrow> sorted (map r' bs) = sorted (map r bs)"
  by (metis map_cong)

lemma sort_list_sorts:
  "links (nodes h) q as None \<Longrightarrow> distinct as \<Longrightarrow> keyed h as \<Longrightarrow> length as \<le> fuel \<Longrightarrow> 0 < fuel \<Longrightarrow>
   \<exists>bs h'. sort_list fuel h (front as None) c = Some (front bs None, h') \<and> sorted_to h c as h' bs \<and>
     links (nodes h') (if hd bs = hd as then q else None) bs None"
proof (induction fuel arbitrary: h q as)
  case (Suc fuel)
  note l = Suc.prems(1) and k = Suc.prems(3)
  show ?case
  proof (cases "length as \<le> 1")
    case True
    then have "as = [] \<or> (\<exists>a. as = [a])" by (cases as) auto
    moreover have "sorted_to h c as h as" using l calculation by (auto simp: sorted_to_def)
    ultimately show ?thesis using l by (intro exI [of _ as] exI [of _ h]) (auto simp del: bind_Some_iff)
  next
    case False
    obtain a b zs where as: "as = a # b # zs" using False by (cases as; cases "tl as") auto
    obtain m where m: "nodes h a = Some m" "nnext m = Some b" using l as by auto
    show ?thesis
    proof (cases "sorted_wrt (<) (map (rank h c) as)")
      case True
      have "sorted_to h c as h as" using l strict_sorted_imp_sorted [OF True] by (auto simp: sorted_to_def)
      moreover have "sort_list (Suc fuel) h (front as None) c = Some (front as None, h)"
        using m as True sorted_chain_eq [OF l k, of c] by (auto simp del: bind_Some_iff)
      ultimately show ?thesis using l by auto
    next
      case unsorted: False
      define i where "i = (length as + 1) div 2"
      have i: "0 < i" "i < length as" using as by (auto simp: i_def)
      define xs where "xs = take i as"
      obtain y ys where y: "drop i as = y # ys" using i(2) by (cases "drop i as") auto
      have split: "as = xs @ y # ys" by (metis append_take_drop_id xs_def y)
      have "xs \<noteq> []" using i as by (simp add: xs_def)
      moreover from this have "front (xs @ y # ys) None = front xs None" by (simp add: front_hd)
      ultimately have xs: "xs \<noteq> []" "front as None = front xs None" by (simp_all only: split not_False_eq_True)
      obtain s h1 where s: "nodes h y = Some s" "nprev s \<noteq> None"
        "Option.bind (set_next h (nprev s) None) (\<lambda>h. set_prev h (Some y) None) = Some h1"
        "links (nodes h1) q xs None" "links (nodes h1) None (y # ys) None" "rewired (set as) h h1"
        using cut_halves [of h q xs y ys] l Suc.prems(2) xs(1) split by auto
      have k1: "keyed h1 as" "\<forall>a \<in> set as. rank h1 c a = rank h c a" using rewired_keyed [OF s(6) k] by auto
      have len: "length xs \<le> fuel" "length (y # ys) \<le> fuel" "0 < fuel"
      proof -
        have "length as = length xs + length (y # ys)" "0 < length xs" using arg_cong [OF split, of length] xs(1) by simp_all
        then show "length xs \<le> fuel" "length (y # ys) \<le> fuel" "0 < fuel" using Suc.prems(4) by (simp_all del: length_greater_0_conv)
      qed
      obtain as1 h2 where A: "sort_list fuel h1 (front xs None) c = Some (front as1 None, h2)" "sorted_to h1 c xs h2 as1"
        "links (nodes h2) (if hd as1 = hd xs then q else None) as1 None"
        using Suc.IH [OF s(4) _ keyed_mono [OF k1(1)] len(1,3)] Suc.prems(2) split by auto
      have r2: "rewired (set xs) h1 h2" using A(2) by (simp add: sorted_to_def)
      have k2: "keyed h2 as" "\<forall>a \<in> set as. rank h2 c a = rank h c a" using rewired_keyed [OF r2 k1(1)] k1(2) by auto
      have "links (nodes h2) None (y # ys) None"
        using s(5) rewired_links [OF r2, of "y # ys"] Suc.prems(2) split by auto
      then obtain as2 h3 where B: "sort_list fuel h2 (Some y) c = Some (front as2 None, h3)" "sorted_to h2 c (y # ys) h3 as2"
        "links (nodes h3) None as2 None"
        using Suc.IH [OF _ _ keyed_mono [OF k2(1)] len(2,3), of None] Suc.prems(2) split by fastforce
      have r3: "rewired (set (y # ys)) h2 h3" using B(2) by (simp add: sorted_to_def)
      have k3: "keyed h3 as" "\<forall>a \<in> set as. rank h3 c a = rank h c a" using rewired_keyed [OF r3 k2(1)] k2(2) by auto
      have sets: "set as1 = set xs" "set as2 = set (y # ys)" "length as1 = length xs" using sorted_to_set A(2) B(2) by blast+
      have d: "distinct (as1 @ as2)" using A(2) B(2) Suc.prems(2) unfolding sorted_to_def split
        by (metis distinct_append mset_append mset_eq_imp_distinct_iff)
      have la: "links (nodes h3) (if hd as1 = hd xs then q else None) as1 None"
      proof -
        have "set (y # ys) \<inter> set as1 = {}" using Suc.prems(2) sets(1) split by auto
        then show ?thesis using A(3) rewired_links [OF r3] by simp
      qed
      then have "merging h3 [] as1 as2" using B(3) d unfolding merging_def by auto
      moreover have "keyed h3 (as1 @ as2)" by (rule keyed_mono [OF k3(1)]) (use sets split in auto)
      moreover have "as1 @ as2 \<noteq> []" using sets xs by auto
      ultimately obtain h4 where C: "merge_lists c (front as1 None) (front as2 None) h3 = Some (front (merged (rank h3 c) as1 as2) None, h4)"
        "links (nodes h4) (prev_of h3 (hd (merged (rank h3 c) as1 as2))) (merged (rank h3 c) as1 as2) None" "rewired (set (as1 @ as2)) h3 h4"
        using merge_lists_merges by blast
      let ?bs = "merged (rank h3 c) as1 as2"
      have run: "sort_list (Suc fuel) h (front as None) c = Some (front ?bs None, h4)"
      proof -
        have fa: "front as None = Some a" "front xs None = Some a" using xs(2) as by simp_all
        have "middle h (front as None) (front as None) = Some (Some y)"
          using middle_eq [OF l, of 0 0] y by (simp add: i_def)
        moreover have "sorted_chain h c (front as None) = Some False" using sorted_chain_eq [OF l k, of c] unsorted by simp
        ultimately show ?thesis using m s(1-3) A(1) B(1) C(1) unfolding fa by (simp del: bind_Some_iff)
      qed
      have mb: "mset ?bs = mset as" using A(2) B(2) split by (simp add: sorted_to_def)
      have "sorted (map (rank h3 c) as1)" "sorted (map (rank h3 c) as2)"
      proof -
        have "\<forall>a \<in> set as1. rank h3 c a = rank h1 c a" "\<forall>a \<in> set as2. rank h3 c a = rank h2 c a"
          using k1(2) k2(2) k3(2) sets split by auto
        then show "sorted (map (rank h3 c) as1)" "sorted (map (rank h3 c) as2)"
          using A(2) B(2) sorted_rank_cong unfolding sorted_to_def by blast+
      qed
      then have "sorted (map (rank h3 c) ?bs)" by (rule sorted_merged)
      moreover have "\<forall>a \<in> set ?bs. rank h3 c a = rank h c a" using k3(2) mb by (metis set_mset_mset)
      ultimately have "sorted (map (rank h c) ?bs)" using sorted_rank_cong by blast
      moreover have sub: "set xs \<subseteq> set as" "set (y # ys) \<subseteq> set as" "set (as1 @ as2) \<subseteq> set as" using sets split by auto
      have "rewired (set as) h h4"
        by (rule rewired_trans [OF rewired_trans [OF rewired_trans [OF s(6) r2 subset_refl sub(1)] r3 subset_refl sub(2)]
          C(3) subset_refl sub(3)])
      ultimately have st: "sorted_to h c as h4 ?bs" using C(2) mb unfolding sorted_to_def by blast
      have "prev_of h3 (hd ?bs) = (if hd ?bs = hd as then q else None)"
      proof -
        have ne: "as1 \<noteq> []" "as2 \<noteq> []" using sets xs(1) by auto
        have "hd ?bs = hd as1 \<or> hd ?bs = hd as2" using ne by (cases as1; cases as2) auto
        moreover have "hd as = hd xs" "hd xs \<in> set xs" using split xs(1) by simp_all
        moreover have "hd as2 \<noteq> hd xs" using ne(2) sets(2) Suc.prems(2) split calculation(3) hd_in_set [OF ne(2)] by auto
        ultimately show ?thesis using links_prev [OF la ne(1)] links_prev [OF B(3) ne(2)] by auto
      qed
      from C(2) [unfolded this] show ?thesis using run st by blast
    qed
  qed
qed simp


section \<open>The properties\<close>

lemma length_le_brk:
  assumes "bounded h" "distinct as" "keyed h as"
  shows "length as \<le> brk h"
proof -
  have "nodes h a \<noteq> None" if "a \<in> set as" for a using assms(3) that by (auto simp: keyed_def named_def)
  then have "set as \<subseteq> {..<brk h}" using bounded_lt(1) [OF assms(1)] by auto
  from card_mono [OF _ this] show ?thesis using assms(2) by (simp add: distinct_card)
qed

lemma sort_object_relinks:
  assumes "kids h p cs" and "keyed h cs" and "bounded h"
  shows "\<exists>h' bs n'. sort_object h (Some p) c = Some h' \<and> mset bs = mset cs \<and> sorted (map (rank h c) bs) \<and>
    relinked p (set cs) h h' \<and> nodes h' p = Some n' \<and> chain (nodes h') (nchild n') bs \<and>
    nchild n' = front bs None \<and> links (nodes h') (if hd bs = hd cs then hind None cs else None) bs None"
proof -
  obtain n where n: "nodes h p = Some n" "nchild n = front cs None" and l: "links (nodes h) (hind None cs) cs None"
    and d: "p \<notin> set cs" "distinct cs" using assms(1) by (auto simp: kids_def)
  have "length cs \<le> depth_fuel h" "0 < depth_fuel h" using length_le_brk [OF assms(3) d(2) assms(2)] by (simp_all add: depth_fuel_def)
  from sort_list_sorts [OF l d(2) assms(2) this, of c] obtain bs h1 where
    h1: "sort_list (depth_fuel h) h (front cs None) c = Some (front bs None, h1)" "sorted_to h c cs h1 bs"
    "links (nodes h1) (if hd bs = hd cs then hind None cs else None) bs None" by blast
  note q = h1(3)
  have rw: "rewired (set cs) h h1" using h1(2) by (simp add: sorted_to_def)
  let ?h = "h1\<lparr>nodes := (nodes h1)(p \<mapsto> n\<lparr>nchild := front bs None\<rparr>)\<rparr>"
  have np: "nodes h1 p = Some n" using rw d(1) n(1) by (simp add: rewired_def)
  have run: "sort_object h (Some p) c = Some ?h"
    using n h1(1) np by (simp add: sort_object_def node_at_def set_child_def change_def)
  have "p \<notin> set bs" using sorted_to_set [OF h1(2)] d(1) by simp
  then have lk: "links (nodes ?h) (if hd bs = hd cs then hind None cs else None) bs None" using q by simp
  note ch = links_chain [OF this]
  have "?h = h\<lparr>nodes := nodes ?h\<rparr>" using rw by (cases h; cases h1) (simp add: rewired_def)
  then have "relinked p (set cs) h ?h" using rw n(1) d(1) by (auto simp: relinked_def rewired_def)
  moreover have "nodes ?h p = Some (n\<lparr>nchild := front bs None\<rparr>)" "nchild (n\<lparr>nchild := front bs None\<rparr>) = front bs None" by simp_all
  ultimately show ?thesis using run ch lk h1(2) unfolding sorted_to_def by metis
qed

text \<open>C21: Sorting an object permutes its members into the order of their names, with or without
  case, and changes nothing but the links; the members can be read in that order afterwards.\<close>

theorem sort_object_sorts:
  assumes "kids h p cs" and "keyed h cs" and "bounded h"
  shows "\<exists>h' bs. sort_object h (Some p) c = Some h' \<and> mset bs = mset cs \<and> sorted (map (rank h c) bs) \<and>
    relinked p (set cs) h h' \<and> (\<forall>k. get_array_item h' (Some p) k = Some (if k < length bs then Some (bs ! k) else None))"
proof -
  obtain h' bs n' where h': "sort_object h (Some p) c = Some h'" "mset bs = mset cs" "sorted (map (rank h c) bs)"
    "relinked p (set cs) h h'" "nodes h' p = Some n'" "chain (nodes h') (nchild n') bs"
    using sort_object_relinks [OF assms, of c] by blast
  then have "get_array_item h' (Some p) k = Some (if k < length bs then Some (bs ! k) else None)" for k
    using chain_nth_eq [of h'] by (simp add: get_array_item_def)
  then show ?thesis using h'(1-4) by blast
qed

text \<open>An object 0 with the members 1 and 2 of the names \<open>b\<close> and \<open>a\<close>.\<close>

definition sample_members :: heap where
  "sample_members = \<lparr>nodes = [0 \<mapsto> zero_node\<lparr>nchild := Some 1, ntype := cJSON_Object\<rparr>,
       1 \<mapsto> zero_node\<lparr>nnext := Some 2, nprev := Some 2, ntype := cJSON_True, nstring := Block 3 0\<rparr>,
       2 \<mapsto> zero_node\<lparr>nprev := Some 1, ntype := cJSON_False, nstring := Block 4 0\<rparr>],
     texts = [3 \<mapsto> ''b'' @ [NUL], 4 \<mapsto> ''a'' @ [NUL]], brk = 5,
     hmem = \<lparr>may_alloc = (\<lambda>_. True), tries = 0, live = 5, has_realloc = True, junk = (\<lambda>_. NUL)\<rparr>\<rparr>"

theorem sort_object_sorts_witness:
  "\<exists>h'. sort_object sample_members (Some 0) True = Some h' \<and> get_array_item h' (Some 0) 0 = Some (Some 2)"
proof -
  have k: "kids sample_members 0 [1, 2]" "keyed sample_members [1, 2]" "bounded sample_members"
    "rank sample_members True 1 = [98]" "rank sample_members True 2 = [97]"
    by (auto simp: sample_members_def kids_def zero_node_def bounded_def keyed_def named_def key_of_def text_at_def
      strlen_at_def cstring_def rank_def rank_of_def)
  from sort_object_sorts [OF k(1-3), of True] obtain h' bs where b: "sort_object sample_members (Some 0) True = Some h'"
    "mset bs = mset [1, 2]" "sorted (map (rank sample_members True) bs)"
    "\<forall>i. get_array_item h' (Some 0) i = Some (if i < length bs then Some (bs ! i) else None)" by blast
  have "length bs = 2" "set bs = {1, 2}" using b(2) by (metis size_mset length_Cons list.size(3) numeral_2_eq_2, metis list.simps(15) empty_set set_mset_mset)
  then obtain x y where "bs = [x, y]" "{x, y} = {1, 2}" by (cases bs; cases "tl bs") auto
  then have "bs = [2, 1]" using b(3) k(4,5) by (auto simp: doubleton_eq_iff)
  then show ?thesis using b(1,4) by auto
qed

lemma links_then_chain: "links N q ws e \<Longrightarrow> chain N e ys \<Longrightarrow> chain N (front ws e) (ws @ ys)"
proof (induction ws arbitrary: q)
  case (Cons a ws)
  then show ?case by auto
qed simp

text \<open>Adding to a list whose first node points back to some node of it, or to none.\<close>

lemma add_after_last:
  assumes p: "nodes h p = Some n" "nchild n = front bs None" and l: "links (nodes h) (Some l) bs None"
    and b: "bs = us @ l # vs" and d: "distinct (p # x # bs)" and x: "loose h x"
  shows "\<exists>h' n'. add_item_to_array h (Some p) (Some x) = Some (True, h') \<and> nodes h' p = Some n' \<and> chain (nodes h') (nchild n') (us @ [l, x])"
proof -
  obtain m where m: "nodes h x = Some m" "nnext m = None" using x by (auto simp: loose_def)
  show ?thesis
  proof (cases us)
    case Nil
    then obtain nl where "nodes h l = Some nl" "nprev nl = Some l" using l b by auto
    then show ?thesis using p b d m Nil
      by (simp add: add_item_to_array_def set_defs change_def node_at_def del: bind_Some_iff)
  next
    case (Cons c ws)
    have lk: "links (nodes h) (Some c) ws (Some l)" using l b Cons by (auto simp: links_append)
    obtain nl nc where n: "nodes h l = Some nl" "nodes h c = Some nc" "nprev nc = Some l" "nnext nc = front ws (Some l)"
      using l b Cons by (auto simp: links_append)
    define h' where "h' = h\<lparr>nodes := (nodes h)(l \<mapsto> nl\<lparr>nnext := Some x\<rparr>, x \<mapsto> m\<lparr>nprev := Some l\<rparr>, c \<mapsto> nc\<lparr>nprev := Some x\<rparr>)\<rparr>"
    have "add_item_to_array h (Some p) (Some x) = Some (True, h')"
      using p b d m Cons n by (simp add: add_item_to_array_def set_defs change_def node_at_def h'_def del: bind_Some_iff)
    moreover have "links (nodes h') (Some c) ws (Some l)" using lk d b Cons by (simp add: h'_def)
    then have "chain (nodes h') (front ws (Some l)) (ws @ [l, x])"
      by (rule links_then_chain) (use n m d b Cons in \<open>simp add: h'_def\<close>)
    then have "chain (nodes h') (Some c) (us @ [l, x])" using n Cons d b by (auto simp: h'_def)
    ultimately show ?thesis using p b d Cons by (auto simp: h'_def)
  qed
qed

text \<open>C22: What becomes of an item that is added to the members \<open>cs\<close> of an object after they were sorted to \<open>bs\<close>,
  although the addition is reported to succeed: if another member came to the front, the item is added nowhere
  (its memory is lost); if not, it is put behind the member that was the last before, and the members that were
  sorted behind that one are lost.\<close>

theorem sort_then_add_loses:
  assumes "kids h p cs" and "cs \<noteq> []" and "keyed h cs" and "bounded h" and "loose h x" and "x \<noteq> p" and "x \<notin> set cs"
  shows "\<exists>h1 bs h2 n. sort_object h (Some p) c = Some h1 \<and> mset bs = mset cs \<and> sorted (map (rank h c) bs) \<and>
    add_item_to_array h1 (Some p) (Some x) = Some (True, h2) \<and> (hd bs \<noteq> hd cs \<longrightarrow> h2 = h1) \<and>
    nodes h2 p = Some n \<and>
    chain (nodes h2) (nchild n) (if hd bs \<noteq> hd cs then bs else takeWhile (\<lambda>a. a \<noteq> last cs) bs @ [last cs, x])"
proof -
  obtain h1 bs n where h1: "sort_object h (Some p) c = Some h1" "mset bs = mset cs" "sorted (map (rank h c) bs)"
    "relinked p (set cs) h h1" "nodes h1 p = Some n" "chain (nodes h1) (nchild n) bs"
    "nchild n = front bs None" "links (nodes h1) (if hd bs = hd cs then hind None cs else None) bs None"
    using sort_object_relinks [OF assms(1,3,4), of c] by blast
  have st: "set bs = set cs" "bs \<noteq> []" using h1(2) assms(2) by (metis set_mset_mset, metis mset_zero_iff)
  show ?thesis
  proof (cases "hd bs = hd cs")
    case True
    have "distinct cs" "p \<notin> set cs" using assms(1) by (simp_all add: kids_def)
    then have "distinct bs" "p \<notin> set bs" using mset_eq_imp_distinct_iff [OF h1(2)] st(1) by simp_all
    moreover have "loose h1 x" using assms(5-7) h1(4) by (auto simp: relinked_def loose_def)
    moreover have "last cs \<in> set bs" using st assms(2) by simp
    from split_list_first [OF this] obtain us vs where uv: "bs = us @ last cs # vs" "last cs \<notin> set us" by blast
    then have us: "takeWhile (\<lambda>a. a \<noteq> last cs) bs = us" by (metis (mono_tags, lifting) takeWhile_tail takeWhile_eq_all_conv takeWhile_append2)
    moreover have "hind None cs = Some (last cs)" using assms(2) by (cases cs rule: rev_cases) simp_all
    ultimately obtain h2 n' where "add_item_to_array h1 (Some p) (Some x) = Some (True, h2)" "nodes h2 p = Some n'"
      "chain (nodes h2) (nchild n') (us @ [last cs, x])"
      using add_after_last [OF h1(5,7) _ uv(1), of x] h1(8) True assms(6,7) st(1) by auto
    then show ?thesis using h1(1-3) True unfolding us [symmetric] by auto
  next
    case False
    obtain c' where "nodes h1 (hd bs) = Some c'" "nprev c' = None" using h1(8) False st(2) by (cases bs) auto
    then have "add_item_to_array h1 (Some p) (Some x) = Some (True, h1)"
      using h1(5,7) st(2) assms(6) by (simp add: add_item_to_array_def node_at_def front_hd)
    then show ?thesis using h1(1-3,5,6) False by auto
  qed
qed

theorem sort_then_add_loses_witness:
  "\<exists>h1 h2. sort_object (sample_members\<lparr>nodes := (nodes sample_members)(5 \<mapsto> zero_node), brk := 6\<rparr>) (Some 0) True = Some h1 \<and>
    add_item_to_array h1 (Some 0) (Some 5) = Some (True, h2) \<and> h2 = h1"
proof -
  let ?h = "sample_members\<lparr>nodes := (nodes sample_members)(5 \<mapsto> zero_node), brk := 6\<rparr>"
  have k: "kids ?h 0 [1, 2]" "keyed ?h [1, 2]" "bounded ?h" "loose ?h 5" "rank ?h True 1 = [98]" "rank ?h True 2 = [97]"
    by (auto simp: sample_members_def kids_def zero_node_def bounded_def keyed_def named_def key_of_def text_at_def
      strlen_at_def cstring_def rank_def rank_of_def loose_def)
  from sort_then_add_loses [OF k(1) _ k(2-4), of True] obtain h1 bs h2 where b: "sort_object ?h (Some 0) True = Some h1"
    "mset bs = mset [1, 2]" "sorted (map (rank ?h True) bs)" "add_item_to_array h1 (Some 0) (Some 5) = Some (True, h2)"
    "hd bs \<noteq> 1 \<longrightarrow> h2 = h1" by auto
  have "hd bs \<noteq> 1"
  proof
    assume "hd bs = 1"
    moreover have "bs \<noteq> []" "2 \<in> set bs" using mset_eq_setD [OF b(2)] by auto
    ultimately show False using b(3) k(5,6) by (cases bs) auto
  qed
  then show ?thesis using b(1,4,5) by blast
qed

text \<open>With all the functions of the interface: the null that was added is returned, but it is not in the object.\<close>

lemma sorted_object_drops_addition:
  "(do { h1 \<leftarrow> cJSONUtils_SortObject sample_members (Some 0);
         (r, h2) \<leftarrow> cJSON_AddNullToObject h1 (Some 0) (Const ''c'');
         size \<leftarrow> cJSON_GetArraySize h2 (Some 0);
         found \<leftarrow> cJSON_HasObjectItem h2 (Some 0) (Const ''c'');
         Some (r, size, found) }) = Some (Some 5, 2, False)"
  by code_simp

end
