(* ===== verification/Comparing.thy ===== *)
theory Comparing
  imports Members Pointer_Laws
begin

text \<open>
  \<open>cJSON_Compare\<close> computes the equality of the values of two trees: kinds, numbers within the
  tolerance of \<open>compare_double\<close>, strings, arrays element by element, and objects member by member in
  both directions, each member looked up by its name in the other object.
\<close>

section \<open>Equality of values\<close>

fun item_name :: "cJSON \<Rightarrow> string option" where
  "item_name (Item t vs vi vd s cs) = s"

text \<open>The member that a name selects, as \<^term>\<open>selected\<close> does on the heap.\<close>

definition member_of :: "bool \<Rightarrow> string option \<Rightarrow> cJSON list \<Rightarrow> cJSON option" where
  "member_of c name ds = do {
     s \<leftarrow> name;
     d \<leftarrow> find (\<lambda>d. case item_name d of None \<Rightarrow> c | Some key \<Rightarrow> same_name c s key) ds;
     if item_name d = None then None else Some d }"

lemma elem_size: "d \<in> set ds \<Longrightarrow> size d \<le> size_list size ds"
  by (simp add: size_list_estimation')

lemma member_of_in: "member_of c name ds = Some d \<Longrightarrow> d \<in> set ds"
  by (auto simp: member_of_def find_Some_iff split: if_splits)

function equal_items :: "bool \<Rightarrow> cJSON \<Rightarrow> cJSON \<Rightarrow> bool" where
  "equal_items c (Item t vs vi vd s cs) (Item t' vs' vi' vd' s' ds) =
     (let k = t AND 0xFF in k = t' AND 0xFF \<and>
      (k = cJSON_False \<or> k = cJSON_True \<or> k = cJSON_NULL \<or>
       k = cJSON_Number \<and> compare_double vd vd' \<or>
       (k = cJSON_String \<or> k = cJSON_Raw) \<and> vs \<noteq> None \<and> vs = vs' \<or>
       k = cJSON_Array \<and> list_all2 (equal_items c) cs ds \<or>
       k = cJSON_Object \<and>
         (\<forall>x \<in> set cs. case member_of c (item_name x) ds of None \<Rightarrow> False | Some y \<Rightarrow> equal_items c x y) \<and>
         (\<forall>y \<in> set ds. case member_of c (item_name y) cs of None \<Rightarrow> False | Some x \<Rightarrow> equal_items c y x)))"
  by pat_completeness auto
termination
  by (relation "measure (\<lambda>(_, a, b). size a + size b)") (auto dest!: elem_size member_of_in)

section \<open>What the code compares\<close>

lemma views_key: "views h t \<Longrightarrow> key_of h (top t) = item_name (value_at h t)"
  by (cases t) (auto simp: key_of_def)

lemma find_map: "find P (map f xs) = map_option f (find (\<lambda>x. P (f x)) xs)"
  by (induction xs) auto

definition picked :: "heap \<Rightarrow> bool \<Rightarrow> string \<Rightarrow> shape list \<Rightarrow> shape option" where
  "picked h c s ts = do {
     t \<leftarrow> find (\<lambda>t. case key_of h (top t) of None \<Rightarrow> c | Some key \<Rightarrow> same_name c s key) ts;
     if key_of h (top t) = None then None else Some t }"

lemma picked_in: "picked h c s ts = Some t \<Longrightarrow> t \<in> set ts"
  by (auto simp: picked_def find_Some_iff split: if_splits)

lemma selected_picked: "selected h c s (map top ts) = map_option top (picked h c s ts)"
  by (auto simp: selected_def picked_def find_map split: option.splits)

lemma member_picked:
  assumes "\<forall>t \<in> set ts. views h t"
  shows "member_of c (Some s) (map (value_at h) ts) = map_option (value_at h) (picked h c s ts)"
proof -
  have "find (\<lambda>t. case item_name (value_at h t) of None \<Rightarrow> c | Some key \<Rightarrow> same_name c s key) ts =
    find (\<lambda>t. case key_of h (top t) of None \<Rightarrow> c | Some key \<Rightarrow> same_name c s key) ts"
    by (rule find_cong) (use assms views_key in auto)
  then have "member_of c (Some s) (map (value_at h) ts) =
    Option.bind (map_option (value_at h) (find (\<lambda>t. case key_of h (top t) of None \<Rightarrow> c | Some key \<Rightarrow> same_name c s key) ts))
      (\<lambda>d. if item_name d = None then None else Some d)"
    unfolding member_of_def find_map by (simp only: Option.bind.bind_lunit)
  moreover have "views h t" if "find P ts = Some t" for P t using that assms by (auto simp: find_Some_iff)
  ultimately show ?thesis using views_key
    by (auto simp: picked_def split: option.splits bind_splits)
qed

lemma compare_elements_eq:
  "chain (nodes h) p (map top ts) \<Longrightarrow> chain (nodes h) q (map top us) \<Longrightarrow>
   \<forall>t \<in> set ts. \<forall>u \<in> set us. cmp (Some (top t)) (Some (top u)) = Some (P (value_at h t) (value_at h u)) \<Longrightarrow>
   compare_elements cmp h p q = Some (list_all2 P (map (value_at h) ts) (map (value_at h) us))"
proof (induction ts arbitrary: p q us)
  case Nil
  then show ?case by (subst compare_elements.simps) (cases us, auto)
next
  case (Cons t ts)
  obtain m where m: "p = Some (top t)" "nodes h (top t) = Some m" "chain (nodes h) (nnext m) (map top ts)" using Cons.prems(1) by auto
  show ?case
  proof (cases us)
    case Nil
    then show ?thesis using Cons.prems(2) m(1) by (subst compare_elements.simps) simp
  next
    case us: (Cons u us')
    obtain n where n: "q = Some (top u)" "nodes h (top u) = Some n" "chain (nodes h) (nnext n) (map top us')"
      using Cons.prems(2) us by auto
    have c: "cmp (Some (top t)) (Some (top u)) = Some (P (value_at h t) (value_at h u))" using Cons.prems(3) us by simp
    have "compare_elements cmp h (nnext m) (nnext n) = Some (list_all2 P (map (value_at h) ts) (map (value_at h) us'))"
      by (rule Cons.IH [OF m(3) n(3)]) (use Cons.prems(3) us in auto)
    then show ?thesis using m n c us by (subst compare_elements.simps) (simp add: node_at_def)
  qed
qed

lemma compare_members_eq:
  assumes b: "nodes h b = Some n" "chain (nodes h) (nchild n) (map top us)" "\<forall>u \<in> set us. views h u"
  shows "chain (nodes h) p (map top ts) \<Longrightarrow> \<forall>t \<in> set ts. views h t \<Longrightarrow>
   \<forall>t \<in> set ts. \<forall>u \<in> set us. cmp (Some (top t)) (Some (top u)) = Some (P (value_at h t) (value_at h u)) \<Longrightarrow>
   compare_members cmp h c (Some b) p = Some (\<forall>x \<in> set (map (value_at h) ts).
     case member_of c (item_name x) (map (value_at h) us) of None \<Rightarrow> False | Some y \<Rightarrow> P x y)"
proof (induction ts arbitrary: p)
  case Nil
  then show ?case by (subst compare_members.simps) simp
next
  case (Cons t ts)
  obtain m where m: "p = Some (top t)" "nodes h (top t) = Some m" "chain (nodes h) (nnext m) (map top ts)" using Cons.prems(1) by auto
  have v: "views h t" using Cons.prems(2) by simp
  have key: "text_at h (nstring m) = Some (item_name (value_at h t))"
    using views_named [OF v] views_key [OF v] m(2) by (auto simp: named_def key_of_def)
  have named: "\<forall>a \<in> set (map top us). named h a" using b(3) views_named by auto
  have get: "get_object_item h (Some b) (nstring m) c = Some (case item_name (value_at h t) of None \<Rightarrow> None
    | Some s \<Rightarrow> map_option top (picked h c s us))"
  proof (cases "item_name (value_at h t)")
    case None
    then show ?thesis using key text_at_Null [of h "nstring m"] by (simp add: get_object_item_def)
  next
    case (Some s)
    then show ?thesis using get_object_item_chain [OF b(1,2) named, of "nstring m" s c] key by (simp add: selected_picked)
  qed
  have rest: "compare_members cmp h c (Some b) (nnext m) = Some (\<forall>x \<in> set (map (value_at h) ts).
     case member_of c (item_name x) (map (value_at h) us) of None \<Rightarrow> False | Some y \<Rightarrow> P x y)"
    by (rule Cons.IH [OF m(3)]) (use Cons.prems(2,3) in auto)
  show ?case
  proof (cases "item_name (value_at h t)")
    case None
    then show ?thesis using m get by (subst compare_members.simps) (simp add: member_of_def)
  next
    case s: (Some s)
    have mem: "member_of c (item_name (value_at h t)) (map (value_at h) us) = map_option (value_at h) (picked h c s us)"
      using member_picked [OF b(3)] s by simp
    show ?thesis
    proof (cases "picked h c s us")
      case None
      then show ?thesis using m get mem s by (subst compare_members.simps) simp
    next
      case (Some u)
      then have "cmp p (Some (top u)) = Some (P (value_at h t) (value_at h u))" using Cons.prems(3) picked_in m(1) by simp
      then show ?thesis using m get mem s Some rest by (subst compare_members.simps) simp
    qed
  qed
qed

lemma compare_items_eq:
  "depth_of t \<le> k \<Longrightarrow> depth_of u \<le> k \<Longrightarrow> views h t \<Longrightarrow> views h u \<Longrightarrow> set (addrs t) \<inter> set (addrs u) = {} \<Longrightarrow>
   compare_items k h (Some (top t)) (Some (top u)) c = Some (equal_items c (value_at h t) (value_at h u))"
proof (induction k arbitrary: t u)
  case 0
  then show ?case by (cases t) simp
next
  case (Suc k)
  obtain a ts b us where tu: "t = Shape a ts" "u = Shape b us" by (cases t, cases u)
  obtain m where m: "nodes h a = Some m" "chain (nodes h) (nchild m) (map top ts)" "\<forall>t \<in> set ts. views h t"
    "text_at h (nvaluestring m) \<noteq> None" using Suc.prems tu by auto
  obtain n where n: "nodes h b = Some n" "chain (nodes h) (nchild n) (map top us)" "\<forall>u \<in> set us. views h u"
    "text_at h (nvaluestring n) \<noteq> None" using Suc.prems tu by auto
  have ab: "a \<noteq> b" using Suc.prems(5) tu by auto
  define cmp where "cmp = (\<lambda>x y. compare_items k h x y c)"
  have IH: "cmp (Some (top x)) (Some (top y)) = Some (equal_items c (value_at h x) (value_at h y)) \<and>
      cmp (Some (top y)) (Some (top x)) = Some (equal_items c (value_at h y) (value_at h x))" if "x \<in> set ts" "y \<in> set us" for x y
    using Suc.IH [of x y] Suc.IH [of y x] Suc.prems tu that depth_of_sub [OF that(1), of a] depth_of_sub [OF that(2), of b]
    unfolding cmp_def by fastforce
  have el: "compare_elements cmp h (nchild m) (nchild n) = Some (list_all2 (equal_items c) (map (value_at h) ts) (map (value_at h) us))"
    by (rule compare_elements_eq [OF m(2) n(2)]) (use IH in blast)
  have ob1: "compare_members cmp h c (Some b) (nchild m) = Some (\<forall>x \<in> set (map (value_at h) ts).
     case member_of c (item_name x) (map (value_at h) us) of None \<Rightarrow> False | Some y \<Rightarrow> equal_items c x y)"
    by (rule compare_members_eq [OF n(1-3) m(2,3)]) (use IH in blast)
  have ob2: "compare_members cmp h c (Some a) (nchild n) = Some (\<forall>x \<in> set (map (value_at h) us).
     case member_of c (item_name x) (map (value_at h) ts) of None \<Rightarrow> False | Some y \<Rightarrow> equal_items c x y)"
    by (rule compare_members_eq [OF m(1-3) n(2,3)]) (use IH in blast)
  have va: "value_at h t = Item (ntype m) (the (text_at h (nvaluestring m))) (nvalueint m) (nvaluedouble m)
      (the (text_at h (nstring m))) (map (value_at h) ts)"
    "value_at h u = Item (ntype n) (the (text_at h (nvaluestring n))) (nvalueint n) (nvaluedouble n)
      (the (text_at h (nstring n))) (map (value_at h) us)" using tu m(1) n(1) by simp_all
  obtain vs vt where st: "text_at h (nvaluestring m) = Some vs" "text_at h (nvaluestring n) = Some vt" using m(4) n(4) by auto
  have nul: "nvaluestring m = Null \<longleftrightarrow> vs = None" "nvaluestring n = Null \<longleftrightarrow> vt = None"
    using st text_at_Null [of h] by (metis option.inject)+
  have eq: "vs = Some s \<Longrightarrow> vt = Some s' \<Longrightarrow> (strcmp s s' = 0) = (s = s')" for s s'
    using strcmp_0 text_at_nulfree st by blast
  show ?case using ab m(1) n(1) unfolding va
    by (cases vs; cases vt)
      (auto simp: tu node_at_def Let_def st nul chars_at_def el ob1 ob2 eq simp del: bind_Some_iff simp flip: cmp_def)
qed


section \<open>Copies compare equal\<close>

text \<open>A value without NaN and infinities, without missing strings, whose objects have no two members
  of the same name.\<close>

definition fold_name :: "bool \<Rightarrow> string option \<Rightarrow> string option" where
  "fold_name c name = (if c then name else map_option (map tolower) name)"

fun comparable :: "bool \<Rightarrow> cJSON \<Rightarrow> bool" where
  "comparable c (Item t vs vi vd s cs) \<longleftrightarrow> (let k = t AND 0xFF in
     k = cJSON_False \<or> k = cJSON_True \<or> k = cJSON_NULL \<or> k = cJSON_Number \<and> is_finite vd \<or>
     (k = cJSON_String \<or> k = cJSON_Raw) \<and> vs \<noteq> None \<or>
     k = cJSON_Array \<and> (\<forall>x \<in> set cs. comparable c x) \<or>
     k = cJSON_Object \<and> (\<forall>x \<in> set cs. comparable c x \<and> item_name x \<noteq> None) \<and>
       distinct (map (\<lambda>x. fold_name c (item_name x)) cs))"

lemma same_name_fold: "same_name c s t \<longleftrightarrow> fold_name c (Some s) = fold_name c (Some t)"
  by (simp add: same_name_def fold_name_def)

lemma item_name_copied [simp]: "item_name (copied x) = item_name x"
  by (cases x) simp

lemma find_unique: "x \<in> set xs \<Longrightarrow> P x \<Longrightarrow> (\<And>y. y \<in> set xs \<Longrightarrow> P y \<Longrightarrow> y = x) \<Longrightarrow> find P xs = Some x"
proof (induction xs)
  case (Cons z xs)
  show ?case
  proof (cases "P z")
    case True
    then show ?thesis using Cons.prems(3) [of z] by simp
  next
    case False
    then have "x \<in> set xs" using Cons.prems(1,2) by auto
    then have "find P xs = Some x" by (rule Cons.IH [OF _ Cons.prems(2)]) (simp add: Cons.prems(3))
    then show ?thesis using False by simp
  qed
qed simp

lemma member_of_self:
  assumes d: "distinct (map (\<lambda>x. fold_name c (item_name x)) cs)" and n: "\<forall>x \<in> set cs. item_name x \<noteq> None" and x: "x \<in> set cs"
    and f: "\<And>x. item_name (f x) = item_name x"
  shows "member_of c (item_name x) (map f cs) = Some (f x)"
proof -
  obtain s where s: "item_name x = Some s" using n x by auto
  have "find (\<lambda>d. case item_name (f d) of None \<Rightarrow> c | Some key \<Rightarrow> same_name c s key) cs = Some x"
  proof (rule find_unique [OF x])
    show "case item_name (f x) of None \<Rightarrow> c | Some key \<Rightarrow> same_name c s key" using s f by (simp add: same_name_refl)
  next
    fix y assume y: "y \<in> set cs" "case item_name (f y) of None \<Rightarrow> c | Some key \<Rightarrow> same_name c s key"
    obtain t where "item_name y = Some t" using n y(1) by auto
    then have "fold_name c (item_name y) = fold_name c (item_name x)" using y(2) s f same_name_fold by simp
    then show "y = x" using d x y(1) by (auto simp: distinct_map dest: inj_onD)
  qed
  then show ?thesis using s f by (simp add: member_of_def find_map)
qed

lemma kind_copied: "(t AND NOT cJSON_IsReference) AND 0xFF = t AND (0xFF :: u32)"
proof -
  have "NOT cJSON_IsReference AND 0xFF = (0xFF :: u32)" by simp
  then show ?thesis by (simp only: and.assoc)
qed

lemma comparable_copied: "comparable c v \<Longrightarrow> equal_items c v (copied v) \<and> equal_items c (copied v) v"
proof (induction v)
  case (Item t vs vi vd s cs)
  define k where "k = t AND 0xFF"
  have kk: "(t AND NOT cJSON_IsReference) AND 0xFF = k" by (simp only: kind_copied k_def)
  have IH: "\<forall>x \<in> set cs. comparable c x \<longrightarrow> equal_items c x (copied x) \<and> equal_items c (copied x) x" using Item.IH by blast
  have arr: "list_all2 (equal_items c) cs (map copied cs) \<and> list_all2 (equal_items c) (map copied cs) cs"
    if "\<forall>x \<in> set cs. comparable c x" using that IH by (simp add: list_all2_conv_all_nth)
  have obj: "member_of c (item_name x) (map copied cs) = Some (copied x) \<and> member_of c (item_name x) cs = Some x"
    if "\<forall>x \<in> set cs. comparable c x \<and> item_name x \<noteq> None" "distinct (map (\<lambda>x. fold_name c (item_name x)) cs)" "x \<in> set cs" for x
    using member_of_self [OF that(2) _ that(3), of copied] member_of_self [OF that(2) _ that(3), of "\<lambda>x. x"] that(1) by simp
  show ?case using Item.prems IH arr obj compare_double_refl unfolding copied.simps equal_items.simps comparable.simps kk
    by (fold k_def) (auto simp: Let_def)
qed

section \<open>The properties\<close>

text \<open>C23: \<open>cJSON_Compare\<close> of two trees without common nodes computes the equality of their values.\<close>

theorem compare_computes_equality:
  assumes "views h t" and "views h u" and "bounded h" and "set (addrs t) \<inter> set (addrs u) = {}"
  shows "cJSON_Compare h (Some (top t)) (Some (top u)) c = Some (equal_items c (value_at h t) (value_at h u))"
  using compare_items_eq [OF _ _ assms(1,2,4), of "depth_fuel h" c] views_depth_le [OF assms(1,3)] views_depth_le [OF assms(2,3)]
  by (simp add: cJSON_Compare_def depth_fuel_def)

theorem compare_computes_equality_witness: "cJSON_Compare sample (Some 1) (Some 2) True = Some False"
proof -
  have "views sample (Shape 1 [])" "views sample (Shape 2 [])"
    by (auto simp: sample_def zero_node_def text_at_def strlen_at_def cstring_def)
  from compare_computes_equality [OF this sample_views(2), of True] show ?thesis by (simp add: sample_def zero_node_def)
qed

text \<open>C24: A copy made by \<open>cJSON_Duplicate\<close> compares equal to the original, with and without case, if
  the original has finite numbers, no missing strings and no two members of the same name.\<close>

theorem duplicate_compares_equal:
  assumes "views h t" and "bounded h" and "comparable c (value_at h t)"
    and "cJSON_Duplicate h (Some (top t)) True = Some (Some r, h')"
  shows "cJSON_Compare h' (Some (top t)) (Some r) c = Some True"
proof -
  obtain u where u: "r = top u" "copy_of h (value_at h t) h' u"
    using duplicate_item_copies [OF _ assms(2,1), of "depth_fuel h"] views_depth_le [OF assms(1,2)] assms(4)
    by (auto simp: duplicates_def cJSON_Duplicate_def depth_fuel_def)
  have g: "grew h h' (addrs u) (blocks_at h' u)" and v: "views h' u" "value_at h' u = copied (value_at h t)"
    using u(2) by (simp_all add: copy_of_def)
  have vt: "views h' t" "value_at h' t = value_at h t" using grew_views [OF g assms(2,1)] by auto
  have b: "bounded h'" by (rule grew_bounded [OF g])
  have "a < brk h" if "a \<in> set (addrs t)" for a using views_dom [OF assms(1)] bounded_lt(1) [OF assms(2)] that by blast
  then have d: "set (addrs t) \<inter> set (addrs u) = {}" using grew_range [OF g] by fastforce
  have "cJSON_Compare h' (Some (top t)) (Some (top u)) c = Some (equal_items c (value_at h' t) (value_at h' u))"
    using compare_items_eq [OF _ _ vt(1) v(1) d, of "depth_fuel h'" c] views_depth_le [OF vt(1) b] views_depth_le [OF v(1) b]
    by (simp add: cJSON_Compare_def depth_fuel_def)
  then show ?thesis using comparable_copied [OF assms(3)] u(1) v(2) vt(2) by simp
qed

theorem duplicate_compares_equal_witness:
  "\<exists>r h'. cJSON_Duplicate sample (Some 0) True = Some (Some r, h') \<and> cJSON_Compare h' (Some 0) (Some r) False = Some True"
proof -
  let ?t = "Shape 0 [Shape 1 [], Shape 2 []]"
  have "depth_of ?t \<le> depth_fuel sample" by (simp add: depth_fuel_def sample_def)
  from duplicate_item_copies [OF this sample_views(2,1)] obtain r h' where
    d: "cJSON_Duplicate sample (Some (top ?t)) True = Some (Some r, h')"
    by (auto simp: duplicates_def cJSON_Duplicate_def sample_def)
  have "comparable False (value_at sample ?t)" 
    by (simp add: sample_def zero_node_def text_at_def strlen_at_def cstring_def)
  from duplicate_compares_equal [OF sample_views(1,2) this d] d show ?thesis by auto
qed

end
