(* ===== verification/Patching.thy ===== *)
theory Patching
  imports Comparing Patch
begin

text \<open>
  JSON patches on arrays: splitting a path, and the operations \<open>add\<close> and \<open>remove\<close> from the look-up of
  the members of the patch to the changed list of children, with the use of memory.
\<close>

section \<open>Splitting a path\<close>

lemma last_slash_eq: "CHR ''/'' \<notin> set tok \<Longrightarrow> last_slash (s @ CHR ''/'' # tok) = Some (length s)"
proof -
  assume t: "CHR ''/'' \<notin> set tok"
  then have "takeWhile (\<lambda>c. c \<noteq> CHR ''/'') (rev tok @ CHR ''/'' # rev s) = rev tok"
    by (subst takeWhile_append2) auto
  then show ?thesis by (simp add: last_slash_def)
qed

text \<open>The copy of a path, cut at its last slash.\<close>

lemma split_copy:
  assumes b: "bounded h" and al: "\<forall>i. may_alloc (hmem h) i" and t: "CHR ''/'' \<notin> set tok"
    and p: "text_at h pt = Some (Some (s @ CHR ''/'' # tok))"
  shows "\<exists>h0 h1. cJSONUtils_strdup h pt = Some (Block (brk h) 0, h0) \<and>
    split_pointer h0 (Block (brk h) 0) = Some (Block (brk h) (length s + 1), h1) \<and>
    grew h h1 [] [brk h] \<and> nodes h1 = nodes h \<and> texts h1 = (texts h)(brk h \<mapsto> s @ NUL # tok @ [NUL]) \<and>
    text_at h1 (Block (brk h) 0) = Some (Some s) \<and> text_at h1 (Block (brk h) (length s + 1)) = Some (Some tok)"
proof (rule new_text_cases [OF b, of "(s @ CHR ''/'' # tok) @ [NUL]"])
  fix h0 assume "\<not> (\<forall>i. may_alloc (hmem h) i)"
  then show ?thesis using al by blast
next
  fix h0 assume h0: "new_text h ((s @ CHR ''/'' # tok) @ [NUL]) = (Block (brk h) 0, h0)" "grew h h0 [] [brk h]" "nodes h0 = nodes h"
    "texts h0 = (texts h)(brk h \<mapsto> (s @ CHR ''/'' # tok) @ [NUL])"
  have nf: "nulfree s" "nulfree tok" using text_at_nulfree [OF p] by simp_all
  define h1 where "h1 = h0\<lparr>texts := (texts h0)(brk h \<mapsto> s @ NUL # tok @ [NUL])\<rparr>"
  have d: "cJSONUtils_strdup h pt = Some (Block (brk h) 0, h0)"
    using p h0(1) by (simp add: cJSONUtils_strdup_def chars_at_def)
  have "chars_at h0 (Block (brk h) 0) = Some (s @ CHR ''/'' # tok)"
    using text_at_block [of h0 "brk h" "s @ CHR ''/'' # tok" "[]"] h0(4) nf by (simp add: chars_at_def)
  moreover have "write_text h0 (Block (brk h) (length s)) [NUL] = Some h1"
    using h0(4) by (subst write_text_block [of _ _ "(s @ CHR ''/'' # tok) @ [NUL]"]) (simp_all add: h1_def)
  ultimately have "split_pointer h0 (Block (brk h) 0) = Some (Block (brk h) (length s + 1), h1)"
    using last_slash_eq [OF t, of s] by (simp add: split_pointer_def advance_def)
  moreover have "grew h h1 [] [brk h]" unfolding h1_def by (rule grew_write [OF h0(2)]) simp
  moreover have "text_at h1 (Block (brk h) 0) = Some (Some s)"
    using text_at_block [of h1 "brk h" s "tok @ [NUL]"] nf by (simp add: h1_def)
  moreover have "text_at h1 (Block (brk h) (length s + 1)) = Some (Some tok)"
    using strlen_at_found [of tok "s @ [NUL]" "[]"] nf by (simp add: h1_def text_at_def)
  ultimately show ?thesis using d h0(3,4) by (auto simp: h1_def)
qed

text \<open>Following a path does not depend on strings that no node has.\<close>

lemma resolve_grew:
  assumes g: "grew h h' A B" and b: "bounded h"
  shows "views h t \<Longrightarrow> resolve h' c t ss = resolve h c t ss"
proof (induction ss arbitrary: t)
  case (Cons s ss)
  obtain a ts where t: "t = Shape a ts" by (cases t)
  obtain n where n: "nodes h a = Some n" "\<forall>t \<in> set ts. views h t" using Cons.prems t by auto
  have n': "nodes h' a = Some n" using grew_old [OF g] bounded_lt(1) [OF b, of a] n(1) by simp
  have k: "key_of h' (top t) = key_of h (top t)" if "t \<in> set ts" for t
    using grew_views [OF g b, of t] n(2) that views_key by metis
  have "find (\<lambda>t. case key_of h' (top t) of None \<Rightarrow> False | Some key \<Rightarrow> same_name c key s) ts =
    find (\<lambda>t. case key_of h (top t) of None \<Rightarrow> False | Some key \<Rightarrow> same_name c key s) ts"
    by (rule find_cong) (use k in auto)
  moreover have "u \<in> set ts" if "find P ts = Some u" for P u using that by (auto simp: find_Some_iff)
  ultimately show ?case using t n n' Cons.IH
    by (auto split: bind_splits option.splits simp del: bind_Some_iff intro!: Option.bind_cong)
qed simp

section \<open>Inserting at an index\<close>

lemma chain_skip_eq:
  "chain (nodes h) p cs \<Longrightarrow> chain_skip h p k = Some (if k < length cs then (Some (cs ! k), 0) else (None, k - length cs))"
proof (induction cs arbitrary: p k)
  case Nil
  then show ?case by (subst chain_skip.simps) simp
next
  case (Cons a cs)
  then show ?case by (subst chain_skip.simps) (cases k, auto)
qed

lemma insert_item_kids:
  assumes kd: "kids h p cs" and x: "can_join p h x" "x \<notin> set cs" and k: "k \<le> length cs"
  shows "\<exists>h'. insert_item_in_array h (Some p) k (Some x) = Some (True, h') \<and> kids h' p (take k cs @ x # drop k cs) \<and>
    relinked p (insert x (set cs)) h h'"
proof -
  obtain n where n: "nodes h p = Some n" "chain (nodes h) (nchild n) cs" using kids_chain [OF kd] by blast
  have x': "loose h x" "x \<noteq> p" using x(1) by (auto simp: can_join_def)
  show ?thesis
  proof (cases "k < length cs")
    case True
    obtain m where m: "nodes h x = Some m" using x' by (auto simp: loose_def)
    note cs = id_take_nth_drop [OF True]
    have "kids h p (take k cs @ cs ! k # drop (Suc k) cs)" "x \<notin> set (take k cs @ cs ! k # drop (Suc k) cs)"
      using kd x(2) cs by simp_all
    from link_before_kids [OF this(1) m x'(2) this(2)] show ?thesis
      using True n chain_skip_eq [OF n(2)] cs by (auto simp: insert_item_in_array_def node_at_def Cons_nth_drop_Suc)
  next
    case False
    then show ?thesis using k add_kids [OF kd x' x(2)] n chain_skip_eq [OF n(2)]
      by (auto simp: insert_item_in_array_def node_at_def cJSON_AddItemToArray_def)
  qed
qed

lemma insert_item_beyond:
  assumes "kids h p cs" "length cs < k"
  shows "insert_item_in_array h (Some p) k x = Some (False, h)"
  using kids_chain [OF assms(1)] chain_skip_eq assms(2) by (fastforce simp: insert_item_in_array_def node_at_def)


section \<open>Adding to an array\<close>

lemma path_text_snoc: "path_text (ss @ [s]) = path_text ss @ CHR ''/'' # encoded_pointer s"
  by (induction ss) simp_all

lemma decode_plain:
  assumes "text_at h (Block a i) = Some (Some s)" "CHR ''~'' \<notin> set s"
  shows "decode_pointer_inplace h (Block a i) = Some h"
proof -
  obtain u n where u: "texts h a = Some u" "strlen_at u i = Some n" "s = take n (drop i u)"
    using assms(1) by (auto simp: text_at_def)
  then have "decode_loop u i i = Some u" using decode_loop_plain assms(2) by blast
  moreover have "h\<lparr>texts := (texts h)(a \<mapsto> u)\<rparr> = h" using u(1) by (simp add: fun_upd_idem)
  ultimately show ?thesis using u(1) by (simp add: decode_pointer_inplace_def)
qed

lemma show_nat_chars: "c \<in> set (show_nat k) \<Longrightarrow> c \<noteq> CHR ''~'' \<and> c \<noteq> CHR ''/'' \<and> c \<noteq> CHR ''-''"
  using isdigit_show_nat [of c k] by (auto simp: isdigit_def)

lemma show_nat_not_dash: "strcmp (show_nat k) ''-'' \<noteq> 0"
proof -
  have "show_nat k \<noteq> ''-''" using show_nat_chars [of "CHR ''-''" k] by auto
  then show ?thesis using strcmp_0 [of "show_nat k" "''-''"] show_nat_plain by simp
qed

lemma kids_nodes: "nodes h' = nodes h \<Longrightarrow> kids h' p cs = kids h p cs"
  by (simp add: kids_def)

lemma relinked_part: "relinked p A h h' \<Longrightarrow> texts h' = texts h \<and> hmem h' = hmem h \<and> brk h' = brk h"
  by (metis relinked_def heap.select_convs(2-4) heap.surjective heap.update_convs(1))

text \<open>A path into an array: its copy in a new block is cut, the front leads to the array, and the rest is
  its own decoding and an index.\<close>

lemma path_into_array:
  assumes b: "bounded h" and al: "\<forall>i. may_alloc (hmem h) i" and v: "views h t" and r: "resolve h c t ss = Some u"
    and n: "nodes h (top u) = Some n" "ntype n AND 0xFF = cJSON_Array"
    and p: "text_at h pt = Some (Some (path_text (ss @ [show_nat k])))" and k: "k < 2 ^ 64"
  obtains h0 h1 child where "cJSONUtils_strdup h pt = Some (Block (brk h) 0, h0)"
    "split_pointer h0 (Block (brk h) 0) = Some (child, h1)" "child \<noteq> Null" "grew h h1 [] [brk h]" "nodes h1 = nodes h"
    "text_at h1 (Block (brk h) 0) = Some (Some (path_text ss))"
    "get_item_from_pointer h1 (Some (top t)) (Some (path_text ss)) c = Some (Some (top u))"
    "is_kind_at cJSON_Array h1 (Some (top u)) = Some True" "is_kind_at cJSON_Object h1 (Some (top u)) = Some False"
    "decode_pointer_inplace h1 child = Some h1" "chars_at h1 child = Some (show_nat k)"
    "decode_array_index_from_pointer (show_nat k) = Some k"
proof -
  let ?s = "path_text ss" and ?tok = "show_nat k"
  have tok: "CHR ''/'' \<notin> set ?tok" "CHR ''~'' \<notin> set ?tok" using show_nat_chars by blast+
  have "text_at h pt = Some (Some (?s @ CHR ''/'' # ?tok))" using p by (simp add: path_text_snoc show_nat_plain)
  from split_copy [OF b al tok(1) this] obtain h0 h1 where h1: "cJSONUtils_strdup h pt = Some (Block (brk h) 0, h0)"
    "split_pointer h0 (Block (brk h) 0) = Some (Block (brk h) (length ?s + 1), h1)" "grew h h1 [] [brk h]" "nodes h1 = nodes h"
    "text_at h1 (Block (brk h) 0) = Some (Some ?s)" "text_at h1 (Block (brk h) (length ?s + 1)) = Some (Some ?tok)" by blast
  have "views h1 t" "resolve h1 c t ss = Some u" using grew_views [OF h1(3) b v] resolve_grew [OF h1(3) b v] r by auto
  then have f: "get_item_from_pointer h1 (Some (top t)) (Some ?s) c = Some (Some (top u))"
    using follow_path_resolve [of h1 t c ss] by (simp add: get_item_from_pointer_def)
  have kind: "is_kind_at cJSON_Array h1 (Some (top u)) = Some True" "is_kind_at cJSON_Object h1 (Some (top u)) = Some False"
    using n h1(4) by (simp_all add: is_kind_at_def)
  have ix: "decode_array_index_from_pointer ?tok = Some k"
    using decode_index_show_nat [of "[]" k] k by (simp add: token_end_def)
  show ?thesis by (rule that [OF h1(1,2) _ h1(3,4,5) f kind decode_plain [OF h1(6) tok(2)] _ ix])
      (use h1(6) in \<open>simp_all add: chars_at_def\<close>)
qed

text \<open>\<open>patch_add\<close> and \<open>detach_path\<close> for a path into an array.\<close>

lemma patch_add_array:
  assumes b: "bounded h" and al: "\<forall>i. may_alloc (hmem h) i" and v: "views h t" and r: "resolve h c t ss = Some u"
    and n: "nodes h (top u) = Some n" "ntype n AND 0xFF = cJSON_Array"
    and p: "text_at h pt = Some (Some (path_text (ss @ [show_nat k])))" and k: "k < 2 ^ 64"
  shows "\<exists>h1. grew h h1 [] [brk h] \<and> nodes h1 = nodes h \<and>
    patch_add h (Some (top t)) pt (Some x) c =
      Option.bind (insert_item_in_array h1 (Some (top u)) k (Some x)) (\<lambda>(inserted, h2).
      Option.bind (if inserted then Some h2 else cJSON_Delete_at h2 (Some x)) (\<lambda>h3.
      Option.bind (free_text h3 (Block (brk h) 0)) (\<lambda>h4. Some (if inserted then 0 else 10, h4))))"
proof (rule path_into_array [OF assms])
  fix h0 h1 child assume h1: "cJSONUtils_strdup h pt = Some (Block (brk h) 0, h0)"
    "split_pointer h0 (Block (brk h) 0) = Some (child, h1)" "child \<noteq> Null" "grew h h1 [] [brk h]" "nodes h1 = nodes h"
    "text_at h1 (Block (brk h) 0) = Some (Some (path_text ss))"
    "get_item_from_pointer h1 (Some (top t)) (Some (path_text ss)) c = Some (Some (top u))"
    "is_kind_at cJSON_Array h1 (Some (top u)) = Some True" "is_kind_at cJSON_Object h1 (Some (top u)) = Some False"
    "decode_pointer_inplace h1 child = Some h1" "chars_at h1 child = Some (show_nat k)"
    "decode_array_index_from_pointer (show_nat k) = Some k"
  have "add_at h1 (Some (top u)) child (Some x) c = Option.bind
    (insert_item_in_array h1 (Some (top u)) k (Some x)) (\<lambda>(inserted, h2). Some (if inserted then (0, None, h2) else (10, Some x, h2)))"
    using h1(3,8,9,11,12) show_nat_not_dash by (simp add: add_at_def)
  then have "patch_add h (Some (top t)) pt (Some x) c =
      Option.bind (insert_item_in_array h1 (Some (top u)) k (Some x)) (\<lambda>(inserted, h2).
      Option.bind (if inserted then Some h2 else cJSON_Delete_at h2 (Some x)) (\<lambda>h3.
      Option.bind (free_text h3 (Block (brk h) 0)) (\<lambda>h4. Some (if inserted then 0 else 10, h4))))"
    using h1(1,2,6,7,10) by (auto simp: patch_add_def simp del: bind_Some_iff intro!: Option.bind_cong)
  then show ?thesis using h1(4,5) by blast
qed

lemma detach_path_array:
  assumes b: "bounded h" and al: "\<forall>i. may_alloc (hmem h) i" and v: "views h t" and r: "resolve h c t ss = Some u"
    and n: "nodes h (top u) = Some n" "ntype n AND 0xFF = cJSON_Array"
    and p: "text_at h pt = Some (Some (path_text (ss @ [show_nat k])))" and k: "k < 2 ^ 64"
  shows "\<exists>h1. grew h h1 [] [brk h] \<and> nodes h1 = nodes h \<and>
    detach_path h (Some (top t)) pt c = Option.bind (detach_item_from_array h1 (Some (top u)) k) (\<lambda>(item, h2).
      Option.bind (free_text h2 (Block (brk h) 0)) (\<lambda>h3. Some (item, h3)))"
proof (rule path_into_array [OF assms])
  fix h0 h1 child assume h1: "cJSONUtils_strdup h pt = Some (Block (brk h) 0, h0)"
    "split_pointer h0 (Block (brk h) 0) = Some (child, h1)" "child \<noteq> Null" "grew h h1 [] [brk h]" "nodes h1 = nodes h"
    "text_at h1 (Block (brk h) 0) = Some (Some (path_text ss))"
    "get_item_from_pointer h1 (Some (top t)) (Some (path_text ss)) c = Some (Some (top u))"
    "is_kind_at cJSON_Array h1 (Some (top u)) = Some True" "is_kind_at cJSON_Object h1 (Some (top u)) = Some False"
    "decode_pointer_inplace h1 child = Some h1" "chars_at h1 child = Some (show_nat k)"
    "decode_array_index_from_pointer (show_nat k) = Some k"
  then have "detach_path h (Some (top t)) pt c = Option.bind (detach_item_from_array h1 (Some (top u)) k) (\<lambda>(item, h2).
      Option.bind (free_text h2 (Block (brk h) 0)) (\<lambda>h3. Some (item, h3)))"
    by (simp add: detach_path_def del: bind_Some_iff)
  then show ?thesis using h1(4,5) by blast
qed

text \<open>Erasing a part of what was added.\<close>

lemma grew_erase_part:
  assumes g: "grew h h1 A (C @ B)" and b: "bounded h" and d: "set C \<inter> set B = {}"
  shows "grew h (erase h1 A B) [] C"
  using assms by (auto simp: grew_def erase_def deallocate_def same_hooks_def restrict_map_def bounded_def subset_iff)

lemma kept_relinked:
  assumes r: "relinked p (insert (top w) A) h h'" and d: "p \<notin> set (all_addrs (subs w))" "A \<inter> set (all_addrs (subs w)) = {}"
    and dw: "distinct (addrs w)"
  shows "kept_tree h h' w"
proof -
  have "nodes h' a = nodes h a" if "a \<in> set (all_addrs (subs w))" for a
  proof -
    have "a \<noteq> top w" using dw that by (cases w) auto
    then have "a \<notin> insert p (insert (top w) A)" using d that by blast
    then show ?thesis using r by (simp add: relinked_def)
  qed
  then show ?thesis using r relinked_texts [OF r] by (simp add: kept_tree_def kept_def relinked_def)
qed


text \<open>Freeing the block of the path after the links of a list have changed is the same as before.\<close>

lemma free_after_relink:
  assumes g: "grew h1 h2 [] [b]" and r: "relinked p A h2 h3"
  shows "\<exists>h4 g. free_text h3 (Block b 0) = Some h4 \<and> nodes h4 = nodes h3 \<and> grew h1 g [] [] \<and> nodes g = nodes h2 \<and> relinked p A g h4"
proof -
  obtain g' where g': "free_text h2 (Block b 0) = Some g'" "grew h1 g' [] []" "nodes g' = nodes h2"
    using grew_free_text [OF g] by auto
  note same = relinked_part [OF r]
  define h4 where "h4 = h3\<lparr>texts := (texts h3)(b := None), hmem := deallocate 1 (hmem h3)\<rparr>"
  have fr: "free_text h3 (Block b 0) = Some h4" using g'(1) same by (auto simp: free_text_def h4_def split: option.splits)
  have g4: "g' = h2\<lparr>texts := (texts h2)(b := None), hmem := deallocate 1 (hmem h2)\<rparr>"
    using g'(1) by (auto simp: free_text_def)
  have "h4 = g'\<lparr>nodes := nodes h4\<rparr>" using same unfolding g4 h4_def by simp
  then have "relinked p A g' h4" using r by (simp add: relinked_def g4 h4_def)
  then show ?thesis using fr g' by (auto simp: h4_def)
qed

text \<open>After the insertion: the block of the path is freed, the copy \<open>w\<close> stays.\<close>

lemma insert_then_free:
  assumes g: "grew h1 h2 [] [b]" and w: "forest h1 [w]" "views h1 w" and bd: "bounded h1" and kd: "kids h2 p cs"
    and x: "can_join p h2 (top w)" "top w \<notin> set cs" and k: "k \<le> length cs"
    and d: "set (all_addrs (subs w)) \<inter> insert p (set cs) = {}"
  shows "\<exists>h3 h4 g. insert_item_in_array h2 (Some p) k (Some (top w)) = Some (True, h3) \<and> free_text h3 (Block b 0) = Some h4 \<and>
    kids h4 p (take k cs @ top w # drop k cs) \<and> grew h1 g [] [] \<and> relinked p (insert (top w) (set cs)) g h4 \<and>
    forest h4 [w] \<and> value_at h4 w = value_at h1 w \<and> blocks_at h4 w = blocks_at h1 w"
proof -
  obtain h3 where h3: "insert_item_in_array h2 (Some p) k (Some (top w)) = Some (True, h3)" "kids h3 p (take k cs @ top w # drop k cs)"
    "relinked p (insert (top w) (set cs)) h2 h3" using insert_item_kids [OF kd x k] by blast
  obtain h4 g' where f: "free_text h3 (Block b 0) = Some h4" "nodes h4 = nodes h3" "grew h1 g' [] []" "nodes g' = nodes h2"
    "relinked p (insert (top w) (set cs)) g' h4" using free_after_relink [OF g h3(3)] by blast
  have k1: "kept_tree h1 g' w" using grew_kept [OF f(3) bd] views_dom [OF w(2)] by (intro kept_tree_all) (auto intro: kept_mono)
  have k2: "kept_tree g' h4 w" using kept_relinked [OF f(5)] d w(1) by (auto simp: forest_def)
  have o: "owns h1 w" using w(1) by (simp add: forest_def)
  have "owns h4 w \<and> blocks_at h4 w = blocks_at h1 w" using kept_owns [OF k1 o] kept_owns [OF k2] by auto
  moreover have "value_at h4 w = value_at h1 w" using kept_views [OF k1 w(2)] kept_views [OF k2] by auto
  moreover have "kids h4 p (take k cs @ top w # drop k cs)" using h3(2) kids_nodes [OF f(2)] by simp
  ultimately show ?thesis using h3(1) f(1,3,5) w(1) by (auto simp: forest_def)
qed

lemma refuse_then_free:
  assumes gw: "grew h h1 (addrs w) (blocks_at h1 w)" and g: "grew h1 h2 [] [brk h1]" and w: "forest h1 [w]" "views h1 w"
    and bd: "bounded h" and dt: "detached h1 (top w)"
  shows "\<exists>h3 h4. cJSON_Delete_at h2 (Some (top w)) = Some h3 \<and> free_text h3 (Block (brk h1) 0) = Some h4 \<and> grew h h4 [] []"
proof -
  have b1: "bounded h1" by (rule grew_bounded [OF gw])
  have k1: "kept_tree h1 h2 w" using grew_kept [OF g b1] views_dom [OF w(2)] by (intro kept_tree_all) (auto intro: kept_mono)
  have o: "owns h2 w" "blocks_at h2 w = blocks_at h1 w" using kept_owns [OF k1] w(1) by (auto simp: forest_def)
  have f2: "forest h2 [w]" using o w(1) by (simp add: forest_def)
  have "nodes h2 = nodes h1" by (rule grew_nodes [OF g b1])
  then have "chain (nodes h2) (Some (top w)) (map top [w])" using dt by (auto simp: detached_def)
  from delete_forest [OF f2 this] have del: "cJSON_Delete_at h2 (Some (top w)) = Some (erase h2 (addrs w) (blocks_at h2 w))" by simp
  have fresh: "brk h1 \<notin> set (blocks_at h1 w)" using grew_range [OF gw, of "brk h1"] by auto
  have "grew h h2 (addrs w) ([brk h1] @ blocks_at h2 w)" by (rule grew_trans [OF gw g]) (simp_all add: o(2))
  from grew_erase_part [OF this bd] fresh have "grew h (erase h2 (addrs w) (blocks_at h2 w)) [] [brk h1]" by (simp add: o(2))
  from grew_free_text [OF this] show ?thesis using del by auto
qed

section \<open>Removing from an array\<close>

lemma owns_dom: "owns h t \<Longrightarrow> set (addrs t) \<subseteq> {a. nodes h a \<noteq> None}"
proof (induction t)
  case (Shape a ts)
  then have "\<forall>t \<in> set ts. set (addrs t) \<subseteq> {a. nodes h a \<noteq> None}" "nodes h a \<noteq> None" by auto
  then show ?case by auto
qed

lemma grew_forest:
  assumes g: "grew h h' A B" and b: "bounded h" and f: "forest h [t]"
  shows "forest h' [t] \<and> blocks_at h' t = blocks_at h t"
proof -
  have o: "owns h t" using f by (simp add: forest_def)
  have "kept_tree h h' t" using grew_kept [OF g b] owns_dom [OF o] by (intro kept_tree_all) (auto intro: kept_mono)
  from kept_owns [OF this o] show ?thesis using f by (simp add: forest_def)
qed

lemma apply_patch_remove:
  assumes "member_named h patch ''path'' c = Some (Some a)" "nodes h a = Some n" "ntype n AND 0xFF = cJSON_String"
    "chars_at h (nvaluestring n) = Some p" "p \<noteq> []" "decode_patch_operation h patch c = Some REMOVE"
  shows "apply_patch h object patch c = Option.bind (detach_path h object (nvaluestring n) c) (\<lambda>(old_item, h).
      if old_item = None then Some (13, h) else Option.bind (cJSON_Delete_at h old_item) (\<lambda>h. Some (0, h)))"
proof -
  have run: "apply_patch h object patch c = Option.bind (Option.bind (detach_path h object (nvaluestring n) c) (\<lambda>(old_item, h).
      if old_item = None then Some (13, h) else Option.bind (cJSON_Delete_at h old_item) (\<lambda>h. Some (0, h))))
      (\<lambda>(status, h). Some (status, h))"
    unfolding apply_patch_def is_kind_at_def node_at_def
    by (simp only: assms Option.bind.simps option.case option.simps simp_thms if_True if_False patch_operation.distinct)
  show ?thesis unfolding run by (simp split: bind_splits)
qed

section \<open>Patches of an array\<close>

text \<open>The patch at \<open>patch\<close> says that a value goes to, or comes from, the index \<open>k\<close> of the array \<open>u\<close> of the
  document \<open>t\<close>.\<close>

definition array_patch :: "heap \<Rightarrow> bool \<Rightarrow> shape \<Rightarrow> nat \<Rightarrow> patch_operation \<Rightarrow> string list \<Rightarrow> nat \<Rightarrow> shape \<Rightarrow> bool" where
  "array_patch h c t patch opcode ss k u \<longleftrightarrow>
     (\<exists>a n m. member_named h (Some patch) ''path'' c = Some (Some a) \<and> nodes h a = Some n \<and> ntype n AND 0xFF = cJSON_String \<and>
       text_at h (nvaluestring n) = Some (Some (path_text (ss @ [show_nat k]))) \<and>
       decode_patch_operation h (Some patch) c = Some opcode \<and> resolve h c t ss = Some u \<and>
       nodes h (top u) = Some m \<and> ntype m AND 0xFF = cJSON_Array \<and> k < 2 ^ 64)"

section \<open>An example\<close>

text \<open>An addition up to the insertion: the copy of the value, the path split, the array found.\<close>

lemma apply_patch_add:
  assumes b: "bounded h" and al: "\<forall>i. may_alloc (hmem h) i" and t: "views h t" and p: "array_patch h c t patch ADD ss k u"
    and v: "member_named h (Some patch) ''value'' c = Some (Some (top v))" "views h v"
  shows "\<exists>w h1 h2. grew h h1 (addrs w) (blocks_at h1 w) \<and> forest h1 [w] \<and> views h1 w \<and> value_at h1 w = copied (value_at h v) \<and>
    detached h1 (top w) \<and> grew h1 h2 [] [brk h1] \<and> nodes h2 = nodes h1 \<and>
    apply_patch h (Some (top t)) (Some patch) c =
      Option.bind (insert_item_in_array h2 (Some (top u)) k (Some (top w))) (\<lambda>(inserted, h2).
      Option.bind (if inserted then Some h2 else cJSON_Delete_at h2 (Some (top w))) (\<lambda>h3.
      Option.bind (free_text h3 (Block (brk h1) 0)) (\<lambda>h4. Some (if inserted then 0 else 10, h4))))"
proof -
  obtain a n m where a: "member_named h (Some patch) ''path'' c = Some (Some a)" "nodes h a = Some n"
    "ntype n AND 0xFF = cJSON_String" "text_at h (nvaluestring n) = Some (Some (path_text (ss @ [show_nat k])))"
    "decode_patch_operation h (Some patch) c = Some ADD" "resolve h c t ss = Some u" "nodes h (top u) = Some m"
    "ntype m AND 0xFF = cJSON_Array" "k < 2 ^ 64" using p by (auto simp: array_patch_def)
  have "depth_of v \<le> depth_fuel h" using views_depth_le [OF v(2) b] by (simp add: depth_fuel_def)
  from duplicate_item_copies [OF this b v(2)] al obtain w h1 where
    dup: "cJSON_Duplicate h (Some (top v)) True = Some (Some (top w), h1)" and cp: "copy_of h (value_at h v) h1 w"
    by (auto simp: duplicates_def cJSON_Duplicate_def)
  have w: "grew h h1 (addrs w) (blocks_at h1 w)" "forest h1 [w]" "views h1 w" "value_at h1 w = copied (value_at h v)" "detached h1 (top w)"
    using cp by (simp_all add: copy_of_def)
  have b1: "bounded h1" and al1: "\<forall>i. may_alloc (hmem h1) i" using grew_bounded [OF w(1)] grew_mem [OF w(1)] al
    by (simp_all add: same_hooks_def)
  have old: "nodes h1 x = Some y" if "nodes h x = Some y" for x y
    using grew_old [OF w(1)] bounded_lt(1) [OF b, of x] that by simp
  have pt: "text_at h1 (nvaluestring n) = Some (Some (path_text (ss @ [show_nat k])))"
    using kept_text [OF grew_kept [OF w(1) b], of "nvaluestring n"] a(4) by simp
  have t1: "views h1 t" "resolve h1 c t ss = Some u" using grew_views [OF w(1) b t] resolve_grew [OF w(1) b t] a(6) by auto
  from patch_add_array [OF b1 al1 t1(1,2) old [OF a(7)] a(8) pt a(9), of "top w"] obtain h2 where h2: "grew h1 h2 [] [brk h1]"
    "nodes h2 = nodes h1" "patch_add h1 (Some (top t)) (nvaluestring n) (Some (top w)) c =
      Option.bind (insert_item_in_array h2 (Some (top u)) k (Some (top w))) (\<lambda>(inserted, h2).
      Option.bind (if inserted then Some h2 else cJSON_Delete_at h2 (Some (top w))) (\<lambda>h3.
      Option.bind (free_text h3 (Block (brk h1) 0)) (\<lambda>h4. Some (if inserted then 0 else 10, h4))))" by blast
  have ne: "path_text (ss @ [show_nat k]) \<noteq> []" by (simp add: path_text_snoc)
  have run: "apply_patch h (Some (top t)) (Some patch) c = patch_add h1 (Some (top t)) (nvaluestring n) (Some (top w)) c"
    using a(1-5) ne v(1) dup old [OF a(2)] unfolding apply_patch_def
    by (simp add: is_kind_at_def node_at_def chars_at_def patch_value_def copied_value_def del: bind_Some_iff)
  show ?thesis
    by (rule exI [of _ w], rule exI [of _ h1], rule exI [of _ h2]) (intro conjI w h2(1,2) trans [OF run h2(3)])
qed

text \<open>The copy is inserted, and the block of the path is freed.\<close>

lemma insert_copy:
  assumes b: "bounded h" and kd: "kids h p cs"
    and w: "grew h h1 (addrs w) (blocks_at h1 w)" "forest h1 [w]" "views h1 w" "detached h1 (top w)"
    and h2: "grew h1 h2 [] [brk h1]" "nodes h2 = nodes h1" and k: "k \<le> length cs"
  shows "\<exists>h3 h4 g. insert_item_in_array h2 (Some p) k (Some (top w)) = Some (True, h3) \<and> free_text h3 (Block (brk h1) 0) = Some h4 \<and>
    kids h4 p (take k cs @ top w # drop k cs) \<and> relinked p (insert (top w) (set cs)) g h4 \<and>
    forest h4 [w] \<and> value_at h4 w = value_at h1 w \<and> grew h g (addrs w) (blocks_at h4 w)"
proof -
  have k2: "kids h2 p cs" using kids_nodes [OF h2(2)] kids_grew [OF kd w(1) b] by simp
  have "x < brk h" if "x \<in> insert p (set cs)" for x
    using kd that links_dom bounded_lt(1) [OF b] by (fastforce simp: kids_def)
  then have nw: "set (addrs w) \<inter> insert p (set cs) = {}" using grew_range [OF w(1)] by fastforce
  have "can_join p h2 (top w)" "top w \<notin> set cs" "set (all_addrs (subs w)) \<inter> insert p (set cs) = {}"
    using w(4) nw h2(2) by (cases w; auto simp: can_join_def loose_def detached_def)+
  from insert_then_free [OF h2(1) w(2,3) grew_bounded [OF w(1)] k2 this(1,2) k this(3)] obtain h3 h4 g where
    i: "insert_item_in_array h2 (Some p) k (Some (top w)) = Some (True, h3)" "free_text h3 (Block (brk h1) 0) = Some h4"
      "kids h4 p (take k cs @ top w # drop k cs)" "grew h1 g [] []" "relinked p (insert (top w) (set cs)) g h4"
      "forest h4 [w]" "value_at h4 w = value_at h1 w" "blocks_at h4 w = blocks_at h1 w" by blast
  have "grew h g (addrs w) (blocks_at h4 w)" by (rule grew_trans [OF w(1) i(4)]) (simp_all add: i(8))
  then show ?thesis using i(1-3,5-7) by blast
qed

text \<open>An element is unlinked, the block of the path is freed, and then the element with all below it.\<close>

lemma detach_then_delete:
  assumes b: "bounded h" and h1: "grew h h1 [] [brk h]" "nodes h1 = nodes h" and kd: "kids h p cs" and k: "k < length cs"
    and w: "top w = cs ! k" "forest h [w]" "set (all_addrs (subs w)) \<inter> insert p (set cs) = {}"
  shows "\<exists>h2 h4 g. cJSON_DetachItemViaPointer h1 (Some p) (Some (cs ! k)) = Some (Some (cs ! k), h2) \<and>
    free_text h2 (Block (brk h) 0) = Some h4 \<and> grew h g [] [] \<and> relinked p (set cs) g h4 \<and>
    cJSON_Delete_at h4 (Some (cs ! k)) = Some (erase h4 (addrs w) (blocks_at h w)) \<and>
    kids (erase h4 (addrs w) (blocks_at h w)) p (take k cs @ drop (Suc k) cs)"
proof -
  note cs = id_take_nth_drop [OF k]
  let ?cs = "take k cs @ drop (Suc k) cs"
  have "kids h1 p (take k cs @ cs ! k # drop (Suc k) cs)" using kids_nodes [OF h1(2)] kd cs by simp
  from detach_kids [OF this] cs obtain h2 where h2: "cJSON_DetachItemViaPointer h1 (Some p) (Some (cs ! k)) = Some (Some (cs ! k), h2)"
    "kids h2 p ?cs" "relinked p (set cs) h1 h2" "loose h2 (cs ! k)" by auto
  obtain h4 g where f: "free_text h2 (Block (brk h) 0) = Some h4" "nodes h4 = nodes h2" "grew h g [] []" "nodes g = nodes h1"
    "relinked p (set cs) g h4" using free_after_relink [OF h1(1) h2(3)] by blast
  have fw: "forest g [w]" "blocks_at g w = blocks_at h w" using grew_forest [OF f(3) b w(2)] by auto
  have "loose h4 (top w)" using h2(4) f(2) w(1) by (simp add: loose_def)
  from delete_relinked [OF f(5) _ this fw(1) w(3)] have del: "cJSON_Delete_at h4 (Some (cs ! k)) = Some (erase h4 (addrs w) (blocks_at h w))"
    using k w(1) fw(2) by simp
  have "distinct (p # take k cs @ cs ! k # drop (Suc k) cs)" using kd cs by (simp add: kids_def)
  then have "top w \<notin> insert p (set ?cs)" using w(1) by auto
  moreover have "set ?cs \<subseteq> set cs" by (auto dest: in_set_takeD in_set_dropD)
  moreover have "set (addrs w) \<inter> insert p X = {}" if "top w \<notin> insert p X" "X \<subseteq> set cs" for X
    using that w(3) by (cases w) auto
  ultimately have "set (addrs w) \<inter> insert p (set ?cs) = {}" by blast
  moreover have "kids h4 p ?cs" using h2(2) kids_nodes [OF f(2)] by simp
  ultimately have "kids (erase h4 (addrs w) (blocks_at h w)) p ?cs" by (intro kids_erase)
  then show ?thesis using h2(1) f(1,3,5) del by blast
qed

text \<open>The array of \<open>sample\<close> with a patch for its index 1: the object 5 with the members \<open>op\<close>, \<open>path\<close>
  and \<open>value\<close>.\<close>

definition patched_sample :: "string \<Rightarrow> heap" where
  "patched_sample operation = sample\<lparr>brk := 9, nodes := (nodes sample)(
       5 \<mapsto> zero_node\<lparr>nchild := Some 6, ntype := cJSON_Object\<rparr>,
       6 \<mapsto> zero_node\<lparr>nnext := Some 7, nprev := Some 8, ntype := cJSON_String, nvaluestring := Const operation, nstring := Const ''op''\<rparr>,
       7 \<mapsto> zero_node\<lparr>nnext := Some 8, nprev := Some 6, ntype := cJSON_String, nvaluestring := Const ''/1'', nstring := Const ''path''\<rparr>,
       8 \<mapsto> zero_node\<lparr>nprev := Some 7, ntype := cJSON_True, nstring := Const ''value''\<rparr>)\<rparr>"

lemma patched_sample_facts:
  "bounded (patched_sample s)" "\<forall>i. may_alloc (hmem (patched_sample s)) i" "views (patched_sample s) (Shape 0 [Shape 1 [], Shape 2 []])"
  "kids (patched_sample s) 0 [1, 2]" "views (patched_sample s) (Shape 8 [])" "forest (patched_sample s) [Shape 2 []]"
  "blocks_at (patched_sample s) (Shape 2 []) = [4]"
  by (auto simp: patched_sample_def sample_def zero_node_def text_at_def strlen_at_def cstring_def bounded_def kids_def
    forest_def own_texts_def node_blocks_def flag_def)

lemma patched_sample_array:
  "member_named (patched_sample ''add'') (Some 5) ''value'' True = Some (Some 8)"
  "array_patch (patched_sample ''add'') True (Shape 0 [Shape 1 [], Shape 2 []]) 5 ADD [] 1 (Shape 0 [Shape 1 [], Shape 2 []])"
  "array_patch (patched_sample ''remove'') True (Shape 0 [Shape 1 [], Shape 2 []]) 5 REMOVE [] 1 (Shape 0 [Shape 1 [], Shape 2 []])"
proof -
  have path: "path_text ([] @ [show_nat 1]) = ''/1''" by code_simp
  have look: "member_named (patched_sample ''add'') (Some 5) ''value'' True = Some (Some 8)"
    "member_named (patched_sample ''add'') (Some 5) ''path'' True = Some (Some 7)"
    "member_named (patched_sample ''remove'') (Some 5) ''path'' True = Some (Some 7)"
    "decode_patch_operation (patched_sample ''add'') (Some 5) True = Some ADD"
    "decode_patch_operation (patched_sample ''remove'') (Some 5) True = Some REMOVE" by code_simp+
  show "member_named (patched_sample ''add'') (Some 5) ''value'' True = Some (Some 8)" by (fact look)
  show "array_patch (patched_sample ''add'') True (Shape 0 [Shape 1 [], Shape 2 []]) 5 ADD [] 1 (Shape 0 [Shape 1 [], Shape 2 []])"
    unfolding array_patch_def path using look
    by (intro exI [of _ 7] exI [of _ "the (nodes (patched_sample ''add'') 7)"] exI [of _ "the (nodes (patched_sample ''add'') 0)"])
      (simp add: patched_sample_def sample_def zero_node_def cstring_def text_at_def)
  show "array_patch (patched_sample ''remove'') True (Shape 0 [Shape 1 [], Shape 2 []]) 5 REMOVE [] 1 (Shape 0 [Shape 1 [], Shape 2 []])"
    unfolding array_patch_def path using look
    by (intro exI [of _ 7] exI [of _ "the (nodes (patched_sample ''add'') 7)"] exI [of _ "the (nodes (patched_sample ''add'') 0)"])
      (simp add: patched_sample_def sample_def zero_node_def cstring_def text_at_def)
qed

section \<open>The properties\<close>

text \<open>C25: A patch that adds a value at an index of an array of the document succeeds with a copy of the
  value at that index, if the index is at most the length of the array; the copy is all the memory that
  is kept, and only the links of the array changed.  Beyond the length it fails with status 10, nothing
  changed and nothing kept.\<close>

theorem apply_patch_add_array:
  assumes b: "bounded h" and al: "\<forall>i. may_alloc (hmem h) i" and t: "views h t" and p: "array_patch h c t patch ADD ss k u"
    and kd: "kids h (top u) cs" and v: "member_named h (Some patch) ''value'' c = Some (Some (top v))" "views h v"
  shows "\<exists>status h'. apply_patch h (Some (top t)) (Some patch) c = Some (status, h') \<and>
    (if k \<le> length cs then status = 0 \<and> (\<exists>w h1. kids h' (top u) (take k cs @ top w # drop k cs) \<and>
        value_at h' w = copied (value_at h v) \<and> forest h' [w] \<and> grew h h1 (addrs w) (blocks_at h' w) \<and>
        relinked (top u) (insert (top w) (set cs)) h1 h')
     else status = 10 \<and> grew h h' [] [])"
proof -
  obtain w h1 h2 where w: "grew h h1 (addrs w) (blocks_at h1 w)" "forest h1 [w]" "views h1 w" "value_at h1 w = copied (value_at h v)"
      "detached h1 (top w)" and h2: "grew h1 h2 [] [brk h1]" "nodes h2 = nodes h1"
    and run: "apply_patch h (Some (top t)) (Some patch) c =
      Option.bind (insert_item_in_array h2 (Some (top u)) k (Some (top w))) (\<lambda>(inserted, h2).
      Option.bind (if inserted then Some h2 else cJSON_Delete_at h2 (Some (top w))) (\<lambda>h3.
      Option.bind (free_text h3 (Block (brk h1) 0)) (\<lambda>h4. Some (if inserted then 0 else 10, h4))))"
    using apply_patch_add [OF b al t p v] by blast
  show ?thesis
  proof (cases "k \<le> length cs")
    case True
    from insert_copy [OF b kd w(1,2,3,5) h2 True] obtain h3 h4 g where
      i: "insert_item_in_array h2 (Some (top u)) k (Some (top w)) = Some (True, h3)" "free_text h3 (Block (brk h1) 0) = Some h4"
        "kids h4 (top u) (take k cs @ top w # drop k cs)" "relinked (top u) (insert (top w) (set cs)) g h4"
        "forest h4 [w]" "value_at h4 w = value_at h1 w" "grew h g (addrs w) (blocks_at h4 w)" by blast
    have "\<exists>w h1. kids h4 (top u) (take k cs @ top w # drop k cs) \<and> value_at h4 w = copied (value_at h v) \<and>
        forest h4 [w] \<and> grew h h1 (addrs w) (blocks_at h4 w) \<and> relinked (top u) (insert (top w) (set cs)) h1 h4"
      using i(3-7) w(4) by metis
    moreover have "apply_patch h (Some (top t)) (Some patch) c = Some (0, h4)" using run i(1,2) by simp
    ultimately show ?thesis using True by simp
  next
    case False
    have "kids h2 (top u) cs" using kids_nodes [OF h2(2)] kids_grew [OF kd w(1) b] by simp
    then have "insert_item_in_array h2 (Some (top u)) k (Some (top w)) = Some (False, h2)" using insert_item_beyond False by simp
    then show ?thesis using False run refuse_then_free [OF w(1) h2(1) w(2,3) b w(5)] by auto
  qed
qed

theorem apply_patch_add_array_witness:
  "\<exists>w h'. apply_patch (patched_sample ''add'') (Some 0) (Some 5) True = Some (0, h') \<and> kids h' 0 [1, top w, 2] \<and>
    value_at h' w = copied (value_at (patched_sample ''add'') (Shape 8 []))"
  using apply_patch_add_array [OF patched_sample_facts(1-3) patched_sample_array(2), of "[1, 2]" "Shape 8 []"]
    patched_sample_facts(4,5) patched_sample_array(1) by auto

text \<open>C26: A patch that removes an index of an array of the document unlinks the element and frees exactly
  its tree; an index beyond the end fails with status 13, nothing changed and nothing kept.\<close>

theorem apply_patch_remove_array:
  assumes b: "bounded h" and al: "\<forall>i. may_alloc (hmem h) i" and t: "views h t" and p: "array_patch h c t patch REMOVE ss k u"
    and kd: "kids h (top u) cs" and w: "k < length cs \<longrightarrow> top w = cs ! k \<and> forest h [w] \<and>
      set (all_addrs (subs w)) \<inter> insert (top u) (set cs) = {}"
  shows "\<exists>status h'. apply_patch h (Some (top t)) (Some patch) c = Some (status, h') \<and>
    (if k < length cs then status = 0 \<and> kids h' (top u) (take k cs @ drop (Suc k) cs) \<and>
       (\<exists>g h1. grew h g [] [] \<and> relinked (top u) (set cs) g h1 \<and> h' = erase h1 (addrs w) (blocks_at h w))
     else status = 13 \<and> grew h h' [] [])"
proof -
  obtain a n m where a: "member_named h (Some patch) ''path'' c = Some (Some a)" "nodes h a = Some n"
    "ntype n AND 0xFF = cJSON_String" "text_at h (nvaluestring n) = Some (Some (path_text (ss @ [show_nat k])))"
    "decode_patch_operation h (Some patch) c = Some REMOVE" "resolve h c t ss = Some u" "nodes h (top u) = Some m"
    "ntype m AND 0xFF = cJSON_Array" "k < 2 ^ 64" using p by (auto simp: array_patch_def)
  from detach_path_array [OF b al t a(6,7,8,4,9)] obtain h1 where h1: "grew h h1 [] [brk h]" "nodes h1 = nodes h"
    "detach_path h (Some (top t)) (nvaluestring n) c = Option.bind (detach_item_from_array h1 (Some (top u)) k) (\<lambda>(item, h2).
      Option.bind (free_text h2 (Block (brk h) 0)) (\<lambda>h3. Some (item, h3)))" by blast
  have run: "apply_patch h (Some (top t)) (Some patch) c =
    Option.bind (detach_path h (Some (top t)) (nvaluestring n) c) (\<lambda>(old_item, h).
      if old_item = None then Some (13, h) else Option.bind (cJSON_Delete_at h old_item) (\<lambda>h. Some (0, h)))"
    by (rule apply_patch_remove [OF a(1-3) _ _ a(5)]) (use a(4) in \<open>simp add: chars_at_def\<close>, simp add: path_text_snoc)
  have k1: "kids h1 (top u) cs" using kids_nodes [OF h1(2)] kd by simp
  obtain q where q: "nodes h1 (top u) = Some q" "chain (nodes h1) (nchild q) cs" using kids_chain [OF k1] by blast
  note nth = chain_nth_eq [OF q(2), of k]
  show ?thesis
  proof (cases "k < length cs")
    case True
    have w': "top w = cs ! k" "forest h [w]" "set (all_addrs (subs w)) \<inter> insert (top u) (set cs) = {}" using w True by auto
    from detach_then_delete [OF b h1(1,2) kd True w'] obtain h2 h4 g where
      d: "cJSON_DetachItemViaPointer h1 (Some (top u)) (Some (cs ! k)) = Some (Some (cs ! k), h2)"
        "free_text h2 (Block (brk h) 0) = Some h4" "grew h g [] []" "relinked (top u) (set cs) g h4"
        "cJSON_Delete_at h4 (Some (cs ! k)) = Some (erase h4 (addrs w) (blocks_at h w))"
        "kids (erase h4 (addrs w) (blocks_at h w)) (top u) (take k cs @ drop (Suc k) cs)" by blast
    have "apply_patch h (Some (top t)) (Some patch) c = Some (0, erase h4 (addrs w) (blocks_at h w))"
      unfolding run h1(3) using nth True q(1) d(1,2,5) by (simp add: detach_item_from_array_def node_at_def)
    then show ?thesis using True d(3,4,6) by auto
  next
    case False
    obtain h2 where h2: "free_text h1 (Block (brk h) 0) = Some h2" "grew h h2 [] []" using grew_free_text [OF h1(1)] by auto
    have "apply_patch h (Some (top t)) (Some patch) c = Some (13, h2)"
      unfolding run h1(3) using nth False q(1) h2(1) by (simp add: detach_item_from_array_def node_at_def)
    then show ?thesis using False h2(2) by simp
  qed
qed

theorem apply_patch_remove_array_witness:
  "\<exists>h' h1. apply_patch (patched_sample ''remove'') (Some 0) (Some 5) True = Some (0, h') \<and> kids h' 0 [1] \<and>
    h' = erase h1 [2] [4]"
  using apply_patch_remove_array [OF patched_sample_facts(1-3) patched_sample_array(3), of "[1, 2]" "Shape 2 []"]
    patched_sample_facts(4,6,7) by auto

end
