(* ===== verification/Merging.thy ===== *)
theory Merging
  imports Patching Merge Members "HOL-Library.Multiset"
begin

text \<open>
  Merge patches: the code that edits the target in place, with its deletions, copies and relinked
  children, computes the recursive function of RFC 7396 on the values, leaves the patch as it is, and
  keeps exactly the memory of the result.
\<close>

section \<open>Plain trees\<close>

text \<open>A value without reference and constant name flags, as parsed or built by the program itself.\<close>

fun plain :: "cJSON \<Rightarrow> bool" where
  "plain (Item t vs vi vd s cs) \<longleftrightarrow> t AND cJSON_IsReference = 0 \<and> t AND cJSON_StringIsConst = 0 \<and> (\<forall>c \<in> set cs. plain c)"

text \<open>The tree is the same, but for the links of its root.\<close>

definition same_tree :: "heap \<Rightarrow> heap \<Rightarrow> shape \<Rightarrow> bool" where
  "same_tree h h' t \<longleftrightarrow> map_option content_of (nodes h' (top t)) = map_option content_of (nodes h (top t)) \<and>
     (\<forall>a \<in> set (all_addrs (subs t)). nodes h' a = nodes h a) \<and> (\<forall>b \<in> set (blocks_at h t). texts h' b = texts h b)"

lemma same_tree_all:
  "(\<And>a. a \<in> set (addrs t) \<Longrightarrow> nodes h' a = nodes h a) \<Longrightarrow> (\<And>b. b \<in> set (blocks_at h t) \<Longrightarrow> texts h' b = texts h b) \<Longrightarrow>
   same_tree h h' t"
  by (cases t) (simp add: same_tree_def)

lemma plain_node:
  assumes "nodes h a = Some n" "plain (value_at h (Shape a ts))"
  shows "own_texts n = [nvaluestring n, nstring n]" "\<not> flag n cJSON_IsReference" "\<not> flag n cJSON_StringIsConst"
    "node_blocks n = block_of (nvaluestring n) @ block_of (nstring n)" "\<forall>t \<in> set ts. plain (value_at h t)"
  using assms by (auto simp: own_texts_def node_blocks_def flag_def)

lemma text_at_same: "\<forall>b \<in> set (block_of t). texts h' b = texts h b \<Longrightarrow> text_at h' t = text_at h t"
  by (cases t) (auto simp: text_at_def)

lemma freeable_same: "\<forall>b \<in> set (block_of t). texts h' b = texts h b \<Longrightarrow> freeable h' t = freeable h t"
  by (cases t) auto

lemma frame_tree:
  "same_tree h h' t \<Longrightarrow> views h t \<Longrightarrow> plain (value_at h t) \<Longrightarrow>
   views h' t \<and> value_at h' t = value_at h t \<and> blocks_at h' t = blocks_at h t \<and> (linked h t \<longrightarrow> linked h' t) \<and> (owns h t \<longrightarrow> owns h' t)"
proof (induction t)
  case (Shape a ts)
  obtain n where n: "nodes h a = Some n" "chain (nodes h) (nchild n) (map top ts)" "text_at h (nvaluestring n) \<noteq> None"
    "text_at h (nstring n) \<noteq> None" "\<forall>t \<in> set ts. views h t" using Shape.prems(2) by auto
  note pl = plain_node [OF n(1) Shape.prems(3)]
  have s: "map_option content_of (nodes h' a) = map_option content_of (nodes h a)"
    "\<forall>x \<in> set (all_addrs ts). nodes h' x = nodes h x" "\<forall>b \<in> set (blocks_at h (Shape a ts)). texts h' b = texts h b"
    using Shape.prems(1) by (simp_all add: same_tree_def)
  obtain n' where n': "nodes h' a = Some n'" "nchild n' = nchild n" "ntype n' = ntype n"
    "nvaluestring n' = nvaluestring n" "nvalueint n' = nvalueint n" "nvaluedouble n' = nvaluedouble n" "nstring n' = nstring n"
    using content_of_eq [OF s(1) n(1)] by blast
  have b: "\<forall>b \<in> set (block_of (nvaluestring n)). texts h' b = texts h b" "\<forall>b \<in> set (block_of (nstring n)). texts h' b = texts h b"
    using s(3) n(1) pl(4) by auto
  have st: "same_tree h h' t" if "t \<in> set ts" for t
  proof (rule same_tree_all)
    show "nodes h' x = nodes h x" if "x \<in> set (addrs t)" for x using s(2) that \<open>t \<in> set ts\<close> by auto
    show "texts h' x = texts h x" if "x \<in> set (blocks_at h t)" for x using s(3) that \<open>t \<in> set ts\<close> by auto
  qed
  have sub: "views h' t \<and> value_at h' t = value_at h t \<and> blocks_at h' t = blocks_at h t \<and> (linked h t \<longrightarrow> linked h' t) \<and> (owns h t \<longrightarrow> owns h' t)"
    if "t \<in> set ts" for t
    by (rule Shape.IH [OF that st [OF that]]) (use n(5) pl(5) that in auto)
  have tops: "nodes h' x = nodes h x" if "x \<in> set (map top ts)" for x using s(2) that tops_addrs by blast
  have ch: "chain (nodes h') p (map top ts) = chain (nodes h) p (map top ts)" for p
    by (rule chain_cong) (rule tops)
  have ln: "links (nodes h') q (map top ts) e = links (nodes h) q (map top ts) e" for q e
    by (rule links_cong) (rule tops)
  have own': "own_texts n' = own_texts n" "node_blocks n' = node_blocks n" "flag n' f = flag n f" for f
    using own_texts_eq [OF n'(3,4,7)] by auto
  have "all_blocks h' ts = all_blocks h ts" using sub by (intro arg_cong [where f = concat] map_cong) auto
  moreover have "views h' (Shape a ts)" using n n' sub ch text_at_same [OF b(1)] text_at_same [OF b(2)] by simp
  moreover have "value_at h' (Shape a ts) = value_at h (Shape a ts)"
    using n n' sub text_at_same [OF b(1)] text_at_same [OF b(2)] by simp
  moreover have "linked h (Shape a ts) \<longrightarrow> linked h' (Shape a ts)" using sub ln n n' by (auto simp: kids_def)
  moreover have "owns h (Shape a ts) \<longrightarrow> owns h' (Shape a ts)"
    using n n' sub ch own' pl(1,2) freeable_same [OF b(1)] freeable_same [OF b(2)] by auto
  ultimately show ?case using n n' own' by simp
qed

text \<open>A tree that owns all it is made of.\<close>

definition whole :: "heap \<Rightarrow> shape \<Rightarrow> bool" where
  "whole h t \<longleftrightarrow> owns h t \<and> views h t \<and> linked h t \<and> plain (value_at h t)"

lemma frame_whole:
  "same_tree h h' t \<Longrightarrow> whole h t \<Longrightarrow> whole h' t \<and> value_at h' t = value_at h t \<and> blocks_at h' t = blocks_at h t"
  using frame_tree [of h h' t] by (auto simp: whole_def)

lemma owns_blocks: "owns h t \<Longrightarrow> b \<in> set (blocks_at h t) \<Longrightarrow> texts h b \<noteq> None"
proof (induction t)
  case (Shape a ts)
  obtain n where n: "nodes h a = Some n" "\<forall>t \<in> set (own_texts n). freeable h t" "\<forall>t \<in> set ts. owns h t" using Shape.prems(1) by auto
  have "texts h b \<noteq> None" if "t \<in> set (own_texts n)" "b \<in> set (block_of t)" for t
    using n(2) that by (cases t) auto
  then show ?case using Shape.prems(2) Shape.IH n(1,3) by (auto simp: node_blocks_def)
qed

lemma views_blocks: "views h t \<Longrightarrow> plain (value_at h t) \<Longrightarrow> b \<in> set (blocks_at h t) \<Longrightarrow> texts h b \<noteq> None"
proof (induction t)
  case (Shape a ts)
  obtain n where n: "nodes h a = Some n" "text_at h (nvaluestring n) \<noteq> None" "text_at h (nstring n) \<noteq> None" "\<forall>t \<in> set ts. views h t"
    using Shape.prems(1) by auto
  note pl = plain_node [OF n(1) Shape.prems(2)]
  have "texts h b \<noteq> None" if "text_at h t \<noteq> None" "b \<in> set (block_of t)" for t
    using that by (cases t) (auto simp: text_at_def bind_eq_None_conv simp del: not_None_eq)
  then show ?case using Shape.prems(3) Shape.IH n pl by auto
qed

section \<open>Footprints\<close>

text \<open>From \<open>h\<close> to \<open>h'\<close> the nodes \<open>A\<close> and blocks \<open>B\<close> have become the nodes \<open>A'\<close> and blocks \<open>B'\<close>, which
  are among the old ones or new; nothing else has changed.\<close>

definition becomes :: "heap \<Rightarrow> heap \<Rightarrow> nat list \<Rightarrow> nat list \<Rightarrow> nat list \<Rightarrow> nat list \<Rightarrow> bool" where
  "becomes h h' A B A' B' \<longleftrightarrow>
     (\<forall>a. a \<notin> set A \<union> set A' \<longrightarrow> nodes h' a = nodes h a) \<and> (\<forall>b. b \<notin> set B \<union> set B' \<longrightarrow> texts h' b = texts h b) \<and>
     (\<forall>a \<in> set A - set A'. nodes h' a = None) \<and> (\<forall>b \<in> set B - set B'. texts h' b = None) \<and>
     set A' \<subseteq> set A \<union> {brk h..<brk h'} \<and> set B' \<subseteq> set B \<union> {brk h..<brk h'} \<and> brk h \<le> brk h' \<and>
     bounded h' \<and> same_hooks (hmem h) (hmem h') \<and>
     live (hmem h') + int (length A + length B) = live (hmem h) + int (length A' + length B')"

lemma becomes_refl: "bounded h \<Longrightarrow> becomes h h A B A B"
  by (simp add: becomes_def)

lemma becomes_cong:
  assumes "becomes h h' A B A' B'" "mset C = mset A" "mset D = mset B" "mset C' = mset A'" "mset D' = mset B'"
  shows "becomes h h' C D C' D'"
  using assms(1) unfolding becomes_def assms(2-5) [THEN mset_eq_setD] assms(2-5) [THEN mset_eq_length] .

lemma becomes_trans:
  assumes 1: "becomes h h1 A B A1 B1" and 2: "becomes h1 h2 A1 B1 A2 B2" and b: "bounded h"
  shows "becomes h h2 A B A2 B2"
proof -
  have na: "nodes h2 a = nodes h a" if "a \<notin> set A \<union> set A2" for a
  proof (cases "a \<in> set A1")
    case True
    then have "brk h \<le> a" "nodes h2 a = None" using 1 2 that by (auto simp: becomes_def)
    then show ?thesis using b by (simp add: bounded_def)
  next
    case False
    then show ?thesis using 1 2 that by (simp add: becomes_def)
  qed
  have tb: "texts h2 a = texts h a" if "a \<notin> set B \<union> set B2" for a
  proof (cases "a \<in> set B1")
    case True
    then have "brk h \<le> a" "texts h2 a = None" using 1 2 that by (auto simp: becomes_def)
    then show ?thesis using b by (simp add: bounded_def)
  next
    case False
    then show ?thesis using 1 2 that by (simp add: becomes_def)
  qed
  have a0: "nodes h2 a = None" if "a \<in> set A - set A2" for a
    using 1 2 that by (cases "a \<in> set A1") (auto simp: becomes_def)
  have b0: "texts h2 a = None" if "a \<in> set B - set B2" for a
    using 1 2 that by (cases "a \<in> set B1") (auto simp: becomes_def)
  have s1: "set A1 \<subseteq> set A \<union> {brk h..<brk h1}" "set B1 \<subseteq> set B \<union> {brk h..<brk h1}" "brk h \<le> brk h1"
    using 1 by (simp_all add: becomes_def)
  have s2: "set A2 \<subseteq> set A1 \<union> {brk h1..<brk h2}" "set B2 \<subseteq> set B1 \<union> {brk h1..<brk h2}" "brk h1 \<le> brk h2"
    using 2 by (simp_all add: becomes_def)
  have "{brk h..<brk h1} \<subseteq> {brk h..<brk h2}" "{brk h1..<brk h2} \<subseteq> {brk h..<brk h2}" using s1(3) s2(3) by auto
  then have "set A2 \<subseteq> set A \<union> {brk h..<brk h2}" "set B2 \<subseteq> set B \<union> {brk h..<brk h2}" "brk h \<le> brk h2"
    using s1 s2 by (blast, blast, simp)
  moreover have "same_hooks (hmem h) (hmem h2)" using 1 2 by (simp add: becomes_def same_hooks_def)
  moreover have "live (hmem h2) + int (length A + length B) = live (hmem h) + int (length A2 + length B2)"
    using 1 2 by (simp add: becomes_def)
  ultimately show ?thesis using na tb a0 b0 2 by (simp add: becomes_def)
qed

lemma becomes_beside:
  assumes "becomes h h' A B A' B'" shows "becomes h h' (C @ A) (D @ B) (C @ A') (D @ B')"
  using assms unfolding becomes_def by (simp add: algebra_simps) blast

lemma becomes_grew:
  assumes "grew h h' A B" and "bounded h" shows "becomes h h' [] [] A B"
proof -
  have o: "nodes h' a = nodes h a" if "a \<notin> set A" for a
    using grew_old [OF assms(1), of a] grew_new [OF assms(1), of a] assms(2) that by (cases "a < brk h") (auto simp: bounded_def)
  have t: "texts h' a = texts h a" if "a \<notin> set B" for a
    using grew_old [OF assms(1), of a] grew_new [OF assms(1), of a] assms(2) that by (cases "a < brk h") (auto simp: bounded_def)
  show ?thesis using o t assms(1) grew_bounded [OF assms(1)] by (auto simp: becomes_def grew_def)
qed

lemma becomes_erase:
  assumes "bounded h" shows "becomes h (erase h A B) A B [] []"
  using assms by (auto simp: becomes_def erase_def restrict_map_def bounded_def same_hooks_def deallocate_def)

lemma becomes_relinked:
  assumes r: "relinked p X h h'" and b: "bounded h" and s: "insert p X \<subseteq> set A" "\<forall>a \<in> insert p X. nodes h a \<noteq> None"
  shows "becomes h h' A B A B"
proof -
  note p = relinked_part [OF r]
  have same: "nodes h' a = nodes h a" if "a \<notin> insert p X" for a using r that by (simp add: relinked_def)
  have "bounded h'"
    unfolding bounded_def
  proof (intro allI impI)
    fix a assume "brk h' \<le> a"
    then have "nodes h a = None" "texts h a = None" using b p by (simp_all add: bounded_def)
    moreover have "a \<notin> insert p X" using calculation s(2) by auto
    ultimately show "nodes h' a = None \<and> texts h' a = None" using same [of a] p by simp
  qed
  moreover have "nodes h' a = nodes h a" if "a \<notin> set A" for a
    by (rule same) (use s(1) that in blast)
  ultimately show ?thesis using p by (simp add: becomes_def same_hooks_def)
qed

lemma becomes_bounded: "becomes h h' A B A' B' \<Longrightarrow> bounded h'"
  by (simp add: becomes_def)

lemma becomes_old:
  assumes "becomes h h' A B A' B'" and "a < brk h"
  shows "a \<notin> set A \<Longrightarrow> nodes h' a = nodes h a \<and> a \<notin> set A'" "a \<notin> set B \<Longrightarrow> texts h' a = texts h a \<and> a \<notin> set B'"
proof -
  have "a \<in> set A' \<Longrightarrow> a \<in> set A \<union> {brk h..<brk h'}" "a \<in> set B' \<Longrightarrow> a \<in> set B \<union> {brk h..<brk h'}"
    using assms(1) unfolding becomes_def by blast+
  then have "a \<notin> set A \<Longrightarrow> a \<notin> set A'" "a \<notin> set B \<Longrightarrow> a \<notin> set B'" using assms(2) by auto
  then show "a \<notin> set A \<Longrightarrow> nodes h' a = nodes h a \<and> a \<notin> set A'" "a \<notin> set B \<Longrightarrow> texts h' a = texts h a \<and> a \<notin> set B'"
    using assms(1) by (simp_all add: becomes_def)
qed

text \<open>A tree apart from the footprint.\<close>

definition apart :: "heap \<Rightarrow> shape \<Rightarrow> nat list \<Rightarrow> nat list \<Rightarrow> bool" where
  "apart h t A B \<longleftrightarrow> set (addrs t) \<inter> set A = {} \<and> set (blocks_at h t) \<inter> set B = {}"

lemma apart_frame:
  assumes be: "becomes h h' A B A' B'" and b: "bounded h" and v: "views h t" "plain (value_at h t)" and a: "apart h t A B"
  shows "views h' t \<and> value_at h' t = value_at h t \<and> blocks_at h' t = blocks_at h t \<and> apart h' t A' B' \<and> same_tree h h' t"
proof -
  have A': "nodes h' x = nodes h x \<and> x \<notin> set A'" if "x \<in> set (addrs t)" for x
  proof (rule becomes_old(1) [OF be])
    show "x < brk h" using views_dom [OF v(1)] that bounded_lt(1) [OF b] by blast
    show "x \<notin> set A" using a that by (auto simp: apart_def)
  qed
  have B': "texts h' x = texts h x \<and> x \<notin> set B'" if "x \<in> set (blocks_at h t)" for x
  proof (rule becomes_old(2) [OF be])
    show "x < brk h" using views_blocks [OF v that] bounded_lt(2) [OF b] by blast
    show "x \<notin> set B" using a that by (auto simp: apart_def)
  qed
  have s: "same_tree h h' t"
    by (rule same_tree_all) (use A' B' in blast)+
  then show ?thesis using frame_tree [OF s v] A' B' by (auto simp: apart_def)
qed

section \<open>The merge of values\<close>

text \<open>The first member of a name, taken out of the members; with case, the search ends at a member
  without a name.\<close>

fun take_member :: "bool \<Rightarrow> string \<Rightarrow> cJSON list \<Rightarrow> cJSON option \<times> cJSON list" where
  "take_member b s [] = (None, [])"
| "take_member b s (c # cs) =
     (case item_string c of
        None \<Rightarrow> if b then (None, c # cs) else map_prod id ((#) c) (take_member b s cs)
      | Some k \<Rightarrow> if same_name b s k then (Some c, cs) else map_prod id ((#) c) (take_member b s cs))"

definition new_object :: cJSON where
  "new_object = Item cJSON_Object None 0 zero_double None []"

definition object_or_new :: "cJSON option \<Rightarrow> cJSON" where
  "object_or_new target = (case target of Some i \<Rightarrow> if kind i = cJSON_Object then i else new_object | None \<Rightarrow> new_object)"

text \<open>RFC 7396: what is no object replaces the target; the members of an object replace those of the same
  name, after they were merged, and null removes them.\<close>

fun merge_value :: "bool \<Rightarrow> cJSON option \<Rightarrow> cJSON \<Rightarrow> cJSON" where
  "merge_value b target (Item t vs vi vd s ms) =
     (if t AND 0xFF \<noteq> cJSON_Object then Item t vs vi vd s ms
      else set_children
        (fold (\<lambda>m os. case take_member b (the (item_string m)) os of (old, rest) \<Rightarrow>
           if kind m = cJSON_NULL then rest
           else rest @ [with_name (the (item_string m)) (merge_value b old m)])
         ms (children (object_or_new target))) (object_or_new target))"

text \<open>One member of the patch.\<close>

definition merge_member :: "bool \<Rightarrow> cJSON \<Rightarrow> cJSON list \<Rightarrow> cJSON list" where
  "merge_member b m os = (case take_member b (the (item_string m)) os of (old, rest) \<Rightarrow>
     if kind m = cJSON_NULL then rest else rest @ [with_name (the (item_string m)) (merge_value b old m)])"

lemma merge_value_eq:
  "merge_value b target p = (if kind p \<noteq> cJSON_Object then p
     else set_children (fold (merge_member b) (children p) (children (object_or_new target))) (object_or_new target))"
  by (cases p) (simp add: merge_member_def [abs_def] kind_def)

text \<open>Every member of an object of the patch has a name.\<close>

fun members_named :: "cJSON \<Rightarrow> bool" where
  "members_named (Item t vs vi vd s ms) \<longleftrightarrow>
     (t AND 0xFF = cJSON_Object \<longrightarrow> (\<forall>m \<in> set ms. item_string m \<noteq> None \<and> members_named m))"

lemma plain_copied: "plain v \<Longrightarrow> copied v = v"
proof (induction v)
  case (Item t vs vi vd s cs)
  then have "map copied cs = cs" by (intro map_idI) auto
  then show ?case using Item.prems flag_clear [of t cJSON_IsReference] by simp
qed

section \<open>An object that is edited\<close>

definition opt_list :: "'a option \<Rightarrow> 'a list" where
  "opt_list r = (case r of None \<Rightarrow> [] | Some x \<Rightarrow> [x])"

lemma opt_list_simps [simp]: "opt_list None = []" "opt_list (Some x) = [x]"
  by (simp_all add: opt_list_def)

text \<open>The node \<open>p\<close> has the children \<open>us\<close>; the trees \<open>ws\<close> are beside it, in no list.\<close>

definition object_at :: "heap \<Rightarrow> nat \<Rightarrow> shape list \<Rightarrow> shape list \<Rightarrow> bool" where
  "object_at h p us ws \<longleftrightarrow> bounded h \<and> kids h p (map top us) \<and> (\<forall>u \<in> set (us @ ws). whole h u) \<and>
     (\<forall>w \<in> set ws. loose h (top w)) \<and> distinct (p # all_addrs (us @ ws)) \<and> distinct (all_blocks h (us @ ws))"

definition same_root :: "heap \<Rightarrow> heap \<Rightarrow> nat \<Rightarrow> bool" where
  "same_root h h' p \<longleftrightarrow> map_option (\<lambda>n. n\<lparr>nchild := None\<rparr>) (nodes h' p) = map_option (\<lambda>n. n\<lparr>nchild := None\<rparr>) (nodes h p)"

lemma all_blocks_cong: "(\<And>u. u \<in> set us \<Longrightarrow> blocks_at h' u = blocks_at h u) \<Longrightarrow> all_blocks h' us = all_blocks h us"
  by (intro arg_cong [where f = concat] map_cong) auto

lemma loose_kept: "loose h a \<Longrightarrow> nodes h' a = nodes h a \<Longrightarrow> loose h' a"
  by (simp add: loose_def)

lemma apart_other:
  assumes "distinct (all_addrs (us @ ws))" "distinct (all_blocks h (us @ ws))" "u \<in> set us"
  shows "apart h u (all_addrs ws) (all_blocks h ws)"
  using assms unfolding apart_def by fastforce

text \<open>What happens to the trees beside the object leaves the object alone.\<close>

lemma object_frame:
  assumes o: "object_at h p us ws" and be: "becomes h h' (all_addrs ws) (all_blocks h ws) (all_addrs ws') (all_blocks h' ws')"
    and w: "\<forall>w \<in> set ws'. whole h' w \<and> loose h' (top w)" "distinct (all_addrs ws')" "distinct (all_blocks h' ws')"
  shows "object_at h' p us ws' \<and> map (value_at h') us = map (value_at h) us \<and> nodes h' p = nodes h p \<and>
    all_blocks h' us = all_blocks h us"
proof -
  have wh: "whole h u" if "u \<in> set us" for u using o that by (simp add: object_at_def)
  have b: "bounded h" and kd: "kids h p (map top us)" and dA: "distinct (p # all_addrs (us @ ws))" and dB: "distinct (all_blocks h (us @ ws))"
    using o by (auto simp: object_at_def)
  have fr: "whole h' u \<and> value_at h' u = value_at h u \<and> blocks_at h' u = blocks_at h u \<and> apart h' u (all_addrs ws') (all_blocks h' ws') \<and> same_tree h h' u"
    if u: "u \<in> set us" for u
  proof -
    have "apart h u (all_addrs ws) (all_blocks h ws)" by (rule apart_other) (use dA dB u in auto)
    moreover have "views h u" "plain (value_at h u)" using wh [OF u] by (simp_all add: whole_def)
    ultimately have "apart h' u (all_addrs ws') (all_blocks h' ws') \<and> same_tree h h' u" using apart_frame [OF be b] by blast
    then show ?thesis using frame_whole wh [OF u] by blast
  qed
  have np: "nodes h' a = nodes h a" if "a \<in> insert p (set (map top us))" for a
  proof -
    have "nodes h a \<noteq> None" using kd that links_dom by (fastforce simp: kids_def)
    then have "a < brk h" using bounded_lt(1) [OF b] by blast
    moreover have "a \<notin> set (all_addrs ws)"
    proof (cases "a = p")
      case False
      then have "a \<in> set (all_addrs us)" using that tops_addrs by blast
      moreover have "set (all_addrs us) \<inter> set (all_addrs ws) = {}" using dA by simp
      ultimately show ?thesis by blast
    qed (use dA in simp)
    ultimately show ?thesis using becomes_old(1) [OF be] by blast
  qed
  have "links (nodes h') q (map top us) e = links (nodes h) q (map top us) e" for q e
    by (rule links_cong) (use np in auto)
  then have kd': "kids h' p (map top us)" using kd np [of p] by (simp add: kids_def)
  have pw: "p \<notin> set (all_addrs ws')"
  proof -
    have "p < brk h" using kd bounded_lt(1) [OF b, of p] by (auto simp: kids_def)
    moreover have "p \<notin> set (all_addrs ws)" using dA by simp
    ultimately show ?thesis using becomes_old(1) [OF be] by blast
  qed
  have ab: "all_blocks h' us = all_blocks h us" using fr by (intro all_blocks_cong) blast
  have ap: "set (addrs u) \<inter> set (all_addrs ws') = {}" "set (blocks_at h' u) \<inter> set (all_blocks h' ws') = {}" if "u \<in> set us" for u
    using fr [OF that] unfolding apart_def by blast+
  have "set (all_addrs us) \<inter> set (all_addrs ws') = {}" "set (all_blocks h' us) \<inter> set (all_blocks h' ws') = {}"
    using ap by fastforce+
  then have "distinct (p # all_addrs (us @ ws'))" "distinct (all_blocks h' (us @ ws'))"
    using dA dB w pw ab by auto
  moreover have "map (value_at h') us = map (value_at h) us" using fr by simp
  moreover have "nodes h' p = nodes h p" using np by simp
  ultimately show ?thesis using becomes_bounded [OF be] kd' fr w(1) ab unfolding object_at_def by (simp add: ball_Un)
qed

section \<open>Taking a member out\<close>

lemma views_item_string: "views h t \<Longrightarrow> key_of h (top t) = item_string (value_at h t) \<and> named h (top t)"
  by (cases t) (auto simp: key_of_def named_def)

text \<open>The search on the heap is the search in the list of values.\<close>

lemma selected_take:
  "\<forall>u \<in> set us. views h u \<Longrightarrow>
   (case selected h b s (map top us) of
      None \<Rightarrow> take_member b s (map (value_at h) us) = (None, map (value_at h) us)
    | Some a \<Rightarrow> \<exists>xs u ys. us = xs @ u # ys \<and> a = top u \<and>
        take_member b s (map (value_at h) us) = (Some (value_at h u), map (value_at h) (xs @ ys)))"
proof (induction us)
  case Nil
  then show ?case by (simp add: selected_def)
next
  case (Cons v us)
  have k: "key_of h (top v) = item_string (value_at h v)" using Cons.prems views_item_string by simp
  note IH = Cons.IH [OF ballI [OF bspec [OF Cons.prems]], OF list.set_intros(2)]
  show ?case
  proof (cases "case key_of h (top v) of None \<Rightarrow> b | Some t \<Rightarrow> same_name b s t")
    case True
    then show ?thesis using k by (cases "item_string (value_at h v)") (auto simp: selected_def intro!: exI [of _ "[]"])
  next
    case False
    then have sel: "selected h b s (map top (v # us)) = selected h b s (map top us)" by (simp add: selected_def)
    have tk: "take_member b s (map (value_at h) (v # us)) = map_prod id ((#) (value_at h v)) (take_member b s (map (value_at h) us))"
      using False k by (cases "item_string (value_at h v)") simp_all
    show ?thesis
    proof (cases "selected h b s (map top us)")
      case None
      then show ?thesis unfolding sel tk using IH by simp
    next
      case (Some a)
      then obtain xs u ys where "us = xs @ u # ys" "a = top u"
        "take_member b s (map (value_at h) us) = (Some (value_at h u), map (value_at h) (xs @ ys))" using IH by auto
      then show ?thesis unfolding sel tk Some by (auto intro!: exI [of _ "v # xs"])
    qed
  qed
qed

definition detach_named :: "bool \<Rightarrow> heap \<Rightarrow> ptr \<Rightarrow> text_ptr \<Rightarrow> (ptr \<times> heap) option" where
  "detach_named b = (if b then cJSON_DetachItemFromObjectCaseSensitive else cJSON_DetachItemFromObject)"

definition delete_named :: "bool \<Rightarrow> heap \<Rightarrow> ptr \<Rightarrow> text_ptr \<Rightarrow> heap option" where
  "delete_named b = (if b then cJSON_DeleteItemFromObjectCaseSensitive else cJSON_DeleteItemFromObject)"

lemma detach_named_eq:
  "detach_named b h object name = Option.bind (get_object_item h object name b) (cJSON_DetachItemViaPointer h object)"
  by (cases b) (simp_all add: detach_named_def cJSON_DetachItemFromObjectCaseSensitive_def cJSON_DetachItemFromObject_def
    cJSON_GetObjectItemCaseSensitive_def cJSON_GetObjectItem_def)

lemma delete_named_eq:
  "delete_named b h object name = Option.bind (detach_named b h object name) (\<lambda>(item, h). cJSON_Delete_at h item)"
  by (cases b) (simp_all add: detach_named_def delete_named_def cJSON_DeleteItemFromObjectCaseSensitive_def cJSON_DeleteItemFromObject_def)

lemma detach_none: "cJSON_DetachItemViaPointer h object None = Some (None, h)"
  by (simp add: cJSON_DetachItemViaPointer_def)

lemma whole_values: "\<forall>u \<in> set us. whole h u \<Longrightarrow> \<forall>u \<in> set us. views h u \<and> named h (top u)"
  using views_item_string by (auto simp: whole_def)

lemma top_in_addrs: "u \<in> set us \<Longrightarrow> top u \<in> set (all_addrs us)"
  using tops_addrs by auto

text \<open>Relinking the children leaves their trees alone.\<close>

lemma relinked_children:
  assumes r: "relinked p (set (map top us)) h h'" and wh: "\<forall>u \<in> set us. whole h u" and d: "distinct (p # all_addrs us)" and u: "u \<in> set us"
  shows "whole h' u \<and> value_at h' u = value_at h u \<and> blocks_at h' u = blocks_at h u"
proof (rule frame_whole)
  have "nodes h' a = nodes h a" if a: "a \<in> set (all_addrs (subs u))" for a
  proof -
    have "a \<notin> set (map top us)" by (rule inner_not_top [OF _ u a]) (use d in simp)
    moreover have "a \<in> set (addrs u)" using a by (cases u) simp
    then have "a \<noteq> p" using d u by auto
    ultimately show ?thesis using r by (simp add: relinked_def)
  qed
  then show "same_tree h h' u" using r u relinked_part [OF r] by (simp add: same_tree_def relinked_def)
qed (use wh u in blast)

lemma detach_member:
  assumes o: "object_at h p us []" and name: "text_at h name = Some (Some s)"
  shows "\<exists>old us' h'. detach_named b h (Some p) name = Some (map_option top old, h') \<and> object_at h' p us' (opt_list old) \<and>
    take_member b s (map (value_at h) us) = (map_option (value_at h') old, map (value_at h') us') \<and> same_root h h' p \<and>
    becomes h h' (p # all_addrs us) (all_blocks h us) (p # all_addrs (us' @ opt_list old)) (all_blocks h' (us' @ opt_list old))"
proof -
  have b: "bounded h" and kd: "kids h p (map top us)" and wh: "\<forall>u \<in> set us. whole h u" and dA: "distinct (p # all_addrs us)"
    and dB: "distinct (all_blocks h us)" using o by (simp_all add: object_at_def)
  have vs: "\<forall>u \<in> set us. views h u \<and> named h (top u)" by (rule whole_values [OF wh])
  have g: "get_object_item h (Some p) name b = Some (selected h b s (map top us))"
    by (rule get_object_item_kids [OF kd _ name]) (use vs in simp)
  have st: "case selected h b s (map top us) of
      None \<Rightarrow> take_member b s (map (value_at h) us) = (None, map (value_at h) us)
    | Some a \<Rightarrow> \<exists>xs u ys. us = xs @ u # ys \<and> a = top u \<and>
        take_member b s (map (value_at h) us) = (Some (value_at h u), map (value_at h) (xs @ ys))"
    by (rule selected_take) (use vs in blast)
  show ?thesis
  proof (cases "selected h b s (map top us)")
    case None
    then have "detach_named b h (Some p) name = Some (None, h)" using g by (simp add: detach_named_eq detach_none)
    then show ?thesis using None st o becomes_refl [OF b]
      by (intro exI [of _ None] exI [of _ us] exI [of _ h]) (simp add: same_root_def)
  next
    case (Some a)
    then obtain xs u ys where u: "us = xs @ u # ys" "a = top u"
      "take_member b s (map (value_at h) us) = (Some (value_at h u), map (value_at h) (xs @ ys))" using st by auto
    have "kids h p (map top xs @ top u # map top ys)" using kd u(1) by simp
    from detach_kids [OF this] obtain h' where h': "cJSON_DetachItemViaPointer h (Some p) (Some (top u)) = Some (Some (top u), h')"
      "kids h' p (map top xs @ map top ys)" "relinked p (set (map top us)) h h'" "loose h' (top u)" using u(1) by auto
    have fr: "whole h' v \<and> value_at h' v = value_at h v \<and> blocks_at h' v = blocks_at h v" if "v \<in> set us" for v
      by (rule relinked_children [OF h'(3) wh dA that])
    have in_us: "u \<in> set us" "\<And>v. v \<in> set (xs @ ys) \<Longrightarrow> v \<in> set us" using u(1) by auto
    have be0: "becomes h h' (p # all_addrs us) (all_blocks h us) (p # all_addrs us) (all_blocks h us)"
    proof (rule becomes_relinked [OF h'(3) b])
      show "insert p (set (map top us)) \<subseteq> set (p # all_addrs us)" using tops_addrs by auto
      show "\<forall>a \<in> insert p (set (map top us)). nodes h a \<noteq> None" using kd links_dom by (fastforce simp: kids_def)
    qed
    have ab: "all_blocks h' vs = all_blocks h vs" if "set vs \<subseteq> set us" for vs
      using fr that by (intro all_blocks_cong) blast
    have be: "becomes h h' (p # all_addrs us) (all_blocks h us) (p # all_addrs ((xs @ ys) @ [u])) (all_blocks h' ((xs @ ys) @ [u]))"
      by (rule becomes_cong [OF be0]) (use ab [of "(xs @ ys) @ [u]"] in \<open>auto simp: u(1)\<close>)
    have "object_at h' p (xs @ ys) [u]"
      unfolding object_at_def
    proof (intro conjI)
      show "bounded h'" by (rule becomes_bounded [OF be])
      show "kids h' p (map top (xs @ ys))" using h'(2) by simp
      show "\<forall>v \<in> set ((xs @ ys) @ [u]). whole h' v" using fr in_us by auto
      show "\<forall>w \<in> set [u]. loose h' (top w)" using h'(4) by simp
      show "distinct (p # all_addrs ((xs @ ys) @ [u]))" using dA unfolding u(1) by auto
      show "distinct (all_blocks h' ((xs @ ys) @ [u]))" using dB ab [of "(xs @ ys) @ [u]"] unfolding u(1) by auto
    qed
    moreover have "detach_named b h (Some p) name = Some (Some (top u), h')" using g Some u(2) h'(1) by (simp add: detach_named_eq)
    moreover have "map (value_at h') (xs @ ys) = map (value_at h) (xs @ ys)" "value_at h' u = value_at h u" using fr in_us by auto
    moreover have "same_root h h' p" using h'(3) by (simp add: relinked_def same_root_def)
    ultimately show ?thesis using u(3) be
      by (intro exI [of _ "Some u"] exI [of _ "xs @ ys"] exI [of _ h']) simp
  qed
qed

text \<open>Deleting the tree beside the object.\<close>

lemma delete_tree:
  assumes b: "bounded h" and w: "whole h w" "loose h (top w)" and d: "distinct (addrs w)" "distinct (blocks_at h w)"
  shows "cJSON_Delete_at h (Some (top w)) = Some (erase h (addrs w) (blocks_at h w)) \<and>
    becomes h (erase h (addrs w) (blocks_at h w)) (addrs w) (blocks_at h w) [] []"
proof -
  have "forest h [w]" using w(1) d by (simp add: whole_def forest_def)
  moreover have "chain (nodes h) (Some (top w)) (map top [w])" using w(2) by (auto simp: loose_def)
  ultimately show ?thesis using delete_forest [of h "[w]" "Some (top w)"] becomes_erase [OF b] by simp
qed

section \<open>Adding the result\<close>

lemma plain_with_name: "plain v \<Longrightarrow> plain (with_name s v)"
  by (cases v) simp

text \<open>The root gets a new name, and its old one is freed.\<close>

lemma rename_tree:
  assumes b: "bounded h" and al: "\<forall>i. may_alloc (hmem h) i" and w: "whole h w" "loose h (top w)"
    and d: "distinct (addrs w)" "distinct (blocks_at h w)" and name: "text_at h name = Some (Some s)" and p: "p \<noteq> top w"
  shows "\<exists>h'. add_item_to_object h (Some p) name (Some (top w)) False = add_item_to_array h' (Some p) (Some (top w)) \<and>
    whole h' w \<and> loose h' (top w) \<and> distinct (blocks_at h' w) \<and> value_at h' w = with_name s (value_at h w) \<and>
    becomes h h' (addrs w) (blocks_at h w) (addrs w) (blocks_at h' w)"
proof (rule new_text_cases [OF b, of "s @ [NUL]"])
  fix h1 assume "\<not> (\<forall>i. may_alloc (hmem h) i)"
  then show ?thesis using al by blast
next
  fix h1 assume h1: "new_text h (s @ [NUL]) = (Block (brk h) 0, h1)" "grew h h1 [] [brk h]" "nodes h1 = nodes h"
    "texts h1 = (texts h)(brk h \<mapsto> s @ [NUL])"
  obtain a ts where sh: "w = Shape a ts" by (cases w)
  obtain n where n: "nodes h a = Some n" "chain (nodes h) (nchild n) (map top ts)" "text_at h (nvaluestring n) \<noteq> None"
    "text_at h (nstring n) \<noteq> None" "\<forall>t \<in> set ts. views h t" using w(1) sh by (auto simp: whole_def)
  have pv: "plain (value_at h (Shape a ts))" using w(1) sh by (simp add: whole_def)
  note pl = plain_node [OF n(1) pv]
  have fre: "freeable h (nvaluestring n)" "freeable h (nstring n)" using w(1) sh n(1) pl(1) by (auto simp: whole_def)
  have wts: "whole h t" if "t \<in> set ts" for t using w(1) sh pl(5) that by (auto simp: whole_def)
  have bl: "blocks_at h w = block_of (nvaluestring n) @ block_of (nstring n) @ all_blocks h ts"
    using n(1) pl(4) sh by simp
  have new: "brk h \<notin> set (blocks_at h w)"
    using owns_blocks [of h w "brk h"] w(1) b by (auto simp: whole_def bounded_def)
  define N where "N = block_of (nstring n)"
  define n' where "n' = n\<lparr>nstring := Block (brk h) 0, ntype := ntype n AND NOT cJSON_StringIsConst\<rparr>"
  define h2 where "h2 = erase h1 [] N"
  define h' where "h' = h2\<lparr>nodes := (nodes h2)(a \<mapsto> n')\<rparr>"
  have fs: "freeable h1 (nstring n) = freeable h (nstring n)" by (rule freeable_same) (use new bl h1(4) in auto)
  have fr: "(if \<not> flag n cJSON_StringIsConst \<and> nstring n \<noteq> Null then free_text h1 (nstring n) else Some h1) = Some h2"
    using free_text_erase [of h1 "nstring n"] fs fre(2) pl(3) by (auto simp: h2_def N_def)
  have nh2: "nodes h2 = nodes h" by (simp add: h2_def erase_def h1(3))
  have nm: "name \<noteq> Null" using name by (auto simp: text_at_def)
  have cg: "change h2 (Some a) (\<lambda>m. m\<lparr>nstring := Block (brk h) 0, ntype := ntype n AND NOT cJSON_StringIsConst\<rparr>) = Some h'"
    using n(1) nh2 by (simp add: change_def h'_def n'_def)
  have run: "add_item_to_object h (Some p) name (Some (top w)) False = add_item_to_array h' (Some p) (Some (top w))"
    using name nm h1(1) n(1) fr p sh cg h1(3)
    by (simp add: add_item_to_object_def cJSON_strdup_def node_at_def Let_def del: bind_Some_iff)
  have ty: "ntype n' = ntype n" using flag_clear [of "ntype n" cJSON_StringIsConst] pl(3) by (simp add: n'_def flag_def)
  have nh': "nodes h' = (nodes h)(a \<mapsto> n')" and th': "texts h' = (texts h)(brk h \<mapsto> s @ [NUL]) |` (- set N)"
    by (simp_all add: h'_def h2_def erase_def h1(3,4))
  have dA: "a \<notin> set (all_addrs ts)" using d(1) sh by simp
  have sub: "same_tree h h' t" if t: "t \<in> set ts" for t
  proof (rule same_tree_all)
    show "nodes h' x = nodes h x" if "x \<in> set (addrs t)" for x using that t dA by (auto simp: nh')
    show "texts h' x = texts h x" if "x \<in> set (blocks_at h t)" for x
    proof -
      have "x \<in> set (all_blocks h ts)" using t that by auto
      then have "x \<notin> set N" "x \<noteq> brk h" using d(2) new unfolding bl N_def by auto
      then show ?thesis by (simp add: th' restrict_map_def)
    qed
  qed
  have wts': "whole h' t \<and> value_at h' t = value_at h t \<and> blocks_at h' t = blocks_at h t" if "t \<in> set ts" for t
    using frame_whole [OF sub [OF that] wts [OF that]] .
  have ab: "all_blocks h' ts = all_blocks h ts" using wts' by (intro all_blocks_cong) blast
  have nN: "brk h \<notin> set N" using new unfolding bl N_def by simp
  have tnew: "text_at h' (Block (brk h) 0) = Some (Some s)"
    by (rule text_at_new [OF text_at_nulfree [OF name]]) (use nN in \<open>simp add: th' restrict_map_def\<close>)
  have sv: "\<forall>x \<in> set (block_of (nvaluestring n)). texts h' x = texts h x"
    using d(2) new unfolding bl N_def by (auto simp: th' restrict_map_def N_def)
  have tops: "nodes h' x = nodes h x" if "x \<in> set (map top ts)" for x
  proof -
    have "x \<noteq> a" using that dA tops_addrs [of ts] by auto
    then show ?thesis by (simp add: nh')
  qed
  have ch: "chain (nodes h') (nchild n) (map top ts)" using n(2) chain_cong [of "map top ts" "nodes h'" "nodes h"] tops by blast
  have kd: "kids h' a (map top ts)"
  proof -
    have "kids h a (map top ts)" using w(1) sh by (simp add: whole_def)
    moreover have "links (nodes h') q (map top ts) e = links (nodes h) q (map top ts) e" for q e
      by (rule links_cong) (rule tops)
    ultimately show ?thesis using n(1) by (auto simp: kids_def nh' n'_def)
  qed
  have n'f: "nvaluestring n' = nvaluestring n" "nchild n' = nchild n" "nstring n' = Block (brk h) 0" "nvalueint n' = nvalueint n"
    "nvaluedouble n' = nvaluedouble n" "nnext n' = nnext n" by (simp_all add: n'_def)
  have va: "value_at h' w = with_name s (value_at h w)"
    using n(1) sh nh' n'f ty tnew text_at_same [OF sv] wts' by simp
  have own': "own_texts n' = [nvaluestring n, Block (brk h) 0]"
    using pl(2,3) by (simp add: own_texts_def n'f flag_def ty)
  have bl': "blocks_at h' w = block_of (nvaluestring n) @ [brk h] @ all_blocks h ts"
    using sh nh' ab own' by (simp add: node_blocks_def)
  have o': "owns h' (Shape a ts)"
    using nh' n'f ch pl(2) own' wts' freeable_same [OF sv] fre(1) nN ty
    by (auto simp: flag_def whole_def th' restrict_map_def)
  have v': "views h' (Shape a ts)" using nh' n'f ch wts' n(3) tnew text_at_same [OF sv] by (auto simp: whole_def)
  have "linked h' (Shape a ts)" using kd wts' by (auto simp: whole_def)
  then have "whole h' w" using o' v' va w(1) plain_with_name sh by (simp add: whole_def)
  moreover have "loose h' (top w)" using w(2) sh n(1) nh' n'f by (simp add: loose_def)
  moreover have "distinct (blocks_at h' w)" using d(2) new unfolding bl bl' by auto
  moreover have "becomes h h' (addrs w) (blocks_at h w) (addrs w) (blocks_at h' w)"
  proof -
    have "becomes h h1 [] [] [] [brk h]" by (rule becomes_grew [OF h1(2) b])
    from becomes_beside [OF this, of "addrs w" "blocks_at h w"]
    have b1: "becomes h h1 (addrs w) (blocks_at h w) (addrs w) (blocks_at h w @ [brk h])" by simp
    have "becomes h1 h2 [] N [] []" unfolding h2_def by (rule becomes_erase [OF grew_bounded [OF h1(2)]])
    from becomes_beside [OF this, of "addrs w" "blocks_at h' w"]
    have "becomes h1 h2 (addrs w) (blocks_at h' w @ N) (addrs w) (blocks_at h' w)" by simp
    from becomes_cong [OF this, of "addrs w" "blocks_at h w @ [brk h]" "addrs w" "blocks_at h' w"]
    have b2: "becomes h1 h2 (addrs w) (blocks_at h w @ [brk h]) (addrs w) (blocks_at h' w)" by (simp add: bl bl' N_def)
    have "bounded h2" by (rule becomes_bounded [OF b2])
    then have "becomes h2 h' (addrs w) (blocks_at h' w) (addrs w) (blocks_at h' w)"
      using n(1) nh2 sh by (auto simp: becomes_def h'_def bounded_def same_hooks_def)
    from becomes_trans [OF becomes_trans [OF b1 b2 b] this b] show ?thesis .
  qed
  ultimately show ?thesis using run va by blast
qed

text \<open>A tree beside the list is hung at its end.\<close>

lemma append_at:
  assumes o1: "object_at h1 p us [w]"
  shows "\<exists>h'. add_item_to_array h1 (Some p) (Some (top w)) = Some (True, h') \<and> object_at h' p (us @ [w]) [] \<and>
    map (value_at h') (us @ [w]) = map (value_at h1) (us @ [w]) \<and> same_root h1 h' p \<and>
    becomes h1 h' (p # all_addrs (us @ [w])) (all_blocks h1 (us @ [w])) (p # all_addrs (us @ [w])) (all_blocks h' (us @ [w]))"
proof -
  have b1: "bounded h1" and kd: "kids h1 p (map top us)" and wh: "\<forall>u \<in> set (us @ [w]). whole h1 u" and lo: "loose h1 (top w)"
    and dA: "distinct (p # all_addrs (us @ [w]))" and dB: "distinct (all_blocks h1 (us @ [w]))" using o1 by (simp_all add: object_at_def)
  have pt: "p \<noteq> top w" using dA top_addrs [of w] by auto
  have tw: "top w \<notin> set (map top us)"
  proof
    assume "top w \<in> set (map top us)"
    then have "top w \<in> set (all_addrs us)" using tops_addrs by blast
    then show False using dA by auto
  qed
  obtain h' where h': "add_item_to_array h1 (Some p) (Some (top w)) = Some (True, h')" "kids h' p (map top us @ [top w])"
    "relinked p (insert (top w) (set (map top us))) h1 h'" using add_kids [OF kd lo pt [symmetric] tw] by blast
  have ins: "insert (top w) (set (map top us)) = set (map top (us @ [w]))" by simp
  have fr: "whole h' u \<and> value_at h' u = value_at h1 u \<and> blocks_at h' u = blocks_at h1 u" if "u \<in> set (us @ [w])" for u
    by (rule relinked_children [OF _ wh dA that]) (use h'(3) ins in simp)
  have ab: "all_blocks h' (us @ [w]) = all_blocks h1 (us @ [w])" using fr by (intro all_blocks_cong) blast
  have be: "becomes h1 h' (p # all_addrs (us @ [w])) (all_blocks h1 (us @ [w])) (p # all_addrs (us @ [w])) (all_blocks h' (us @ [w]))"
    unfolding ab
  proof (rule becomes_relinked [OF h'(3) b1])
    show "insert p (insert (top w) (set (map top us))) \<subseteq> set (p # all_addrs (us @ [w]))" unfolding ins using tops_addrs [of "us @ [w]"] by auto
    show "\<forall>a \<in> insert p (insert (top w) (set (map top us))). nodes h1 a \<noteq> None"
      using kd links_dom lo by (fastforce simp: kids_def loose_def)
  qed
  have "object_at h' p (us @ [w]) []"
    unfolding object_at_def
  proof (intro conjI)
    show "bounded h'" by (rule becomes_bounded [OF be])
    show "kids h' p (map top (us @ [w]))" using h'(2) by simp
    show "\<forall>u \<in> set ((us @ [w]) @ []). whole h' u" using fr by simp
    show "distinct (p # all_addrs ((us @ [w]) @ []))" using dA by simp
    show "distinct (all_blocks h' ((us @ [w]) @ []))" using dB unfolding append_Nil2 ab .
  qed simp
  moreover have "map (value_at h') (us @ [w]) = map (value_at h1) (us @ [w])" using fr by simp
  moreover have "same_root h1 h' p" using h'(3) by (simp add: relinked_def same_root_def)
  ultimately show ?thesis using h'(1) be by blast
qed

lemma add_member_at:
  assumes o: "object_at h p us [w]" and al: "\<forall>i. may_alloc (hmem h) i" and name: "text_at h name = Some (Some s)"
  shows "\<exists>h'. cJSON_AddItemToObject h (Some p) name (Some (top w)) = Some (True, h') \<and> object_at h' p (us @ [w]) [] \<and>
    map (value_at h') (us @ [w]) = map (value_at h) us @ [with_name s (value_at h w)] \<and> same_root h h' p \<and>
    becomes h h' (p # all_addrs (us @ [w])) (all_blocks h (us @ [w])) (p # all_addrs (us @ [w])) (all_blocks h' (us @ [w]))"
proof -
  have b: "bounded h" and w: "whole h w" "loose h (top w)" "distinct (addrs w)" "distinct (blocks_at h w)"
    and dA: "distinct (p # all_addrs (us @ [w]))" using o by (simp_all add: object_at_def)
  have pt: "p \<noteq> top w" using dA top_addrs [of w] by auto
  obtain h1 where h1: "add_item_to_object h (Some p) name (Some (top w)) False = add_item_to_array h1 (Some p) (Some (top w))"
    "whole h1 w" "loose h1 (top w)" "distinct (blocks_at h1 w)" "value_at h1 w = with_name s (value_at h w)"
    "becomes h h1 (addrs w) (blocks_at h w) (addrs w) (blocks_at h1 w)"
    using rename_tree [OF b al w name pt] by blast
  have "becomes h h1 (all_addrs [w]) (all_blocks h [w]) (all_addrs [w]) (all_blocks h1 [w])" using h1(6) by simp
  from object_frame [OF o this] h1(2-4) w(3)
  have o1: "object_at h1 p us [w]" "map (value_at h1) us = map (value_at h) us" "nodes h1 p = nodes h p" "all_blocks h1 us = all_blocks h us"
    by simp_all
  obtain h' where h': "add_item_to_array h1 (Some p) (Some (top w)) = Some (True, h')" "object_at h' p (us @ [w]) []"
    "map (value_at h') (us @ [w]) = map (value_at h1) (us @ [w])" "same_root h1 h' p"
    "becomes h1 h' (p # all_addrs (us @ [w])) (all_blocks h1 (us @ [w])) (p # all_addrs (us @ [w])) (all_blocks h' (us @ [w]))"
    using append_at [OF o1(1)] by blast
  have "becomes h h1 (p # all_addrs (us @ [w])) (all_blocks h (us @ [w])) (p # all_addrs (us @ [w])) (all_blocks h1 (us @ [w]))"
    using becomes_beside [OF h1(6), of "p # all_addrs us" "all_blocks h us"] o1(4) by simp
  from becomes_trans [OF this h'(5) b]
  have "becomes h h' (p # all_addrs (us @ [w])) (all_blocks h (us @ [w])) (p # all_addrs (us @ [w])) (all_blocks h' (us @ [w]))" .
  moreover have "map (value_at h') (us @ [w]) = map (value_at h) us @ [with_name s (value_at h w)]" using h'(3) o1(2) h1(5) by simp
  moreover have "same_root h h' p" using h'(4) o1(3) by (simp add: same_root_def)
  ultimately show ?thesis using h1(1) h'(1,2) by (simp add: cJSON_AddItemToObject_def)
qed

section \<open>One member of the patch\<close>

text \<open>What a call needs of the target, if any, and of the patch, and what it does.\<close>

definition mergeable :: "heap \<Rightarrow> shape option \<Rightarrow> shape \<Rightarrow> bool" where
  "mergeable h t q \<longleftrightarrow> bounded h \<and> (\<forall>i. may_alloc (hmem h) i) \<and> views h q \<and> plain (value_at h q) \<and>
     members_named (value_at h q) \<and>
     (\<forall>w \<in> set (opt_list t). whole h w \<and> loose h (top w) \<and> distinct (addrs w) \<and> distinct (blocks_at h w)) \<and>
     apart h q (all_addrs (opt_list t)) (all_blocks h (opt_list t))"

definition merges :: "(heap \<Rightarrow> ptr \<Rightarrow> ptr \<Rightarrow> (ptr \<times> heap) option) \<Rightarrow> bool \<Rightarrow> heap \<Rightarrow> shape option \<Rightarrow> shape \<Rightarrow> bool" where
  "merges merge b h t q \<longleftrightarrow> (\<exists>r h'. merge h (map_option top t) (Some (top q)) = Some (Some (top r), h') \<and>
     whole h' r \<and> loose h' (top r) \<and> distinct (addrs r) \<and> distinct (blocks_at h' r) \<and>
     value_at h' r = merge_value b (map_option (value_at h) t) (value_at h q) \<and>
     becomes h h' (all_addrs (opt_list t)) (all_blocks h (opt_list t)) (addrs r) (blocks_at h' r))"

lemma becomes_alloc: "becomes h h' A B A' B' \<Longrightarrow> may_alloc (hmem h') = may_alloc (hmem h)"
  by (simp add: becomes_def same_hooks_def)

lemma apart_less: "apart h q A B \<Longrightarrow> set C \<subseteq> set A \<Longrightarrow> set D \<subseteq> set B \<Longrightarrow> apart h q C D"
  unfolding apart_def by blast

lemma views_root:
  "views h q \<Longrightarrow> \<exists>n. nodes h (top q) = Some n \<and> ntype n = item_type (value_at h q) \<and>
     text_at h (nstring n) = Some (item_string (value_at h q)) \<and> chain (nodes h) (nchild n) (map top (subs q))"
  by (cases q) auto

lemma same_root_trans: "same_root h h1 p \<Longrightarrow> same_root h1 h2 p \<Longrightarrow> same_root h h2 p"
  by (simp add: same_root_def)

definition merge_step ::
    "(heap \<Rightarrow> ptr \<Rightarrow> ptr \<Rightarrow> (ptr \<times> heap) option) \<Rightarrow> bool \<Rightarrow> ptr \<Rightarrow> nat \<Rightarrow> heap \<Rightarrow> (bool \<times> heap) option" where
  "merge_step merge b target c h = do {
     n \<leftarrow> nodes h c;
     if ntype n AND 0xFF = cJSON_NULL then do { h \<leftarrow> delete_named b h target (nstring n); Some (True, h) }
     else do {
       (replace_me, h) \<leftarrow> detach_named b h target (nstring n);
       (replacement, h) \<leftarrow> merge h replace_me (Some c);
       if replacement = None then Some (False, h)
       else do {
         n \<leftarrow> nodes h c;
         (_, h) \<leftarrow> cJSON_AddItemToObject h target (nstring n) replacement;
         Some (True, h) } } }"

lemma merge_members_step:
  "merge_members merge b target (Some c) h = do {
     (ok, h) \<leftarrow> merge_step merge b target c h;
     if \<not> ok then Some (False, h) else do { n \<leftarrow> nodes h c; merge_members merge b target (nnext n) h } }"
  by (subst merge_members.simps) (simp add: merge_step_def detach_named_def delete_named_def bind_assoc del: bind_Some_iff cong: if_cong)

lemma merge_step_ok:
  assumes IH: "\<And>h t. mergeable h t q \<Longrightarrow> merges merge b h t q"
    and o: "object_at h p us []" and al: "\<forall>i. may_alloc (hmem h) i"
    and q: "views h q" "plain (value_at h q)" "members_named (value_at h q)" "item_string (value_at h q) \<noteq> None"
    and ap: "apart h q (p # all_addrs us) (all_blocks h us)"
  shows "\<exists>us' h'. merge_step merge b (Some p) (top q) h = Some (True, h') \<and> object_at h' p us' [] \<and>
    map (value_at h') us' = merge_member b (value_at h q) (map (value_at h) us) \<and> same_root h h' p \<and>
    becomes h h' (p # all_addrs us) (all_blocks h us) (p # all_addrs us') (all_blocks h' us')"
proof -
  have bd: "bounded h" using o by (simp add: object_at_def)
  obtain s where s: "item_string (value_at h q) = Some s" using q(4) by blast
  obtain n where n: "nodes h (top q) = Some n" "ntype n = item_type (value_at h q)" "text_at h (nstring n) = Some (Some s)"
    using views_root [OF q(1)] s by auto
  obtain old us1 h1 where d: "detach_named b h (Some p) (nstring n) = Some (map_option top old, h1)" "object_at h1 p us1 (opt_list old)"
    "take_member b s (map (value_at h) us) = (map_option (value_at h1) old, map (value_at h1) us1)" "same_root h h1 p"
    "becomes h h1 (p # all_addrs us) (all_blocks h us) (p # all_addrs (us1 @ opt_list old)) (all_blocks h1 (us1 @ opt_list old))"
    using detach_member [OF o n(3)] by blast
  have b1: "bounded h1" by (rule becomes_bounded [OF d(5)])
  have q1: "views h1 q" "value_at h1 q = value_at h q" "apart h1 q (p # all_addrs (us1 @ opt_list old)) (all_blocks h1 (us1 @ opt_list old))"
    using apart_frame [OF d(5) bd q(1,2) ap] by auto
  have ol: "\<forall>w \<in> set (opt_list old). whole h1 w \<and> loose h1 (top w) \<and> distinct (addrs w) \<and> distinct (blocks_at h1 w)"
    using d(2) by (cases old) (simp_all add: object_at_def)
  have beside: "becomes h h2 (p # all_addrs us) (all_blocks h us) (p # all_addrs us1 @ A) (all_blocks h1 us1 @ B)"
    if "becomes h1 h2 (all_addrs (opt_list old)) (all_blocks h1 (opt_list old)) A B" for h2 A B
    using becomes_trans [OF d(5) _ bd] becomes_beside [OF that, of "p # all_addrs us1" "all_blocks h1 us1"] by simp
  show ?thesis
  proof (cases "kind (value_at h q) = cJSON_NULL")
    case True
    have "\<exists>h2. cJSON_Delete_at h1 (map_option top old) = Some h2 \<and>
      becomes h1 h2 (all_addrs (opt_list old)) (all_blocks h1 (opt_list old)) (all_addrs []) (all_blocks h2 [])"
    proof (cases old)
      case None
      then show ?thesis using becomes_refl [OF b1, of "[]" "[]"] by (simp add: cJSON_Delete_at.simps)
    next
      case (Some w)
      then show ?thesis using delete_tree [OF b1, of w] ol by simp
    qed
    then obtain h2 where h2: "cJSON_Delete_at h1 (map_option top old) = Some h2"
      "becomes h1 h2 (all_addrs (opt_list old)) (all_blocks h1 (opt_list old)) (all_addrs []) (all_blocks h2 [])" by blast
    from object_frame [OF d(2) h2(2)] have o2: "object_at h2 p us1 []" "map (value_at h2) us1 = map (value_at h1) us1"
      "nodes h2 p = nodes h1 p" "all_blocks h2 us1 = all_blocks h1 us1" by simp_all
    have "merge_step merge b (Some p) (top q) h = Some (True, h2)"
      using n d(1) h2(1) True by (simp add: merge_step_def delete_named_eq kind_def)
    moreover have "merge_member b (value_at h q) (map (value_at h) us) = map (value_at h2) us1"
      using True s d(3) o2(2) by (simp add: merge_member_def)
    moreover have "same_root h h2 p" using d(4) o2(3) by (simp add: same_root_def)
    ultimately show ?thesis using o2(1,4) beside [OF h2(2)] by auto
  next
    case False
    have "mergeable h1 old q"
      unfolding mergeable_def
    proof (intro conjI)
      show "\<forall>i. may_alloc (hmem h1) i" using al becomes_alloc [OF d(5)] by simp
      show "apart h1 q (all_addrs (opt_list old)) (all_blocks h1 (opt_list old))"
        by (rule apart_less [OF q1(3)]) auto
    qed (use b1 q1 q ol in auto)
    from IH [OF this] obtain r h2 where h2: "merge h1 (map_option top old) (Some (top q)) = Some (Some (top r), h2)"
      "whole h2 r" "loose h2 (top r)" "distinct (addrs r)" "distinct (blocks_at h2 r)"
      "value_at h2 r = merge_value b (map_option (value_at h1) old) (value_at h1 q)"
      "becomes h1 h2 (all_addrs (opt_list old)) (all_blocks h1 (opt_list old)) (addrs r) (blocks_at h2 r)"
      unfolding merges_def by blast
    have "becomes h1 h2 (all_addrs (opt_list old)) (all_blocks h1 (opt_list old)) (all_addrs [r]) (all_blocks h2 [r])" using h2(7) by simp
    from object_frame [OF d(2) this] h2(2-5) have o2: "object_at h2 p us1 [r]" "map (value_at h2) us1 = map (value_at h1) us1"
      "nodes h2 p = nodes h1 p" "all_blocks h2 us1 = all_blocks h1 us1" by simp_all
    have be2: "becomes h h2 (p # all_addrs us) (all_blocks h us) (p # all_addrs (us1 @ [r])) (all_blocks h2 (us1 @ [r]))"
      using beside [OF h2(7)] o2(4) by simp
    have q2: "views h2 q" "value_at h2 q = value_at h q" using apart_frame [OF be2 bd q(1,2) ap] by auto
    obtain m where m: "nodes h2 (top q) = Some m" "text_at h2 (nstring m) = Some (Some s)"
      using views_root [OF q2(1)] q2(2) s by auto
    have al2: "\<forall>i. may_alloc (hmem h2) i" using al becomes_alloc [OF be2] by simp
    obtain h3 where h3: "cJSON_AddItemToObject h2 (Some p) (nstring m) (Some (top r)) = Some (True, h3)" "object_at h3 p (us1 @ [r]) []"
      "map (value_at h3) (us1 @ [r]) = map (value_at h2) us1 @ [with_name s (value_at h2 r)]" "same_root h2 h3 p"
      "becomes h2 h3 (p # all_addrs (us1 @ [r])) (all_blocks h2 (us1 @ [r])) (p # all_addrs (us1 @ [r])) (all_blocks h3 (us1 @ [r]))"
      using add_member_at [OF o2(1) al2 m(2)] by blast
    have "merge_step merge b (Some p) (top q) h = Some (True, h3)"
      using n d(1) h2(1) m(1) h3(1) False by (simp add: merge_step_def kind_def)
    moreover have "merge_member b (value_at h q) (map (value_at h) us) = map (value_at h3) (us1 @ [r])"
      using False s d(3) o2(2) h3(3) h2(6) q1(2) by (simp add: merge_member_def)
    moreover have "same_root h h3 p" using d(4) o2(3) h3(4) by (simp add: same_root_def)
    moreover note becomes_trans [OF be2 h3(5) bd]
    ultimately show ?thesis using h3(2) by metis
  qed
qed

section \<open>The loop and the recursion\<close>

lemma merge_members_ok:
  assumes IH: "\<And>h t q. q \<in> set qs \<Longrightarrow> mergeable h t q \<Longrightarrow> merges merge b h t q"
    and o: "object_at h p us []" and al: "\<forall>i. may_alloc (hmem h) i" and ch: "chain (nodes h) ptr (map top qs)"
    and q: "\<forall>q \<in> set qs. views h q \<and> plain (value_at h q) \<and> members_named (value_at h q) \<and> item_string (value_at h q) \<noteq> None \<and>
      apart h q (p # all_addrs us) (all_blocks h us)"
  shows "\<exists>us' h'. merge_members merge b (Some p) ptr h = Some (True, h') \<and> object_at h' p us' [] \<and>
    map (value_at h') us' = fold (merge_member b) (map (value_at h) qs) (map (value_at h) us) \<and> same_root h h' p \<and>
    becomes h h' (p # all_addrs us) (all_blocks h us) (p # all_addrs us') (all_blocks h' us')"
  using assms
proof (induction qs arbitrary: ptr h us)
  case Nil
  have "bounded h" using Nil.prems(2) by (simp add: object_at_def)
  then show ?case using Nil.prems by (subst merge_members.simps) (auto simp: same_root_def becomes_refl)
next
  case (Cons q qs)
  have bd: "bounded h" using Cons.prems(2) by (simp add: object_at_def)
  have q: "views h q" "plain (value_at h q)" "members_named (value_at h q)" "item_string (value_at h q) \<noteq> None"
    "apart h q (p # all_addrs us) (all_blocks h us)" using Cons.prems(5) by simp_all
  obtain n where n: "ptr = Some (top q)" "nodes h (top q) = Some n" "chain (nodes h) (nnext n) (map top qs)" using Cons.prems(4) by auto
  obtain us1 h1 where h1: "merge_step merge b (Some p) (top q) h = Some (True, h1)" "object_at h1 p us1 []"
    "map (value_at h1) us1 = merge_member b (value_at h q) (map (value_at h) us)" "same_root h h1 p"
    "becomes h h1 (p # all_addrs us) (all_blocks h us) (p # all_addrs us1) (all_blocks h1 us1)"
    using merge_step_ok [OF Cons.prems(1) Cons.prems(2,3) q] by auto
  have fr: "views h1 x \<and> value_at h1 x = value_at h x \<and> apart h1 x (p # all_addrs us1) (all_blocks h1 us1) \<and> nodes h1 (top x) = nodes h (top x)"
    if "x \<in> set (q # qs)" for x
  proof -
    have x: "views h x" "plain (value_at h x)" "apart h x (p # all_addrs us) (all_blocks h us)" using Cons.prems(5) that by auto
    have "top x < brk h" using views_dom [OF x(1)] bounded_lt(1) [OF bd] top_addrs [of x] by blast
    moreover have "top x \<notin> set (p # all_addrs us)" using x(3) top_addrs [of x] unfolding apart_def by blast
    ultimately show ?thesis using apart_frame [OF h1(5) bd x] becomes_old(1) [OF h1(5)] by blast
  qed
  have "chain (nodes h1) (nnext n) (map top qs)" using n(3) fr by (subst chain_cong [of _ _ "nodes h"]) auto
  moreover have "\<forall>x \<in> set qs. views h1 x \<and> plain (value_at h1 x) \<and> members_named (value_at h1 x) \<and> item_string (value_at h1 x) \<noteq> None \<and>
      apart h1 x (p # all_addrs us1) (all_blocks h1 us1)" using fr Cons.prems(5) by auto
  moreover have "\<forall>i. may_alloc (hmem h1) i" using Cons.prems(3) becomes_alloc [OF h1(5)] by simp
  ultimately obtain us' h' where h': "merge_members merge b (Some p) (nnext n) h1 = Some (True, h')" "object_at h' p us' []"
    "map (value_at h') us' = fold (merge_member b) (map (value_at h1) qs) (map (value_at h1) us1)" "same_root h1 h' p"
    "becomes h1 h' (p # all_addrs us1) (all_blocks h1 us1) (p # all_addrs us') (all_blocks h' us')"
    using Cons.IH [OF Cons.prems(1) h1(2)] by (metis list.set_intros(2))
  have "merge_members merge b (Some p) ptr h = Some (True, h')"
    using n(1,2) h1(1) h'(1) fr [of q] by (simp add: merge_members_step)
  moreover have "map (value_at h') us' = fold (merge_member b) (map (value_at h) (q # qs)) (map (value_at h) us)"
  proof -
    have "map (value_at h1) qs = map (value_at h) qs" using fr by simp
    then show ?thesis using h'(3) h1(3) by (simp only: list.map fold.simps o_apply)
  qed
  ultimately show ?case using h'(2) same_root_trans [OF h1(4) h'(4)] becomes_trans [OF h1(5) h'(5) bd] by blast
qed

text \<open>A tree by itself, as an object at its root, and the tree with the children it has after editing.\<close>

definition solo :: "heap \<Rightarrow> shape \<Rightarrow> bool" where
  "solo h w \<longleftrightarrow> bounded h \<and> whole h w \<and> loose h (top w) \<and> distinct (addrs w) \<and> distinct (blocks_at h w)"

lemma solo_object:
  assumes "solo h (Shape p us)" shows "object_at h p us []"
proof -
  obtain m where m: "nodes h p = Some m" using assms by (auto simp: solo_def whole_def)
  have "plain (value_at h (Shape p us))" using assms by (simp add: solo_def whole_def)
  note pl = plain_node [OF m this]
  have "whole h u" if "u \<in> set us" for u using assms pl(5) that by (auto simp: solo_def whole_def)
  moreover have "kids h p (map top us)" "distinct (p # all_addrs us)" "distinct (all_blocks h us)" "bounded h"
    using assms m by (auto simp: solo_def whole_def)
  ultimately show ?thesis by (simp add: object_at_def)
qed

lemma solo_edited:
  assumes w: "solo h (Shape p us)" and h': "object_at h' p us' []" "same_root h h' p"
      "becomes h h' (p # all_addrs us) (all_blocks h us) (p # all_addrs us') (all_blocks h' us')"
  shows "solo h' (Shape p us') \<and> value_at h' (Shape p us') = set_children (map (value_at h') us') (value_at h (Shape p us)) \<and>
    becomes h h' (addrs (Shape p us)) (blocks_at h (Shape p us)) (addrs (Shape p us')) (blocks_at h' (Shape p us'))"
proof -
  have b: "bounded h" and wh: "whole h (Shape p us)" using w by (simp_all add: solo_def)
  obtain m where m: "nodes h p = Some m" "chain (nodes h) (nchild m) (map top us)" "text_at h (nvaluestring m) \<noteq> None"
    "text_at h (nstring m) \<noteq> None" using wh by (auto simp: whole_def)
  have pv: "plain (value_at h (Shape p us))" using wh by (simp add: whole_def)
  note pl = plain_node [OF m(1) pv]
  have fre: "\<forall>t \<in> set (own_texts m). freeable h t" using wh m(1) by (auto simp: whole_def)
  have dB: "distinct (node_blocks m @ all_blocks h us)" using w m(1) by (simp add: solo_def)
  obtain m' where m': "nodes h' p = Some m'" "m'\<lparr>nchild := None\<rparr> = m\<lparr>nchild := None\<rparr>" using h'(2) m(1) by (auto simp: same_root_def)
  have f: "nvaluestring m' = nvaluestring m" "nstring m' = nstring m" "ntype m' = ntype m" "nvalueint m' = nvalueint m"
    "nvaluedouble m' = nvaluedouble m" "nnext m' = nnext m"
    using m'(2) by (metis node.select_convs(1-8) node.surjective node.update_convs(3))+
  have own: "own_texts m' = own_texts m" "node_blocks m' = node_blocks m" "flag m' g = flag m g" for g
    using own_texts_eq [OF f(3,1,2)] by auto
  have tx: "texts h' x = texts h x \<and> x \<notin> set (all_blocks h' us')" if "x \<in> set (node_blocks m)" for x
  proof (rule becomes_old(2) [OF h'(3)])
    have "owns h (Shape p us)" "x \<in> set (blocks_at h (Shape p us))" using that m(1) wh by (simp_all add: whole_def)
    then show "x < brk h" by (rule bounded_lt(2) [OF b owns_blocks])
    show "x \<notin> set (all_blocks h us)" using dB that by auto
  qed
  have t1: "text_at h' (nvaluestring m) = text_at h (nvaluestring m)" "text_at h' (nstring m) = text_at h (nstring m)"
    using tx pl(4) by (auto intro!: text_at_same)
  have fs: "freeable h' (nvaluestring m) = freeable h (nvaluestring m)" "freeable h' (nstring m) = freeable h (nstring m)"
    using tx pl(4) by (auto intro!: freeable_same)
  have fre': "\<forall>t \<in> set (own_texts m'). freeable h' t" using fre pl(1) own(1) fs by simp
  have o': "kids h' p (map top us')" "\<forall>u \<in> set us'. whole h' u" "distinct (p # all_addrs us')" "distinct (all_blocks h' us')"
    using h'(1) by (simp_all add: object_at_def)
  have ch': "chain (nodes h') (nchild m') (map top us')" using kids_chain [OF o'(1)] m'(1) by auto
  have va: "value_at h' (Shape p us') = set_children (map (value_at h') us') (value_at h (Shape p us))"
    using m(1) m'(1) f t1 by simp
  have "plain (value_at h' (Shape p us'))" using va pv o'(2) m(1) by (auto simp: whole_def)
  moreover have "owns h' (Shape p us')" using m'(1) ch' own pl(2) fre' o'(2) by (auto simp: whole_def)
  moreover have "views h' (Shape p us')" using m'(1) ch' f t1 m(3,4) o'(2) by (auto simp: whole_def)
  moreover have "linked h' (Shape p us')" using o'(1,2) by (auto simp: whole_def)
  ultimately have "whole h' (Shape p us')" by (simp add: whole_def)
  moreover have "loose h' p" using w m(1) m'(1) f by (simp add: solo_def loose_def)
  moreover have "distinct (blocks_at h' (Shape p us'))" using dB o'(4) tx m'(1) own(2) by auto
  moreover have "becomes h h' (addrs (Shape p us)) (blocks_at h (Shape p us)) (addrs (Shape p us')) (blocks_at h' (Shape p us'))"
    using becomes_beside [OF h'(3), of "[]" "node_blocks m"] m(1) m'(1) own(2) by simp
  ultimately show ?thesis using o'(3) va becomes_bounded [OF h'(3)] by (simp add: solo_def)
qed

text \<open>The loop on a target that is an object.\<close>

lemma merge_into:
  assumes IH: "\<And>h t q. q \<in> set qs \<Longrightarrow> mergeable h t q \<Longrightarrow> merges merge b h t q"
    and w: "solo h w" "\<forall>i. may_alloc (hmem h) i"
    and q: "views h (Shape c qs)" "plain (value_at h (Shape c qs))" "members_named (value_at h (Shape c qs))"
      "kind (value_at h (Shape c qs)) = cJSON_Object" "apart h (Shape c qs) (addrs w) (blocks_at h w)"
    and n: "nodes h c = Some n"
  shows "\<exists>r h'. merge_members merge b (Some (top w)) (nchild n) h = Some (True, h') \<and> top r = top w \<and> solo h' r \<and>
    value_at h' r = set_children (fold (merge_member b) (children (value_at h (Shape c qs))) (children (value_at h w))) (value_at h w) \<and>
    becomes h h' (addrs w) (blocks_at h w) (addrs r) (blocks_at h' r)"
proof -
  obtain p us where sh: "w = Shape p us" by (cases w)
  obtain m where m: "nodes h p = Some m" using w(1) sh by (auto simp: solo_def whole_def)
  have qs: "\<forall>x \<in> set qs. views h x \<and> plain (value_at h x) \<and> members_named (value_at h x) \<and> item_string (value_at h x) \<noteq> None \<and>
      apart h x (p # all_addrs us) (all_blocks h us)"
    using q n sh m by (auto simp: apart_def kind_def)
  have ch: "chain (nodes h) (nchild n) (map top qs)" using q(1) n by auto
  obtain us' h' where h': "merge_members merge b (Some p) (nchild n) h = Some (True, h')" "object_at h' p us' []"
    "map (value_at h') us' = fold (merge_member b) (map (value_at h) qs) (map (value_at h) us)" "same_root h h' p"
    "becomes h h' (p # all_addrs us) (all_blocks h us) (p # all_addrs us') (all_blocks h' us')"
    using merge_members_ok [OF IH solo_object [OF w(1) [unfolded sh]] w(2) ch qs] by blast
  have "children (value_at h (Shape c qs)) = map (value_at h) qs" "children (value_at h w) = map (value_at h) us"
    using n m sh by simp_all
  then show ?thesis using h'(1,3) solo_edited [OF w(1) [unfolded sh] h'(2,4,5)] sh by (intro exI [of _ "Shape p us'"] exI [of _ h']) simp
qed

text \<open>A created item without children is a tree by itself.\<close>

lemma made_solo:
  assumes b: "bounded h" and m: "made h v h' x" and v: "plain v"
  shows "solo h' (Shape x []) \<and> value_at h' (Shape x []) = v \<and> becomes h h' [] [] (addrs (Shape x [])) (blocks_at h' (Shape x []))"
proof -
  obtain M where M: "partial h M h' x []" "value_at h' (Shape x []) = v" using m by (auto simp: made_def)
  have g: "grew h h' (addrs (Shape x [])) (blocks_at h' (Shape x []))" using M(1) by (simp only: partial_def)
  have f: "forest h' [Shape x []]" and n: "nodes h' x = Some (M\<lparr>nchild := None\<rparr>)" "nnext M = None" and
    t: "text_at h' (nvaluestring M) \<noteq> None" "text_at h' (nstring M) \<noteq> None" using M(1) by (simp_all add: partial_def)
  have vw: "views h' (Shape x [])" "kids h' x []" "loose h' x" using n t by (simp_all add: kids_def loose_def)
  have "whole h' (Shape x [])" using f vw M(2) v by (simp add: whole_def forest_def)
  moreover have "distinct (blocks_at h' (Shape x []))" using f by (simp add: forest_def)
  ultimately show ?thesis using M(2) vw(3) becomes_grew [OF g b] grew_bounded [OF g] by (simp add: solo_def)
qed

text \<open>A new empty object.\<close>

lemma create_object_whole:
  assumes b: "bounded h" and al: "\<forall>i. may_alloc (hmem h) i"
  shows "\<exists>x h'. cJSON_CreateObject h = Some (Some x, h') \<and> solo h' (Shape x []) \<and> value_at h' (Shape x []) = new_object \<and>
    becomes h h' [] [] (addrs (Shape x [])) (blocks_at h' (Shape x []))"
proof -
  obtain x h' where h': "cJSON_CreateObject h = Some (Some x, h')" "made h new_object h' x"
    using object.create_law [OF b, of new_object] al by (auto simp: new_object_def)
  have "plain new_object" by (simp add: new_object_def)
  then show ?thesis using h'(1) made_solo [OF b h'(2)] by blast
qed

text \<open>A copy of the patch.\<close>

lemma duplicate_whole:
  assumes b: "bounded h" and al: "\<forall>i. may_alloc (hmem h) i" and v: "views h q" "plain (value_at h q)"
  shows "\<exists>r h'. cJSON_Duplicate h (Some (top q)) True = Some (Some (top r), h') \<and> solo h' r \<and>
    value_at h' r = value_at h q \<and> becomes h h' [] [] (addrs r) (blocks_at h' r)"
proof -
  have "depth_of q \<le> depth_fuel h" using views_depth_le [OF v(1) b] by (simp add: depth_fuel_def)
  from duplicate_item_copies [OF this b v(1)] obtain r h' where
    r: "cJSON_Duplicate h (Some (top q)) True = Some (Some (top r), h')" "copy_of h (value_at h q) h' r"
    using al by (auto simp: duplicates_def cJSON_Duplicate_def)
  have c: "grew h h' (addrs r) (blocks_at h' r)" "forest h' [r]" "linked h' r" "views h' r" "value_at h' r = value_at h q" "detached h' (top r)"
    using r(2) plain_copied [OF v(2)] by (simp_all add: copy_of_def)
  have "whole h' r" using c(2-5) v(2) by (simp add: whole_def forest_def)
  moreover have "loose h' (top r)" using c(6) by (auto simp: loose_def detached_def)
  moreover have "distinct (addrs r)" "distinct (blocks_at h' r)" using c(2) by (simp_all add: forest_def)
  ultimately show ?thesis using r(1) c(5) becomes_grew [OF c(1) b] grew_bounded [OF c(1)] unfolding solo_def by blast
qed

lemma is_kind_views: "views h q \<Longrightarrow> is_kind_at k h (Some (top q)) = Some (kind (value_at h q) = k)"
  by (cases q) (auto simp: is_kind_at_def kind_def)

text \<open>Deleting the target, if there is one.\<close>

lemma delete_target:
  assumes m: "mergeable h t q"
  shows "\<exists>h'. cJSON_Delete_at h (map_option top t) = Some h' \<and> becomes h h' (all_addrs (opt_list t)) (all_blocks h (opt_list t)) [] [] \<and>
    views h' q \<and> value_at h' q = value_at h q \<and> apart h' q [] [] \<and> bounded h' \<and> (\<forall>i. may_alloc (hmem h') i)"
proof -
  have b: "bounded h" using m by (simp add: mergeable_def)
  have "\<exists>h'. cJSON_Delete_at h (map_option top t) = Some h' \<and> becomes h h' (all_addrs (opt_list t)) (all_blocks h (opt_list t)) [] []"
  proof (cases t)
    case None
    then show ?thesis using becomes_refl [OF b, of "[]" "[]"] by (simp add: cJSON_Delete_at.simps)
  next
    case (Some w)
    then show ?thesis using delete_tree [OF b, of w] m by (simp add: mergeable_def)
  qed
  then obtain h' where h': "cJSON_Delete_at h (map_option top t) = Some h'"
    "becomes h h' (all_addrs (opt_list t)) (all_blocks h (opt_list t)) [] []" by blast
  have "views h' q \<and> value_at h' q = value_at h q \<and> blocks_at h' q = blocks_at h q \<and> apart h' q [] [] \<and> same_tree h h' q"
    by (rule apart_frame [OF h'(2) b]) (use m in \<open>simp_all add: mergeable_def\<close>)
  then show ?thesis using h' becomes_bounded [OF h'(2)] becomes_alloc [OF h'(2)] m by (auto simp: mergeable_def)
qed

text \<open>The target becomes an object if it is none.\<close>

lemma object_target:
  assumes m: "mergeable h t q"
  shows "\<exists>w h'. Option.bind (is_kind_at cJSON_Object h (map_option top t)) (\<lambda>is_object.
      if \<not> is_object then do { h \<leftarrow> cJSON_Delete_at h (map_option top t); cJSON_CreateObject h }
      else Some (map_option top t, h)) = Some (Some (top w), h') \<and>
    mergeable h' (Some w) q \<and> value_at h' q = value_at h q \<and> value_at h' w = object_or_new (map_option (value_at h) t) \<and>
    becomes h h' (all_addrs (opt_list t)) (all_blocks h (opt_list t)) (addrs w) (blocks_at h' w)"
proof -
  have b: "bounded h" using m by (simp add: mergeable_def)
  have kt: "is_kind_at cJSON_Object h (map_option top t) = Some (case t of None \<Rightarrow> False | Some w \<Rightarrow> kind (value_at h w) = cJSON_Object)"
    using m is_kind_views by (cases t) (auto simp: mergeable_def whole_def is_kind_at_def [of _ _ None])
  show ?thesis
  proof (cases "case t of None \<Rightarrow> False | Some w \<Rightarrow> kind (value_at h w) = cJSON_Object")
    case True
    then obtain w where "t = Some w" "kind (value_at h w) = cJSON_Object" by (auto split: option.splits)
    then show ?thesis using kt m becomes_refl [OF b]
      by (intro exI [of _ w] exI [of _ h]) (simp add: object_or_new_def)
  next
    case False
    obtain h1 where h1: "cJSON_Delete_at h (map_option top t) = Some h1"
      "becomes h h1 (all_addrs (opt_list t)) (all_blocks h (opt_list t)) [] []" "views h1 q" "value_at h1 q = value_at h q"
      "apart h1 q [] []" "bounded h1" "\<forall>i. may_alloc (hmem h1) i" using delete_target [OF m] by blast
    obtain x h2 where h2: "cJSON_CreateObject h1 = Some (Some x, h2)" "solo h2 (Shape x [])" "value_at h2 (Shape x []) = new_object"
      "becomes h1 h2 [] [] (addrs (Shape x [])) (blocks_at h2 (Shape x []))"
      using create_object_whole [OF h1(6,7)] by blast
    have pq: "plain (value_at h1 q)" using m h1(4) by (simp add: mergeable_def)
    have q2: "views h2 q \<and> value_at h2 q = value_at h1 q \<and> blocks_at h2 q = blocks_at h1 q \<and>
      apart h2 q (addrs (Shape x [])) (blocks_at h2 (Shape x [])) \<and> same_tree h1 h2 q"
      by (rule apart_frame [OF h2(4) h1(6,3) pq h1(5)])
    have "mergeable h2 (Some (Shape x [])) q"
      using h2(2) q2 h1(4,7) m becomes_alloc [OF h2(4)] unfolding mergeable_def solo_def by simp
    moreover have "object_or_new (map_option (value_at h) t) = new_object" using False by (cases t) (simp_all add: object_or_new_def)
    ultimately show ?thesis using kt False h1(1,4) h2(1,3) q2 becomes_trans [OF h1(2) h2(4) b]
      by (intro exI [of _ "Shape x []"] exI [of _ h2]) simp
  qed
qed

lemma merge_patch_merges_fuel:
  "depth_of q \<le> k \<Longrightarrow> mergeable h t q \<Longrightarrow> merges (merge_patch_fuel k b) b h t q"
proof (induction k arbitrary: h t q)
  case 0
  then show ?case by (cases q) simp
next
  case (Suc k)
  note m = Suc.prems(2)
  obtain c qs where q: "q = Shape c qs" by (cases q)
  have v: "views h q" "plain (value_at h q)" and bd: "bounded h" using m by (simp_all add: mergeable_def)
  have dq: "depth_of x \<le> k" if "x \<in> set qs" for x using depth_of_sub [OF that, of c] Suc.prems(1) q by simp
  show ?case
  proof (cases "kind (value_at h q) = cJSON_Object")
    case False
    obtain h1 where h1: "cJSON_Delete_at h (map_option top t) = Some h1"
      "becomes h h1 (all_addrs (opt_list t)) (all_blocks h (opt_list t)) [] []" "views h1 q" "value_at h1 q = value_at h q"
      "bounded h1" "\<forall>i. may_alloc (hmem h1) i" using delete_target [OF m] by blast
    have "plain (value_at h1 q)" using v(2) h1(4) by simp
    from duplicate_whole [OF h1(5,6,3) this] obtain r h2 where
      h2: "cJSON_Duplicate h1 (Some (top q)) True = Some (Some (top r), h2)" "solo h2 r"
        "value_at h2 r = value_at h1 q" "becomes h1 h2 [] [] (addrs r) (blocks_at h2 r)" by blast
    have "merge_patch_fuel (Suc k) b h (map_option top t) (Some (top q)) = Some (Some (top r), h2)"
      using is_kind_views [OF v(1)] False h1(1) h2(1) by simp
    moreover have "value_at h2 r = merge_value b (map_option (value_at h) t) (value_at h q)"
      using False h2(3) h1(4) by (simp add: merge_value_eq)
    ultimately show ?thesis using h2 becomes_trans [OF h1(2) h2(4) bd] unfolding merges_def solo_def by blast
  next
    case True
    obtain w h1 where w: "Option.bind (is_kind_at cJSON_Object h (map_option top t)) (\<lambda>is_object.
        if \<not> is_object then do { h \<leftarrow> cJSON_Delete_at h (map_option top t); cJSON_CreateObject h }
        else Some (map_option top t, h)) = Some (Some (top w), h1)"
      "mergeable h1 (Some w) q" "value_at h1 q = value_at h q" "value_at h1 w = object_or_new (map_option (value_at h) t)"
      "becomes h h1 (all_addrs (opt_list t)) (all_blocks h (opt_list t)) (addrs w) (blocks_at h1 w)"
      using object_target [OF m] by blast
    have mg: "solo h1 w" "\<forall>i. may_alloc (hmem h1) i"
      and q1: "views h1 (Shape c qs)" "plain (value_at h1 (Shape c qs))" "members_named (value_at h1 (Shape c qs))"
        "kind (value_at h1 (Shape c qs)) = cJSON_Object" "apart h1 (Shape c qs) (addrs w) (blocks_at h1 w)"
      using w(2,3) True q unfolding mergeable_def solo_def by simp_all
    obtain n where n: "nodes h1 c = Some n" using q1(1) by auto
    have IH: "merges (merge_patch_fuel k b) b hx tx x" if "x \<in> set qs" "mergeable hx tx x" for hx tx x
      by (rule Suc.IH [OF dq [OF that(1)] that(2)])
    obtain r h2 where r: "merge_members (merge_patch_fuel k b) b (Some (top w)) (nchild n) h1 = Some (True, h2)" "top r = top w"
      "solo h2 r"
      "value_at h2 r = set_children (fold (merge_member b) (children (value_at h1 (Shape c qs))) (children (value_at h1 w))) (value_at h1 w)"
      "becomes h1 h2 (addrs w) (blocks_at h1 w) (addrs r) (blocks_at h2 r)"
      using merge_into [OF IH mg q1 n] by blast
    have "merge_patch_fuel (Suc k) b h (map_option top t) (Some (top q)) = Some (Some (top r), h2)"
    proof -
      have "merge_patch_fuel (Suc k) b h (map_option top t) (Some (top q)) =
        Option.bind (Option.bind (is_kind_at cJSON_Object h (map_option top t)) (\<lambda>is_object.
          if \<not> is_object then do { h \<leftarrow> cJSON_Delete_at h (map_option top t); cJSON_CreateObject h }
          else Some (map_option top t, h))) (\<lambda>(target, h). do {
          p \<leftarrow> node_at h (Some (top q));
          (ok, h) \<leftarrow> merge_members (merge_patch_fuel k b) b target (nchild p) h;
          Some (if ok then target else None, h) })"
        using is_kind_views [OF v(1)] True by (simp add: bind_assoc del: bind_Some_iff)
      then show ?thesis using w(1) n r(1,2) q by (simp add: node_at_def)
    qed
    moreover have "value_at h2 r = merge_value b (map_option (value_at h) t) (value_at h q)"
      using r(4) True w(3,4) q by (simp add: merge_value_eq)
    ultimately show ?thesis using r(3) becomes_trans [OF w(5) r(5) bd] unfolding merges_def solo_def by blast
  qed
qed

lemma merge_patch_merges:
  assumes "mergeable h t q" shows "merges (\<lambda>h t q. merge_patch h t q b) b h t q"
proof -
  have "depth_of q \<le> depth_fuel h" using views_depth_le [of h q] assms by (simp add: depth_fuel_def mergeable_def)
  from merge_patch_merges_fuel [OF this assms] show ?thesis by (simp add: merges_def merge_patch_def)
qed

section \<open>The members of the result\<close>

definition member :: "string \<Rightarrow> cJSON list \<Rightarrow> cJSON option" where
  "member s os = find (\<lambda>c. item_string c = Some s) os"

definition unique_names :: "cJSON list \<Rightarrow> bool" where
  "unique_names os \<longleftrightarrow> None \<notin> set (map item_string os) \<and> distinct (map item_string os)"

lemma take_member_unique:
  "unique_names os \<Longrightarrow> take_member True s os = (member s os, filter (\<lambda>c. item_string c \<noteq> Some s) os)"
proof (induction os)
  case (Cons c os)
  obtain k where k: "item_string c = Some k" using Cons.prems by (cases "item_string c") (auto simp: unique_names_def)
  have "filter (\<lambda>c. item_string c \<noteq> Some k) os = os"
    using Cons.prems k by (intro filter_True) (force simp: unique_names_def)
  moreover have "unique_names os" using Cons.prems by (simp add: unique_names_def)
  ultimately show ?case using Cons.IH k by (auto simp: member_def same_name_def)
qed (simp add: member_def)

lemma item_string_with_name [simp]: "item_string (with_name s v) = Some s"
  by (cases v) simp

lemma member_filter: "member s (filter (\<lambda>c. item_string c \<noteq> Some k) os) = (if s = k then None else member s os)"
  by (induction os) (auto simp: member_def)

lemma member_alone: "member s [] = None" "member s [with_name k v] = (if s = k then Some (with_name k v) else None)"
  by (auto simp: member_def)

lemma member_append: "member s (xs @ ys) = (case member s xs of None \<Rightarrow> member s ys | Some x \<Rightarrow> Some x)"
  by (induction xs) (auto simp: member_def)

lemma merge_member_unique:
  assumes u: "unique_names os" and m: "item_string m = Some k"
  shows "unique_names (merge_member True m os)"
    "member s (merge_member True m os) = (if s \<noteq> k then member s os
       else if kind m = cJSON_NULL then None else Some (with_name s (merge_value True (member s os) m)))"
proof -
  have eq: "merge_member True m os = filter (\<lambda>c. item_string c \<noteq> Some k) os @
      (if kind m = cJSON_NULL then [] else [with_name k (merge_value True (member k os) m)])"
    using take_member_unique [OF u] m by (simp add: merge_member_def)
  show "unique_names (merge_member True m os)"
    using u unfolding eq unique_names_def by (auto simp: distinct_map inj_on_def)
  show "member s (merge_member True m os) = (if s \<noteq> k then member s os
       else if kind m = cJSON_NULL then None else Some (with_name s (merge_value True (member s os) m)))"
    unfolding eq by (auto simp: member_append member_filter member_alone split: option.split)
qed

lemma fold_merge_members:
  "unique_names os \<Longrightarrow> unique_names ms \<Longrightarrow> member s (fold (merge_member True) ms os) = (case member s ms of
     None \<Rightarrow> member s os
   | Some m \<Rightarrow> if kind m = cJSON_NULL then None else Some (with_name s (merge_value True (member s os) m)))"
proof (induction ms arbitrary: os)
  case (Cons m ms)
  obtain k where k: "item_string m = Some k" using Cons.prems(2) by (cases "item_string m") (auto simp: unique_names_def)
  have ms: "unique_names ms" "member k ms = None"
    using Cons.prems(2) k by (auto simp: unique_names_def member_def find_None_iff) force
  note mm = merge_member_unique [OF Cons.prems(1) k]
  have hd: "member s (m # ms) = (if s = k then Some m else member s ms)" using k by (auto simp: member_def)
  show ?case using Cons.IH [OF mm(1) ms(1)] mm(2) [of s] ms(2) by (auto simp: hd split: option.split)
qed (simp add: member_def)

section \<open>The property\<close>

definition merge_patch_entry :: "bool \<Rightarrow> heap \<Rightarrow> ptr \<Rightarrow> ptr \<Rightarrow> (ptr \<times> heap) option" where
  "merge_patch_entry b = (if b then cJSONUtils_MergePatchCaseSensitive else cJSONUtils_MergePatch)"

text \<open>C28: With memory, applying a merge patch to a target that shares nothing with it is defined and returns
  a properly linked tree that owns exactly its memory and whose value is the merge of the two values by the
  recursion of RFC 7396; the patch is as before, and all memory of the target that is not part of the result
  has been freed.  With case and without repeated names, a member of the result is the member of the target
  where the patch has none, is missing where the patch has null, and else is the merge of both.\<close>

theorem merge_patch_implements_rfc7396:
  assumes "bounded h" and "\<forall>i. may_alloc (hmem h) i" and "forest h [t, p]"
    and "views h t" and "linked h t" and "plain (value_at h t)" and "loose h (top t)"
    and "views h p" and "plain (value_at h p)" and "members_named (value_at h p)"
  shows "\<exists>r h'. merge_patch_entry b h (Some (top t)) (Some (top p)) = Some (Some (top r), h') \<and>
    value_at h' r = merge_value b (Some (value_at h t)) (value_at h p) \<and> value_at h' p = value_at h p \<and>
    forest h' [r, p] \<and> linked h' r \<and>
    live (hmem h') + int (length (addrs t) + length (blocks_at h t)) = live (hmem h) + int (length (addrs r) + length (blocks_at h' r)) \<and>
    (b \<and> kind (value_at h p) = cJSON_Object \<and> unique_names (children (value_at h p)) \<and>
      unique_names (children (object_or_new (Some (value_at h t)))) \<longrightarrow>
     (\<forall>s. member s (children (value_at h' r)) = (case member s (children (value_at h p)) of
        None \<Rightarrow> member s (children (object_or_new (Some (value_at h t))))
      | Some m \<Rightarrow> if kind m = cJSON_NULL then None
          else Some (with_name s (merge_value b (member s (children (object_or_new (Some (value_at h t))))) m)))))"
proof -
  have ap: "apart h p (addrs t) (blocks_at h t)" using assms(3) by (auto simp: forest_def apart_def)
  have o: "owns h p" "distinct (addrs p)" "distinct (blocks_at h p)" using assms(3) by (simp_all add: forest_def)
  have "mergeable h (Some t) p"
    using assms ap by (simp add: mergeable_def whole_def forest_def)
  from merge_patch_merges [OF this, of b] obtain r h' where
    r: "merge_patch h (Some (top t)) (Some (top p)) b = Some (Some (top r), h')" "whole h' r" "distinct (addrs r)" "distinct (blocks_at h' r)"
      "value_at h' r = merge_value b (Some (value_at h t)) (value_at h p)" "becomes h h' (addrs t) (blocks_at h t) (addrs r) (blocks_at h' r)"
    unfolding merges_def by auto
  have p': "views h' p \<and> value_at h' p = value_at h p \<and> blocks_at h' p = blocks_at h p \<and> apart h' p (addrs r) (blocks_at h' r) \<and> same_tree h h' p"
    by (rule apart_frame [OF r(6) assms(1,8,9) ap])
  then have "owns h' p" using frame_tree [of h h' p] assms(8,9) o(1) by blast
  then have "forest h' [r, p]" using r(2-4) o p' by (auto simp: forest_def whole_def apart_def)
  moreover have "merge_patch_entry b h (Some (top t)) (Some (top p)) = Some (Some (top r), h')"
    using r(1) by (cases b) (simp_all add: merge_patch_entry_def cJSONUtils_MergePatch_def cJSONUtils_MergePatchCaseSensitive_def)
  moreover have "member s (children (value_at h' r)) = (case member s (children (value_at h p)) of
        None \<Rightarrow> member s (children (object_or_new (Some (value_at h t))))
      | Some m \<Rightarrow> if kind m = cJSON_NULL then None
          else Some (with_name s (merge_value b (member s (children (object_or_new (Some (value_at h t))))) m)))"
    if "b" "kind (value_at h p) = cJSON_Object" "unique_names (children (value_at h p))"
      "unique_names (children (object_or_new (Some (value_at h t))))" for s
  proof -
    have "b = True" using that(1) by simp
    from fold_merge_members [OF that(4,3), of s] that(2) show ?thesis
      unfolding \<open>b = True\<close> r(5) by (simp add: \<open>b = True\<close> merge_value_eq cong: option.case_cong)
  qed
  ultimately show ?thesis using r(2,5,6) p' by (auto simp: whole_def becomes_def)
qed

definition sample_merge :: heap where
  "sample_merge = \<lparr>nodes = [0 \<mapsto> zero_node\<lparr>nchild := Some 1, ntype := cJSON_Object\<rparr>,
       1 \<mapsto> zero_node\<lparr>nprev := Some 1, ntype := cJSON_True, nstring := Block 2 0\<rparr>,
       3 \<mapsto> zero_node\<lparr>nchild := Some 4, ntype := cJSON_Object\<rparr>,
       4 \<mapsto> zero_node\<lparr>nprev := Some 4, ntype := cJSON_NULL, nstring := Block 5 0\<rparr>],
     texts = [2 \<mapsto> ''Ab'' @ [NUL], 5 \<mapsto> ''Ab'' @ [NUL]], brk = 6,
     hmem = \<lparr>may_alloc = (\<lambda>_. True), tries = 0, live = 6, has_realloc = True, junk = (\<lambda>_. NUL)\<rparr>\<rparr>"

lemma sample_merge_facts:
  "bounded sample_merge" "may_alloc (hmem sample_merge) i" "live (hmem sample_merge) = 6"
  "forest sample_merge [Shape 0 [Shape 1 []], Shape 3 [Shape 4 []]]"
  "views sample_merge (Shape 0 [Shape 1 []])" "linked sample_merge (Shape 0 [Shape 1 []])"
  "loose sample_merge 0" "views sample_merge (Shape 3 [Shape 4 []])"
  "value_at sample_merge (Shape 0 [Shape 1 []]) = Item cJSON_Object None 0 zero_double None [Item cJSON_True None 0 zero_double (Some ''Ab'') []]"
  "value_at sample_merge (Shape 3 [Shape 4 []]) = Item cJSON_Object None 0 zero_double None [Item cJSON_NULL None 0 zero_double (Some ''Ab'') []]"
  by (auto simp: sample_merge_def zero_node_def bounded_def text_at_def strlen_at_def forest_def loose_def kids_def
    cstring_def own_texts_def node_blocks_def flag_def)

theorem merge_patch_implements_rfc7396_witness:
  "\<exists>r h'. cJSONUtils_MergePatchCaseSensitive sample_merge (Some 0) (Some 3) = Some (Some (top r), h') \<and>
     member ''Ab'' (children (value_at h' r)) = None \<and> linked h' r"
proof -
  let ?t = "value_at sample_merge (Shape 0 [Shape 1 []])" and ?p = "value_at sample_merge (Shape 3 [Shape 4 []])"
  have k: "kind ?p = cJSON_Object" "kind ?t = cJSON_Object" "kind (Item cJSON_NULL None 0 zero_double (Some ''Ab'') []) = cJSON_NULL"
    unfolding sample_merge_facts(9,10) by (simp_all add: kind_def)
  have u: "unique_names (children ?p)" "unique_names (children (object_or_new (Some ?t)))"
    using k(2) unfolding object_or_new_def sample_merge_facts(9,10) by (simp_all add: unique_names_def)
  have pl: "plain ?t" "plain ?p" "members_named ?p" "loose sample_merge (top (Shape 0 [Shape 1 []]))"
    using sample_merge_facts(7) unfolding sample_merge_facts(9,10) by simp_all
  have m: "member ''Ab'' (children ?p) = Some (Item cJSON_NULL None 0 zero_double (Some ''Ab'') [])"
    unfolding sample_merge_facts(10) by (simp add: member_def)
  have "\<forall>i. may_alloc (hmem sample_merge) i" using sample_merge_facts(2) by simp
  from merge_patch_implements_rfc7396 [OF sample_merge_facts(1) this sample_merge_facts(4-6) pl(1,4) sample_merge_facts(8) pl(2,3), of True]
  obtain r h' where "merge_patch_entry True sample_merge (Some 0) (Some 3) = Some (Some (top r), h')" "linked h' r"
    "member ''Ab'' (children (value_at h' r)) = None"
    using k(1,3) u m by (fastforce simp del: value_at.simps)
  then show ?thesis by (auto simp: merge_patch_entry_def)
qed

end
