(* ===== verification/Composing.thy ===== *)
theory Composing
  imports Merging
begin

text \<open>
  Generated patches (\<open>json/cJSON_Utils.c\<close>): the object that \<open>compose_patch\<close> appends, with its
  operation, its path and a copy of its value; nothing else of the heap changes, and the block in which
  the path is built is returned.
\<close>

section \<open>Trees by themselves\<close>

lemma becomes_text:
  assumes "becomes h h' A B A' B'" "bounded h" "text_at h t = Some x" "set (block_of t) \<inter> set B = {}"
  shows "text_at h' t = Some x"
proof (cases t)
  case (Block b i)
  have "texts h b \<noteq> None" using assms(3) Block by (auto simp: text_at_def)
  then have "b < brk h" using bounded_lt(2) [OF assms(2)] by blast
  then have "texts h' b = texts h b" using becomes_old(2) [OF assms(1)] assms(4) Block by simp
  then show ?thesis using assms(3) Block by (simp add: text_at_def)
qed (use assms(3) in \<open>simp_all add: text_at_def\<close>)

lemma solo_frame:
  assumes be: "becomes h h' A B A' B'" and w: "solo h w" "apart h w A B"
  shows "solo h' w \<and> value_at h' w = value_at h w \<and> blocks_at h' w = blocks_at h w"
proof -
  have b: "bounded h" and wh: "whole h w" and lo: "loose h (top w)" using w(1) by (simp_all add: solo_def)
  have v: "views h w" "plain (value_at h w)" using wh by (simp_all add: whole_def)
  have st: "same_tree h h' w" using apart_frame [OF be b v w(2)] by blast
  have "top w < brk h" using lo bounded_lt(1) [OF b] by (fastforce simp: loose_def)
  moreover have "top w \<notin> set A" using w(2) by (cases w) (auto simp: apart_def)
  ultimately have "nodes h' (top w) = nodes h (top w)" using becomes_old(1) [OF be] by blast
  then show ?thesis using frame_whole [OF st wh] loose_kept [OF lo] becomes_bounded [OF be] w(1) by (simp add: solo_def)
qed

definition string_item :: "string \<Rightarrow> cJSON" where
  "string_item s = Item cJSON_String (Some s) 0 zero_double None []"

lemma create_string_whole:
  assumes b: "bounded h" and al: "\<forall>i. may_alloc (hmem h) i" and t: "text_at h t = Some (Some s)"
  shows "\<exists>x h'. cJSON_CreateString t h = Some (Some x, h') \<and> solo h' (Shape x []) \<and> value_at h' (Shape x []) = string_item s \<and>
    becomes h h' [] [] (addrs (Shape x [])) (blocks_at h' (Shape x []))"
proof -
  obtain x h' where h': "cJSON_CreateString t h = Some (Some x, h')" "made h (string_item s) h' x"
    using string.create_law [OF b, of t "string_item s"] al t by (auto simp: string_item_def)
  have "plain (string_item s)" by (simp add: string_item_def)
  then show ?thesis using h'(1) made_solo [OF b h'(2)] by blast
qed

text \<open>A new tree becomes the last member of an object.\<close>

lemma member_into:
  assumes w: "solo h (Shape p us)" and al: "\<forall>i. may_alloc (hmem h) i"
    and u: "solo h1 u" "becomes h h1 [] [] (addrs u) (blocks_at h1 u)"
  shows "\<exists>h'. cJSON_AddItemToObject h1 (Some p) (Const s) (Some (top u)) = Some (True, h') \<and> solo h' (Shape p (us @ [u])) \<and>
    value_at h' (Shape p (us @ [u])) =
      set_children (children (value_at h (Shape p us)) @ [with_name (cstring s) (value_at h1 u)]) (value_at h (Shape p us)) \<and>
    becomes h h' (addrs (Shape p us)) (blocks_at h (Shape p us)) (addrs (Shape p (us @ [u]))) (blocks_at h' (Shape p (us @ [u])))"
proof -
  have b: "bounded h" using w by (simp add: solo_def)
  obtain m where m: "nodes h p = Some m" using w by (auto simp: solo_def whole_def)
  have b1: "becomes h h1 (all_addrs []) (all_blocks h []) (all_addrs [u]) (all_blocks h1 [u])" using u(2) by simp
  have "object_at h1 p us [u] \<and> map (value_at h1) us = map (value_at h) us \<and> nodes h1 p = nodes h p \<and> all_blocks h1 us = all_blocks h us"
    by (rule object_frame [OF solo_object [OF w] b1]) (use u(1) in \<open>simp_all add: solo_def\<close>)
  then have o1: "object_at h1 p us [u]" "map (value_at h1) us = map (value_at h) us" "nodes h1 p = nodes h p"
    "all_blocks h1 us = all_blocks h us" by blast+
  have al1: "\<forall>i. may_alloc (hmem h1) i" using al becomes_alloc [OF u(2)] by simp
  have "text_at h1 (Const s) = Some (Some (cstring s))" by (simp add: text_at_def)
  from add_member_at [OF o1(1) al1 this] obtain h' where
    h': "cJSON_AddItemToObject h1 (Some p) (Const s) (Some (top u)) = Some (True, h')" "object_at h' p (us @ [u]) []"
      "map (value_at h') (us @ [u]) = map (value_at h1) us @ [with_name (cstring s) (value_at h1 u)]" "same_root h1 h' p"
      "becomes h1 h' (p # all_addrs (us @ [u])) (all_blocks h1 (us @ [u])) (p # all_addrs (us @ [u])) (all_blocks h' (us @ [u]))" by blast
  have "becomes h h1 (p # all_addrs us) (all_blocks h us) (p # all_addrs (us @ [u])) (all_blocks h1 (us @ [u]))"
    using becomes_beside [OF u(2), of "p # all_addrs us" "all_blocks h us"] o1(4) by simp
  from becomes_trans [OF this h'(5) b]
  have be: "becomes h h' (p # all_addrs us) (all_blocks h us) (p # all_addrs (us @ [u])) (all_blocks h' (us @ [u]))" .
  have "same_root h h' p" using h'(4) o1(3) by (simp add: same_root_def)
  from solo_edited [OF w h'(2) this be] h'(1,3) o1(2) m show ?thesis by simp
qed

section \<open>The path of a patch\<close>

text \<open>A new block with the path, a slash and the encoded name.\<close>

lemma build_path:
  assumes b: "bounded h" and al: "\<forall>i. may_alloc (hmem h) i" and pt: "nulfree pt" "nulfree s"
  shows "\<exists>h1 h2 h3. malloc_text h (length pt + pointer_encoded_length s + 2) = (Block (brk h) 0, h1) \<and>
    write_text h1 (Block (brk h) 0) (pt @ ''/'' @ [NUL]) = Some h2 \<and>
    encode_string_as_pointer h2 (advance (Block (brk h) 0) (length pt + 1)) s = Some h3 \<and>
    grew h h3 [] [brk h] \<and> text_at h3 (Block (brk h) 0) = Some (Some (pt @ ''/'' @ encoded_pointer s))"
proof -
  let ?N = "length pt + pointer_encoded_length s + 2" and ?b = "brk h"
  obtain h1 j where h1: "malloc_text h ?N = (Block ?b 0, h1)" "grew h h1 [] [?b]" "length j = ?N" "texts h1 = (texts h)(?b \<mapsto> j)"
    using malloc_text_ok [OF b al, of ?N] by blast
  define h2 where "h2 = h1\<lparr>texts := (texts h1)(?b \<mapsto> pt @ ''/'' @ NUL # drop (length pt + 2) j)\<rparr>"
  define h3 where "h3 = h2\<lparr>texts := (texts h2)(?b \<mapsto> (pt @ ''/'' @ encoded_pointer s) @ NUL # [])\<rparr>"
  have "write_text h1 (Block ?b 0) (pt @ ''/'' @ [NUL]) = Some h2"
    using h1(3,4) by (subst write_text_block [of _ _ j]) (simp_all add: h2_def)
  moreover have "encode_string_as_pointer h2 (advance (Block ?b 0) (length pt + 1)) s = Some h3"
    using write_text_block [of h2 ?b "pt @ ''/'' @ NUL # drop (length pt + 2) j" "length pt + 1" "encoded_pointer s @ [NUL]"] h1(3)
    by (simp add: encode_string_as_pointer_eq advance_def h2_def h3_def encoded_length)
  moreover have "grew h h2 [] [?b]" unfolding h2_def by (rule grew_write [OF h1(2)]) simp
  then have "grew h h3 [] [?b]" unfolding h3_def by (rule grew_write) simp
  moreover have "text_at h3 (Block ?b 0) = Some (Some (pt @ ''/'' @ encoded_pointer s))"
    by (rule text_at_block [where r = "[]"]) (use pt encoded_nulfree in \<open>simp_all add: h3_def\<close>)
  ultimately show ?thesis using h1(1) by blast
qed

text \<open>A block that is there in between does not count.\<close>

lemma becomes_with_block:
  assumes b: "bounded h" and g: "grew h h1 [] [c]" and be: "becomes h1 h2 A (c # B) A' (c # B')" and c: "texts h2 c \<noteq> None"
  shows "\<exists>h3. free_text h2 (Block c 0) = Some h3 \<and> becomes h h3 A B A' B' \<and> nodes h3 = nodes h2 \<and>
    (\<forall>x. x \<noteq> c \<longrightarrow> texts h3 x = texts h2 x)"
proof -
  let ?h = "erase h2 [] [c]"
  have "becomes h h1 A B A (c # B)"
    by (rule becomes_cong [OF becomes_beside [OF becomes_grew [OF g b], of A B]]) simp_all
  moreover have "becomes h2 ?h [] [c] [] []" by (rule becomes_erase [OF becomes_bounded [OF be]])
  then have "becomes h2 ?h A' (c # B') A' B'" by (rule becomes_cong [OF becomes_beside [where C = A' and D = B']]) simp_all
  ultimately have "becomes h ?h A B A' B'" using becomes_trans be b by blast
  moreover have "freeable h2 (Block c 0)" using c by simp
  ultimately show ?thesis using free_text_erase by (auto simp: erase_def)
qed

section \<open>One patch\<close>

text \<open>An object with new last members.\<close>

definition extended :: "heap \<Rightarrow> shape \<Rightarrow> cJSON list \<Rightarrow> heap \<Rightarrow> shape \<Rightarrow> bool" where
  "extended h w vs h' w' \<longleftrightarrow> top w' = top w \<and> solo h' w' \<and>
     value_at h' w' = set_children (children (value_at h w) @ vs) (value_at h w) \<and>
     becomes h h' (addrs w) (blocks_at h w) (addrs w') (blocks_at h' w')"

lemma extended_trans:
  assumes "extended h w vs h1 w1" "extended h1 w1 vs' h2 w2" "bounded h" shows "extended h w (vs @ vs') h2 w2"
proof -
  have "becomes h h2 (addrs w) (blocks_at h w) (addrs w2) (blocks_at h2 w2)"
    using assms becomes_trans unfolding extended_def by blast
  moreover have "value_at h2 w2 = set_children (children (value_at h w) @ vs @ vs') (value_at h w)"
    using assms(1,2) unfolding extended_def by (cases "value_at h w") simp
  ultimately show ?thesis using assms(1,2) by (simp add: extended_def)
qed

lemma add_string_member:
  assumes w: "solo h (Shape p us)" and al: "\<forall>i. may_alloc (hmem h) i" and t: "text_at h t = Some (Some s)"
  shows "\<exists>x h1 h'. cJSON_CreateString t h = Some (Some x, h1) \<and>
    cJSON_AddItemToObject h1 (Some p) (Const n) (Some x) = Some (True, h') \<and>
    extended h (Shape p us) [with_name (cstring n) (string_item s)] h' (Shape p (us @ [Shape x []]))"
proof -
  have b: "bounded h" using w by (simp add: solo_def)
  obtain x h1 where x: "cJSON_CreateString t h = Some (Some x, h1)" "solo h1 (Shape x [])" "value_at h1 (Shape x []) = string_item s"
    "becomes h h1 [] [] (addrs (Shape x [])) (blocks_at h1 (Shape x []))"
    using create_string_whole [OF b al t] by blast
  from member_into [OF w al x(2,4), of n] x(1,3) show ?thesis unfolding extended_def by (simp only: shape.sel) blast
qed

definition joined_path :: "string \<Rightarrow> string option \<Rightarrow> string" where
  "joined_path path e = (case e of None \<Rightarrow> path | Some s \<Rightarrow> path @ ''/'' @ encoded_pointer s)"

lemma add_path_member:
  assumes w: "solo h (Shape p us)" and al: "\<forall>i. may_alloc (hmem h) i"
    and path: "text_at h path = Some (Some pt)" and ending: "text_at h ending = Some e"
  shows "\<exists>u h'. (if ending = Null then do {
        (x, h) \<leftarrow> cJSON_CreateString path h;
        (_, h) \<leftarrow> cJSON_AddItemToObject h (Some p) (Const ''path'') x;
        Some h }
      else do {
        s \<leftarrow> chars_at h ending;
        pt \<leftarrow> chars_at h path;
        let (full_path, h) = malloc_text h (length pt + pointer_encoded_length s + 2);
        h \<leftarrow> write_text h full_path (pt @ ''/'' @ [NUL]);
        h \<leftarrow> encode_string_as_pointer h (advance full_path (length pt + 1)) s;
        (x, h) \<leftarrow> cJSON_CreateString full_path h;
        (_, h) \<leftarrow> cJSON_AddItemToObject h (Some p) (Const ''path'') x;
        free_text h full_path }) = Some h' \<and>
    extended h (Shape p us) [with_name ''path'' (string_item (joined_path pt e))] h' (Shape p (us @ [u]))"
proof (cases e)
  case None
  then have "ending = Null" using ending by (cases ending) (auto simp: text_at_def)
  then show ?thesis using add_string_member [OF w al path, of "''path''"] None
    by (auto simp: joined_path_def)
next
  case (Some s)
  have b: "bounded h" using w by (simp add: solo_def)
  have e: "ending \<noteq> Null" "chars_at h ending = Some s" "chars_at h path = Some pt" "nulfree pt" "nulfree s"
    using Some ending path text_at_nulfree [OF path] text_at_nulfree [of h ending s] by (auto simp: chars_at_def text_at_def)
  let ?c = "Block (brk h) 0"
  obtain h1 h2 h3 where h3: "malloc_text h (length pt + pointer_encoded_length s + 2) = (?c, h1)"
    "write_text h1 ?c (pt @ ''/'' @ [NUL]) = Some h2" "encode_string_as_pointer h2 (advance ?c (length pt + 1)) s = Some h3"
    "grew h h3 [] [brk h]" "text_at h3 ?c = Some (Some (pt @ ''/'' @ encoded_pointer s))"
    using build_path [OF b al e(4,5)] by blast
  have b3: "becomes h h3 [] [] [] [brk h]" by (rule becomes_grew [OF h3(4) b])
  have al3: "\<forall>i. may_alloc (hmem h3) i" using al becomes_alloc [OF b3] by simp
  have w3: "solo h3 (Shape p us) \<and> value_at h3 (Shape p us) = value_at h (Shape p us) \<and> blocks_at h3 (Shape p us) = blocks_at h (Shape p us)"
    by (rule solo_frame [OF b3 w]) (simp add: apart_def)
  from add_string_member [OF conjunct1 [OF w3] al3 h3(5), of "''path''"] obtain x h4 h5 where
    x: "cJSON_CreateString ?c h3 = Some (Some x, h4)" "cJSON_AddItemToObject h4 (Some p) (Const ''path'') (Some x) = Some (True, h5)"
      "extended h3 (Shape p us) [with_name ''path'' (string_item (pt @ ''/'' @ encoded_pointer s))] h5 (Shape p (us @ [Shape x []]))" by auto
  have B: "\<forall>x \<in> set (blocks_at h (Shape p us)). x < brk h"
    using owns_blocks [of h "Shape p us"] w bounded_lt(2) [OF b] by (fastforce simp: solo_def whole_def)
  let ?w = "Shape p (us @ [Shape x []])"
  have be: "becomes h3 h5 (addrs (Shape p us)) (blocks_at h (Shape p us)) (addrs ?w) (blocks_at h5 ?w)"
    using x(3) w3 by (simp add: extended_def)
  have "brk h < brk h3" using grew_range [OF h3(4), of "brk h"] by simp
  moreover have "brk h \<notin> set (blocks_at h (Shape p us))" using B by blast
  ultimately have c5: "texts h5 (brk h) = texts h3 (brk h)" "brk h \<notin> set (blocks_at h5 ?w)"
    using becomes_old(2) [OF be, of "brk h"] by blast+
  have "texts h5 (brk h) \<noteq> None" using c5(1) h3(5) by (auto simp: text_at_def)
  moreover have "becomes h3 h5 (addrs (Shape p us)) (brk h # blocks_at h (Shape p us)) (addrs ?w) (brk h # blocks_at h5 ?w)"
    using becomes_beside [OF be, of "[]" "[brk h]"] by simp
  ultimately obtain h6 where
    h6: "free_text h5 ?c = Some h6" "becomes h h6 (addrs (Shape p us)) (blocks_at h (Shape p us)) (addrs ?w) (blocks_at h5 ?w)"
      "nodes h6 = nodes h5" "\<forall>y. y \<noteq> brk h \<longrightarrow> texts h6 y = texts h5 y" using becomes_with_block [OF b h3(4)] by blast
  have s5: "solo h5 ?w" using x(3) by (simp add: extended_def)
  then have w5: "whole h5 ?w" by (simp add: solo_def)
  have "same_tree h5 h6 ?w"
  proof (rule same_tree_all)
    show "texts h6 y = texts h5 y" if "y \<in> set (blocks_at h5 ?w)" for y using h6(4) c5(2) that by metis
  qed (use h6(3) in simp)
  from frame_whole [OF this w5] have w6: "whole h6 ?w" "value_at h6 ?w = value_at h5 ?w" "blocks_at h6 ?w = blocks_at h5 ?w" by blast+
  have "solo h6 ?w" using s5 w6 h6(3) becomes_bounded [OF h6(2)] by (simp add: solo_def loose_def)
  then have "extended h (Shape p us) [with_name ''path'' (string_item (pt @ ''/'' @ encoded_pointer s))] h6 ?w"
    using x(3) w3 w6 h6(2) by (simp add: extended_def)
  then show ?thesis using Some e(1-3) h3(1-3) x(1,2) h6(1) by (auto simp: joined_path_def simp del: bind_Some_iff)
qed

lemma add_value_member:
  assumes w: "solo h (Shape p us)" and al: "\<forall>i. may_alloc (hmem h) i"
    and v: "views h t" "plain (value_at h t)"
  shows "\<exists>u h1 h'. cJSON_Duplicate h (Some (top t)) True = Some (Some (top u), h1) \<and>
    cJSON_AddItemToObject h1 (Some p) (Const ''value'') (Some (top u)) = Some (True, h') \<and>
    extended h (Shape p us) [with_name ''value'' (value_at h t)] h' (Shape p (us @ [u]))"
proof -
  have b: "bounded h" using w by (simp add: solo_def)
  obtain u h1 where u: "cJSON_Duplicate h (Some (top t)) True = Some (Some (top u), h1)" "solo h1 u"
    "value_at h1 u = value_at h t" "becomes h h1 [] [] (addrs u) (blocks_at h1 u)" using duplicate_whole [OF b al v] by blast
  have "cstring ''value'' = ''value''" by (simp add: cstring_def)
  then show ?thesis using member_into [OF w al u(2,4), of "''value''"] u(1,3) unfolding extended_def by auto
qed

text \<open>The patch as an item.\<close>

definition patch_item :: "string \<Rightarrow> string \<Rightarrow> cJSON option \<Rightarrow> cJSON" where
  "patch_item operation path v = set_children
     ([with_name ''op'' (string_item operation), with_name ''path'' (string_item path)] @
      (case v of None \<Rightarrow> [] | Some v \<Rightarrow> [with_name ''value'' v])) new_object"

text \<open>The list of patches at \<open>p\<close> has got the items \<open>vs\<close> at its end; besides, only the nodes \<open>S\<close> and the
  blocks \<open>C\<close>, which are there before and after, may have changed, and nothing else at all.\<close>

definition records ::
    "heap \<Rightarrow> nat \<Rightarrow> shape list \<Rightarrow> nat list \<Rightarrow> nat list \<Rightarrow> cJSON list \<Rightarrow> heap \<Rightarrow> shape list \<Rightarrow> bool" where
  "records h p us S C vs h' us' \<longleftrightarrow> object_at h' p us' [] \<and> map (value_at h') us' = map (value_at h) us @ vs \<and> same_root h h' p \<and>
     set C \<inter> set (all_blocks h' us') = {} \<and>
     becomes h h' (S @ p # all_addrs us) (C @ all_blocks h us) (S @ p # all_addrs us') (C @ all_blocks h' us')"

text \<open>A finished tree beside the list goes to its end.\<close>

lemma append_solo:
  assumes o: "object_at h p us []" and w: "solo h1 w" "becomes h h1 [] [] (addrs w) (blocks_at h1 w)"
  shows "\<exists>h'. add_item_to_array h1 (Some p) (Some (top w)) = Some (True, h') \<and> records h p us [] [] [value_at h1 w] h' (us @ [w])"
proof -
  have b: "bounded h" using o by (simp add: object_at_def)
  have b1: "becomes h h1 (all_addrs []) (all_blocks h []) (all_addrs [w]) (all_blocks h1 [w])" using w(2) by simp
  have "object_at h1 p us [w] \<and> map (value_at h1) us = map (value_at h) us \<and> nodes h1 p = nodes h p \<and> all_blocks h1 us = all_blocks h us"
    by (rule object_frame [OF o b1]) (use w(1) in \<open>simp_all add: solo_def\<close>)
  then have o1: "object_at h1 p us [w]" "map (value_at h1) us = map (value_at h) us" "nodes h1 p = nodes h p"
    "all_blocks h1 us = all_blocks h us" by blast+
  obtain h' where h': "add_item_to_array h1 (Some p) (Some (top w)) = Some (True, h')" "object_at h' p (us @ [w]) []"
    "map (value_at h') (us @ [w]) = map (value_at h1) (us @ [w])" "same_root h1 h' p"
    "becomes h1 h' (p # all_addrs (us @ [w])) (all_blocks h1 (us @ [w])) (p # all_addrs (us @ [w])) (all_blocks h' (us @ [w]))"
    using append_at [OF o1(1)] by blast
  have "becomes h h1 (p # all_addrs us) (all_blocks h us) (p # all_addrs (us @ [w])) (all_blocks h1 (us @ [w]))"
    using becomes_beside [OF w(2), of "p # all_addrs us" "all_blocks h us"] o1(4) by simp
  from becomes_trans [OF this h'(5) b]
  have "becomes h h' (p # all_addrs us) (all_blocks h us) (p # all_addrs (us @ [w])) (all_blocks h' (us @ [w]))" .
  moreover have "same_root h h' p" using h'(4) o1(3) by (simp add: same_root_def)
  ultimately show ?thesis using h'(1-3) o1(2) by (simp add: records_def)
qed

lemma compose_appends:
  assumes o: "object_at h p us []" and al: "\<forall>i. may_alloc (hmem h) i"
    and tx: "text_at h operation = Some (Some op)" "text_at h path = Some (Some pt)" "text_at h ending = Some e"
    and v: "\<forall>t \<in> set (opt_list v). views h t \<and> plain (value_at h t)"
  shows "\<exists>h' us'. compose_patch h (Some p) operation path ending (map_option top v) = Some h' \<and>
    records h p us [] [] [patch_item op (joined_path pt e) (map_option (value_at h) v)] h' us'"
proof -
  have b: "bounded h" using o by (simp add: object_at_def)
  obtain x h0 where x: "cJSON_CreateObject h = Some (Some x, h0)" "solo h0 (Shape x [])" "value_at h0 (Shape x []) = new_object"
    "becomes h h0 [] [] (addrs (Shape x [])) (blocks_at h0 (Shape x []))" using create_object_whole [OF b al] by blast
  have new: "becomes h h1 [] [] (addrs w1) (blocks_at h1 w1) \<and> bounded h1 \<and> (\<forall>i. may_alloc (hmem h1) i)"
    if "extended h0 (Shape x []) vs h1 w1" for vs h1 w1
  proof -
    have "becomes h h1 [] [] (addrs w1) (blocks_at h1 w1)"
      using becomes_trans [OF x(4) _ b] that unfolding extended_def by blast
    then show ?thesis using becomes_bounded becomes_alloc al by metis
  qed
  have tx_at: "text_at h1 t = Some y" if "text_at h t = Some y" "becomes h h1 [] [] A' B'" for h1 t y A' B'
    using becomes_text [OF that(2) b that(1)] by simp
  have al0: "\<forall>i. may_alloc (hmem h0) i" using al becomes_alloc [OF x(4)] by simp
  obtain a h1 h2 where a: "cJSON_CreateString operation h0 = Some (Some a, h1)"
    "cJSON_AddItemToObject h1 (Some x) (Const ''op'') (Some a) = Some (True, h2)"
    "extended h0 (Shape x []) [with_name (cstring ''op'') (string_item op)] h2 (Shape x [Shape a []])"
    using add_string_member [OF x(2) al0 tx_at [OF tx(1) x(4)], of "''op''"] by auto
  note n2 = new [OF a(3)]
  have s2: "solo h2 (Shape x [Shape a []])" using a(3) by (simp add: extended_def)
  obtain u h3 where u: "(if ending = Null then do {
        (y, h) \<leftarrow> cJSON_CreateString path h2;
        (_, h) \<leftarrow> cJSON_AddItemToObject h (Some x) (Const ''path'') y;
        Some h }
      else do {
        s \<leftarrow> chars_at h2 ending;
        pt \<leftarrow> chars_at h2 path;
        let (full_path, h) = malloc_text h2 (length pt + pointer_encoded_length s + 2);
        h \<leftarrow> write_text h full_path (pt @ ''/'' @ [NUL]);
        h \<leftarrow> encode_string_as_pointer h (advance full_path (length pt + 1)) s;
        (y, h) \<leftarrow> cJSON_CreateString full_path h;
        (_, h) \<leftarrow> cJSON_AddItemToObject h (Some x) (Const ''path'') y;
        free_text h full_path }) = Some h3"
    "extended h2 (Shape x [Shape a []]) [with_name ''path'' (string_item (joined_path pt e))] h3 (Shape x ([Shape a []] @ [u]))"
    using add_path_member [OF s2 _ tx_at [OF tx(2)] tx_at [OF tx(3)]] n2 by blast
  let ?vs = "[with_name ''op'' (string_item op), with_name ''path'' (string_item (joined_path pt e))]"
  have "cstring ''op'' = ''op''" by (simp add: cstring_def)
  then have e3: "extended h0 (Shape x []) ?vs h3 (Shape x ([Shape a []] @ [u]))"
    using extended_trans [OF a(3) u(2)] x(2) by (simp add: solo_def)
  note n3 = new [OF e3]
  have s3: "solo h3 (Shape x ([Shape a []] @ [u]))" using e3 by (simp add: extended_def)
  let ?ws = "case v of None \<Rightarrow> [] | Some t \<Rightarrow> [with_name ''value'' (value_at h t)]"
  obtain w h4 where w: "(if map_option top v \<noteq> None then do {
      (y, h) \<leftarrow> cJSON_Duplicate h3 (map_option top v) True;
      (_, h) \<leftarrow> cJSON_AddItemToObject h (Some x) (Const ''value'') y;
      Some h } else Some h3) = Some h4" "extended h0 (Shape x []) (?vs @ ?ws) h4 w"
  proof (cases v)
    case None
    then show ?thesis using that [of h3] e3 by simp
  next
    case (Some t)
    then have vt: "views h t" "plain (value_at h t)" using v by simp_all
    have "views h3 t \<and> value_at h3 t = value_at h t"
      using apart_frame [OF conjunct1 [OF n3] b vt] by (simp add: apart_def)
    then obtain d h5 h6 where d: "cJSON_Duplicate h3 (Some (top t)) True = Some (Some (top d), h5)"
      "cJSON_AddItemToObject h5 (Some x) (Const ''value'') (Some (top d)) = Some (True, h6)"
      "extended h3 (Shape x ([Shape a []] @ [u])) [with_name ''value'' (value_at h t)] h6 (Shape x (([Shape a []] @ [u]) @ [d]))"
      using add_value_member [OF s3 _, of t] n3 vt(2) by metis
    have "extended h0 (Shape x []) (?vs @ ?ws) h6 (Shape x (([Shape a []] @ [u]) @ [d]))"
      using extended_trans [OF e3 d(3)] x(2) Some by (simp add: solo_def)
    then show ?thesis using that [of h6] d(1,2) Some by simp
  qed
  have s4: "solo h4 w" "top w = x" "value_at h4 w = patch_item op (joined_path pt e) (map_option (value_at h) v)"
    using w(2) x(3) by (auto simp: extended_def patch_item_def new_object_def split: option.split)
  from append_solo [OF o s4(1) conjunct1 [OF new [OF w(2)]]] obtain h5 where
    h5: "add_item_to_array h4 (Some p) (Some x) = Some (True, h5)"
      "records h p us [] [] [patch_item op (joined_path pt e) (map_option (value_at h) v)] h5 (us @ [w])" using s4(2,3) by auto
  have "operation \<noteq> Null" "path \<noteq> Null" using tx(1,2) by (auto simp: text_at_def)
  then have "compose_patch h (Some p) operation path ending (map_option top v) = Some h5"
    using x(1) a(1,2) u(1) w(1) h5(1) by (simp add: compose_patch_def cJSON_AddItemToArray_def del: bind_Some_iff)
  then show ?thesis using h5(2) by blast
qed

end
