(* ===== verification/Generating.thy ===== *)
theory Generating
  imports Composing Sorting_Members
begin

text \<open>
  The generation of patches (\<open>json/cJSON_Utils.c\<close>, \<open>create_patches\<close>): the list of patches between two
  items, as a function of their values, and the proof that the code appends exactly this list.
\<close>

section \<open>The patches between two values\<close>

text \<open>Two lists walked in parallel, with an index, up to the end of the shorter one.\<close>

fun indexed :: "(nat \<Rightarrow> 'a \<Rightarrow> 'a \<Rightarrow> 'b list) \<Rightarrow> nat \<Rightarrow> 'a list \<Rightarrow> 'a list \<Rightarrow> 'b list" where
  "indexed f i (x # xs) (y # ys) = f i x y @ indexed f (Suc i) xs ys"
| "indexed f i [] ys = []"
| "indexed f i xs [] = []"

lemma indexed_cong [fundef_cong]:
  "xs = xs' \<Longrightarrow> ys = ys' \<Longrightarrow> i = i' \<Longrightarrow> (\<And>j x y. x \<in> set xs' \<Longrightarrow> y \<in> set ys' \<Longrightarrow> f j x y = g j x y) \<Longrightarrow>
   indexed f i xs ys = indexed g i' xs' ys'"
  by (induction g i' xs' ys' arbitrary: xs ys i rule: indexed.induct) auto

text \<open>Two lists in order, merged into pairs: what is in both, and what is in one of them only.\<close>

fun paired :: "('a \<Rightarrow> 'k :: linorder) \<Rightarrow> 'a list \<Rightarrow> 'a list \<Rightarrow> ('a option \<times> 'a option) list" where
  "paired r (x # xs) (y # ys) =
     (if r x = r y then (Some x, Some y) # paired r xs ys
      else if r x < r y then (Some x, None) # paired r xs (y # ys)
      else (None, Some y) # paired r (x # xs) ys)"
| "paired r xs [] = map (\<lambda>x. (Some x, None)) xs"
| "paired r [] ys = map (\<lambda>y. (None, Some y)) ys"

lemma paired_left: "(Some x, q) \<in> set (paired r xs ys) \<Longrightarrow> x \<in> set xs"
  by (induction r xs ys rule: paired.induct) (auto split: if_splits)

definition name_rank :: "bool \<Rightarrow> cJSON \<Rightarrow> nat list" where
  "name_rank b c = rank_of b (the (item_string c))"

definition by_name :: "bool \<Rightarrow> cJSON list \<Rightarrow> cJSON list" where
  "by_name b = sort_key (name_rank b)"

fun member_patches :: "(string \<Rightarrow> cJSON \<Rightarrow> cJSON \<Rightarrow> cJSON list) \<Rightarrow> string \<Rightarrow> cJSON option \<times> cJSON option \<Rightarrow> cJSON list" where
  "member_patches f path (Some c, Some d) = f (joined_path path (item_string c)) c d"
| "member_patches f path (Some c, None) = [patch_item ''remove'' (joined_path path (item_string c)) None]"
| "member_patches f path (None, Some d) = [patch_item ''add'' (joined_path path (item_string d)) (Some d)]"
| "member_patches f path (None, None) = []"

lemma member_patches_cong [fundef_cong]:
  "path = path' \<Longrightarrow> x = x' \<Longrightarrow> (\<And>c d p. x' = (Some c, Some d) \<Longrightarrow> f p c d = g p c d) \<Longrightarrow>
   member_patches f path x = member_patches g path' x'"
  by (cases "(g, path', x')" rule: member_patches.cases) auto

definition replaced :: "string \<Rightarrow> cJSON \<Rightarrow> cJSON list" where
  "replaced path w = [patch_item ''replace'' path (Some w)]"

definition array_rest :: "string \<Rightarrow> cJSON list \<Rightarrow> cJSON list \<Rightarrow> cJSON list" where
  "array_rest path cs ds =
     map (\<lambda>c. patch_item ''remove'' (joined_path path (Some (show_nat (length ds)))) None) (drop (length ds) cs) @
     map (\<lambda>d. patch_item ''add'' (joined_path path (Some ''-'')) (Some d)) (drop (length cs) ds)"

lemma size_child: "c \<in> set (children v) \<Longrightarrow> size c < size v"
proof (cases v)
  case (Item t vs vi vd s cs)
  assume "c \<in> set (children v)"
  then have "size c \<le> size_list size cs" using Item by (simp add: size_list_estimation')
  then show ?thesis using Item by simp
qed

function patches_between :: "bool \<Rightarrow> string \<Rightarrow> cJSON \<Rightarrow> cJSON \<Rightarrow> cJSON list" where
  "patches_between b path v w =
     (if kind v \<noteq> kind w then replaced path w
      else if kind v = cJSON_Number then
        (if valueint v \<noteq> valueint w \<or> \<not> compare_double (valuedouble v) (valuedouble w) then replaced path w else [])
      else if kind v = cJSON_String then (if valuestring v \<noteq> valuestring w then replaced path w else [])
      else if kind v = cJSON_Array then
        indexed (\<lambda>i c d. patches_between b (joined_path path (Some (show_nat i))) c d) 0 (children v) (children w) @
        array_rest path (children v) (children w)
      else if kind v = cJSON_Object then
        concat (map (\<lambda>x. member_patches (\<lambda>p c d. patches_between b p c d) path x)
          (paired (name_rank b) (by_name b (children v)) (by_name b (children w))))
      else [])"
  by pat_completeness auto
termination
proof (relation "measure (\<lambda>(b, path, v, w). size v)")
  fix b path v w x c d p
  assume "x \<in> set (paired (name_rank b) (by_name b (children v)) (by_name b (children w)))" "x = (Some c, Some d)"
  then have "c \<in> set (children v)" using paired_left by (fastforce simp: by_name_def)
  then show "((b, p, c, d), (b, path, v, w)) \<in> measure (\<lambda>(b, path, v, w). size v)" by (simp add: size_child)
qed (auto simp: size_child)

declare patches_between.simps [simp del]

section \<open>What is beside\<close>

text \<open>Values that can be compared: strings have characters, arrays are not too long for the index,
  members have names, and no two the same name.\<close>

fun comparable :: "bool \<Rightarrow> cJSON \<Rightarrow> bool" where
  "comparable b (Item t vs vi vd s cs) \<longleftrightarrow> (t AND 0xFF = cJSON_String \<longrightarrow> vs \<noteq> None) \<and>
     (t AND 0xFF = cJSON_Array \<longrightarrow> length cs \<le> ULONG_MAX) \<and>
     (t AND 0xFF = cJSON_Object \<longrightarrow> None \<notin> set (map item_string cs) \<and> distinct (map (name_rank b) cs)) \<and>
     (\<forall>c \<in> set cs. comparable b c)"

definition tree_ready :: "heap \<Rightarrow> bool \<Rightarrow> shape \<Rightarrow> bool" where
  "tree_ready h b x \<longleftrightarrow> views h x \<and> linked h x \<and> plain (value_at h x) \<and> comparable b (value_at h x)"

lemma apart_nodes:
  assumes be: "becomes h h' A B A' B'" "bounded h" and x: "views h x" "apart h x A B" and a: "a \<in> set (addrs x)"
  shows "nodes h' a = nodes h a"
proof -
  have "a < brk h" using views_dom [OF x(1)] a bounded_lt(1) [OF be(2)] by blast
  moreover have "a \<notin> set A" using x(2) a by (auto simp: apart_def)
  ultimately show ?thesis using becomes_old(1) [OF be(1)] by blast
qed

lemma tree_beside:
  assumes be: "becomes h h' A B A' B'" "bounded h" and x: "tree_ready h b x" "apart h x A B"
  shows "tree_ready h' b x \<and> value_at h' x = value_at h x \<and> apart h' x A' B' \<and> blocks_at h' x = blocks_at h x \<and>
    (\<forall>a \<in> set (addrs x). nodes h' a = nodes h a)"
proof -
  have v: "views h x" "plain (value_at h x)" using x(1) by (simp_all add: tree_ready_def)
  note fr = apart_frame [OF be v x(2)]
  show ?thesis using fr frame_tree [of h h' x] v x apart_nodes [OF be v(1) x(2)] by (simp add: tree_ready_def)
qed

lemma object_beside:
  assumes o: "object_at h p us []" and be: "becomes h h' A B A' B'"
    and d: "set A \<inter> set (p # all_addrs us) = {}" "set B \<inter> set (all_blocks h us) = {}"
  shows "object_at h' p us [] \<and> map (value_at h') us = map (value_at h) us \<and> nodes h' p = nodes h p \<and>
    all_blocks h' us = all_blocks h us \<and> set B' \<inter> set (all_blocks h us) = {}"
proof -
  have b: "bounded h" and wh: "\<forall>u \<in> set us. whole h u" and kd: "kids h p (map top us)" using o by (simp_all add: object_at_def)
  have fr: "whole h' u \<and> value_at h' u = value_at h u \<and> blocks_at h' u = blocks_at h u \<and>
      apart h' u A' B' \<and> (\<forall>a \<in> set (addrs u). nodes h' a = nodes h a)" if u: "u \<in> set us" for u
  proof -
    have "views h u" "plain (value_at h u)" using wh u by (simp_all add: whole_def)
    moreover have ap: "apart h u A B" using d u unfolding apart_def by fastforce
    ultimately have st: "same_tree h h' u" and ap': "apart h' u A' B'" using apart_frame [OF be b] by blast+
    show ?thesis using frame_whole [OF st] wh u ap' apart_nodes [OF be b \<open>views h u\<close> ap] by blast
  qed
  have "p < brk h" using kd bounded_lt(1) [OF b] by (fastforce simp: kids_def)
  moreover have "p \<notin> set A" using d(1) by auto
  ultimately have np: "nodes h' p = nodes h p" using becomes_old(1) [OF be] by blast
  have "links (nodes h') q (map top us) e = links (nodes h) q (map top us) e" for q e
    by (rule links_cong) (use fr top_addrs in fastforce)
  then have "kids h' p (map top us)" using kd np by (simp add: kids_def)
  moreover have ab: "all_blocks h' us = all_blocks h us" by (rule all_blocks_cong) (use fr in blast)
  moreover have "map (value_at h') us = map (value_at h) us" using fr by simp
  moreover have "set B' \<inter> set (all_blocks h us) = {}"
  proof -
    have "set B' \<inter> set (blocks_at h u) = {}" if "u \<in> set us" for u using fr [OF that] by (auto simp: apart_def)
    then show ?thesis by auto
  qed
  ultimately show ?thesis using o np fr becomes_bounded [OF be] by (simp add: object_at_def)
qed

section \<open>Recording\<close>

text \<open>The list of patches at \<open>p\<close>, the path, and trees \<open>xs\<close> to be compared, all beside each other and
  beside the blocks \<open>C\<close> in which paths are built.\<close>

definition ready :: "heap \<Rightarrow> bool \<Rightarrow> nat \<Rightarrow> shape list \<Rightarrow> nat list \<Rightarrow> text_ptr \<Rightarrow> string \<Rightarrow> shape list \<Rightarrow> bool" where
  "ready h b p us C path pt xs \<longleftrightarrow> object_at h p us [] \<and> (\<forall>i. may_alloc (hmem h) i) \<and> text_at h path = Some (Some pt) \<and>
     set C \<inter> set (all_blocks h us) = {} \<and> (\<forall>c \<in> set C. texts h c \<noteq> None) \<and>
     set (block_of path) \<inter> set (C @ all_blocks h us) = {} \<and>
     (\<forall>x \<in> set xs. tree_ready h b x \<and> apart h x (p # all_addrs us) (C @ all_blocks h us)) \<and> distinct (all_addrs xs)"

lemma ready_bounded: "ready h b p us C path pt xs \<Longrightarrow> bounded h"
  by (simp add: ready_def object_at_def)

lemma records_trans:
  assumes "records h p us S C vs h1 us1" "records h1 p us1 S C vs' h2 us2" "bounded h"
  shows "records h p us S C (vs @ vs') h2 us2"
proof -
  have "becomes h h2 (S @ p # all_addrs us) (C @ all_blocks h us) (S @ p # all_addrs us2) (C @ all_blocks h2 us2)"
    using assms becomes_trans unfolding records_def by blast
  then show ?thesis using assms(1,2) same_root_trans by (auto simp: records_def)
qed

lemma records_block:
  assumes r: "records h p us S [] vs h' us'" and b: "bounded h"
    and C: "set C \<inter> set (all_blocks h us) = {}" "\<forall>c \<in> set C. texts h c \<noteq> None"
  shows "records h p us S C vs h' us' \<and> (\<forall>c \<in> set C. texts h' c = texts h c)"
proof -
  have be: "becomes h h' (S @ p # all_addrs us) (all_blocks h us) (S @ p # all_addrs us') (all_blocks h' us')"
    using r by (simp add: records_def)
  have "becomes h h' (S @ p # all_addrs us) (C @ all_blocks h us) (S @ p # all_addrs us') (C @ all_blocks h' us')"
    using becomes_beside [OF be, of "[]" C] by simp
  moreover have "texts h' c = texts h c \<and> c \<notin> set (all_blocks h' us')" if "c \<in> set C" for c
  proof (rule becomes_old(2) [OF be])
    show "c < brk h" using C(2) that bounded_lt(2) [OF b] by blast
    show "c \<notin> set (all_blocks h us)" using C(1) that by blast
  qed
  ultimately show ?thesis using r by (auto simp: records_def)
qed

lemma records_beside:
  assumes o: "object_at h p us []" and be: "becomes h h' S C S C"
    and d: "set S \<inter> set (p # all_addrs us) = {}" "set C \<inter> set (all_blocks h us) = {}"
  shows "records h p us S C [] h' us"
proof -
  note ob = object_beside [OF o be d]
  have "becomes h h' (S @ p # all_addrs us) (C @ all_blocks h us) (S @ p # all_addrs us) (C @ all_blocks h' us)"
    by (rule becomes_cong [OF becomes_beside [OF be, of "p # all_addrs us" "all_blocks h us"]]) (use ob in auto)
  then show ?thesis using ob by (simp add: records_def same_root_def)
qed

lemma records_more:
  assumes r: "records h p us S C vs h' us'" and S: "mset S \<subseteq># mset S'" shows "records h p us S' C vs h' us'"
proof -
  obtain D where D: "mset S' = mset (D @ S)" using S by (metis ex_mset mset_append mset_subset_eq_exists_conv add.commute)
  have "becomes h h' (S' @ p # all_addrs us) (C @ all_blocks h us) (S' @ p # all_addrs us') (C @ all_blocks h' us')"
    by (rule becomes_cong [OF becomes_beside [of h h' "S @ p # all_addrs us" "C @ all_blocks h us" _ _ D "[]"]])
      (use D r in \<open>auto simp: records_def\<close>)
  then show ?thesis using r by (simp add: records_def)
qed

text \<open>What is left of the trees after a step that has not touched it.\<close>

lemma ready_step:
  assumes r: "ready h b p us C path pt xs" and s: "records h p us S C vs h' us'"
    and ys: "set ys \<subseteq> set xs" "distinct (all_addrs ys)" "set S \<inter> set (all_addrs ys) = {}" and C: "\<forall>c \<in> set C. texts h' c \<noteq> None"
  shows "ready h' b p us' C path pt ys"
    "\<And>y. y \<in> set ys \<Longrightarrow> value_at h' y = value_at h y \<and> (\<forall>a \<in> set (addrs y). nodes h' a = nodes h a)"
proof -
  have bd: "bounded h" by (rule ready_bounded [OF r])
  have be: "becomes h h' (S @ p # all_addrs us) (C @ all_blocks h us) (S @ p # all_addrs us') (C @ all_blocks h' us')"
    using s by (simp add: records_def)
  have tr: "tree_ready h' b y \<and> value_at h' y = value_at h y \<and> apart h' y (S @ p # all_addrs us') (C @ all_blocks h' us') \<and>
      (\<forall>a \<in> set (addrs y). nodes h' a = nodes h a)" if y: "y \<in> set ys" for y
  proof -
    have "tree_ready h b y" "apart h y (p # all_addrs us) (C @ all_blocks h us)" using r ys(1) y by (auto simp: ready_def)
    moreover have "set (addrs y) \<inter> set S = {}" using ys(3) y by fastforce
    ultimately have t: "tree_ready h b y" "apart h y (S @ p # all_addrs us) (C @ all_blocks h us)"
      by (simp_all add: apart_def Int_Un_distrib)
    show ?thesis using tree_beside [OF be bd t] by blast
  qed
  then show "\<And>y. y \<in> set ys \<Longrightarrow> value_at h' y = value_at h y \<and> (\<forall>a \<in> set (addrs y). nodes h' a = nodes h a)" by blast
  have pa: "text_at h path = Some (Some pt)" "set (block_of path) \<inter> set (C @ all_blocks h us) = {}" using r by (simp_all add: ready_def)
  have "set (block_of path) \<inter> set (C @ all_blocks h' us') = {}"
  proof (cases path)
    case (Block c i)
    then have "texts h c \<noteq> None" using pa(1) by (auto simp: text_at_def)
    then have "c < brk h" using bounded_lt(2) [OF bd] by blast
    moreover have "c \<notin> set (C @ all_blocks h us)" using pa(2) Block by simp
    ultimately have "c \<notin> set (C @ all_blocks h' us')" using becomes_old(2) [OF be, of c] by blast
    then show ?thesis using Block by simp
  qed simp_all
  moreover have "text_at h' path = Some (Some pt)" by (rule becomes_text [OF be bd pa])
  moreover have "apart h' y (p # all_addrs us') (C @ all_blocks h' us')" if "y \<in> set ys" for y
    using tr [OF that] by (auto simp: apart_def)
  ultimately show "ready h' b p us' C path pt ys"
    using tr r s ys(2) C becomes_alloc [OF be] by (simp add: ready_def records_def)
qed

lemma compose_step:
  assumes r: "ready h b p us C path pt xs" and e: "text_at h ending = Some e"
    and v: "\<forall>t \<in> set (opt_list v). views h t \<and> plain (value_at h t)"
  shows "\<exists>h' us'. compose_patch h (Some p) (Const op) path ending (map_option top v) = Some h' \<and>
    records h p us [] C [patch_item (cstring op) (joined_path pt e) (map_option (value_at h) v)] h' us' \<and>
    (\<forall>c \<in> set C. texts h' c = texts h c)"
proof -
  have o: "object_at h p us []" "\<forall>i. may_alloc (hmem h) i" "text_at h path = Some (Some pt)"
    "set C \<inter> set (all_blocks h us) = {}" "\<forall>c \<in> set C. texts h c \<noteq> None" using r by (simp_all add: ready_def)
  have op: "text_at h (Const op) = Some (Some (cstring op))" by (simp add: text_at_def)
  from compose_appends [OF o(1,2) op o(3) e v] obtain h' us' where
    h': "compose_patch h (Some p) (Const op) path ending (map_option top v) = Some h'"
      "records h p us [] [] [patch_item (cstring op) (joined_path pt e) (map_option (value_at h) v)] h' us'" by blast
  show ?thesis using h'(1) records_block [OF h'(2) ready_bounded [OF r] o(4,5)] by blast
qed

text \<open>A block for a path is taken, used, and given back.\<close>

lemma ready_grow:
  assumes r: "ready h b p us [] path pt xs" and g: "grew h h1 [] [c]"
  shows "ready h1 b p us [c] path pt xs" "\<And>x. x \<in> set xs \<Longrightarrow> value_at h1 x = value_at h x" "nodes h1 = nodes h"
proof -
  have bd: "bounded h" by (rule ready_bounded [OF r])
  have be: "becomes h h1 [] [] [] [c]" by (rule becomes_grew [OF g bd])
  have o: "object_at h p us []" "text_at h path = Some (Some pt)" using r by (simp_all add: ready_def)
  have ob: "object_at h1 p us []" "all_blocks h1 us = all_blocks h us" "c \<notin> set (all_blocks h us)"
    using object_beside [OF o(1) be] by simp_all
  have cr: "brk h \<le> c" "texts h1 c \<noteq> None" using g grew_range [OF g, of c] by (auto simp: grew_def)
  have tr: "tree_ready h1 b x \<and> value_at h1 x = value_at h x \<and> apart h1 x (p # all_addrs us) (c # all_blocks h1 us)"
    if "x \<in> set xs" for x
  proof -
    have x: "tree_ready h b x" "apart h x (p # all_addrs us) (all_blocks h us)" using r that by (simp_all add: ready_def)
    have "apart h x [] []" by (simp add: apart_def)
    from tree_beside [OF be bd x(1) this] show ?thesis using x(2) ob(2) by (auto simp: apart_def)
  qed
  then show "\<And>x. x \<in> set xs \<Longrightarrow> value_at h1 x = value_at h x" by blast
  have "set (block_of path) \<inter> set ([c] @ all_blocks h us) = {}"
  proof (cases path)
    case (Block d i)
    then have "texts h d \<noteq> None" using o(2) by (auto simp: text_at_def)
    then have "d < brk h" using bounded_lt(2) [OF bd] by blast
    then show ?thesis using r Block cr(1) by (auto simp: ready_def)
  qed simp_all
  moreover have "text_at h1 path = Some (Some pt)" by (rule becomes_text [OF be bd o(2)]) simp
  ultimately show "ready h1 b p us [c] path pt xs"
    using tr ob cr(2) r becomes_alloc [OF be] by (simp add: ready_def)
  show "nodes h1 = nodes h" by (rule grew_nodes [OF g bd])
qed

lemma records_free:
  assumes o: "object_at h p us []" and g: "grew h h1 [] [c]" and r: "records h1 p us S [c] vs h2 us2" and c: "texts h2 c \<noteq> None"
  shows "\<exists>h3. free_text h2 (Block c 0) = Some h3 \<and> records h p us S [] vs h3 us2 \<and> nodes h3 = nodes h2 \<and>
    (\<forall>x. x \<noteq> c \<longrightarrow> texts h3 x = texts h2 x)"
proof -
  have bd: "bounded h" using o by (simp add: object_at_def)
  have ob: "map (value_at h1) us = map (value_at h) us" "all_blocks h1 us = all_blocks h us" "nodes h1 p = nodes h p"
    using object_beside [OF o becomes_grew [OF g bd]] by simp_all
  have be: "becomes h1 h2 (S @ p # all_addrs us) (c # all_blocks h us) (S @ p # all_addrs us2) (c # all_blocks h2 us2)"
    using r ob(2) by (simp add: records_def)
  from becomes_with_block [OF bd g be c] obtain h3 where
    h3: "free_text h2 (Block c 0) = Some h3" "becomes h h3 (S @ p # all_addrs us) (all_blocks h us) (S @ p # all_addrs us2) (all_blocks h2 us2)"
      "nodes h3 = nodes h2" "\<forall>x. x \<noteq> c \<longrightarrow> texts h3 x = texts h2 x" by blast
  have o2: "object_at h2 p us2 []" "c \<notin> set (all_blocks h2 us2)" using r by (simp_all add: records_def)
  have sh: "h3 = erase h2 [] [c]" using h3(1) free_text_erase [of h2 "Block c 0"] c by simp
  have "becomes h2 h3 [] [c] [] []" unfolding sh by (rule becomes_erase) (use o2(1) in \<open>simp add: object_at_def\<close>)
  from object_beside [OF o2(1) this] have "object_at h3 p us2 []" "map (value_at h3) us2 = map (value_at h2) us2"
    "all_blocks h3 us2 = all_blocks h2 us2" using o2(2) by simp_all
  moreover have "map (value_at h2) us2 = map (value_at h) us @ vs" "same_root h h2 p" using r ob by (simp_all only: records_def same_root_def)
  ultimately show ?thesis using h3 by (simp add: records_def same_root_def del: map_eq_conv)
qed

section \<open>Arrays\<close>

text \<open>What a call for two trees does.\<close>

definition generates ::
    "(heap \<Rightarrow> text_ptr \<Rightarrow> ptr \<Rightarrow> ptr \<Rightarrow> heap option) \<Rightarrow> bool \<Rightarrow> heap \<Rightarrow> nat \<Rightarrow> shape list \<Rightarrow> text_ptr \<Rightarrow> string \<Rightarrow> shape \<Rightarrow> shape \<Rightarrow> bool" where
  "generates create b h p us path pt s t \<longleftrightarrow> (\<exists>h' us'. create h path (Some (top s)) (Some (top t)) = Some h' \<and>
     records h p us (addrs s @ addrs t) [] (patches_between b pt (value_at h s) (value_at h t)) h' us' \<and>
     same_root h h' (top s) \<and> same_root h h' (top t))"

lemma same_root_next: "same_root h h' a \<Longrightarrow> nodes h a = Some m \<Longrightarrow> \<exists>m'. nodes h' a = Some m' \<and> nnext m' = nnext m"
  by (cases "nodes h' a") (auto simp: same_root_def dest: arg_cong [of _ _ nnext])

lemma ready_sub:
  assumes "ready h b p us C path pt xs" "text_at h (Block c 0) = Some (Some pt')" "c \<in> set C" "set ys \<subseteq> set xs" "distinct (all_addrs ys)"
  shows "ready h b p us [] (Block c 0) pt' ys"
proof -
  have "c \<notin> set (all_blocks h us)" using assms(1,3) by (auto simp: ready_def)
  moreover have "tree_ready h b y \<and> apart h y (p # all_addrs us) ([] @ all_blocks h us)" if "y \<in> set ys" for y
  proof -
    have "tree_ready h b y" "apart h y (p # all_addrs us) (C @ all_blocks h us)" using assms(1,4) that by (auto simp: ready_def)
    then show ?thesis by (simp add: apart_def Int_Un_distrib)
  qed
  ultimately show ?thesis using assms(1,2,5) by (simp add: ready_def)
qed

lemma chain_step:
  assumes "\<And>y. y \<in> set ys \<Longrightarrow> value_at h' y = value_at h y \<and> (\<forall>a \<in> set (addrs y). nodes h' a = nodes h a)" and "set xs \<subseteq> set ys"
  shows "chain (nodes h') q (map top xs) = chain (nodes h) q (map top xs)" "map (value_at h') xs = map (value_at h) xs"
proof -
  show "chain (nodes h') q (map top xs) = chain (nodes h) q (map top xs)" by (rule chain_cong) (use assms top_addrs in fastforce)
  show "map (value_at h') xs = map (value_at h) xs" using assms by auto
qed

text \<open>Writing a path into the block \<open>c\<close>.\<close>

lemma write_path:
  assumes r: "ready h b p us [c] path pt xs" and j: "texts h c = Some j" "length t < length j" "nulfree t"
  shows "\<exists>h1. write_text h (Block c 0) (t @ [NUL]) = Some h1 \<and> records h p us [] [c] [] h1 us \<and> ready h1 b p us [c] path pt xs \<and>
    (\<forall>x \<in> set xs. value_at h1 x = value_at h x) \<and> nodes h1 = nodes h \<and> text_at h1 (Block c 0) = Some (Some t) \<and>
    (\<exists>j'. texts h1 c = Some j' \<and> length j' = length j)"
proof -
  let ?h = "h\<lparr>texts := (texts h)(c \<mapsto> t @ NUL # drop (length t + 1) j)\<rparr>"
  have w: "write_text h (Block c 0) (t @ [NUL]) = Some ?h" using write_text_block [OF j(1), of 0 "t @ [NUL]"] j(2) by simp
  have o: "object_at h p us []" "set [c] \<inter> set (all_blocks h us) = {}" using r by (simp_all add: ready_def)
  have "becomes h ?h [] [c] [] [c]"
    using ready_bounded [OF r] j(1) by (auto simp: becomes_def bounded_def same_hooks_def)
  from records_beside [OF o(1) this _ o(2)] have rc: "records h p us [] [c] [] ?h us" by simp
  have "\<forall>x \<in> set [c]. texts ?h x \<noteq> None" by simp
  note st = ready_step [OF r rc _ _ _ this, of xs]
  have "distinct (all_addrs xs)" using r by (simp add: ready_def)
  then have "ready ?h b p us [c] path pt xs" "\<forall>x \<in> set xs. value_at ?h x = value_at h x" using st by simp_all
  moreover have "text_at ?h (Block c 0) = Some (Some t)" by (rule text_at_block [OF _ j(3)]) simp
  moreover have "length (t @ NUL # drop (length t + 1) j) = length j" using j(2) by simp
  ultimately show ?thesis using w rc by auto
qed

lemma records_idle:
  assumes r: "ready h b p us C path pt xs" shows "records h p us (all_addrs xs) C [] h us"
proof (rule records_beside)
  show "object_at h p us []" "set C \<inter> set (all_blocks h us) = {}" using r by (simp_all add: ready_def)
  show "becomes h h (all_addrs xs) C (all_addrs xs) C" by (rule becomes_refl [OF ready_bounded [OF r]])
  show "set (all_addrs xs) \<inter> set (p # all_addrs us) = {}" using r by (fastforce simp: ready_def apart_def)
qed

lemma patch_common_stop: "q = None \<or> r = None \<Longrightarrow> patch_common create path new_path i q r h = Some (True, q, r, i, h)"
  by (subst patch_common.simps) simp

lemma joined_index: "joined_path pt (Some (show_nat i)) = pt @ ''/'' @ show_nat i"
  by (simp add: joined_path_def show_nat_plain)

lemma patch_common_ok:
  assumes IH: "\<And>h us path pt s t. s \<in> set ss0 \<Longrightarrow> ready h b p us [] path pt [s, t] \<Longrightarrow> generates create b h p us path pt s t"
  shows "set ss \<subseteq> set ss0 \<Longrightarrow> ready h b p us [c] path pt (ss @ ts) \<Longrightarrow> texts h c = Some j \<Longrightarrow> length j = length pt + 22 \<Longrightarrow>
    chain (nodes h) q (map top ss) \<Longrightarrow> chain (nodes h) r (map top ts) \<Longrightarrow> i + length ss \<le> ULONG_MAX \<Longrightarrow>
    \<exists>q' r' h' us' j'. patch_common create path (Block c 0) i q r h = Some (True, q', r', i + min (length ss) (length ts), h') \<and>
      records h p us (all_addrs (ss @ ts)) [c]
        (indexed (\<lambda>i. patches_between b (joined_path pt (Some (show_nat i)))) i (map (value_at h) ss) (map (value_at h) ts)) h' us' \<and>
      ready h' b p us' [c] path pt (drop (length ts) ss @ drop (length ss) ts) \<and> texts h' c = Some j' \<and> length j' = length pt + 22 \<and>
      chain (nodes h') q' (map top (drop (length ts) ss)) \<and> chain (nodes h') r' (map top (drop (length ss) ts)) \<and>
      map (value_at h') (drop (length ts) ss) = map (value_at h) (drop (length ts) ss) \<and>
      map (value_at h') (drop (length ss) ts) = map (value_at h) (drop (length ss) ts)"
proof (induction ss arbitrary: ts h us j q r i)
  case Nil
  then have "patch_common create path (Block c 0) i q r h = Some (True, q, r, i, h)" by (simp add: patch_common_stop)
  then show ?case using Nil.prems(2-6) records_idle [OF Nil.prems(2)] by auto
next
  case (Cons s ss)
  note rd = Cons.prems(2)
  show ?case
  proof (cases ts)
    case Nil
    then have "patch_common create path (Block c 0) i q r h = Some (True, q, r, i, h)"
      using Cons.prems(6) by (simp add: patch_common_stop)
    then show ?thesis using Nil Cons.prems(3-6) rd records_idle [OF rd] by auto
  next
    case (Cons t ts')
    have bd: "bounded h" by (rule ready_bounded [OF rd])
    let ?path = "joined_path pt (Some (show_nat i))"
    have i: "i \<le> ULONG_MAX" using Cons.prems(7) by simp
    obtain m n where mn: "q = Some (top s)" "nodes h (top s) = Some m" "chain (nodes h) (nnext m) (map top ss)"
      "r = Some (top t)" "nodes h (top t) = Some n" "chain (nodes h) (nnext n) (map top ts')"
      using Cons.prems(5,6) Cons by auto
    have pt: "text_at h path = Some (Some pt)" "chars_at h path = Some pt" using rd by (simp_all add: ready_def chars_at_def)
    have nf: "nulfree ?path" using text_at_nulfree [OF pt(1)] show_nat_plain by (simp add: joined_index)
    have "length ?path < length j" using Cons.prems(4) show_nat_short [of i] i by (simp add: joined_index)
    from write_path [OF rd Cons.prems(3) this nf] obtain h1 j1 where
      h1: "write_text h (Block c 0) (?path @ [NUL]) = Some h1" "records h p us [] [c] [] h1 us"
        "ready h1 b p us [c] path pt ((s # ss) @ ts)" "\<forall>x \<in> set ((s # ss) @ ts). value_at h1 x = value_at h x" "nodes h1 = nodes h"
        "text_at h1 (Block c 0) = Some (Some ?path)" "texts h1 c = Some j1" "length j1 = length j" by blast
    have dt: "distinct (all_addrs ((s # ss) @ ts))" using rd by (simp add: ready_def)
    have "ready h1 b p us [] (Block c 0) ?path [s, t]"
      by (rule ready_sub [OF h1(3,6)]) (use dt Cons in auto)
    then have "generates create b h1 p us (Block c 0) ?path s t" by (rule IH [rotated]) (use Cons.prems(1) in simp)
    then obtain h2 us2 where h2: "create h1 (Block c 0) (Some (top s)) (Some (top t)) = Some h2"
      "records h1 p us (addrs s @ addrs t) [] (patches_between b ?path (value_at h s) (value_at h t)) h2 us2"
      "same_root h1 h2 (top s)" "same_root h1 h2 (top t)" using h1(4) Cons by (auto simp: generates_def)
    have C: "set [c] \<inter> set (all_blocks h1 us) = {}" "\<forall>x \<in> set [c]. texts h1 x \<noteq> None" using h1(3) by (simp_all add: ready_def)
    have r2: "records h1 p us (addrs s @ addrs t) [c] (patches_between b ?path (value_at h s) (value_at h t)) h2 us2" "texts h2 c = Some j1"
      using records_block [OF h2(2) ready_bounded [OF h1(3)] C] h1(7) by auto
    have st: "set (ss @ ts') \<subseteq> set ((s # ss) @ ts)" "distinct (all_addrs (ss @ ts'))"
      "set (addrs s @ addrs t) \<inter> set (all_addrs (ss @ ts')) = {}" "\<forall>x \<in> set [c]. texts h2 x \<noteq> None" using dt Cons r2(2) by auto
    note rd2 = ready_step [OF h1(3) r2(1) st]
    obtain m2 n2 where n2: "nodes h2 (top s) = Some m2" "nnext m2 = nnext m" "nodes h2 (top t) = Some n2" "nnext n2 = nnext n"
      using same_root_next [OF h2(3), of m] same_root_next [OF h2(4), of n] mn h1(5) by auto
    have ch: "chain (nodes h2) (nnext m) (map top ss)" "chain (nodes h2) (nnext n) (map top ts')"
      using chain_step(1) [OF rd2(2), of ss] chain_step(1) [OF rd2(2), of ts'] mn(3,6) h1(5) by auto
    have va: "map (value_at h2) ss = map (value_at h) ss" "map (value_at h2) ts' = map (value_at h) ts'"
      using rd2(2) h1(4) Cons by simp_all
    have "length j1 = length pt + 22" "Suc i + length ss \<le> ULONG_MAX" "set ss \<subseteq> set ss0" using h1(8) Cons.prems(1,4,7) by simp_all
    from Cons.IH [OF this(3) rd2(1) r2(2) this(1) ch this(2)] obtain q' r' h' us' j' where
      h': "patch_common create path (Block c 0) (Suc i) (nnext m) (nnext n) h2 = Some (True, q', r', Suc i + min (length ss) (length ts'), h')"
        "records h2 p us2 (all_addrs (ss @ ts')) [c]
          (indexed (\<lambda>i. patches_between b (joined_path pt (Some (show_nat i)))) (Suc i) (map (value_at h2) ss) (map (value_at h2) ts')) h' us'"
        "ready h' b p us' [c] path pt (drop (length ts') ss @ drop (length ss) ts')" "texts h' c = Some j'" "length j' = length pt + 22"
        "chain (nodes h') q' (map top (drop (length ts') ss))" "chain (nodes h') r' (map top (drop (length ss) ts'))"
        "map (value_at h') (drop (length ts') ss) = map (value_at h2) (drop (length ts') ss)"
        "map (value_at h') (drop (length ss) ts') = map (value_at h2) (drop (length ss) ts')" by blast
    let ?S = "all_addrs ((s # ss) @ ts)"
    have "records h p us ?S [c] [] h1 us" by (rule records_more [OF h1(2)]) simp
    moreover have "records h1 p us ?S [c] (patches_between b ?path (value_at h s) (value_at h t)) h2 us2"
      by (rule records_more [OF r2(1)]) (use Cons in simp)
    moreover have "records h2 p us2 ?S [c]
        (indexed (\<lambda>i. patches_between b (joined_path pt (Some (show_nat i)))) (Suc i) (map (value_at h2) ss) (map (value_at h2) ts')) h' us'"
      by (rule records_more [OF h'(2)]) (use Cons in simp)
    ultimately have "records h p us ?S [c] ([] @ patches_between b ?path (value_at h s) (value_at h t) @
        indexed (\<lambda>i. patches_between b (joined_path pt (Some (show_nat i)))) (Suc i) (map (value_at h2) ss) (map (value_at h2) ts')) h' us'"
      using records_trans [OF _ records_trans] bd ready_bounded [OF h1(3)] by blast
    then have "records h p us ?S [c] (indexed (\<lambda>i. patches_between b (joined_path pt (Some (show_nat i)))) i
        (map (value_at h) (s # ss)) (map (value_at h) ts)) h' us'" using va Cons by simp
    moreover have "patch_common create path (Block c 0) i q r h =
      Some (True, q', r', i + min (length (s # ss)) (length ts), h')"
      using mn(1,4) i pt(2) h1(1) h2(1) n2 h'(1) Cons
      by (subst patch_common.simps) (simp add: joined_index node_at_def del: bind_Some_iff)
    moreover have "map (value_at h2) (drop k ss) = map (value_at h) (drop k ss)" "map (value_at h2) (drop k ts') = map (value_at h) (drop k ts')" for k
      using va by (metis drop_map)+
    ultimately show ?thesis using h'(3-9) Cons by (intro exI [of _ q'] exI [of _ r'] exI [of _ h'] exI [of _ us'] exI [of _ j']) simp
  qed
qed

text \<open>What is left in one of the arrays.\<close>

lemma patch_removed_ok:
  "ready h b p us [c] path pt xs \<Longrightarrow> set ss \<subseteq> set xs \<Longrightarrow> texts h c = Some j \<Longrightarrow> length j = length pt + 22 \<Longrightarrow>
   chain (nodes h) q (map top ss) \<Longrightarrow> (ss \<noteq> [] \<Longrightarrow> i \<le> ULONG_MAX) \<Longrightarrow>
   \<exists>h' us'. patch_removed (Some p) path (Block c 0) i q h = Some (True, h') \<and>
     records h p us [] [c] (map (\<lambda>_. patch_item ''remove'' (joined_path pt (Some (show_nat i))) None) ss) h' us' \<and>
     ready h' b p us' [c] path pt xs \<and> texts h' c \<noteq> None \<and>
     (\<forall>x \<in> set xs. value_at h' x = value_at h x \<and> (\<forall>a \<in> set (addrs x). nodes h' a = nodes h a))"
proof (induction ss arbitrary: h us j q)
  case Nil
  have "ready h b p us [c] path pt []" using Nil.prems(1) by (simp add: ready_def)
  from records_idle [OF this] show ?case using Nil.prems by (subst patch_removed.simps) auto
next
  case (Cons s ss)
  have i: "i \<le> ULONG_MAX" using Cons.prems(6) by simp
  obtain m where m: "q = Some (top s)" "nodes h (top s) = Some m" "chain (nodes h) (nnext m) (map top ss)" using Cons.prems(5) by auto
  have "length (show_nat i) < length j" using Cons.prems(4) show_nat_short [of i] i by simp
  from write_path [OF Cons.prems(1,3) this show_nat_plain(2)] obtain h1 j1 where
    h1: "write_text h (Block c 0) (show_nat i @ [NUL]) = Some h1" "records h p us [] [c] [] h1 us" "ready h1 b p us [c] path pt xs"
      "\<forall>x \<in> set xs. value_at h1 x = value_at h x" "nodes h1 = nodes h" "text_at h1 (Block c 0) = Some (Some (show_nat i))"
      "texts h1 c = Some j1" "length j1 = length j" by blast
  let ?r = "patch_item ''remove'' (joined_path pt (Some (show_nat i))) None"
  have "cstring ''remove'' = ''remove''" by (simp add: cstring_def)
  then obtain h2 us2 where h2: "compose_patch h1 (Some p) (Const ''remove'') path (Block c 0) None = Some h2"
    "records h1 p us [] [c] [?r] h2 us2" "texts h2 c = Some j1"
    using compose_step [OF h1(3,6), of None "''remove''"] h1(7) by auto
  have "distinct (all_addrs xs)" using Cons.prems(1) by (simp add: ready_def)
  note rd2 = ready_step [OF h1(3) h2(2) subset_refl this]
  have rd: "ready h2 b p us2 [c] path pt xs"
    "\<forall>x \<in> set xs. value_at h2 x = value_at h1 x \<and> (\<forall>a \<in> set (addrs x). nodes h2 a = nodes h1 a)" using rd2 h2(3) by simp_all
  have s: "s \<in> set xs" "set ss \<subseteq> set xs" using Cons.prems(2) by simp_all
  then have n2: "nodes h2 (top s) = Some m" using rd(2) m(2) h1(5) top_addrs by metis
  have "chain (nodes h2) (nnext m) (map top ss)" using chain_step(1) [of xs h2 h1 ss] rd(2) s(2) m(3) h1(5) by simp
  from Cons.IH [OF rd(1) s(2) h2(3) _ this] h1(8) Cons.prems(4) i obtain h' us' where
    h': "patch_removed (Some p) path (Block c 0) i (nnext m) h2 = Some (True, h')" "records h2 p us2 [] [c] (map (\<lambda>_. ?r) ss) h' us'"
      "ready h' b p us' [c] path pt xs" "texts h' c \<noteq> None"
      "\<forall>x \<in> set xs. value_at h' x = value_at h2 x \<and> (\<forall>a \<in> set (addrs x). nodes h' a = nodes h2 a)" by auto
  have "records h p us [] [c] ([] @ [?r] @ map (\<lambda>_. ?r) ss) h' us'"
    using records_trans [OF h1(2) records_trans [OF h2(2) h'(2) ready_bounded [OF h1(3)]] ready_bounded [OF Cons.prems(1)]] .
  moreover have "patch_removed (Some p) path (Block c 0) i q h = Some (True, h')"
    using m(1) i h1(1) h2(1) n2 h'(1) by (subst patch_removed.simps) (simp add: node_at_def del: bind_Some_iff)
  moreover have "\<forall>x \<in> set xs. value_at h' x = value_at h x \<and> (\<forall>a \<in> set (addrs x). nodes h' a = nodes h a)"
    using h'(5) rd(2) h1(4,5) by simp
  ultimately show ?case using h'(3,4) by auto
qed

lemma patch_added_ok:
  "ready h b p us [c] path pt xs \<Longrightarrow> set ts \<subseteq> set xs \<Longrightarrow> chain (nodes h) q (map top ts) \<Longrightarrow>
   \<exists>h' us'. patch_added (Some p) path q h = Some h' \<and>
     records h p us [] [c] (map (\<lambda>d. patch_item ''add'' (joined_path pt (Some ''-'')) (Some d)) (map (value_at h) ts)) h' us' \<and>
     texts h' c = texts h c \<and>
     (\<forall>x \<in> set xs. value_at h' x = value_at h x \<and> (\<forall>a \<in> set (addrs x). nodes h' a = nodes h a))"
proof (induction ts arbitrary: h us q)
  case Nil
  have "ready h b p us [c] path pt []" using Nil.prems(1) by (simp add: ready_def)
  from records_idle [OF this] show ?case using Nil.prems by (subst patch_added.simps) auto
next
  case (Cons t ts)
  obtain n where n: "q = Some (top t)" "nodes h (top t) = Some n" "chain (nodes h) (nnext n) (map top ts)" using Cons.prems(3) by auto
  have t: "t \<in> set xs" "set ts \<subseteq> set xs" using Cons.prems(2) by simp_all
  then have "\<forall>x \<in> set (opt_list (Some t)). views h x \<and> plain (value_at h x)" using Cons.prems(1) by (simp add: ready_def tree_ready_def)
  let ?r = "\<lambda>d. patch_item ''add'' (joined_path pt (Some ''-'')) (Some d)"
  have "cstring ''add'' = ''add''" "text_at h (Const ''-'') = Some (Some ''-'')" by (simp_all add: cstring_def text_at_def)
  then obtain h2 us2 where h2: "compose_patch h (Some p) (Const ''add'') path (Const ''-'') (Some (top t)) = Some h2"
    "records h p us [] [c] [?r (value_at h t)] h2 us2" "texts h2 c = texts h c"
    using compose_step [OF Cons.prems(1) _ \<open>\<forall>x \<in> set (opt_list (Some t)). _ x\<close>, of "Const ''-''" "Some ''-''" "''add''"] by auto
  have "distinct (all_addrs xs)" "texts h c \<noteq> None" using Cons.prems(1) by (simp_all add: ready_def)
  then have rd: "ready h2 b p us2 [c] path pt xs"
    "\<forall>x \<in> set xs. value_at h2 x = value_at h x \<and> (\<forall>a \<in> set (addrs x). nodes h2 a = nodes h a)"
    using ready_step [OF Cons.prems(1) h2(2) subset_refl] h2(3) by simp_all
  then have n2: "nodes h2 (top t) = Some n" using n(2) t(1) top_addrs by metis
  have ch: "chain (nodes h2) (nnext n) (map top ts)" "map (value_at h2) ts = map (value_at h) ts"
    using chain_step [of xs h2 h ts] rd(2) t(2) n(3) by simp_all
  from Cons.IH [OF rd(1) t(2) ch(1)] obtain h' us' where
    h': "patch_added (Some p) path (nnext n) h2 = Some h'" "records h2 p us2 [] [c] (map ?r (map (value_at h2) ts)) h' us'"
      "texts h' c = texts h2 c"
      "\<forall>x \<in> set xs. value_at h' x = value_at h2 x \<and> (\<forall>a \<in> set (addrs x). nodes h' a = nodes h2 a)" by blast
  have "records h p us [] [c] ([?r (value_at h t)] @ map ?r (map (value_at h2) ts)) h' us'"
    by (rule records_trans [OF h2(2) h'(2) ready_bounded [OF Cons.prems(1)]])
  moreover have "patch_added (Some p) path q h = Some h'"
    using n(1) h2(1) n2 h'(1) by (subst patch_added.simps) (simp add: node_at_def del: bind_Some_iff)
  ultimately show ?case using ch(2) h'(3,4) h2(3) rd(2) by auto
qed

lemma patch_arrays_ok:
  assumes IH: "\<And>h us path pt s t. s \<in> set ss \<Longrightarrow> ready h b p us [] path pt [s, t] \<Longrightarrow> generates create b h p us path pt s t"
    and rd: "ready h b p us [] path pt (ss @ ts)" and ch: "chain (nodes h) q (map top ss)" "chain (nodes h) r (map top ts)"
    and len: "length ss \<le> ULONG_MAX"
  shows "\<exists>h' us'. patch_arrays create h (Some p) path q r = Some h' \<and>
    records h p us (all_addrs (ss @ ts)) [] (indexed (\<lambda>i. patches_between b (joined_path pt (Some (show_nat i)))) 0
      (map (value_at h) ss) (map (value_at h) ts) @ array_rest pt (map (value_at h) ss) (map (value_at h) ts)) h' us'"
proof -
  have bd: "bounded h" and al: "\<forall>i. may_alloc (hmem h) i" and o: "object_at h p us []" and pt: "chars_at h path = Some pt"
    using rd by (simp_all add: ready_def object_at_def chars_at_def)
  let ?c = "brk h" and ?S = "all_addrs (ss @ ts)" and ?vs = "map (value_at h) ss" and ?ws = "map (value_at h) ts"
  obtain h1 j where h1: "malloc_text h (length pt + 22) = (Block ?c 0, h1)" "grew h h1 [] [?c]" "nodes h1 = nodes h"
    "length j = length pt + 22" "texts h1 = (texts h)(?c \<mapsto> j)" using malloc_text_ok [OF bd al, of "length pt + 22"] by blast
  note g = ready_grow [OF rd h1(2)]
  have v1: "map (value_at h1) ss = ?vs" "map (value_at h1) ts = ?ws" using g(2) by simp_all
  have "texts h1 ?c = Some j" "0 + length ss \<le> ULONG_MAX" using h1(5) len by simp_all
  from patch_common_ok [OF IH subset_refl g(1) this(1) h1(4) _ _ this(2), of q r] ch h1(3) v1
  obtain q2 r2 h2 us2 j2 where
    h2: "patch_common create path (Block ?c 0) 0 q r h1 = Some (True, q2, r2, min (length ss) (length ts), h2)"
      "records h1 p us ?S [?c] (indexed (\<lambda>i. patches_between b (joined_path pt (Some (show_nat i)))) 0 ?vs ?ws) h2 us2"
      "ready h2 b p us2 [?c] path pt (drop (length ts) ss @ drop (length ss) ts)" "texts h2 ?c = Some j2" "length j2 = length pt + 22"
      "chain (nodes h2) q2 (map top (drop (length ts) ss))" "chain (nodes h2) r2 (map top (drop (length ss) ts))"
      "map (value_at h2) (drop (length ts) ss) = map (value_at h1) (drop (length ts) ss)"
      "map (value_at h2) (drop (length ss) ts) = map (value_at h1) (drop (length ss) ts)" by auto
  let ?i = "min (length ss) (length ts)"
  have i: "drop (length ts) ss \<noteq> [] \<Longrightarrow> ?i \<le> ULONG_MAX" using len by simp
  have idx: "map (\<lambda>_. patch_item ''remove'' (joined_path pt (Some (show_nat ?i))) None) (drop (length ts) ss) =
    map (\<lambda>_. patch_item ''remove'' (joined_path pt (Some (show_nat (length ts)))) None) (drop (length ts) ?vs)"
    by (cases "length ss \<le> length ts") (auto simp: drop_map min_def)
  from patch_removed_ok [OF h2(3) _ h2(4,5,6) i] obtain h3 us3 where
    h3: "patch_removed (Some p) path (Block ?c 0) ?i q2 h2 = Some (True, h3)"
      "records h2 p us2 [] [?c] (map (\<lambda>_. patch_item ''remove'' (joined_path pt (Some (show_nat ?i))) None) (drop (length ts) ss)) h3 us3"
      "ready h3 b p us3 [?c] path pt (drop (length ts) ss @ drop (length ss) ts)" "texts h3 ?c \<noteq> None"
      "\<forall>x \<in> set (drop (length ts) ss @ drop (length ss) ts). value_at h3 x = value_at h2 x \<and> (\<forall>a \<in> set (addrs x). nodes h3 a = nodes h2 a)"
    by auto
  have c3: "chain (nodes h3) r2 (map top (drop (length ss) ts))" "map (value_at h3) (drop (length ss) ts) = drop (length ss) ?ws"
    using chain_step [of "drop (length ts) ss @ drop (length ss) ts" h3 h2 "drop (length ss) ts"] h3(5) h2(7,9) v1(2)
    by (auto simp: drop_map dest: in_set_dropD)
  let ?r = "\<lambda>d. patch_item ''add'' (joined_path pt (Some ''-'')) (Some d)"
  from patch_added_ok [OF h3(3) _ c3(1)] obtain h4 us4 where
    h4: "patch_added (Some p) path r2 h3 = Some h4" "records h3 p us3 [] [?c] (map ?r (drop (length ss) ?ws)) h4 us4"
      "texts h4 ?c = texts h3 ?c" unfolding c3(2) by auto
  have "records h1 p us ?S [?c] (indexed (\<lambda>i. patches_between b (joined_path pt (Some (show_nat i)))) 0 ?vs ?ws @
      map (\<lambda>_. patch_item ''remove'' (joined_path pt (Some (show_nat ?i))) None) (drop (length ts) ss) @ map ?r (drop (length ss) ?ws)) h4 us4"
    by (rule records_trans [OF h2(2) records_trans [OF records_more [OF h3(2)] records_more [OF h4(2)] ready_bounded [OF h2(3)]]
      ready_bounded [OF g(1)]]) simp_all
  then have r4: "records h1 p us ?S [?c] (indexed (\<lambda>i. patches_between b (joined_path pt (Some (show_nat i)))) 0 ?vs ?ws @
      array_rest pt ?vs ?ws) h4 us4" unfolding idx by (simp add: array_rest_def)
  have "texts h4 ?c \<noteq> None" using h4(3) h3(4) by simp
  from records_free [OF o h1(2) r4 this] obtain h5 where
    h5: "free_text h4 (Block ?c 0) = Some h5" "records h p us ?S [] (indexed (\<lambda>i. patches_between b (joined_path pt (Some (show_nat i)))) 0 ?vs ?ws @
      array_rest pt ?vs ?ws) h5 us4" by blast
  have "malloc_text h (22 + length pt) = (Block ?c 0, h1)" using h1(1) by (simp only: add.commute)
  then have "patch_arrays create h (Some p) path q r = Some h5"
    using pt h2(1) h3(1) h4(1) h5(1) by (simp add: patch_arrays_def del: bind_Some_iff)
  then show ?thesis using h5(2) by blast
qed

end
