(* ===== verification/Object_Patches.thy ===== *)
theory Object_Patches
  imports Generating
begin

text \<open>
  The generation of patches between objects (\<open>json/cJSON_Utils.c\<close>): both objects are sorted by the names of
  their members and then walked together.  With it, the whole generation computes the list of patches
  between the values.
\<close>

section \<open>Sorted members\<close>

lemma mset_map_split:
  "mset bs = mset (map f xs) \<Longrightarrow> \<exists>ys. bs = map f ys \<and> mset ys = mset xs"
proof (induction bs arbitrary: xs)
  case (Cons c bs)
  have "c \<in> set (map f xs)" using Cons.prems by (metis list.set_intros(1) set_mset_mset)
  then obtain x where x: "x \<in> set xs" "f x = c" by auto
  have "mset xs = add_mset x (mset (remove1 x xs))" using x(1) by simp
  then have "mset (map f xs) = add_mset c (mset (map f (remove1 x xs)))" using x(2) by (metis image_mset_add_mset mset_map)
  then have "mset bs = mset (map f (remove1 x xs))" using Cons.prems by simp
  from Cons.IH [OF this] obtain ys where "bs = map f ys" "mset ys = mset (remove1 x xs)" by blast
  then show ?case using x by (intro exI [of _ "x # ys"]) simp
qed simp

lemma mset_all_addrs: "mset (all_addrs xs) = \<Sum>\<^sub># (image_mset (\<lambda>x. mset (addrs x)) (mset xs))"
  by (induction xs) simp_all

lemma ready_perm:
  assumes "ready h b p us C path pt xs" "mset ys = mset xs" shows "ready h b p us C path pt ys"
proof -
  have "mset (all_addrs ys) = mset (all_addrs xs)" unfolding mset_all_addrs using assms(2) by simp
  moreover have "distinct (all_addrs xs)" using assms(1) by (simp add: ready_def)
  ultimately have "distinct (all_addrs ys)" using mset_eq_imp_distinct_iff by blast
  moreover have "set ys = set xs" using assms(2) by (metis set_mset_mset)
  ultimately show ?thesis using assms(1) by (simp add: ready_def)
qed

text \<open>Sorting one of the objects.\<close>

lemma tree_root:
  "tree_ready h b (Shape a ss) \<Longrightarrow> \<exists>n. nodes h a = Some n \<and> kids h a (map top ss) \<and> chain (nodes h) (nchild n) (map top ss) \<and>
     ntype n = item_type (value_at h (Shape a ss)) \<and> (\<forall>x \<in> set ss. tree_ready h b x)"
  by (auto simp: tree_ready_def)

lemma comparable_members:
  "comparable b v \<Longrightarrow> kind v = cJSON_Object \<Longrightarrow> None \<notin> set (map item_string (children v)) \<and> distinct (map (name_rank b) (children v))"
  by (cases v) (simp add: kind_def)

lemma children_at: "nodes h a = Some n \<Longrightarrow> children (value_at h (Shape a ss)) = map (value_at h) ss"
  by simp

lemma sort_values:
  assumes x: "tree_ready h b (Shape a ss)" "kind (value_at h (Shape a ss)) = cJSON_Object" and bd: "bounded h"
    and d: "distinct (addrs (Shape a ss))"
  shows "\<exists>h' ss' n'. sort_object h (Some a) b = Some h' \<and> mset ss' = mset ss \<and>
    map (value_at h) ss' = by_name b (map (value_at h) ss) \<and> relinked a (set (map top ss)) h h' \<and>
    nodes h' a = Some n' \<and> chain (nodes h') (nchild n') (map top ss')"
proof -
  obtain n where n: "nodes h a = Some n" "kids h a (map top ss)" "\<forall>x \<in> set ss. tree_ready h b x" using tree_root [OF x(1)] by blast
  have mem: "None \<notin> set (map item_string (map (value_at h) ss))" "distinct (map (name_rank b) (map (value_at h) ss))"
    using comparable_members [of b "value_at h (Shape a ss)"] x unfolding children_at [OF n(1)] tree_ready_def by blast+
  have key: "key_of h (top x) = item_string (value_at h x) \<and> named h (top x)" if "x \<in> set ss" for x
    using views_item_string n(3) that by (simp add: tree_ready_def)
  have "item_string (value_at h x) \<noteq> None" if "x \<in> set ss" for x using mem(1) that by (force simp del: not_None_eq)
  then have "keyed h (map top ss)" using key by (simp add: keyed_def del: not_None_eq)
  from sort_object_relinks [OF n(2) this bd, of b] obtain h' bs n' where h': "sort_object h (Some a) b = Some h'"
    "mset bs = mset (map top ss)" "sorted (map (rank h b) bs)" "relinked a (set (map top ss)) h h'" "nodes h' a = Some n'"
    "chain (nodes h') (nchild n') bs" by blast
  obtain ss' where ss': "bs = map top ss'" "mset ss' = mset ss" using mset_map_split [OF h'(2)] by blast
  have s: "set ss' = set ss" using ss'(2) by (metis set_mset_mset)
  have "map (rank h b) bs = map (name_rank b) (map (value_at h) ss')" using key s ss'(1) by (simp add: rank_def name_rank_def)
  then have "sorted (map (name_rank b) (map (value_at h) ss'))" using h'(3) by simp
  moreover have "mset (map (value_at h) ss) = mset (map (value_at h) ss')" using ss'(2) by simp
  moreover have "inj_on (name_rank b) (set (map (value_at h) ss))" using mem(2) by (simp only: distinct_map)
  ultimately have "by_name b (map (value_at h) ss) = map (value_at h) ss'" unfolding by_name_def using sort_key_inj_key_eq by blast
  then show ?thesis using h' ss' by (intro exI [of _ h'] exI [of _ ss'] exI [of _ n']) simp
qed

lemma relinked_tree:
  assumes r: "relinked a (set (map top ss)) h h'" and x: "tree_ready h b x" "x \<in> set ss" and d: "distinct (addrs (Shape a ss))"
  shows "tree_ready h' b x \<and> value_at h' x = value_at h x \<and> blocks_at h' x = blocks_at h x"
proof -
  have tx: "texts h' = texts h" using relinked_part [OF r] by simp
  obtain us vs where ss: "ss = us @ x # vs" using x(2) by (meson split_list)
  have dj: "set (addrs x) \<inter> (set (all_addrs us) \<union> set (all_addrs vs)) = {}" using d ss by auto
  have sub: "nodes h' y = nodes h y" if "y \<in> set (all_addrs (subs x))" for y
  proof -
    have "y \<in> set (addrs x)" "y \<noteq> top x" using that d ss by (cases x; auto)+
    moreover have "y \<noteq> top u" if "u \<in> set us \<union> set vs" for u using dj \<open>y \<in> set (addrs x)\<close> that top_in_addrs by blast
    moreover have "y \<noteq> a" using d ss \<open>y \<in> set (addrs x)\<close> by auto
    ultimately have "y \<notin> insert a (set (map top ss))" using ss by auto
    then show ?thesis using r by (simp add: relinked_def)
  qed
  have "map_option content_of (nodes h' (top x)) = map_option content_of (nodes h (top x))" using r x(2) by (simp add: relinked_def)
  then have "same_tree h h' x" using sub tx by (simp add: same_tree_def)
  from frame_tree [OF this] show ?thesis using x(1) by (simp add: tree_ready_def)
qed

lemma sort_step:
  assumes r: "ready h b p us [] path pt (xs @ [Shape a ss])" and k: "kind (value_at h (Shape a ss)) = cJSON_Object"
  shows "\<exists>h' ss' n'. sort_object h (Some a) b = Some h' \<and> records h p us (addrs (Shape a ss)) [] [] h' us \<and>
    ready h' b p us [] path pt (xs @ ss') \<and> mset ss' = mset ss \<and> map (value_at h') ss' = by_name b (map (value_at h) ss) \<and>
    (\<forall>x \<in> set xs. value_at h' x = value_at h x \<and> (\<forall>y \<in> set (addrs x). nodes h' y = nodes h y)) \<and>
    nodes h' a = Some n' \<and> chain (nodes h') (nchild n') (map top ss') \<and> same_root h h' a"
proof -
  let ?s = "Shape a ss"
  have bd: "bounded h" by (rule ready_bounded [OF r])
  have s: "tree_ready h b ?s" "apart h ?s (p # all_addrs us) (all_blocks h us)" and d: "distinct (all_addrs (xs @ [?s]))"
    and o: "object_at h p us []" using r by (simp_all add: ready_def)
  have ds: "distinct (addrs ?s)" using d by simp
  obtain h' ss' n' where h': "sort_object h (Some a) b = Some h'" "mset ss' = mset ss" "map (value_at h) ss' = by_name b (map (value_at h) ss)"
    "relinked a (set (map top ss)) h h'" "nodes h' a = Some n'" "chain (nodes h') (nchild n') (map top ss')"
    using sort_values [OF s(1) k bd ds] by blast
  obtain n where n: "\<forall>x \<in> set ss. tree_ready h b x" using tree_root [OF s(1)] by blast
  have sub: "insert a (set (map top ss)) \<subseteq> set (addrs ?s)" using tops_addrs by auto
  have "\<forall>y \<in> insert a (set (map top ss)). nodes h y \<noteq> None" using views_dom [of h ?s] s(1) sub unfolding tree_ready_def by blast
  then have be: "becomes h h' (addrs ?s) [] (addrs ?s) []" by (rule becomes_relinked [OF h'(4) bd sub])
  have "set (addrs ?s) \<inter> set (p # all_addrs us) = {}" using s(2) by (simp only: apart_def)
  from records_beside [OF o be this] have rc: "records h p us (addrs ?s) [] [] h' us" by simp
  have x: "set xs \<subseteq> set (xs @ [?s])" "distinct (all_addrs xs)" "set (addrs ?s) \<inter> set (all_addrs xs) = {}" using d by auto
  note rd = ready_step [OF r rc x]
  have ss: "tree_ready h' b y \<and> value_at h' y = value_at h y \<and> apart h' y (p # all_addrs us) (all_blocks h' us)" if "y \<in> set ss" for y
  proof -
    have "apart h y (p # all_addrs us) (all_blocks h us)" using s(2) that n by (fastforce simp: apart_def)
    moreover have "all_blocks h' us = all_blocks h us" using object_beside [OF o be \<open>_ \<inter> set (p # all_addrs us) = {}\<close>] by simp
    moreover have "tree_ready h b y" using n that by blast
    from relinked_tree [OF h'(4) this that ds] have "tree_ready h' b y \<and> value_at h' y = value_at h y \<and> blocks_at h' y = blocks_at h y" .
    ultimately show ?thesis by (simp add: apart_def)
  qed
  have "distinct (all_addrs (xs @ ss))" using d by auto
  then have "ready h' b p us [] path pt (xs @ ss)" using rd(1) ss unfolding ready_def by auto
  then have "ready h' b p us [] path pt (xs @ ss')" by (rule ready_perm) (use h'(2) in simp)
  moreover have "set ss' = set ss" using h'(2) by (metis set_mset_mset)
  then have "map (value_at h') ss' = by_name b (map (value_at h) ss)" using h'(3) ss by (metis (no_types, lifting) map_cong)
  moreover have "same_root h h' a" using h'(4) by (simp add: relinked_def same_root_def)
  ultimately show ?thesis using h'(1,2,5,6) rc rd(2) by auto
qed

section \<open>The walk through the members\<close>

lemma compare_strings_0: "nulfree s \<Longrightarrow> nulfree t \<Longrightarrow> compare_strings (Some s) (Some t) b = 0 \<longleftrightarrow> rank_of b s = rank_of b t"
proof -
  assume nf: "nulfree s" "nulfree t"
  have i: "inj ord" by (rule injI) (simp add: ord_inj)
  have o: "map (\<lambda>c. ord (f c)) s = map (\<lambda>c. ord (f c)) t \<longleftrightarrow> map f s = map f t" for f :: "char \<Rightarrow> char"
    using inj_map_eq_map [OF i, of "map f s" "map f t"] by (simp add: comp_def)
  show ?thesis using nf compare_by_0 [of id s t] compare_by_0 [of tolower s t] o [of id] o [of tolower]
    by (simp add: compare_strings_def strcmp_def rank_of_def)
qed

text \<open>A block for the path of two members of the same name.\<close>

lemma member_path:
  assumes IH: "\<And>h us path pt s t. s \<in> set ss0 \<Longrightarrow> ready h b p us [] path pt [s, t] \<Longrightarrow> generates create b h p us path pt s t"
    and s: "s \<in> set ss0" and rd: "ready h b p us [] path pt xs" and xs: "s \<in> set xs" "t \<in> set xs" "distinct (addrs s @ addrs t)"
    and k: "item_string (value_at h s) = Some k" "nulfree k"
  shows "\<exists>h1 h2 h3 h4 h5 us'. malloc_text h (length pt + pointer_encoded_length k + 2) = (Block (brk h) 0, h1) \<and>
    write_text h1 (Block (brk h) 0) (pt @ ''/'' @ [NUL]) = Some h2 \<and>
    encode_string_as_pointer h2 (advance (Block (brk h) 0) (length pt + 1)) k = Some h3 \<and>
    create h3 (Block (brk h) 0) (Some (top s)) (Some (top t)) = Some h4 \<and> free_text h4 (Block (brk h) 0) = Some h5 \<and>
    records h p us (addrs s @ addrs t) [] (patches_between b (joined_path pt (Some k)) (value_at h s) (value_at h t)) h5 us' \<and>
    same_root h h5 (top s) \<and> same_root h h5 (top t)"
proof -
  have bd: "bounded h" and al: "\<forall>i. may_alloc (hmem h) i" and o: "object_at h p us []" and pt: "text_at h path = Some (Some pt)"
    using rd by (simp_all add: ready_def object_at_def)
  let ?c = "brk h" and ?path = "joined_path pt (Some k)"
  have "nulfree pt" by (rule text_at_nulfree [OF pt])
  from build_path [OF bd al this k(2)] obtain h1 h2 h3 where
    h3: "malloc_text h (length pt + pointer_encoded_length k + 2) = (Block ?c 0, h1)"
      "write_text h1 (Block ?c 0) (pt @ ''/'' @ [NUL]) = Some h2" "encode_string_as_pointer h2 (advance (Block ?c 0) (length pt + 1)) k = Some h3"
      "grew h h3 [] [?c]" "text_at h3 (Block ?c 0) = Some (Some ?path)" by (auto simp: joined_path_def)
  note g = ready_grow [OF rd h3(4)]
  have "ready h3 b p us [] (Block ?c 0) ?path [s, t]" by (rule ready_sub [OF g(1) h3(5)]) (use xs in auto)
  from IH [OF s this] obtain h4 us4 where h4: "create h3 (Block ?c 0) (Some (top s)) (Some (top t)) = Some h4"
    "records h3 p us (addrs s @ addrs t) [] (patches_between b ?path (value_at h s) (value_at h t)) h4 us4"
    "same_root h3 h4 (top s)" "same_root h3 h4 (top t)" using g(2) xs by (auto simp: generates_def)
  have C: "set [?c] \<inter> set (all_blocks h3 us) = {}" "\<forall>x \<in> set [?c]. texts h3 x \<noteq> None" using g(1) by (simp_all add: ready_def)
  from records_block [OF h4(2) ready_bounded [OF g(1)] C] have r4:
    "records h3 p us (addrs s @ addrs t) [?c] (patches_between b ?path (value_at h s) (value_at h t)) h4 us4" "texts h4 ?c \<noteq> None"
    using C(2) by auto
  from records_free [OF o h3(4) r4] obtain h5 where h5: "free_text h4 (Block ?c 0) = Some h5"
    "records h p us (addrs s @ addrs t) [] (patches_between b ?path (value_at h s) (value_at h t)) h5 us4" "nodes h5 = nodes h4" by blast
  have "same_root h h5 (top s)" "same_root h h5 (top t)" using h4(3,4) h5(3) g(3) by (simp_all add: same_root_def)
  then show ?thesis using h3(1-3) h4(1) h5(1,2) by blast
qed

lemma paired_first:
  "ts = [] \<or> r s < r (hd ts) \<Longrightarrow> paired r (s # ss) ts = (Some s, None) # paired r ss ts"
  "ss = [] \<or> r t < r (hd ss) \<Longrightarrow> paired r ss (t # ts) = (None, Some t) # paired r ss ts"
  by (cases ts; auto) (cases ss; cases ts; auto)

text \<open>The comparison that chooses the case.\<close>

definition members_diff :: "bool \<Rightarrow> heap \<Rightarrow> ptr \<Rightarrow> ptr \<Rightarrow> int option" where
  "members_diff b h q r = (if q = None then Some 1 else if r = None then Some (- 1)
     else do {
       m \<leftarrow> node_at h q;
       n \<leftarrow> node_at h r;
       s \<leftarrow> text_at h (nstring m);
       t \<leftarrow> text_at h (nstring n);
       Some (compare_strings s t b) })"

definition with_names :: "heap \<Rightarrow> shape list \<Rightarrow> bool" where
  "with_names h xs \<longleftrightarrow> (\<forall>x \<in> set xs. views h x \<and> item_string (value_at h x) \<noteq> None)"

lemma name_node:
  assumes "views h x" "item_string (value_at h x) \<noteq> None" "nodes h (top x) = Some n"
  shows "\<exists>k. item_string (value_at h x) = Some k \<and> text_at h (nstring n) = Some (Some k) \<and> nulfree k \<and> name_rank b (value_at h x) = rank_of b k"
proof -
  obtain k where k: "item_string (value_at h x) = Some k" using assms(2) by blast
  then have "text_at h (nstring n) = Some (Some k)" using views_root [OF assms(1)] assms(3) by auto
  then show ?thesis using k text_at_nulfree by (auto simp: name_rank_def)
qed

lemma members_diff_cases:
  assumes ch: "chain (nodes h) q (map top ss)" "chain (nodes h) r (map top ts)" and nm: "with_names h (ss @ ts)" and ne: "ss \<noteq> [] \<or> ts \<noteq> []"
  obtains (remove) s ss' where "ss = s # ss'" "ts = [] \<or> name_rank b (value_at h s) < name_rank b (value_at h (hd ts))"
      "\<exists>d < 0. members_diff b h q r = Some d"
    | (add) t ts' where "ts = t # ts'" "ss = [] \<or> name_rank b (value_at h t) < name_rank b (value_at h (hd ss))"
      "\<exists>d > 0. members_diff b h q r = Some d"
    | (both) s ss' t ts' where "ss = s # ss'" "ts = t # ts'" "name_rank b (value_at h s) = name_rank b (value_at h t)"
      "members_diff b h q r = Some 0"
proof (cases "ss = [] \<or> ts = []")
  case True
  then consider s ss' where "ss = s # ss'" "ts = []" | t ts' where "ts = t # ts'" "ss = []" using ne by (metis neq_Nil_conv)
  then show thesis
  proof cases
    case (1 s ss')
    then have "members_diff b h q r = Some (- 1)" using ch by (auto simp: members_diff_def)
    then show thesis using remove 1 by (metis neg_less_0_iff_less zero_less_one)
  next
    case (2 t ts')
    then have "members_diff b h q r = Some 1" using ch by (auto simp: members_diff_def)
    then show thesis using add 2 zero_less_one by metis
  qed
next
  case False
  then obtain s ss' t ts' where st: "ss = s # ss'" "ts = t # ts'" by (meson neq_Nil_conv)
  obtain m n where mn: "q = Some (top s)" "nodes h (top s) = Some m" "r = Some (top t)" "nodes h (top t) = Some n" using ch st by auto
  have v: "views h s" "item_string (value_at h s) \<noteq> None" "views h t" "item_string (value_at h t) \<noteq> None"
    using nm st by (simp_all add: with_names_def del: not_None_eq)
  obtain k where k: "text_at h (nstring m) = Some (Some k)" "nulfree k" "name_rank b (value_at h s) = rank_of b k"
    using name_node [OF v(1,2) mn(2)] by blast
  obtain l where l: "text_at h (nstring n) = Some (Some l)" "nulfree l" "name_rank b (value_at h t) = rank_of b l"
    using name_node [OF v(3,4) mn(4)] by blast
  let ?d = "compare_strings (Some k) (Some l) b"
  have d: "members_diff b h q r = Some ?d" using mn k(1) l(1) by (simp add: members_diff_def node_at_def)
  consider "?d < 0" | "?d = 0" | "0 < ?d" by linarith
  then show thesis
  proof cases
    case 1
    then have "rank_of b k < rank_of b l" using compare_strings_less k(2) l(2) by blast
    then show thesis using remove st d 1 k(3) l(3) by (metis list.sel(1))
  next
    case 2
    then have "rank_of b k = rank_of b l" using compare_strings_0 k(2) l(2) by blast
    then show thesis using both st d 2 k(3) l(3) by metis
  next
    case 3
    then have "\<not> rank_of b k < rank_of b l" "rank_of b k \<noteq> rank_of b l"
      using compare_strings_less [OF k(2) l(2), of b] compare_strings_0 [OF k(2) l(2), of b] by simp_all
    then have "rank_of b l < rank_of b k" by simp
    then show thesis using add st d 3 k(3) l(3) by (metis list.sel(1))
  qed
qed

text \<open>One round of the loop, then the loop.\<close>

definition member_round ::
    "(heap \<Rightarrow> text_ptr \<Rightarrow> ptr \<Rightarrow> ptr \<Rightarrow> heap option) \<Rightarrow> ptr \<Rightarrow> text_ptr \<Rightarrow> int \<Rightarrow> ptr \<Rightarrow> ptr \<Rightarrow> heap \<Rightarrow> (ptr \<times> ptr \<times> heap) option" where
  "member_round create patches path diff from_child to_child h =
     (if diff = 0 then do {
        m \<leftarrow> node_at h from_child;
        p \<leftarrow> chars_at h path;
        name \<leftarrow> chars_at h (nstring m);
        let (new_path, h) = malloc_text h (length p + pointer_encoded_length name + 2);
        h \<leftarrow> write_text h new_path (p @ ''/'' @ [NUL]);
        h \<leftarrow> encode_string_as_pointer h (advance new_path (length p + 1)) name;
        h \<leftarrow> create h new_path from_child to_child;
        h \<leftarrow> free_text h new_path;
        m \<leftarrow> node_at h from_child;
        n \<leftarrow> node_at h to_child;
        Some (nnext m, nnext n, h) }
      else if diff < 0 then do {
        m \<leftarrow> node_at h from_child;
        h \<leftarrow> compose_patch h patches (Const ''remove'') path (nstring m) None;
        m \<leftarrow> node_at h from_child;
        Some (nnext m, to_child, h) }
      else do {
        n \<leftarrow> node_at h to_child;
        h \<leftarrow> compose_patch h patches (Const ''add'') path (nstring n) to_child;
        n \<leftarrow> node_at h to_child;
        Some (from_child, nnext n, h) })"

lemma patch_members_round:
  "patch_members create b patches path q r h = (if q = None \<and> r = None then Some h
     else do {
       d \<leftarrow> members_diff b h q r;
       (q, r, h) \<leftarrow> member_round create patches path d q r h;
       patch_members create b patches path q r h })"
  by (subst patch_members.simps) (simp add: members_diff_def member_round_def bind_assoc split_def Let_def if_distrib [of "\<lambda>x. Option.bind x _"]
    cong: if_cong del: bind_Some_iff)

definition members_patches :: "bool \<Rightarrow> string \<Rightarrow> cJSON list \<Rightarrow> cJSON list \<Rightarrow> cJSON list" where
  "members_patches b pt cs ds = concat (map (member_patches (patches_between b) pt) (paired (name_rank b) cs ds))"

text \<open>After a round some of the trees are left, and the patches of the rest are recorded.\<close>

definition after_round ::
    "bool \<Rightarrow> nat \<Rightarrow> text_ptr \<Rightarrow> string \<Rightarrow> heap \<Rightarrow> shape list \<Rightarrow> shape list \<Rightarrow> shape list \<Rightarrow> ptr \<Rightarrow> ptr \<Rightarrow> heap \<Rightarrow> bool" where
  "after_round b p path pt h us ss ts q r h' \<longleftrightarrow> (\<exists>us' ss' ts' vs. set ss' \<subseteq> set ss \<and> set ts' \<subseteq> set ts \<and>
     length (ss' @ ts') < length (ss @ ts) \<and> mset (all_addrs (ss' @ ts')) \<subseteq># mset (all_addrs (ss @ ts)) \<and>
     records h p us (all_addrs (ss @ ts)) [] vs h' us' \<and> ready h' b p us' [] path pt (ss' @ ts') \<and>
     map (value_at h') (ss' @ ts') = map (value_at h) (ss' @ ts') \<and>
     chain (nodes h') q (map top ss') \<and> chain (nodes h') r (map top ts') \<and>
     members_patches b pt (map (value_at h) ss) (map (value_at h) ts) =
       vs @ members_patches b pt (map (value_at h) ss') (map (value_at h) ts'))"

lemma after_roundI:
  assumes rd: "ready h b p us [] path pt (ss @ ts)" and r: "records h p us S [] vs h' us'" and S: "mset S \<subseteq># mset (all_addrs (ss @ ts))"
    and sub: "set ss' \<subseteq> set ss" "set ts' \<subseteq> set ts" "length (ss' @ ts') < length (ss @ ts)"
      "mset (all_addrs (ss' @ ts')) \<subseteq># mset (all_addrs (ss @ ts))" "set S \<inter> set (all_addrs (ss' @ ts')) = {}"
    and ch: "chain (nodes h) q (map top ss')" "chain (nodes h) r (map top ts')"
    and vs: "members_patches b pt (map (value_at h) ss) (map (value_at h) ts) =
      vs @ members_patches b pt (map (value_at h) ss') (map (value_at h) ts')"
  shows "after_round b p path pt h us ss ts q r h'"
proof -
  have "distinct (all_addrs (ss @ ts))" using rd by (simp add: ready_def)
  then have d: "distinct (all_addrs (ss' @ ts'))" using sub(4) by (metis distinct_append mset_append mset_eq_imp_distinct_iff mset_subset_eq_exists_conv ex_mset)
  have ys: "set (ss' @ ts') \<subseteq> set (ss @ ts)" using sub(1,2) by auto
  have st: "ready h' b p us' [] path pt (ss' @ ts')"
    "\<forall>y \<in> set (ss' @ ts'). value_at h' y = value_at h y \<and> (\<forall>a \<in> set (addrs y). nodes h' a = nodes h a)"
    using ready_step [OF rd r ys d sub(5)] by simp_all
  have "chain (nodes h') q (map top ss')" "chain (nodes h') r (map top ts')"
    using chain_step(1) [of "ss' @ ts'" h' h ss'] chain_step(1) [of "ss' @ ts'" h' h ts'] st(2) ch by auto
  moreover have "map (value_at h') (ss' @ ts') = map (value_at h) (ss' @ ts')" using st(2) by (intro map_cong) auto
  ultimately show ?thesis using records_more [OF r S] st(1) sub(1-4) vs unfolding after_round_def by blast
qed

lemma member_round_ok:
  assumes IH: "\<And>h us path pt s t. s \<in> set ss0 \<Longrightarrow> ready h b p us [] path pt [s, t] \<Longrightarrow> generates create b h p us path pt s t"
    and rd: "set ss \<subseteq> set ss0" "ready h b p us [] path pt (ss @ ts)" and ch: "chain (nodes h) q (map top ss)" "chain (nodes h) r (map top ts)"
    and nm: "with_names h (ss @ ts)" and ne: "ss \<noteq> [] \<or> ts \<noteq> []"
  shows "\<exists>d q' r' h'. members_diff b h q r = Some d \<and> member_round create (Some p) path d q r h = Some (q', r', h') \<and>
    after_round b p path pt h us ss ts q' r' h'"
proof (rule members_diff_cases [OF ch nm ne])
  fix s ss' assume s: "ss = s # ss'" "ts = [] \<or> name_rank b (value_at h s) < name_rank b (value_at h (hd ts))"
    "\<exists>d < 0. members_diff b h q r = Some d"
  obtain m where m: "q = Some (top s)" "nodes h (top s) = Some m" "chain (nodes h) (nnext m) (map top ss')" using ch(1) s(1) by auto
  have "views h s" "item_string (value_at h s) \<noteq> None" using nm s(1) by (simp_all add: with_names_def del: not_None_eq)
  from name_node [OF this m(2)] obtain k where k: "item_string (value_at h s) = Some k" "text_at h (nstring m) = Some (Some k)" by blast
  have "cstring ''remove'' = ''remove''" by (simp add: cstring_def)
  then obtain h' us' where h': "compose_patch h (Some p) (Const ''remove'') path (nstring m) None = Some h'"
    "records h p us [] [] [patch_item ''remove'' (joined_path pt (Some k)) None] h' us'"
    using compose_step [OF rd(2) k(2), where v = None and op = "''remove''"] by auto
  have fr: "value_at h' x = value_at h x \<and> (\<forall>a \<in> set (addrs x). nodes h' a = nodes h a)" if "x \<in> set (ss @ ts)" for x
    using ready_step(2) [OF rd(2) h'(2), of "ss @ ts"] rd(2) that by (simp add: ready_def)
  have m': "nodes h' (top s) = Some m" using fr [of s] s(1) m(2) top_addrs [of s] by simp
  have pr: "paired (name_rank b) (map (value_at h) ss) (map (value_at h) ts) =
      (Some (value_at h s), None) # paired (name_rank b) (map (value_at h) ss') (map (value_at h) ts)"
  proof -
    have "map (value_at h) ts = [] \<or> name_rank b (value_at h s) < name_rank b (hd (map (value_at h) ts))" using s(2) by (cases ts) auto
    then show ?thesis unfolding s(1) list.map(2) by (rule paired_first(1))
  qed
  obtain d where d: "d < 0" "members_diff b h q r = Some d" using s(3) by blast
  have "member_round create (Some p) path d q r h = Some (nnext m, r, h')"
    using m(1,2) m' h'(1) d(1) by (simp add: member_round_def node_at_def)
  moreover have eq: "members_patches b pt (map (value_at h) ss) (map (value_at h) ts) = [patch_item ''remove'' (joined_path pt (Some k)) None] @ members_patches b pt (map (value_at h) ss') (map (value_at h) ts)" using pr k(1) by (simp add: members_patches_def)
  have "after_round b p path pt h us ss ts (nnext m) r h'"
    by (rule after_roundI [OF rd(2) h'(2) _ _ _ _ _ _ m(3) ch(2) eq]) (use s(1) in auto)
  ultimately show ?thesis using d(2) by blast
next
  fix t ts' assume t: "ts = t # ts'" "ss = [] \<or> name_rank b (value_at h t) < name_rank b (value_at h (hd ss))"
    "\<exists>d > 0. members_diff b h q r = Some d"
  obtain n where n: "r = Some (top t)" "nodes h (top t) = Some n" "chain (nodes h) (nnext n) (map top ts')" using ch(2) t(1) by auto
  have v: "views h t" "item_string (value_at h t) \<noteq> None" using nm t(1) by (simp_all add: with_names_def del: not_None_eq)
  from name_node [OF this n(2)] obtain k where k: "item_string (value_at h t) = Some k" "text_at h (nstring n) = Some (Some k)" by blast
  have "plain (value_at h t)" using rd(2) t(1) by (simp add: ready_def tree_ready_def)
  then have vt: "\<forall>x \<in> set (opt_list (Some t)). views h x \<and> plain (value_at h x)" using v(1) by simp
  let ?v = "patch_item ''add'' (joined_path pt (Some k)) (Some (value_at h t))"
  have "cstring ''add'' = ''add''" by (simp add: cstring_def)
  then obtain h' us' where h': "compose_patch h (Some p) (Const ''add'') path (nstring n) (Some (top t)) = Some h'"
    "records h p us [] [] [?v] h' us'"
    using compose_step [OF rd(2) k(2) vt, where op = "''add''"] by auto
  have fr: "value_at h' x = value_at h x \<and> (\<forall>a \<in> set (addrs x). nodes h' a = nodes h a)" if "x \<in> set (ss @ ts)" for x
    using ready_step(2) [OF rd(2) h'(2), of "ss @ ts"] rd(2) that by (simp add: ready_def)
  have n': "nodes h' (top t) = Some n" using fr [of t] t(1) n(2) top_addrs [of t] by simp
  have pr: "paired (name_rank b) (map (value_at h) ss) (map (value_at h) ts) =
      (None, Some (value_at h t)) # paired (name_rank b) (map (value_at h) ss) (map (value_at h) ts')"
  proof -
    have "map (value_at h) ss = [] \<or> name_rank b (value_at h t) < name_rank b (hd (map (value_at h) ss))" using t(2) by (cases ss) auto
    then show ?thesis unfolding t(1) list.map(2) by (rule paired_first(2))
  qed
  obtain d where d: "0 < d" "members_diff b h q r = Some d" using t(3) by blast
  have "member_round create (Some p) path d q r h = Some (q, nnext n, h')"
    using n(1,2) n' h'(1) d(1) by (simp add: member_round_def node_at_def)
  moreover have eq: "members_patches b pt (map (value_at h) ss) (map (value_at h) ts) = [?v] @ members_patches b pt (map (value_at h) ss) (map (value_at h) ts')" using pr k(1) by (simp add: members_patches_def)
  have "after_round b p path pt h us ss ts q (nnext n) h'"
    by (rule after_roundI [OF rd(2) h'(2) _ _ _ _ _ _ ch(1) n(3) eq]) (use t(1) in auto)
  ultimately show ?thesis using d(2) by blast
next
  fix s ss' t ts' assume st: "ss = s # ss'" "ts = t # ts'" "name_rank b (value_at h s) = name_rank b (value_at h t)"
    "members_diff b h q r = Some 0"
  obtain m n where mn: "q = Some (top s)" "nodes h (top s) = Some m" "chain (nodes h) (nnext m) (map top ss')"
    "r = Some (top t)" "nodes h (top t) = Some n" "chain (nodes h) (nnext n) (map top ts')" using ch st(1,2) by auto
  have v: "views h s" "item_string (value_at h s) \<noteq> None" using nm st(1) by (simp_all add: with_names_def del: not_None_eq)
  from name_node [OF this mn(2)] obtain k where
    k: "item_string (value_at h s) = Some k" "text_at h (nstring m) = Some (Some k)" "nulfree k" by blast
  have d: "distinct (all_addrs (ss @ ts))" and pt: "chars_at h path = Some pt" using rd(2) by (simp_all add: ready_def chars_at_def)
  let ?vs = "patches_between b (joined_path pt (Some k)) (value_at h s) (value_at h t)"
  have "s \<in> set ss0" "s \<in> set (ss @ ts)" "t \<in> set (ss @ ts)" "distinct (addrs s @ addrs t)" using rd(1) st(1,2) d by auto
  from member_path [OF IH this(1) rd(2) this(2-4) k(1,3)] obtain h1 h2 h3 h4 h5 us' where
    h5: "malloc_text h (length pt + pointer_encoded_length k + 2) = (Block (brk h) 0, h1)"
      "write_text h1 (Block (brk h) 0) (pt @ ''/'' @ [NUL]) = Some h2"
      "encode_string_as_pointer h2 (advance (Block (brk h) 0) (length pt + 1)) k = Some h3"
      "create h3 (Block (brk h) 0) (Some (top s)) (Some (top t)) = Some h4" "free_text h4 (Block (brk h) 0) = Some h5"
      "records h p us (addrs s @ addrs t) [] ?vs h5 us'" "same_root h h5 (top s)" "same_root h h5 (top t)" by blast
  obtain m' n' where mn': "nodes h5 (top s) = Some m'" "nnext m' = nnext m" "nodes h5 (top t) = Some n'" "nnext n' = nnext n"
    using same_root_next [OF h5(7) mn(2)] same_root_next [OF h5(8) mn(5)] by blast
  have "chars_at h (nstring m) = Some k" using k(2) by (simp add: chars_at_def)
  then have "member_round create (Some p) path 0 q r h = Some (nnext m, nnext n, h5)"
    using mn(1,2,4) pt h5(1-5) mn' by (simp add: member_round_def node_at_def del: bind_Some_iff)
  moreover have eq: "members_patches b pt (map (value_at h) ss) (map (value_at h) ts) = ?vs @ members_patches b pt (map (value_at h) ss') (map (value_at h) ts')" using st(1-3) k(1) by (simp add: members_patches_def)
  have "after_round b p path pt h us ss ts (nnext m) (nnext n) h5"
    by (rule after_roundI [OF rd(2) h5(6) _ _ _ _ _ _ mn(3,6) eq]) (use st(1,2) d in auto)
  ultimately show ?thesis using st(4) by blast
qed

lemma patch_members_ok:
  assumes IH: "\<And>h us path pt s t. s \<in> set ss0 \<Longrightarrow> ready h b p us [] path pt [s, t] \<Longrightarrow> generates create b h p us path pt s t"
  shows "set ss \<subseteq> set ss0 \<Longrightarrow> ready h b p us [] path pt (ss @ ts) \<Longrightarrow> chain (nodes h) q (map top ss) \<Longrightarrow> chain (nodes h) r (map top ts) \<Longrightarrow>
    \<forall>x \<in> set (ss @ ts). item_string (value_at h x) \<noteq> None \<Longrightarrow>
    \<exists>h' us'. patch_members create b (Some p) path q r h = Some h' \<and> records h p us (all_addrs (ss @ ts)) []
      (members_patches b pt (map (value_at h) ss) (map (value_at h) ts)) h' us'"
proof (induction "length (ss @ ts)" arbitrary: ss ts h us q r rule: less_induct)
  case less
  note rd = less.prems(2)
  show ?case
  proof (cases "ss = [] \<and> ts = []")
    case True
    then have "patch_members create b (Some p) path q r h = Some h" using less.prems(3,4) by (simp add: patch_members_round)
    then show ?thesis using records_idle [OF rd] True by (auto simp: members_patches_def)
  next
    case False
    have "with_names h (ss @ ts)" using less.prems(5) rd by (simp add: with_names_def ready_def tree_ready_def del: not_None_eq)
    from member_round_ok [OF IH less.prems(1-4) this] False obtain d q' r' h1 where
      d: "members_diff b h q r = Some d" "member_round create (Some p) path d q r h = Some (q', r', h1)"
        "after_round b p path pt h us ss ts q' r' h1" by blast
    obtain us1 ss' ts' vs where h1: "set ss' \<subseteq> set ss" "set ts' \<subseteq> set ts" "length (ss' @ ts') < length (ss @ ts)"
      "mset (all_addrs (ss' @ ts')) \<subseteq># mset (all_addrs (ss @ ts))" "records h p us (all_addrs (ss @ ts)) [] vs h1 us1"
      "ready h1 b p us1 [] path pt (ss' @ ts')" "map (value_at h1) (ss' @ ts') = map (value_at h) (ss' @ ts')"
      "chain (nodes h1) q' (map top ss')" "chain (nodes h1) r' (map top ts')" "members_patches b pt (map (value_at h) ss) (map (value_at h) ts) = vs @ members_patches b pt (map (value_at h) ss') (map (value_at h) ts')"
      using d(3) unfolding after_round_def by blast
    have va: "\<forall>x \<in> set (ss' @ ts'). value_at h1 x = value_at h x" using h1(7) by (simp only: map_eq_conv)
    then have "\<forall>x \<in> set (ss' @ ts'). item_string (value_at h1 x) \<noteq> None" using less.prems(5) h1(1,2) by auto
    from less.hyps [OF h1(3) subset_trans [OF h1(1) less.prems(1)] h1(6,8,9) this] obtain h2 us2 where
      h2: "patch_members create b (Some p) path q' r' h1 = Some h2" "records h1 p us1 (all_addrs (ss' @ ts')) [] (members_patches b pt (map (value_at h1) ss') (map (value_at h1) ts')) h2 us2"
      by blast
    have "map (value_at h1) ss' = map (value_at h) ss'" "map (value_at h1) ts' = map (value_at h) ts'" using va by simp_all
    then have "records h p us (all_addrs (ss @ ts)) [] (members_patches b pt (map (value_at h) ss) (map (value_at h) ts)) h2 us2"
      using records_trans [OF h1(5) records_more [OF h2(2) h1(4)] ready_bounded [OF rd]] h1(10) by (simp only:)
    moreover have "q \<noteq> None \<or> r \<noteq> None" using False less.prems(3,4) by (cases ss; cases ts) auto
    then have "patch_members create b (Some p) path q r h = Some h2"
      using d(1,2) h2(1) by (subst patch_members_round) (auto simp del: bind_Some_iff)
    ultimately show ?thesis by blast
  qed
qed

section \<open>The whole generation\<close>

lemma records_root:
  assumes r: "records h p us S C vs h' us'" and o: "bounded h" "nodes h a \<noteq> None" and a: "a \<notin> set S" "a \<notin> set (p # all_addrs us)"
  shows "nodes h' a = nodes h a"
proof -
  have "a < brk h" using o bounded_lt(1) by blast
  then show ?thesis using r a becomes_old(1) [of h h' "S @ p # all_addrs us"] unfolding records_def by auto
qed

lemma replace_ok:
  assumes rd: "ready h b p us [] path pt [s, t]"
  shows "\<exists>h' us'. compose_patch h (Some p) (Const ''replace'') path Null (Some (top t)) = Some h' \<and>
    records h p us (addrs s @ addrs t) [] (replaced pt (value_at h t)) h' us' \<and> same_root h h' (top s) \<and> same_root h h' (top t)"
proof -
  have "\<forall>x \<in> set (opt_list (Some t)). views h x \<and> plain (value_at h x)" using rd by (simp add: ready_def tree_ready_def)
  moreover have "cstring ''replace'' = ''replace''" by (simp add: cstring_def)
  ultimately obtain h' us' where h': "compose_patch h (Some p) (Const ''replace'') path Null (Some (top t)) = Some h'"
    "records h p us [] [] [patch_item ''replace'' pt (Some (value_at h t))] h' us'"
    using compose_step [OF rd text_at_none, where op = "''replace''" and v = "Some t"] by (auto simp: joined_path_def)
  have d: "distinct (all_addrs [s, t])" using rd by (simp add: ready_def)
  have "nodes h' (top x) = nodes h (top x)" if "x \<in> set [s, t]" for x
    using ready_step(2) [OF rd h'(2) subset_refl d, of x] that by auto
  then have "same_root h h' (top s)" "same_root h h' (top t)" by (simp_all add: same_root_def)
  then show ?thesis using h'(1) records_more [OF h'(2), of "addrs s @ addrs t"] by (auto simp: replaced_def)
qed

lemma ready_children:
  assumes "ready h b p us C path pt [Shape a ss, Shape c ts]" shows "ready h b p us C path pt (ss @ ts)"
proof -
  have "tree_ready h b x \<and> apart h x (p # all_addrs us) (C @ all_blocks h us)" if "x \<in> set (ss @ ts)" for x
  proof -
    from that consider "x \<in> set ss" | "x \<in> set ts" by auto
    then obtain y zs where y: "Shape y zs \<in> {Shape a ss, Shape c ts}" "x \<in> set zs" by cases blast+
    then have "tree_ready h b (Shape y zs)" "apart h (Shape y zs) (p # all_addrs us) (C @ all_blocks h us)"
      using assms by (auto simp: ready_def)
    then show ?thesis using y(2) tree_root by (fastforce simp: apart_def)
  qed
  moreover have "distinct (all_addrs (ss @ ts))" using assms by (auto simp: ready_def)
  ultimately show ?thesis using assms by (simp add: ready_def)
qed

lemma objects_ok:
  assumes IH: "\<And>h us path pt x y. x \<in> set ss \<Longrightarrow> ready h b p us [] path pt [x, y] \<Longrightarrow> generates create b h p us path pt x y"
    and rd: "ready h b p us [] path pt [Shape a ss, Shape c ts]"
    and k: "kind (value_at h (Shape a ss)) = cJSON_Object" "kind (value_at h (Shape c ts)) = cJSON_Object"
  shows "\<exists>h1 h2 h' us' m n. sort_object h (Some a) b = Some h1 \<and> sort_object h1 (Some c) b = Some h2 \<and>
    nodes h2 a = Some m \<and> nodes h2 c = Some n \<and> patch_members create b (Some p) path (nchild m) (nchild n) h2 = Some h' \<and>
    records h p us (addrs (Shape a ss) @ addrs (Shape c ts)) []
      (members_patches b pt (by_name b (map (value_at h) ss)) (by_name b (map (value_at h) ts))) h' us' \<and>
    same_root h h' a \<and> same_root h h' c"
proof -
  let ?s = "Shape a ss" and ?t = "Shape c ts"
  have "ready h b p us [] path pt ([?t] @ [?s])" by (rule ready_perm [OF rd]) simp
  from sort_step [OF this k(1)] obtain h1 ss' m where
    h1: "sort_object h (Some a) b = Some h1" "records h p us (addrs ?s) [] [] h1 us" "ready h1 b p us [] path pt ([?t] @ ss')"
      "mset ss' = mset ss" "map (value_at h1) ss' = by_name b (map (value_at h) ss)"
      "\<forall>x \<in> set [?t]. value_at h1 x = value_at h x \<and> (\<forall>y \<in> set (addrs x). nodes h1 y = nodes h y)"
      "nodes h1 a = Some m" "chain (nodes h1) (nchild m) (map top ss')" "same_root h h1 a" by blast
  have "value_at h1 ?t = value_at h ?t \<and> (\<forall>y \<in> set (addrs ?t). nodes h1 y = nodes h y)" using h1(6) by (rule bspec) simp
  then have t1: "value_at h1 ?t = value_at h ?t" "nodes h1 c = nodes h c" by (blast, simp)
  have "ready h1 b p us [] path pt (ss' @ [?t])" by (rule ready_perm [OF h1(3)]) simp
  from sort_step [OF this] k(2) t1(1) obtain h2 ts' n where
    h2: "sort_object h1 (Some c) b = Some h2" "records h1 p us (addrs ?t) [] [] h2 us" "ready h2 b p us [] path pt (ss' @ ts')"
      "mset ts' = mset ts" "map (value_at h2) ts' = by_name b (map (value_at h1) ts)"
      "\<forall>x \<in> set ss'. value_at h2 x = value_at h1 x \<and> (\<forall>y \<in> set (addrs x). nodes h2 y = nodes h1 y)"
      "nodes h2 c = Some n" "chain (nodes h2) (nchild n) (map top ts')" "same_root h1 h2 c" by auto
  have d: "distinct (addrs ?s @ addrs ?t)" "set (addrs ?s) \<inter> set (p # all_addrs us) = {}" "set (addrs ?t) \<inter> set (p # all_addrs us) = {}"
    using rd by (simp_all add: ready_def apart_def)
  have a2: "nodes h2 a = Some m"
    using records_root [OF h2(2) ready_bounded [OF h1(3)], of a] h1(7) d by auto
  have set': "set ss' = set ss" "set ts' = set ts" using h1(4) h2(4) by (metis set_mset_mset)+
  have ch: "chain (nodes h2) (nchild m) (map top ss')" using chain_step(1) [of ss' h2 h1 ss'] h2(6) h1(8) by simp
  have rt: "tree_ready h b ?s" "tree_ready h b ?t" using rd by (simp_all add: ready_def)
  obtain m0 n0 where mn: "nodes h a = Some m0" "nodes h c = Some n0" using tree_root [OF rt(1)] tree_root [OF rt(2)] by blast
  have vt: "map (value_at h1) ts = map (value_at h) ts"
    using t1 mn(2) by (metis children_at)
  have nm: "\<forall>v \<in> set (map (value_at h) ss @ map (value_at h) ts). item_string v \<noteq> None"
  proof -
    have "None \<notin> set (map item_string (map (value_at h) ss))" "None \<notin> set (map item_string (map (value_at h) ts))"
      using comparable_members [OF _ k(1)] comparable_members [OF _ k(2)] rt
      unfolding children_at [OF mn(1)] children_at [OF mn(2)] tree_ready_def by blast+
    then show ?thesis by (force simp del: not_None_eq)
  qed
  have vs: "map (value_at h2) ss' = by_name b (map (value_at h) ss)" "map (value_at h2) ts' = by_name b (map (value_at h) ts)"
  proof -
    have "map (value_at h2) ss' = map (value_at h1) ss'" using h2(6) by simp
    then show "map (value_at h2) ss' = by_name b (map (value_at h) ss)" using h1(5) by (simp only:)
    show "map (value_at h2) ts' = by_name b (map (value_at h) ts)" using h2(5) vt by (simp only:)
  qed
  have "set (map (value_at h2) ss') = set (map (value_at h) ss)" "set (map (value_at h2) ts') = set (map (value_at h) ts)"
    unfolding vs by_name_def by simp_all
  then have "\<forall>x \<in> set (ss' @ ts'). item_string (value_at h2 x) \<noteq> None" using nm by (metis Un_iff imageI list.set_map set_append)
  from patch_members_ok [where ?ss0.0 = ss, OF IH _ h2(3) ch h2(8) this] set'(1) obtain h' us' where
    h': "patch_members create b (Some p) path (nchild m) (nchild n) h2 = Some h'" "records h2 p us (all_addrs (ss' @ ts')) []
      (members_patches b pt (by_name b (map (value_at h) ss)) (by_name b (map (value_at h) ts))) h' us'"
    unfolding vs by auto
  let ?S = "addrs ?s @ addrs ?t" and ?vs = "members_patches b pt (by_name b (map (value_at h) ss)) (by_name b (map (value_at h) ts))"
  have "records h p us ?S [] [] h1 us" by (rule records_more [OF h1(2)]) simp
  moreover have "records h1 p us ?S [] [] h2 us" by (rule records_more [OF h2(2)]) simp
  moreover have "mset (all_addrs (ss' @ ts')) = mset (all_addrs (ss @ ts))" unfolding mset_all_addrs using h1(4) h2(4) by simp
  then have "records h2 p us ?S [] ?vs h' us'"
    by (intro records_more [OF h'(2)]) (simp add: subset_mset.add_mono)
  ultimately have "records h p us ?S [] ([] @ [] @ ?vs) h' us'"
    using records_trans [OF _ records_trans] ready_bounded [OF rd] ready_bounded [OF h1(3)] by blast
  moreover have "nodes h' x = nodes h2 x" if "x \<in> {a, c}" for x
  proof (rule records_root [OF h'(2) ready_bounded [OF h2(3)]])
    show "nodes h2 x \<noteq> None" using that a2 h2(7) by auto
    have "set (all_addrs (ss' @ ts')) = set (all_addrs (ss @ ts))" using set' by simp
    then show "x \<notin> set (all_addrs (ss' @ ts'))" using that d(1) by auto
    show "x \<notin> set (p # all_addrs us)" using that d(2,3) by auto
  qed
  then have "same_root h h' a" "same_root h h' c" using h1(7,9) a2 h2(9) t1(2) by (simp_all add: same_root_def)
  ultimately show ?thesis using h1(1) h2(1,7) a2 h'(1) by auto
qed

lemma views_valuestring:
  "views h x \<Longrightarrow> nodes h (top x) = Some m \<Longrightarrow> text_at h (nvaluestring m) = Some (valuestring (value_at h x))"
  by (cases x) auto

lemma arrays_ok:
  assumes IH: "\<And>h us path pt x y. x \<in> set ss \<Longrightarrow> ready h b p us [] path pt [x, y] \<Longrightarrow> generates create b h p us path pt x y"
    and rd: "ready h b p us [] path pt [Shape a ss, Shape c ts]"
    and m: "nodes h a = Some m" "chain (nodes h) (nchild m) (map top ss)"
    and n: "nodes h c = Some n" "chain (nodes h) (nchild n) (map top ts)" and len: "length ss \<le> ULONG_MAX"
  shows "\<exists>h' us'. patch_arrays create h (Some p) path (nchild m) (nchild n) = Some h' \<and>
    records h p us (addrs (Shape a ss) @ addrs (Shape c ts)) []
      (indexed (\<lambda>i. patches_between b (joined_path pt (Some (show_nat i)))) 0
        (map (value_at h) ss) (map (value_at h) ts) @ array_rest pt (map (value_at h) ss) (map (value_at h) ts)) h' us' \<and>
    same_root h h' a \<and> same_root h h' c"
proof -
  from patch_arrays_ok [OF IH ready_children [OF rd] m(2) n(2) len] obtain h' us' where
    h': "patch_arrays create h (Some p) path (nchild m) (nchild n) = Some h'"
      "records h p us (all_addrs (ss @ ts)) [] (indexed (\<lambda>i. patches_between b (joined_path pt (Some (show_nat i)))) 0
        (map (value_at h) ss) (map (value_at h) ts) @ array_rest pt (map (value_at h) ss) (map (value_at h) ts)) h' us'"
    by blast
  have ap: "distinct (addrs (Shape a ss) @ addrs (Shape c ts))" "set (addrs (Shape a ss)) \<inter> set (p # all_addrs us) = {}"
    "set (addrs (Shape c ts)) \<inter> set (p # all_addrs us) = {}" using rd by (simp_all add: ready_def apart_def)
  have "nodes h' x = nodes h x" if "x \<in> {a, c}" for x
    by (rule records_root [OF h'(2) ready_bounded [OF rd]]) (use that m(1) n(1) ap in auto)
  then have "same_root h h' a" "same_root h h' c" by (simp_all add: same_root_def)
  moreover note records_more [OF h'(2), of "addrs (Shape a ss) @ addrs (Shape c ts)"]
  ultimately show ?thesis using h'(1) by auto
qed

text \<open>The node of a tree that is ready.\<close>

lemma ready_node:
  assumes "tree_ready h b (Shape a ss)"
  shows "\<exists>m. nodes h a = Some m \<and> chain (nodes h) (nchild m) (map top ss) \<and> ntype m AND 0xFF = kind (value_at h (Shape a ss)) \<and>
    nvalueint m = valueint (value_at h (Shape a ss)) \<and> nvaluedouble m = valuedouble (value_at h (Shape a ss)) \<and>
    text_at h (nvaluestring m) = Some (valuestring (value_at h (Shape a ss)))"
proof -
  obtain m where m: "nodes h a = Some m" "chain (nodes h) (nchild m) (map top ss)" "ntype m = item_type (value_at h (Shape a ss))"
    using tree_root [OF assms] by blast
  moreover have "views h (Shape a ss)" using assms by (simp only: tree_ready_def)
  from views_valuestring [OF this, of m] m(1) have "text_at h (nvaluestring m) = Some (valuestring (value_at h (Shape a ss)))" by simp
  moreover have "ntype m AND 0xFF = kind (value_at h (Shape a ss))" using m(3) by (simp add: kind_def)
  moreover have "nvalueint m = valueint (value_at h (Shape a ss))" "nvaluedouble m = valuedouble (value_at h (Shape a ss))" using m(1) by simp_all
  ultimately show ?thesis by blast
qed

text \<open>Two items of one kind without children are replaced or not.\<close>

lemma leaf_patches:
  assumes rd: "ready h b p us [] path pt [s, t]" and nd: "nodes h (top s) = Some m" "nodes h (top t) = Some n"
    and v: "nvalueint m = valueint (value_at h s)" "nvaluedouble m = valuedouble (value_at h s)" "text_at h (nvaluestring m) = Some (valuestring (value_at h s))"
      "ntype m AND 0xFF = kind (value_at h s)"
    and w: "nvalueint n = valueint (value_at h t)" "nvaluedouble n = valuedouble (value_at h t)" "text_at h (nvaluestring n) = Some (valuestring (value_at h t))"
      "ntype n AND 0xFF = kind (value_at h t)"
    and k: "kind (value_at h s) \<noteq> kind (value_at h t) \<or> kind (value_at h s) \<noteq> cJSON_Array \<and> kind (value_at h s) \<noteq> cJSON_Object"
  shows "generates (create_patches (Suc k) b (Some p)) b h p us path pt s t"
proof -
  let ?v = "value_at h s" and ?w = "value_at h t" and ?run = "create_patches (Suc k) b (Some p) h path (Some (top s)) (Some (top t))"
  obtain hr ur where rep: "compose_patch h (Some p) (Const ''replace'') path Null (Some (top t)) = Some hr"
    "records h p us (addrs s @ addrs t) [] (replaced pt ?w) hr ur" "same_root h hr (top s)" "same_root h hr (top t)"
    using replace_ok [OF rd] by blast
  have fin: "generates (create_patches (Suc k) b (Some p)) b h p us path pt s t"
    if "?run = Some (if change then hr else h)" "patches_between b pt ?v ?w = (if change then replaced pt ?w else [])" for change
  proof (cases change)
    case True
    then show ?thesis using that rep(2-4) unfolding generates_def by (simp only: if_True) blast
  next
    case False
    moreover have "same_root h h (top s)" "same_root h h (top t)" by (simp_all add: same_root_def)
    moreover have "records h p us (addrs s @ addrs t) [] [] h us" using records_idle [OF rd] by simp
    ultimately show ?thesis using that unfolding generates_def by (simp only: if_False) blast
  qed
  have str: "\<exists>x y. valuestring ?v = Some x \<and> valuestring ?w = Some y \<and> chars_at h (nvaluestring m) = Some x \<and>
      chars_at h (nvaluestring n) = Some y \<and> (strcmp x y = 0 \<longleftrightarrow> x = y)" if st: "kind ?v = cJSON_String" "kind ?w = cJSON_String"
  proof -
    have "comparable b ?v" "comparable b ?w" using rd by (simp_all add: ready_def tree_ready_def)
    then obtain x y where "valuestring ?v = Some x" "valuestring ?w = Some y"
      using st by (cases "?v"; cases "?w") (auto simp: kind_def)
    then show ?thesis using v(3) w(3) text_at_nulfree strcmp_0 by (auto simp: chars_at_def)
  qed
  let ?change = "kind ?v \<noteq> kind ?w \<or> kind ?v = cJSON_Number \<and>
      (valueint ?v \<noteq> valueint ?w \<or> \<not> compare_double (valuedouble ?v) (valuedouble ?w)) \<or>
    kind ?v = cJSON_String \<and> valuestring ?v \<noteq> valuestring ?w"
  have "?run = Some (if ?change then hr else h)"
  proof (cases "kind ?v = cJSON_String \<and> kind ?w = cJSON_String")
    case True
    then obtain x y where "valuestring ?v = Some x" "valuestring ?w = Some y" "chars_at h (nvaluestring m) = Some x"
      "chars_at h (nvaluestring n) = Some y" "strcmp x y = 0 \<longleftrightarrow> x = y" using str by blast
    then show ?thesis using True by (simp add: node_at_def nd v(1,2,4) w(1,2,4) rep(1) Let_def)
  next
    case False
    then show ?thesis using k by (auto simp: node_at_def nd v(1,2,4) w(1,2,4) rep(1) Let_def)
  qed
  moreover have "patches_between b pt ?v ?w = (if ?change then replaced pt ?w else [])"
    using k by (auto simp: patches_between.simps [of b pt ?v ?w])
  ultimately show ?thesis by (rule fin)
qed

lemma create_patches_ok:
  "depth_of s \<le> k \<Longrightarrow> ready h b p us [] path pt [s, t] \<Longrightarrow> generates (create_patches k b (Some p)) b h p us path pt s t"
proof (induction k arbitrary: h us path pt s t)
  case 0
  then show ?case by (cases s) simp
next
  case (Suc k)
  obtain a ss where s: "s = Shape a ss" by (cases s)
  obtain c ts where t: "t = Shape c ts" by (cases t)
  note rd = Suc.prems(2) [unfolded s t]
  let ?v = "value_at h (Shape a ss)" and ?w = "value_at h (Shape c ts)"
  have IH: "generates (create_patches k b (Some p)) b h p us path pt x y" if "x \<in> set ss" "ready h b p us [] path pt [x, y]" for h us path pt x y
    using Suc.IH [of x] that depth_of_sub [OF that(1), of a] Suc.prems(1) s by simp
  have rt: "tree_ready h b (Shape a ss)" "tree_ready h b (Shape c ts)" using rd by (simp_all add: ready_def)
  obtain m where m: "nodes h a = Some m" "chain (nodes h) (nchild m) (map top ss)" "ntype m AND 0xFF = kind ?v"
    "nvalueint m = valueint ?v" "nvaluedouble m = valuedouble ?v" "text_at h (nvaluestring m) = Some (valuestring ?v)"
    using ready_node [OF rt(1)] by blast
  obtain n where n: "nodes h c = Some n" "chain (nodes h) (nchild n) (map top ts)" "ntype n AND 0xFF = kind ?w"
    "nvalueint n = valueint ?w" "nvaluedouble n = valuedouble ?w" "text_at h (nvaluestring n) = Some (valuestring ?w)"
    using ready_node [OF rt(2)] by blast
  have ch: "children ?v = map (value_at h) ss" "children ?w = map (value_at h) ts" using m(1) n(1) by simp_all
  have nd: "node_at h (Some a) = Some m" "node_at h (Some c) = Some n" using m(1) n(1) by (simp_all add: node_at_def)
  consider (array) "kind ?w = kind ?v" "kind ?v = cJSON_Array" | (object) "kind ?w = kind ?v" "kind ?v = cJSON_Object"
    | (leaf) "kind ?v \<noteq> kind ?w \<or> kind ?v \<noteq> cJSON_Array \<and> kind ?v \<noteq> cJSON_Object" by fastforce
  then show ?case unfolding s t
  proof cases
    case array
    have "length ss \<le> ULONG_MAX" using rt(1) array ch(1) by (cases ?v) (auto simp: tree_ready_def kind_def simp del: value_at.simps)
    note ok = arrays_ok [OF IH rd m(1,2) n(1,2) this]
    have "create_patches (Suc k) b (Some p) h path (Some a) (Some c) =
        patch_arrays (create_patches k b (Some p)) h (Some p) path (nchild m) (nchild n)"
      by (simp add: nd m(3) n(3) array del: value_at.simps)
    moreover have "patches_between b pt ?v ?w = indexed (\<lambda>i. patches_between b (joined_path pt (Some (show_nat i)))) 0
        (map (value_at h) ss) (map (value_at h) ts) @ array_rest pt (map (value_at h) ss) (map (value_at h) ts)"
      using array ch by (simp add: patches_between.simps [of b pt ?v ?w] del: value_at.simps)
    ultimately show "generates (create_patches (Suc k) b (Some p)) b h p us path pt (Shape a ss) (Shape c ts)"
      using ok unfolding generates_def shape.sel by metis
  next
    case object
    then have "kind ?v = cJSON_Object" "kind ?w = cJSON_Object" by simp_all
    from objects_ok [OF IH rd this] obtain h1 h2 h' us' m2 n2 where
      h': "sort_object h (Some a) b = Some h1" "sort_object h1 (Some c) b = Some h2" "nodes h2 a = Some m2" "nodes h2 c = Some n2"
        "patch_members (create_patches k b (Some p)) b (Some p) path (nchild m2) (nchild n2) h2 = Some h'"
        "records h p us (addrs (Shape a ss) @ addrs (Shape c ts)) []
          (members_patches b pt (by_name b (map (value_at h) ss)) (by_name b (map (value_at h) ts))) h' us'"
        "same_root h h' a" "same_root h h' c" by blast
    have "patches_between b pt ?v ?w = members_patches b pt (by_name b (map (value_at h) ss)) (by_name b (map (value_at h) ts))"
      using object ch by (simp add: patches_between.simps [of b pt ?v ?w] members_patches_def del: value_at.simps)
    moreover have "node_at h2 (Some a) = Some m2" "node_at h2 (Some c) = Some n2" using h'(3,4) by (simp_all add: node_at_def)
    then have "create_patches (Suc k) b (Some p) h path (Some a) (Some c) = Some h'"
      using h'(1,2,5) by (simp add: nd m(3) n(3) object del: value_at.simps bind_Some_iff)
    ultimately show "generates (create_patches (Suc k) b (Some p)) b h p us path pt (Shape a ss) (Shape c ts)"
      using h'(6-8) unfolding generates_def shape.sel by metis
  next
    case leaf
    then show "generates (create_patches (Suc k) b (Some p)) b h p us path pt (Shape a ss) (Shape c ts)"
      by (intro leaf_patches [OF rd _ _ m(4-6,3) n(4-6,3)]) (simp_all add: m(1) n(1) del: value_at.simps)
  qed
qed

section \<open>The entry points\<close>

definition new_array :: cJSON where
  "new_array = Item cJSON_Array None 0 zero_double None []"

lemma text_at_None: "text_at h t = Some None \<longleftrightarrow> t = Null"
  by (cases t) (auto simp: text_at_def bind_eq_Some_conv)

lemma array_root:
  assumes v: "views h (Shape x us)" and a: "value_at h (Shape x us) = set_children vs new_array"
  shows "\<exists>m. nodes h x = Some m \<and> nvaluestring m = Null \<and> nstring m = Null \<and> ntype m = cJSON_Array \<and> nvalueint m = 0 \<and>
    nvaluedouble m = zero_double \<and> blocks_at h (Shape x us) = all_blocks h us"
proof -
  obtain m where m: "nodes h x = Some m" "text_at h (nstring m) = Some (item_string (value_at h (Shape x us)))"
    using views_root [OF v] unfolding shape.sel by blast
  have "text_at h (nvaluestring m) = Some (valuestring (value_at h (Shape x us)))"
    by (rule views_valuestring [OF v]) (simp only: shape.sel m(1))
  then have t: "nvaluestring m = Null" "nstring m = Null" using m(2) unfolding a by (simp_all add: new_array_def text_at_None)
  have "ntype m = item_type (value_at h (Shape x us))" "nvalueint m = valueint (value_at h (Shape x us))"
    "nvaluedouble m = valuedouble (value_at h (Shape x us))" using m(1) by simp_all
  then have "ntype m = cJSON_Array" "nvalueint m = 0" "nvaluedouble m = zero_double" unfolding a by (simp_all add: new_array_def)
  then show ?thesis using m(1) t by (simp add: node_blocks_def own_texts_def)
qed

text \<open>The array that the patches are recorded in, as a tree.\<close>

lemma recorded_array:
  assumes x: "solo h (Shape x [])" "value_at h (Shape x []) = new_array" and r: "records h x [] S [] vs h' us"
  shows "whole h' (Shape x us) \<and> value_at h' (Shape x us) = set_children vs new_array"
proof -
  have "views h (Shape x [])" using x(1) by (simp only: solo_def whole_def)
  moreover have "value_at h (Shape x []) = set_children [] new_array" unfolding x(2) by (simp add: new_array_def)
  ultimately obtain n where n: "nodes h x = Some n" and nf: "nvaluestring n = Null" "nstring n = Null" "ntype n = cJSON_Array"
    "nvalueint n = 0" "nvaluedouble n = zero_double" using array_root by blast
  obtain m where m: "nodes h' x = Some m" "m\<lparr>nchild := None\<rparr> = n\<lparr>nchild := None\<rparr>"
    using r n by (auto simp: records_def same_root_def)
  have f: "nvaluestring m = Null" "nstring m = Null" "ntype m = cJSON_Array" "nvalueint m = 0" "nvaluedouble m = zero_double"
    using nf m(2) by (metis node.select_convs(1-8) node.surjective node.update_convs(3))+
  have o: "kids h' x (map top us)" "\<forall>u \<in> set us. whole h' u" using r by (simp_all add: records_def object_at_def)
  have ch: "chain (nodes h') (nchild m) (map top us)" using kids_chain [OF o(1)] m(1) by auto
  have va: "value_at h' (Shape x us) = set_children vs new_array"
    using m(1) f r by (simp add: text_at_none new_array_def records_def)
  have vs: "vs = map (value_at h') us" using r by (simp add: records_def)
  have "plain (value_at h' (Shape x us))" unfolding va vs using o(2) by (auto simp: new_array_def whole_def)
  moreover have "views h' (Shape x us)" using m(1) f ch o(2) by (auto simp: whole_def text_at_none)
  moreover have "owns h' (Shape x us)" using m(1) f ch o(2) by (auto simp: whole_def own_texts_def flag_def)
  moreover have "linked h' (Shape x us)" using o by (auto simp: whole_def)
  ultimately show ?thesis using va by (simp add: whole_def)
qed

lemma generate_patches_ok:
  assumes b: "bounded h" "\<forall>i. may_alloc (hmem h) i" and rt: "tree_ready h c s" "tree_ready h c t" and d: "distinct (addrs s @ addrs t)"
  shows "\<exists>x h' us. generate_patches h (Some (top s)) (Some (top t)) c = Some (Some x, h') \<and> whole h' (Shape x us) \<and>
    value_at h' (Shape x us) = set_children (patches_between c [] (value_at h s) (value_at h t)) new_array \<and>
    becomes h h' (addrs s @ addrs t) [] (addrs s @ addrs t @ addrs (Shape x us)) (blocks_at h' (Shape x us))"
proof -
  obtain x h1 where x: "cJSON_CreateArray h = Some (Some x, h1)" "made h new_array h1 x"
    using array.create_law [OF b(1), of new_array] b(2) by (auto simp: new_array_def)
  have "plain new_array" by (simp add: new_array_def)
  from made_solo [OF b(1) x(2) this] have x1: "solo h1 (Shape x [])" "value_at h1 (Shape x []) = new_array"
    "becomes h h1 [] [] (addrs (Shape x [])) (blocks_at h1 (Shape x []))" by blast+
  have ap: "apart h u [] []" for u by (simp add: apart_def)
  note s1 = tree_beside [OF x1(3) b(1) rt(1) ap] and t1 = tree_beside [OF x1(3) b(1) rt(2) ap]
  have "text_at h1 (Const []) = Some (Some [])" by (simp add: text_at_def cstring_def)
  moreover have "\<forall>y \<in> set [s, t]. tree_ready h1 c y \<and> apart h1 y (x # all_addrs []) ([] @ all_blocks h1 [])"
    using s1 t1 by (auto simp: apart_def)
  ultimately have rd: "ready h1 c x [] [] (Const []) [] [s, t]"
    using solo_object [OF x1(1)] b(2) becomes_alloc [OF x1(3)] d by (simp add: ready_def)
  have "views h1 s" using s1 by (simp only: tree_ready_def)
  then have "depth_of s \<le> depth_fuel h1" using views_depth_le ready_bounded [OF rd] by (fastforce simp: depth_fuel_def)
  from create_patches_ok [OF this rd] obtain h2 us where
    h2: "create_patches (depth_fuel h1) c (Some x) h1 (Const []) (Some (top s)) (Some (top t)) = Some h2"
      "records h1 x [] (addrs s @ addrs t) [] (patches_between c [] (value_at h s) (value_at h t)) h2 us"
    using s1 t1 by (auto simp: generates_def)
  note tree = recorded_array [OF x1(1,2) h2(2)]
  have "generate_patches h (Some (top s)) (Some (top t)) c = Some (Some x, h2)"
    using x(1) h2(1) by (simp add: generate_patches_def)
  moreover have "becomes h h2 (addrs s @ addrs t) [] (addrs s @ addrs t @ addrs (Shape x us)) (blocks_at h2 (Shape x us))"
  proof -
    have "views h2 (Shape x us)" using tree by (simp only: whole_def)
    then have bl: "blocks_at h2 (Shape x us) = all_blocks h2 us" using array_root tree by blast
    have "value_at h1 (Shape x []) = set_children [] new_array" unfolding x1(2) by (simp add: new_array_def)
    moreover have "views h1 (Shape x [])" using x1(1) by (simp only: solo_def whole_def)
    ultimately have "blocks_at h1 (Shape x []) = all_blocks h1 []" using array_root by blast
    then have "becomes h h1 [] [] [x] []" using x1(3) by (simp only: addrs.simps list.map concat.simps)
    from becomes_beside [OF this, of "addrs s @ addrs t" "[]"]
    have "becomes h h1 (addrs s @ addrs t) [] (addrs s @ addrs t @ [x]) []" by simp
    moreover have "becomes h1 h2 (addrs s @ addrs t @ [x]) [] (addrs s @ addrs t @ x # all_addrs us) (all_blocks h2 us)"
      using h2(2) by (simp add: records_def)
    ultimately show ?thesis using becomes_trans [OF _ _ b(1)] unfolding bl by (simp only: addrs.simps)
  qed
  ultimately show ?thesis using tree by blast
qed

end
