(* ===== verification/Replaying.thy ===== *)
theory Replaying
  imports Object_Patches
begin

text \<open>
  What generated patches mean: each of them is an operation of RFC 6902 on values, and doing all of them in
  turn makes the target out of the source, as far as the comparison of numbers tells.
\<close>

section \<open>Operations on values\<close>

fun renamed :: "string option \<Rightarrow> cJSON \<Rightarrow> cJSON" where
  "renamed s (Item t vs vi vd _ cs) = Item t vs vi vd s cs"

text \<open>The token of the child of index \<open>i\<close>, and the child of a token.\<close>

definition slot :: "cJSON \<Rightarrow> nat \<Rightarrow> string option" where
  "slot v i = (if kind v = cJSON_Array then Some (show_nat i)
     else if kind v = cJSON_Object then item_string (children v ! i) else None)"

definition position :: "cJSON \<Rightarrow> string \<Rightarrow> nat option" where
  "position v s = find (\<lambda>i. slot v i = Some s) [0..<length (children v)]"

fun at_path :: "string list \<Rightarrow> (cJSON \<Rightarrow> cJSON option) \<Rightarrow> cJSON \<Rightarrow> cJSON option" where
  "at_path [] f v = f v"
| "at_path (s # ss) f v = (case position v s of
     None \<Rightarrow> None
   | Some i \<Rightarrow> map_option (\<lambda>c. set_children ((children v)[i := c]) v) (at_path ss f (children v ! i)))"

definition remove_slot :: "string \<Rightarrow> cJSON \<Rightarrow> cJSON option" where
  "remove_slot s v = (case position v s of
     None \<Rightarrow> None
   | Some i \<Rightarrow> Some (set_children (take i (children v) @ drop (Suc i) (children v)) v))"

definition add_slot :: "string \<Rightarrow> cJSON \<Rightarrow> cJSON \<Rightarrow> cJSON option" where
  "add_slot s x v =
     (if kind v = cJSON_Array then
        (if s = ''-'' then Some (set_children (children v @ [x]) v)
         else case find (\<lambda>i. show_nat i = s) [0..<Suc (length (children v))] of
           None \<Rightarrow> None
         | Some i \<Rightarrow> Some (set_children (take i (children v) @ x # drop i (children v)) v))
      else if kind v = cJSON_Object then
        Some (set_children (filter (\<lambda>c. item_string c \<noteq> Some s) (children v) @ [with_name s x]) v)
      else None)"

datatype operation = Remove "string list" string | Add "string list" string cJSON | Replace "string list" cJSON

fun perform :: "operation \<Rightarrow> cJSON \<Rightarrow> cJSON option" where
  "perform (Remove ss s) v = at_path ss (remove_slot s) v"
| "perform (Add ss s x) v = at_path ss (add_slot s x) v"
| "perform (Replace ss x) v = at_path ss (\<lambda>old. Some (renamed (item_string old) x)) v"

fun replay :: "operation list \<Rightarrow> cJSON \<Rightarrow> cJSON option" where
  "replay [] v = Some v"
| "replay (a # as) v = Option.bind (perform a v) (replay as)"

text \<open>An operation as an item, with the path as text.\<close>

fun as_patch :: "operation \<Rightarrow> cJSON" where
  "as_patch (Remove ss s) = patch_item ''remove'' (path_text (ss @ [s])) None"
| "as_patch (Add ss s x) = patch_item ''add'' (path_text (ss @ [s])) (Some x)"
| "as_patch (Replace ss x) = patch_item ''replace'' (path_text ss) (Some x)"

fun under :: "string list \<Rightarrow> operation \<Rightarrow> operation" where
  "under p (Remove ss s) = Remove (p @ ss) s"
| "under p (Add ss s x) = Add (p @ ss) s x"
| "under p (Replace ss x) = Replace (p @ ss) x"

text \<open>The values that patches tell apart: numbers up to the tolerance of the comparison, members of an
  object in any order, names of an object with or without case; the text of raw items does not count.\<close>

inductive agrees :: "bool \<Rightarrow> cJSON \<Rightarrow> cJSON \<Rightarrow> bool" for b where
  copy: "agrees b (renamed s w) w"
| number: "kind v = cJSON_Number \<Longrightarrow> kind w = cJSON_Number \<Longrightarrow> valueint v = valueint w \<Longrightarrow>
     compare_double (valuedouble v) (valuedouble w) \<Longrightarrow> agrees b v w"
| string: "kind v = cJSON_String \<Longrightarrow> kind w = cJSON_String \<Longrightarrow> valuestring v = valuestring w \<Longrightarrow> agrees b v w"
| array: "kind v = cJSON_Array \<Longrightarrow> kind w = cJSON_Array \<Longrightarrow> list_all2 (agrees b) (children v) (children w) \<Longrightarrow> agrees b v w"
| object: "kind v = cJSON_Object \<Longrightarrow> kind w = cJSON_Object \<Longrightarrow> mset cs = mset (children v) \<Longrightarrow> mset ds = mset (children w) \<Longrightarrow>
     list_all2 (\<lambda>c d. name_rank b c = name_rank b d \<and> agrees b c d) cs ds \<Longrightarrow> agrees b v w"
| literal: "kind v = kind w \<Longrightarrow> kind v \<notin> {cJSON_Number, cJSON_String, cJSON_Array, cJSON_Object} \<Longrightarrow> agrees b v w"

section \<open>Replaying under a path\<close>

lemma set_children_simps [simp]:
  "item_string (set_children cs v) = item_string v" "kind (set_children cs v) = kind v" "children (set_children cs v) = cs"
  "set_children cs (set_children ds v) = set_children cs v" "set_children (children v) v = v"
  by (cases v; simp add: kind_def)+

lemma set_children_same: "children v = cs \<Longrightarrow> set_children cs v = v"
  by auto

lemma renamed_simps [simp]: "item_string (renamed s v) = s" "renamed (item_string v) v = v"
  by (cases v; simp)+

lemma perform_name: "perform a v = Some v' \<Longrightarrow> item_string v' = item_string v"
proof -
  have at: "(\<And>u u'. f u = Some u' \<Longrightarrow> item_string u' = item_string u) \<Longrightarrow> at_path ss f v = Some v' \<Longrightarrow> item_string v' = item_string v" for ss f
    by (cases ss) (auto split: option.splits)
  assume "perform a v = Some v'"
  then show ?thesis
    by (cases a) (auto simp: remove_slot_def add_slot_def split: option.splits if_splits elim!: at [rotated])
qed

lemma position_update:
  assumes "item_string c = item_string (children v ! i)"
  shows "position (set_children ((children v)[i := c]) v) s = position v s"
proof -
  have "slot (set_children ((children v)[i := c]) v) j = slot v j" for j
    using assms by (cases "j = i"; cases "i < length (children v)") (simp_all add: slot_def list_update_beyond)
  then show ?thesis by (simp add: position_def)
qed

lemma position_less: "position v s = Some i \<Longrightarrow> i < length (children v)"
  by (auto simp: position_def find_Some_iff)

lemma perform_under:
  assumes "position v s = Some i"
  shows "perform (under [s] a) v = map_option (\<lambda>c. set_children ((children v)[i := c]) v) (perform a (children v ! i))"
  using assms by (cases a) simp_all

lemma replay_under:
  "position v s = Some i \<Longrightarrow> replay as (children v ! i) = Some c \<Longrightarrow>
   replay (map (under [s]) as) v = Some (set_children ((children v)[i := c]) v)"
proof (induction as arbitrary: v)
  case Nil
  then have "(children v)[i := c] = children v" by (metis list_update_id option.inject replay.simps(1))
  then show ?case by simp
next
  case (Cons a as)
  obtain d where d: "perform a (children v ! i) = Some d" "replay as d = Some c" using Cons.prems(2) by (auto simp: bind_eq_Some_conv)
  let ?v = "set_children ((children v)[i := d]) v"
  have "position ?v s = Some i" using position_update [OF perform_name [OF d(1)]] Cons.prems(1) by simp
  moreover have "children ?v ! i = d" using position_less [OF Cons.prems(1)] by simp
  ultimately have "replay (map (under [s]) as) ?v = Some (set_children ((children ?v)[i := c]) ?v)" using Cons.IH d(2) by metis
  then show ?case using perform_under [OF Cons.prems(1)] d(1) by simp
qed

lemma replay_append: "replay (as @ bs) v = Option.bind (replay as v) (replay bs)"
proof (induction as arbitrary: v)
  case (Cons a as)
  then show ?case by (cases "perform a v") simp_all
qed simp

text \<open>The items \<open>P path\<close> are the operations, under any path.\<close>

definition produces :: "(string \<Rightarrow> cJSON list) \<Rightarrow> operation list \<Rightarrow> bool" where
  "produces P as \<longleftrightarrow> (\<forall>p. P (path_text p) = map (\<lambda>a. as_patch (under p a)) as)"

lemma joined_token: "joined_path (path_text p) (Some s) = path_text (p @ [s])"
  by (simp add: joined_path_def path_text_snoc)

lemma produces_under: "produces P as \<Longrightarrow> produces (\<lambda>p. P (joined_path p (Some s))) (map (under [s]) as)"
proof -
  assume P: "produces P as"
  have "under (p @ [s]) a = under p (under [s] a)" for p a by (cases a) simp_all
  then show ?thesis using P by (simp add: produces_def joined_token)
qed

lemma produces_append: "produces P as \<Longrightarrow> produces Q bs \<Longrightarrow> produces (\<lambda>p. P p @ Q p) (as @ bs)"
  by (simp add: produces_def)

section \<open>Arrays\<close>

lemma show_nat_eq [simp]: "show_nat i = show_nat j \<longleftrightarrow> i = j"
  by (metis dec_val_show_nat)

lemma find_index_unique:
  assumes "i < length xs" "P (xs ! i)" "\<And>j. j < length xs \<Longrightarrow> P (xs ! j) \<Longrightarrow> j = i" shows "find P xs = Some (xs ! i)"
proof -
  have "\<not> P (xs ! j)" if "j < i" for j using assms(1) assms(3) [of j] that by auto
  then show ?thesis using assms(1,2) unfolding find_Some_iff by blast
qed

lemma position_unique:
  assumes "i < length (children v)" "slot v i = Some s" "\<And>j. j < length (children v) \<Longrightarrow> slot v j = Some s \<Longrightarrow> j = i"
  shows "position v s = Some i"
proof -
  have "find (\<lambda>j. slot v j = Some s) [0..<length (children v)] = Some ([0..<length (children v)] ! i)"
  proof (rule find_index_unique)
    show "j = i" if "j < length [0..<length (children v)]" "slot v ([0..<length (children v)] ! j) = Some s" for j
      by (rule assms(3)) (use that in simp_all)
  qed (use assms(1,2) in simp_all)
  then show ?thesis using assms(1) by (simp add: position_def)
qed

lemma array_position: "kind v = cJSON_Array \<Longrightarrow> i < length (children v) \<Longrightarrow> position v (show_nat i) = Some i"
  by (rule position_unique) (simp_all add: slot_def)

text \<open>What both arrays have.\<close>

lemma replay_common:
  assumes IH: "\<And>c d. c \<in> set cs0 \<Longrightarrow> d \<in> set ds0 \<Longrightarrow>
    \<exists>as c'. produces (\<lambda>p. patches_between b p c d) as \<and> replay as c = Some c' \<and> agrees b c' d"
  shows "set cs \<subseteq> set cs0 \<Longrightarrow> set ds \<subseteq> set ds0 \<Longrightarrow> kind v = cJSON_Array \<Longrightarrow> children v = pre @ cs \<Longrightarrow> length pre = i \<Longrightarrow>
    \<exists>as cs'. produces (\<lambda>p. indexed (\<lambda>j. patches_between b (joined_path p (Some (show_nat j)))) i cs ds) as \<and>
      replay as v = Some (set_children (pre @ cs' @ drop (length ds) cs) v) \<and> list_all2 (agrees b) cs' (take (length cs) ds)"
proof (induction cs arbitrary: ds v pre i)
  case Nil
  then show ?case by (intro exI [of _ "[]"]) (simp add: produces_def set_children_same)
next
  case (Cons c cs)
  show ?case
  proof (cases ds)
    case Nil
    then show ?thesis using Cons.prems(4) by (intro exI [of _ "[]"]) (simp add: produces_def set_children_same)
  next
    case (Cons d ds')
    obtain as c' where a: "produces (\<lambda>p. patches_between b p c d) as" "replay as c = Some c'" "agrees b c' d"
      using IH [of c d] Cons.prems(1,2) Cons by auto
    have pos: "position v (show_nat i) = Some i" "children v ! i = c"
      using array_position [OF Cons.prems(3), of i] Cons.prems(4,5) by auto
    let ?v = "set_children ((children v)[i := c']) v"
    have "children ?v = (pre @ [c']) @ cs" using Cons.prems(4,5) by (simp add: list_update_append)
    then obtain bs cs' where bs:
      "produces (\<lambda>p. indexed (\<lambda>j. patches_between b (joined_path p (Some (show_nat j)))) (Suc i) cs ds') bs"
      "replay bs ?v = Some (set_children ((pre @ [c']) @ cs' @ drop (length ds') cs) ?v)" "list_all2 (agrees b) cs' (take (length cs) ds')"
      using Cons.IH [of ds' ?v "pre @ [c']" "Suc i"] Cons.prems Cons by auto
    have "replay (map (under [show_nat i]) as) v = Some ?v" using replay_under [OF pos(1)] a(2) pos(2) by simp
    then have "replay (map (under [show_nat i]) as @ bs) v = Some (set_children (pre @ (c' # cs') @ drop (length ds) (c # cs)) v)"
      using bs(2) Cons by (simp add: replay_append)
    moreover have "produces (\<lambda>p. indexed (\<lambda>j. patches_between b (joined_path p (Some (show_nat j)))) i (c # cs) ds) (map (under [show_nat i]) as @ bs)"
      using produces_append [OF produces_under [OF a(1)] bs(1)] Cons by simp
    ultimately show ?thesis using a(3) bs(3) Cons by (intro exI conjI) auto
  qed
qed

text \<open>What only one of them has.\<close>

lemma replay_removed:
  "kind v = cJSON_Array \<Longrightarrow> children v = pre @ cs \<Longrightarrow> length pre = k \<Longrightarrow>
   replay (map (\<lambda>_. Remove [] (show_nat k)) cs) v = Some (set_children pre v)"
proof (induction cs arbitrary: v)
  case Nil
  then show ?case by (simp add: set_children_same)
next
  case (Cons c cs)
  have "position v (show_nat k) = Some k" by (rule array_position) (use Cons.prems in auto)
  then have "perform (Remove [] (show_nat k)) v = Some (set_children (pre @ cs) v)" using Cons.prems by (simp add: remove_slot_def)
  then show ?case using Cons.IH [of "set_children (pre @ cs) v"] Cons.prems by simp
qed

lemma replay_added:
  "kind v = cJSON_Array \<Longrightarrow> replay (map (Add [] ''-'') ds) v = Some (set_children (children v @ ds) v)"
  by (induction ds arbitrary: v) (simp_all add: add_slot_def)

section \<open>Objects\<close>

lemma object_position:
  assumes "kind v = cJSON_Object" "distinct (map (name_rank b) (children v))" "c \<in> set (children v)" "item_string c = Some s"
  shows "\<exists>i < length (children v). position v s = Some i \<and> children v ! i = c"
proof -
  obtain i where i: "i < length (children v)" "children v ! i = c" using assms(3) by (meson in_set_conv_nth)
  have "position v s = Some i"
  proof (rule position_unique [OF i(1)])
    show "slot v i = Some s" using i(2) assms(1,4) by (simp add: slot_def)
    fix j assume j: "j < length (children v)" "slot v j = Some s"
    then have "item_string (children v ! j) = Some s" using assms(1) by (simp add: slot_def)
    then have "map (name_rank b) (children v) ! j = map (name_rank b) (children v) ! i" using i j(1) assms(4) by (simp add: name_rank_def)
    then show "j = i" using assms(2) j(1) i(1) by (simp add: nth_eq_iff_index_eq del: nth_map)
  qed
  then show ?thesis using i by blast
qed

lemma mset_remove_nth: "i < length xs \<Longrightarrow> mset xs = add_mset (xs ! i) (mset (take i xs @ drop (Suc i) xs))"
proof -
  assume "i < length xs"
  then have "mset xs = mset (take i xs @ xs ! i # drop (Suc i) xs)" by (rule arg_cong [OF id_take_nth_drop])
  then show ?thesis by (simp only: mset_append mset.simps union_mset_add_mset_right)
qed

lemma mset_update_nth: "i < length xs \<Longrightarrow> mset (xs[i := y]) = add_mset y (mset (take i xs @ drop (Suc i) xs))"
  by (simp add: upd_conv_take_nth_drop)

lemma name_rank_renamed: "name_rank b (with_name s x) = rank_of b s" "item_string c = Some s \<Longrightarrow> name_rank b c = rank_of b s"
  by (cases x) (simp_all add: name_rank_def)

lemma with_name_renamed: "with_name s x = renamed (Some s) x"
  by (cases x) simp

text \<open>The members that are left of both objects, in order; \<open>ms\<close> are the members that are done, for the members \<open>ns\<close>
  of the target.\<close>

definition same_member :: "bool \<Rightarrow> cJSON \<Rightarrow> cJSON \<Rightarrow> bool" where
  "same_member b c d \<longleftrightarrow> name_rank b c = name_rank b d \<and> agrees b c d"

definition halfway :: "bool \<Rightarrow> cJSON \<Rightarrow> cJSON list \<Rightarrow> cJSON list \<Rightarrow> cJSON list \<Rightarrow> cJSON list \<Rightarrow> bool" where
  "halfway b v ms ns cs ds \<longleftrightarrow> kind v = cJSON_Object \<and> mset (children v) = mset (ms @ cs) \<and> list_all2 (same_member b) ms ns \<and>
     sorted_wrt (<) (map (name_rank b) (ms @ cs)) \<and> sorted_wrt (<) (map (name_rank b) (ns @ ds)) \<and>
     (\<forall>m \<in> set ms. \<forall>d \<in> set ds. name_rank b m < name_rank b d) \<and>
     (\<forall>x \<in> set cs \<union> set ds. item_string x \<noteq> None)"

lemma halfway_distinct: "halfway b v ms ns cs ds \<Longrightarrow> distinct (map (name_rank b) (children v))"
proof -
  assume h: "halfway b v ms ns cs ds"
  then have "mset (map (name_rank b) (children v)) = mset (map (name_rank b) (ms @ cs))" by (simp add: halfway_def)
  moreover have "distinct (map (name_rank b) (ms @ cs))" using h strict_sorted_iff unfolding halfway_def by blast
  ultimately show ?thesis by (metis mset_eq_imp_distinct_iff)
qed

lemma halfway_member:
  assumes "halfway b v ms ns (c # cs) ds" "item_string c = Some s"
  shows "\<exists>i < length (children v). position v s = Some i \<and> children v ! i = c \<and>
    mset (take i (children v) @ drop (Suc i) (children v)) = mset (ms @ cs)"
proof -
  have k: "kind v = cJSON_Object" and m: "mset (children v) = mset (ms @ c # cs)" using assms(1) by (simp_all add: halfway_def)
  have "c \<in> set (children v)" using m by (metis in_set_conv_decomp set_mset_mset)
  from object_position [OF k halfway_distinct [OF assms(1)] this assms(2)] obtain i where
    i: "i < length (children v)" "position v s = Some i" "children v ! i = c" by blast
  have "mset (take i (children v) @ drop (Suc i) (children v)) = mset (ms @ cs)" using mset_remove_nth [OF i(1)] m i(3) by simp
  then show ?thesis using i by blast
qed

lemma replay_name: "replay as v = Some v' \<Longrightarrow> item_string v' = item_string v"
  by (induction as arbitrary: v) (auto simp: bind_eq_Some_conv dest: perform_name)

lemma with_name_same: "item_string d = Some k \<Longrightarrow> with_name k d = d"
  by (cases d) simp

lemma same_member_self: "same_member b d d"
  using agrees.copy [of b "item_string d" d] by (simp add: same_member_def)

text \<open>The three kinds of steps.\<close>

lemma step_remove:
  assumes h: "halfway b v ms ns (c # cs) ds" and k: "item_string c = Some k"
  shows "\<exists>v'. perform (Remove [] k) v = Some v' \<and> halfway b v' ms ns cs ds"
proof -
  obtain i where i: "position v k = Some i" "mset (take i (children v) @ drop (Suc i) (children v)) = mset (ms @ cs)"
    using halfway_member [OF h k] by blast
  let ?v = "set_children (take i (children v) @ drop (Suc i) (children v)) v"
  have "halfway b ?v ms ns cs ds" using h i(2) by (simp add: halfway_def sorted_wrt_append)
  then show ?thesis using i(1) by (simp add: remove_slot_def)
qed

lemma step_add:
  assumes h: "halfway b v ms ns cs (d # ds)" and k: "item_string d = Some k" and l: "cs = [] \<or> name_rank b d < name_rank b (hd cs)"
  shows "\<exists>v'. perform (Add [] k d) v = Some v' \<and> halfway b v' (ms @ [d]) (ns @ [d]) cs ds"
proof -
  have kd: "kind v = cJSON_Object" and m: "mset (children v) = mset (ms @ cs)" using h by (simp_all add: halfway_def)
  have so: "sorted_wrt (<) (map (name_rank b) cs)" using h by (simp add: halfway_def sorted_wrt_append)
  have lt: "name_rank b d < name_rank b c" if "c \<in> set cs" for c
    using l so that by (cases cs) auto
  have less: "name_rank b x < name_rank b d" if "x \<in> set ms" for x using h that by (simp add: halfway_def)
  have "item_string x \<noteq> Some k" if "x \<in> set (children v)" for x
  proof
    assume "item_string x = Some k"
    then have "name_rank b x = name_rank b d" using k by (simp add: name_rank_def)
    moreover have "x \<in> set ms \<union> set cs" using that m by (metis set_append set_mset_mset)
    ultimately show False using lt less by fastforce
  qed
  then have "filter (\<lambda>c. item_string c \<noteq> Some k) (children v) = children v" by (simp add: filter_id_conv)
  then have "perform (Add [] k d) v = Some (set_children (children v @ [d]) v)"
    using kd with_name_same [OF k] by (simp add: add_slot_def)
  moreover have "halfway b (set_children (children v @ [d]) v) (ms @ [d]) (ns @ [d]) cs ds"
    using h lt less m same_member_self [of b d] by (auto simp: halfway_def sorted_wrt_append list_all2_appendI)
  ultimately show ?thesis by blast
qed

lemma step_both:
  assumes h: "halfway b v ms ns (c # cs) (d # ds)" and k: "item_string c = Some k" and r: "name_rank b c = name_rank b d"
    and c': "replay as c = Some c'" "agrees b c' d"
  shows "\<exists>v'. replay (map (under [k]) as) v = Some v' \<and> halfway b v' (ms @ [c']) (ns @ [d]) cs ds"
proof -
  obtain i where i: "i < length (children v)" "position v k = Some i" "children v ! i = c"
    "mset (take i (children v) @ drop (Suc i) (children v)) = mset (ms @ cs)" using halfway_member [OF h k] by blast
  let ?v = "set_children ((children v)[i := c']) v"
  have run: "replay (map (under [k]) as) v = Some ?v" using replay_under [OF i(2)] c'(1) i(3) by simp
  have rk: "name_rank b c' = name_rank b c" using replay_name [OF c'(1)] by (simp add: name_rank_def)
  have "mset (children ?v) = mset ((ms @ [c']) @ cs)" using mset_update_nth [OF i(1), of c'] i(4) by simp
  then have "halfway b ?v (ms @ [c']) (ns @ [d]) cs ds"
    using h rk r c'(2) by (auto simp: halfway_def sorted_wrt_append list_all2_appendI same_member_def)
  then show ?thesis using run by blast
qed

lemma produces_Cons: "(\<And>p. x (path_text p) = as_patch (under p a)) \<Longrightarrow> produces P as \<Longrightarrow> produces (\<lambda>p. x p # P p) (a # as)"
  by (simp add: produces_def)

lemma members_patches_first:
  assumes "item_string c = Some k"
  shows "ds = [] \<or> name_rank b c < name_rank b (hd ds) \<Longrightarrow>
      members_patches b p (c # cs) ds = patch_item ''remove'' (joined_path p (Some k)) None # members_patches b p cs ds"
    "ds = [] \<or> name_rank b c < name_rank b (hd ds) \<Longrightarrow>
      members_patches b p ds (c # cs) = patch_item ''add'' (joined_path p (Some k)) (Some c) # members_patches b p ds cs"
    "name_rank b c = name_rank b d \<Longrightarrow>
      members_patches b p (c # cs) (d # ds) = patches_between b (joined_path p (Some k)) c d @ members_patches b p cs ds"
  using assms paired_first [of ds "name_rank b" c] by (simp_all add: members_patches_def)

lemma replay_members:
  assumes IH: "\<And>c d. c \<in> set cs0 \<Longrightarrow> d \<in> set ds0 \<Longrightarrow>
    \<exists>as c'. produces (\<lambda>p. patches_between b p c d) as \<and> replay as c = Some c' \<and> agrees b c' d"
  shows "halfway b v ms ns cs ds \<Longrightarrow> set cs \<subseteq> set cs0 \<Longrightarrow> set ds \<subseteq> set ds0 \<Longrightarrow>
    \<exists>as v' ms'. produces (\<lambda>p. members_patches b p cs ds) as \<and> replay as v = Some v' \<and> halfway b v' ms' (ns @ ds) [] []"
proof (induction "length cs + length ds" arbitrary: v ms ns cs ds rule: less_induct)
  case less
  note h = less.prems(1)
  have names: "\<exists>k. item_string x = Some k" if "x \<in> set cs \<union> set ds" for x using h that by (auto simp: halfway_def)
  consider (stop) "cs = []" "ds = []"
    | (remove) c cs' where "cs = c # cs'" "ds = [] \<or> name_rank b c < name_rank b (hd ds)"
    | (add) d ds' where "ds = d # ds'" "cs = [] \<or> name_rank b d < name_rank b (hd cs)"
    | (both) c cs' d ds' where "cs = c # cs'" "ds = d # ds'" "name_rank b c = name_rank b d"
    by (metis list.exhaust_sel linorder_neqE)
  then show ?case
  proof cases
    case stop
    then have "produces (\<lambda>p. members_patches b p cs ds) []" by (simp add: produces_def members_patches_def)
    then show ?thesis using h stop by (metis append_Nil2 replay.simps(1))
  next
    case (remove c cs')
    obtain k where k: "item_string c = Some k" using names [of c] remove(1) by auto
    obtain v1 where v1: "perform (Remove [] k) v = Some v1" "halfway b v1 ms ns cs' ds" using step_remove [OF _ k] h remove(1) by blast
    obtain as v' ms' where r: "produces (\<lambda>p. members_patches b p cs' ds) as" "replay as v1 = Some v'" "halfway b v' ms' (ns @ ds) [] []"
      using less.hyps [OF _ v1(2)] less.prems(2,3) remove(1) by auto
    have "produces (\<lambda>p. members_patches b p cs ds) (Remove [] k # as)"
      unfolding remove(1) members_patches_first(1) [OF k remove(2)] by (rule produces_Cons [OF _ r(1)]) (simp add: joined_token)
    moreover have "replay (Remove [] k # as) v = Some v'" using v1(1) r(2) by simp
    ultimately show ?thesis using r(3) by blast
  next
    case (add d ds')
    obtain k where k: "item_string d = Some k" using names [of d] add(1) by auto
    obtain v1 where v1: "perform (Add [] k d) v = Some v1" "halfway b v1 (ms @ [d]) (ns @ [d]) cs ds'"
      using step_add [OF _ k add(2)] h add(1) by blast
    obtain as v' ms' where r: "produces (\<lambda>p. members_patches b p cs ds') as" "replay as v1 = Some v'" "halfway b v' ms' (ns @ ds) [] []"
      using less.hyps [OF _ v1(2)] less.prems(2,3) add(1) by auto
    have "produces (\<lambda>p. members_patches b p cs ds) (Add [] k d # as)"
      unfolding add(1) members_patches_first(2) [OF k add(2)] by (rule produces_Cons [OF _ r(1)]) (simp add: joined_token)
    moreover have "replay (Add [] k d # as) v = Some v'" using v1(1) r(2) by simp
    ultimately show ?thesis using r(3) by blast
  next
    case (both c cs' d ds')
    obtain k where k: "item_string c = Some k" using names [of c] both(1) by auto
    have cd: "c \<in> set cs0" "d \<in> set ds0" using less.prems(2,3) both(1,2) by auto
    obtain as c' where c': "produces (\<lambda>p. patches_between b p c d) as" "replay as c = Some c'" "agrees b c' d" using IH [OF cd] by blast
    obtain v1 where v1: "replay (map (under [k]) as) v = Some v1" "halfway b v1 (ms @ [c']) (ns @ [d]) cs' ds'"
      using step_both [OF _ k both(3) c'(2,3)] h both(1,2) by blast
    obtain bs v' ms' where r: "produces (\<lambda>p. members_patches b p cs' ds') bs" "replay bs v1 = Some v'" "halfway b v' ms' (ns @ ds) [] []"
      using less.hyps [OF _ v1(2)] less.prems(2,3) both(1,2) by auto
    have "produces (\<lambda>p. members_patches b p cs ds) (map (under [k]) as @ bs)"
      unfolding both(1,2) members_patches_first(3) [OF k both(3)] by (rule produces_append [OF produces_under [OF c'(1)] r(1)])
    moreover have "replay (map (under [k]) as @ bs) v = Some v'" using v1(1) r(2) by (simp add: replay_append)
    ultimately show ?thesis using r(3) by blast
  qed
qed

section \<open>The whole\<close>

lemma agrees_self: "agrees b v v"
  using agrees.copy [of b "item_string v" v] by simp

lemma comparable_child: "comparable b v \<Longrightarrow> c \<in> set (children v) \<Longrightarrow> comparable b c"
  by (cases v) simp

lemma by_name_strict:
  assumes "comparable b v" "kind v = cJSON_Object"
  shows "sorted_wrt (<) (map (name_rank b) (by_name b (children v)))" "\<forall>c \<in> set (by_name b (children v)). item_string c \<noteq> None"
proof -
  note m = comparable_members [OF assms]
  have "mset (map (name_rank b) (by_name b (children v))) = mset (map (name_rank b) (children v))" by (simp add: by_name_def)
  then have "distinct (map (name_rank b) (by_name b (children v)))" using m by (metis mset_eq_imp_distinct_iff)
  moreover have "sorted (map (name_rank b) (by_name b (children v)))" by (simp add: by_name_def)
  ultimately show "sorted_wrt (<) (map (name_rank b) (by_name b (children v)))" by (simp only: strict_sorted_iff)
  show "\<forall>c \<in> set (by_name b (children v)). item_string c \<noteq> None" using m by (force simp: by_name_def simp del: not_None_eq)
qed

lemma array_replay:
  assumes IH: "\<And>c d. c \<in> set (children v) \<Longrightarrow> d \<in> set (children w) \<Longrightarrow>
      \<exists>as c'. produces (\<lambda>p. patches_between b p c d) as \<and> replay as c = Some c' \<and> agrees b c' d"
    and k: "kind v = cJSON_Array" "kind w = cJSON_Array"
  shows "\<exists>as v'. produces (\<lambda>p. patches_between b p v w) as \<and> replay as v = Some v' \<and> agrees b v' w"
proof -
  let ?cs = "children v" and ?ds = "children w"
  obtain as cs' where a: "produces (\<lambda>p. indexed (\<lambda>j. patches_between b (joined_path p (Some (show_nat j)))) 0 ?cs ?ds) as"
    "replay as v = Some (set_children (cs' @ drop (length ?ds) ?cs) v)" "list_all2 (agrees b) cs' (take (length ?cs) ?ds)"
    using replay_common [where ?cs0.0 = "children v" and ?ds0.0 = "children w" and pre = "[]" and i = 0, OF IH subset_refl subset_refl k(1)] by auto
  let ?v = "set_children (cs' @ drop (length ?ds) ?cs) v"
  let ?rs = "map (\<lambda>_. Remove [] (show_nat (length ?ds))) (drop (length ?ds) ?cs)" and ?as = "map (Add [] ''-'') (drop (length ?cs) ?ds)"
  have rs: "replay ?rs ?v = Some (set_children cs' v)"
  proof (cases "length ?ds < length ?cs")
    case True
    then have "length cs' = length ?ds" using list_all2_lengthD [OF a(3)] by simp
    from replay_removed [OF _ _ this, of ?v "drop (length ?ds) ?cs"] show ?thesis using k(1) by simp
  qed simp
  have "replay ?as (set_children cs' v) = Some (set_children (cs' @ drop (length ?cs) ?ds) v)"
    using replay_added [of "set_children cs' v" "drop (length ?cs) ?ds"] k(1) by simp
  then have run: "replay (as @ ?rs @ ?as) v = Some (set_children (cs' @ drop (length ?cs) ?ds) v)"
    using a(2) rs by (simp add: replay_append)
  have "produces (\<lambda>p. array_rest p ?cs ?ds) (?rs @ ?as)"
    by (simp add: produces_def array_rest_def joined_token)
  from produces_append [OF a(1) this] have "produces (\<lambda>p. patches_between b p v w) (as @ ?rs @ ?as)"
    using k by (simp add: patches_between.simps [of b _ v w])
  moreover have "list_all2 (agrees b) (cs' @ drop (length ?cs) ?ds) (take (length ?cs) ?ds @ drop (length ?cs) ?ds)"
    by (rule list_all2_appendI [OF a(3)]) (simp add: list_all2_same agrees_self)
  then have "agrees b (set_children (cs' @ drop (length ?cs) ?ds) v) w" using k by (intro agrees.array) simp_all
  ultimately show ?thesis using run by blast
qed

lemma object_replay:
  assumes IH: "\<And>c d. c \<in> set (children v) \<Longrightarrow> d \<in> set (children w) \<Longrightarrow>
      \<exists>as c'. produces (\<lambda>p. patches_between b p c d) as \<and> replay as c = Some c' \<and> agrees b c' d"
    and k: "kind v = cJSON_Object" "kind w = cJSON_Object" and cmp: "comparable b v" "comparable b w"
  shows "\<exists>as v'. produces (\<lambda>p. patches_between b p v w) as \<and> replay as v = Some v' \<and> agrees b v' w"
proof -
  let ?cs = "by_name b (children v)" and ?ds = "by_name b (children w)"
  have "halfway b v [] [] ?cs ?ds"
    using k by_name_strict [OF cmp(1) k(1)] by_name_strict [OF cmp(2) k(2)] by (auto simp: halfway_def by_name_def simp del: not_None_eq)
  from replay_members [where ?cs0.0 = "children v" and ?ds0.0 = "children w", OF IH this] obtain as v' ms' where
    a: "produces (\<lambda>p. members_patches b p ?cs ?ds) as" "replay as v = Some v'" "halfway b v' ms' ?ds [] []"
    by (auto simp: by_name_def)
  have "produces (\<lambda>p. patches_between b p v w) as"
    using a(1) k by (simp add: patches_between.simps [of b _ v w] members_patches_def)
  moreover have "agrees b v' w"
  proof (rule agrees.object)
    show "kind v' = cJSON_Object" "mset ms' = mset (children v')" using a(3) by (simp_all add: halfway_def)
    show "mset ?ds = mset (children w)" by (simp add: by_name_def)
    show "list_all2 (\<lambda>c d. name_rank b c = name_rank b d \<and> agrees b c d) ms' ?ds"
      using a(3) unfolding halfway_def same_member_def by blast
  qed (rule k(2))
  ultimately show ?thesis using a(2) by blast
qed

lemma patches_replay:
  "comparable b v \<Longrightarrow> comparable b w \<Longrightarrow>
   \<exists>as v'. produces (\<lambda>p. patches_between b p v w) as \<and> replay as v = Some v' \<and> agrees b v' w"
proof (induction v arbitrary: w rule: measure_induct_rule [where f = size])
  case (less v)
  have rep: "\<exists>as v'. produces (\<lambda>p. patches_between b p v w) as \<and> replay as v = Some v' \<and> agrees b v' w"
    if "\<And>p. patches_between b p v w = replaced p w"
    using that by (intro exI [of _ "[Replace [] w]"] exI [of _ "renamed (item_string v) w"])
      (simp add: produces_def replaced_def agrees.copy)
  have idle: "\<exists>as v'. produces (\<lambda>p. patches_between b p v w) as \<and> replay as v = Some v' \<and> agrees b v' w"
    if "\<And>p. patches_between b p v w = []" "agrees b v w"
    using that by (intro exI [of _ "[]"] exI [of _ v]) (simp add: produces_def)
  have IH: "\<exists>as c'. produces (\<lambda>p. patches_between b p c d) as \<and> replay as c = Some c' \<and> agrees b c' d"
    if "c \<in> set (children v)" "d \<in> set (children w)" for c d
    using less.IH [OF size_child [OF that(1)]] less.prems comparable_child that by blast
  note pb = patches_between.simps [of b _ v w]
  consider (kinds) "kind v \<noteq> kind w" | (number) "kind w = kind v" "kind v = cJSON_Number"
    | (string) "kind w = kind v" "kind v = cJSON_String" | (array) "kind w = kind v" "kind v = cJSON_Array"
    | (object) "kind w = kind v" "kind v = cJSON_Object"
    | (other) "kind w = kind v" "kind v \<notin> {cJSON_Number, cJSON_String, cJSON_Array, cJSON_Object}" by (cases "kind w = kind v") auto
  then show ?case
  proof cases
    case kinds
    then show ?thesis by (intro rep) (simp add: pb)
  next
    case number
    show ?thesis
    proof (cases "valueint v = valueint w \<and> compare_double (valuedouble v) (valuedouble w)")
      case True
      then show ?thesis using number by (intro idle agrees.number) (simp_all add: pb)
    next
      case False
      then show ?thesis using number by (intro rep) (auto simp: pb)
    qed
  next
    case string
    show ?thesis
    proof (cases "valuestring v = valuestring w")
      case True
      then show ?thesis using string by (intro idle agrees.string) (simp_all add: pb)
    next
      case False
      then show ?thesis using string by (intro rep) (simp add: pb)
    qed
  next
    case array
    then show ?thesis by (intro array_replay [OF IH]) simp_all
  next
    case object
    then show ?thesis using less.prems by (intro object_replay [OF IH]) simp_all
  next
    case other
    then show ?thesis by (intro idle agrees.literal) (auto simp: pb)
  qed
qed

text \<open>Two raw items count as the same, whatever their texts: no patch is made.\<close>

lemma raw_ignored: "kind v = cJSON_Raw \<Longrightarrow> kind w = cJSON_Raw \<Longrightarrow> patches_between b p v w = []"
  by (simp add: patches_between.simps [of b p v w])

lemma under_root: "under [] a = a"
  by (cases a) simp_all

text \<open>C27: When memory suffices, the patches between two documents are generated: an array of operations of
  RFC 6902 which, replayed one after the other on the source, lead to a value that agrees with the target.
  Source and target keep their nodes (the members of their objects are sorted), and exactly the array is new.\<close>

theorem generated_patches_replay:
  assumes "bounded h" "\<forall>i. may_alloc (hmem h) i" "tree_ready h b s" "tree_ready h b t" "distinct (addrs s @ addrs t)"
  shows "\<exists>x h' us as v'. generate_patches h (Some (top s)) (Some (top t)) b = Some (Some x, h') \<and> whole h' (Shape x us) \<and>
    value_at h' (Shape x us) = set_children (map as_patch as) new_array \<and>
    replay as (value_at h s) = Some v' \<and> agrees b v' (value_at h t) \<and>
    becomes h h' (addrs s @ addrs t) [] (addrs s @ addrs t @ addrs (Shape x us)) (blocks_at h' (Shape x us))"
proof -
  obtain x h' us where g: "generate_patches h (Some (top s)) (Some (top t)) b = Some (Some x, h')" "whole h' (Shape x us)"
    "value_at h' (Shape x us) = set_children (patches_between b [] (value_at h s) (value_at h t)) new_array"
    "becomes h h' (addrs s @ addrs t) [] (addrs s @ addrs t @ addrs (Shape x us)) (blocks_at h' (Shape x us))"
    using generate_patches_ok [OF assms] by blast
  have "comparable b (value_at h s)" "comparable b (value_at h t)" using assms(3,4) by (simp_all only: tree_ready_def)
  from patches_replay [OF this] obtain as v' where a: "produces (\<lambda>p. patches_between b p (value_at h s) (value_at h t)) as"
    "replay as (value_at h s) = Some v'" "agrees b v' (value_at h t)" by blast
  have "patches_between b [] (value_at h s) (value_at h t) = map as_patch as"
    using spec [OF a(1) [unfolded produces_def], of "[]"] by (simp add: under_root)
  then show ?thesis using g a(2,3) by (metis (no_types))
qed

text \<open>A document with a member that is true, and one in which it is false.\<close>

definition sample_sides :: heap where
  "sample_sides = \<lparr>nodes = [0 \<mapsto> zero_node\<lparr>nchild := Some 1, ntype := cJSON_Object\<rparr>,
       1 \<mapsto> zero_node\<lparr>nprev := Some 1, ntype := cJSON_True, nstring := Block 2 0\<rparr>,
       3 \<mapsto> zero_node\<lparr>nchild := Some 4, ntype := cJSON_Object\<rparr>,
       4 \<mapsto> zero_node\<lparr>nprev := Some 4, ntype := cJSON_False, nstring := Block 5 0\<rparr>],
     texts = [2 \<mapsto> ''ab'' @ [NUL], 5 \<mapsto> ''ab'' @ [NUL]], brk = 6,
     hmem = \<lparr>may_alloc = (\<lambda>_. True), tries = 0, live = 6, has_realloc = True, junk = (\<lambda>_. NUL)\<rparr>\<rparr>"

lemma sample_sides_facts:
  "bounded sample_sides" "may_alloc (hmem sample_sides) i"
  "tree_ready sample_sides b (Shape 0 [Shape 1 []])" "tree_ready sample_sides b (Shape 3 [Shape 4 []])"
  "value_at sample_sides (Shape 0 [Shape 1 []]) = Item cJSON_Object None 0 zero_double None [Item cJSON_True None 0 zero_double (Some ''ab'') []]"
  "value_at sample_sides (Shape 3 [Shape 4 []]) = Item cJSON_Object None 0 zero_double None [Item cJSON_False None 0 zero_double (Some ''ab'') []]"
  by (auto simp: sample_sides_def zero_node_def bounded_def text_at_def strlen_at_def kids_def cstring_def tree_ready_def)

theorem generated_patches_replay_witness:
  "\<exists>x h' us as v'. cJSONUtils_GeneratePatches sample_sides (Some 0) (Some 3) = Some (Some x, h') \<and>
     value_at h' (Shape x us) = set_children (map as_patch as) new_array \<and>
     replay as (value_at sample_sides (Shape 0 [Shape 1 []])) = Some v' \<and>
     agrees False v' (value_at sample_sides (Shape 3 [Shape 4 []]))"
proof -
  have "\<forall>i. may_alloc (hmem sample_sides) i" "distinct (addrs (Shape 0 [Shape 1 []]) @ addrs (Shape 3 [Shape 4 []]))"
    using sample_sides_facts(2) by simp_all
  from generated_patches_replay [OF sample_sides_facts(1) this(1) sample_sides_facts(3,4) this(2), of False]
  show ?thesis unfolding cJSONUtils_GeneratePatches_def shape.sel by blast
qed

end
