(* ===== verification/WsClient.thy ===== *)
theory WsClient
  imports Prelude
begin

text \<open>
  \<open>WsClient.cpp\<close>: the queue of messages for the server, the callback of libwebsockets, the thread
  that serves the connection and reconnects, and how it is stopped.

  What libwebsockets does is an argument: \<open>accepts k n\<close> is what the write after \<open>k\<close> frames
  returns for \<open>n\<close> bytes; which callbacks it gives, asked for or not, what other threads do in between and
  whether a connection is made are the inputs of the loop.
\<close>

abbreviation WS_MESSAGE_MAX_SIZE :: nat where "WS_MESSAGE_MAX_SIZE \<equiv> 32768"
abbreviation WS_KEEPALIVE_INTERVAL :: nat where "WS_KEEPALIVE_INTERVAL \<equiv> 10"
abbreviation LWS_PRE :: nat where "LWS_PRE \<equiv> 16"

section \<open>The state\<close>

text \<open>\<open>lws_client\<close> tells that the handle of the connection is not null.\<close>

record ws_client =
  lws_thread :: bool
  lws_client :: bool
  stop_flag :: bool
  no_msg :: bool
  buffer :: string
  message :: string
  message_queue :: "string list"
  last_ping_tick :: "64 word"

text \<open>The side of libwebsockets: a callback for writing was asked for since the last one, and the frames sent.\<close>

datatype frame = Text_Frame string | Ping_Frame

record lws =
  wanted :: bool
  frames :: "frame list"

definition new_WsClient :: "string \<Rightarrow> ws_client" where
  "new_WsClient junk = \<lparr>lws_thread = False, lws_client = False, stop_flag = False, no_msg = True,
     buffer = take WS_MESSAGE_MAX_SIZE (junk @ replicate WS_MESSAGE_MAX_SIZE NUL), message = [],
     message_queue = [], last_ping_tick = 0\<rparr>"

section \<open>Sending\<close>

definition sendMessage :: "string \<Rightarrow> ws_client \<times> lws \<Rightarrow> ws_client \<times> lws" where
  "sendMessage msg = (\<lambda>(c, l).
     (c\<lparr>message_queue := message_queue c @ [msg], no_msg := False\<rparr>,
      if lws_client c then l\<lparr>wanted := True\<rparr> else l))"

text \<open>\<open>snprintf\<close> of a string to the buffer: at most \<open>cap\<close> bytes with the NUL, the result is the
  length of the whole string.\<close>

definition snprintf_string :: "string \<Rightarrow> nat \<Rightarrow> nat \<Rightarrow> string \<Rightarrow> (nat \<times> string) option" where
  "snprintf_string buf p cap s =
     (let t = take (cap - 1) s @ [NUL] in
      if p + length t \<le> length buf then Some (length s, take p buf @ t @ drop (p + length t) buf) else None)"

text \<open>The loop that writes the bytes of the buffer from \<open>LWS_PRE + offset\<close> on; reading past the end
  of the buffer is undefined.\<close>

function write_loop :: "(nat \<Rightarrow> nat \<Rightarrow> int) \<Rightarrow> string \<Rightarrow> nat \<Rightarrow> nat \<Rightarrow> lws \<Rightarrow> lws option" where
  "write_loop accepts buf len offset l =
     (if offset < len then
        if length buf < LWS_PRE + len then None
        else
          (let ret = accepts (length (frames l)) (len - offset) in
           if ret \<le> 0 then Some l
           else write_loop accepts buf len (offset + nat ret)
             (l\<lparr>frames := frames l @ [Text_Frame (take (nat ret) (take (len - offset) (drop (LWS_PRE + offset) buf)))]\<rparr>))
      else Some l)"
  by pat_completeness auto
termination by (relation "measure (\<lambda>(_, _, len, offset, _). len - offset)") auto

declare write_loop.simps [simp del]

definition drainMessageQueue ::
    "(nat \<Rightarrow> nat \<Rightarrow> int) \<Rightarrow> 64 word \<Rightarrow> 64 word \<Rightarrow> ws_client \<times> lws \<Rightarrow> (ws_client \<times> lws) option" where
  "drainMessageQueue accepts now later = (\<lambda>(c, l).
     (case message_queue c of
        msg # rest \<Rightarrow> do {
          (len, buf) \<leftarrow> snprintf_string (buffer c) LWS_PRE WS_MESSAGE_MAX_SIZE (cstring msg);
          l \<leftarrow> write_loop accepts buf len 0 l;
          Some (c\<lparr>buffer := buf, message_queue := rest, no_msg := (rest = [])\<rparr>, l) }
      | [] \<Rightarrow>
          if of_nat (WS_KEEPALIVE_INTERVAL * 1000) \<le> now - last_ping_tick c
          then Some (c\<lparr>last_ping_tick := later\<rparr>, l\<lparr>frames := frames l @ [Ping_Frame]\<rparr>)
          else Some (c, l)))"

section \<open>The callback of libwebsockets\<close>

text \<open>The reasons; a received fragment comes with its bytes and whether it is the final one, a callback
  for writing with the two readings of the clock.\<close>

datatype reason =
    CLIENT_ESTABLISHED | CLIENT_CONNECTION_ERROR | CLOSED | CLIENT_RECEIVE string bool
  | CLIENT_WRITEABLE "64 word" "64 word" | WSI_DESTROY | FALLBACK_TO_RAW | CLIENT_RECEIVE_PONG | Other nat

text \<open>What \<open>lwsCallback\<close> calls in the \<open>WsCallback\<close> of the client.\<close>

datatype upcall = call_onConnected | call_onDisconnected | call_onConnectionError | call_onReceiveMessage string

definition lwsCallback :: "(nat \<Rightarrow> nat \<Rightarrow> int) \<Rightarrow> reason \<Rightarrow> ws_client \<times> lws \<Rightarrow> (upcall list \<times> ws_client \<times> lws) option" where
  "lwsCallback accepts reason = (\<lambda>(c, l).
     (case reason of
        CLIENT_ESTABLISHED \<Rightarrow> Some ([call_onConnected], c, l)
      | CLIENT_CONNECTION_ERROR \<Rightarrow> Some ([call_onConnectionError], c, l)
      | CLOSED \<Rightarrow> Some ([call_onDisconnected], c\<lparr>lws_client := False\<rparr>, l)
      | CLIENT_RECEIVE inp final \<Rightarrow>
          if 0 < length inp then
            (let m = message c @ inp in
             if final then Some ([call_onReceiveMessage m], c\<lparr>message := []\<rparr>, l)
             else Some ([], c\<lparr>message := m\<rparr>, l))
          else Some ([], c, l)
      | CLIENT_WRITEABLE now later \<Rightarrow> map_option (Pair []) (drainMessageQueue accepts now later (c, l))
      | WSI_DESTROY \<Rightarrow> Some ([], c\<lparr>lws_client := False\<rparr>, l)
      | FALLBACK_TO_RAW \<Rightarrow> Some ([], c\<lparr>lws_client := False\<rparr>, l)
      | CLIENT_RECEIVE_PONG \<Rightarrow> Some ([], c, l)
      | Other n \<Rightarrow> Some ([], c, l)))"

section \<open>The thread\<close>

text \<open>What the receiver of the callbacks does: the messages it sends and its next state.\<close>

type_synonym 'd receiver = "upcall \<Rightarrow> 'd \<Rightarrow> (string list \<times> 'd) option"

fun deliver :: "'d receiver \<Rightarrow> upcall list \<Rightarrow> ws_client \<times> lws \<Rightarrow> 'd \<Rightarrow> ((ws_client \<times> lws) \<times> 'd) option" where
  "deliver react [] s d = Some (s, d)"
| "deliver react (u # us) s d = do {
     (msgs, d) \<leftarrow> react u d;
     deliver react us (fold sendMessage msgs s) d }"

text \<open>One callback by the library: a callback for writing uses up the request for it.\<close>

definition serve ::
    "(nat \<Rightarrow> nat \<Rightarrow> int) \<Rightarrow> 'd receiver \<Rightarrow> reason \<Rightarrow>
     (ws_client \<times> lws) \<times> 'd \<Rightarrow> ((ws_client \<times> lws) \<times> 'd) option" where
  "serve accepts react r = (\<lambda>((c, l), d). do {
     (us, c, l) \<leftarrow> lwsCallback accepts r (c, case r of CLIENT_WRITEABLE _ _ \<Rightarrow> l\<lparr>wanted := False\<rparr> | _ \<Rightarrow> l);
     deliver react us (c, l) d })"

fun lws_service ::
    "(nat \<Rightarrow> nat \<Rightarrow> int) \<Rightarrow> 'd receiver \<Rightarrow> reason list \<Rightarrow>
     (ws_client \<times> lws) \<times> 'd \<Rightarrow> ((ws_client \<times> lws) \<times> 'd) option" where
  "lws_service accepts react [] s = Some s"
| "lws_service accepts react (r # rs) s = do {
     s \<leftarrow> serve accepts react r s;
     lws_service accepts react rs s }"

text \<open>One turn of the loop: what other threads do before it, whether a connection attempt made in it
  gives a handle, and the callbacks in it.\<close>

datatype outside = Send string | Stop

record turn =
  others :: "outside list"
  connects :: bool
  callbacks :: "reason list"

fun do_outside :: "outside \<Rightarrow> ws_client \<times> lws \<Rightarrow> ws_client \<times> lws" where
  "do_outside (Send msg) s = sendMessage msg s"
| "do_outside Stop (c, l) = (c\<lparr>stop_flag := True\<rparr>, l)"

text \<open>The loop of \<open>lwsTask\<close>: it has left, or is still in it when the inputs end, with its countdown.\<close>

datatype 'd task_result =
    Left "ws_client \<times> lws" 'd
  | Running int "ws_client \<times> lws" 'd

definition connect :: "bool \<Rightarrow> ws_client \<times> lws \<Rightarrow> ws_client \<times> lws" where
  "connect made = (\<lambda>(c, l). (c\<lparr>lws_client := made\<rparr>, l\<lparr>wanted := False\<rparr>))"

fun task_loop ::
    "(nat \<Rightarrow> nat \<Rightarrow> int) \<Rightarrow> 'd receiver \<Rightarrow> turn list \<Rightarrow> int \<Rightarrow>
     ws_client \<times> lws \<Rightarrow> 'd \<Rightarrow> 'd task_result option" where
  "task_loop accepts react [] countdown s d = Some (Running countdown s d)"
| "task_loop accepts react (t # ts) countdown s d =
     (let s = fold do_outside (others t) s; c = fst s; l = snd s in
      if \<not> stop_flag c \<or> \<not> no_msg c then
        if \<not> lws_client c then
          (let countdown = countdown - 1 in
           if stop_flag c then Some (Left s d)
           else if countdown = 0 then do {
             (s, d) \<leftarrow> lws_service accepts react (callbacks t) (connect (connects t) s, d);
             task_loop accepts react ts 5 s d }
           else task_loop accepts react ts countdown s d)
        else do {
          (s, d) \<leftarrow> lws_service accepts react (callbacks t) (s, d);
          task_loop accepts react ts countdown s d }
      else Some (Left s d))"

text \<open>The whole thread: the context is created or not, the first connection is made or not.\<close>

definition lwsTask ::
    "(nat \<Rightarrow> nat \<Rightarrow> int) \<Rightarrow> 'd receiver \<Rightarrow> bool \<Rightarrow> bool \<Rightarrow> turn list \<Rightarrow>
     ws_client \<times> lws \<Rightarrow> 'd \<Rightarrow> 'd task_result option" where
  "lwsTask accepts react created made ts s d =
     (if \<not> created then Some (Left s d)
      else map_option (\<lambda>r. case r of
          Left (c, l) d \<Rightarrow> Left (c\<lparr>lws_client := False\<rparr>, l) d
        | Running n s d \<Rightarrow> Running n s d)
        (task_loop accepts react ts 5 (connect made s) d))"

definition start :: "ws_client \<Rightarrow> ws_client" where
  "start c = (if lws_thread c then c else c\<lparr>lws_thread := True\<rparr>)"

text \<open>\<open>stop\<close> sets the flag and waits for the thread, which goes on with the turns \<open>ts\<close>: it returns when
  the loop has left.\<close>

definition stop ::
    "(nat \<Rightarrow> nat \<Rightarrow> int) \<Rightarrow> 'd receiver \<Rightarrow> turn list \<Rightarrow> int \<Rightarrow>
     ws_client \<times> lws \<Rightarrow> 'd \<Rightarrow> 'd task_result option" where
  "stop accepts react ts countdown = (\<lambda>(c, l) d.
     let c = c\<lparr>stop_flag := True\<rparr> in
     if \<not> lws_thread c then Some (Left (c, l) d)
     else map_option (\<lambda>r. case r of
          Left (c, l) d \<Rightarrow> Left (c\<lparr>lws_client := False, lws_thread := False\<rparr>, l) d
        | Running n s d \<Rightarrow> Running n s d)
        (task_loop accepts react ts countdown (c, l) d))"

section \<open>What is on its way\<close>

text \<open>The texts that were sent, and those that wait.\<close>

definition sent_texts :: "ws_client \<times> lws \<Rightarrow> string list" where
  "sent_texts s = concat (map (\<lambda>f. case f of Text_Frame t \<Rightarrow> [t] | Ping_Frame \<Rightarrow> []) (frames (snd s)))"

definition waiting_texts :: "ws_client \<times> lws \<Rightarrow> string list" where
  "waiting_texts s = map cstring (message_queue (fst s))"

text \<open>The invariant of the client: the size of its buffer, and \<open>no_msg\<close> tells whether the queue is empty.\<close>

definition ws_ok :: "ws_client \<times> lws \<Rightarrow> bool" where
  "ws_ok s \<longleftrightarrow> length (buffer (fst s)) = WS_MESSAGE_MAX_SIZE \<and> (no_msg (fst s) \<longleftrightarrow> message_queue (fst s) = [])"

text \<open>A text goes through the buffer: there is room before it for the library and after it for the NUL.\<close>

definition goes_through :: "string \<Rightarrow> bool" where
  "goes_through t \<longleftrightarrow> t \<noteq> [] \<and> LWS_PRE + length t + 1 \<le> WS_MESSAGE_MAX_SIZE"

text \<open>The documented answer of \<open>lws_write\<close>: all of it is taken, or buffered by the library.\<close>

definition takes_all :: "(nat \<Rightarrow> nat \<Rightarrow> int) \<Rightarrow> bool" where
  "takes_all accepts \<longleftrightarrow> (\<forall>k n. accepts k n = int n)"

lemma new_WsClient_ok: "ws_ok (new_WsClient junk, l)"
  by (simp add: ws_ok_def new_WsClient_def)

lemma snprintf_fits:
  assumes "length buf = WS_MESSAGE_MAX_SIZE"
  shows "snprintf_string buf LWS_PRE WS_MESSAGE_MAX_SIZE s =
    (if LWS_PRE + length s + 1 \<le> WS_MESSAGE_MAX_SIZE
     then Some (length s, take LWS_PRE buf @ s @ NUL # drop (LWS_PRE + length s + 1) buf) else None)"
  using assms by (auto simp: snprintf_string_def Let_def min_def)

lemma write_loop_all:
  assumes "takes_all accepts" and "LWS_PRE + len \<le> length buf"
  shows "write_loop accepts buf len 0 l =
    Some (if len = 0 then l else l\<lparr>frames := frames l @ [Text_Frame (take len (drop LWS_PRE buf))]\<rparr>)"
proof (cases "len = 0")
  case True
  then show ?thesis by (simp add: write_loop.simps)
next
  case False
  then show ?thesis using assms
    by (subst write_loop.simps) (simp add: takes_all_def Let_def write_loop.simps [of accepts buf len len])
qed

text \<open>Whatever the library takes, the pieces written are together a prefix of the text.\<close>

lemma write_loop_prefix:
  assumes "LWS_PRE + len \<le> length buf" and "offset \<le> len"
  shows "\<exists>l' ts. write_loop accepts buf len offset l = Some l' \<and> frames l' = frames l @ map Text_Frame ts \<and>
    wanted l' = wanted l \<and> (\<exists>us. take (len - offset) (drop (LWS_PRE + offset) buf) = concat ts @ us)"
  using assms
proof (induction accepts buf len offset l rule: write_loop.induct)
  case (1 accepts buf len offset l)
  define ret where "ret = accepts (length (frames l)) (len - offset)"
  define t where "t = take (nat ret) (take (len - offset) (drop (LWS_PRE + offset) buf))"
  have step: "write_loop accepts buf len offset l =
    write_loop accepts buf len (offset + nat ret) (l\<lparr>frames := frames l @ [Text_Frame t]\<rparr>)" if "offset < len \<and> 0 < ret"
    using that "1.prems"(1) unfolding t_def ret_def by (subst write_loop.simps) (simp add: Let_def)
  show ?case
  proof (cases "offset < len \<and> 0 < ret")
    case go: True
    show ?thesis
    proof (cases "offset + nat ret \<le> len")
      case True
      from "1.IH" [OF _ _ ret_def] go True "1.prems" obtain l' ts us where
        r: "write_loop accepts buf len (offset + nat ret) (l\<lparr>frames := frames l @ [Text_Frame t]\<rparr>) = Some l'"
          "frames l' = frames l @ Text_Frame t # map Text_Frame ts" "wanted l' = wanted l"
          "take (len - (offset + nat ret)) (drop (LWS_PRE + (offset + nat ret)) buf) = concat ts @ us"
        by (auto simp: t_def)
      have "take (len - offset) (drop (LWS_PRE + offset) buf) =
        t @ take (len - (offset + nat ret)) (drop (LWS_PRE + (offset + nat ret)) buf)"
      proof -
        have "t = take (nat ret) (drop (LWS_PRE + offset) buf)" using True by (simp add: t_def min_def)
        moreover have "drop (LWS_PRE + (offset + nat ret)) buf = drop (nat ret) (drop (LWS_PRE + offset) buf)"
          by (simp only: drop_drop add.assoc add.commute add.left_commute)
        moreover have "len - offset = nat ret + (len - (offset + nat ret))" using True by simp
        ultimately show ?thesis by (metis take_add)
      qed
      then have "\<exists>us. take (len - offset) (drop (LWS_PRE + offset) buf) = concat (t # ts) @ us" using r(4) by simp
      moreover have "frames l' = frames l @ map Text_Frame (t # ts)" using r(2) by simp
      moreover have "write_loop accepts buf len offset l = Some l'"
        using step [OF go] r(1) by simp
      ultimately show ?thesis using r(3) by blast
    next
      case False
      have "write_loop accepts buf len offset l = Some (l\<lparr>frames := frames l @ [Text_Frame t]\<rparr>)"
        using step [OF go] False by (simp add: write_loop.simps [of _ _ _ "offset + nat ret"])
      then show ?thesis by (intro exI [of _ "l\<lparr>frames := frames l @ [Text_Frame t]\<rparr>"] exI [of _ "[t]"])
        (use False in \<open>auto simp: t_def\<close>)
    qed
  next
    case False
    then have "write_loop accepts buf len offset l = Some l"
      using "1.prems"(1) by (subst write_loop.simps) (auto simp: ret_def [symmetric] Let_def)
    then show ?thesis by (intro exI [of _ l] exI [of _ "[]"]) simp
  qed
qed

section \<open>Draining\<close>

lemma drain_message:
  assumes ok: "ws_ok (c, l)" and q: "message_queue c = msg # rest" and r: "LWS_PRE + length (cstring msg) + 1 \<le> WS_MESSAGE_MAX_SIZE"
  shows "\<exists>c' l' ts buf. drainMessageQueue accepts now later (c, l) = Some (c', l') \<and> ws_ok (c', l') \<and>
    c' = c\<lparr>buffer := buf, message_queue := rest, no_msg := (rest = [])\<rparr> \<and> wanted l' = wanted l \<and>
    frames l' = frames l @ map Text_Frame ts \<and> (\<exists>us. cstring msg = concat ts @ us) \<and>
    (takes_all accepts \<and> cstring msg \<noteq> [] \<longrightarrow> ts = [cstring msg])"
proof -
  define t where "t = cstring msg"
  define buf where "buf = take LWS_PRE (buffer c) @ t @ NUL # drop (LWS_PRE + length t + 1) (buffer c)"
  have len: "length (buffer c) = WS_MESSAGE_MAX_SIZE" using ok by (simp add: ws_ok_def)
  then have b: "length buf = WS_MESSAGE_MAX_SIZE" "LWS_PRE + length t \<le> length buf" "take (length t) (drop LWS_PRE buf) = t"
    using r by (simp_all add: buf_def t_def)
  have sn: "snprintf_string (buffer c) LWS_PRE WS_MESSAGE_MAX_SIZE t = Some (length t, buf)"
    using snprintf_fits [OF len, of t] r by (simp add: t_def buf_def)
  obtain l' ts us where w: "write_loop accepts buf (length t) 0 l = Some l'" "frames l' = frames l @ map Text_Frame ts"
    "wanted l' = wanted l" "t = concat ts @ us" using write_loop_prefix [OF b(2), of 0 accepts l] b(3) by auto
  have "ts = [t]" if "takes_all accepts" "t \<noteq> []"
  proof -
    have "frames l' = frames l @ [Text_Frame t]" using write_loop_all [OF that(1) b(2), of l] w(1) that(2) b(3) by simp
    then show ?thesis using w(2) by (cases ts) auto
  qed
  moreover have "drainMessageQueue accepts now later (c, l) =
    Some (c\<lparr>buffer := buf, message_queue := rest, no_msg := (rest = [])\<rparr>, l')"
    using q sn w(1) by (simp add: drainMessageQueue_def t_def)
  ultimately show ?thesis using w b(1) by (auto simp: t_def ws_ok_def)
qed

lemma drain_overflow:
  assumes "ws_ok (c, l)" and "message_queue c = msg # rest" and "\<not> LWS_PRE + length (cstring msg) + 1 \<le> WS_MESSAGE_MAX_SIZE"
  shows "drainMessageQueue accepts now later (c, l) = None"
  using assms snprintf_fits [of "buffer c" "cstring msg"] by (simp add: drainMessageQueue_def ws_ok_def)

lemma drain_empty:
  assumes "message_queue c = []"
  shows "\<exists>c' l'. drainMessageQueue accepts now later (c, l) = Some (c', l') \<and>
    c' = c\<lparr>last_ping_tick := last_ping_tick c'\<rparr> \<and> wanted l' = wanted l \<and> (frames l' = frames l \<or> frames l' = frames l @ [Ping_Frame])"
  using assms by (auto simp: drainMessageQueue_def)

section \<open>The queue as a channel\<close>

text \<open>What a channel promises: a text that is pushed waits last, a pull sends the first that waits.\<close>

datatype channel_op = Push string | Pull "64 word" "64 word"

fun run_channel :: "(string \<Rightarrow> 's \<Rightarrow> 's) \<Rightarrow> (64 word \<Rightarrow> 64 word \<Rightarrow> 's \<Rightarrow> 's option) \<Rightarrow> channel_op list \<Rightarrow> 's \<Rightarrow> 's option" where
  "run_channel push pull [] s = Some s"
| "run_channel push pull (Push m # es) s = run_channel push pull es (push m s)"
| "run_channel push pull (Pull a b # es) s = Option.bind (pull a b s) (run_channel push pull es)"

definition pushed :: "channel_op list \<Rightarrow> string list" where
  "pushed es = concat (map (\<lambda>e. case e of Push m \<Rightarrow> [cstring m] | Pull _ _ \<Rightarrow> []) es)"

definition backlog :: "channel_op list \<Rightarrow> nat \<Rightarrow> nat" where
  "backlog es = fold (\<lambda>e n. case e of Push _ \<Rightarrow> n + 1 | Pull _ _ \<Rightarrow> n - 1) es"

lemma pushed_simps [simp]:
  "pushed [] = []" "pushed (Push m # es) = cstring m # pushed es" "pushed (Pull a b # es) = pushed es"
  by (simp_all add: pushed_def)

lemma backlog_simps [simp]:
  "backlog [] n = n" "backlog (Push m # es) n = backlog es (n + 1)" "backlog (Pull a b # es) n = backlog es (n - 1)"
  by (simp_all add: backlog_def)

locale channel =
  fixes push :: "string \<Rightarrow> 's \<Rightarrow> 's" and pull :: "64 word \<Rightarrow> 64 word \<Rightarrow> 's \<Rightarrow> 's option"
    and ok :: "'s \<Rightarrow> bool" and sent :: "'s \<Rightarrow> string list" and waiting :: "'s \<Rightarrow> string list" and fits :: "string \<Rightarrow> bool"
  assumes push_ok: "ok s \<Longrightarrow> ok (push m s)"
    and push_waits: "waiting (push m s) = waiting s @ [cstring m]"
    and push_sent: "sent (push m s) = sent s"
    and pull_first: "ok s \<Longrightarrow> waiting s = t # ts \<Longrightarrow> fits t \<Longrightarrow>
      \<exists>s'. pull a b s = Some s' \<and> ok s' \<and> sent s' = sent s @ [t] \<and> waiting s' = ts"
    and pull_none: "ok s \<Longrightarrow> waiting s = [] \<Longrightarrow> \<exists>s'. pull a b s = Some s' \<and> ok s' \<and> sent s' = sent s \<and> waiting s' = []"
begin

lemma pull_any:
  assumes "ok s" and "\<forall>t \<in> set (waiting s). fits t"
  shows "\<exists>s'. pull a b s = Some s' \<and> ok s' \<and> sent s' @ waiting s' = sent s @ waiting s \<and>
    length (waiting s') = length (waiting s) - 1 \<and> set (waiting s') \<subseteq> set (waiting s)"
proof (cases "waiting s")
  case Nil
  then show ?thesis using pull_none [OF assms(1)] by fastforce
next
  case (Cons t ts)
  then show ?thesis using pull_first [OF assms(1) Cons] assms(2) by fastforce
qed

lemma run_fifo:
  assumes "ok s" and "\<forall>t \<in> set (waiting s @ pushed es). fits t"
  shows "\<exists>s'. run_channel push pull es s = Some s' \<and> ok s' \<and> sent s' @ waiting s' = sent s @ waiting s @ pushed es \<and>
    length (waiting s') = backlog es (length (waiting s))"
  using assms
proof (induction es arbitrary: s)
  case (Cons e es)
  show ?case
  proof (cases e)
    case (Push m)
    then show ?thesis using Cons.IH [OF push_ok [OF Cons.prems(1), of m]] Cons.prems(2) by (simp add: push_waits push_sent)
  next
    case (Pull a b)
    obtain s' where s': "pull a b s = Some s'" "ok s'" "sent s' @ waiting s' = sent s @ waiting s"
      "length (waiting s') = length (waiting s) - 1" "set (waiting s') \<subseteq> set (waiting s)"
      using pull_any [OF Cons.prems(1)] Cons.prems(2) by fastforce
    have "\<forall>t \<in> set (waiting s' @ pushed es). fits t" using Cons.prems(2) s'(5) Pull by auto
    from Cons.IH [OF s'(2) this] obtain s2 where "run_channel push pull es s' = Some s2" "ok s2"
      "sent s2 @ waiting s2 = sent s' @ waiting s' @ pushed es" "length (waiting s2) = backlog es (length (waiting s'))" by blast
    then show ?thesis using s' Pull by (simp flip: append_assoc)
  qed
qed simp

end

lemma sendMessage_channel:
  "ws_ok s \<Longrightarrow> ws_ok (sendMessage m s)" "waiting_texts (sendMessage m s) = waiting_texts s @ [cstring m]"
  "sent_texts (sendMessage m s) = sent_texts s"
  by (cases s; simp add: sendMessage_def ws_ok_def waiting_texts_def sent_texts_def)+


lemma drain_channel:
  assumes "takes_all accepts" and "ws_ok s" and "waiting_texts s = t # ts" and "goes_through t"
  shows "\<exists>s'. drainMessageQueue accepts a b s = Some s' \<and> ws_ok s' \<and> sent_texts s' = sent_texts s @ [t] \<and> waiting_texts s' = ts"
proof -
  obtain c l where s: "s = (c, l)" by (cases s)
  obtain m ms where q: "message_queue c = m # ms" "cstring m = t" "map cstring ms = ts"
    using assms(3) s by (auto simp: waiting_texts_def Cons_eq_map_conv)
  have "LWS_PRE + length (cstring m) + 1 \<le> WS_MESSAGE_MAX_SIZE" "cstring m \<noteq> []" using assms(4) q(2) by (simp_all add: goes_through_def)
  with drain_message [OF assms(2) [unfolded s] q(1), of accepts a b] assms(1) obtain c' l' buf where
    d: "drainMessageQueue accepts a b (c, l) = Some (c', l')" "ws_ok (c', l')"
      "c' = c\<lparr>buffer := buf, message_queue := ms, no_msg := (ms = [])\<rparr>" "frames l' = frames l @ [Text_Frame t]"
    using q(2) by auto
  then show ?thesis using s q(3) by (simp add: sent_texts_def waiting_texts_def)
qed

lemma drain_channel_empty:
  assumes "ws_ok s" and "waiting_texts s = []"
  shows "\<exists>s'. drainMessageQueue accepts a b s = Some s' \<and> ws_ok s' \<and> sent_texts s' = sent_texts s \<and> waiting_texts s' = []"
  using assms by (cases s) (auto simp: drainMessageQueue_def ws_ok_def waiting_texts_def sent_texts_def)

interpretation queue: channel sendMessage "drainMessageQueue (\<lambda>k. int)" ws_ok sent_texts waiting_texts goes_through
  using drain_channel [of "\<lambda>k. int"] drain_channel_empty by unfold_locales (auto simp: sendMessage_channel takes_all_def)

lemma takes_all_eq: "takes_all accepts \<Longrightarrow> accepts = (\<lambda>k. int)"
  by (auto simp: takes_all_def fun_eq_iff)

section \<open>Waiting for the thread\<close>

text \<open>A receiver that sends nothing while its state is in \<open>D\<close>, and what it has an answer to.\<close>

definition mute :: "('d \<Rightarrow> bool) \<Rightarrow> 'd receiver \<Rightarrow> bool" where
  "mute D react \<longleftrightarrow> (\<forall>u d. D d \<longrightarrow> pred_option (\<lambda>(ms, d'). ms = [] \<and> D d') (react u d))"

definition hears :: "('d \<Rightarrow> bool) \<Rightarrow> (upcall \<Rightarrow> bool) \<Rightarrow> 'd receiver \<Rightarrow> bool" where
  "hears D U react \<longleftrightarrow> (\<forall>u d. D d \<and> U u \<longrightarrow> react u d \<noteq> None)"

text \<open>A receiver that sends nothing at all, and turns in which nobody sends and the connection stays.\<close>

definition silent :: "'d receiver \<Rightarrow> bool" where
  "silent react \<longleftrightarrow> (\<forall>u d. \<exists>d'. react u d = Some ([], d'))"

definition closing :: "reason \<Rightarrow> bool" where
  "closing r \<longleftrightarrow> r = CLOSED \<or> r = WSI_DESTROY \<or> r = FALLBACK_TO_RAW"

definition quiet :: "turn \<Rightarrow> bool" where
  "quiet t \<longleftrightarrow> (\<forall>x \<in> set (others t). x = Stop) \<and> (\<forall>r \<in> set (callbacks t). \<not> closing r)"

text \<open>The calls that a callback may make.\<close>

definition calls :: "reason \<Rightarrow> upcall \<Rightarrow> bool" where
  "calls r u = (case u of
     call_onReceiveMessage m \<Rightarrow> (case r of CLIENT_RECEIVE inp final \<Rightarrow> True | _ \<Rightarrow> False)
   | _ \<Rightarrow> True)"

text \<open>The number of the callbacks for writing, asked for or not.\<close>

fun writing :: "reason \<Rightarrow> bool" where
  "writing (CLIENT_WRITEABLE a b) = True"
| "writing r = False"

definition writes :: "reason list \<Rightarrow> nat" where
  "writes rs = length (filter writing rs)"

definition turn_writes :: "turn list \<Rightarrow> nat" where
  "turn_writes ts = writes (concat (map callbacks ts))"

lemma writes_simps [simp]:
  "writes [] = 0" "writes (r # rs) = (if writing r then Suc (writes rs) else writes rs)"
  "turn_writes [] = 0" "turn_writes (t # ts) = writes (callbacks t) + turn_writes ts"
  by (simp_all add: writes_def turn_writes_def)

lemma silent_mute: "silent react \<Longrightarrow> mute (\<lambda>_. True) react \<and> hears (\<lambda>_. True) U react"
proof -
  assume a: "silent react"
  have "pred_option (\<lambda>(ms, d'). ms = []) (react u d) \<and> react u d \<noteq> None" for u d
    using a unfolding silent_def by (metis (mono_tags) case_prodI option.distinct(1) option.pred_inject(2))
  then show ?thesis by (simp add: mute_def hears_def)
qed

lemma deliver_mute:
  assumes "mute D react" and "D d"
  shows "pred_option (\<lambda>(s', d'). s' = s \<and> D d') (deliver react us s d)"
    "hears D U react \<Longrightarrow> \<forall>u \<in> set us. U u \<Longrightarrow> deliver react us s d \<noteq> None"
  using assms(2)
proof (induction us arbitrary: d)
  case (Cons u us)
  case 1
  show ?case using assms(1) Cons.IH(1) 1 unfolding mute_def
    by (auto intro!: pred_bind [where Q = "\<lambda>(ms, d'). ms = [] \<and> D d'"])
next
  case (Cons u us)
  case 2
  obtain ms d' where r: "react u d = Some (ms, d')" using 2 unfolding hears_def by fastforce
  then have "ms = [] \<and> D d'" using assms(1) 2 unfolding mute_def by (fastforce simp: pred_option_iff)
  then show ?case using r Cons.IH(2) 2 by simp
qed simp_all

lemma writing_serve:
  assumes "ws_ok (c, l)" "message_queue c = msg # rest" "goes_through (cstring msg)" "takes_all accepts"
  shows "\<exists>c' l' buf. serve accepts react (CLIENT_WRITEABLE a b) ((c, l), d) = Some ((c', l'), d) \<and> ws_ok (c', l') \<and>
    c' = c\<lparr>buffer := buf, message_queue := rest, no_msg := (rest = [])\<rparr> \<and> \<not> wanted l' \<and>
    sent_texts (c', l') = sent_texts (c, l) @ [cstring msg]"
proof -
  have r: "LWS_PRE + length (cstring msg) + 1 \<le> WS_MESSAGE_MAX_SIZE" "cstring msg \<noteq> []" using assms(3) by (simp_all add: goes_through_def)
  have "ws_ok (c, l\<lparr>wanted := False\<rparr>)" using assms(1) by (simp add: ws_ok_def)
  from drain_message [OF this assms(2) r(1), of accepts a b] obtain c' l' ts buf where
    "drainMessageQueue accepts a b (c, l\<lparr>wanted := False\<rparr>) = Some (c', l')" "ws_ok (c', l')"
    "c' = c\<lparr>buffer := buf, message_queue := rest, no_msg := (rest = [])\<rparr>" "\<not> wanted l'"
    "frames l' = frames l @ map Text_Frame ts" "ts = [cstring msg]" using assms(4) r(2) by auto
  then show ?thesis by (auto simp: serve_def lwsCallback_def sent_texts_def)
qed

text \<open>After \<open>k\<close> callbacks for writing on an open connection of a client that is being stopped with the queue \<open>q\<close>:
  as many messages have been sent, and a callback is asked for only if none has come.\<close>

definition served :: "nat \<Rightarrow> string list \<Rightarrow> string list \<Rightarrow> ws_client \<times> lws \<Rightarrow> bool" where
  "served k q ts s \<longleftrightarrow> ws_ok s \<and> lws_client (fst s) \<and> stop_flag (fst s) \<and> message_queue (fst s) = drop k q \<and>
     sent_texts s = ts @ map cstring (take k q) \<and> (wanted (snd s) \<longleftrightarrow> k = 0)"

lemma served_writing:
  assumes s: "served k q ts (c, l)" and a: "takes_all accepts" and q: "\<forall>m \<in> set q. goes_through (cstring m)"
  shows "\<exists>s'. serve accepts react (CLIENT_WRITEABLE a b) ((c, l), d) = Some (s', d) \<and> served (Suc k) q ts s'"
proof (cases "drop k q")
  case Nil
  have ok: "ws_ok (c, l\<lparr>wanted := False\<rparr>)" "message_queue c = []" using s Nil by (simp_all add: served_def ws_ok_def)
  from drain_empty [OF ok(2), of accepts a b "l\<lparr>wanted := False\<rparr>"] obtain c' l' where
    d: "drainMessageQueue accepts a b (c, l\<lparr>wanted := False\<rparr>) = Some (c', l')"
    "c' = c\<lparr>last_ping_tick := last_ping_tick c'\<rparr>" "\<not> wanted l'" "frames l' = frames l \<or> frames l' = frames l @ [Ping_Frame]" by auto
  have c': "buffer c' = buffer c" "no_msg c' = no_msg c" "message_queue c' = message_queue c" "lws_client c' = lws_client c"
    "stop_flag c' = stop_flag c" by (subst d(2), simp)+
  have "length q \<le> k" "take (Suc k) q = take k q" "drop (Suc k) q = []" using Nil by simp_all
  then have "served (Suc k) q ts (c', l')" using s d(3,4) c' by (auto simp: served_def ws_ok_def sent_texts_def)
  moreover have "serve accepts react (CLIENT_WRITEABLE a b) ((c, l), d) = Some ((c', l'), d)" using d(1) by (simp add: serve_def lwsCallback_def)
  ultimately show ?thesis by blast
next
  case (Cons m ms)
  then have k: "k < length q" "m \<in> set q" by (metis drop_all leI list.distinct(1), metis in_set_dropD list.set_intros(1))
  have q1: "ws_ok (c, l)" "message_queue c = m # ms" using s Cons by (simp_all add: served_def)
  have "goes_through (cstring m)" using q k(2) by blast
  from writing_serve [OF q1 this a, where a = a and b = b and react = react and d = d] obtain c' l' buf where
    w: "serve accepts react (CLIENT_WRITEABLE a b) ((c, l), d) = Some ((c', l'), d)" "ws_ok (c', l')"
      "c' = c\<lparr>buffer := buf, message_queue := ms, no_msg := (ms = [])\<rparr>" "\<not> wanted l'"
      "sent_texts (c', l') = sent_texts (c, l) @ [cstring m]" by blast
  have "drop (Suc k) q = ms" "take (Suc k) q = take k q @ [m]"
    using Cons Cons_nth_drop_Suc [OF k(1)] take_Suc_conv_app_nth [OF k(1)] by auto
  then have "served (Suc k) q ts (c', l')" using s w(2-5) by (simp add: served_def)
  then show ?thesis using w(1) by blast
qed

text \<open>The surroundings: the library takes what it is given, the receiver is silent, the texts fit.\<close>

definition surroundings :: "string list \<Rightarrow> (nat \<Rightarrow> nat \<Rightarrow> int) \<Rightarrow> ('d \<Rightarrow> bool) \<Rightarrow> 'd receiver \<Rightarrow> bool" where
  "surroundings q accepts D react \<longleftrightarrow> (\<forall>m \<in> set q. goes_through (cstring m)) \<and> takes_all accepts \<and> mute D react"

text \<open>What each step does to a result that may be undefined, and when it is not.\<close>

definition stays :: "('s \<Rightarrow> bool) \<Rightarrow> ('d \<Rightarrow> bool) \<Rightarrow> bool \<Rightarrow> ('s \<times> 'd) option \<Rightarrow> bool" where
  "stays P D heard r \<longleftrightarrow> pred_option (\<lambda>(s, d). P s \<and> D d) r \<and> (heard \<longrightarrow> r \<noteq> None)"

lemma served_serve:
  assumes e: "surroundings q accepts D react" and s: "served k q ts s" "D d" "\<not> closing r"
  shows "stays (served (if writing r then Suc k else k) q ts) D (hears D U react \<and> (\<forall>u. calls r u \<longrightarrow> U u)) (serve accepts react r (s, d))"
proof -
  obtain c l where cl: "s = (c, l)" by (cases s)
  have n: "\<forall>m \<in> set q. goes_through (cstring m)" "takes_all accepts" "mute D react" using e by (simp_all add: surroundings_def)
  show ?thesis
  proof (cases "writing r")
    case True
    then obtain a b where r: "r = CLIENT_WRITEABLE a b" by (cases r) simp_all
    from served_writing [OF s(1) [unfolded cl] n(2,1), of react a b d] show ?thesis using s(2) by (auto simp: r cl stays_def)
  next
    case False
    have "\<exists>us c'. lwsCallback accepts r (c, l) = Some (us, c', l) \<and> served k q ts (c', l) \<and> (\<forall>u \<in> set us. calls r u)"
      using s(1,3) False cl by (cases r) (auto simp: lwsCallback_def served_def closing_def calls_def ws_ok_def sent_texts_def Let_def)
    then obtain us c' where u: "lwsCallback accepts r (c, l) = Some (us, c', l)" "served k q ts (c', l)"
      "\<forall>u \<in> set us. calls r u" by blast
    have "(case r of CLIENT_WRITEABLE a b \<Rightarrow> l\<lparr>wanted := False\<rparr> | _ \<Rightarrow> l) = l" using False by (cases r) auto
    then have eq: "serve accepts react r (s, d) = deliver react us (c', l) d" using u(1) by (simp add: cl serve_def)
    show ?thesis using deliver_mute [OF n(3) s(2), where s = "(c', l)" and us = us] u(2,3) False unfolding eq
      by (fastforce simp: pred_option_iff stays_def)
  qed
qed

lemma served_service:
  assumes e: "surroundings q accepts D react"
  shows "served k q ts s \<Longrightarrow> D d \<Longrightarrow> \<forall>r \<in> set rs. \<not> closing r \<Longrightarrow>
    stays (served (k + writes rs) q ts) D (hears D U react \<and> (\<forall>r \<in> set rs. \<forall>u. calls r u \<longrightarrow> U u)) (lws_service accepts react rs (s, d))"
proof (induction rs arbitrary: k s d)
  case (Cons r rs)
  note h = served_serve [OF e Cons.prems(1,2), of r U]
  show ?case
  proof (cases "serve accepts react r (s, d)")
    case (Some x)
    obtain s1 d1 where x: "x = (s1, d1)" by (cases x)
    have "served (if writing r then Suc k else k) q ts s1" "D d1" using h Cons.prems(3) Some x by (auto simp: stays_def)
    from Cons.IH [OF this] show ?thesis using Cons.prems(3) Some x by (auto simp: stays_def)
  qed (use h Cons.prems(3) in \<open>auto simp: stays_def\<close>)
qed (simp add: stays_def)

lemma served_others:
  assumes "served k q ts s" and "\<forall>x \<in> set xs. x = Stop"
  shows "served k q ts (fold do_outside xs s)"
  using assms
proof (induction xs arbitrary: s)
  case (Cons x xs)
  then have "served k q ts (do_outside x s)" by (cases s) (auto simp: served_def ws_ok_def sent_texts_def)
  then show ?case using Cons by simp
qed simp

text \<open>One turn: while messages wait, its callbacks are served; when none waits, the loop leaves.\<close>

lemma served_turn:
  assumes e: "surroundings q accepts D react" and s: "served k q ts s" "quiet t"
  shows "length q \<le> k \<Longrightarrow> \<exists>s'. task_loop accepts react (t # turns) countdown s d = Some (Left s' d) \<and> served k q ts s'"
    "k < length q \<Longrightarrow> \<exists>s'. served k q ts s' \<and> task_loop accepts react (t # turns) countdown s d =
      Option.bind (lws_service accepts react (callbacks t) (s', d)) (\<lambda>(s, d). task_loop accepts react turns countdown s d)"
proof -
  let ?s = "fold do_outside (others t) s"
  have s1: "served k q ts ?s" using served_others [OF s(1)] s(2) by (simp add: quiet_def)
  then have f: "lws_client (fst ?s)" "stop_flag (fst ?s)" "no_msg (fst ?s) \<longleftrightarrow> length q \<le> k" by (auto simp: served_def ws_ok_def)
  show "length q \<le> k \<Longrightarrow> \<exists>s'. task_loop accepts react (t # turns) countdown s d = Some (Left s' d) \<and> served k q ts s'"
    using f s1 by (simp add: Let_def)
  show "k < length q \<Longrightarrow> \<exists>s'. served k q ts s' \<and> task_loop accepts react (t # turns) countdown s d =
      Option.bind (lws_service accepts react (callbacks t) (s', d)) (\<lambda>(s, d). task_loop accepts react turns countdown s d)"
    using f s1 by (intro exI [of _ ?s]) (simp add: Let_def)
qed

text \<open>The loop: it is still running after too few callbacks for writing, and leaves in the turn after the last one.\<close>

definition result_of :: "nat \<Rightarrow> string list \<Rightarrow> string list \<Rightarrow> 'd task_result \<Rightarrow> bool" where
  "result_of k q ts r = (case r of
     Running n s d \<Rightarrow> k < length q \<and> served k q ts s
   | Left s d \<Rightarrow> length q \<le> k \<and> (\<exists>j. length q \<le> j \<and> served j q ts s))"

lemma served_loop:
  assumes e: "surroundings q accepts D react"
  shows "served k q ts s \<Longrightarrow> D d \<Longrightarrow> \<forall>t \<in> set turns. quiet t \<Longrightarrow> k + turn_writes turns < length q \<or> turns \<noteq> [] \<and> length q \<le> k + turn_writes (butlast turns) \<Longrightarrow>
    pred_option (result_of (k + turn_writes turns) q ts) (task_loop accepts react turns countdown s d) \<and>
    (hears D U react \<longrightarrow> (\<forall>t \<in> set turns. \<forall>r \<in> set (callbacks t). \<forall>u. calls r u \<longrightarrow> U u) \<longrightarrow>
      task_loop accepts react turns countdown s d \<noteq> None)"
proof (induction turns arbitrary: k s d countdown)
  case Nil
  then show ?case by (simp add: result_of_def)
next
  case (Cons t turns)
  have t: "quiet t" "\<forall>r \<in> set (callbacks t). \<not> closing r" using Cons.prems(3) by (simp_all add: quiet_def)
  note turn = served_turn [OF e Cons.prems(1) t(1), of turns countdown d]
  show ?case
  proof (cases "length q \<le> k")
    case True
    then show ?thesis using turn(1) by (auto simp: result_of_def simp del: task_loop.simps)
  next
    case False
    then obtain s1 where s1: "served k q ts s1" "task_loop accepts react (t # turns) countdown s d =
      Option.bind (lws_service accepts react (callbacks t) (s1, d)) (\<lambda>(s, d). task_loop accepts react turns countdown s d)"
      using turn(2) by auto
    note h = served_service [OF e s1(1) Cons.prems(2) t(2), of U]
    show ?thesis
    proof (cases "lws_service accepts react (callbacks t) (s1, d)")
      case (Some x)
      obtain s2 d2 where x: "x = (s2, d2)" by (cases x)
      have s2: "served (k + writes (callbacks t)) q ts s2" "D d2" using h Some x by (auto simp: stays_def)
      have "k + writes (callbacks t) + turn_writes turns < length q \<or>
          turns \<noteq> [] \<and> length q \<le> k + writes (callbacks t) + turn_writes (butlast turns)"
        using Cons.prems(4) False by (cases "turns = []") (auto simp: add.assoc)
      from Cons.IH [OF s2 _ this, of countdown] show ?thesis
        using Cons.prems(3) unfolding s1(2) Some x by (simp add: add.assoc del: task_loop.simps)
    next
      case None
      then show ?thesis using h unfolding s1(2) by (auto simp: stays_def simp del: task_loop.simps)
    qed
  qed
qed

lemma served_start: "ws_ok (c, l) \<Longrightarrow> lws_client c \<Longrightarrow> wanted l \<Longrightarrow> message_queue c = q \<Longrightarrow>
    served 0 q (sent_texts (c, l)) (c\<lparr>stop_flag := True\<rparr>, l)"
  by (simp add: served_def ws_ok_def sent_texts_def)

text \<open>So the whole of \<open>stop\<close>, in terms of what has been sent and what waits.\<close>

definition stop_result :: "nat \<Rightarrow> ws_client \<times> lws \<Rightarrow> 'd task_result \<Rightarrow> bool" where
  "stop_result k s r = (case r of
     Running n s' d \<Rightarrow> k < length (waiting_texts s) \<and> sent_texts s' = sent_texts s @ take k (waiting_texts s) \<and>
       waiting_texts s' = drop k (waiting_texts s) \<and> (wanted (snd s') \<longleftrightarrow> k = 0)
   | Left s' d \<Rightarrow> length (waiting_texts s) \<le> k \<and> sent_texts s' = sent_texts s @ waiting_texts s \<and> waiting_texts s' = [] \<and>
       \<not> lws_thread (fst s'))"

lemma stop_counts:
  assumes e: "surroundings (message_queue c) accepts D react" and c: "ws_ok (c, l)" "lws_thread c" "lws_client c" "wanted l"
    and d: "D d" and t: "\<forall>t \<in> set turns. quiet t"
    and n: "turn_writes turns < length (message_queue c) \<or> turns \<noteq> [] \<and> length (message_queue c) \<le> turn_writes (butlast turns)"
  shows "pred_option (stop_result (turn_writes turns) (c, l)) (stop accepts react turns countdown (c, l) d)"
    "hears D U react \<Longrightarrow> \<forall>t \<in> set turns. \<forall>r \<in> set (callbacks t). \<forall>u. calls r u \<longrightarrow> U u \<Longrightarrow>
      stop accepts react turns countdown (c, l) d \<noteq> None"
proof -
  note h = served_loop [OF e served_start [OF c(1,3,4) refl] d t, of countdown U]
  have "stop_result (turn_writes turns) (c, l) (case r of
      Left (c, l) d \<Rightarrow> Left (c\<lparr>lws_client := False, lws_thread := False\<rparr>, l) d | Running n s d \<Rightarrow> Running n s d)"
    if "result_of (turn_writes turns) (message_queue c) (sent_texts (c, l)) r" for r
    using that by (auto simp: result_of_def stop_result_def served_def waiting_texts_def take_map drop_map sent_texts_def split: task_result.splits)
  then show "pred_option (stop_result (turn_writes turns) (c, l)) (stop accepts react turns countdown (c, l) d)"
    using h n c(2) by (auto simp: stop_def pred_option_iff simp del: task_loop.simps)
  show "hears D U react \<Longrightarrow> \<forall>t \<in> set turns. \<forall>r \<in> set (callbacks t). \<forall>u. calls r u \<longrightarrow> U u \<Longrightarrow>
      stop accepts react turns countdown (c, l) d \<noteq> None"
    using h n c(2) by (simp add: stop_def del: task_loop.simps)
qed

lemma only_stop:
  assumes "stop_flag c"
  shows "\<forall>x \<in> set xs. x = Stop \<Longrightarrow> fold do_outside xs (c, l) = (c, l)"
proof -
  have "c\<lparr>stop_flag := True\<rparr> = c" using assms by (cases c) simp
  then show "\<forall>x \<in> set xs. x = Stop \<Longrightarrow> fold do_outside xs (c, l) = (c, l)" by (induction xs) auto
qed

text \<open>A sequence of callbacks, with all the calls made in them.\<close>

fun run_callbacks :: "(nat \<Rightarrow> nat \<Rightarrow> int) \<Rightarrow> reason list \<Rightarrow> ws_client \<times> lws \<Rightarrow> (upcall list \<times> ws_client \<times> lws) option" where
  "run_callbacks accepts [] s = Some ([], s)"
| "run_callbacks accepts (r # rs) s = do {
     (us, s) \<leftarrow> lwsCallback accepts r s;
     (vs, s) \<leftarrow> run_callbacks accepts rs s;
     Some (us @ vs, s) }"

lemma run_fragments:
  "run_callbacks accepts (map (\<lambda>f. CLIENT_RECEIVE f False) fs @ rs) (c, l) =
    run_callbacks accepts rs (c\<lparr>message := message c @ concat fs\<rparr>, l)"
proof (induction fs arbitrary: c)
  case (Cons f fs)
  then show ?case by (cases "run_callbacks accepts rs (c\<lparr>message := message c @ concat (f # fs)\<rparr>, l)")
    (auto simp: lwsCallback_def Let_def)
qed simp

section \<open>The properties\<close>

text \<open>C29: Over any sequence of calls of \<open>sendMessage\<close> and callbacks for writing, with texts that go
  through the buffer, nothing is undefined, and what was sent followed by what waits is what was sent and
  waited before followed by what was pushed: no message is lost, doubled or overtaken.  Each callback
  takes one message, and the flag that the thread reads agrees with the queue.\<close>

theorem messages_in_order:
  assumes "takes_all accepts" and "ws_ok s" and "\<forall>t \<in> set (waiting_texts s @ pushed es). goes_through t"
  shows "\<exists>s'. run_channel sendMessage (drainMessageQueue accepts) es s = Some s' \<and> ws_ok s' \<and>
    sent_texts s' @ waiting_texts s' = sent_texts s @ waiting_texts s @ pushed es \<and>
    length (waiting_texts s') = backlog es (length (waiting_texts s))"
  using queue.run_fifo [OF assms(2,3)] takes_all_eq [OF assms(1)] by simp

theorem messages_in_order_witness:
  "\<exists>s'. run_channel sendMessage (drainMessageQueue (\<lambda>k. int)) [Push ''a'', Push ''b'', Pull 0 0]
     (new_WsClient [], \<lparr>wanted = False, frames = []\<rparr>) = Some s' \<and> sent_texts s' @ waiting_texts s' = [''a'', ''b''] \<and>
     length (waiting_texts s') = 1"
  using messages_in_order [OF _ new_WsClient_ok, of "\<lambda>k. int" "[]" "\<lparr>wanted = False, frames = []\<rparr>" "[Push ''a'', Push ''b'', Pull 0 0]"]
  by (auto simp: takes_all_def goes_through_def cstring_def waiting_texts_def sent_texts_def new_WsClient_def)

text \<open>C31: A callback for writing is defined exactly when the first message, cut at a NUL, and its own NUL
  fit the buffer behind the bytes left to the library, so messages of more than 32751 bytes overflow it;
  then the message leaves the queue, and whatever the library takes, what was written is a prefix of it.\<close>

theorem drain_stays_in_buffer:
  assumes "ws_ok (c, l)" and "message_queue c = msg # rest"
  shows "(drainMessageQueue accepts now later (c, l) \<noteq> None \<longleftrightarrow> length (cstring msg) \<le> 32751) \<and>
    (\<forall>c' l'. drainMessageQueue accepts now later (c, l) = Some (c', l') \<longrightarrow> message_queue c' = rest \<and> ws_ok (c', l') \<and>
      (\<exists>ts us. frames l' = frames l @ map Text_Frame ts \<and> cstring msg = concat ts @ us))"
proof (cases "LWS_PRE + length (cstring msg) + 1 \<le> WS_MESSAGE_MAX_SIZE")
  case True
  from drain_message [OF assms True, of accepts now later] obtain c' l' ts buf us where
    "drainMessageQueue accepts now later (c, l) = Some (c', l')" "ws_ok (c', l')"
    "c' = c\<lparr>buffer := buf, message_queue := rest, no_msg := (rest = [])\<rparr>"
    "frames l' = frames l @ map Text_Frame ts" "cstring msg = concat ts @ us" by (elim exE conjE)
  then show ?thesis using True by auto
next
  case False
  then show ?thesis using drain_overflow [OF assms False] by simp
qed

theorem drain_stays_in_buffer_witness:
  "drainMessageQueue (\<lambda>k. int) 0 0 (sendMessage (replicate 32752 CHR ''a'') (new_WsClient [], \<lparr>wanted = False, frames = []\<rparr>)) = None"
proof -
  have q: "sendMessage (replicate 32752 CHR ''a'') (new_WsClient [], \<lparr>wanted = False, frames = []\<rparr>) =
    ((new_WsClient [])\<lparr>message_queue := [replicate 32752 CHR ''a''], no_msg := False\<rparr>, \<lparr>wanted = False, frames = []\<rparr>)"
    by (simp add: sendMessage_def new_WsClient_def)
  have c: "cstring (replicate n CHR ''a'') = replicate n CHR ''a''" for n by (simp add: cstring_def)
  have "ws_ok ((new_WsClient [])\<lparr>message_queue := [replicate 32752 CHR ''a''], no_msg := False\<rparr>, \<lparr>wanted = False, frames = []\<rparr>)"
    by (simp add: ws_ok_def new_WsClient_def)
  from drain_stays_in_buffer [OF this, of "replicate 32752 CHR ''a''" "[]" "\<lambda>k. int" 0 0] c [of 32752]
  show ?thesis unfolding q by (simp del: not_None_eq not_Some_eq)
qed

text \<open>C30: Fragments of a message that end in a non-empty final one are given to the receiver as one
  message; after an empty final fragment they are kept and will be the start of the next message.\<close>

theorem fragments_joined:
  assumes "message c = []"
  shows "run_callbacks accepts (map (\<lambda>f. CLIENT_RECEIVE f False) fs @ [CLIENT_RECEIVE g True]) (c, l) =
    Some (if g \<noteq> [] then ([call_onReceiveMessage (concat fs @ g)], c, l) else ([], c\<lparr>message := concat fs\<rparr>, l))"
  using assms by (auto simp: run_fragments lwsCallback_def Let_def)

theorem fragments_joined_witness:
  "run_callbacks (\<lambda>k. int) [CLIENT_RECEIVE ''{'' False, CLIENT_RECEIVE ''}'' True] (new_WsClient [], \<lparr>wanted = False, frames = []\<rparr>) =
    Some ([call_onReceiveMessage ''{}''], new_WsClient [], \<lparr>wanted = False, frames = []\<rparr>)"
  using fragments_joined [of "new_WsClient []" "\<lambda>k. int" "[''{'']" "''}''"] by (simp add: new_WsClient_def)

text \<open>C32: Stopping sends the last message: when one message waits on an open connection, the callback for
  writing comes in the next turn, the thread leaves in the turn after it with the message
  sent.\<close>

theorem stop_sends_last_message:
  assumes "ws_ok (c, l)" and "lws_thread c" and "lws_client c" and "message_queue c = [msg]" and "goes_through (cstring msg)"
    and "takes_all accepts"
    and "callbacks t = [CLIENT_WRITEABLE a b]" and "\<forall>x \<in> set (others t @ others t'). x = Stop"
  shows "\<exists>c' l'. stop accepts react (t # t' # ts) countdown (c, l) d = Some (Left (c', l') d) \<and>
    sent_texts (c', l') = sent_texts (c, l) @ [cstring msg] \<and> message_queue c' = [] \<and> \<not> lws_thread c'"
proof -
  define c1 where "c1 = c\<lparr>stop_flag := True\<rparr>"
  have c1: "ws_ok (c1, l)" "message_queue c1 = [msg]" using assms(1,4) by (simp_all add: c1_def ws_ok_def)
  obtain c2 l2 buf where s: "serve accepts react (CLIENT_WRITEABLE a b) ((c1, l), d) = Some ((c2, l2), d)" 
    "c2 = c1\<lparr>buffer := buf, message_queue := [], no_msg := True\<rparr>" "sent_texts (c2, l2) = sent_texts (c1, l) @ [cstring msg]"
    using writing_serve [where accepts = accepts and a = a and b = b, OF c1 assms(5,6), of react d] by auto
  have c2: "stop_flag c2" "no_msg c2" "message_queue c2 = []" by (simp_all add: s(2) c1_def)
  have "fold do_outside (others t) (c1, l) = (c1, l)" "fold do_outside (others t') (c2, l2) = (c2, l2)"
    using assms(8) c2(1) by (auto intro!: only_stop simp: c1_def)
  moreover have "stop_flag c1" "\<not> no_msg c1" "lws_client c1" using assms(1,3,4) by (simp_all add: c1_def ws_ok_def)
  ultimately have "task_loop accepts react (t # t' # ts) countdown (c1, l) d = Some (Left (c2, l2) d)"
    using s(1) c2 assms(7) by simp
  then show ?thesis using assms(2) s(3) c2(3) by (simp add: stop_def c1_def [symmetric] sent_texts_def)
qed

theorem stop_sends_last_message_witness:
  "\<exists>c' l'. stop (\<lambda>k. int) (\<lambda>u d. Some ([], d))
     [\<lparr>others = [], connects = False, callbacks = [CLIENT_WRITEABLE 0 0]\<rparr>, \<lparr>others = [], connects = False, callbacks = []\<rparr>] 5
     ((new_WsClient [])\<lparr>lws_thread := True, lws_client := True, no_msg := False, message_queue := [''leave'']\<rparr>,
      \<lparr>wanted = True, frames = []\<rparr>) () = Some (Left (c', l') ()) \<and> sent_texts (c', l') = [''leave'']"
  using stop_sends_last_message [of "(new_WsClient [])\<lparr>lws_thread := True, lws_client := True, no_msg := False, message_queue := [''leave'']\<rparr>"
      "\<lparr>wanted = True, frames = []\<rparr>" "''leave''" "\<lambda>k. int"
      "\<lparr>others = [], connects = False, callbacks = [CLIENT_WRITEABLE 0 0]\<rparr>" 0 0 "\<lparr>others = [], connects = False, callbacks = []\<rparr>"
      "\<lambda>u d. Some ([], d)" "[]" 5 "()"]
  by (auto simp: ws_ok_def new_WsClient_def goes_through_def takes_all_def cstring_def sent_texts_def)

text \<open>C33: Stopping a client with messages waiting on an open connection, over any turns in which nobody sends and
  the connection stays, whatever callbacks come in them: each callback for writing sends one message, and the
  thread leaves exactly after as many of them as messages wait, all sent.  But the requests for a callback that
  the messages made are used up by the first: from then on none is open, and if no callback comes unasked, a
  second message is never sent and \<open>stop\<close> never returns.\<close>

theorem stop_needs_callback_for_each:
  assumes "ws_ok (c, l)" and "lws_thread c" and "lws_client c" and "wanted l" and "\<forall>m \<in> set (message_queue c). goes_through (cstring m)"
    and "takes_all accepts" and "silent react" and "\<forall>t \<in> set (ts @ [t]). quiet t"
  shows "(turn_writes ts < length (message_queue c) \<longrightarrow>
      (\<exists>n s' d'. stop accepts react ts countdown (c, l) d = Some (Running n s' d') \<and>
         sent_texts s' = sent_texts (c, l) @ take (turn_writes ts) (waiting_texts (c, l)) \<and>
         waiting_texts s' = drop (turn_writes ts) (waiting_texts (c, l)) \<and> (wanted (snd s') \<longleftrightarrow> turn_writes ts = 0))) \<and>
    (length (message_queue c) \<le> turn_writes ts \<longrightarrow>
      (\<exists>s' d'. stop accepts react (ts @ [t]) countdown (c, l) d = Some (Left s' d') \<and>
         sent_texts s' = sent_texts (c, l) @ waiting_texts (c, l) \<and> waiting_texts s' = [] \<and> \<not> lws_thread (fst s')))"
proof (intro conjI impI)
  have e: "surroundings (message_queue c) accepts (\<lambda>_. True) react" using assms(5,6) silent_mute [OF assms(7)] by (simp add: surroundings_def)
  have h: "hears (\<lambda>_. True) (\<lambda>_. True) react" using silent_mute [OF assms(7)] by blast
  note st = stop_counts [OF e assms(1-4) TrueI]
  have q: "length (waiting_texts (c, l)) = length (message_queue c)" by (simp add: waiting_texts_def)
  show "\<exists>n s' d'. stop accepts react ts countdown (c, l) d = Some (Running n s' d') \<and>
      sent_texts s' = sent_texts (c, l) @ take (turn_writes ts) (waiting_texts (c, l)) \<and>
      waiting_texts s' = drop (turn_writes ts) (waiting_texts (c, l)) \<and> (wanted (snd s') \<longleftrightarrow> turn_writes ts = 0)"
    if "turn_writes ts < length (message_queue c)"
  proof -
    have qt: "\<forall>t \<in> set ts. quiet t" using assms(8) by simp
    have n: "turn_writes ts < length (message_queue c) \<or> ts \<noteq> [] \<and> length (message_queue c) \<le> turn_writes (butlast ts)" using that by simp
    obtain r where "stop accepts react ts countdown (c, l) d = Some r" using st(2) [OF qt n h] by blast
    then show ?thesis using st(1) [OF qt n, of countdown d] that q by (auto simp: stop_result_def split: task_result.splits)
  qed
  show "\<exists>s' d'. stop accepts react (ts @ [t]) countdown (c, l) d = Some (Left s' d') \<and>
      sent_texts s' = sent_texts (c, l) @ waiting_texts (c, l) \<and> waiting_texts s' = [] \<and> \<not> lws_thread (fst s')"
    if "length (message_queue c) \<le> turn_writes ts"
  proof -
    have n: "turn_writes (ts @ [t]) < length (message_queue c) \<or>
      ts @ [t] \<noteq> [] \<and> length (message_queue c) \<le> turn_writes (butlast (ts @ [t]))" using that by simp
    obtain r where "stop accepts react (ts @ [t]) countdown (c, l) d = Some r" using st(2) [OF assms(8) n h] by blast
    moreover have "length (message_queue c) \<le> turn_writes (ts @ [t])" using that by (simp add: turn_writes_def writes_def)
    ultimately show ?thesis using st(1) [OF assms(8) n, of countdown d] q by (auto simp: stop_result_def split: task_result.splits)
  qed
qed

theorem stop_needs_callback_for_each_witness:
  "\<exists>n s'. stop (\<lambda>k. int) (\<lambda>u d. Some ([], d))
     (\<lparr>others = [], connects = True, callbacks = [CLIENT_WRITEABLE 0 0]\<rparr> #
      replicate 1000 \<lparr>others = [], connects = True, callbacks = [CLIENT_RECEIVE_PONG]\<rparr>) 5
     (sendMessage ''leave'' (sendMessage ''unpublish'' ((new_WsClient [])\<lparr>lws_thread := True, lws_client := True\<rparr>,
        \<lparr>wanted = False, frames = []\<rparr>))) () = Some (Running n s' ()) \<and>
     sent_texts s' = [''unpublish''] \<and> waiting_texts s' = [''leave''] \<and> \<not> wanted (snd s')"
proof -
  let ?c = "(new_WsClient [])\<lparr>lws_thread := True, lws_client := True, message_queue := [''unpublish'', ''leave''], no_msg := False\<rparr>"
  let ?ts = "\<lparr>others = [], connects = True, callbacks = [CLIENT_WRITEABLE 0 0]\<rparr> #
      replicate 1000 \<lparr>others = [], connects = True, callbacks = [CLIENT_RECEIVE_PONG]\<rparr>"
  have s: "sendMessage ''leave'' (sendMessage ''unpublish'' ((new_WsClient [])\<lparr>lws_thread := True, lws_client := True\<rparr>,
        \<lparr>wanted = False, frames = []\<rparr>)) = (?c, \<lparr>wanted = True, frames = []\<rparr>)" by (simp add: sendMessage_def new_WsClient_def)
  have "turn_writes (replicate k \<lparr>others = [], connects = True, callbacks = [CLIENT_RECEIVE_PONG]\<rparr>) = 0" for k by (induction k) simp_all
  then have w: "turn_writes ?ts = 1" by simp
  have "ws_ok (?c, \<lparr>wanted = True, frames = []\<rparr>)" "takes_all (\<lambda>k. int)" "silent (\<lambda>u d. Some ([], d))"
    "\<forall>m \<in> set (message_queue ?c). goes_through (cstring m)" "\<forall>t \<in> set (?ts @ [hd ?ts]). quiet t"
    by (auto simp: ws_ok_def new_WsClient_def takes_all_def silent_def goes_through_def cstring_def quiet_def closing_def)
  from stop_needs_callback_for_each [OF this(1) _ _ _ this(4,2,3,5), of 5 "()"] show ?thesis
    unfolding s w by (auto simp: sent_texts_def waiting_texts_def new_WsClient_def cstring_def)
qed

end
