(* ===== verification/Signalling.thy ===== *)
theory Signalling
  imports Minify Members WsClient "HOL-Library.List_Lexorder" "HOL-Library.Char_ord"
begin

text \<open>
  \<open>RtcWinDemoDlg.cpp\<close> with \<open>RtcClient.h\<close> and \<open>peer_connection_observer.cpp\<close>: the sessions of the
  requests, the messages for the server and from it, the users of the room with their connections,
  and the windows of the video tracks.

  JSON items are values here, built with the functions below and printed, minified and parsed with the
  models of \<open>cJSON.c\<close>; memory can run out in those, but not while an item is built.  What WebRTC does
  is an argument (\<open>rtc\<close>); what the dialog asks of WebRTC and of the user interface is the list
  \<open>actions\<close>.  A video track is its id; the code removes a track by its pointer, which is the same while no
  connection has two tracks of one id.
\<close>

section \<open>Items as values\<close>

definition create_object :: cJSON where
  "create_object = set_type cJSON_Object zero_item"

definition create_true :: cJSON where
  "create_true = set_type cJSON_True zero_item"

definition create_string :: "string \<Rightarrow> cJSON" where
  "create_string s = set_valuestring (Some (cstring s)) (set_type cJSON_String zero_item)"

definition create_number :: "int \<Rightarrow> cJSON" where
  "create_number n = set_valueint n (set_valuedouble (double_of_int n) (set_type cJSON_Number zero_item))"

definition add_member :: "cJSON \<Rightarrow> string \<Rightarrow> cJSON \<Rightarrow> cJSON" where
  "add_member object name item = set_children (children object @ [set_string (Some name) item]) object"

definition object_item :: "cJSON option \<Rightarrow> string \<Rightarrow> cJSON option" where
  "object_item object name = (case object of
     None \<Rightarrow> None
   | Some i \<Rightarrow> find (\<lambda>c. case item_string c of None \<Rightarrow> False | Some k \<Rightarrow> same_name False name k) (children i))"

section \<open>The state of the dialog\<close>

datatype command =
    Invalid | RequestJoinRoom | RequestLeaveRoom | RequestPublish | RequestUnPublish | RequestSubscribe
  | RequestUnSubscribe | RequestTrickle | NotifyUserJoin | NotifyUserLeave | NotifyStreamAdd
  | NotifyStreamRemove | NotifyBroadcast

record request_record =
  request_command :: command
  request_uid :: string

record rtc_client =
  is_local :: bool
  send_offer :: bool
  client_name :: string
  client_id :: string
  client_mid :: string
  has_connection :: bool
  video_tracks :: "string list"

datatype action =
    Create_Offer string bool | Set_Answer string string | Message_Box string | Append_Message string bool

text \<open>The windows: the one for the local track, and those of the pool.\<close>

datatype window = LOCAL_WIN | REMOTE_WIN_1 | REMOTE_WIN_2 | REMOTE_WIN_3

record dialog =
  room_id :: string
  user_name :: string
  user_id :: string
  own_mid :: string
  joined_room :: bool
  local_published :: bool
  auto_publish :: bool
  session_id :: "32 word"
  send_requests :: "32 word \<rightharpoonup> request_record"
  users :: "(string \<times> rtc_client) list"
  video_renders :: "(string \<times> window option) list"
  video_wins :: "string \<rightharpoonup> window"
  win_spare :: "window list"
  local_track :: "string option"
  websocket :: bool
  outbox :: "string list"
  actions :: "action list"
  json :: globals

text \<open>What WebRTC answers: whether a connection for a user can be made, the id of the track of the
  camera if there is one, and the description of the local end of a connection.\<close>

record rtc =
  makes_connection :: "string \<Rightarrow> bool"
  camera :: "string option"
  local_description :: "string \<Rightarrow> string option"

text \<open>The dialog after \<open>OnInitDialog\<close>.\<close>

definition OnInitDialog :: "string \<Rightarrow> 32 word \<Rightarrow> globals \<Rightarrow> dialog" where
  "OnInitDialog uuid seed g = \<lparr>room_id = [], user_name = [], user_id = uuid, own_mid = [], joined_room = False,
     local_published = False, auto_publish = True, session_id = seed, send_requests = Map.empty, users = [],
     video_renders = [], video_wins = Map.empty, win_spare = [REMOTE_WIN_1, REMOTE_WIN_2, REMOTE_WIN_3],
     local_track = None, websocket = True, outbox = [], actions = [], json = g\<rparr>"

text \<open>\<open>std::map\<close>: a list in the order of the keys.\<close>

definition put :: "string \<Rightarrow> 'a \<Rightarrow> (string \<times> 'a) list \<Rightarrow> (string \<times> 'a) list" where
  "put k v m = insort_key fst (k, v) (filter (\<lambda>e. fst e \<noteq> k) m)"

definition erase_key :: "string \<Rightarrow> (string \<times> 'a) list \<Rightarrow> (string \<times> 'a) list" where
  "erase_key k m = filter (\<lambda>e. fst e \<noteq> k) m"

section \<open>Windows and tracks\<close>

definition AllocateWindow :: "bool \<Rightarrow> string \<Rightarrow> dialog \<Rightarrow> window option \<times> dialog" where
  "AllocateWindow local track d =
     (if local then (Some LOCAL_WIN, d)
      else (case win_spare d of
          [] \<Rightarrow> (None, d)
        | w # ws \<Rightarrow>
            (let d = d\<lparr>win_spare := ws\<rparr> in
             if Some w \<in> snd ` set (video_renders d) then (None, d)
             else (Some w, d\<lparr>video_wins := (video_wins d)(track \<mapsto> w)\<rparr>))))"

definition AddTrack :: "string \<Rightarrow> bool \<Rightarrow> dialog \<Rightarrow> dialog" where
  "AddTrack track local d =
     (case map_of (video_renders d) track of
        Some _ \<Rightarrow> d
      | None \<Rightarrow>
          (case AllocateWindow local track (d\<lparr>video_renders := put track None (video_renders d)\<rparr>) of
             (w, d) \<Rightarrow> d\<lparr>video_renders := put track w (video_renders d)\<rparr>))"

definition RemoveTrack :: "string \<Rightarrow> dialog \<Rightarrow> dialog" where
  "RemoveTrack track d =
     (let d = d\<lparr>video_renders := erase_key track (video_renders d)\<rparr> in
      case video_wins d track of
        None \<Rightarrow> d
      | Some w \<Rightarrow> d\<lparr>win_spare := win_spare d @ [w], video_wins := (video_wins d)(track := None)\<rparr>)"

section \<open>Users\<close>

definition GetClient :: "string \<Rightarrow> dialog \<Rightarrow> rtc_client option" where
  "GetClient uid d = map_of (users d) uid"

definition set_client :: "string \<Rightarrow> (rtc_client \<Rightarrow> rtc_client) \<Rightarrow> dialog \<Rightarrow> dialog" where
  "set_client uid f d = (case map_of (users d) uid of
     None \<Rightarrow> d
   | Some c \<Rightarrow> d\<lparr>users := put uid (f c) (users d)\<rparr>)"

definition CreateLocalMediaStream :: "rtc \<Rightarrow> dialog \<Rightarrow> dialog" where
  "CreateLocalMediaStream rtc d =
     (case camera rtc of
        None \<Rightarrow> d\<lparr>local_track := None\<rparr>
      | Some track \<Rightarrow> AddTrack track True (d\<lparr>local_track := Some track\<rparr>))"

definition DestroyLocalMediaStream :: "dialog \<Rightarrow> dialog" where
  "DestroyLocalMediaStream d =
     (case local_track d of
        None \<Rightarrow> d
      | Some track \<Rightarrow> (RemoveTrack track d)\<lparr>local_track := None\<rparr>)"

definition CreatePeerConnection :: "rtc \<Rightarrow> string \<Rightarrow> dialog \<Rightarrow> dialog" where
  "CreatePeerConnection rtc uid d =
     (case GetClient uid d of
        None \<Rightarrow> d
      | Some c \<Rightarrow>
          if \<not> has_connection c \<and> makes_connection rtc uid then
            (let d = set_client uid (\<lambda>c. c\<lparr>has_connection := True\<rparr>) d in
             if is_local c then CreateLocalMediaStream rtc d else d)
          else d)"

text \<open>The destructor of a client: the stream of the camera, then the tracks of the connection.\<close>

definition DestroyPeerConnection :: "rtc_client \<Rightarrow> dialog \<Rightarrow> dialog" where
  "DestroyPeerConnection c d =
     (let d = (if is_local c \<and> has_connection c then DestroyLocalMediaStream d else d) in
      if has_connection c then fold RemoveTrack (video_tracks c) d else d)"

definition AddClient :: "rtc \<Rightarrow> string \<Rightarrow> string \<Rightarrow> dialog \<Rightarrow> dialog" where
  "AddClient rtc uid name d =
     (case map_of (users d) uid of
        Some _ \<Rightarrow> d
      | None \<Rightarrow> CreatePeerConnection rtc uid (d\<lparr>users := put uid
          \<lparr>is_local = (uid = user_id d), send_offer = False, client_name = name, client_id = uid, client_mid = [],
           has_connection = False, video_tracks = []\<rparr> (users d)\<rparr>))"

definition RemoveClient :: "string \<Rightarrow> dialog \<Rightarrow> dialog" where
  "RemoveClient uid d =
     (case map_of (users d) uid of
        None \<Rightarrow> d
      | Some c \<Rightarrow> (DestroyPeerConnection c d)\<lparr>users := erase_key uid (users d)\<rparr>)"

text \<open>The destructors of all clients, here in the order of the keys; \<open>std::map\<close> leaves the order open.\<close>

definition RemoveAllClients :: "dialog \<Rightarrow> dialog" where
  "RemoveAllClients d =
     (fold (\<lambda>(_, c). DestroyPeerConnection c) (users d) d)\<lparr>users := [], video_renders := []\<rparr>"

text \<open>The observer of the connection of a user.\<close>

definition OnTrack :: "string \<Rightarrow> string \<Rightarrow> dialog \<Rightarrow> dialog" where
  "OnTrack uid track d =
     AddTrack track False (set_client uid (\<lambda>c. c\<lparr>video_tracks := video_tracks c @ [track]\<rparr>) d)"

definition OnRemoveTrack :: "string \<Rightarrow> string \<Rightarrow> dialog \<Rightarrow> dialog" where
  "OnRemoveTrack uid track d =
     RemoveTrack track (set_client uid (\<lambda>c. c\<lparr>video_tracks := filter (\<lambda>t. t \<noteq> track) (video_tracks c)\<rparr>) d)"

definition ClearAllRegisteredTracks :: "string \<Rightarrow> dialog \<Rightarrow> dialog" where
  "ClearAllRegisteredTracks uid d =
     (case GetClient uid d of
        None \<Rightarrow> d
      | Some c \<Rightarrow> set_client uid (\<lambda>c. c\<lparr>video_tracks := []\<rparr>) (fold RemoveTrack (video_tracks c) d))"

section \<open>Requests\<close>

definition AllocateSession :: "command \<Rightarrow> string \<Rightarrow> dialog \<Rightarrow> 32 word \<times> dialog" where
  "AllocateSession request uid d =
     (let id = session_id d + 1 in
      (id, d\<lparr>session_id := id,
             send_requests := (send_requests d)(id \<mapsto> \<lparr>request_command = request, request_uid = uid\<rparr>)\<rparr>))"

definition DeallocateSession :: "32 word \<Rightarrow> dialog \<Rightarrow> dialog" where
  "DeallocateSession sessionId d = d\<lparr>send_requests := (send_requests d)(sessionId := None)\<rparr>"

definition FindSession :: "32 word \<Rightarrow> dialog \<Rightarrow> request_record option" where
  "FindSession sessionId d = send_requests d sessionId"

text \<open>Printing, sending and freeing the text; the copy for the queue ends at the NUL.\<close>

definition send_json :: "bool \<Rightarrow> cJSON \<Rightarrow> dialog \<Rightarrow> dialog option" where
  "send_json minify root_json d = do {
     (request, m) \<leftarrow> cJSON_Print (Some root_json) (gmem (json d));
     request \<leftarrow> (if minify then cJSON_Minify request else Some request);
     Some (case request of
        None \<Rightarrow> d\<lparr>json := (json d)\<lparr>gmem := m\<rparr>\<rparr>
      | Some s \<Rightarrow> d\<lparr>json := (json d)\<lparr>gmem := deallocate 1 m\<rparr>,
                   outbox := (if websocket d then outbox d @ [cstring s] else outbox d)\<rparr>) }"

text \<open>The head that all requests have.\<close>

definition request_head :: "32 word \<Rightarrow> string \<Rightarrow> cJSON" where
  "request_head session method =
     (let root_json = create_object;
          root_json = add_member root_json ''request'' create_true;
          root_json = add_member root_json ''id'' (create_number (sint session))
      in add_member root_json ''method'' (create_string method))"

definition JoinRoom :: "dialog \<Rightarrow> dialog option" where
  "JoinRoom d =
     (let (session, d) = AllocateSession RequestJoinRoom (user_id d) d;
          info_json = add_member create_object ''name'' (create_string (user_name d));
          data_json = add_member create_object ''rid'' (create_string (room_id d));
          data_json = add_member data_json ''uid'' (create_string (user_id d));
          data_json = add_member data_json ''info'' info_json
      in send_json False (add_member (request_head session ''join'') ''data'' data_json) d)"

definition LeaveRoom :: "dialog \<Rightarrow> dialog option" where
  "LeaveRoom d =
     (let (session, d) = AllocateSession RequestLeaveRoom (user_id d) d;
          data_json = add_member create_object ''rid'' (create_string (room_id d));
          data_json = add_member data_json ''uid'' (create_string (user_id d))
      in send_json False (add_member (request_head session ''leave'') ''data'' data_json) d)"

definition Publish :: "string \<Rightarrow> string \<Rightarrow> dialog \<Rightarrow> dialog option" where
  "Publish uid offer_sdp d =
     (let (session, d) = AllocateSession RequestPublish uid d;
          jsep_json = add_member create_object ''type'' (create_string ''offer'');
          jsep_json = add_member jsep_json ''sdp'' (create_string offer_sdp);
          option_json = add_member create_object ''codec'' (create_string ''VP8'');
          option_json = add_member option_json ''bandwidth'' (create_number 1024);
          data_json = add_member create_object ''uid'' (create_string uid);
          data_json = add_member data_json ''rid'' (create_string (room_id d));
          data_json = add_member data_json ''jsep'' jsep_json;
          data_json = add_member data_json ''options'' option_json
      in send_json True (add_member (request_head session ''publish'') ''data'' data_json) d)"

definition UnPublish :: "string \<Rightarrow> dialog \<Rightarrow> dialog option" where
  "UnPublish uid d =
     (let (session, d) = AllocateSession RequestUnPublish uid d;
          data_json = add_member create_object ''mid'' (create_string (own_mid d));
          data_json = add_member data_json ''rid'' (create_string (room_id d))
      in send_json True (add_member (request_head session ''unpublish'') ''data'' data_json) d)"

definition Subscribe :: "string \<Rightarrow> string \<Rightarrow> string \<Rightarrow> dialog \<Rightarrow> dialog option" where
  "Subscribe uid mid offer_sdp d =
     (let (session, d) = AllocateSession RequestSubscribe uid d;
          jsep_json = add_member create_object ''type'' (create_string ''offer'');
          jsep_json = add_member jsep_json ''sdp'' (create_string offer_sdp);
          data_json = add_member create_object ''rid'' (create_string (room_id d));
          data_json = add_member data_json ''jsep'' jsep_json;
          data_json = add_member data_json ''mid'' (create_string mid)
      in send_json False (add_member (request_head session ''subscribe'') ''data'' data_json) d)"

definition UnSubscribe :: "string \<Rightarrow> string \<Rightarrow> dialog \<Rightarrow> dialog option" where
  "UnSubscribe uid mid d =
     (let (session, d) = AllocateSession RequestUnSubscribe uid d;
          data_json = add_member create_object ''mid'' (create_string mid)
      in send_json False (add_member (request_head session ''unsubscribe'') ''data'' data_json) d)"

definition Trickle :: "string \<Rightarrow> string \<Rightarrow> string \<Rightarrow> dialog \<Rightarrow> dialog option" where
  "Trickle uid mid sdp d =
     (let (session, d) = AllocateSession RequestTrickle uid d;
          trickle_json = add_member create_object ''candidate'' (create_string sdp);
          data_json = add_member create_object ''rid'' (create_string (room_id d));
          data_json = add_member data_json ''uid'' (create_string uid);
          data_json = add_member data_json ''mid'' (create_string mid);
          data_json = add_member data_json ''trickle'' trickle_json
      in send_json False (add_member (request_head session ''trickle'') ''data'' data_json) d)"

definition SendChatMessage :: "string \<Rightarrow> dialog \<Rightarrow> dialog option" where
  "SendChatMessage msg d =
     (let info_json = add_member create_object ''senderName'' (create_string (user_name d));
          info_json = add_member info_json ''msg'' (create_string msg);
          data_json = add_member create_object ''rid'' (create_string (room_id d));
          data_json = add_member data_json ''uid'' (create_string (user_id d));
          data_json = add_member data_json ''info'' info_json;
          root_json = add_member create_object ''notification'' create_true;
          root_json = add_member root_json ''method'' (create_string ''broadcast'')
      in send_json False (add_member root_json ''data'' data_json) d)"

section \<open>Messages from the server\<close>

definition ConvertMethodToCommand :: "string \<Rightarrow> command" where
  "ConvertMethodToCommand m =
     (if m = ''join'' then RequestJoinRoom
      else if m = ''leave'' then RequestLeaveRoom
      else if m = ''publish'' then RequestPublish
      else if m = ''unpublish'' then RequestUnPublish
      else if m = ''subscribe'' then RequestSubscribe
      else if m = ''unsubscribe'' then RequestUnSubscribe
      else if m = ''peer-join'' then NotifyUserJoin
      else if m = ''peer-leave'' then NotifyUserLeave
      else if m = ''stream-add'' then NotifyStreamAdd
      else if m = ''stream-remove'' then NotifyStreamRemove
      else if m = ''broadcast'' then NotifyBroadcast
      else Invalid)"

definition act :: "action \<Rightarrow> dialog \<Rightarrow> dialog" where
  "act a d = d\<lparr>actions := actions d @ [a]\<rparr>"

definition PublishLocalStream :: "rtc \<Rightarrow> bool \<Rightarrow> dialog \<Rightarrow> dialog option" where
  "PublishLocalStream rtc publish d =
     (if local_published d = publish then Some d
      else do {
        d \<leftarrow> (if publish then
            (let d = set_client (user_id d) (\<lambda>c. c\<lparr>send_offer := True\<rparr>) (AddClient rtc (user_id d) (user_name d) d) in
             Some (case GetClient (user_id d) d of
                 None \<Rightarrow> d
               | Some c \<Rightarrow> if has_connection c then act (Create_Offer (user_id d) True) d else d))
          else do { d \<leftarrow> UnPublish (user_id d) d; Some (RemoveClient (user_id d) d) });
        Some (d\<lparr>local_published := publish\<rparr>) })"

text \<open>The description in a member \<open>jsep\<close> of the data of an answer goes to the connection of the user.\<close>

definition set_answer :: "string \<Rightarrow> cJSON \<Rightarrow> (rtc_client \<Rightarrow> rtc_client) \<Rightarrow> dialog \<Rightarrow> dialog" where
  "set_answer uid data_json f d =
     (case object_item (Some data_json) ''jsep'' of
        None \<Rightarrow> d
      | Some jsep_json \<Rightarrow>
          (case cJSON_GetStringValue (object_item (Some jsep_json) ''sdp'') of
             None \<Rightarrow> d
           | Some sdp \<Rightarrow>
               (case GetClient uid d of
                  None \<Rightarrow> d
                | Some c \<Rightarrow>
                    (let d = set_client uid f d in
                     if has_connection c then act (Set_Answer uid sdp) d else d))))"

text \<open>A record that was not found is a null pointer, which is read; a string member that is there but no
  string is a null pointer, from which a \<open>std::string\<close> is made.\<close>

definition OnWebSocketResponse :: "rtc \<Rightarrow> request_record option \<Rightarrow> cJSON \<Rightarrow> dialog \<Rightarrow> dialog option" where
  "OnWebSocketResponse rtc request root_json d = do {
     r \<leftarrow> request;
     (let is_ok = cJSON_IsTrue (object_item (Some root_json) ''ok'') in
      case request_command r of
        RequestJoinRoom \<Rightarrow>
          if is_ok then (if auto_publish d then PublishLocalStream rtc True d else Some d)
          else Some (act (Message_Box ''Join room failed'') d)
      | RequestPublish \<Rightarrow>
          if is_ok then
            (case object_item (Some root_json) ''data'' of
               None \<Rightarrow> Some d
             | Some data_json \<Rightarrow> do {
                 d \<leftarrow> (case object_item (Some data_json) ''mid'' of
                     None \<Rightarrow> Some d
                   | Some mid_json \<Rightarrow> map_option (\<lambda>s. d\<lparr>own_mid := s\<rparr>) (cJSON_GetStringValue (Some mid_json)));
                 Some (set_answer (request_uid r) data_json (\<lambda>c. c\<lparr>client_mid := own_mid d\<rparr>) d) })
          else Some (act (Message_Box ''Publish failed'') d)
      | RequestUnPublish \<Rightarrow> Some (if is_ok then d else act (Message_Box ''UnPublish failed'') d)
      | RequestSubscribe \<Rightarrow>
          Some (if is_ok then
            (case object_item (Some root_json) ''data'' of
               None \<Rightarrow> d
             | Some data_json \<Rightarrow> set_answer (request_uid r) data_json (\<lambda>c. c) d)
          else act (Message_Box ''Subscribe failed'') d)
      | _ \<Rightarrow> Some d) }"

definition OnPeerNotifyEvent :: "rtc \<Rightarrow> bool \<Rightarrow> cJSON \<Rightarrow> dialog \<Rightarrow> dialog option" where
  "OnPeerNotifyEvent rtc join root_json d =
     (case object_item (Some root_json) ''data'' of
        None \<Rightarrow> Some d
      | Some data_json \<Rightarrow> do {
          uid \<leftarrow> cJSON_GetStringValue (object_item (Some data_json) ''uid'');
          name \<leftarrow> (case object_item (Some data_json) ''info'' of
              None \<Rightarrow> Some []
            | Some info_json \<Rightarrow> cJSON_GetStringValue (object_item (Some info_json) ''name''));
          Some (if uid = [] then d
                else if join then AddClient rtc uid name d
                else RemoveClient uid d) })"

definition OnStreamNotifyEvent :: "rtc \<Rightarrow> bool \<Rightarrow> cJSON \<Rightarrow> dialog \<Rightarrow> dialog option" where
  "OnStreamNotifyEvent rtc add root_json d =
     (case object_item (Some root_json) ''data'' of
        None \<Rightarrow> Some d
      | Some data_json \<Rightarrow> do {
          uid \<leftarrow> cJSON_GetStringValue (object_item (Some data_json) ''uid'');
          mid \<leftarrow> cJSON_GetStringValue (object_item (Some data_json) ''mid'');
          name \<leftarrow> (case object_item (Some data_json) ''info'' of
              None \<Rightarrow> Some []
            | Some info_json \<Rightarrow> cJSON_GetStringValue (object_item (Some info_json) ''name''));
          if uid = [] \<or> mid = [] then Some d
          else if add then
            (let d = set_client uid (\<lambda>c. c\<lparr>send_offer := True, client_mid := mid\<rparr>) (AddClient rtc uid name d) in
             Some (case GetClient uid d of
                 None \<Rightarrow> d
               | Some c \<Rightarrow> if has_connection c then act (Create_Offer uid False) d else d))
          else UnSubscribe uid mid d })"

definition OnChatMessage :: "cJSON \<Rightarrow> dialog \<Rightarrow> dialog option" where
  "OnChatMessage root_json d =
     (case object_item (Some root_json) ''data'' of
        None \<Rightarrow> Some d
      | Some data_json \<Rightarrow> do {
          rid \<leftarrow> cJSON_GetStringValue (object_item (Some data_json) ''rid'');
          if rid \<noteq> room_id d then Some d
          else (case object_item (Some data_json) ''info'' of
              None \<Rightarrow> Some d
            | Some info_json \<Rightarrow> do {
                sender \<leftarrow> cJSON_GetStringValue (object_item (Some info_json) ''senderName'');
                text \<leftarrow> cJSON_GetStringValue (object_item (Some info_json) ''msg'');
                Some (if sender \<noteq> [] \<and> text \<noteq> []
                      then act (Append_Message (text @ [CHR 0x0A]) False)
                             (act (Append_Message (sender @ [CHR '':'', CHR 0x0A]) True) d)
                      else d) }) })"

definition OnWebSocketNotify :: "rtc \<Rightarrow> command \<Rightarrow> cJSON \<Rightarrow> dialog \<Rightarrow> dialog option" where
  "OnWebSocketNotify rtc notify root_json d =
     (case notify of
        NotifyUserJoin \<Rightarrow> OnPeerNotifyEvent rtc True root_json d
      | NotifyUserLeave \<Rightarrow> OnPeerNotifyEvent rtc False root_json d
      | NotifyStreamAdd \<Rightarrow> OnStreamNotifyEvent rtc True root_json d
      | NotifyStreamRemove \<Rightarrow> OnStreamNotifyEvent rtc False root_json d
      | NotifyBroadcast \<Rightarrow> OnChatMessage root_json d
      | _ \<Rightarrow> Some d)"

text \<open>The dispatch of a parsed message; the id of a response is converted to a \<open>long\<close>, which is undefined
  for what is no number or out of range.\<close>

definition dispatch :: "rtc \<Rightarrow> cJSON \<Rightarrow> dialog \<Rightarrow> dialog option" where
  "dispatch rtc root_json d =
     (case object_item (Some root_json) ''response'' of
        Some response \<Rightarrow>
          (case object_item (Some root_json) ''id'' of
             None \<Rightarrow> Some d
           | Some sid \<Rightarrow> do {
               n \<leftarrow> double_to_int (cJSON_GetNumberValue (Some sid));
               OnWebSocketResponse rtc (FindSession (word_of_int n) d) root_json d })
      | None \<Rightarrow>
          (case cJSON_GetStringValue (object_item (Some root_json) ''method'') of
             None \<Rightarrow> Some d
           | Some psz \<Rightarrow> OnWebSocketNotify rtc (ConvertMethodToCommand psz) root_json d))"

definition onReceiveMessage :: "rtc \<Rightarrow> string \<Rightarrow> dialog \<Rightarrow> dialog option" where
  "onReceiveMessage rtc msg d = do {
     (root_json, parse_end, g) \<leftarrow> cJSON_Parse (Some (msg @ [NUL])) (json d);
     (case root_json of
        None \<Rightarrow> Some (d\<lparr>json := g\<rparr>)
      | Some root_json \<Rightarrow> do {
          d \<leftarrow> dispatch rtc root_json (d\<lparr>json := g\<rparr>);
          Some (d\<lparr>json := (json d)\<lparr>gmem := cJSON_Delete [root_json] (gmem (json d))\<rparr>\<rparr>) }) }"

section \<open>Candidates and buttons\<close>

definition OnIceCandidate :: "rtc \<Rightarrow> string \<Rightarrow> string \<Rightarrow> string \<Rightarrow> dialog \<Rightarrow> dialog option" where
  "OnIceCandidate rtc uid mid sdp d =
     (case GetClient uid d of
        None \<Rightarrow> Some d
      | Some c \<Rightarrow> do {
          d \<leftarrow> (if send_offer c then
              (case (if has_connection c then local_description rtc uid else None) of
                 None \<Rightarrow> Some d
               | Some offer \<Rightarrow> do {
                   d \<leftarrow> (if is_local c then Publish (user_id d) offer d else Subscribe (client_id c) (client_mid c) offer d);
                   Some (set_client uid (\<lambda>c. c\<lparr>send_offer := False\<rparr>) d) })
            else Some d);
          Trickle uid (client_mid c) sdp d })"

definition OnBnClickedBtnJoin :: "string \<Rightarrow> string \<Rightarrow> dialog \<Rightarrow> dialog option" where
  "OnBnClickedBtnJoin strRoomId strUserName d =
     (if joined_room d then Some d
      else if strRoomId = [] \<or> strUserName = [] then Some (act (Message_Box ''Invalid Room Name or User Id'') d)
      else do {
        d \<leftarrow> JoinRoom (d\<lparr>room_id := strRoomId, user_name := strUserName\<rparr>);
        Some (d\<lparr>local_published := False, joined_room := True\<rparr>) })"

text \<open>Leaving the room, by the button or with the window.\<close>

definition leave :: "dialog \<Rightarrow> dialog option" where
  "leave d = do {
     d \<leftarrow> (if local_published d then do {
         d \<leftarrow> UnPublish (user_id d) d;
         Some (d\<lparr>local_published := False\<rparr>) }
       else Some d);
     d \<leftarrow> LeaveRoom d;
     Some ((RemoveAllClients d)\<lparr>joined_room := False\<rparr>) }"

definition OnBnClickedBtnLeave :: "dialog \<Rightarrow> dialog option" where
  "OnBnClickedBtnLeave d = (if joined_room d then leave d else Some d)"

definition OnBnClickedBtnSend :: "string \<Rightarrow> dialog \<Rightarrow> dialog option" where
  "OnBnClickedBtnSend chatMsg d =
     (if \<not> joined_room d then Some (act (Message_Box ''Cannot send chat message since you have not joined a room.'') d)
      else if chatMsg = [] then Some (act (Message_Box ''Empty input message'') d)
      else SendChatMessage chatMsg d)"

text \<open>Closing the window.  That it also drops \<open>rtc_manager_\<close> is not modelled, so what happens after \<open>Close\<close> is
  more than the program can do.\<close>

definition OnDestroy :: "dialog \<Rightarrow> dialog option" where
  "OnDestroy d = do {
     d \<leftarrow> (if joined_room d then leave d else Some d);
     Some (d\<lparr>websocket := False\<rparr>) }"

section \<open>Runs\<close>

text \<open>What can happen to the dialog; tracks and changes of a connection only for a user that has one.\<close>

definition connected :: "string \<Rightarrow> dialog \<Rightarrow> bool" where
  "connected uid d = (case GetClient uid d of None \<Rightarrow> False | Some c \<Rightarrow> has_connection c)"

datatype input =
    Join string string | Leave | Chat string | Receive string | Track string string | Untrack string string
  | Candidate string string string | Disconnected string | Close

definition handle :: "rtc \<Rightarrow> input \<Rightarrow> dialog \<Rightarrow> dialog option" where
  "handle rtc i d = (case i of
     Join rid name \<Rightarrow> OnBnClickedBtnJoin rid name d
   | Leave \<Rightarrow> OnBnClickedBtnLeave d
   | Chat s \<Rightarrow> OnBnClickedBtnSend s d
   | Receive s \<Rightarrow> onReceiveMessage rtc s d
   | Track uid track \<Rightarrow> Some (if connected uid d then OnTrack uid track d else d)
   | Untrack uid track \<Rightarrow> Some (if connected uid d then OnRemoveTrack uid track d else d)
   | Candidate uid mid sdp \<Rightarrow> OnIceCandidate rtc uid mid sdp d
   | Disconnected uid \<Rightarrow> Some (if connected uid d then ClearAllRegisteredTracks uid d else d)
   | Close \<Rightarrow> OnDestroy d)"

text \<open>The states of the dialog; what WebRTC answers may differ from step to step.\<close>

inductive reachable :: "dialog \<Rightarrow> bool" where
  init: "reachable (OnInitDialog uuid seed g)"
| step: "reachable d \<Longrightarrow> handle rtc i d = Some d' \<Longrightarrow> reachable d'"

end
