(* ===== verification/Signalling_Laws.thy ===== *)
theory Signalling_Laws
  imports Signalling
begin

text \<open>
  Invariants of the dialog, proved once for all inputs from what they need of the operations on users
  and tracks.
\<close>

section \<open>Maps as ordered lists\<close>

lemma set_put: "set (put k v m) = insert (k, v) {e \<in> set m. fst e \<noteq> k}"
  by (auto simp: put_def set_insort_key)

lemma set_erase_key: "set (erase_key k m) = {e \<in> set m. fst e \<noteq> k}"
  by (auto simp: erase_key_def)

definition keyed :: "(string \<times> 'a) list \<Rightarrow> bool" where
  "keyed m \<longleftrightarrow> sorted (map fst m) \<and> distinct (map fst m)"

lemma keyed_filter: "keyed m \<Longrightarrow> keyed (filter P m)"
  unfolding keyed_def by (induction m) auto

lemma keyed_put: "keyed m \<Longrightarrow> keyed (put k v m)"
proof -
  assume m: "keyed m"
  let ?m = "filter (\<lambda>e. fst e \<noteq> k) m"
  have s: "sorted (map fst ?m)" "distinct (map fst ?m)" using keyed_filter [OF m] by (simp_all add: keyed_def)
  have "distinct (map fst (insort_key fst (k, v) xs)) \<longleftrightarrow> k \<notin> fst ` set xs \<and> distinct (map fst xs)" for xs
    by (induction xs) (auto simp: set_insort_key)
  then show ?thesis using s by (auto simp: keyed_def put_def sorted_insort_key)
qed

lemma keyed_erase: "keyed m \<Longrightarrow> keyed (erase_key k m)"
  unfolding erase_key_def by (rule keyed_filter)

lemma map_of_keyed: "keyed m \<Longrightarrow> map_of m k = Some v \<longleftrightarrow> (k, v) \<in> set m"
  by (simp add: keyed_def)

lemma map_of_put: "keyed m \<Longrightarrow> map_of (put k v m) = (map_of m)(k \<mapsto> v)"
proof
  fix x assume m: "keyed m"
  have "map_of (put k v m) x = Some y \<longleftrightarrow> ((map_of m)(k \<mapsto> v)) x = Some y" for y
    unfolding map_of_keyed [OF keyed_put [OF m]] set_put using map_of_keyed [OF m] by auto
  then show "map_of (put k v m) x = ((map_of m)(k \<mapsto> v)) x" by (metis not_Some_eq)
qed

lemma map_of_erase: "map_of (erase_key k m) = (map_of m)(k := None)"
  by (rule ext) (induction m, auto simp: erase_key_def)

section \<open>What an invariant needs\<close>

text \<open>The parts of the dialog that the users and tracks are made of.\<close>

definition same_users :: "dialog \<Rightarrow> dialog \<Rightarrow> bool" where
  "same_users d d' \<longleftrightarrow> users d' = users d \<and> video_renders d' = video_renders d \<and> video_wins d' = video_wins d \<and>
     win_spare d' = win_spare d \<and> local_track d' = local_track d \<and> user_id d' = user_id d"

definition keeps_tracks :: "(rtc_client \<Rightarrow> rtc_client) \<Rightarrow> bool" where
  "keeps_tracks f \<longleftrightarrow> (\<forall>c. is_local (f c) = is_local c \<and> client_id (f c) = client_id c \<and>
     has_connection (f c) = has_connection c \<and> video_tracks (f c) = video_tracks c)"

lemma same_users_refl: "same_users d d"
  by (simp add: same_users_def)

lemma same_users_trans: "same_users d d' \<Longrightarrow> same_users d' d'' \<Longrightarrow> same_users d d''"
  by (simp add: same_users_def)

lemma act_same: "same_users d (act a d)"
  by (simp add: same_users_def act_def)

lemma send_json_same: "send_json minify root_json d = Some d' \<Longrightarrow> same_users d d'"
  by (auto simp: send_json_def same_users_def split: bind_splits option.splits)

lemma AllocateSession_same: "same_users d (snd (AllocateSession r uid d))"
  by (simp add: AllocateSession_def same_users_def Let_def)

text \<open>A property of the dialog that every step keeps: what it must survive.\<close>

locale dialog_steps =
  fixes inv :: "dialog \<Rightarrow> bool"
  assumes fields [simp]: "inv d \<Longrightarrow> inv (d\<lparr>room_id := a\<rparr>)" "inv d \<Longrightarrow> inv (d\<lparr>user_name := a\<rparr>)"
      "inv d \<Longrightarrow> inv (d\<lparr>own_mid := a\<rparr>)" "inv d \<Longrightarrow> inv (d\<lparr>joined_room := b\<rparr>)" "inv d \<Longrightarrow> inv (d\<lparr>local_published := b\<rparr>)"
      "inv d \<Longrightarrow> inv (d\<lparr>websocket := False\<rparr>)" "inv d \<Longrightarrow> inv (d\<lparr>json := j\<rparr>)" "inv d \<Longrightarrow> inv (act x d)"
    and sends: "inv d \<Longrightarrow> send_json minify i d = Some d' \<Longrightarrow> inv d'"
    and allocates: "inv d \<Longrightarrow> inv (snd (AllocateSession r uid d))"
    and add_client: "inv d \<Longrightarrow> inv (AddClient rtc uid name d)"
    and remove_client: "inv d \<Longrightarrow> inv (RemoveClient uid d)"
    and remove_all: "inv d \<Longrightarrow> inv (RemoveAllClients d)"
    and change_client: "inv d \<Longrightarrow> keeps_tracks f \<Longrightarrow> inv (set_client uid f d)"
    and track: "inv d \<Longrightarrow> connected uid d \<Longrightarrow> inv (OnTrack uid t d)"
    and untrack: "inv d \<Longrightarrow> connected uid d \<Longrightarrow> inv (OnRemoveTrack uid t d)"
    and disconnected: "inv d \<Longrightarrow> connected uid d \<Longrightarrow> inv (ClearAllRegisteredTracks uid d)"
begin

lemma request:
  assumes "inv d"
  shows "pred_option inv (case AllocateSession r uid d of (session, d) \<Rightarrow> send_json minify (tree session d) d)"
proof -
  obtain session d1 where d1: "AllocateSession r uid d = (session, d1)" by fastforce
  then have "inv d1" using allocates [OF assms, of r uid] by simp
  then show ?thesis using d1 by (auto simp: pred_option_iff intro: sends)
qed

lemma requests:
  assumes "inv d"
  shows "pred_option inv (JoinRoom d)" "pred_option inv (LeaveRoom d)" "pred_option inv (Publish uid sdp d)"
    "pred_option inv (UnPublish uid d)" "pred_option inv (Subscribe uid mid sdp d)" "pred_option inv (UnSubscribe uid mid d)"
    "pred_option inv (Trickle uid mid sdp d)" "pred_option inv (SendChatMessage msg d)"
  unfolding JoinRoom_def LeaveRoom_def Publish_def UnPublish_def Subscribe_def UnSubscribe_def Trickle_def Let_def
  by (rule request [OF assms])+ (auto simp: SendChatMessage_def pred_option_iff intro: sends [OF assms])

lemma changes:
  "inv d \<Longrightarrow> inv (set_client uid (\<lambda>c. c\<lparr>send_offer := b\<rparr>) d)" "inv d \<Longrightarrow> inv (set_client uid (\<lambda>c. c\<lparr>client_mid := m\<rparr>) d)"
  "inv d \<Longrightarrow> inv (set_client uid (\<lambda>c. c\<lparr>send_offer := b, client_mid := m\<rparr>) d)" "inv d \<Longrightarrow> inv (set_client uid (\<lambda>c. c) d)"
  by (rule change_client; simp add: keeps_tracks_def)+

lemma publish: "inv d \<Longrightarrow> pred_option inv (PublishLocalStream rtc publish d)"
  unfolding PublishLocalStream_def
  by (auto simp: add_client remove_client changes requests Let_def intro!: pred_bind [where Q = inv] split: option.split)

lemma answer: "inv d \<Longrightarrow> keeps_tracks f \<Longrightarrow> inv (set_answer uid data_json f d)"
  by (auto simp: set_answer_def change_client Let_def split: option.split)

lemma response:
  assumes "inv d"
  shows "pred_option inv (OnWebSocketResponse rtc request root_json d)"
proof -
  have "keeps_tracks (\<lambda>c. c\<lparr>client_mid := m\<rparr>)" "keeps_tracks (\<lambda>c. c)" for m by (simp_all add: keeps_tracks_def)
  note k = this
  show ?thesis
  proof (cases request)
    case (Some r)
    show ?thesis
      by (cases "request_command r")
        (auto simp: OnWebSocketResponse_def Some Let_def assms k answer publish option.pred_map comp_def
          intro!: pred_bind [where Q = inv] split: option.split)
  qed (simp add: OnWebSocketResponse_def)
qed

lemma peer: "inv d \<Longrightarrow> pred_option inv (OnPeerNotifyEvent rtc join root_json d)"
  unfolding OnPeerNotifyEvent_def
  by (auto simp: add_client remove_client intro!: pred_bind [where Q = "\<lambda>_. True"] split: option.split)

lemma stream: "inv d \<Longrightarrow> pred_option inv (OnStreamNotifyEvent rtc add root_json d)"
  unfolding OnStreamNotifyEvent_def
  by (auto simp: add_client changes requests Let_def intro!: pred_bind [where Q = "\<lambda>_. True"] split: option.split)

lemma chat: "inv d \<Longrightarrow> pred_option inv (OnChatMessage root_json d)"
  unfolding OnChatMessage_def
  by (auto intro!: pred_bind [where Q = "\<lambda>_. True"] split: option.split)

lemma received: "inv d \<Longrightarrow> pred_option inv (onReceiveMessage rtc msg d)"
proof -
  have "inv d \<Longrightarrow> pred_option inv (dispatch rtc root_json d)" for root_json d
    unfolding dispatch_def OnWebSocketNotify_def
    by (auto simp: response peer stream chat intro!: pred_bind [where Q = "\<lambda>_. True"] split: option.split command.split)
  then show "inv d \<Longrightarrow> pred_option inv (onReceiveMessage rtc msg d)"
    unfolding onReceiveMessage_def
    by (auto intro!: pred_bind [where Q = "\<lambda>_. True"] pred_bind [where Q = inv] split: option.split)
qed

lemma left: "inv d \<Longrightarrow> pred_option inv (leave d)"
  unfolding leave_def by (auto simp: requests remove_all intro!: pred_bind [where Q = inv])

lemma candidate: "inv d \<Longrightarrow> pred_option inv (OnIceCandidate rtc uid mid sdp d)"
  unfolding OnIceCandidate_def
  by (auto simp: requests changes intro!: pred_bind [where Q = inv] split: option.split)

lemma handled: "inv d \<Longrightarrow> pred_option inv (handle rtc i d)"
  unfolding handle_def OnBnClickedBtnJoin_def OnBnClickedBtnLeave_def OnBnClickedBtnSend_def OnDestroy_def
  by (auto simp: requests left candidate received track untrack disconnected intro!: pred_bind [where Q = inv] split: input.split)

end

text \<open>A property of the users, tracks and windows that the operations on them keep.\<close>

locale dialog_invariant =
  fixes inv :: "dialog \<Rightarrow> bool"
  assumes at_start: "inv (OnInitDialog uuid seed g)"
    and same: "inv d \<Longrightarrow> same_users d d' \<Longrightarrow> inv d'"
    and add_client: "inv d \<Longrightarrow> inv (AddClient rtc uid name d)"
    and remove_client: "inv d \<Longrightarrow> inv (RemoveClient uid d)"
    and remove_all: "inv d \<Longrightarrow> inv (RemoveAllClients d)"
    and change_client: "inv d \<Longrightarrow> keeps_tracks f \<Longrightarrow> inv (set_client uid f d)"
    and track: "inv d \<Longrightarrow> connected uid d \<Longrightarrow> inv (OnTrack uid t d)"
    and untrack: "inv d \<Longrightarrow> connected uid d \<Longrightarrow> inv (OnRemoveTrack uid t d)"
    and disconnected: "inv d \<Longrightarrow> connected uid d \<Longrightarrow> inv (ClearAllRegisteredTracks uid d)"

sublocale dialog_invariant < steps: dialog_steps inv
proof
  show "inv d'" if "inv d" "send_json minify i d = Some d'" for d minify i d'
    using that same send_json_same by blast
  show "inv (snd (AllocateSession r uid d))" if "inv d" for r uid d
    using that same AllocateSession_same by blast
qed (auto intro: same add_client remove_client remove_all change_client track untrack disconnected simp: same_users_def act_def)

context dialog_invariant
begin

lemma always: "reachable d \<Longrightarrow> inv d"
  by (induction rule: reachable.induct) (auto simp: at_start dest!: steps.handled simp: pred_option_iff)

end

section \<open>The users\<close>

text \<open>The map of the users: ordered, each under its own id, local exactly if it is the user of the dialog,
  with tracks only if it has a connection.\<close>

definition clients_ok :: "dialog \<Rightarrow> bool" where
  "clients_ok d \<longleftrightarrow> keyed (users d) \<and> (\<forall>(uid, c) \<in> set (users d).
     client_id c = uid \<and> (is_local c \<longleftrightarrow> uid = user_id d) \<and> (video_tracks c \<noteq> [] \<longrightarrow> has_connection c))"

lemma RemoveTrack_users [simp]: "users (RemoveTrack t d) = users d" "user_id (RemoveTrack t d) = user_id d"
  by (auto simp: RemoveTrack_def Let_def split: option.split)

lemma fold_RemoveTrack_users [simp]:
  "users (fold RemoveTrack ts d) = users d" "user_id (fold RemoveTrack ts d) = user_id d"
  by (induction ts arbitrary: d) simp_all

lemma AddTrack_users [simp]: "users (AddTrack t b d) = users d" "user_id (AddTrack t b d) = user_id d"
  by (auto simp: AddTrack_def AllocateWindow_def Let_def split: option.split list.split)

lemma stream_users [simp]:
  "users (CreateLocalMediaStream rtc d) = users d" "user_id (CreateLocalMediaStream rtc d) = user_id d"
  "users (DestroyLocalMediaStream d) = users d" "user_id (DestroyLocalMediaStream d) = user_id d"
  "users (DestroyPeerConnection c d) = users d" "user_id (DestroyPeerConnection c d) = user_id d"
  by (auto simp: CreateLocalMediaStream_def DestroyLocalMediaStream_def DestroyPeerConnection_def Let_def split: option.split)

lemma fold_Destroy_users [simp]:
  "users (fold (\<lambda>(_, c). DestroyPeerConnection c) us d) = users d" "user_id (fold (\<lambda>(_, c). DestroyPeerConnection c) us d) = user_id d"
  by (induction us arbitrary: d) (auto split: prod.split)

lemma clients_set:
  assumes "clients_ok d" and "\<And>c. map_of (users d) uid = Some c \<Longrightarrow> client_id (f c) = client_id c \<and> is_local (f c) = is_local c \<and>
    (video_tracks (f c) \<noteq> [] \<longrightarrow> has_connection (f c))"
  shows "clients_ok (set_client uid f d)"
  using assms by (fastforce simp: clients_ok_def set_client_def keyed_put set_put dest: map_of_SomeD split: option.split)

lemma clients_cong: "users d' = users d \<Longrightarrow> user_id d' = user_id d \<Longrightarrow> clients_ok d' = clients_ok d"
  by (simp add: clients_ok_def)

lemma clients_AddClient:
  assumes "clients_ok d"
  shows "clients_ok (AddClient rtc uid name d)"
proof (cases "map_of (users d) uid")
  case None
  define d1 where "d1 = d\<lparr>users := put uid \<lparr>is_local = (uid = user_id d), send_offer = False, client_name = name,
    client_id = uid, client_mid = [], has_connection = False, video_tracks = []\<rparr> (users d)\<rparr>"
  have d1: "clients_ok d1" using assms by (auto simp: d1_def clients_ok_def keyed_put set_put)
  have "clients_ok (set_client uid (\<lambda>c. c\<lparr>has_connection := True\<rparr>) d1)" by (rule clients_set [OF d1]) (simp_all)
  moreover have "clients_ok (CreateLocalMediaStream rtc d2) = clients_ok d2" for d2 by (rule clients_cong) simp_all
  ultimately show ?thesis using None d1
    by (auto simp: AddClient_def d1_def [symmetric] CreatePeerConnection_def Let_def split: option.split)
qed (use assms in \<open>simp add: AddClient_def\<close>)

interpretation clients: dialog_invariant clients_ok
proof
  show "clients_ok (OnInitDialog uuid seed g)" for uuid seed g by (simp add: clients_ok_def OnInitDialog_def keyed_def)
  show "clients_ok d \<Longrightarrow> same_users d d' \<Longrightarrow> clients_ok d'" for d d' by (simp add: same_users_def clients_ok_def)
  show "clients_ok d \<Longrightarrow> clients_ok (AddClient rtc uid name d)" for d rtc uid name by (rule clients_AddClient)
  show "clients_ok d \<Longrightarrow> clients_ok (RemoveClient uid d)" for d uid
    by (auto simp: RemoveClient_def clients_ok_def keyed_erase set_erase_key split: option.split)
  show "clients_ok d \<Longrightarrow> clients_ok (RemoveAllClients d)" for d
    by (simp add: RemoveAllClients_def clients_ok_def keyed_def)
  show "clients_ok d \<Longrightarrow> keeps_tracks f \<Longrightarrow> clients_ok (set_client uid f d)" for d f uid
    by (rule clients_set) (auto simp: keeps_tracks_def clients_ok_def dest!: map_of_SomeD)
  show "clients_ok (OnTrack uid t d)" if "clients_ok d" "connected uid d" for d uid t
  proof -
    have "clients_ok (set_client uid (\<lambda>c. c\<lparr>video_tracks := video_tracks c @ [t]\<rparr>) d)"
      using that by (intro clients_set) (auto simp: connected_def GetClient_def)
    then show ?thesis unfolding OnTrack_def by (subst clients_cong [of _ "set_client uid (\<lambda>c. c\<lparr>video_tracks := video_tracks c @ [t]\<rparr>) d"]) simp_all
  qed
  show "clients_ok (OnRemoveTrack uid t d)" if "clients_ok d" for d uid t
  proof -
    have "clients_ok (set_client uid (\<lambda>c. c\<lparr>video_tracks := filter (\<lambda>x. x \<noteq> t) (video_tracks c)\<rparr>) d)"
      using that by (intro clients_set) (auto simp: clients_ok_def dest!: map_of_SomeD)
    then show ?thesis unfolding OnRemoveTrack_def
      by (subst clients_cong [of _ "set_client uid (\<lambda>c. c\<lparr>video_tracks := filter (\<lambda>x. x \<noteq> t) (video_tracks c)\<rparr>) d"]) simp_all
  qed
  show "clients_ok (ClearAllRegisteredTracks uid d)" if "clients_ok d" for d uid
    using that clients_cong [of "fold RemoveTrack ts d" d for ts]
    by (auto simp: ClearAllRegisteredTracks_def intro!: clients_set split: option.split)
qed

section \<open>The windows\<close>

text \<open>Each window of the pool is either spare or the window of exactly one renderer, and the map of the
  windows and the renderers agree.\<close>

definition pool_ok :: "dialog \<Rightarrow> bool" where
  "pool_ok d \<longleftrightarrow> keyed (video_renders d) \<and> distinct (win_spare d) \<and> LOCAL_WIN \<notin> set (win_spare d) \<and>
     (\<forall>t. video_wins d t \<noteq> Some LOCAL_WIN) \<and>
     (\<forall>w. w \<noteq> LOCAL_WIN \<longrightarrow> (w \<in> set (win_spare d) \<longleftrightarrow> (\<forall>t. video_wins d t \<noteq> Some w))) \<and>
     (\<forall>t t' w. video_wins d t = Some w \<and> video_wins d t' = Some w \<longrightarrow> t = t') \<and>
     (\<forall>t w. w \<noteq> LOCAL_WIN \<longrightarrow> (map_of (video_renders d) t = Some (Some w) \<longleftrightarrow> video_wins d t = Some w))"

text \<open>A window is given only for the track of a user with a connection.\<close>

definition tracked :: "dialog \<Rightarrow> bool" where
  "tracked d \<longleftrightarrow> (\<forall>t. video_wins d t \<noteq> None \<longrightarrow>
     (\<exists>(uid, c) \<in> set (users d). has_connection c \<and> t \<in> set (video_tracks c)))"

lemma RemoveTrack_wins: "video_wins (RemoveTrack t d) = (video_wins d)(t := None)"
  by (auto simp: RemoveTrack_def Let_def split: option.split)

lemma RemoveTrack_pool:
  assumes "pool_ok d"
  shows "pool_ok (RemoveTrack t d)"
proof (cases "video_wins d t")
  case None
  have "video_wins (RemoveTrack t d) = video_wins d" "win_spare (RemoveTrack t d) = win_spare d"
    "video_renders (RemoveTrack t d) = erase_key t (video_renders d)" using None by (auto simp: RemoveTrack_def Let_def)
  then show ?thesis using assms None unfolding pool_ok_def by (simp add: keyed_erase map_of_erase)
next
  case (Some w)
  have r: "video_wins (RemoveTrack t d) = (video_wins d)(t := None)" "win_spare (RemoveTrack t d) = win_spare d @ [w]"
    "video_renders (RemoveTrack t d) = erase_key t (video_renders d)" using Some by (auto simp: RemoveTrack_def Let_def)
  have w: "w \<noteq> LOCAL_WIN" "w \<notin> set (win_spare d)" "\<forall>t'. video_wins d t' = Some w \<longrightarrow> t' = t"
    using assms Some unfolding pool_ok_def by metis+
  note k = assms [unfolded pool_ok_def]
  show ?thesis unfolding pool_ok_def r
  proof (intro conjI)
    show "\<forall>v. v \<noteq> LOCAL_WIN \<longrightarrow> (v \<in> set (win_spare d @ [w]) \<longleftrightarrow> (\<forall>t'. ((video_wins d)(t := None)) t' \<noteq> Some v))"
    proof (intro allI impI)
      fix v assume v: "v \<noteq> LOCAL_WIN"
      show "v \<in> set (win_spare d @ [w]) \<longleftrightarrow> (\<forall>t'. ((video_wins d)(t := None)) t' \<noteq> Some v)"
      proof (cases "v = w")
        case False
        then have "(\<forall>t'. ((video_wins d)(t := None)) t' \<noteq> Some v) \<longleftrightarrow> (\<forall>t'. video_wins d t' \<noteq> Some v)"
          using Some by (metis fun_upd_def option.distinct(1) option.inject)
        then show ?thesis using k v False by simp
      qed (use w in auto)
    qed
  qed (use k w in \<open>auto simp: keyed_erase map_of_erase\<close>)
qed

lemma fold_RemoveTrack:
  "pool_ok d \<Longrightarrow> pool_ok (fold RemoveTrack ts d)"
  "video_wins (fold RemoveTrack ts d) = (\<lambda>t. if t \<in> set ts then None else video_wins d t)"
  by (induction ts arbitrary: d) (auto simp: RemoveTrack_pool RemoveTrack_wins)

lemma AddTrack_pool:
  assumes "pool_ok d"
  shows "pool_ok (AddTrack t local d) \<and> (\<forall>t'. t' \<noteq> t \<or> local \<longrightarrow> video_wins (AddTrack t local d) t' = video_wins d t')"
proof (cases "map_of (video_renders d) t")
  case None
  note k = assms [unfolded pool_ok_def]
  have n: "video_wins d t = None" using k None by (metis not_None_eq option.distinct(1))
  have rk: "keyed (put t x (video_renders d))" "keyed (put t y (put t x (video_renders d)))" for x y using k by (simp_all add: keyed_put)
  show ?thesis
  proof (cases local)
    case True
    then show ?thesis using None n k rk
      by (simp add: AddTrack_def AllocateWindow_def pool_ok_def map_of_put)
  next
    case False
    show ?thesis
    proof (cases "win_spare d")
      case Nil
      then show ?thesis using None n k rk False
        by (simp add: AddTrack_def AllocateWindow_def pool_ok_def map_of_put)
    next
      case (Cons w ws)
      have w: "w \<noteq> LOCAL_WIN" "w \<notin> set ws" "distinct ws" "\<forall>t'. video_wins d t' \<noteq> Some w"
        using k Cons by (metis distinct.simps(2) list.set_intros(1))+
      have "Some w \<notin> snd ` set (put t None (video_renders d))"
      proof
        assume "Some w \<in> snd ` set (put t None (video_renders d))"
        then obtain t' where "(t', Some w) \<in> set (video_renders d)" by (auto simp: set_put)
        then have "map_of (video_renders d) t' = Some (Some w)" using k by (simp add: map_of_keyed)
        then show False using k w(1,4) by blast
      qed
      then have r: "video_wins (AddTrack t local d) = (video_wins d)(t \<mapsto> w)" "win_spare (AddTrack t local d) = ws"
        "video_renders (AddTrack t local d) = put t (Some w) (put t None (video_renders d))"
        using None Cons False by (simp_all add: AddTrack_def AllocateWindow_def Let_def)
      have "pool_ok (AddTrack t local d)"
        unfolding pool_ok_def r
      proof (intro conjI)
        show "\<forall>v. v \<noteq> LOCAL_WIN \<longrightarrow> (v \<in> set ws \<longleftrightarrow> (\<forall>t'. ((video_wins d)(t \<mapsto> w)) t' \<noteq> Some v))"
        proof (intro allI impI)
          fix v assume v: "v \<noteq> LOCAL_WIN"
          have "v \<in> set (win_spare d) \<longleftrightarrow> (\<forall>t'. video_wins d t' \<noteq> Some v)" using k v by blast
          moreover have "(\<forall>t'. ((video_wins d)(t \<mapsto> w)) t' \<noteq> Some v) \<longleftrightarrow> v \<noteq> w \<and> (\<forall>t'. video_wins d t' \<noteq> Some v)"
            using n by (metis fun_upd_def option.distinct(1) option.inject)
          ultimately show "v \<in> set ws \<longleftrightarrow> (\<forall>t'. ((video_wins d)(t \<mapsto> w)) t' \<noteq> Some v)" using Cons w(2) by auto
        qed
        show "\<forall>t' v. v \<noteq> LOCAL_WIN \<longrightarrow> (map_of (put t (Some w) (put t None (video_renders d))) t' = Some (Some v) \<longleftrightarrow>
          ((video_wins d)(t \<mapsto> w)) t' = Some v)" using k rk(1) by (simp add: map_of_put)
        show "\<forall>t' t'' v. ((video_wins d)(t \<mapsto> w)) t' = Some v \<and> ((video_wins d)(t \<mapsto> w)) t'' = Some v \<longrightarrow> t' = t''"
          using k w(4) by (auto simp: fun_upd_def split: if_splits)
      qed (use k Cons w rk in auto)
      then show ?thesis using r(1) False by simp
    qed
  qed
qed (use assms in \<open>simp add: AddTrack_def\<close>)

lemma pool_cong: "video_renders d' = video_renders d \<Longrightarrow> video_wins d' = video_wins d \<Longrightarrow> win_spare d' = win_spare d \<Longrightarrow> pool_ok d' = pool_ok d"
  by (simp add: pool_ok_def)

lemma CreateLocalMediaStream_pool:
  "pool_ok d \<Longrightarrow> pool_ok (CreateLocalMediaStream rtc d) \<and> video_wins (CreateLocalMediaStream rtc d) = video_wins d"
  using AddTrack_pool [of "d\<lparr>local_track := Some t\<rparr>" t True for t]
  by (auto simp: CreateLocalMediaStream_def pool_ok_def split: option.split)

lemma DestroyPeerConnection_pool:
  assumes "pool_ok d"
  shows "pool_ok (DestroyPeerConnection c d) \<and> (\<forall>t w. video_wins (DestroyPeerConnection c d) t = Some w \<longrightarrow>
    video_wins d t = Some w \<and> \<not> (has_connection c \<and> t \<in> set (video_tracks c)))"
proof -
  define d1 where "d1 = (if is_local c \<and> has_connection c then DestroyLocalMediaStream d else d)"
  have "pool_ok ((RemoveTrack t d)\<lparr>local_track := None\<rparr>)" for t using RemoveTrack_pool [OF assms, of t] by (simp add: pool_ok_def)
  then have d1: "pool_ok d1" "\<And>t w. video_wins d1 t = Some w \<Longrightarrow> video_wins d t = Some w"
    using assms by (auto simp: d1_def DestroyLocalMediaStream_def RemoveTrack_wins split: option.splits if_splits)
  have "DestroyPeerConnection c d = (if has_connection c then fold RemoveTrack (video_tracks c) d1 else d1)"
    by (simp add: DestroyPeerConnection_def d1_def Let_def)
  then show ?thesis using d1(2) fold_RemoveTrack(1) [OF d1(1), of "video_tracks c"] d1(1) by (simp add: fold_RemoveTrack(2))
qed

lemma fold_Destroy_pool:
  assumes "pool_ok d"
  shows "pool_ok (fold (\<lambda>(_, c). DestroyPeerConnection c) us d) \<and>
    (\<forall>t w. video_wins (fold (\<lambda>(_, c). DestroyPeerConnection c) us d) t = Some w \<longrightarrow> video_wins d t = Some w \<and>
      \<not> (\<exists>(k, c) \<in> set us. has_connection c \<and> t \<in> set (video_tracks c)))"
  using assms
proof (induction us arbitrary: d)
  case (Cons u us)
  obtain k c where u: "u = (k, c)" by (cases u)
  from DestroyPeerConnection_pool [OF Cons.prems, of c] Cons.IH [of "DestroyPeerConnection c d"] show ?case
    unfolding u by simp
qed simp

lemma set_client_frame [simp]:
  "video_renders (set_client uid f d) = video_renders d" "video_wins (set_client uid f d) = video_wins d"
  "win_spare (set_client uid f d) = win_spare d" "user_id (set_client uid f d) = user_id d"
  by (simp_all add: set_client_def split: option.split)

lemma pool_set_client [simp]: "pool_ok (set_client uid f d) = pool_ok d"
  by (rule pool_cong) simp_all

lemma tracked_set:
  assumes "tracked d" "clients_ok d" and "\<And>c t. map_of (users d) uid = Some c \<Longrightarrow> has_connection c \<Longrightarrow> t \<in> set (video_tracks c) \<Longrightarrow>
    video_wins d t \<noteq> None \<Longrightarrow> has_connection (f c) \<and> t \<in> set (video_tracks (f c))"
  shows "tracked (set_client uid f d)"
  unfolding tracked_def
proof (intro allI impI)
  fix t assume "video_wins (set_client uid f d) t \<noteq> None"
  then have t: "video_wins d t \<noteq> None" by simp
  then obtain k c where k: "(k, c) \<in> set (users d)" "has_connection c" "t \<in> set (video_tracks c)" using assms(1) by (auto simp: tracked_def)
  show "\<exists>(k, c) \<in> set (users (set_client uid f d)). has_connection c \<and> t \<in> set (video_tracks c)"
  proof (cases "k = uid")
    case True
    then have "map_of (users d) uid = Some c" using k(1) assms(2) by (simp add: clients_ok_def map_of_keyed)
    then show ?thesis using assms(3) [OF _ k(2,3) t] by (auto simp: set_client_def set_put)
  next
    case False
    then have "(k, c) \<in> set (users (set_client uid f d))" using k(1) by (auto simp: set_client_def set_put split: option.split)
    then show ?thesis using k by blast
  qed
qed

lemma AddClient_wins:
  assumes "pool_ok d" "clients_ok d"
  shows "pool_ok (AddClient rtc uid name d) \<and> video_wins (AddClient rtc uid name d) = video_wins d \<and>
    set (users d) \<subseteq> set (users (AddClient rtc uid name d))"
proof (cases "map_of (users d) uid")
  case None
  define d1 where "d1 = d\<lparr>users := put uid \<lparr>is_local = (uid = user_id d), send_offer = False, client_name = name,
    client_id = uid, client_mid = [], has_connection = False, video_tracks = []\<rparr> (users d)\<rparr>"
  have new: "\<forall>e \<in> set (users d). fst e \<noteq> uid" using None by (auto simp: map_of_eq_None_iff)
  have d1: "pool_ok d1" "video_wins d1 = video_wins d" "set (users d) \<subseteq> set (users d1)"
    using assms(1) new by (auto simp: d1_def pool_ok_def set_put)
  have "set (users d) \<subseteq> set (users (set_client uid (\<lambda>c. c\<lparr>has_connection := True\<rparr>) d1))"
    using d1(3) new by (auto simp: set_client_def set_put split: option.split)
  then show ?thesis using None d1 CreateLocalMediaStream_pool [of "set_client uid (\<lambda>c. c\<lparr>has_connection := True\<rparr>) d1" rtc]
    by (auto simp: AddClient_def d1_def [symmetric] CreatePeerConnection_def Let_def split: option.split)
qed (use assms in \<open>simp add: AddClient_def\<close>)

text \<open>The windows and the users together.\<close>

definition windows_ok :: "dialog \<Rightarrow> bool" where
  "windows_ok d \<longleftrightarrow> clients_ok d \<and> pool_ok d \<and> tracked d"

lemma tracked_mono:
  assumes "tracked d" and "set (users d) \<subseteq> set (users d')" and "\<And>t. video_wins d' t \<noteq> None \<Longrightarrow> video_wins d t \<noteq> None"
  shows "tracked d'"
  using assms unfolding tracked_def by blast

lemma windows_RemoveClient:
  assumes "windows_ok d"
  shows "windows_ok (RemoveClient uid d)"
proof (cases "map_of (users d) uid")
  case (Some c)
  let ?d = "DestroyPeerConnection c d"
  have o: "clients_ok d" "pool_ok d" "tracked d" using assms by (simp_all add: windows_ok_def)
  have uc: "(uid, c) \<in> set (users d)" "\<forall>c'. (uid, c') \<in> set (users d) \<longrightarrow> c' = c"
    using Some o(1) by (auto simp: clients_ok_def map_of_keyed [symmetric])
  note D = DestroyPeerConnection_pool [OF o(2), of c]
  have "tracked (?d\<lparr>users := erase_key uid (users ?d)\<rparr>)" unfolding tracked_def
  proof (intro allI impI)
    fix t assume "video_wins (?d\<lparr>users := erase_key uid (users ?d)\<rparr>) t \<noteq> None"
    then have t: "video_wins d t \<noteq> None" "\<not> (has_connection c \<and> t \<in> set (video_tracks c))" using D by auto
    then obtain k c' where k: "(k, c') \<in> set (users d)" "has_connection c'" "t \<in> set (video_tracks c')"
      using o(3) by (auto simp: tracked_def)
    then have "k \<noteq> uid" using uc(2) t(2) by blast
    then show "\<exists>(k, c) \<in> set (users (?d\<lparr>users := erase_key uid (users ?d)\<rparr>)). has_connection c \<and> t \<in> set (video_tracks c)"
      using k by (auto simp: set_erase_key)
  qed
  moreover have "pool_ok (?d\<lparr>users := erase_key uid (users ?d)\<rparr>)" using D by (simp add: pool_ok_def)
  ultimately show ?thesis using clients.remove_client [OF o(1), of uid] Some
    by (simp add: windows_ok_def RemoveClient_def)
qed (use assms in \<open>simp add: RemoveClient_def\<close>)

lemma windows_RemoveAllClients:
  assumes "windows_ok d"
  shows "windows_ok (RemoveAllClients d) \<and> users (RemoveAllClients d) = [] \<and> video_wins (RemoveAllClients d) = Map.empty"
proof -
  have o: "clients_ok d" "pool_ok d" "tracked d" using assms by (simp_all add: windows_ok_def)
  note D = fold_Destroy_pool [OF o(2), of "users d"]
  have e: "video_wins (fold (\<lambda>(_, c). DestroyPeerConnection c) (users d) d) = Map.empty"
  proof
    fix t
    show "video_wins (fold (\<lambda>(_, c). DestroyPeerConnection c) (users d) d) t = None"
    proof (rule ccontr)
      assume n: "video_wins (fold (\<lambda>(_, c). DestroyPeerConnection c) (users d) d) t \<noteq> None"
      then have "video_wins d t \<noteq> None" "\<not> (\<exists>(k, c) \<in> set (users d). has_connection c \<and> t \<in> set (video_tracks c))" using D by auto
      then show False using o(3) unfolding tracked_def by blast
    qed
  qed
  have "pool_ok (RemoveAllClients d)" using D e by (simp add: RemoveAllClients_def pool_ok_def keyed_def)
  then show ?thesis using clients.remove_all [OF o(1)] e by (simp add: windows_ok_def RemoveAllClients_def tracked_def)
qed

interpretation windows: dialog_invariant windows_ok
proof
  show "windows_ok (OnInitDialog uuid seed g)" for uuid seed g
    using clients.at_start [of uuid seed g] window.exhaust
    by (auto simp: windows_ok_def pool_ok_def tracked_def OnInitDialog_def keyed_def)
  show "windows_ok d \<Longrightarrow> same_users d d' \<Longrightarrow> windows_ok d'" for d d'
    by (simp add: same_users_def windows_ok_def clients_ok_def pool_ok_def tracked_def)
  show "windows_ok (AddClient rtc uid name d)" if "windows_ok d" for d rtc uid name
    using that clients.add_client [of d rtc uid name] AddClient_wins [of d rtc uid name] tracked_mono [of d "AddClient rtc uid name d"]
    by (simp add: windows_ok_def)
  show "windows_ok d \<Longrightarrow> windows_ok (RemoveClient uid d)" for d uid by (rule windows_RemoveClient)
  show "windows_ok d \<Longrightarrow> windows_ok (RemoveAllClients d)" for d using windows_RemoveAllClients by blast
  show "windows_ok (set_client uid f d)" if "windows_ok d" "keeps_tracks f" for d f uid
    using that clients.change_client [of d f uid] tracked_set [of d uid f] by (simp add: windows_ok_def keeps_tracks_def)
  show "windows_ok (OnTrack uid t d)" if "windows_ok d" "connected uid d" for d uid t
  proof -
    let ?f = "\<lambda>c. c\<lparr>video_tracks := video_tracks c @ [t]\<rparr>"
    have o: "clients_ok d" "pool_ok d" "tracked d" using that(1) by (simp_all add: windows_ok_def)
    have s: "tracked (set_client uid ?f d)" by (rule tracked_set [OF o(3,1)]) simp
    from that(2) obtain c where c: "map_of (users d) uid = Some c" "has_connection c" by (auto simp: connected_def GetClient_def split: option.splits)
    have "(uid, ?f c) \<in> set (users (set_client uid ?f d))" using c(1) by (simp add: set_client_def set_put)
    then have "tracked (OnTrack uid t d)" using s c(2) AddTrack_pool [of "set_client uid ?f d" t False] o(2)
      unfolding tracked_def OnTrack_def by (auto 0 3 intro: bexI [of _ "(uid, ?f c)"])
    then show ?thesis using clients.track [OF o(1) that(2), of t] AddTrack_pool [of "set_client uid ?f d" t False] o(2)
      by (simp add: windows_ok_def OnTrack_def)
  qed
  show "windows_ok (OnRemoveTrack uid t d)" if "windows_ok d" "connected uid d" for d uid t
  proof -
    let ?f = "\<lambda>c. c\<lparr>video_tracks := filter (\<lambda>x. x \<noteq> t) (video_tracks c)\<rparr>"
    have o: "clients_ok d" "pool_ok d" "tracked d" using that(1) by (simp_all add: windows_ok_def)
    have r: "tracked (RemoveTrack t d)" using o(3) by (auto simp: tracked_def RemoveTrack_wins)
    have "tracked (set_client uid ?f (RemoveTrack t d))" 
      by (rule tracked_set [OF r]) (use o(1) clients_cong [of "RemoveTrack t d" d] in \<open>auto simp: RemoveTrack_wins\<close>)
    then have "tracked (OnRemoveTrack uid t d)" unfolding tracked_def OnRemoveTrack_def
      by (simp add: RemoveTrack_wins set_client_def split: option.splits)
    then show ?thesis using clients.untrack [OF o(1) that(2), of t] RemoveTrack_pool [of "set_client uid ?f d" t] o(2)
      by (simp add: windows_ok_def OnRemoveTrack_def)
  qed
  show "windows_ok (ClearAllRegisteredTracks uid d)" if "windows_ok d" "connected uid d" for d uid
  proof -
    have o: "clients_ok d" "pool_ok d" "tracked d" using that(1) by (simp_all add: windows_ok_def)
    from that(2) obtain c where c: "map_of (users d) uid = Some c" by (auto simp: connected_def GetClient_def split: option.splits)
    let ?d = "fold RemoveTrack (video_tracks c) d"
    have r: "tracked ?d" using o(3) by (auto simp: tracked_def fold_RemoveTrack(2))
    have "tracked (set_client uid (\<lambda>c. c\<lparr>video_tracks := []\<rparr>) ?d)"
      by (rule tracked_set [OF r]) (use o(1) c clients_cong [of ?d d] in \<open>auto simp: fold_RemoveTrack(2)\<close>)
    then show ?thesis using clients.disconnected [OF o(1) that(2)] fold_RemoveTrack(1) [OF o(2)] c
      by (simp add: windows_ok_def ClearAllRegisteredTracks_def GetClient_def)
  qed
qed

end
