(* ===== verification/Request_Laws.thy ===== *)
theory Request_Laws
  imports Signalling_Laws
begin

text \<open>
  The requests as the server reads them, the way of a response back to its request, and what the dialog
  does with messages that it does not expect.
\<close>

section \<open>Integers through a JSON text\<close>

lemma double_of_int_facts:
  assumes "\<bar>n\<bar> < 2 ^ 53"
  shows "wf_double (double_of_int n)" "is_finite (double_of_int n)" "dval (double_of_int n) = real_of_int n"
proof -
  have k: "nat \<bar>n\<bar> < 2 ^ 53" using assms by (simp add: nat_less_iff)
  note r = round_ratio_int [of "(nat \<bar>n\<bar>, 1)" "nat \<bar>n\<bar>" "n < 0"]
  show "wf_double (double_of_int n)" "is_finite (double_of_int n)" "dval (double_of_int n) = real_of_int n"
    using r(1,3,4) k by (simp_all add: double_of_int_def qval_of_nat)
qed

lemma double_to_int_of_int:
  assumes "- (2 ^ 31) \<le> n" and "n < 2 ^ 31"
  shows "double_to_int (double_of_int n) = Some n"
proof -
  have b: "\<bar>n\<bar> < 2 ^ 53" using assms by simp
  note f = double_of_int_facts [OF b]
  obtain s m e where d: "double_of_int n = Finite s m e" using f(2) by (cases "double_of_int n") auto
  obtain p q where pq: "scale 2 e (m, 1) = (p, q)" by fastforce
  have q: "0 < q" using snd_scale_pos [of 2 "(m, 1)" e] pq by simp
  have v: "(if s then - 1 else 1) * (real p / real q) = real_of_int n"
    using f(3) qval_scale [of 2 e "(m, 1)"] pq by (simp add: d qval_def)
  define i where "i = (if s then - int (p div q) else int (p div q))"
  have "real p = (if s then - 1 else 1) * real_of_int n * real q" using v q by (auto simp: field_simps split: if_splits)
  then have "int p = (if s then - n else n) * int q" by (simp add: of_int_eq_iff [symmetric, where 'a = real] split: if_splits)
  then have "int p div int q = (if s then - n else n)" using q by simp
  then have "i = n" by (simp add: i_def zdiv_int split: if_splits)
  then show ?thesis using d pq assms by (simp add: i_def Let_def)
qed

lemma reparsed_number:
  assumes "\<bar>n\<bar> < 10 ^ 15"
  shows "fst (strtod (number_text (double_of_int n))) = double_of_int n"
proof -
  have "\<bar>n\<bar> < 2 ^ 53" using assms by simp
  then show ?thesis using strtod_int number_text_int [OF assms] by simp
qed

lemma sint_range: "- (2 ^ 31) \<le> sint (w :: 32 word)" "sint (w :: 32 word) < 2 ^ 31"
  using sint_greater_eq [of w] sint_lt [of w] by simp_all

section \<open>Sending and reading\<close>

text \<open>A text that is parsed, with memory, to an item.\<close>

definition reads_as :: "string \<Rightarrow> cJSON \<Rightarrow> bool" where
  "reads_as t i \<longleftrightarrow> (\<forall>g. (\<forall>k. may_alloc (gmem g) k) \<longrightarrow>
     (\<exists>g'. cJSON_Parse (Some (t @ [NUL])) g = Some (Some i, None, g')))"

lemma send_json_reads:
  assumes pr: "printable i" "no_raw i" "height (reparsed None i) \<le> CJSON_NESTING_LIMIT" and mi: "minify \<longrightarrow> minifiable i"
  shows "\<exists>d' m o'. send_json minify i d = Some d' \<and> d' = d\<lparr>json := (json d)\<lparr>gmem := m\<rparr>, outbox := outbox d @ o'\<rparr> \<and>
    live m = live (gmem (json d)) \<and>
    (o' = [] \<or> websocket d \<and> (\<exists>t. o' = [t] \<and> render (\<not> minify) 0 i = Some t \<and> reads_as t (reparsed None i))) \<and>
    (\<forall>t. render True 0 i = Some t \<and> length t + 2 \<le> INT_MAX_size \<and> websocket d \<and> (\<forall>k. may_alloc (gmem (json d)) k) \<longrightarrow> o' \<noteq> [])"
proof -
  obtain r m where r: "cJSON_Print (Some i) (gmem (json d)) = Some (r, m)" "live m = live (gmem (json d)) + (if r = None then 0 else 1)"
    "\<forall>s. r = Some s \<longrightarrow> (\<exists>t. render True 0 i = Some t \<and> s = t @ [NUL])"
    "\<forall>t. render True 0 i = Some t \<and> (\<forall>i. may_alloc (gmem (json d)) i) \<and> length t + 2 \<le> INT_MAX_size \<longrightarrow> r \<noteq> None"
    using print_outcome [of "Some i" True "gmem (json d)"] pr(1) by (auto simp: cJSON_Print_def render_item_def)
  show ?thesis
  proof (cases r)
    case None
    then have "send_json minify i d = Some (d\<lparr>json := (json d)\<lparr>gmem := m\<rparr>\<rparr>)"
      using r(1) by (simp add: send_json_def cJSON_Minify_def)
    then show ?thesis using None r(2,4)
      by (intro exI [of _ "d\<lparr>json := (json d)\<lparr>gmem := m\<rparr>\<rparr>"] exI [of _ m] exI [of _ "[]"]) auto
  next
    case (Some s)
    then obtain t where t: "render True 0 i = Some t" "s = t @ [NUL]" using r(3) by blast
    have rd: "reads_as u (reparsed None i)" if "render fmt 0 i = Some u" for fmt u
      unfolding reads_as_def using parse_rendered [OF pr(1,2) that pr(3), of _ "[]"] by auto
    have "\<exists>s' u. (if minify then cJSON_Minify (Some s) else Some (Some s)) = Some (Some s') \<and> cstring s' = u \<and> render (\<not> minify) 0 i = Some u"
    proof (cases minify)
      case True
      then show ?thesis using minify_formatted [OF pr(1,2) _ t(1), of "[]"] mi t(2) by auto
    next
      case False
      have "cstring (t @ [NUL]) = t" using render_nulfree(1) [OF pr(1) t(1)] cstring_append_NUL [of t "[]"] by simp
      then show ?thesis using False t by simp
    qed
    then obtain s' u where u: "(if minify then cJSON_Minify (Some s) else Some (Some s)) = Some (Some s')" "cstring s' = u"
      "render (\<not> minify) 0 i = Some u" by blast
    define o' where "o' = (if websocket d then [u] else [])"
    have "send_json minify i d = Some (d\<lparr>json := (json d)\<lparr>gmem := deallocate 1 m\<rparr>, outbox := outbox d @ o'\<rparr>)"
      using r(1) Some u(1,2) by (simp add: send_json_def o'_def)
    moreover have "live (deallocate 1 m) = live (gmem (json d))" using r(2) Some by simp
    moreover have "o' = [] \<or> websocket d \<and> (\<exists>t. o' = [t] \<and> render (\<not> minify) 0 i = Some t \<and> reads_as t (reparsed None i))"
      using rd [OF u(3)] u(3) by (simp add: o'_def)
    moreover have "websocket d \<longrightarrow> o' \<noteq> []" by (simp add: o'_def)
    ultimately show ?thesis
      by (intro exI [of _ "d\<lparr>json := (json d)\<lparr>gmem := deallocate 1 m\<rparr>, outbox := outbox d @ o'\<rparr>"] exI [of _ "deallocate 1 m"]
        exI [of _ o']) blast
  qed
qed

section \<open>The requests\<close>

text \<open>The member of an item under a path of names.\<close>

definition at_path :: "cJSON \<Rightarrow> string list \<Rightarrow> cJSON option" where
  "at_path i names = foldl object_item (Some i) names"

lemma create_simps:
  "create_object = Item cJSON_Object None 0 zero_double None []"
  "create_true = Item cJSON_True None 0 zero_double None []"
  "create_string s = Item cJSON_String (Some (cstring s)) 0 zero_double None []"
  "create_number n = Item cJSON_Number None n (double_of_int n) None []"
  "add_member (Item t vs vi vd k cs) name item = Item t vs vi vd k (cs @ [set_string (Some name) item])"
  by (simp_all add: create_object_def create_true_def create_string_def create_number_def zero_item_def add_member_def)

lemma nulfree_names:
  "nulfree ''request''" "nulfree ''id''" "nulfree ''method''" "nulfree ''data''" "nulfree ''rid''" "nulfree ''uid''"
  "nulfree ''info''" "nulfree ''name''" "nulfree ''jsep''" "nulfree ''type''" "nulfree ''sdp''" "nulfree ''options''"
  "nulfree ''codec''" "nulfree ''bandwidth''" "nulfree ''offer''" "nulfree ''VP8''" "nulfree ''publish''" "nulfree ''join''"
  by (simp_all add: nulfree_def)

definition publish_tree :: "32 word \<Rightarrow> string \<Rightarrow> string \<Rightarrow> string \<Rightarrow> cJSON" where
  "publish_tree session uid rid sdp = add_member (request_head session ''publish'') ''data''
     (add_member (add_member (add_member (add_member create_object ''uid'' (create_string uid)) ''rid'' (create_string rid))
       ''jsep'' (add_member (add_member create_object ''type'' (create_string ''offer'')) ''sdp'' (create_string sdp)))
       ''options'' (add_member (add_member create_object ''codec'' (create_string ''VP8'')) ''bandwidth'' (create_number 1024)))"

lemma Publish_tree:
  "Publish uid sdp d = (case AllocateSession RequestPublish uid d of (session, d) \<Rightarrow>
     send_json True (publish_tree session uid (room_id d) sdp) d)"
  by (simp add: Publish_def publish_tree_def Let_def)

lemma publish_tree_ok:
  "printable (publish_tree session uid rid sdp)" "no_raw (publish_tree session uid rid sdp)"
  "height (reparsed None (publish_tree session uid rid sdp)) \<le> CJSON_NESTING_LIMIT"
  "unescaped_end (cstring uid) \<Longrightarrow> unescaped_end (cstring rid) \<Longrightarrow> unescaped_end (cstring sdp) \<Longrightarrow>
     minifiable (publish_tree session uid rid sdp)"
proof -
  have "wf_double (double_of_int (sint session))" "wf_double (double_of_int 1024)" "wf_double zero_double"
    using sint_range [of session] by (auto intro!: double_of_int_facts(1) simp: zero_double_def canonical_def)
  then show "printable (publish_tree session uid rid sdp)"
    by (simp add: publish_tree_def request_head_def Let_def create_simps text_of_def nulfree_names)
  show "no_raw (publish_tree session uid rid sdp)"
    by (simp add: publish_tree_def request_head_def Let_def create_simps)
  show "height (reparsed None (publish_tree session uid rid sdp)) \<le> CJSON_NESTING_LIMIT"
    by (simp add: publish_tree_def request_head_def Let_def create_simps)
  show "unescaped_end (cstring uid) \<Longrightarrow> unescaped_end (cstring rid) \<Longrightarrow> unescaped_end (cstring sdp) \<Longrightarrow>
     minifiable (publish_tree session uid rid sdp)"
    by (simp add: publish_tree_def request_head_def Let_def create_simps text_of_def unescaped_end_def)
qed


text \<open>The parsed tree, with the members as they are looked up.\<close>

lemma reparsed_create:
  "reparsed name (Item cJSON_Object vs vi vd s cs) =
     Item cJSON_Object None 0 zero_double name (map (\<lambda>c. reparsed (Some (text_of (item_string c))) c) cs)"
  "reparsed name (Item cJSON_True vs vi vd s cs) = Item cJSON_True None 1 zero_double name []"
  "reparsed name (Item cJSON_String (Some t) vi vd s cs) = Item cJSON_String (Some t) 0 zero_double name []"
  "\<bar>n\<bar> < 2 ^ 31 \<or> n = - (2 ^ 31) \<Longrightarrow> reparsed name (Item cJSON_Number vs vi (double_of_int n) s cs) =
     Item cJSON_Number None (the (saturate (double_of_int n))) (double_of_int n) name []"
proof -
  show "reparsed name (Item cJSON_Number vs vi (double_of_int n) s cs) =
     Item cJSON_Number None (the (saturate (double_of_int n))) (double_of_int n) name []" if "\<bar>n\<bar> < 2 ^ 31 \<or> n = - (2 ^ 31)"
    using that double_of_int_facts(2) [of n] reparsed_number [of n] by (auto simp: Let_def)
qed (simp_all add: text_of_def)

text \<open>Names without capital letters.\<close>

definition lower :: "string \<Rightarrow> bool" where
  "lower s \<longleftrightarrow> map tolower s = s"

lemma lower_names:
  "lower ''request''" "lower ''id''" "lower ''method''" "lower ''data''" "lower ''rid''" "lower ''uid''"
   "lower ''info''" "lower ''name''" "lower ''jsep''" "lower ''type''" "lower ''sdp''" "lower ''options''"
   "lower ''codec''" "lower ''bandwidth''" "lower ''response''" "lower ''ok''"
  by code_simp+

lemma same_name_lower: "lower s \<Longrightarrow> lower t \<Longrightarrow> same_name False s t \<longleftrightarrow> s = t"
  by (simp add: same_name_def lower_def)

lemma object_item_cons:
  "object_item (Some (Item t vs vi vd s (c # cs))) name =
     (if (case item_string c of None \<Rightarrow> False | Some k \<Rightarrow> same_name False name k) then Some c
      else object_item (Some (Item t vs vi vd s cs)) name)"
  "object_item (Some (Item t vs vi vd s [])) name = None"
  by (simp_all add: object_item_def)

lemma publish_tree_read:
  assumes i_def: "i = reparsed None (publish_tree session uid rid sdp)"
  shows "at_path i [''request''] \<noteq> None" "cJSON_GetNumberValue (at_path i [''id'']) = double_of_int (sint session)"
    "cJSON_GetStringValue (at_path i [''method'']) = Some ''publish''"
    "cJSON_GetStringValue (at_path i [''data'', ''uid'']) = Some (cstring uid)"
    "cJSON_GetStringValue (at_path i [''data'', ''rid'']) = Some (cstring rid)"
    "cJSON_GetStringValue (at_path i [''data'', ''jsep'', ''sdp'']) = Some (cstring sdp)"
proof -
  have n: "\<bar>sint session\<bar> < 2 ^ 31 \<or> sint session = - (2 ^ 31)" using sint_range [of session] by auto
  note simps = i_def publish_tree_def request_head_def Let_def create_simps reparsed_create(1-3) reparsed_create(4) [OF n]
    reparsed_create(4) [of 1024] at_path_def object_item_cons lower_names same_name_lower text_of_def cJSON_GetNumberValue_def cJSON_GetStringValue_def is_kind_defs kind_def
  show "at_path i [''request''] \<noteq> None" by (simp add: simps del: reparsed.simps)
  show "cJSON_GetNumberValue (at_path i [''id'']) = double_of_int (sint session)" by (simp add: simps del: reparsed.simps)
  show "cJSON_GetStringValue (at_path i [''method'']) = Some ''publish''" by (simp add: simps nulfree_names del: reparsed.simps)
  show "cJSON_GetStringValue (at_path i [''data'', ''uid'']) = Some (cstring uid)" by (simp add: simps del: reparsed.simps)
  show "cJSON_GetStringValue (at_path i [''data'', ''rid'']) = Some (cstring rid)" by (simp add: simps del: reparsed.simps)
  show "cJSON_GetStringValue (at_path i [''data'', ''jsep'', ''sdp'']) = Some (cstring sdp)" by (simp add: simps del: reparsed.simps)
qed

lemma escape_short: "length (escape c) \<le> 6"
  by (simp add: escape_def hex_escape_def split: option.split)

lemma length_quote: "length (quote s) \<le> 6 * length s + 2"
proof -
  have "length (concat (map escape s)) \<le> 6 * length s"
  proof (induction s)
    case (Cons c s)
    then show ?case using escape_short [of c] by simp
  qed simp
  then show ?thesis by (simp add: quote_def)
qed

lemma length_cstring: "length (cstring s) \<le> length s"
  by (simp add: cstring_def length_takeWhile_le)

lemma publish_tree_render:
  "\<exists>t. render True 0 (publish_tree session uid rid sdp) = Some t \<and>
     length t \<le> 6 * (length uid + length rid + length sdp) + 1000"
proof -
  have q: "length (quote (cstring s)) \<le> 6 * length s + 2" for s using length_quote [of "cstring s"] length_cstring [of s] by linarith
  have w: "wf_double (double_of_int (sint session))" "wf_double (double_of_int 1024)"
    using sint_range [of session] by (auto intro!: double_of_int_facts(1))
  have l: "length (quote ''request'') \<le> 44" "length (quote ''id'') \<le> 44" "length (quote ''method'') \<le> 44" "length (quote ''publish'') \<le> 44"
    "length (quote ''data'') \<le> 44" "length (quote ''uid'') \<le> 44" "length (quote ''rid'') \<le> 44" "length (quote ''jsep'') \<le> 44"
    "length (quote ''type'') \<le> 44" "length (quote ''offer'') \<le> 44" "length (quote ''sdp'') \<le> 44" "length (quote ''options'') \<le> 44"
    "length (quote ''codec'') \<le> 44" "length (quote ''VP8'') \<le> 44" "length (quote ''bandwidth'') \<le> 56"
    by (rule order_trans [OF length_quote], simp)+
  note n = nulfree_number_text(2) [OF w(1)] nulfree_number_text(2) [OF w(2)]
  show ?thesis using q [of uid] q [of rid] q [of sdp] l n
    by (simp add: publish_tree_def request_head_def Let_def create_simps text_of_def nulfree_names tabs_def)
qed

section \<open>Memory for the next message\<close>

lemma print_hooks:
  assumes pr: "printable i" and r: "print (Some i) fmt m = Some (r, m')"
  shows "may_alloc m' = may_alloc m"
proof -
  obtain ok m1 where al: "allocate m = (ok, m1)" by fastforce
  note hk = allocate_hooks [OF al]
  show ?thesis
  proof (cases ok)
    case False
    then show ?thesis using r hk by (simp add: print_def al same_hooks_def)
  next
    case True
    define p where "p = start_buffer (fresh_block m1 256) 256 False fmt m1"
    have sp: "sound p" unfolding p_def by (rule start_sound) (simp_all add: fresh_block_def INT_MAX_size_def)
    have "yields wrote 0 (render_item (pformat p) (Some i)) p (print_value_opt (Some i) p)"
      by (rule print_start_yields [OF sp]) (use pr in \<open>simp_all add: p_def\<close>)
    then obtain ok2 q where q: "print_value_opt (Some i) p = Some (ok2, q)" "keeps p q" by (auto simp: yields_def)
    have same: "may_alloc (pmem q) = may_alloc m" using q(2) hk by (simp add: keeps_def same_hooks_def p_def)
    show ?thesis
    proof (cases ok2)
      case False
      then show ?thesis using r True q(1) same
        by (auto simp: print_def al p_def [symmetric] drop_buffer_def deallocate_def split: if_splits)
    next
      case good: True
      from r True q(1) good obtain x where x: "update_offset q = Some x"
        by (auto simp: print_def al p_def [symmetric] split: bind_splits)
      have same': "may_alloc (pmem x) = may_alloc m" using update_offset_buffer [OF x] same by simp
      have "Some (r, m') = do {
            buffer \<leftarrow> pbuffer x;
            if has_realloc m
            then (case reallocate (pmem x) of (ok, m) \<Rightarrow>
              if \<not> ok then Some (None, drop_buffer (x\<lparr>pmem := m\<rparr>))
              else Some (Some (resized m buffer (poffset x + 1)), m))
            else (case allocate (pmem x) of (ok, m) \<Rightarrow>
              if \<not> ok then Some (None, drop_buffer (x\<lparr>pmem := m\<rparr>))
              else if length buffer < min (plength x) (poffset x + 1) then None
              else do {
                printed \<leftarrow> blit (fresh_block m (poffset x + 1)) 0 (take (min (plength x) (poffset x + 1)) buffer);
                printed \<leftarrow> poke printed (poffset x) NUL;
                Some (Some printed, drop_buffer (x\<lparr>pmem := m\<rparr>)) }) }"
        using r True q(1) good x by (simp add: print_def al p_def [symmetric] del: bind_Some_iff)
      then show ?thesis using same'
        by (auto simp: reallocate_def allocate_def drop_buffer_def deallocate_def split: if_splits bind_splits option.splits)
    qed
  qed
qed

lemma send_json_hooks:
  assumes "printable i" and "send_json minify i d = Some d'"
  shows "may_alloc (gmem (json d')) = may_alloc (gmem (json d))"
  using assms print_hooks [OF assms(1)] unfolding send_json_def cJSON_Print_def
  by (auto simp: deallocate_def split: bind_splits option.splits)

section \<open>Joining and leaving\<close>

definition join_tree :: "32 word \<Rightarrow> string \<Rightarrow> string \<Rightarrow> string \<Rightarrow> cJSON" where
  "join_tree session rid uid name = add_member (request_head session ''join'') ''data''
     (add_member (add_member (add_member create_object ''rid'' (create_string rid)) ''uid'' (create_string uid))
       ''info'' (add_member create_object ''name'' (create_string name)))"

definition leave_tree :: "32 word \<Rightarrow> string \<Rightarrow> string \<Rightarrow> cJSON" where
  "leave_tree session rid uid = add_member (request_head session ''leave'') ''data''
     (add_member (add_member create_object ''rid'' (create_string rid)) ''uid'' (create_string uid))"

lemma join_leave_printable: "printable (join_tree session rid uid name)" "printable (leave_tree session rid uid)"
proof -
  have "wf_double (double_of_int (sint session))" "wf_double zero_double" "nulfree ''leave''"
    using sint_range [of session] by (auto intro!: double_of_int_facts(1) simp: zero_double_def canonical_def nulfree_def)
  then show "printable (join_tree session rid uid name)" "printable (leave_tree session rid uid)"
    by (simp_all add: join_tree_def leave_tree_def request_head_def Let_def create_simps text_of_def nulfree_names)
qed

text \<open>Sending without a minifier is always defined and changes the text queue and the memory only.\<close>

lemma send_json_defined:
  assumes "printable i"
  shows "\<exists>d' m o'. send_json False i d = Some d' \<and> d' = d\<lparr>json := (json d)\<lparr>gmem := m\<rparr>, outbox := outbox d @ o'\<rparr>"
proof -
  obtain r m where "cJSON_Print (Some i) (gmem (json d)) = Some (r, m)"
    using print_outcome [of "Some i" True "gmem (json d)"] assms by (auto simp: cJSON_Print_def)
  then have "send_json False i d = Some (d\<lparr>json := (json d)\<lparr>gmem := (if r = None then m else deallocate 1 m)\<rparr>,
      outbox := outbox d @ (if r = None \<or> \<not> websocket d then [] else [cstring (the r)])\<rparr>)"
    by (cases r) (simp_all add: send_json_def)
  then show ?thesis by blast
qed

text \<open>What a request leaves: one more session, and a state that is otherwise the same.\<close>

definition after_request :: "command \<Rightarrow> dialog \<Rightarrow> dialog \<Rightarrow> bool" where
  "after_request r d d' \<longleftrightarrow> (\<exists>m o'. d' = d\<lparr>session_id := session_id d + 1,
     send_requests := (send_requests d)(session_id d + 1 \<mapsto> \<lparr>request_command = r, request_uid = user_id d\<rparr>),
     json := (json d)\<lparr>gmem := m\<rparr>, outbox := outbox d @ o'\<rparr> \<and> may_alloc m = may_alloc (gmem (json d)))"

lemma request_after:
  assumes "printable (tree (session_id d + 1))"
  shows "\<exists>d'. (case AllocateSession r (user_id d) d of (session, d) \<Rightarrow> send_json False (tree session) d) = Some d' \<and> after_request r d d'"
proof -
  obtain d1 where d1: "AllocateSession r (user_id d) d = (session_id d + 1, d1)"
    "d1 = d\<lparr>session_id := session_id d + 1,
      send_requests := (send_requests d)(session_id d + 1 \<mapsto> \<lparr>request_command = r, request_uid = user_id d\<rparr>)\<rparr>"
    by (simp add: AllocateSession_def Let_def)
  obtain d' m o' where s: "send_json False (tree (session_id d + 1)) d1 = Some d'"
    "d' = d1\<lparr>json := (json d1)\<lparr>gmem := m\<rparr>, outbox := outbox d1 @ o'\<rparr>"
    using send_json_defined [OF assms, of d1] by blast
  have "may_alloc m = may_alloc (gmem (json d1))" using send_json_hooks [OF assms s(1)] s(2) by simp
  then show ?thesis using d1 s by (auto simp: after_request_def)
qed

lemma JoinRoom_after: "\<exists>d'. JoinRoom d = Some d' \<and> after_request RequestJoinRoom d d'"
proof -
  have "JoinRoom d = (case AllocateSession RequestJoinRoom (user_id d) d of (session, d') \<Rightarrow>
      send_json False (join_tree session (room_id d) (user_id d) (user_name d)) d')"
    by (simp add: JoinRoom_def join_tree_def Let_def AllocateSession_def)
  then show ?thesis using request_after [of "\<lambda>s. join_tree s (room_id d) (user_id d) (user_name d)" d] join_leave_printable(1) by simp
qed

lemma LeaveRoom_after: "\<exists>d'. LeaveRoom d = Some d' \<and> after_request RequestLeaveRoom d d'"
proof -
  have "LeaveRoom d = (case AllocateSession RequestLeaveRoom (user_id d) d of (session, d') \<Rightarrow>
      send_json False (leave_tree session (room_id d) (user_id d)) d')"
    by (simp add: LeaveRoom_def leave_tree_def Let_def AllocateSession_def)
  then show ?thesis using request_after [of "\<lambda>s. leave_tree s (room_id d) (user_id d)" d] join_leave_printable(2) by simp
qed

text \<open>A message that answers a session with success.\<close>

definition answer_tree :: "32 word \<Rightarrow> cJSON" where
  "answer_tree session = add_member (add_member (add_member create_object ''response'' create_true) ''id'' (create_number (sint session)))
     ''ok'' create_true"

lemma answer_tree_read:
  "\<exists>t. reads_as t (reparsed None (answer_tree session))"
  "object_item (Some (reparsed None (answer_tree session))) ''response'' \<noteq> None"
  "object_item (Some (reparsed None (answer_tree session))) ''id'' \<noteq> None"
  "cJSON_GetNumberValue (object_item (Some (reparsed None (answer_tree session))) ''id'') = double_of_int (sint session)"
  "cJSON_IsTrue (object_item (Some (reparsed None (answer_tree session))) ''ok'')"
proof -
  have n: "\<bar>sint session\<bar> < 2 ^ 31 \<or> sint session = - (2 ^ 31)" using sint_range [of session] by auto
  have w: "wf_double (double_of_int (sint session))" "wf_double zero_double" "nulfree ''response''" "nulfree ''ok''"
    using sint_range [of session] by (auto intro!: double_of_int_facts(1) simp: zero_double_def canonical_def nulfree_def)
  note simps = answer_tree_def create_simps reparsed_create(1-3) reparsed_create(4) [OF n]
    object_item_cons lower_names same_name_lower text_of_def cJSON_GetNumberValue_def is_kind_defs kind_def
  have p: "printable (answer_tree session)" using w by (simp add: answer_tree_def create_simps text_of_def nulfree_names)
  have h: "no_raw (answer_tree session)" by (simp add: answer_tree_def create_simps)
  have h2: "height (reparsed None (answer_tree session)) \<le> CJSON_NESTING_LIMIT" by (simp add: simps del: reparsed.simps)
  obtain t where "render False 0 (answer_tree session) = Some t" by (simp add: answer_tree_def create_simps)
  then have "reads_as t (reparsed None (answer_tree session))"
    unfolding reads_as_def using parse_rendered [OF p h _ h2, of False t _ "[]"] by auto
  then show "\<exists>t. reads_as t (reparsed None (answer_tree session))" by blast
  show "object_item (Some (reparsed None (answer_tree session))) ''response'' \<noteq> None"
    "object_item (Some (reparsed None (answer_tree session))) ''id'' \<noteq> None"
    "cJSON_GetNumberValue (object_item (Some (reparsed None (answer_tree session))) ''id'') = double_of_int (sint session)"
    "cJSON_IsTrue (object_item (Some (reparsed None (answer_tree session))) ''ok'')"
    by (simp_all add: simps del: reparsed.simps)
qed

lemma response_dispatched:
  assumes "object_item (Some i) ''response'' \<noteq> None" and "object_item (Some i) ''id'' \<noteq> None"
    and "cJSON_GetNumberValue (object_item (Some i) ''id'') = double_of_int (sint s)"
  shows "dispatch rtc i d = OnWebSocketResponse rtc (FindSession s d) i d"
proof -
  obtain resp sid where o: "object_item (Some i) ''response'' = Some resp" "object_item (Some i) ''id'' = Some sid" using assms(1,2) by auto
  have "double_to_int (cJSON_GetNumberValue (Some sid)) = Some (sint s)"
    using assms(3) o(2) double_to_int_of_int [OF sint_range, of s] by simp
  then show ?thesis using o by (simp add: dispatch_def del: bind_Some_iff)
qed

text \<open>The local user is added with a connection and its camera: the track of the camera has the local window,
  the pool is as it was.\<close>

definition camera_on :: "string \<Rightarrow> dialog \<Rightarrow> dialog \<Rightarrow> bool" where
  "camera_on t d d' \<longleftrightarrow> local_track d' = Some t \<and> connected (user_id d) d' \<and> win_spare d' = win_spare d \<and>
     video_wins d' = video_wins d \<and> fst ` set (video_renders d') = insert t (fst ` set (video_renders d)) \<and>
     snd ` set (video_renders d') \<subseteq> insert (Some LOCAL_WIN) (snd ` set (video_renders d))"

lemma AddTrack_camera: "users d = users e \<Longrightarrow> connected (user_id e) e \<Longrightarrow> local_track d = Some t \<Longrightarrow> win_spare d = win_spare e \<Longrightarrow>
  video_wins d = video_wins e \<Longrightarrow> video_renders d = video_renders e \<Longrightarrow> camera_on t e (AddTrack t True d)"
proof (cases "map_of (video_renders d) t")
  case None
  then have "AddTrack t True d = d\<lparr>video_renders := put t (Some LOCAL_WIN) (put t None (video_renders d))\<rparr>"
    by (simp add: AddTrack_def AllocateWindow_def)
  moreover assume "users d = users e" "connected (user_id e) e" "local_track d = Some t" "win_spare d = win_spare e"
    "video_wins d = video_wins e" "video_renders d = video_renders e"
  ultimately show ?thesis using None
    by (auto simp: camera_on_def connected_def GetClient_def set_put map_of_eq_None_iff)
next
  case (Some w)
  then have "AddTrack t True d = d" "t \<in> fst ` set (video_renders d)"
    by (simp_all add: AddTrack_def) (metis fst_conv image_eqI map_of_SomeD)
  moreover assume "users d = users e" "connected (user_id e) e" "local_track d = Some t" "win_spare d = win_spare e"
    "video_wins d = video_wins e" "video_renders d = video_renders e"
  ultimately show ?thesis by (auto simp: camera_on_def connected_def GetClient_def)
qed

lemma AddClient_local:
  assumes "map_of (users d) (user_id d) = None" and "makes_connection rtc (user_id d)" and "camera rtc = Some t" and "clients_ok d"
  shows "camera_on t d (AddClient rtc (user_id d) name d)"
proof -
  define c where "c = \<lparr>is_local = True, send_offer = False, client_name = name, client_id = user_id d, client_mid = [],
    has_connection = False, video_tracks = []\<rparr>"
  have k: "keyed (users d)" using assms(4) by (simp add: clients_ok_def)
  define e where "e = set_client (user_id d) (\<lambda>c. c\<lparr>has_connection := True\<rparr>) (d\<lparr>users := put (user_id d) c (users d)\<rparr>)"
  have e: "connected (user_id e) e" "user_id e = user_id d" "win_spare e = win_spare d" "video_wins e = video_wins d"
    "video_renders e = video_renders d" using k
    by (simp_all add: e_def set_client_def map_of_put keyed_put connected_def GetClient_def)
  have "AddClient rtc (user_id d) name d = AddTrack t True (e\<lparr>local_track := Some t\<rparr>)"
    using assms(1-3) k by (simp add: AddClient_def CreatePeerConnection_def CreateLocalMediaStream_def GetClient_def map_of_put
      c_def e_def Let_def)
  moreover have "camera_on t e (AddTrack t True (e\<lparr>local_track := Some t\<rparr>))"
    by (rule AddTrack_camera) (simp_all add: e(1))
  ultimately show ?thesis by (simp add: camera_on_def e(2-5))
qed

text \<open>The other parts of the dialog under the operations on users and tracks.\<close>

definition same_rest :: "dialog \<Rightarrow> dialog \<Rightarrow> bool" where
  "same_rest d d' \<longleftrightarrow> session_id d' = session_id d \<and> send_requests d' = send_requests d \<and> json d' = json d \<and> user_id d' = user_id d \<and>
     auto_publish d' = auto_publish d \<and> local_published d' = local_published d \<and> joined_room d' = joined_room d \<and>
     websocket d' = websocket d \<and> outbox d' = outbox d"

lemma same_rest_fold: "(\<And>x d. same_rest d (f x d)) \<Longrightarrow> same_rest d (fold f xs d)"
  by (induction xs arbitrary: d) (auto simp: same_rest_def)

lemma RemoveTrack_rest: "same_rest d (RemoveTrack t d)"
  by (auto simp: same_rest_def RemoveTrack_def Let_def split: option.split)

lemma AddTrack_rest: "same_rest d (AddTrack t b d)"
  by (auto simp: same_rest_def AddTrack_def AllocateWindow_def Let_def split: option.split list.split)

lemma Destroy_rest: "same_rest d (DestroyPeerConnection c d)"
proof -
  have "same_rest d (DestroyLocalMediaStream d)" for d
    using RemoveTrack_rest [of d] by (auto simp: DestroyLocalMediaStream_def same_rest_def split: option.split)
  moreover have "same_rest d (fold RemoveTrack ts d)" for ts d by (rule same_rest_fold) (rule RemoveTrack_rest)
  ultimately show ?thesis by (auto simp: DestroyPeerConnection_def Let_def same_rest_def)
qed

lemma RemoveAllClients_rest: "same_rest d (RemoveAllClients d)"
  using same_rest_fold [of "\<lambda>(_, c). DestroyPeerConnection c" d "users d"] Destroy_rest
  by (simp add: RemoveAllClients_def same_rest_def split: prod.split)

lemma set_client_rest: "same_rest d (set_client uid f d)"
  by (simp add: set_client_def same_rest_def split: option.split)

lemma AddClient_rest: "same_rest d (AddClient rtc uid name d)"
proof -
  have "same_rest d (CreateLocalMediaStream rtc d)" for d
    using AddTrack_rest [of "d\<lparr>local_track := Some t\<rparr>" t True for t]
    by (auto simp: CreateLocalMediaStream_def same_rest_def split: option.split)
  then have "same_rest d (CreatePeerConnection rtc uid d)" for d
    using set_client_rest [of d] by (auto simp: CreatePeerConnection_def Let_def same_rest_def split: option.split)
  then show ?thesis by (auto simp: AddClient_def same_rest_def split: option.split)
qed

lemma set_client_in: "keyed (users d) \<Longrightarrow> map_of (users (set_client uid f d)) k = None \<longleftrightarrow> map_of (users d) k = None"
  by (auto simp: set_client_def map_of_put split: option.split)

lemma AddClient_in: "clients_ok d \<Longrightarrow> map_of (users (AddClient rtc uid name d)) uid \<noteq> None"
proof -
  assume o: "clients_ok d"
  then have k: "keyed (users d)" by (simp add: clients_ok_def)
  have "map_of (users (CreatePeerConnection rtc uid d)) uid = None \<longleftrightarrow> map_of (users d) uid = None" if "keyed (users d)" for d
    using set_client_in [OF that] by (auto simp: CreatePeerConnection_def Let_def split: option.split)
  from this [of "d\<lparr>users := put uid c (users d)\<rparr>" for c] show ?thesis
    using k by (simp add: AddClient_def keyed_put map_of_put del: not_None_eq split: option.split)
qed

text \<open>Publishing the local stream.\<close>

lemma publish_local:
  assumes "\<not> local_published d" and "clients_ok d"
  shows "\<exists>d'. PublishLocalStream rtc True d = Some d' \<and> local_published d' \<and> joined_room d' = joined_room d \<and>
    GetClient (user_id d) d' \<noteq> None \<and>
    (\<forall>t. map_of (users d) (user_id d) = None \<and> makes_connection rtc (user_id d) \<and> camera rtc = Some t \<longrightarrow> camera_on t d d')"
proof -
  define d1 where "d1 = set_client (user_id d) (\<lambda>c. c\<lparr>send_offer := True\<rparr>) (AddClient rtc (user_id d) (user_name d) d)"
  have k: "keyed (users (AddClient rtc (user_id d) (user_name d) d))" using clients.add_client [OF assms(2)] by (simp add: clients_ok_def)
  have r: "joined_room d1 = joined_room d" "user_id d1 = user_id d"
    using set_client_rest [of "AddClient rtc (user_id d) (user_name d) d"] AddClient_rest [of d rtc] by (simp_all add: d1_def same_rest_def)
  have in1: "map_of (users d1) (user_id d) \<noteq> None"
    unfolding d1_def using set_client_in [OF k] AddClient_in [OF assms(2)] by blast
  have t: "camera_on t d d1" if "map_of (users d) (user_id d) = None" "makes_connection rtc (user_id d)" "camera rtc = Some t" for t
    using AddClient_local [OF that assms(2), of "user_name d"] k
    by (auto simp: d1_def camera_on_def set_client_def connected_def GetClient_def map_of_put split: option.splits)
  obtain c where c: "map_of (users d1) (user_id d) = Some c" using in1 by blast
  have "PublishLocalStream rtc True d =
    Some ((if has_connection c then act (Create_Offer (user_id d) True) d1 else d1)\<lparr>local_published := True\<rparr>)"
    using assms(1) c r(2) by (simp add: PublishLocalStream_def d1_def [symmetric] GetClient_def Let_def)
  then show ?thesis using r c t by (auto simp: act_def GetClient_def camera_on_def connected_def)
qed

text \<open>The answer to a join makes the dialog publish its stream.\<close>

lemma answer_publishes:
  assumes "clients_ok d" and "send_requests d s = Some \<lparr>request_command = RequestJoinRoom, request_uid = uid\<rparr>"
    and "auto_publish d" and "\<not> local_published d" and "users d = []"
    and "reads_as msg (reparsed None (answer_tree s))" and "\<forall>k. may_alloc (gmem (json d)) k"
  shows "\<exists>d'. handle rtc (Receive msg) d = Some d' \<and> joined_room d' = joined_room d \<and> local_published d' \<and>
    GetClient (user_id d) d' \<noteq> None \<and>
    (\<forall>t. makes_connection rtc (user_id d) \<and> camera rtc = Some t \<longrightarrow> camera_on t d d')"
proof -
  obtain g where g: "cJSON_Parse (Some (msg @ [NUL])) (json d) = Some (Some (reparsed None (answer_tree s)), None, g)"
    using assms(6,7) unfolding reads_as_def by blast
  have c: "clients_ok (d\<lparr>json := g\<rparr>)" "\<not> local_published (d\<lparr>json := g\<rparr>)" using assms(1,4) by simp_all
  from publish_local [OF c(2,1), of rtc] obtain d' where d': "PublishLocalStream rtc True (d\<lparr>json := g\<rparr>) = Some d'" "local_published d'"
    "joined_room d' = joined_room d" "GetClient (user_id d) d' \<noteq> None"
    "\<forall>t. makes_connection rtc (user_id d) \<and> camera rtc = Some t \<longrightarrow> camera_on t d d'"
    using assms(5) by (auto simp: camera_on_def)
  have "dispatch rtc (reparsed None (answer_tree s)) (d\<lparr>json := g\<rparr>) = Some d'"
    unfolding response_dispatched [OF answer_tree_read(2-4)] using assms(2,3) d'(1) answer_tree_read(5) [of s]
    by (simp add: OnWebSocketResponse_def FindSession_def)
  then show ?thesis using g d' by (simp add: handle_def onReceiveMessage_def GetClient_def camera_on_def connected_def)
qed

text \<open>A dialog that has joined a room and been answered: its user has a connection and the camera is on.\<close>

definition sample_rtc :: rtc where
  "sample_rtc = \<lparr>makes_connection = (\<lambda>_. True), camera = Some ''cam'', local_description = (\<lambda>_. None)\<rparr>"

lemma joined_and_answered:
  obtains d1 msg d2 where "handle sample_rtc (Join ''room'' ''pc'') (OnInitDialog ''me'' 41 initial_globals) = Some d1" "reachable d1"
    "send_requests d1 = [42 \<mapsto> \<lparr>request_command = RequestJoinRoom, request_uid = ''me''\<rparr>]" "\<forall>k. may_alloc (gmem (json d1)) k"
    "handle sample_rtc (Receive msg) d1 = Some d2" "reachable d2" "connected ''me'' d2" "video_wins d2 = Map.empty"
    "win_spare d2 = [REMOTE_WIN_1, REMOTE_WIN_2, REMOTE_WIN_3]" "fst ` set (video_renders d2) = {''cam''}"
    "snd ` set (video_renders d2) \<subseteq> {Some LOCAL_WIN}"
proof -
  let ?d = "OnInitDialog ''me'' 41 initial_globals"
  obtain d0 where d0: "JoinRoom (?d\<lparr>room_id := ''room'', user_name := ''pc''\<rparr>) = Some d0"
    "after_request RequestJoinRoom (?d\<lparr>room_id := ''room'', user_name := ''pc''\<rparr>) d0" using JoinRoom_after by blast
  define d1 where "d1 = d0\<lparr>local_published := False, joined_room := True\<rparr>"
  have j: "handle sample_rtc (Join ''room'' ''pc'') ?d = Some d1"
    using d0(1) by (simp add: handle_def OnBnClickedBtnJoin_def d1_def OnInitDialog_def)
  have d1: "send_requests d1 = [42 \<mapsto> \<lparr>request_command = RequestJoinRoom, request_uid = ''me''\<rparr>]" "user_id d1 = ''me''"
    "auto_publish d1" "\<not> local_published d1" "\<forall>k. may_alloc (gmem (json d1)) k" "users d1 = []" "video_wins d1 = Map.empty"
    "win_spare d1 = [REMOTE_WIN_1, REMOTE_WIN_2, REMOTE_WIN_3]" "video_renders d1 = []"
    using d0(2) by (auto simp: after_request_def d1_def OnInitDialog_def initial_globals_def initial_mem_def)
  have r: "reachable d1" using reachable.step [OF reachable.init j] .
  obtain msg where "reads_as msg (reparsed None (answer_tree 42))" using answer_tree_read(1) by blast
  from answer_publishes [OF clients.always [OF r] _ d1(3,4,6) this d1(5), of "''me''" sample_rtc] obtain d2 where
    d2: "handle sample_rtc (Receive msg) d1 = Some d2" "camera_on ''cam'' d1 d2" using d1(1,2) by (auto simp: sample_rtc_def)
  have "reachable d2" using reachable.step [OF r d2(1)] .
  with j r d1 d2 show thesis by (intro that [of d1 msg d2]) (simp_all add: camera_on_def)
qed

section \<open>The properties\<close>

text \<open>C36: Whatever happens, the windows of the pool are divided among the spare ones and the video tracks:
  each is either spare or the window of exactly one track, that of a user with a connection, and the only
  renderer that draws in it is the one of this track; without users all are spare.\<close>

theorem windows_divided:
  assumes "reachable d" and "w \<noteq> LOCAL_WIN"
  shows "(w \<in> set (win_spare d) \<longleftrightarrow> (\<forall>t. video_wins d t \<noteq> Some w)) \<and> distinct (win_spare d) \<and>
    (\<forall>t. video_wins d t = Some w \<longrightarrow> (\<forall>t'. map_of (video_renders d) t' = Some (Some w) \<longleftrightarrow> t' = t) \<and>
       (\<exists>(uid, c) \<in> set (users d). has_connection c \<and> t \<in> set (video_tracks c))) \<and>
    (users d = [] \<longrightarrow> w \<in> set (win_spare d))"
proof -
  have o: "pool_ok d" "tracked d" using windows.always [OF assms(1)] by (simp_all add: windows_ok_def)
  have "\<forall>t. video_wins d t = Some w \<longrightarrow> (\<exists>(uid, c) \<in> set (users d). has_connection c \<and> t \<in> set (video_tracks c))"
    using o(2) unfolding tracked_def by blast
  then show ?thesis using o(1) assms(2) unfolding pool_ok_def by fastforce
qed

theorem windows_divided_witness:
  "\<exists>d. reachable d \<and> video_wins d ''t1'' = Some REMOTE_WIN_1 \<and> win_spare d = [REMOTE_WIN_2, REMOTE_WIN_3] \<and>
     map_of (video_renders d) ''t1'' = Some (Some REMOTE_WIN_1) \<and> (\<exists>(uid, c) \<in> set (users d). has_connection c \<and> ''t1'' \<in> set (video_tracks c))"
proof -
  obtain d1 msg d2 where d2: "reachable d2" "connected ''me'' d2" "video_wins d2 = Map.empty" "win_spare d2 = [REMOTE_WIN_1, REMOTE_WIN_2, REMOTE_WIN_3]"
    "fst ` set (video_renders d2) = {''cam''}" "snd ` set (video_renders d2) \<subseteq> {Some LOCAL_WIN}" by (rule joined_and_answered) (rule that)
  define d3 where "d3 = OnTrack ''me'' ''t1'' d2"
  have n: "map_of (video_renders d2) ''t1'' = None" using d2(5) by (simp add: map_of_eq_None_iff)
  have "Some REMOTE_WIN_1 \<notin> snd ` set (put ''t1'' None (video_renders d2))" using d2(6) by (auto simp: set_put)
  then have w: "video_wins d3 ''t1'' = Some REMOTE_WIN_1" "win_spare d3 = [REMOTE_WIN_2, REMOTE_WIN_3]" using d2(2-4) n
    by (auto simp: d3_def OnTrack_def AddTrack_def AllocateWindow_def set_client_def Let_def split: option.splits)
  have "handle sample_rtc (Track ''me'' ''t1'') d2 = Some d3" using d2(2) by (simp add: handle_def d3_def)
  then have r: "reachable d3" by (rule reachable.step [OF d2(1)])
  have x: "map_of (video_renders d3) ''t1'' = Some (Some REMOTE_WIN_1)" "\<exists>(uid, c) \<in> set (users d3). has_connection c \<and> ''t1'' \<in> set (video_tracks c)"
    using windows_divided [OF r, of REMOTE_WIN_1] w(1) by simp_all
  show ?thesis by (rule exI [of _ d3]) (simp add: r w x)
qed

text \<open>C37: The map of the users is always ordered and has each user once, under its own id; a client is the
  local one exactly if it has the id of the dialog, and has tracks only with a connection.\<close>

theorem users_well_formed:
  assumes "reachable d"
  shows "sorted (map fst (users d)) \<and> distinct (map fst (users d)) \<and> (\<forall>(uid, c) \<in> set (users d).
    client_id c = uid \<and> (is_local c \<longleftrightarrow> uid = user_id d) \<and> (video_tracks c \<noteq> [] \<longrightarrow> has_connection c))"
  using clients.always [OF assms] by (simp add: clients_ok_def keyed_def)

theorem users_well_formed_witness:
  "\<exists>d c. reachable d \<and> (''me'', c) \<in> set (users d) \<and> client_id c = ''me'' \<and> (is_local c \<longleftrightarrow> ''me'' = user_id d) \<and>
     distinct (map fst (users d))"
proof -
  obtain d1 msg d2 where d2: "reachable d2" "connected ''me'' d2" by (rule joined_and_answered) (rule that)
  then obtain c where "(''me'', c) \<in> set (users d2)"
    by (auto simp: connected_def GetClient_def dest: map_of_SomeD split: option.splits)
  with users_well_formed [OF d2(1)] d2(1) show ?thesis by blast
qed

text \<open>C38: \<open>Publish\<close> is always defined, records its session and keeps no memory; what it puts into the queue,
  the printed and minified request, is read by a JSON parser as the request with the session, the user, the
  room and the offer, each cut at a NUL, provided that none of these ends in a backslash.  With memory and
  strings far below 2 GB it is put there.\<close>

theorem publish_reads_back:
  assumes "unescaped_end (cstring uid)" and "unescaped_end (cstring (room_id d))" and "unescaped_end (cstring sdp)"
  shows "\<exists>d' o'. Publish uid sdp d = Some d' \<and> session_id d' = session_id d + 1 \<and>
    FindSession (session_id d') d' = Some \<lparr>request_command = RequestPublish, request_uid = uid\<rparr> \<and>
    live (gmem (json d')) = live (gmem (json d)) \<and> outbox d' = outbox d @ o' \<and>
    (o' = [] \<or> (\<exists>t i. o' = [t] \<and> reads_as t i \<and>
       cJSON_GetNumberValue (at_path i [''id'']) = double_of_int (sint (session_id d')) \<and>
       cJSON_GetStringValue (at_path i [''method'']) = Some ''publish'' \<and>
       cJSON_GetStringValue (at_path i [''data'', ''uid'']) = Some (cstring uid) \<and>
       cJSON_GetStringValue (at_path i [''data'', ''rid'']) = Some (cstring (room_id d)) \<and>
       cJSON_GetStringValue (at_path i [''data'', ''jsep'', ''sdp'']) = Some (cstring sdp))) \<and>
    (websocket d \<and> (\<forall>k. may_alloc (gmem (json d)) k) \<and> length uid + length (room_id d) + length sdp \<le> 10 ^ 8 \<longrightarrow> o' \<noteq> [])"
proof -
  define session where "session = session_id d + 1"
  define d1 where "d1 = d\<lparr>session_id := session,
    send_requests := (send_requests d)(session \<mapsto> \<lparr>request_command = RequestPublish, request_uid = uid\<rparr>)\<rparr>"
  define i where "i = publish_tree session uid (room_id d) sdp"
  have p: "Publish uid sdp d = send_json True i d1"
    by (simp add: Publish_tree AllocateSession_def Let_def i_def d1_def session_def)
  obtain t where t: "render True 0 i = Some t" "length t \<le> 6 * (length uid + length (room_id d) + length sdp) + 1000"
    using publish_tree_render unfolding i_def by blast
  have ok: "printable i" "no_raw i" "height (reparsed None i) \<le> CJSON_NESTING_LIMIT" "True \<longrightarrow> minifiable i"
    unfolding i_def using publish_tree_ok assms by auto
  from send_json_reads [OF ok, of d1] obtain d' m o' where s: "send_json True i d1 = Some d'"
    "d' = d1\<lparr>json := (json d1)\<lparr>gmem := m\<rparr>, outbox := outbox d1 @ o'\<rparr>" "live m = live (gmem (json d1))"
    "o' = [] \<or> (\<exists>t. o' = [t] \<and> reads_as t (reparsed None i))"
    "render True 0 i = Some t \<and> length t + 2 \<le> INT_MAX_size \<and> websocket d1 \<and> (\<forall>k. may_alloc (gmem (json d1)) k) \<longrightarrow> o' \<noteq> []" by blast
  have d': "session_id d' = session" "FindSession session d' = Some \<lparr>request_command = RequestPublish, request_uid = uid\<rparr>"
    "gmem (json d') = m" "outbox d' = outbox d @ o'" "json d1 = json d" "websocket d1 = websocket d"
    by (simp_all add: s(2) d1_def FindSession_def)
  note r = publish_tree_read [OF refl, of session uid "room_id d" sdp, folded i_def]
  have "websocket d \<and> (\<forall>k. may_alloc (gmem (json d)) k) \<and> length uid + length (room_id d) + length sdp \<le> 10 ^ 8 \<longrightarrow> o' \<noteq> []"
  proof
    assume a: "websocket d \<and> (\<forall>k. may_alloc (gmem (json d)) k) \<and> length uid + length (room_id d) + length sdp \<le> 10 ^ 8"
    then have "length t + 2 \<le> INT_MAX_size" using t(2) by (simp add: INT_MAX_size_def)
    then show "o' \<noteq> []" using a t(1) s(5) d'(5,6) by simp
  qed
  then show ?thesis using p s(1,3,4) d' r by (intro exI [of _ d'] exI [of _ o']) (auto simp: session_def)
qed

theorem publish_reads_back_witness:
  "\<exists>d' t i. Publish ''me'' ''v=0'' (OnInitDialog ''me'' 41 initial_globals) = Some d' \<and> outbox d' = [t] \<and> reads_as t i \<and>
    cJSON_GetNumberValue (at_path i [''id'']) = double_of_int (sint (42 :: 32 word)) \<and>
    cJSON_GetStringValue (at_path i [''data'', ''jsep'', ''sdp'']) = Some ''v=0''"
proof -
  have s: "unescaped_end (cstring ''me'')" "unescaped_end (cstring (room_id (OnInitDialog ''me'' 41 initial_globals)))"
    "unescaped_end (cstring ''v=0'')" by (simp_all add: unescaped_end_def OnInitDialog_def cstring_def)
  define d where "d = OnInitDialog ''me'' 41 initial_globals"
  have f: "session_id d = 41" "outbox d = []" "websocket d" "room_id d = []" "\<forall>k. may_alloc (gmem (json d)) k"
    by (simp_all add: d_def OnInitDialog_def initial_globals_def initial_mem_def)
  show ?thesis using publish_reads_back [OF s] f(5) unfolding d_def [symmetric] by (auto simp: f(1-4) cstring_def)
qed

text \<open>C39: A message of the server with a member \<open>response\<close> and the id of a session goes to the handler of
  the request that is recorded for the session; with the id of a session that is not recorded, a null
  pointer is read.  Right after a session is allocated its request is recorded.\<close>

theorem response_reaches_request:
  assumes "cJSON_Parse (Some (msg @ [NUL])) (json d) = Some (Some i, e, g)"
    and "object_item (Some i) ''response'' \<noteq> None" and "object_item (Some i) ''id'' \<noteq> None"
    and "cJSON_GetNumberValue (object_item (Some i) ''id'') = double_of_int (sint s)"
  shows "handle rtc (Receive msg) d = (case FindSession s d of
      None \<Rightarrow> None
    | Some r \<Rightarrow> map_option (\<lambda>d. d\<lparr>json := (json d)\<lparr>gmem := cJSON_Delete [i] (gmem (json d))\<rparr>\<rparr>)
        (OnWebSocketResponse rtc (Some r) i (d\<lparr>json := g\<rparr>))) \<and>
    (\<forall>r uid d0. AllocateSession r uid d0 = (s, d) \<longrightarrow> FindSession s d = Some \<lparr>request_command = r, request_uid = uid\<rparr>)"
proof
  have "dispatch rtc i (d\<lparr>json := g\<rparr>) = OnWebSocketResponse rtc (FindSession s d) i (d\<lparr>json := g\<rparr>)"
    using response_dispatched [OF assms(2-4), of rtc "d\<lparr>json := g\<rparr>"] by (simp add: FindSession_def)
  then show "handle rtc (Receive msg) d = (case FindSession s d of
      None \<Rightarrow> None
    | Some r \<Rightarrow> map_option (\<lambda>d. d\<lparr>json := (json d)\<lparr>gmem := cJSON_Delete [i] (gmem (json d))\<rparr>\<rparr>)
        (OnWebSocketResponse rtc (Some r) i (d\<lparr>json := g\<rparr>)))"
    using assms(1) by (cases "OnWebSocketResponse rtc (FindSession s d) i (d\<lparr>json := g\<rparr>)"; cases "FindSession s d")
      (simp_all add: handle_def onReceiveMessage_def OnWebSocketResponse_def [of rtc None])
  show "\<forall>r uid d0. AllocateSession r uid d0 = (s, d) \<longrightarrow> FindSession s d = Some \<lparr>request_command = r, request_uid = uid\<rparr>"
    by (auto simp: AllocateSession_def FindSession_def Let_def)
qed

theorem response_reaches_request_witness:
  "\<exists>d1 i g msg. handle sample_rtc (Join ''room'' ''pc'') (OnInitDialog ''me'' 41 initial_globals) = Some d1 \<and>
     handle sample_rtc (Receive msg) d1 = map_option (\<lambda>d. d\<lparr>json := (json d)\<lparr>gmem := cJSON_Delete [i] (gmem (json d))\<rparr>\<rparr>)
       (OnWebSocketResponse sample_rtc (Some \<lparr>request_command = RequestJoinRoom, request_uid = ''me''\<rparr>) i (d1\<lparr>json := g\<rparr>)) \<and>
     (\<exists>msg. handle sample_rtc (Receive msg) d1 = None)"
proof -
  obtain d1 where d1: "handle sample_rtc (Join ''room'' ''pc'') (OnInitDialog ''me'' 41 initial_globals) = Some d1"
    "send_requests d1 = [42 \<mapsto> \<lparr>request_command = RequestJoinRoom, request_uid = ''me''\<rparr>]" "\<forall>k. may_alloc (gmem (json d1)) k"
    by (rule joined_and_answered) (rule that)
  have *: "\<exists>msg g. handle sample_rtc (Receive msg) d1 = (case FindSession s d1 of
      None \<Rightarrow> None
    | Some r \<Rightarrow> map_option (\<lambda>d. d\<lparr>json := (json d)\<lparr>gmem := cJSON_Delete [reparsed None (answer_tree s)] (gmem (json d))\<rparr>\<rparr>)
        (OnWebSocketResponse sample_rtc (Some r) (reparsed None (answer_tree s)) (d1\<lparr>json := g\<rparr>)))" for s
  proof -
    obtain t where "reads_as t (reparsed None (answer_tree s))" using answer_tree_read(1) by blast
    then obtain g where "cJSON_Parse (Some (t @ [NUL])) (json d1) = Some (Some (reparsed None (answer_tree s)), None, g)"
      using d1(3) unfolding reads_as_def by blast
    from response_reaches_request [OF this answer_tree_read(2-4), of sample_rtc] show ?thesis by blast
  qed
  have "FindSession 42 d1 = Some \<lparr>request_command = RequestJoinRoom, request_uid = ''me''\<rparr>" "FindSession 43 d1 = None"
    using d1(2) by (simp_all add: FindSession_def)
  with * [of 42] * [of 43] d1(1) show ?thesis by (simp only: option.case) blast
qed

text \<open>C40: Joining a room, leaving it before the answer comes, and then the answer: the dialog is outside of a
  room and yet publishes, with a client for its own user and, if there is a camera and no client was left,
  with the camera on.\<close>

theorem late_answer_publishes:
  assumes "reachable d" and "\<not> joined_room d" and "auto_publish d" and "rid \<noteq> []" and "name \<noteq> []"
  shows "\<exists>d1 d2. handle rtc (Join rid name) d = Some d1 \<and> joined_room d1 \<and> handle rtc Leave d1 = Some d2 \<and>
    \<not> joined_room d2 \<and> users d2 = [] \<and>
    (\<forall>msg. reads_as msg (reparsed None (answer_tree (session_id d1))) \<and> (\<forall>k. may_alloc (gmem (json d)) k) \<longrightarrow>
      (\<exists>d3. handle rtc (Receive msg) d2 = Some d3 \<and> \<not> joined_room d3 \<and> local_published d3 \<and> GetClient (user_id d) d3 \<noteq> None \<and>
        (\<forall>t. makes_connection rtc (user_id d) \<and> camera rtc = Some t \<longrightarrow> local_track d3 = Some t)))"
proof -
  obtain d0 where d0: "JoinRoom (d\<lparr>room_id := rid, user_name := name\<rparr>) = Some d0"
    "after_request RequestJoinRoom (d\<lparr>room_id := rid, user_name := name\<rparr>) d0" using JoinRoom_after by blast
  define d1 where "d1 = d0\<lparr>local_published := False, joined_room := True\<rparr>"
  have j: "handle rtc (Join rid name) d = Some d1" using assms(2,4,5) d0(1) by (simp add: handle_def OnBnClickedBtnJoin_def d1_def)
  define s where "s = session_id d1"
  have d1: "send_requests d1 s = Some \<lparr>request_command = RequestJoinRoom, request_uid = user_id d\<rparr>" "user_id d1 = user_id d"
    "auto_publish d1" "joined_room d1" "\<not> local_published d1" "may_alloc (gmem (json d1)) = may_alloc (gmem (json d))"
    using d0(2) assms(3) by (auto simp: after_request_def d1_def s_def)
  obtain e where e: "LeaveRoom d1 = Some e" "after_request RequestLeaveRoom d1 e" using LeaveRoom_after by blast
  define d2 where "d2 = (RemoveAllClients e)\<lparr>joined_room := False\<rparr>"
  have l: "handle rtc Leave d1 = Some d2" using d1(4,5) e(1) by (simp add: handle_def OnBnClickedBtnLeave_def leave_def d2_def)
  have e2: "send_requests e = (send_requests d1)(s + 1 \<mapsto> \<lparr>request_command = RequestLeaveRoom, request_uid = user_id d1\<rparr>)"
    "user_id e = user_id d1" "auto_publish e = auto_publish d1" "local_published e = local_published d1"
    "may_alloc (gmem (json e)) = may_alloc (gmem (json d1))" using e(2) by (auto simp: after_request_def s_def)
  have "s + 1 \<noteq> s" "users (RemoveAllClients e) = []" by (simp_all add: RemoveAllClients_def)
  then have d2: "send_requests d2 s = Some \<lparr>request_command = RequestJoinRoom, request_uid = user_id d\<rparr>" "user_id d2 = user_id d"
    "auto_publish d2" "\<not> joined_room d2" "\<not> local_published d2" "may_alloc (gmem (json d2)) = may_alloc (gmem (json d))" "users d2 = []"
    using d1 e2 RemoveAllClients_rest [of e] by (simp_all add: d2_def same_rest_def)
  have "clients_ok d2" using assms(1) j l reachable.step clients.always by blast
  from answer_publishes [OF this d2(1,3,5,7), of _ rtc]
  have "\<exists>d3. handle rtc (Receive msg) d2 = Some d3 \<and> \<not> joined_room d3 \<and> local_published d3 \<and> GetClient (user_id d) d3 \<noteq> None \<and>
        (\<forall>t. makes_connection rtc (user_id d) \<and> camera rtc = Some t \<longrightarrow> local_track d3 = Some t)"
    if "reads_as msg (reparsed None (answer_tree s))" "\<forall>k. may_alloc (gmem (json d)) k" for msg
    using that d2(2,4,6) by (fastforce simp: camera_on_def)
  then show ?thesis using j l d1(4) d2(4,7) unfolding s_def by blast
qed

theorem late_answer_publishes_witness:
  "\<exists>msg d1 d2 d3. handle \<lparr>makes_connection = (\<lambda>_. True), camera = Some ''cam'', local_description = (\<lambda>_. None)\<rparr>
      (Join ''room'' ''pc'') (OnInitDialog ''me'' 41 initial_globals) = Some d1 \<and>
    handle \<lparr>makes_connection = (\<lambda>_. True), camera = Some ''cam'', local_description = (\<lambda>_. None)\<rparr> Leave d1 = Some d2 \<and>
    handle \<lparr>makes_connection = (\<lambda>_. True), camera = Some ''cam'', local_description = (\<lambda>_. None)\<rparr> (Receive msg) d2 = Some d3 \<and>
    \<not> joined_room d3 \<and> local_track d3 = Some ''cam''"
proof -
  let ?rtc = "\<lparr>makes_connection = (\<lambda>_. True), camera = Some ''cam'', local_description = (\<lambda>_. None)\<rparr>"
  let ?d = "OnInitDialog ''me'' 41 initial_globals"
  have f: "\<not> joined_room ?d" "auto_publish ?d" "\<forall>k. may_alloc (gmem (json ?d)) k"
    by (simp_all add: OnInitDialog_def initial_globals_def initial_mem_def)
  from late_answer_publishes [OF reachable.init f(1,2), of "''room''" "''pc''" ?rtc] obtain d1 d2 where
    d: "handle ?rtc (Join ''room'' ''pc'') ?d = Some d1" "handle ?rtc Leave d1 = Some d2"
      "\<forall>msg. reads_as msg (reparsed None (answer_tree (session_id d1))) \<and> (\<forall>k. may_alloc (gmem (json ?d)) k) \<longrightarrow>
        (\<exists>d3. handle ?rtc (Receive msg) d2 = Some d3 \<and> \<not> joined_room d3 \<and> local_published d3 \<and> GetClient (user_id ?d) d3 \<noteq> None \<and>
          (\<forall>t. makes_connection ?rtc (user_id ?d) \<and> camera ?rtc = Some t \<longrightarrow> local_track d3 = Some t))"
    by (simp del: not_None_eq) blast
  obtain t where "reads_as t (reparsed None (answer_tree (session_id d1)))" using answer_tree_read(1) by blast
  with d(3) f(3) obtain d3 where "handle ?rtc (Receive t) d2 = Some d3" "\<not> joined_room d3" "local_track d3 = Some ''cam''" by fastforce
  with d(1,2) show ?thesis by blast
qed

end
