(* ===== verification/Closing.thy ===== *)
theory Closing
  imports Request_Laws
begin

text \<open>
  Closing the window: the dialog's last requests, the transport that is stopped right after them, and the
  dialog as the receiver of what still comes in while it is stopped.
\<close>

section \<open>The dialog as the receiver\<close>

text \<open>What a call of the transport makes the dialog send; the calls but for a message only trace.\<close>

definition dialog_receiver :: "rtc \<Rightarrow> dialog receiver" where
  "dialog_receiver rtc u d = (case u of
     call_onReceiveMessage msg \<Rightarrow> map_option (\<lambda>d'. (drop (length (outbox d)) (outbox d'), d')) (onReceiveMessage rtc msg d)
   | _ \<Rightarrow> Some ([], d))"

section \<open>Without a transport\<close>

text \<open>The pointer to the transport is null, and no text leaves the dialog any more.\<close>

definition offline :: "string list \<Rightarrow> dialog \<Rightarrow> bool" where
  "offline ts d \<longleftrightarrow> \<not> websocket d \<and> outbox d = ts"

lemma send_json_offline:
  assumes "send_json minify i d = Some d'"
  shows "websocket d' = websocket d" "\<not> websocket d \<Longrightarrow> outbox d' = outbox d"
proof -
  obtain r m s where r: "(if minify then cJSON_Minify r else Some r) = Some s" "d' = (case s of
      None \<Rightarrow> d\<lparr>json := (json d)\<lparr>gmem := m\<rparr>\<rparr>
    | Some s \<Rightarrow> d\<lparr>json := (json d)\<lparr>gmem := deallocate 1 m\<rparr>, outbox := (if websocket d then outbox d @ [cstring s] else outbox d)\<rparr>)"
    using assms unfolding send_json_def by (auto simp only: bind_Some_iff split_paired_all prod.case option.inject)
  show "websocket d' = websocket d" "\<not> websocket d \<Longrightarrow> outbox d' = outbox d" unfolding r(2) by (cases s; simp)+
qed

lemma offline_rest: "offline ts d \<Longrightarrow> same_rest d d' \<Longrightarrow> offline ts d'"
  by (simp add: offline_def same_rest_def)

lemma RemoveClient_rest: "same_rest d (RemoveClient uid d)"
  using Destroy_rest [of d] by (auto simp: RemoveClient_def same_rest_def split: option.split)

lemma track_rest: "same_rest d (OnTrack uid t d)" "same_rest d (OnRemoveTrack uid t d)" "same_rest d (ClearAllRegisteredTracks uid d)"
proof -
  have tr: "same_rest d d1 \<Longrightarrow> same_rest d1 d2 \<Longrightarrow> same_rest d d2" for d d1 d2 by (simp add: same_rest_def)
  show "same_rest d (OnTrack uid t d)" "same_rest d (OnRemoveTrack uid t d)"
    by (simp_all only: OnTrack_def OnRemoveTrack_def tr [OF set_client_rest AddTrack_rest] tr [OF set_client_rest RemoveTrack_rest])
  have "same_rest d (fold RemoveTrack ts d)" for ts by (rule same_rest_fold) (rule RemoveTrack_rest)
  from tr [OF this set_client_rest] show "same_rest d (ClearAllRegisteredTracks uid d)"
    by (simp add: ClearAllRegisteredTracks_def same_rest_def split: option.split)
qed

interpretation offline: dialog_steps "offline ts" for ts
proof
  show "offline ts d'" if "offline ts d" "send_json minify i d = Some d'" for d minify i d'
    using that send_json_offline [OF that(2)] by (simp add: offline_def)
  show "offline ts (snd (AllocateSession r uid d))" if "offline ts d" for r uid d
    using that by (simp add: offline_def AllocateSession_def Let_def)
  note rests = AddClient_rest RemoveClient_rest RemoveAllClients_rest set_client_rest track_rest
  show "offline ts d \<Longrightarrow> offline ts (AddClient rtc uid name d)" "offline ts d \<Longrightarrow> offline ts (RemoveClient uid d)"
    "offline ts d \<Longrightarrow> offline ts (RemoveAllClients d)" "offline ts d \<Longrightarrow> offline ts (set_client uid f d)"
    "offline ts d \<Longrightarrow> offline ts (OnTrack uid t d)" "offline ts d \<Longrightarrow> offline ts (OnRemoveTrack uid t d)"
    "offline ts d \<Longrightarrow> offline ts (ClearAllRegisteredTracks uid d)" for d rtc uid name f t
    by (erule offline_rest, rule rests)+
qed (simp_all add: offline_def act_def)

lemma dialog_mute: "mute (offline ts) (dialog_receiver rtc)"
proof -
  have "pred_option (\<lambda>(ms, d'). ms = [] \<and> offline ts d') (dialog_receiver rtc u d)" if "offline ts d" for u d
    using offline.received [OF that, of rtc] that
    by (auto simp: dialog_receiver_def pred_option_iff offline_def split: upcall.split)
  then show ?thesis by (simp add: mute_def)
qed

lemma dialog_hears: "hears D (\<lambda>u. \<forall>m. u \<noteq> call_onReceiveMessage m) (dialog_receiver rtc)"
  by (auto simp: hears_def dialog_receiver_def split: upcall.splits)

section \<open>The last requests\<close>

definition unpublish_tree :: "32 word \<Rightarrow> string \<Rightarrow> string \<Rightarrow> cJSON" where
  "unpublish_tree session mid rid = add_member (request_head session ''unpublish'') ''data''
     (add_member (add_member create_object ''mid'' (create_string mid)) ''rid'' (create_string rid))"

lemma more_names: "nulfree ''mid''" "nulfree ''unpublish''" "nulfree ''leave''"
  by (simp_all add: nulfree_def)

lemma head_double: "wf_double (double_of_int (sint (session :: 32 word)))" "wf_double zero_double"
  using sint_range [of session] by (auto intro!: double_of_int_facts(1) simp: zero_double_def canonical_def)

lemma unpublish_tree_ok:
  "printable (unpublish_tree session mid rid)" "no_raw (unpublish_tree session mid rid)"
  "height (reparsed None (unpublish_tree session mid rid)) \<le> CJSON_NESTING_LIMIT"
  "unescaped_end (cstring mid) \<Longrightarrow> unescaped_end (cstring rid) \<Longrightarrow> minifiable (unpublish_tree session mid rid)"
  by (simp_all add: unpublish_tree_def request_head_def Let_def create_simps text_of_def nulfree_names more_names head_double unescaped_end_def)

lemma leave_tree_ok:
  "no_raw (leave_tree session rid uid)" "height (reparsed None (leave_tree session rid uid)) \<le> CJSON_NESTING_LIMIT"
  by (simp_all add: leave_tree_def request_head_def Let_def create_simps text_of_def nulfree_names more_names)

lemma quote_name: "length s \<le> n \<Longrightarrow> length (quote s) \<le> 6 * n + 2"
  using length_quote [of s] by linarith

lemma last_requests_render:
  "\<exists>t. render fmt 0 (unpublish_tree session mid rid) = Some t \<and> t \<noteq> [] \<and> length t \<le> 6 * (length mid + length rid) + 1000"
  "\<exists>t. render fmt 0 (leave_tree session rid uid) = Some t \<and> t \<noteq> [] \<and> length t \<le> 6 * (length rid + length uid) + 1000"
proof -
  have q: "length (quote (cstring s)) \<le> 6 * length s + 2" for s using length_quote [of "cstring s"] length_cstring [of s] by linarith
  have l: "length (quote ''request'') \<le> 56" "length (quote ''id'') \<le> 56" "length (quote ''method'') \<le> 56" "length (quote ''unpublish'') \<le> 56"
    "length (quote ''data'') \<le> 56" "length (quote ''uid'') \<le> 56" "length (quote ''rid'') \<le> 56" "length (quote ''mid'') \<le> 56"
    "length (quote ''leave'') \<le> 56"
    by (rule order_trans [OF length_quote], simp)+
  note n = nulfree_number_text(2) [OF head_double(1), of session]
  show "\<exists>t. render fmt 0 (unpublish_tree session mid rid) = Some t \<and> t \<noteq> [] \<and> length t \<le> 6 * (length mid + length rid) + 1000"
    using q [of mid] q [of rid] l n
    by (simp add: unpublish_tree_def request_head_def Let_def create_simps text_of_def nulfree_names more_names tabs_def)
  show "\<exists>t. render fmt 0 (leave_tree session rid uid) = Some t \<and> t \<noteq> [] \<and> length t \<le> 6 * (length rid + length uid) + 1000"
    using q [of uid] q [of rid] l n
    by (simp add: leave_tree_def request_head_def Let_def create_simps text_of_def nulfree_names more_names tabs_def)
qed

lemma last_requests_read:
  "cJSON_GetStringValue (at_path (reparsed None (unpublish_tree session mid rid)) [''method'']) = Some ''unpublish''"
  "cJSON_GetStringValue (at_path (reparsed None (leave_tree session rid uid)) [''method'']) = Some ''leave''"
proof -
  have n: "\<bar>sint session\<bar> < 2 ^ 31 \<or> sint session = - (2 ^ 31)" using sint_range [of session] by auto
  note simps = request_head_def Let_def create_simps reparsed_create(1-3) reparsed_create(4) [OF n]
    at_path_def object_item_cons lower_names same_name_lower text_of_def cJSON_GetStringValue_def is_kind_defs kind_def more_names
  show "cJSON_GetStringValue (at_path (reparsed None (unpublish_tree session mid rid)) [''method'']) = Some ''unpublish''"
    by (simp add: simps unpublish_tree_def del: reparsed.simps)
  show "cJSON_GetStringValue (at_path (reparsed None (leave_tree session rid uid)) [''method'']) = Some ''leave''"
    by (simp add: simps leave_tree_def del: reparsed.simps)
qed

text \<open>A request that is sent with memory: its text waits last, and goes through the buffer if it is short.\<close>

definition asks :: "string \<Rightarrow> string \<Rightarrow> bool" where
  "asks method t \<longleftrightarrow> (\<exists>i. reads_as t i \<and> cJSON_GetStringValue (at_path i [''method'']) = Some method)"

lemma request_sent:
  assumes "printable i" "no_raw i" "height (reparsed None i) \<le> CJSON_NESTING_LIMIT" "minify \<longrightarrow> minifiable i"
    and "\<And>fmt. \<exists>t. render fmt 0 i = Some t \<and> t \<noteq> [] \<and> length t \<le> 32000"
    and "websocket d" "\<forall>k. may_alloc (gmem (json d)) k"
    and "cJSON_GetStringValue (at_path (reparsed None i) [''method'']) = Some method"
  shows "\<exists>d' m t. send_json minify i d = Some d' \<and> d' = d\<lparr>json := (json d)\<lparr>gmem := m\<rparr>, outbox := outbox d @ [t]\<rparr> \<and>
    (\<forall>k. may_alloc m k) \<and> nulfree t \<and> goes_through t \<and> asks method t"
proof -
  obtain u where u: "render True 0 i = Some u" "length u \<le> 32000" using assms(5) by blast
  from send_json_reads [OF assms(1-4), of d] obtain d' m o' where s: "send_json minify i d = Some d'"
    "d' = d\<lparr>json := (json d)\<lparr>gmem := m\<rparr>, outbox := outbox d @ o'\<rparr>"
    "o' = [] \<or> websocket d \<and> (\<exists>t. o' = [t] \<and> render (\<not> minify) 0 i = Some t \<and> reads_as t (reparsed None i))"
    "\<forall>t. render True 0 i = Some t \<and> length t + 2 \<le> INT_MAX_size \<and> websocket d \<and> (\<forall>k. may_alloc (gmem (json d)) k) \<longrightarrow> o' \<noteq> []" by blast
  have "length u + 2 \<le> INT_MAX_size" using u(2) by (simp add: INT_MAX_size_def)
  then have "o' \<noteq> []" using s(4) u(1) assms(6,7) by blast
  then obtain t where t: "o' = [t]" "render (\<not> minify) 0 i = Some t" "reads_as t (reparsed None i)" using s(3) by blast
  obtain t' where "render (\<not> minify) 0 i = Some t'" "t' \<noteq> []" "length t' \<le> 32000" using assms(5) by blast
  then have "goes_through t" using t(2) by (simp add: goes_through_def)
  moreover have "\<forall>k. may_alloc m k" using send_json_hooks [OF assms(1) s(1)] s(2) assms(7) by simp
  ultimately show ?thesis using s(1,2) t render_nulfree(1) [OF assms(1) t(2)] assms(8) unfolding asks_def by blast
qed

lemma OnDestroy_sends:
  assumes "joined_room d" "local_published d" "websocket d" "\<forall>k. may_alloc (gmem (json d)) k"
    and "unescaped_end (cstring (own_mid d))" "unescaped_end (cstring (room_id d))"
    and "length (own_mid d) + length (room_id d) + length (user_id d) \<le> 5000"
  shows "\<exists>d' t1 t2. OnDestroy d = Some d' \<and> offline (outbox d @ [t1, t2]) d' \<and> asks ''unpublish'' t1 \<and> asks ''leave'' t2 \<and>
    nulfree t1 \<and> nulfree t2 \<and> goes_through t1 \<and> goes_through t2"
proof -
  define s where "s = session_id d + 1"
  define d1 where "d1 = d\<lparr>session_id := s, send_requests := (send_requests d)(s \<mapsto> \<lparr>request_command = RequestUnPublish, request_uid = user_id d\<rparr>)\<rparr>"
  let ?i = "unpublish_tree s (own_mid d) (room_id d)"
  have "\<exists>t. render fmt 0 ?i = Some t \<and> t \<noteq> [] \<and> length t \<le> 32000" for fmt
    using last_requests_render(1) [of fmt s "own_mid d" "room_id d"] assms(7) by force
  from request_sent [OF unpublish_tree_ok(1-3) _ this _ _ last_requests_read(1), of True d1] obtain d2 m t1 where
    p: "send_json True ?i d1 = Some d2" "d2 = d1\<lparr>json := (json d1)\<lparr>gmem := m\<rparr>, outbox := outbox d1 @ [t1]\<rparr>" "\<forall>k. may_alloc m k"
      "nulfree t1" "goes_through t1" "asks ''unpublish'' t1"
    using assms(3,4) unpublish_tree_ok(4) [OF assms(5,6)] by (auto simp: d1_def)
  have u: "UnPublish (user_id d) d = Some d2"
    using p(1) by (simp add: UnPublish_def unpublish_tree_def AllocateSession_def Let_def d1_def s_def)
  define e where "e = d2\<lparr>local_published := False\<rparr>"
  define e1 where "e1 = e\<lparr>session_id := s + 1, send_requests := (send_requests e)(s + 1 \<mapsto> \<lparr>request_command = RequestLeaveRoom, request_uid = user_id d\<rparr>)\<rparr>"
  let ?j = "leave_tree (s + 1) (room_id d) (user_id d)"
  have "\<exists>t. render fmt 0 ?j = Some t \<and> t \<noteq> [] \<and> length t \<le> 32000" for fmt
    using last_requests_render(2) [of fmt "s + 1" "room_id d" "user_id d"] assms(7) by force
  from request_sent [OF join_leave_printable(2) leave_tree_ok _ this _ _ last_requests_read(2), of False e1] obtain e2 k t2 where
    q: "send_json False ?j e1 = Some e2" "e2 = e1\<lparr>json := (json e1)\<lparr>gmem := k\<rparr>, outbox := outbox e1 @ [t2]\<rparr>"
      "nulfree t2" "goes_through t2" "asks ''leave'' t2"
    using assms(3) p(3) by (auto simp: e1_def e_def p(2) d1_def)
  have l: "LeaveRoom e = Some e2"
    using q(1) by (simp add: LeaveRoom_def leave_tree_def AllocateSession_def Let_def e1_def e_def p(2) d1_def)
  have "outbox e2 = outbox d @ [t1, t2]" by (simp add: q(2) e1_def e_def p(2) d1_def)
  then have "offline (outbox d @ [t1, t2]) ((RemoveAllClients e2)\<lparr>joined_room := False, websocket := False\<rparr>)"
    using RemoveAllClients_rest [of e2] by (simp add: offline_def same_rest_def)
  moreover have "OnDestroy d = Some ((RemoveAllClients e2)\<lparr>joined_room := False, websocket := False\<rparr>)"
    using assms(1,2) u l by (simp add: OnDestroy_def leave_def e_def)
  ultimately show ?thesis using p q by blast
qed

end
