(* ===== verification/Video_Render.thy ===== *)
theory Video_Render
  imports Prelude
begin

text \<open>
  \<open>rtc/video_render_gdi.cpp\<close>: the renderer of a video track.  It keeps a buffer for a turned frame in the
  format I420 and one for the colours, both made anew when the size of the frames changes, and draws each
  frame into its window.

  libyuv is an argument: what it makes of rows of bytes.  Which bytes it reads and writes is what its
  documentation says: \<open>height\<close> rows of \<open>width\<close> bytes, half of both rounded up for the chroma, each row a
  stride after the one before.  The options for WebRTC that \<open>rtc/rtc_manager.cpp\<close> derives from its
  configuration are here as well.
\<close>

section \<open>Rows of bytes\<close>

definition rows_of :: "nat \<Rightarrow> nat \<Rightarrow> string list \<Rightarrow> bool" where
  "rows_of w h rows \<longleftrightarrow> length rows = h \<and> (\<forall>r \<in> set rows. length r = w)"

definition half :: "nat \<Rightarrow> nat" where
  "half n = (n + 1) div 2"

definition read_rows :: "string \<Rightarrow> nat \<Rightarrow> nat \<Rightarrow> nat \<Rightarrow> nat \<Rightarrow> string list option" where
  "read_rows buf p stride w h =
     (if w = 0 \<or> h = 0 \<or> p + (h - 1) * stride + w \<le> length buf
      then Some (map (\<lambda>i. take w (drop (p + i * stride) buf)) [0..<h]) else None)"

fun write_rows :: "string \<Rightarrow> nat \<Rightarrow> nat \<Rightarrow> string list \<Rightarrow> string option" where
  "write_rows buf p stride [] = Some buf"
| "write_rows buf p stride (r # rs) = do { buf \<leftarrow> blit buf p r; write_rows buf (p + stride) stride rs }"

section \<open>Frames and the renderer\<close>

datatype rotation = Rotate0 | Rotate90 | Rotate180 | Rotate270

record planes =
  data_y :: string
  data_u :: string
  data_v :: string
  stride_y :: nat
  stride_u :: nat
  stride_v :: nat

text \<open>The buffer of a frame: none, one of another type, or one of type I420.\<close>

datatype frame_buffer = No_Buffer | Other_Type | I420 planes

record video_frame =
  frame_width :: nat
  frame_height :: nat
  frame_rotation :: rotation
  video_frame_buffer :: frame_buffer

record libyuv =
  rotate_rows :: "rotation \<Rightarrow> string list \<Rightarrow> string list"
  argb_rows :: "string list \<Rightarrow> string list \<Rightarrow> string list \<Rightarrow> string list"

text \<open>What is drawn: the window, whether it is mirrored, the size and the colours.  The calls to tracks are
  kept in \<open>sink_calls\<close>; tracks and windows are numbers.\<close>

datatype sink_call = Remove_Sink nat | Add_Sink nat

record picture =
  in_window :: nat
  mirrored :: bool
  picture_width :: int
  picture_height :: int
  colours :: string

record renderer =
  render_track :: "nat option"
  bmi_width :: int
  bmi_height :: int
  bmi_bit_count :: nat
  rgb_buffer :: "string option"
  i420_buffer :: "string option"
  mirror_mode :: bool
  video_width :: nat
  video_height :: nat
  video_window :: "nat option"
  sink_calls :: "sink_call list"
  pictures :: "picture list"

definition SetTrack :: "nat option \<Rightarrow> renderer \<Rightarrow> renderer" where
  "SetTrack t r =
     (if render_track r \<noteq> t then
        (let r = (case render_track r of None \<Rightarrow> r | Some old \<Rightarrow> r\<lparr>sink_calls := sink_calls r @ [Remove_Sink old]\<rparr>);
             r = r\<lparr>render_track := t\<rparr>
         in (case t of None \<Rightarrow> r | Some new \<Rightarrow> r\<lparr>sink_calls := sink_calls r @ [Add_Sink new]\<rparr>))
      else r)"

text \<open>The constructor leaves the header of the bitmap unset; it is set with the first buffer.\<close>

definition new_renderer :: "nat option \<Rightarrow> renderer" where
  "new_renderer t = SetTrack t \<lparr>render_track = None, bmi_width = 0, bmi_height = 0, bmi_bit_count = 0,
     rgb_buffer = None, i420_buffer = None, mirror_mode = False, video_width = 0, video_height = 0,
     video_window = None, sink_calls = [], pictures = []\<rparr>"

definition SetWindow :: "nat option \<Rightarrow> renderer \<Rightarrow> renderer" where
  "SetWindow w r = r\<lparr>video_window := w\<rparr>"

definition GetWindow :: "renderer \<Rightarrow> nat option" where
  "GetWindow r = video_window r"

definition SetMirrorMode :: "bool \<Rightarrow> renderer \<Rightarrow> renderer" where
  "SetMirrorMode m r = r\<lparr>mirror_mode := m\<rparr>"

text \<open>\<open>new uint8_t[n]\<close>: bytes that nobody has set.\<close>

definition unset_bytes :: "string \<Rightarrow> nat \<Rightarrow> string" where
  "unset_bytes junk n = take n (junk @ replicate n NUL)"

text \<open>The sizes are computed in \<open>int\<close>.\<close>

definition AllocatVideoBuffer :: "string \<Rightarrow> nat \<Rightarrow> nat \<Rightarrow> renderer \<Rightarrow> renderer option" where
  "AllocatVideoBuffer junk w h r =
     (if 2 ^ 31 \<le> w * h * (32 div 8) then None
      else Some (r\<lparr>bmi_width := int w, bmi_height := - int h, bmi_bit_count := 32,
        rgb_buffer := Some (unset_bytes junk (w * h * (32 div 8))),
        i420_buffer := Some (unset_bytes junk (w * h * 3 div 2))\<rparr>))"

definition DeallocateVideoBuffer :: "renderer \<Rightarrow> renderer" where
  "DeallocateVideoBuffer r = r\<lparr>rgb_buffer := None, i420_buffer := None\<rparr>"

definition destroy_renderer :: "renderer \<Rightarrow> renderer" where
  "destroy_renderer r = DeallocateVideoBuffer r"

text \<open>The calls of libyuv: from the planes of a frame to places in a buffer, and from three places to the
  colours.\<close>

definition I420Rotate ::
    "libyuv \<Rightarrow> rotation \<Rightarrow> planes \<Rightarrow> nat \<Rightarrow> nat \<Rightarrow> string \<Rightarrow> nat \<times> nat \<Rightarrow> nat \<times> nat \<Rightarrow> nat \<times> nat \<Rightarrow> string option" where
  "I420Rotate yuv mode src w h buf y u v = do {
     ys \<leftarrow> read_rows (data_y src) 0 (stride_y src) w h;
     us \<leftarrow> read_rows (data_u src) 0 (stride_u src) (half w) (half h);
     vs \<leftarrow> read_rows (data_v src) 0 (stride_v src) (half w) (half h);
     buf \<leftarrow> write_rows buf (fst y) (snd y) (rotate_rows yuv mode ys);
     buf \<leftarrow> write_rows buf (fst u) (snd u) (rotate_rows yuv mode us);
     write_rows buf (fst v) (snd v) (rotate_rows yuv mode vs) }"

definition I420ToARGB ::
    "libyuv \<Rightarrow> string \<times> nat \<times> nat \<Rightarrow> string \<times> nat \<times> nat \<Rightarrow> string \<times> nat \<times> nat \<Rightarrow> string \<Rightarrow> nat \<Rightarrow> nat \<Rightarrow> nat \<Rightarrow> string option" where
  "I420ToARGB yuv y u v rgb stride w h = do {
     ys \<leftarrow> (case y of (buf, p, s) \<Rightarrow> read_rows buf p s w h);
     us \<leftarrow> (case u of (buf, p, s) \<Rightarrow> read_rows buf p s (half w) (half h));
     vs \<leftarrow> (case v of (buf, p, s) \<Rightarrow> read_rows buf p s (half w) (half h));
     write_rows rgb 0 stride (argb_rows yuv ys us vs) }"

definition bytes_of :: "string option \<Rightarrow> string" where
  "bytes_of b = (case b of None \<Rightarrow> [] | Some s \<Rightarrow> s)"

definition draw :: "renderer \<Rightarrow> renderer" where
  "draw r = (case (video_window r, rgb_buffer r) of
     (Some w, Some rgb) \<Rightarrow> r\<lparr>pictures := pictures r @ [\<lparr>in_window = w, mirrored = mirror_mode r,
       picture_width = bmi_width r, picture_height = \<bar>bmi_height r\<bar>, colours = rgb\<rparr>]\<rparr>
   | _ \<Rightarrow> r)"

text \<open>\<open>busy\<close>: another thread has the lock.  A frame that is not turned is read from its own planes, yet with
  the strides of the buffer; the strides taken from the frame are not used.\<close>

definition turned :: "rotation \<Rightarrow> nat \<Rightarrow> nat \<Rightarrow> nat \<times> nat" where
  "turned mode w h = (if mode = Rotate90 \<or> mode = Rotate270 then (h, w) else (w, h))"

definition turned_size :: "video_frame \<Rightarrow> nat \<times> nat" where
  "turned_size f = turned (frame_rotation f) (frame_width f) (frame_height f)"

definition OnFrame :: "libyuv \<Rightarrow> string \<Rightarrow> bool \<Rightarrow> video_frame \<Rightarrow> renderer \<Rightarrow> renderer option" where
  "OnFrame yuv junk busy f r =
     (if busy then Some r
      else (case turned_size f of (w, h) \<Rightarrow> do {
        r \<leftarrow> (if w \<noteq> video_width r \<or> h \<noteq> video_height r then
            map_option (\<lambda>r. r\<lparr>video_width := w, video_height := h\<rparr>) (AllocatVideoBuffer junk w h r)
          else Some r);
        let dst_u = w * h;
        let dst_v = dst_u + w * h div 4;
        let buf = bytes_of (i420_buffer r);
        (y, u, v, r) \<leftarrow> (case video_frame_buffer f of
            I420 p \<Rightarrow>
              if frame_rotation f = Rotate0 then Some ((data_y p, 0), (data_u p, 0), (data_v p, 0), r)
              else do {
                buf \<leftarrow> I420Rotate yuv (frame_rotation f) p (frame_width f) (frame_height f) buf
                  (0, w) (dst_u, w div 2) (dst_v, w div 2);
                Some ((buf, 0), (buf, dst_u), (buf, dst_v), r\<lparr>i420_buffer := map_option (\<lambda>_. buf) (i420_buffer r)\<rparr>) }
          | _ \<Rightarrow> Some ((buf, 0), (buf, dst_u), (buf, dst_v), r));
        if 2 ^ 31 \<le> w * bmi_bit_count r then None
        else do {
          rgb \<leftarrow> I420ToARGB yuv (fst y, snd y, w) (fst u, snd u, w div 2) (fst v, snd v, w div 2)
            (bytes_of (rgb_buffer r)) (w * bmi_bit_count r div 8) w h;
          Some (draw (r\<lparr>rgb_buffer := map_option (\<lambda>_. rgb) (rgb_buffer r)\<rparr>)) } }))"

section \<open>Options\<close>

datatype degradation = BALANCED | MAINTAIN_FRAMERATE | MAINTAIN_RESOLUTION

definition GetPriority :: "string \<Rightarrow> degradation" where
  "GetPriority priority =
     (if priority = ''FRAMERATE'' then MAINTAIN_RESOLUTION
      else if priority = ''RESOLUTION'' then MAINTAIN_FRAMERATE
      else BALANCED)"

record audio_config =
  disable_echo_cancellation :: bool
  disable_auto_gain_control :: bool
  disable_noise_suppression :: bool
  disable_highpass_filter :: bool
  disable_typing_detection :: bool
  disable_residual_echo_detector :: bool

text \<open>An option that is \<open>None\<close> is left to WebRTC.\<close>

record audio_options =
  echo_cancellation :: "bool option"
  auto_gain_control :: "bool option"
  noise_suppression :: "bool option"
  highpass_filter :: "bool option"
  typing_detection :: "bool option"
  residual_echo_detector :: "bool option"

definition audio_options_of :: "audio_config \<Rightarrow> audio_options" where
  "audio_options_of config =
     (let off = (\<lambda>b. if b then Some False else None);
          ao = \<lparr>echo_cancellation = off (disable_echo_cancellation config),
            auto_gain_control = off (disable_auto_gain_control config), noise_suppression = off (disable_noise_suppression config),
            highpass_filter = off (disable_highpass_filter config), typing_detection = off (disable_typing_detection config),
            residual_echo_detector = off (disable_residual_echo_detector config)\<rparr>
      in ao\<lparr>echo_cancellation := Some True\<rparr>)"

text \<open>The configuration cannot switch the cancellation of echoes off, and the names of the priorities are
  exchanged.\<close>

lemma echo_cancellation_stays: "echo_cancellation (audio_options_of config) = Some True"
  by (simp add: audio_options_of_def Let_def)

lemma priority_exchanged: "GetPriority ''FRAMERATE'' = MAINTAIN_RESOLUTION" "GetPriority ''RESOLUTION'' = MAINTAIN_FRAMERATE"
  by (simp_all add: GetPriority_def)

section \<open>Rows inside a buffer\<close>

lemma rows_of_Cons: "rows_of w h (r # rs) \<longleftrightarrow> 0 < h \<and> length r = w \<and> rows_of w (h - 1) rs"
  by (cases h) (auto simp: rows_of_def)

lemma rows_of_nth: "rows_of w h rows \<Longrightarrow> i < h \<Longrightarrow> length (rows ! i) = w"
  by (simp add: rows_of_def)

lemma read_rows_shape: "read_rows buf p stride w h = Some rows \<Longrightarrow> rows_of w h rows"
proof -
  assume r: "read_rows buf p stride w h = Some rows"
  then have rows: "rows = map (\<lambda>i. take w (drop (p + i * stride) buf)) [0..<h]"
    and b: "w = 0 \<or> h = 0 \<or> p + (h - 1) * stride + w \<le> length buf" by (simp_all add: read_rows_def split: if_splits)
  have "length (take w (drop (p + i * stride) buf)) = w" if "i < h" for i
  proof -
    have "i * stride \<le> (h - 1) * stride" using that by (intro mult_right_mono) auto
    then have "w = 0 \<or> p + i * stride + w \<le> length buf" using b that by linarith
    then show ?thesis by auto
  qed
  then show ?thesis by (auto simp: rows rows_of_def)
qed

lemma read_rows_defined:
  "read_rows buf p stride w h \<noteq> None \<longleftrightarrow> w = 0 \<or> h = 0 \<or> p + (h - 1) * stride + w \<le> length buf"
  by (simp add: read_rows_def)

lemma write_rows_length: "write_rows buf p stride rows = Some buf' \<Longrightarrow> length buf' = length buf"
  by (induction rows arbitrary: buf p) (auto simp: blit_length)

lemma write_rows_defined:
  "rows_of w h rows \<Longrightarrow> 0 < w \<Longrightarrow> 0 < h \<Longrightarrow> write_rows buf p stride rows \<noteq> None \<longleftrightarrow> p + (h - 1) * stride + w \<le> length buf"
proof (induction rows arbitrary: buf p h)
  case (Cons r rs)
  have r: "length r = w" "rows_of w (h - 1) rs" using Cons.prems(1) by (auto simp: rows_of_Cons)
  show ?case
  proof (cases "p + w \<le> length buf")
    case False
    then show ?thesis using r(1) by (simp add: blit_def)
  next
    case True
    define buf' where "buf' = take p buf @ r @ drop (p + length r) buf"
    have b: "blit buf p r = Some buf'" "length buf' = length buf" using True r(1) by (simp_all add: blit_def buf'_def)
    show ?thesis
    proof (cases "h = 1")
      case h: True
      then have "rs = []" using r(2) by (simp add: rows_of_def)
      then show ?thesis using b(1) True h by simp
    next
      case False
      then obtain k where "h - 1 = Suc k" using Cons.prems(3) by (cases "h - 1") auto
      then have h: "0 < h - 1" "(h - 1) * stride = stride + (h - 1 - 1) * stride" by simp_all
      have "write_rows buf p stride (r # rs) = write_rows buf' (p + stride) stride rs" using b(1) by simp
      then show ?thesis using Cons.IH [OF r(2) Cons.prems(2) h(1), of buf' "p + stride"] b(2) h(2) by (simp add: add.assoc)
    qed
  qed
qed (simp add: rows_of_def)

text \<open>Rows without gaps are read back, and a write leaves what is outside of it.\<close>

lemma write_compact:
  "rows_of w h rows \<Longrightarrow> p + h * w \<le> length buf \<Longrightarrow>
    write_rows buf p w rows = Some (take p buf @ concat rows @ drop (p + h * w) buf)"
proof (induction rows arbitrary: buf p h)
  case (Cons r rs)
  have r: "length r = w" "rows_of w (h - 1) rs" "0 < h" using Cons.prems(1) by (auto simp: rows_of_Cons)
  then have h: "h * w = w + (h - 1) * w" by (cases h) simp_all
  define buf' where "buf' = take p buf @ r @ drop (p + length r) buf"
  have b: "blit buf p r = Some buf'" "length buf' = length buf" using Cons.prems(2) r(1) h by (simp_all add: blit_def buf'_def)
  have "write_rows buf' (p + w) w rs = Some (take (p + w) buf' @ concat rs @ drop (p + w + (h - 1) * w) buf')"
    by (rule Cons.IH [OF r(2)]) (use Cons.prems(2) b(2) h in simp)
  moreover have "take (p + w) buf' = take p buf @ r" "drop (p + w + (h - 1) * w) buf' = drop (p + h * w) buf"
    using r(1) Cons.prems(2) unfolding h by (simp_all add: buf'_def min_def add.assoc) (simp add: ac_simps)
  ultimately show ?case using b(1) by simp
qed (simp add: rows_of_def)

lemma read_compact:
  assumes "rows_of w h rows" and "take (h * w) (drop p buf) = concat rows" and "p + h * w \<le> length buf"
  shows "read_rows buf p w w h = Some rows"
proof -
  have "map (\<lambda>i. take w (drop (p + i * w) buf)) [0..<h] = rows"
    using assms
  proof (induction rows arbitrary: h p)
    case (Cons r rs)
    have r: "length r = w" "rows_of w (h - 1) rs" "0 < h" using Cons.prems(1) by (auto simp: rows_of_Cons)
    then obtain k where h: "h = Suc k" by (cases h) auto
    have e: "take (w + k * w) (drop p buf) = r @ concat rs" using Cons.prems(2) h by simp
    have "take w (drop p buf) = take w (take (w + k * w) (drop p buf))" by (simp add: min_def)
    then have r': "take w (drop p buf) = r" unfolding e using r(1) by simp
    have "take (k * w) (drop (p + w) buf) = drop w (take (w + k * w) (drop p buf))" by (simp add: drop_take add.commute)
    then have "take (k * w) (drop (p + w) buf) = concat rs" unfolding e using r(1) by simp
    moreover have "rows_of w k rs" "p + w + k * w \<le> length buf" using r(2) Cons.prems(3) h by simp_all
    ultimately have "map (\<lambda>i. take w (drop (p + w + i * w) buf)) [0..<k] = rs" by (intro Cons.IH)
    then show ?case unfolding h map_upt_Suc using r' by (simp add: add.assoc)
  qed (simp add: rows_of_def)
  moreover have "w = 0 \<or> h = 0 \<or> p + (h - 1) * w + w \<le> length buf" using assms(3) by (cases h) auto
  ultimately show ?thesis by (simp add: read_rows_def)
qed

section \<open>The size of the buffer\<close>

text \<open>A turned frame stays in the buffer of \<open>w * h * 3 / 2\<close> bytes just for these sizes.\<close>

definition fits :: "nat \<Rightarrow> nat \<Rightarrow> bool" where
  "fits w h \<longleftrightarrow> even h \<or> (if even w then w < 4 else w < h)"

lemma chroma_fits:
  assumes "0 < w" and "0 < h"
  shows "w * h + w * h div 4 + (half h - 1) * (w div 2) + half w \<le> w * h * 3 div 2 \<longleftrightarrow> fits w h"
proof -
  define a b p where "a = w div 2" and "b = h div 2" and "p = a * b"
  have w: "w = 2 * a \<or> w = 2 * a + 1" and h: "h = 2 * b \<or> h = 2 * b + 1" unfolding a_def b_def by presburger+
  consider "w = 2 * a" "h = 2 * b" | "w = 2 * a" "h = 2 * b + 1" | "w = 2 * a + 1" "h = 2 * b" | "w = 2 * a + 1" "h = 2 * b + 1"
    using w h by blast
  then show ?thesis
  proof cases
    case 1
    then have "w * h = 4 * p" "half h - 1 = b - 1" "half w = a" "w div 2 = a" "0 < b" "(b - 1) * a = p - a" "a \<le> p"
      using assms by (auto simp: p_def half_def algebra_simps diff_mult_distrib)
    then show ?thesis using 1 by (simp add: fits_def)
  next
    case 2
    define q where "q = 4 * p + 2 * a"
    have "w * h = q" "half h - 1 = b" "half w = a" "w div 2 = a" "b * a = p"
      using 2 by (auto simp: p_def q_def half_def algebra_simps)
    moreover have "q div 4 = p + a div 2" "q * 3 div 2 = 6 * p + 3 * a" unfolding q_def by presburger+
    moreover have "fits w h \<longleftrightarrow> a div 2 = 0" using 2 by (auto simp: fits_def)
    ultimately show ?thesis by (simp add: q_def)
  next
    case 3
    define q where "q = 4 * p + 2 * b"
    have "w * h = q" "half h - 1 = b - 1" "half w = a + 1" "w div 2 = a" "0 < b" "(b - 1) * a = p - a" "a \<le> p"
      using 3 assms by (auto simp: p_def q_def half_def algebra_simps diff_mult_distrib)
    moreover have "q div 4 = p + b div 2" "q * 3 div 2 = 6 * p + 3 * b" unfolding q_def by presburger+
    moreover have "fits w h" using 3 by (simp add: fits_def)
    ultimately show ?thesis by (simp add: q_def)
  next
    case 4
    define q where "q = 4 * p + 2 * a + 2 * b + 1"
    have "w * h = q" "half h - 1 = b" "half w = a + 1" "w div 2 = a" "b * a = p"
      using 4 by (auto simp: p_def q_def half_def algebra_simps)
    moreover have "q div 4 = p + (a + b) div 2" "q * 3 div 2 = 6 * p + 3 * a + 3 * b + 1" unfolding q_def by presburger+
    moreover have "fits w h \<longleftrightarrow> (a + b) div 2 + 1 \<le> b" unfolding fits_def 4 by presburger
    ultimately show ?thesis by (simp add: q_def)
  qed
qed

lemma planes_fit:
  assumes "0 < w" and "0 < h"
  shows "(h - 1) * w + w \<le> w * h * 3 div 2"
    "w * h + w * h div 4 + (half h - 1) * (w div 2) + half w \<le> n \<Longrightarrow> w * h + (half h - 1) * (w div 2) + half w \<le> n"
proof -
  have "(h - 1) * w + w = w * h" using assms(2) by (cases h) simp_all
  then show "(h - 1) * w + w \<le> w * h * 3 div 2" by simp
qed simp

lemma half_pos: "0 < n \<Longrightarrow> 0 < half n"
  by (simp add: half_def)

section \<open>What the code relies on\<close>

text \<open>libyuv makes rows of the right number and length.\<close>

definition yuv_ok :: "libyuv \<Rightarrow> bool" where
  "yuv_ok yuv \<longleftrightarrow> (\<forall>mode w h rows. 0 < w \<and> 0 < h \<and> rows_of w h rows \<longrightarrow>
       rows_of (fst (turned mode w h)) (snd (turned mode w h)) (rotate_rows yuv mode rows)) \<and>
     (\<forall>w h ys us vs. 0 < w \<and> 0 < h \<and> rows_of w h ys \<and> rows_of (half w) (half h) us \<and> rows_of (half w) (half h) vs \<longrightarrow>
       rows_of (4 * w) h (argb_rows yuv ys us vs))"

text \<open>The planes of a frame have strides and sizes for it, as WebRTC promises.\<close>

definition frame_ok :: "video_frame \<Rightarrow> bool" where
  "frame_ok f \<longleftrightarrow> (\<forall>p. video_frame_buffer f = I420 p \<longrightarrow>
     frame_width f \<le> stride_y p \<and> half (frame_width f) \<le> stride_u p \<and> half (frame_width f) \<le> stride_v p \<and>
     stride_y p * frame_height f \<le> length (data_y p) \<and> stride_u p * half (frame_height f) \<le> length (data_u p) \<and>
     stride_v p * half (frame_height f) \<le> length (data_v p))"

text \<open>The buffers have the sizes that the renderer remembers.\<close>

definition buffers_ok :: "renderer \<Rightarrow> bool" where
  "buffers_ok r \<longleftrightarrow> video_width r = 0 \<and> video_height r = 0 \<and> rgb_buffer r = None \<and> i420_buffer r = None \<or>
     rgb_buffer r \<noteq> None \<and> i420_buffer r \<noteq> None \<and> length (bytes_of (rgb_buffer r)) = video_width r * video_height r * 4 \<and>
     length (bytes_of (i420_buffer r)) = video_width r * video_height r * 3 div 2 \<and>
     bmi_bit_count r = 32 \<and> bmi_width r = int (video_width r) \<and> bmi_height r = - int (video_height r)"

text \<open>The rows of a frame, and of the frame as it should be seen.\<close>

definition rows_y :: "video_frame \<Rightarrow> planes \<Rightarrow> string list" where
  "rows_y f p = the (read_rows (data_y p) 0 (stride_y p) (frame_width f) (frame_height f))"

definition rows_u :: "video_frame \<Rightarrow> planes \<Rightarrow> string list" where
  "rows_u f p = the (read_rows (data_u p) 0 (stride_u p) (half (frame_width f)) (half (frame_height f)))"

definition rows_v :: "video_frame \<Rightarrow> planes \<Rightarrow> string list" where
  "rows_v f p = the (read_rows (data_v p) 0 (stride_v p) (half (frame_width f)) (half (frame_height f)))"

definition upright :: "libyuv \<Rightarrow> video_frame \<Rightarrow> string list \<Rightarrow> string list" where
  "upright yuv f rows = (if frame_rotation f = Rotate0 then rows else rotate_rows yuv (frame_rotation f) rows)"

lemma read_plane:
  assumes "w' \<le> stride" and "stride * h \<le> length buf" and "s \<le> stride"
  shows "read_rows buf 0 s w' h \<noteq> None"
proof (cases "h = 0")
  case False
  have "(h - 1) * s + w' \<le> (h - 1) * stride + stride" using assms(1,3) by (intro add_mono mult_left_mono) auto
  also have "\<dots> = stride * h" using False by (cases h) simp_all
  finally show ?thesis using assms(2) by (simp add: read_rows_def)
qed (simp add: read_rows_def)

lemma frame_rows:
  assumes "frame_ok f" and "video_frame_buffer f = I420 p"
  shows "read_rows (data_y p) 0 (stride_y p) (frame_width f) (frame_height f) = Some (rows_y f p)"
    "read_rows (data_u p) 0 (stride_u p) (half (frame_width f)) (half (frame_height f)) = Some (rows_u f p)"
    "read_rows (data_v p) 0 (stride_v p) (half (frame_width f)) (half (frame_height f)) = Some (rows_v f p)"
    "rows_of (frame_width f) (frame_height f) (rows_y f p)"
    "rows_of (half (frame_width f)) (half (frame_height f)) (rows_u f p)"
    "rows_of (half (frame_width f)) (half (frame_height f)) (rows_v f p)"
proof -
  note k = assms(1) [unfolded frame_ok_def, rule_format, OF assms(2)]
  show r: "read_rows (data_y p) 0 (stride_y p) (frame_width f) (frame_height f) = Some (rows_y f p)"
    "read_rows (data_u p) 0 (stride_u p) (half (frame_width f)) (half (frame_height f)) = Some (rows_u f p)"
    "read_rows (data_v p) 0 (stride_v p) (half (frame_width f)) (half (frame_height f)) = Some (rows_v f p)"
    using k read_plane [OF _ _ order_refl] by (auto simp: rows_y_def rows_u_def rows_v_def)
  show "rows_of (frame_width f) (frame_height f) (rows_y f p)"
    "rows_of (half (frame_width f)) (half (frame_height f)) (rows_u f p)"
    "rows_of (half (frame_width f)) (half (frame_height f)) (rows_v f p)"
    by (rule read_rows_shape [OF r(1)] read_rows_shape [OF r(2)] read_rows_shape [OF r(3)])+
qed

lemma turned_half: "turned mode (half w) (half h) = (half (fst (turned mode w h)), half (snd (turned mode w h)))"
  by (simp add: turned_def)

section \<open>Turning into the buffer\<close>

lemma turned_rows:
  assumes "yuv_ok yuv" and "turned mode a b = (w, h)" and "0 < a" and "0 < b"
  shows "rows_of a b rows \<Longrightarrow> rows_of w h (rotate_rows yuv mode rows)"
    "rows_of (half a) (half b) rows \<Longrightarrow> rows_of (half w) (half h) (rotate_rows yuv mode rows)"
proof -
  have k: "rows_of (fst (turned mode a b)) (snd (turned mode a b)) (rotate_rows yuv mode rows)"
    if "0 < a" "0 < b" "rows_of a b rows" for a b
    using assms(1) that unfolding yuv_ok_def by blast
  show "rows_of a b rows \<Longrightarrow> rows_of w h (rotate_rows yuv mode rows)" using k [OF assms(3,4)] assms(2) by simp
  show "rows_of (half a) (half b) rows \<Longrightarrow> rows_of (half w) (half h) (rotate_rows yuv mode rows)"
    using k [OF half_pos [OF assms(3)] half_pos [OF assms(4)]] turned_half [of mode a b] assms(2) by simp
qed

lemma rotate_frame:
  assumes y: "yuv_ok yuv" and f: "frame_ok f" "video_frame_buffer f = I420 p" and t: "turned_size f = (w, h)" "0 < w" "0 < h"
    and b: "length buf = w * h * 3 div 2"
    and R_def: "R = I420Rotate yuv (frame_rotation f) p (frame_width f) (frame_height f) buf
      (0, w) (w * h, w div 2) (w * h + w * h div 4, w div 2)"
  shows "R \<noteq> None \<longleftrightarrow> fits w h" "R = Some buf' \<Longrightarrow> length buf' = length buf"
proof -
  let ?m = "rotate_rows yuv (frame_rotation f)"
  note fr = frame_rows [OF f]
  have tw: "turned (frame_rotation f) (frame_width f) (frame_height f) = (w, h)" using t(1) by (simp add: turned_size_def)
  then have pos: "0 < frame_width f" "0 < frame_height f" using t(2,3) by (auto simp: turned_def split: if_splits)
  have ys: "rows_of w h (?m (rows_y f p))" and us: "rows_of (half w) (half h) (?m (rows_u f p))" and vs: "rows_of (half w) (half h) (?m (rows_v f p))"
    using fr(4-6) turned_rows [OF y tw pos] by blast+
  have R: "R = do {
     buf \<leftarrow> write_rows buf 0 w (?m (rows_y f p));
     buf \<leftarrow> write_rows buf (w * h) (w div 2) (?m (rows_u f p));
     write_rows buf (w * h + w * h div 4) (w div 2) (?m (rows_v f p)) }"
    using fr(1-3) by (simp add: R_def I420Rotate_def)
  have dy: "write_rows buf 0 w (?m (rows_y f p)) \<noteq> None"
    using write_rows_defined [OF ys t(2,3), of buf 0 w] planes_fit(1) [OF t(2,3)] b by simp
  then obtain b1 where b1: "write_rows buf 0 w (?m (rows_y f p)) = Some b1" "length b1 = w * h * 3 div 2"
    using write_rows_length b by fastforce
  note du = write_rows_defined [OF us half_pos [OF t(2)] half_pos [OF t(3)], of b1 "w * h" "w div 2", unfolded b1(2)]
  note dv = write_rows_defined [OF vs half_pos [OF t(2)] half_pos [OF t(3)], of _ "w * h + w * h div 4" "w div 2"]
  note cf = chroma_fits [OF t(2,3)]
  show "R \<noteq> None \<longleftrightarrow> fits w h"
  proof (cases "write_rows b1 (w * h) (w div 2) (?m (rows_u f p))")
    case None
    then have "\<not> fits w h" using du planes_fit(2) [OF t(2,3), of "w * h * 3 div 2"] cf by simp
    then show ?thesis unfolding R using b1(1) None by simp
  next
    case (Some b2)
    have "length b2 = w * h * 3 div 2" using write_rows_length [OF Some] b1(2) by simp
    then show ?thesis unfolding R using b1(1) Some dv [of b2] cf by simp
  qed
  show "R = Some buf' \<Longrightarrow> length buf' = length buf"
    unfolding R using write_rows_length by fastforce
qed

text \<open>With even sizes the planes lie one after the other, and the turned rows are what is read from there.\<close>

lemma length_rows: "rows_of w h rows \<Longrightarrow> length (concat rows) = h * w"
proof (induction rows arbitrary: h)
  case (Cons r rs)
  then show ?case by (cases h) (auto simp: rows_of_Cons)
qed (simp add: rows_of_def)

lemma write_next:
  assumes "rows_of w h rows" and "length xs + h * w \<le> length (xs @ ys)"
  shows "write_rows (xs @ ys) (length xs) w rows = Some ((xs @ concat rows) @ drop (h * w) ys)"
  using write_compact [OF assms] by simp

lemma read_here:
  assumes "rows_of w h rows"
  shows "read_rows (xs @ concat rows @ ys) (length xs) w w h = Some rows"
  by (rule read_compact [OF assms]) (simp_all add: length_rows [OF assms])

lemma rotate_picture:
  assumes y: "yuv_ok yuv" and f: "frame_ok f" "video_frame_buffer f = I420 p" and t: "turned_size f = (w, h)" "0 < w" "0 < h" "even w" "even h"
    and b: "length buf = w * h * 3 div 2" and m: "frame_rotation f \<noteq> Rotate0"
    and R: "I420Rotate yuv (frame_rotation f) p (frame_width f) (frame_height f) buf
      (0, w) (w * h, w div 2) (w * h + w * h div 4, w div 2) = Some buf'"
  shows "read_rows buf' 0 w w h = Some (upright yuv f (rows_y f p))"
    "read_rows buf' (w * h) (w div 2) (half w) (half h) = Some (upright yuv f (rows_u f p))"
    "read_rows buf' (w * h + w * h div 4) (w div 2) (half w) (half h) = Some (upright yuv f (rows_v f p))"
proof -
  define ys us vs where d: "ys = upright yuv f (rows_y f p)" "us = upright yuv f (rows_u f p)" "vs = upright yuv f (rows_v f p)"
  note fr = frame_rows [OF f]
  have tw: "turned (frame_rotation f) (frame_width f) (frame_height f) = (w, h)" using t(1) by (simp add: turned_size_def)
  then have pos: "0 < frame_width f" "0 < frame_height f" using t(2,3) by (auto simp: turned_def split: if_splits)
  have ys: "rows_of w h ys" and us: "rows_of (half w) (half h) us" and vs: "rows_of (half w) (half h) vs"
    using fr(4-6) turned_rows [OF y tw pos] m unfolding d upright_def by simp_all
  define n k where "n = h * w" and "k = half h * half w"
  have e: "half w = w div 2" "half h = h div 2" "w * h = n" "h * w = n" "n div 4 = k" "length buf = n + k + k"
    using t(4,5) b by (auto simp: half_def k_def n_def elim!: evenE)
  note l = length_rows [OF ys, unfolded e(4)] length_rows [OF us, folded k_def] length_rows [OF vs, folded k_def]
  have 1: "write_rows buf 0 w ys = Some (concat ys @ drop n buf)"
    using write_next [OF ys, of "[]" buf] e by simp
  have 2: "write_rows (concat ys @ drop n buf) n (w div 2) us = Some ((concat ys @ concat us) @ drop (k + n) buf)"
    using write_next [OF us, of "concat ys" "drop n buf", folded k_def] e l by simp
  have 3: "write_rows ((concat ys @ concat us) @ drop (k + n) buf) (n + k) (w div 2) vs =
      Some ((concat ys @ concat us @ concat vs) @ drop (k + (k + n)) buf)"
    using write_next [OF vs, of "concat ys @ concat us" "drop (k + n) buf", folded k_def] e l by simp
  have "do {
     buf \<leftarrow> write_rows buf 0 w ys;
     buf \<leftarrow> write_rows buf n (w div 2) us;
     write_rows buf (n + k) (w div 2) vs } = Some buf'"
    using R fr(1-3) m by (simp add: I420Rotate_def d upright_def e(3,5))
  then have buf': "buf' = concat ys @ concat us @ concat vs" using e(6) unfolding 1 by (simp add: 2 [simplified] 3 [simplified] del: bind_Some_iff)
  show "read_rows buf' 0 w w h = Some (upright yuv f (rows_y f p))"
    using read_here [OF ys, of "[]" "concat us @ concat vs"] by (simp add: buf' d)
  show "read_rows buf' (w * h) (w div 2) (half w) (half h) = Some (upright yuv f (rows_u f p))"
    using read_here [OF us, of "concat ys" "concat vs"] l e(1,3) by (simp add: buf' d)
  show "read_rows buf' (w * h + w * h div 4) (w div 2) (half w) (half h) = Some (upright yuv f (rows_v f p))"
    using read_here [OF vs, of "concat ys @ concat us" "[]"] l e(1,3,5) by (simp add: buf' d)
qed

section \<open>The colours\<close>

lemma argb_defined:
  assumes y: "yuv_ok yuv" and wh: "0 < w" "0 < h" and b: "length rgb = w * h * 4"
    and R: "R = I420ToARGB yuv (ybuf, py, sy) (ubuf, pu, su) (vbuf, pv, sv) rgb (4 * w) w h"
  shows "R \<noteq> None \<longleftrightarrow> read_rows ybuf py sy w h \<noteq> None \<and> read_rows ubuf pu su (half w) (half h) \<noteq> None \<and>
      read_rows vbuf pv sv (half w) (half h) \<noteq> None"
    "R = Some rgb' \<Longrightarrow> length rgb' = length rgb"
    "read_rows ybuf py sy w h = Some ys \<Longrightarrow> read_rows ubuf pu su (half w) (half h) = Some us \<Longrightarrow>
      read_rows vbuf pv sv (half w) (half h) = Some vs \<Longrightarrow> R = Some (concat (argb_rows yuv ys us vs))"
proof -
  have all: "R = Some (concat (argb_rows yuv ys us vs)) \<and> length (concat (argb_rows yuv ys us vs)) = length rgb"
    if "read_rows ybuf py sy w h = Some ys" "read_rows ubuf pu su (half w) (half h) = Some us"
      "read_rows vbuf pv sv (half w) (half h) = Some vs" for ys us vs
  proof -
    have s: "rows_of (4 * w) h (argb_rows yuv ys us vs)"
      using y wh that [THEN read_rows_shape] unfolding yuv_ok_def by blast
    have "h * (4 * w) = length rgb" using b by simp
    then show ?thesis using that write_compact [OF s, of 0 rgb] length_rows [OF s] by (simp add: R I420ToARGB_def)
  qed
  then show "read_rows ybuf py sy w h = Some ys \<Longrightarrow> read_rows ubuf pu su (half w) (half h) = Some us \<Longrightarrow>
      read_rows vbuf pv sv (half w) (half h) = Some vs \<Longrightarrow> R = Some (concat (argb_rows yuv ys us vs))" by blast
  show "R \<noteq> None \<longleftrightarrow> read_rows ybuf py sy w h \<noteq> None \<and> read_rows ubuf pu su (half w) (half h) \<noteq> None \<and>
      read_rows vbuf pv sv (half w) (half h) \<noteq> None"
  proof (cases "read_rows ybuf py sy w h \<noteq> None \<and> read_rows ubuf pu su (half w) (half h) \<noteq> None \<and>
      read_rows vbuf pv sv (half w) (half h) \<noteq> None")
    case True
    then show ?thesis using all by fastforce
  next
    case False
    then show ?thesis by (auto simp: R I420ToARGB_def)
  qed
  show "R = Some rgb' \<Longrightarrow> length rgb' = length rgb"
    using all by (auto simp: R I420ToARGB_def)
qed

section \<open>A whole frame\<close>

text \<open>What the renderer has before libyuv is called: buffers for the size of the turned frame.\<close>

lemma sized:
  assumes "buffers_ok r" and "0 < w" and "w * h * 4 < 2 ^ 31"
  shows "\<exists>r1 b c. (if w \<noteq> video_width r \<or> h \<noteq> video_height r then
      map_option (\<lambda>r. r\<lparr>video_width := w, video_height := h\<rparr>) (AllocatVideoBuffer junk w h r) else Some r) = Some r1 \<and>
    buffers_ok r1 \<and> video_width r1 = w \<and> video_height r1 = h \<and> rgb_buffer r1 = Some b \<and> i420_buffer r1 = Some c \<and>
    length b = w * h * 4 \<and> length c = w * h * 3 div 2 \<and> bmi_bit_count r1 = 32 \<and> bmi_width r1 = int w \<and> bmi_height r1 = - int h \<and>
    video_window r1 = video_window r \<and> mirror_mode r1 = mirror_mode r \<and> pictures r1 = pictures r"
proof (cases "w \<noteq> video_width r \<or> h \<noteq> video_height r")
  case True
  have "AllocatVideoBuffer junk w h r = Some (r\<lparr>bmi_width := int w, bmi_height := - int h, bmi_bit_count := 32,
    rgb_buffer := Some (unset_bytes junk (w * h * 4)), i420_buffer := Some (unset_bytes junk (w * h * 3 div 2))\<rparr>)"
    using assms(3) by (simp add: AllocatVideoBuffer_def)
  moreover have "length (unset_bytes junk n) = n" for n by (simp add: unset_bytes_def)
  ultimately show ?thesis using True by (simp add: buffers_ok_def bytes_of_def)
next
  case False
  then obtain b c where "rgb_buffer r = Some b" "i420_buffer r = Some c" using assms(1,2) by (auto simp: buffers_ok_def)
  then show ?thesis using False assms(1,2) by (auto simp: buffers_ok_def bytes_of_def)
qed

lemma draw_frame:
  "video_width (draw r) = video_width r" "video_height (draw r) = video_height r" "rgb_buffer (draw r) = rgb_buffer r"
  "i420_buffer (draw r) = i420_buffer r" "bmi_bit_count (draw r) = bmi_bit_count r" "bmi_width (draw r) = bmi_width r"
  "bmi_height (draw r) = bmi_height r"
  by (auto simp: draw_def split: option.split)

text \<open>The frame without copies: from its own planes, with the strides of the buffer.\<close>

definition direct :: "video_frame \<Rightarrow> bool" where
  "direct f \<longleftrightarrow> frame_rotation f = Rotate0 \<and> (\<exists>p. video_frame_buffer f = I420 p)"

text \<open>The sources that the code gives to libyuv, and the buffer after turning.\<close>

definition sources :: "libyuv \<Rightarrow> video_frame \<Rightarrow> nat \<Rightarrow> nat \<Rightarrow> string \<Rightarrow> ((string \<times> nat) \<times> (string \<times> nat) \<times> (string \<times> nat) \<times> string) option" where
  "sources yuv f w h buf = (let dst_u = w * h; dst_v = dst_u + w * h div 4 in case video_frame_buffer f of
     I420 p \<Rightarrow>
       if frame_rotation f = Rotate0 then Some ((data_y p, 0), (data_u p, 0), (data_v p, 0), buf)
       else map_option (\<lambda>buf. ((buf, 0), (buf, dst_u), (buf, dst_v), buf)) (I420Rotate yuv (frame_rotation f) p (frame_width f) (frame_height f)
         buf (0, w) (dst_u, w div 2) (dst_v, w div 2))
   | _ \<Rightarrow> Some ((buf, 0), (buf, dst_u), (buf, dst_v), buf))"

lemma sources_facts:
  assumes "yuv_ok yuv" "frame_ok f" "turned_size f = (w, h)" "0 < w" "0 < h" "length buf = w * h * 3 div 2"
  shows "direct f \<or> fits w h \<Longrightarrow> sources yuv f w h buf \<noteq> None"
    "sources yuv f w h buf = Some ((yb, py), (ub, pu), (vb, pv), buf') \<Longrightarrow> length buf' = length buf \<and>
      (read_rows yb py w w h \<noteq> None \<and> read_rows ub pu (w div 2) (half w) (half h) \<noteq> None \<and>
       read_rows vb pv (w div 2) (half w) (half h) \<noteq> None \<longleftrightarrow> direct f \<or> fits w h)"
proof -
  have inside: "read_rows b 0 w w h \<noteq> None \<and> read_rows b (w * h) (w div 2) (half w) (half h) \<noteq> None \<and>
      read_rows b (w * h + w * h div 4) (w div 2) (half w) (half h) \<noteq> None \<longleftrightarrow> fits w h" if "length b = length buf" for b
    unfolding read_rows_defined using planes_fit [OF assms(4,5)] chroma_fits [OF assms(4,5)] half_pos [OF assms(4)] half_pos [OF assms(5)]
      that assms(4-6) by auto
  have rot: "I420Rotate yuv (frame_rotation f) p (frame_width f) (frame_height f) buf (0, w) (w * h, w div 2) (w * h + w * h div 4, w div 2) \<noteq> None
      \<longleftrightarrow> fits w h"
    "I420Rotate yuv (frame_rotation f) p (frame_width f) (frame_height f) buf (0, w) (w * h, w div 2) (w * h + w * h div 4, w div 2) = Some b
      \<Longrightarrow> length b = length buf" if "video_frame_buffer f = I420 p" for p b
    using rotate_frame [OF assms(1,2) that assms(3-6) refl] by blast+
  show "direct f \<or> fits w h \<Longrightarrow> sources yuv f w h buf \<noteq> None"
    using rot(1) by (auto simp: sources_def direct_def Let_def split: frame_buffer.split)
  assume s: "sources yuv f w h buf = Some ((yb, py), (ub, pu), (vb, pv), buf')"
  show "length buf' = length buf \<and> (read_rows yb py w w h \<noteq> None \<and> read_rows ub pu (w div 2) (half w) (half h) \<noteq> None \<and>
       read_rows vb pv (w div 2) (half w) (half h) \<noteq> None \<longleftrightarrow> direct f \<or> fits w h)"
  proof (cases "direct f")
    case True
    then obtain p where p: "video_frame_buffer f = I420 p" "frame_rotation f = Rotate0" by (auto simp: direct_def)
    then have wh: "frame_width f = w" "frame_height f = h" using assms(3) by (simp_all add: turned_size_def turned_def)
    note k = assms(2) [unfolded frame_ok_def, rule_format, OF p(1), unfolded wh]
    have "w div 2 \<le> half w" by (simp add: half_def)
    then have "read_rows (data_y p) 0 w w h \<noteq> None" "read_rows (data_u p) 0 (w div 2) (half w) (half h) \<noteq> None"
      "read_rows (data_v p) 0 (w div 2) (half w) (half h) \<noteq> None"
      using k read_plane [of w "stride_y p" h "data_y p" w] read_plane [of "half w" "stride_u p" "half h" "data_u p" "w div 2"]
        read_plane [of "half w" "stride_v p" "half h" "data_v p" "w div 2"] by linarith+
    then show ?thesis using s p True by (simp add: sources_def)
  next
    case False
    then have "yb = buf' \<and> ub = buf' \<and> vb = buf' \<and> py = 0 \<and> pu = w * h \<and> pv = w * h + w * h div 4 \<and> length buf' = length buf"
      using s rot(2) by (auto simp: sources_def direct_def Let_def split: frame_buffer.splits if_splits)
    then show ?thesis using inside [of buf'] False by simp
  qed
qed

lemma OnFrame_sources:
  assumes "turned_size f = (w, h)" and r1: "(if w \<noteq> video_width r \<or> h \<noteq> video_height r then
      map_option (\<lambda>r. r\<lparr>video_width := w, video_height := h\<rparr>) (AllocatVideoBuffer junk w h r) else Some r) = Some r1"
    and "rgb_buffer r1 = Some b" and "i420_buffer r1 = Some c" and "bmi_bit_count r1 = 32" and "w * 32 < 2 ^ 31"
  shows "OnFrame yuv junk False f r = do {
    ((yb, py), (ub, pu), (vb, pv), buf) \<leftarrow> sources yuv f w h c;
    rgb \<leftarrow> I420ToARGB yuv (yb, py, w) (ub, pu, w div 2) (vb, pv, w div 2) b (4 * w) w h;
    Some (draw (r1\<lparr>i420_buffer := Some buf, rgb_buffer := Some rgb\<rparr>)) }"
proof -
  have i: "r1\<lparr>i420_buffer := Some c\<rparr> = r1" "r1\<lparr>i420_buffer := Some c, rgb_buffer := x\<rparr> = r1\<lparr>rgb_buffer := x\<rparr>" for x
    using assms(4) by (cases r1; simp)+
  have m: "w * 32 div 8 = 4 * w" by simp
  show ?thesis
  proof (cases "video_frame_buffer f")
    case (I420 p)
    let ?R = "I420Rotate yuv (frame_rotation f) p (frame_width f) (frame_height f) c (0, w) (w * h, w div 2) (w * h + w * h div 4, w div 2)"
    show ?thesis unfolding OnFrame_def assms(1) prod.case r1 by (cases ?R) (use assms(3-6) I420 in \<open>simp_all add: sources_def Let_def bytes_of_def i m del: bind_Some_iff\<close>)
  qed (unfold OnFrame_def assms(1) prod.case r1, use assms(3-6) in \<open>simp_all add: sources_def Let_def bytes_of_def i m del: bind_Some_iff\<close>)
qed

section \<open>The property\<close>

text \<open>The strides of the planes are those of the buffer.\<close>

definition same_strides :: "video_frame \<Rightarrow> planes \<Rightarrow> bool" where
  "same_strides f p \<longleftrightarrow> stride_y p = frame_width f \<and> stride_u p = frame_width f div 2 \<and> stride_v p = frame_width f div 2"

definition seen :: "libyuv \<Rightarrow> video_frame \<Rightarrow> planes \<Rightarrow> string" where
  "seen yuv f p = concat (argb_rows yuv (upright yuv f (rows_y f p)) (upright yuv f (rows_u f p)) (upright yuv f (rows_v f p)))"

lemma sources_seen:
  assumes "yuv_ok yuv" "frame_ok f" "turned_size f = (w, h)" "0 < w" "0 < h" "length buf = w * h * 3 div 2"
    and "video_frame_buffer f = I420 p" "frame_rotation f = Rotate0 \<longrightarrow> same_strides f p" "frame_rotation f \<noteq> Rotate0 \<longrightarrow> even w \<and> even h"
    and s: "sources yuv f w h buf = Some ((yb, py), (ub, pu), (vb, pv), buf')"
  shows "read_rows yb py w w h = Some (upright yuv f (rows_y f p))"
    "read_rows ub pu (w div 2) (half w) (half h) = Some (upright yuv f (rows_u f p))"
    "read_rows vb pv (w div 2) (half w) (half h) = Some (upright yuv f (rows_v f p))"
proof -
  have "read_rows yb py w w h = Some (upright yuv f (rows_y f p)) \<and>
    read_rows ub pu (w div 2) (half w) (half h) = Some (upright yuv f (rows_u f p)) \<and>
    read_rows vb pv (w div 2) (half w) (half h) = Some (upright yuv f (rows_v f p))"
  proof (cases "frame_rotation f = Rotate0")
    case True
    then have wh: "frame_width f = w" "frame_height f = h" using assms(3) by (simp_all add: turned_size_def turned_def)
    then show ?thesis using frame_rows [OF assms(2,7)] True assms(7,8) s by (simp add: sources_def same_strides_def upright_def)
  next
    case False
    let ?R = "I420Rotate yuv (frame_rotation f) p (frame_width f) (frame_height f) buf (0, w) (w * h, w div 2)
        (w * h + w * h div 4, w div 2)"
    have m: "map_option (\<lambda>buf. ((buf, 0), (buf, w * h), (buf, w * h + w * h div 4), buf)) ?R = Some ((yb, py), (ub, pu), (vb, pv), buf')"
      using s unfolding sources_def Let_def assms(7) by (simp only: frame_buffer.case if_not_P [OF False])
    then have "?R \<noteq> None" by (intro notI) simp
    then obtain b where b: "?R = Some b" by blast
    have e: "yb = b" "ub = b" "vb = b" "py = 0" "pu = w * h" "pv = w * h + w * h div 4" using m unfolding b by auto
    have "even w" "even h" using False assms(9) by simp_all
    from rotate_picture [OF assms(1,2,7,3-5) this assms(6) False b] show ?thesis unfolding e by blast
  qed
  then show "read_rows yb py w w h = Some (upright yuv f (rows_y f p))"
    "read_rows ub pu (w div 2) (half w) (half h) = Some (upright yuv f (rows_u f p))"
    "read_rows vb pv (w div 2) (half w) (half h) = Some (upright yuv f (rows_v f p))" by blast+
qed

text \<open>C35: Handling a frame stays inside the buffers exactly if the frame is not turned and comes with its planes, or
  the size of the turned frame fits the buffer: an odd height overruns it unless the width is 2 or is odd
  and less than the height.  The buffers keep the sizes the renderer remembers.  A frame that has to be turned is
  drawn as it should be seen if its sizes are even, one that has not if its rows are as long as the renderer takes them
  to be (\<open>same_strides\<close>; otherwise see \<open>strides_ignored\<close>).\<close>

theorem frame_stays_inside:
  assumes "yuv_ok yuv" and "buffers_ok r" and "frame_ok f" and "turned_size f = (w, h)" and "0 < w" and "0 < h"
    and "w * h * 4 < 2 ^ 31" and "w * 32 < 2 ^ 31"
  shows "(OnFrame yuv junk False f r \<noteq> None \<longleftrightarrow> direct f \<or> even h \<or> (if even w then w < 4 else w < h)) \<and>
    (\<forall>r'. OnFrame yuv junk False f r = Some r' \<longrightarrow> buffers_ok r' \<and> video_width r' = w \<and> video_height r' = h \<and>
      (\<forall>p win. video_frame_buffer f = I420 p \<and> video_window r = Some win \<and> (frame_rotation f = Rotate0 \<longrightarrow> same_strides f p) \<and>
          (frame_rotation f \<noteq> Rotate0 \<longrightarrow> even w \<and> even h) \<longrightarrow>
        pictures r' = pictures r @ [\<lparr>in_window = win, mirrored = mirror_mode r, picture_width = int w, picture_height = int h,
          colours = seen yuv f p\<rparr>]))"
proof -
  obtain r1 b c where r1: "(if w \<noteq> video_width r \<or> h \<noteq> video_height r then
      map_option (\<lambda>r. r\<lparr>video_width := w, video_height := h\<rparr>) (AllocatVideoBuffer junk w h r) else Some r) = Some r1"
    "video_width r1 = w" "video_height r1 = h" "rgb_buffer r1 = Some b" "i420_buffer r1 = Some c" "length b = w * h * 4"
    "length c = w * h * 3 div 2" "bmi_bit_count r1 = 32" "bmi_width r1 = int w" "bmi_height r1 = - int h"
    "video_window r1 = video_window r" "mirror_mode r1 = mirror_mode r" "pictures r1 = pictures r"
    using sized [OF assms(2,5,7), of junk] by blast
  note O = OnFrame_sources [OF assms(4) r1(1,4,5,8) assms(8), of yuv]
  note sf = sources_facts [OF assms(1,3-6) r1(7)]
  have fits: "fits w h \<longleftrightarrow> even h \<or> (if even w then w < 4 else w < h)" by (simp add: fits_def)
  show ?thesis
  proof (cases "sources yuv f w h c")
    case None
    then show ?thesis using sf(1) fits unfolding O by auto
  next
    case (Some x)
    obtain yb py ub pu vb pv c' where x: "x = ((yb, py), (ub, pu), (vb, pv), c')" by (metis prod.exhaust)
    note s = Some [unfolded x]
    let ?A = "I420ToARGB yuv (yb, py, w) (ub, pu, w div 2) (vb, pv, w div 2) b (4 * w) w h"
    note A = argb_defined [OF assms(1,5,6) r1(6) refl, where ybuf = yb and py = py and sy = w and ubuf = ub and pu = pu and su = "w div 2"
      and vbuf = vb and pv = pv and sv = "w div 2"]
    have F: "OnFrame yuv junk False f r = map_option (\<lambda>rgb. draw (r1\<lparr>i420_buffer := Some c', rgb_buffer := Some rgb\<rparr>)) ?A"
      unfolding O s by (cases ?A) (simp_all del: bind_Some_iff)
    have "?A \<noteq> None \<longleftrightarrow> direct f \<or> fits w h" using A(1) sf(2) [OF s] by blast
    moreover have "buffers_ok r' \<and> video_width r' = w \<and> video_height r' = h" if g0: "OnFrame yuv junk False f r = Some r'" for r'
    proof -
      obtain rgb where g: "?A = Some rgb" "r' = draw (r1\<lparr>i420_buffer := Some c', rgb_buffer := Some rgb\<rparr>)" using g0 unfolding F by auto
      show ?thesis using A(2) [OF g(1)] sf(2) [OF s] r1(2,3,6-10) by (simp add: g(2) draw_frame buffers_ok_def bytes_of_def)
    qed
    moreover have "pictures r' = pictures r @ [\<lparr>in_window = win, mirrored = mirror_mode r, picture_width = int w, picture_height = int h,
          colours = seen yuv f p\<rparr>]" if "OnFrame yuv junk False f r = Some r'" "video_frame_buffer f = I420 p" "video_window r = Some win"
        "frame_rotation f = Rotate0 \<longrightarrow> same_strides f p" "frame_rotation f \<noteq> Rotate0 \<longrightarrow> even w \<and> even h" for r' p win
    proof -
      note q = sources_seen [OF assms(1,3-6) r1(7) that(2,4,5) s]
      have "?A = Some (seen yuv f p)" using A(3) [OF q] by (simp add: seen_def)
      then show ?thesis using that(1,3) r1(9-13) by (auto simp: F draw_def)
    qed
    ultimately show ?thesis using F fits by auto
  qed
qed

text \<open>Turning and colouring of rows, the latter in grey.\<close>

definition columns :: "string list \<Rightarrow> string list" where
  "columns rows = map (\<lambda>i. map (\<lambda>r. r ! i) rows) [0..<length (hd rows)]"

definition grey_yuv :: libyuv where
  "grey_yuv = \<lparr>rotate_rows = (\<lambda>mode rows. case mode of Rotate0 \<Rightarrow> rows | Rotate90 \<Rightarrow> columns (rev rows)
       | Rotate180 \<Rightarrow> rev (map rev rows) | Rotate270 \<Rightarrow> rev (columns rows)),
     argb_rows = (\<lambda>ys us vs. map (\<lambda>r. concat (map (\<lambda>c. [c, c, c, CHR 0xFF]) r)) ys)\<rparr>"

lemma grey_yuv_ok: "yuv_ok grey_yuv"
proof -
  have c: "rows_of h w (columns rows)" if "rows_of w h rows" "0 < h" for w h rows
  proof -
    have "length (hd rows) = w" using that by (cases rows) (auto simp: rows_of_def)
    then show ?thesis using that by (simp add: rows_of_def columns_def)
  qed
  have r: "rows_of w h rows \<Longrightarrow> rows_of w h (rev rows)" "rows_of w h rows \<Longrightarrow> rows_of w h (map rev rows)" for w h rows
    by (auto simp: rows_of_def)
  have "rows_of (fst (turned mode w h)) (snd (turned mode w h)) (rotate_rows grey_yuv mode rows)"
    if "0 < h" "rows_of w h rows" for mode w h rows
    by (cases mode) (use c [OF that(2,1)] c [OF r(1) [OF that(2)] that(1)] r that in \<open>simp_all add: grey_yuv_def turned_def\<close>)
  moreover have "length (concat (map (\<lambda>c. [c, c, c, CHR 0xFF]) r)) = 4 * length r" for r by (induction r) simp_all
  ultimately show ?thesis by (auto simp: yuv_ok_def grey_yuv_def rows_of_def)
qed

definition sample_frame :: "rotation \<Rightarrow> video_frame" where
  "sample_frame mode = \<lparr>frame_width = 3, frame_height = 4, frame_rotation = mode, video_frame_buffer =
     I420 \<lparr>data_y = ''abcdefghijkl'', data_u = ''mnop'', data_v = ''qrst'', stride_y = 3, stride_u = 2, stride_v = 2\<rparr>\<rparr>"

text \<open>A frame whose rows are longer than its width is not drawn as it should be seen.\<close>

definition padded :: planes where
  "padded = \<lparr>data_y = ''ab--cd--'', data_u = ''e'', data_v = ''f'', stride_y = 4, stride_u = 1, stride_v = 1\<rparr>"

lemma strides_ignored:
  assumes "f = \<lparr>frame_width = 2, frame_height = 2, frame_rotation = Rotate0, video_frame_buffer = I420 padded\<rparr>"
  shows "map_option (map colours \<circ> pictures) (OnFrame grey_yuv [] False f (SetWindow (Some 0) (new_renderer None))) =
      Some [concat (argb_rows grey_yuv [''ab'', ''--''] [''e''] [''f''])]"
    "seen grey_yuv f padded = concat (argb_rows grey_yuv [''ab'', ''cd''] [''e''] [''f''])"
  unfolding assms seen_def rows_y_def rows_u_def rows_v_def upright_def
  by (simp_all add: OnFrame_def turned_size_def turned_def new_renderer_def SetTrack_def SetWindow_def AllocatVideoBuffer_def
    I420ToARGB_def read_rows_def half_def padded_def grey_yuv_def draw_def bytes_of_def unset_bytes_def blit_def upt_rec)

theorem frame_stays_inside_witness:
  "OnFrame grey_yuv [] False (sample_frame Rotate90) (new_renderer None) = None \<and>
   OnFrame grey_yuv [] False (sample_frame Rotate180) (new_renderer None) \<noteq> None"
proof -
  have b: "buffers_ok (new_renderer None)" by (simp add: buffers_ok_def new_renderer_def SetTrack_def)
  have f: "frame_ok (sample_frame mode)" for mode by (simp add: frame_ok_def sample_frame_def half_def)
  have t: "turned_size (sample_frame Rotate90) = (4, 3)" "turned_size (sample_frame Rotate180) = (3, 4)"
    by (simp_all add: turned_size_def turned_def sample_frame_def)
  have d: "\<not> direct (sample_frame Rotate90)" by (simp add: direct_def sample_frame_def)
  show ?thesis
    using frame_stays_inside [OF grey_yuv_ok b f t(1), of "[]"] frame_stays_inside [OF grey_yuv_ok b f t(2), of "[]"] d by simp
qed

end
