(* ===== verification/Spec2Isabelle.thy ===== *)
theory Spec2Isabelle
  imports Minify Merge Editing Members Pointer_Laws Sorting_Members Comparing Patching Merging Replaying WsClient Signalling_Laws Request_Laws Closing Video_Render
begin

text \<open>
  A verification development for the RTC Windows client.

  \<^bold>\<open>The program.\<close>  The client joins a room of a conference server, publishes the local camera, subscribes to
  the streams of the others and chats.  Its own code has three parts.  \<open>json/cJSON.c\<close> and
  \<open>json/cJSON_Utils.c\<close> hold the JSON library: parser, printer, minifier, trees of items, pointers, patches.
  \<open>WsClient.cpp\<close> is the transport: a queue of messages, a thread that serves a connection of libwebsockets
  and reconnects, and the way to stop it.  \<open>RtcWinDemoDlg.cpp\<close> with \<open>RtcClient.h\<close> is the client: it prints
  requests with the library, gives them to the transport, and gets from it the texts of the server, which it
  parses and dispatches to the requests and users they belong to.  WebRTC calls it with tracks and candidates.

  \<^bold>\<open>How C is modelled.\<close>  A result in \<open>option\<close> is \<open>None\<close> where the code has undefined behaviour: an access
  outside an object, through a null or freed pointer, a second \<open>free\<close>, a conversion out of range.  So a
  property that a function returns \<open>Some\<close> says that it is memory safe and ends.  \<open>int\<close> is a 32-bit word or
  an integer within its range, \<open>size_t\<close> has 64 bits, \<open>long\<close> 32 (Windows), \<open>double\<close> is the model of IEEE
  binary64 in \<open>Doubles\<close>.  Allocation is a parameter of the state: \<open>may_alloc m k\<close> tells whether request \<open>k\<close>
  is served, so that every property holds, or says what it needs, whichever requests fail.

  \<^bold>\<open>Theories.\<close>
  \<^item> \<open>Prelude\<close>: bytes, C strings, checked access, the hints the proofs share.
  \<^item> \<open>Doubles\<close>, \<open>Number_Text\<close>: numbers, \<open>strtod\<close> and \<open>sprintf\<close>, and how the one reads what the other wrote.
  \<^item> \<open>Item\<close>: \<open>struct cJSON\<close> as a tree, type bits, getters (\<open>cJSON.h\<close>), the hooks and the count of blocks.
  \<^item> \<open>Scan\<close>, \<open>Parser\<close>: \<open>parse_number\<close>, \<open>parse_string\<close>, \<open>parse_value\<close>, \<open>cJSON_Parse\<close> and its
    variants; \<open>Scan_Safety\<close>, \<open>Parser_Safety\<close>: no access outside the text, termination, no block lost,
    the nesting bound.
  \<^item> \<open>Printer\<close>: \<open>ensure\<close>, \<open>print_value\<close>, \<open>cJSON_Print\<close> and its variants; \<open>Printer_Correct\<close>: they
    implement the recursive \<open>render\<close>, with growing, fixed and failing buffers.  \<open>Roundtrip\<close>: parsing
    inverts printing; the one over-read of the parser.
  \<^item> \<open>Minify\<close>: \<open>cJSON_Minify\<close>; formatted text becomes the unformatted one.
  \<^item> \<open>Nodes\<close>, \<open>Create\<close>: items as nodes of a heap with \<open>next\<close>, \<open>prev\<close>, \<open>child\<close>, for the code that edits
    them.  \<open>Links\<close>, \<open>Owned\<close>, \<open>Copy\<close>: which lists of children and which trees a heap holds, what
    \<open>cJSON_Delete\<close> frees, what \<open>cJSON_Duplicate\<close> copies.  \<open>Editing\<close>, \<open>Members\<close>: the editing functions do to
    the heap what operations of lists do to the list of children; look-up by name; the create-and-add functions.
    \<open>Comparing\<close>: \<open>cJSON_Compare\<close> is the recursive equality.
  \<^item> \<open>Paths\<close>, \<open>Pointer_Laws\<close>: JSON pointers and RFC 6901.  \<open>Patch\<close>, \<open>Merge\<close>: patches, their generation, merge
    patches; \<open>Sorting_Members\<close>, \<open>Patching\<close>: the merge sort and what an addition after it loses, and patches that add to or
    remove from an array;
    \<open>Merging\<close>: merge patches compute the merge of values of RFC 7396, and own exactly the memory of the result.
  \<^item> \<open>Composing\<close>: what one composed patch appends.  \<open>Generating\<close>, \<open>Object_Patches\<close>: the generated patches are a
    recursive function of the two values; over arrays, over objects and for the entry points.  \<open>Replaying\<close>: the
    operations of RFC 6902 on values, and that replaying generated patches makes the target out of the source.
  \<^item> \<open>WsClient\<close>: the transport, its queue as a first-in-first-out channel, the size of its buffer, the joining
    of fragments, and after how many callbacks stopping it ends.
  \<^item> \<open>Signalling\<close>: the client; \<open>Signalling_Laws\<close>: invariants of its users and windows in every reachable
    state; \<open>Request_Laws\<close>: requests as a JSON parser reads them, the way of a response to its request.
    \<open>Closing\<close>: what closing the window sends, and what the dialog does while the transport is being stopped; the
    property below puts it together with the transport.
  \<^item> \<open>Video_Render\<close>: the renderer of \<open>rtc/video_render_gdi.cpp\<close>: its buffers, what a frame of WebRTC does to
    them, the list of the pictures it draws; the options \<open>rtc/rtc_manager.cpp\<close> derives from its configuration.

  \<^bold>\<open>Interfaces.\<close>  Where one part relies on another, a locale states on what, and an interpretation in the
  theory of the provider discharges it for the code: \<open>item_reader\<close>, \<open>value_reader\<close> and \<open>element_reader\<close> (what
  arrays and objects need of the readers of values, names and elements), \<open>child_list\<close> and \<open>indexed_list\<close>
  (edits of chains, by pointer and by index), \<open>constructor\<close> (what adding a created member needs), \<open>channel\<close>
  (the queue of the transport), \<open>dialog_steps\<close> (a condition on the dialog
  that each of its operations keeps is kept by the handling of every input) and \<open>dialog_invariant\<close> (what an
  invariant must survive to hold in every reachable state), which gives the former by a \<open>sublocale\<close>.

  \<^bold>\<open>Fuel.\<close>  Recursion over nested values takes fuel where it is not structural.  \<open>parse_fuel\<close> is two
  more than the length of the text, of which each level of nesting takes a byte.  Functions on nodes take \<open>depth_fuel\<close>, one more than the
  number of nodes the heap ever had, which exceeds the depth of any tree in it.  The properties are stated for
  the entry points, which pass these, and show that a result is returned.  Loops along a chain of siblings
  are partial functions with the value \<open>None\<close> when the chain is circular.

  \<^bold>\<open>What outside code is assumed to do.\<close>  Of libwebsockets the properties name what they use: \<open>takes_all\<close> (a
  write takes or buffers all it is given); which callbacks it gives, asked for or not, is an input.  What WebRTC answers is the argument \<open>rtc\<close> of the client and may differ at every step.  Of libyuv the renderer
  relies on \<open>yuv_ok\<close> (rotation and conversion fill exactly the rows of the picture), of the frames of WebRTC on
  \<open>frame_ok\<close> (strides and planes that are enough for their size).

  \<^bold>\<open>Not modelled.\<close>  The glue to WebRTC and the camera (\<open>rtc/\<close>, but for the renderer, the options, and the
  tracks that reach the dialog), which calls third-party objects and keeps no logic of its own; the calls of GDI
  that bring a picture to the screen; windows, painting and resources; the log, whose
  format strings are listed among the findings; the release of \<open>rtc_manager_\<close> with the window, so that the
  steps after \<open>Close\<close> are more than the program can do; failing allocations while a request is built (the model of
  the tree functions has them, that of the client takes its requests as built); the vendored headers; the
  interleaving of the dialog's own threads within one handler, as each handler is one step.  The generation of
  merge patches is modelled without properties.
\<close>

section \<open>The client and its transport together\<close>

text \<open>C34: Closing the window while the local stream is published: the dialog sends two requests, to unpublish and to
  leave, and drops the transport, which stops it.  As long as the connection stays, and whatever is received
  meanwhile and however the dialog handles it, stopping does not return before two callbacks for writing have
  come, and returns with both requests sent in the turn after the second.  But the two requests asked for one
  callback: after the first none is asked for, so if none comes unasked the request to leave is never sent and
  the window never closes.  The run is defined unless a received message makes the dialog's own handler undefined.\<close>

theorem closing_needs_second_callback:
  assumes "joined_room d" and "local_published d" and "websocket d" and "\<forall>k. may_alloc (gmem (json d)) k"
    and "unescaped_end (cstring (own_mid d))" and "unescaped_end (cstring (room_id d))"
    and "length (own_mid d) + length (room_id d) + length (user_id d) \<le> 5000"
    and "ws_ok (c, l)" and "lws_thread c" and "lws_client c" and "message_queue c = []"
    and "takes_all accepts" and "\<forall>t \<in> set (turns @ [t]). quiet t"
  shows "\<exists>d' t1 t2. OnDestroy d = Some d' \<and> outbox d' = outbox d @ [t1, t2] \<and> asks ''unpublish'' t1 \<and> asks ''leave'' t2 \<and>
    (\<forall>r. turn_writes turns < 2 \<and> stop accepts (dialog_receiver rtc) turns countdown (fold sendMessage [t1, t2] (c, l)) d' = Some r \<longrightarrow>
      (\<exists>n s e. r = Running n s e \<and> sent_texts s = sent_texts (c, l) @ take (turn_writes turns) [t1, t2] \<and>
        waiting_texts s = drop (turn_writes turns) [t1, t2] \<and> (wanted (snd s) \<longleftrightarrow> turn_writes turns = 0))) \<and>
    (\<forall>r. 2 \<le> turn_writes turns \<and> stop accepts (dialog_receiver rtc) (turns @ [t]) countdown (fold sendMessage [t1, t2] (c, l)) d' = Some r \<longrightarrow>
      (\<exists>s e. r = Left s e \<and> sent_texts s = sent_texts (c, l) @ [t1, t2])) \<and>
    ((\<forall>t \<in> set (turns @ [t]). \<forall>inp final. CLIENT_RECEIVE inp final \<notin> set (callbacks t)) \<longrightarrow>
      stop accepts (dialog_receiver rtc) (if turn_writes turns < 2 then turns else turns @ [t]) countdown
        (fold sendMessage [t1, t2] (c, l)) d' \<noteq> None)"
proof -
  obtain d' t1 t2 where d': "OnDestroy d = Some d'" "offline (outbox d @ [t1, t2]) d'" "asks ''unpublish'' t1" "asks ''leave'' t2"
    "nulfree t1" "nulfree t2" "goes_through t1" "goes_through t2" using OnDestroy_sends [OF assms(1-7)] by blast
  let ?c = "c\<lparr>message_queue := [t1, t2], no_msg := False\<rparr>" and ?l = "l\<lparr>wanted := True\<rparr>"
  let ?run = "if turn_writes turns < 2 then turns else turns @ [t]"
  have s: "fold sendMessage [t1, t2] (c, l) = (?c, ?l)" using assms(10,11) by (simp add: sendMessage_def)
  have e: "surroundings (message_queue ?c) accepts (offline (outbox d @ [t1, t2])) (dialog_receiver rtc)"
    using d'(5-8) assms(12) dialog_mute by (simp add: surroundings_def)
  have c: "ws_ok (?c, ?l)" "lws_thread ?c" "lws_client ?c" "wanted ?l" using assms(8-10) by (simp_all add: ws_ok_def)
  have q: "\<forall>t \<in> set ?run. quiet t" "turn_writes ?run < length (message_queue ?c) \<or>
    ?run \<noteq> [] \<and> length (message_queue ?c) \<le> turn_writes (butlast ?run)" using assms(13) by simp_all
  note st = stop_counts [OF e c d'(2) q, where countdown = countdown]
  have w: "waiting_texts (?c, ?l) = [t1, t2]" "sent_texts (?c, ?l) = sent_texts (c, l)"
    using d'(5,6) by (simp_all add: waiting_texts_def sent_texts_def)
  have res: "stop_result (turn_writes ?run) (?c, ?l) r" if "stop accepts (dialog_receiver rtc) ?run countdown (?c, ?l) d' = Some r" for r
    using st(1) that by (simp add: pred_option_iff)
  have running: "\<exists>n s e. r = Running n s e \<and> sent_texts s = sent_texts (c, l) @ take (turn_writes turns) [t1, t2] \<and>
      waiting_texts s = drop (turn_writes turns) [t1, t2] \<and> (wanted (snd s) \<longleftrightarrow> turn_writes turns = 0)"
    if "turn_writes turns < 2" "stop accepts (dialog_receiver rtc) turns countdown (?c, ?l) d' = Some r" for r
    using res [of r] that by (cases r) (auto simp: stop_result_def w)
  have le: "turn_writes turns \<le> turn_writes (turns @ [t])" by (simp add: turn_writes_def writes_def)
  have left: "\<exists>s e. r = Left s e \<and> sent_texts s = sent_texts (c, l) @ [t1, t2]"
    if "2 \<le> turn_writes turns" "stop accepts (dialog_receiver rtc) (turns @ [t]) countdown (?c, ?l) d' = Some r" for r
    using res [of r] that le by (cases r) (auto simp: stop_result_def w)
  have heard: "stop accepts (dialog_receiver rtc) ?run countdown (?c, ?l) d' \<noteq> None"
    if r: "\<forall>t \<in> set (turns @ [t]). \<forall>inp final. CLIENT_RECEIVE inp final \<notin> set (callbacks t)"
  proof -
    have "\<forall>t \<in> set ?run. \<forall>r \<in> set (callbacks t). \<forall>u. calls r u \<longrightarrow> (\<forall>m. u \<noteq> call_onReceiveMessage m)"
    proof (intro ballI allI impI)
      fix t' r u m assume "t' \<in> set ?run" "r \<in> set (callbacks t')" "calls r u"
      then show "u \<noteq> call_onReceiveMessage m" using r by (cases r) (auto simp: calls_def split: if_splits)
    qed
    from st(2) [OF dialog_hears this] show ?thesis .
  qed
  have ob: "outbox d' = outbox d @ [t1, t2]" using d'(2) by (simp add: offline_def)
  show ?thesis
    by (rule exI [of _ d'], rule exI [of _ t1], rule exI [of _ t2], unfold s) (use d'(1,3,4) ob running left heard in blast)
qed

theorem closing_needs_second_callback_witness:
  "\<exists>d' t1 t2 n s e. OnDestroy ((OnInitDialog ''me'' 41 initial_globals)\<lparr>joined_room := True, local_published := True, room_id := ''room''\<rparr>) =
      Some d' \<and> outbox d' = [t1, t2] \<and>
    stop (\<lambda>k. int) (dialog_receiver \<lparr>makes_connection = (\<lambda>_. True), camera = Some ''cam'', local_description = (\<lambda>_. None)\<rparr>)
      (\<lparr>others = [], connects = True, callbacks = [CLIENT_WRITEABLE 0 0]\<rparr> #
       replicate 1000 \<lparr>others = [], connects = True, callbacks = [CLIENT_RECEIVE_PONG]\<rparr>) 5
      (fold sendMessage [t1, t2] ((new_WsClient [])\<lparr>lws_thread := True, lws_client := True\<rparr>, \<lparr>wanted = False, frames = []\<rparr>)) d' =
      Some (Running n s e) \<and> waiting_texts s = [t2] \<and> \<not> wanted (snd s)"
proof -
  let ?d = "(OnInitDialog ''me'' 41 initial_globals)\<lparr>joined_room := True, local_published := True, room_id := ''room''\<rparr>"
  let ?c = "(new_WsClient [])\<lparr>lws_thread := True, lws_client := True\<rparr>" and ?l = "\<lparr>wanted = False, frames = []\<rparr>"
  let ?ts = "\<lparr>others = [], connects = True, callbacks = [CLIENT_WRITEABLE 0 0]\<rparr> #
    replicate 1000 \<lparr>others = [], connects = True, callbacks = [CLIENT_RECEIVE_PONG]\<rparr>"
  have d: "joined_room ?d" "local_published ?d" "websocket ?d" "\<forall>k. may_alloc (gmem (json ?d)) k"
    "unescaped_end (cstring (own_mid ?d))" "unescaped_end (cstring (room_id ?d))"
    "length (own_mid ?d) + length (room_id ?d) + length (user_id ?d) \<le> 5000" "outbox ?d = []"
    by (simp_all add: OnInitDialog_def initial_globals_def initial_mem_def unescaped_end_def cstring_def)
  have c: "ws_ok (?c, ?l)" "lws_thread ?c" "lws_client ?c" "message_queue ?c = []" "takes_all (\<lambda>k. int)"
    "\<forall>t \<in> set (?ts @ [hd ?ts]). quiet t" "\<forall>t \<in> set (?ts @ [hd ?ts]). \<forall>inp final. CLIENT_RECEIVE inp final \<notin> set (callbacks t)"
    by (auto simp: ws_ok_def new_WsClient_def takes_all_def quiet_def closing_def)
  have "turn_writes (replicate k \<lparr>others = [], connects = True, callbacks = [CLIENT_RECEIVE_PONG]\<rparr>) = 0" for k by (induction k) simp_all
  then have w: "turn_writes ?ts = 1" by simp
  from closing_needs_second_callback [OF d(1-7) c(1-6), of "\<lparr>makes_connection = (\<lambda>_. True), camera = Some ''cam'', local_description = (\<lambda>_. None)\<rparr>" 5] c(7)
  show ?thesis unfolding d(8) w by (auto simp del: fold_simps)
qed

end
